(* ===== verification/Prelude.thy ===== *)
theory Prelude
  imports Complex_Main "HOL-Library.AList"
begin

section \<open>Shared vocabulary of the Klein development\<close>

text \<open>
  What every component theory uses: Python exceptions as values, results that may be an
  exception, dynamically typed scalars (for the argument checks that tell \<open>bool\<close> from
  \<open>int\<close>), dictionaries as association lists in insertion order (\<open>AList.update\<close>
  keeps the position of an existing key and appends a new one, as a Python dict does), and the
  generic lemmas on them. Python's unbounded integers are \<open>int\<close>, wall-clock and monotonic
  times are \<open>rat\<close>.
\<close>

subsection \<open>Exceptions and results\<close>

datatype py_error =
    ValueError
  | TypeError
  | RuntimeError
  | KeyError
  | IndexError
  | AttributeError
  | ZeroDivisionError
  | StructError
  | CapacityError
  | ActorUnavailableError
  | AssertionError
  | TimeoutError
  | PlacementError
  | PlacementCleanupError
  | DeploymentError

type_synonym 'a result = "py_error + 'a"

definition rbind :: "'a result \<Rightarrow> ('a \<Rightarrow> 'b result) \<Rightarrow> 'b result" where
  "rbind r f = (case r of Inl e \<Rightarrow> Inl e | Inr x \<Rightarrow> f x)"

definition require :: "bool \<Rightarrow> py_error \<Rightarrow> unit result" where
  "require ok e = (if ok then Inr () else Inl e)"

fun rmap :: "('a \<Rightarrow> 'b result) \<Rightarrow> 'a list \<Rightarrow> 'b list result" where
  "rmap f [] = Inr []"
| "rmap f (x # xs) =
     rbind (f x) (\<lambda>y. rbind (rmap f xs) (\<lambda>ys. Inr (y # ys)))"

fun rfold :: "('a \<Rightarrow> 's \<Rightarrow> 's result) \<Rightarrow> 'a list \<Rightarrow> 's \<Rightarrow> 's result" where
  "rfold f [] s = Inr s"
| "rfold f (x # xs) s = rbind (f x s) (rfold f xs)"

subsection \<open>Dynamically typed scalars\<close>

datatype pyobj =
    PNone
  | PBool bool
  | PInt int
  | PFloat rat
  | PStr string
  | PObject nat

text \<open>The guard \<open>isinstance(x, bool) or not isinstance(x, int)\<close> that raises \<open>TypeError\<close>.\<close>

definition as_int :: "pyobj \<Rightarrow> int result" where
  "as_int x = (case x of PInt i \<Rightarrow> Inr i | _ \<Rightarrow> Inl TypeError)"

text \<open>The same guard for a number: \<open>isinstance(x, bool) or not isinstance(x, (int, float))\<close>.\<close>

definition as_real :: "pyobj \<Rightarrow> rat result" where
  "as_real x = (case x of PInt i \<Rightarrow> Inr (of_int i) | PFloat q \<Rightarrow> Inr q | _ \<Rightarrow> Inl TypeError)"

subsection \<open>Decimal representation of integers\<close>

fun show_nat :: "nat \<Rightarrow> string" where
  "show_nat n =
     (if n < 10 then [char_of (48 + n)] else show_nat (n div 10) @ [char_of (48 + n mod 10)])"

declare show_nat.simps [simp del]

definition show_int :: "int \<Rightarrow> string" where
  "show_int i = (if i < 0 then ''-'' @ show_nat (nat (- i)) else show_nat (nat i))"

subsection \<open>Collections of rules\<close>

named_theorems result_simps \<open>unfolding of the exception plumbing\<close>
named_theorems dict_simps \<open>lookups in updated dictionaries\<close>
named_theorems inv_intros \<open>preservation of component invariants\<close>

lemma rbind_Inl [simp]: "rbind (Inl e) f = Inl e"
  by (simp add: rbind_def)

lemma rbind_Inr [simp]: "rbind (Inr x) f = f x"
  by (simp add: rbind_def)

lemma rbind_eq_Inr_iff [result_simps]:
  "rbind r f = Inr y \<longleftrightarrow> (\<exists>x. r = Inr x \<and> f x = Inr y)"
  by (cases r) auto

lemma rbind_eq_Inl_iff [result_simps]:
  "rbind r f = Inl e \<longleftrightarrow> r = Inl e \<or> (\<exists>x. r = Inr x \<and> f x = Inl e)"
  by (cases r) auto

lemma require_eq_Inr_iff [result_simps]: "require ok e = Inr u \<longleftrightarrow> ok"
  by (simp add: require_def)

lemma require_eq_Inl_iff [result_simps]: "require ok e = Inl e' \<longleftrightarrow> \<not> ok \<and> e' = e"
  by (auto simp: require_def)

lemma require_True [simp]: "require True e = Inr ()"
  by (simp add: require_def)

lemma require_False [simp]: "require False e = Inl e"
  by (simp add: require_def)

lemma as_int_PInt [simp]: "as_int (PInt i) = Inr i"
  by (simp add: as_int_def)

lemma as_int_eq_Inr_iff [result_simps]: "as_int x = Inr i \<longleftrightarrow> x = PInt i"
  by (cases x) (auto simp: as_int_def)

lemma rmap_total: "(\<And>x. x \<in> set xs \<Longrightarrow> \<exists>y. f x = Inr y) \<Longrightarrow> \<exists>ys. rmap f xs = Inr ys"
proof (induction xs)
  case (Cons x xs)
  then obtain y ys where "f x = Inr y" "rmap f xs = Inr ys" by (meson list.set_intros)
  then show ?case by simp
qed simp

lemma rmap_Inr_map: "(\<And>x. x \<in> set xs \<Longrightarrow> f x = Inr (g x)) \<Longrightarrow> rmap f xs = Inr (map g xs)"
  by (induction xs) auto

lemma rmap_length: "rmap f xs = Inr ys \<Longrightarrow> length ys = length xs"
  by (induction xs arbitrary: ys) (auto simp: result_simps)

lemma rmap_nth: "rmap f xs = Inr ys \<Longrightarrow> i < length xs \<Longrightarrow> f (xs ! i) = Inr (ys ! i)"
proof (induction xs arbitrary: ys i)
  case (Cons x xs)
  then obtain y zs where "f x = Inr y" "rmap f xs = Inr zs" "ys = y # zs"
    by (auto simp: result_simps)
  with Cons show ?case by (cases i) auto
qed simp

lemma rfold_invariant:
  assumes "I [] s" "\<And>pre x rest s. xs = pre @ x # rest \<Longrightarrow> I pre s \<Longrightarrow> \<exists>s'. f x s = Inr s' \<and> I (pre @ [x]) s'"
  shows "\<exists>s'. rfold f xs s = Inr s' \<and> I xs s'"
proof -
  have "\<exists>s'. rfold f rest s = Inr s' \<and> I xs s'" if "xs = pre @ rest" "I pre s" for pre rest s
    using that
  proof (induction rest arbitrary: pre s)
    case (Cons x rest)
    then obtain s1 where "f x s = Inr s1" "I (pre @ [x]) s1" using assms(2) by blast
    with Cons.IH [of "pre @ [x]" s1] Cons.prems show ?case by simp
  qed simp
  from this [of "[]" xs s] assms(1) show ?thesis by simp
qed

lemma rfold_preserves:
  assumes "rfold f xs s = Inr s'" "I [] s"
    and "\<And>pre x rest s s1. xs = pre @ x # rest \<Longrightarrow> I pre s \<Longrightarrow> f x s = Inr s1 \<Longrightarrow> I (pre @ [x]) s1"
  shows "I xs s'"
proof -
  have "I xs s'" if "xs = pre @ rest" "I pre s" "rfold f rest s = Inr s'" for pre rest s
    using that
  proof (induction rest arbitrary: pre s)
    case (Cons x rest)
    then obtain s1 where "f x s = Inr s1" "rfold f rest s1 = Inr s'" by (auto simp: result_simps)
    with Cons.IH [of "pre @ [x]" s1] Cons.prems assms(3) show ?case by simp
  qed simp
  from this [of "[]" xs s] assms(1,2) show ?thesis by simp
qed

subsection \<open>Dictionaries\<close>

type_synonym ('k, 'v) dict = "('k \<times> 'v) list"

definition dict_get :: "('k, 'v) dict \<Rightarrow> 'k \<Rightarrow> 'v \<Rightarrow> 'v" where
  "dict_get d k v0 = (case map_of d k of None \<Rightarrow> v0 | Some v \<Rightarrow> v)"

definition dict_item :: "('k, 'v) dict \<Rightarrow> 'k \<Rightarrow> 'v result" where
  "dict_item d k = (case map_of d k of None \<Rightarrow> Inl KeyError | Some v \<Rightarrow> Inr v)"

definition dict_setdefault :: "'k \<Rightarrow> 'v \<Rightarrow> ('k, 'v) dict \<Rightarrow> ('k, 'v) dict" where
  "dict_setdefault k v d = (case map_of d k of None \<Rightarrow> AList.update k v d | Some _ \<Rightarrow> d)"

abbreviation keys :: "('k, 'v) dict \<Rightarrow> 'k list" where
  "keys d \<equiv> map fst d"

abbreviation wf_dict :: "('k, 'v) dict \<Rightarrow> bool" where
  "wf_dict d \<equiv> distinct (map fst d)"

lemma map_of_update [simp, dict_simps]:
  "map_of (AList.update k v d) k' = (if k' = k then Some v else map_of d k')"
  by (simp add: update_conv')

lemma map_of_delete [simp, dict_simps]:
  "map_of (AList.delete k d) k' = (if k' = k then None else map_of d k')"
  by (simp add: delete_conv')

lemma map_of_setdefault [simp, dict_simps]:
  "map_of (dict_setdefault k v d) k' =
     (if k' = k \<and> map_of d k = None then Some v else map_of d k')"
  by (auto simp: dict_setdefault_def split: option.splits)

lemma update_update_same [simp]: "AList.update k v (AList.update k w d) = AList.update k v d"
  by (induction d) auto

lemma update_append_new: "k \<notin> fst ` set d \<Longrightarrow> AList.update k v d = d @ [(k, v)]"
  by (induction d) auto

lemma update_mem: "x \<in> set (AList.update k v d) \<Longrightarrow> x = (k, v) \<or> x \<in> set d"
  by (induction d) (auto split: if_splits)

lemma delete_mem: "x \<in> set (AList.delete k d) \<Longrightarrow> x \<in> set d"
  by (induction d) (auto split: if_splits)

lemma wf_dict_update [simp]: "wf_dict (AList.update k v d) = wf_dict d"
proof (induction d)
  case (Cons p d)
  have "fst ` set (AList.update k v d) = insert k (fst ` set d)"
    using dom_update [of k v d] by (simp add: dom_map_of_conv_image_fst)
  with Cons show ?case by auto
qed simp

lemma wf_dict_delete [simp, intro]: "wf_dict d \<Longrightarrow> wf_dict (AList.delete k d)"
  by (rule distinct_delete)

lemma wf_dict_setdefault [simp]: "wf_dict (dict_setdefault k v d) = wf_dict d"
  by (simp add: dict_setdefault_def split: option.splits)

lemma keys_setdefault [simp]: "set (keys (dict_setdefault k v d)) = insert k (set (keys d))"
proof (cases "map_of d k")
  case None
  then show ?thesis
    using dom_update [of k v d]
    by (simp add: dict_setdefault_def dom_map_of_conv_image_fst)
next
  case (Some w)
  then have "k \<in> set (keys d)" by (auto dest!: map_of_SomeD intro!: image_eqI [of _ fst])
  with Some show ?thesis by (auto simp: dict_setdefault_def)
qed

lemma keys_update [simp]: "set (keys (AList.update k v d)) = insert k (set (keys d))"
  using dom_update [of k v d] by (simp add: dom_map_of_conv_image_fst)

lemma keys_update_image [simp]: "fst ` set (AList.update k v d) = insert k (fst ` set d)"
  using keys_update [of k v d] by simp

lemma values_iff_map_of:
  "wf_dict d \<Longrightarrow> v \<in> set (map snd d) \<longleftrightarrow> (\<exists>k. map_of d k = Some v)"
  by (force simp: in_set_conv_nth intro: map_of_is_SomeI dest: map_of_SomeD)

lemma values_update:
  assumes "wf_dict d"
  shows "x \<in> set (map snd (AList.update k v d)) \<longleftrightarrow> x = v \<or> (\<exists>k'. k' \<noteq> k \<and> map_of d k' = Some x)"
  using values_iff_map_of [of "AList.update k v d" x] assms by auto

text \<open>The union of a set-valued measure over the values of a dictionary.\<close>

definition dict_union :: "('v \<Rightarrow> 'w set) \<Rightarrow> ('k, 'v) dict \<Rightarrow> 'w set" where
  "dict_union f d = (\<Union>x \<in> set d. f (snd x))"

lemma dict_union_Nil [simp]: "dict_union f [] = {}"
  by (simp add: dict_union_def)

lemma dict_union_Cons [simp]: "dict_union f ((k, v) # d) = f v \<union> dict_union f d"
  by (simp add: dict_union_def)

lemma dict_union_update:
  "(\<And>old. map_of d k = Some old \<Longrightarrow> f old \<subseteq> f v) \<Longrightarrow>
   dict_union f (AList.update k v d) = f v \<union> dict_union f d"
  by (induction d) auto

lemma dict_union_delete:
  "wf_dict d \<Longrightarrow> dict_union f (AList.delete k d) \<union> (case map_of d k of None \<Rightarrow> {} | Some v \<Rightarrow> f v) = dict_union f d"
proof (induction d)
  case (Cons x d)
  obtain k' v where x: "x = (k', v)" by force
  show ?case
  proof (cases "k = k'")
    case True
    then have "k \<notin> fst ` set d" using Cons.prems by (auto simp: x)
    then have "AList.delete k d = d" by (induction d) auto
    then show ?thesis using True by (simp add: x Un_commute)
  next
    case False
    then have "dict_union f (AList.delete k (x # d)) = f v \<union> dict_union f (AList.delete k d)"
      "map_of (x # d) k = map_of d k" by (simp_all add: x)
    then show ?thesis using Cons by (auto simp: x)
  qed
qed simp

lemma dict_union_mono: "(\<And>v. f v \<subseteq> g v) \<Longrightarrow> dict_union f d \<subseteq> dict_union g d"
  by (auto simp: dict_union_def)

lemma dict_unionI: "map_of d k = Some v \<Longrightarrow> w \<in> f v \<Longrightarrow> w \<in> dict_union f d"
  by (force simp: dict_union_def dest: map_of_SomeD)

lemma in_values_map_of: "map_of d k = Some v \<Longrightarrow> v \<in> snd ` set d"
  by (force dest: map_of_SomeD)

lemma wf_dict_mem_iff: "wf_dict d \<Longrightarrow> (k, v) \<in> set d \<longleftrightarrow> map_of d k = Some v"
  by (auto intro: map_of_is_SomeI dest: map_of_SomeD)

lemma map_of_None_keys: "map_of d k = None \<longleftrightarrow> k \<notin> set (keys d)"
  by (simp add: map_of_eq_None_iff)

subsection \<open>Integer division, ceilings and rings\<close>

lemma le_div_iff_mult_le:
  fixes a m i :: int
  assumes "0 < m"
  shows "i \<le> a div m \<longleftrightarrow> i * m \<le> a"
proof
  assume "i \<le> a div m"
  then have "i * m \<le> (a div m) * m" using assms by (simp add: mult_right_mono)
  also have "\<dots> \<le> a" using assms by (simp add: minus_mod_eq_div_mult [symmetric])
  finally show "i * m \<le> a" .
next
  assume "i * m \<le> a"
  then have "(i * m) div m \<le> a div m" using assms by (rule zdiv_mono1)
  then show "i \<le> a div m" using assms by simp
qed

lemma ceil_div_le_iff:
  fixes a g p :: int
  assumes "0 < p"
  shows "(a + p - 1) div p \<le> g \<longleftrightarrow> a \<le> g * p"
  using le_div_iff_mult_le [OF assms, of "g + 1" "a + p - 1"] by (auto simp: algebra_simps)

lemma div_eq_iff_bounds:
  fixes a m i :: int
  assumes "0 < m"
  shows "a div m = i \<longleftrightarrow> i * m \<le> a \<and> a < (i + 1) * m"
  using le_div_iff_mult_le [OF assms, of i a] le_div_iff_mult_le [OF assms, of "i + 1" a] by auto

lemma nth_rotation:
  assumes "start < length xs" "i < length xs"
  shows "(drop start xs @ take start xs) ! i = xs ! ((start + i) mod length xs)"
proof (cases "start + i < length xs")
  case True
  then have "i < length xs - start" by simp
  with True assms show ?thesis by (simp add: nth_append)
next
  case False
  then have "(start + i) mod length xs = start + i - length xs"
    using assms by (simp add: mod_if)
  with False assms show ?thesis by (auto simp: nth_append add.commute)
qed

end
