(* ===== verification/Bytes.thy ===== *)
theory Bytes
  imports Prelude "HOL-Library.Word" "HOL-Library.List_Lexorder"
begin

section \<open>Byte strings and the struct formats the state codec uses\<close>

text \<open>
  A Python \<open>bytes\<close> value is a list of 8-bit words; \<open>sorted\<close> on it is the lexicographic
  order of \<open>HOL-Library.List_Lexorder\<close>. The formats are big-endian: \<open>>I\<close> (4 bytes,
  unsigned), \<open>>Q\<close> (8 bytes, unsigned) and \<open>>q\<close> (8 bytes, two's complement). A value
  out of the format's range raises \<open>struct.error\<close>. The lemmas show the round trips and
  that the unsigned formats preserve order, which the timer and expiry indexes rely on.
\<close>

type_synonym byte = "8 word"
type_synonym bytes = "byte list"

fun be_bytes :: "nat \<Rightarrow> nat \<Rightarrow> bytes" where
  "be_bytes 0 x = []"
| "be_bytes (Suc n) x = be_bytes n (x div 256) @ [of_nat (x mod 256)]"

definition be_value :: "bytes \<Rightarrow> nat" where
  "be_value bs = foldl (\<lambda>acc b. acc * 256 + unat b) 0 bs"

definition pack_unsigned :: "nat \<Rightarrow> int \<Rightarrow> bytes result" where
  "pack_unsigned n x =
     (if 0 \<le> x \<and> x < 256 ^ n then Inr (be_bytes n (nat x)) else Inl StructError)"

definition pack_signed :: "nat \<Rightarrow> int \<Rightarrow> bytes result" where
  "pack_signed n x =
     (if - (256 ^ n div 2) \<le> x \<and> x < 256 ^ n div 2
      then Inr (be_bytes n (nat (x mod 256 ^ n))) else Inl StructError)"

definition unpack_unsigned :: "bytes \<Rightarrow> int" where
  "unpack_unsigned bs = int (be_value bs)"

definition unpack_signed :: "bytes \<Rightarrow> int" where
  "unpack_signed bs =
     (let v = int (be_value bs); m = 256 ^ length bs in if v < m div 2 then v else v - m)"

definition slice :: "nat \<Rightarrow> nat \<Rightarrow> bytes \<Rightarrow> bytes" where
  "slice i j bs = take (j - i) (drop i bs)"

lemma length_be_bytes [simp]: "length (be_bytes n x) = n"
  by (induction n arbitrary: x) auto

lemma be_value_Nil [simp]: "be_value [] = 0"
  by (simp add: be_value_def)

lemma be_value_snoc [simp]: "be_value (bs @ [b]) = be_value bs * 256 + unat b"
  by (simp add: be_value_def)

lemma unat_byte_mod [simp]: "unat (of_nat (x mod 256) :: byte) = x mod 256"
  by (simp add: unat_of_nat)

lemma be_value_be_bytes: "x < 256 ^ n \<Longrightarrow> be_value (be_bytes n x) = x"
proof (induction n arbitrary: x)
  case (Suc n)
  have "x div 256 < 256 ^ n" using Suc.prems by (simp add: less_mult_imp_div_less mult.commute)
  with Suc.IH show ?case by simp
qed simp

lemma unat_byte_bound: "unat (b :: byte) < 256"
  using unsigned_less [of b, where 'a = nat] by simp

lemma be_value_bound: "be_value bs < 256 ^ length bs"
proof (induction bs rule: rev_induct)
  case (snoc b bs)
  have "unat b < 256" by (rule unat_byte_bound)
  with snoc show ?case by simp
qed simp

lemma be_bytes_be_value: "be_bytes (length bs) (be_value bs) = bs"
proof (induction bs rule: rev_induct)
  case (snoc b bs)
  have "unat b < 256" by (rule unat_byte_bound)
  with snoc show ?case by simp
qed simp

lemma be_bytes_inject:
  assumes "x < 256 ^ n" "y < 256 ^ n" "be_bytes n x = be_bytes n y"
  shows "x = y"
  using assms be_value_be_bytes by metis

lemma append_eq_length_conv:
  "length as = length bs \<Longrightarrow> as @ xs = bs @ ys \<longleftrightarrow> as = bs \<and> xs = ys"
  by simp

lemma lex_less_append_right:
  fixes as bs :: "'a :: linorder list"
  assumes "as < bs" "length as = length bs"
  shows "as @ xs < bs @ ys"
  using assms
proof (induction as arbitrary: bs)
  case (Cons a as)
  then obtain b bs' where [simp]: "bs = b # bs'" by (cases bs) auto
  show ?case using Cons by auto
qed simp

lemma lex_append_same_left:
  fixes xs ys :: "'a :: linorder list"
  shows "as @ xs < as @ ys \<longleftrightarrow> xs < ys"
  by (induction as) auto

lemma byte_of_nat_less_iff:
  "(of_nat (x mod 256) :: byte) < of_nat (y mod 256) \<longleftrightarrow> x mod 256 < y mod 256"
  by (simp add: word_less_nat_alt)

lemma be_bytes_less:
  "x < y \<Longrightarrow> y < 256 ^ n \<Longrightarrow> be_bytes n x < be_bytes n y"
proof (induction n arbitrary: x y)
  case (Suc n)
  have y: "y div 256 < 256 ^ n" using Suc.prems by (simp add: less_mult_imp_div_less mult.commute)
  show ?case
  proof (cases "x div 256 = y div 256")
    case True
    then have "x mod 256 < y mod 256"
      using Suc.prems(1) by (metis div_mult_mod_eq nat_add_left_cancel_less)
    with True show ?thesis
      by (simp add: lex_append_same_left byte_of_nat_less_iff)
  next
    case False
    then have "x div 256 < y div 256" using Suc.prems(1) div_le_mono [of x y 256] by simp
    from Suc.IH [OF this y] show ?thesis by (simp add: lex_less_append_right)
  qed
qed simp

lemma be_bytes_less_iff:
  assumes "x < 256 ^ n" "y < 256 ^ n"
  shows "be_bytes n x < be_bytes n y \<longleftrightarrow> x < y"
  using assms be_bytes_less [of x y n] be_bytes_less [of y x n]
  by (metis less_asym linorder_neqE_nat order_less_irrefl)

lemma unpack_pack_unsigned: "pack_unsigned n x = Inr bs \<Longrightarrow> unpack_unsigned bs = x \<and> length bs = n"
proof -
  assume a: "pack_unsigned n x = Inr bs"
  then have x: "0 \<le> x" "x < 256 ^ n" and bs: "bs = be_bytes n (nat x)"
    by (auto simp: pack_unsigned_def split: if_splits)
  have "int (nat x) < int (256 ^ n)" using x by simp
  then have "nat x < 256 ^ n" by linarith
  with x bs show ?thesis by (simp add: unpack_unsigned_def be_value_be_bytes)
qed

lemma signed_residue:
  fixes x m :: int
  assumes "0 < m" "- (m div 2) \<le> x" "x < m div 2" "m div 2 + m div 2 = m"
  shows "(if x mod m < m div 2 then x mod m else x mod m - m) = x"
proof (cases "0 \<le> x")
  case True
  then have "x mod m = x" using assms by (intro mod_pos_pos_trivial) auto
  then show ?thesis using assms by simp
next
  case False
  have "(x + m) mod m = x + m" using assms False by (intro mod_pos_pos_trivial) auto
  then have "x mod m = x + m" by simp
  then show ?thesis using assms by simp
qed

lemma unpack_pack_signed:
  assumes "0 < n" "pack_signed n x = Inr bs"
  shows "unpack_signed bs = x \<and> length bs = n"
proof -
  define m :: int where "m = 256 ^ n"
  have m: "0 < m" by (simp add: m_def)
  obtain k where "n = Suc k" using assms(1) by (cases n) auto
  then have half: "m div 2 + m div 2 = m" by (simp add: m_def)
  from assms(2) have x: "- (m div 2) \<le> x" "x < m div 2" and bs: "bs = be_bytes n (nat (x mod m))"
    by (auto simp: pack_signed_def m_def split: if_splits)
  have r: "0 \<le> x mod m" "x mod m < m" using m by simp_all
  then have "nat (x mod m) < nat m" by simp
  also have "nat m = 256 ^ n" by (simp add: m_def nat_power_eq)
  finally have v: "int (be_value bs) = x mod m" using bs r by (simp add: be_value_be_bytes)
  have "m = 256 ^ length bs" using bs by (simp add: m_def)
  then have "unpack_signed bs = (if x mod m < m div 2 then x mod m else x mod m - m)"
    by (simp add: unpack_signed_def Let_def v)
  then show ?thesis using signed_residue [OF m x half] bs by simp
qed

end
