(* ===== verification/KeyGroups.thy ===== *)
theory KeyGroups
  imports Bytes
begin

section \<open>Key groups (state/key_group_range.py)\<close>

text \<open>
  Stable assignment of keys to key groups and of key groups to the subtasks of an operator.
  \<open>encode_key\<close> (whose outer representation is pickle) and the keyed BLAKE2b digest are
  parameters of \<open>key_group_for_key\<close>; everything after the digest is modelled. The lemmas
  show that the ranges handed to the subtasks and the owner computed for routing are the two
  views of one partition of \<open>[0, max_parallelism)\<close>.
\<close>

record key_group_range =
  kgr_start :: int
  kgr_end :: int

definition make_key_group_range :: "int \<Rightarrow> int \<Rightarrow> key_group_range result" where
  "make_key_group_range s e =
     (if s < 0 then Inl ValueError
      else if e < s then Inl ValueError
      else Inr \<lparr>kgr_start = s, kgr_end = e\<rparr>)"

definition kgr_contains :: "key_group_range \<Rightarrow> int \<Rightarrow> bool" where
  "kgr_contains r g \<longleftrightarrow> kgr_start r \<le> g \<and> g \<le> kgr_end r"

definition kgr_iter :: "key_group_range \<Rightarrow> int list" where
  "kgr_iter r = [kgr_start r..kgr_end r]"

definition kgr_len :: "key_group_range \<Rightarrow> int" where
  "kgr_len r = kgr_end r - kgr_start r + 1"

definition positive_int :: "pyobj \<Rightarrow> int result" where
  "positive_int x = rbind (as_int x) (\<lambda>v. if v < 1 then Inl ValueError else Inr v)"

definition validate_parallelism :: "pyobj \<Rightarrow> pyobj \<Rightarrow> (int \<times> int) result" where
  "validate_parallelism max_parallelism parallelism =
     rbind (positive_int max_parallelism) (\<lambda>m.
     rbind (positive_int parallelism) (\<lambda>p.
       if p > m then Inl ValueError else Inr (m, p)))"

definition assign_key_group_range :: "pyobj \<Rightarrow> pyobj \<Rightarrow> pyobj \<Rightarrow> key_group_range result" where
  "assign_key_group_range max_parallelism parallelism subtask_index =
     rbind (validate_parallelism max_parallelism parallelism) (\<lambda>(m, p).
     rbind (as_int subtask_index) (\<lambda>i.
       if \<not> (0 \<le> i \<and> i < p) then Inl ValueError
       else let s = (i * m + p - 1) div p;
                e = ((i + 1) * m + p - 1) div p - 1
            in make_key_group_range s e))"

definition key_group_owner :: "pyobj \<Rightarrow> pyobj \<Rightarrow> pyobj \<Rightarrow> int result" where
  "key_group_owner key_group max_parallelism parallelism =
     rbind (validate_parallelism max_parallelism parallelism) (\<lambda>(m, p).
     rbind (as_int key_group) (\<lambda>g.
       if \<not> (0 \<le> g \<and> g < m) then Inl ValueError
       else Inr ((g * p) div m)))"

definition key_group_for_key ::
  "('k \<Rightarrow> bytes result) \<Rightarrow> (bytes \<Rightarrow> bytes) \<Rightarrow> 'k \<Rightarrow> pyobj \<Rightarrow> int result" where
  "key_group_for_key encode_key blake2b key max_parallelism =
     rbind (as_int max_parallelism) (\<lambda>m.
       if m < 1 then Inl ValueError
       else rbind (encode_key key) (\<lambda>encoded.
         Inr (unpack_unsigned (blake2b encoded) mod m)))"

subsection \<open>Ranges and owners\<close>

lemma validate_parallelism_ok [simp]:
  "1 \<le> p \<Longrightarrow> p \<le> m \<Longrightarrow> validate_parallelism (PInt m) (PInt p) = Inr (m, p)"
  by (simp add: validate_parallelism_def positive_int_def)

lemma key_group_owner_ok:
  assumes "1 \<le> p" "p \<le> m" "0 \<le> g" "g < m"
  shows "key_group_owner (PInt g) (PInt m) (PInt p) = Inr ((g * p) div m)"
  using assms by (simp add: key_group_owner_def)

lemma owner_in_parallelism:
  fixes g m p :: int
  assumes "1 \<le> p" "p \<le> m" "0 \<le> g" "g < m"
  shows "0 \<le> (g * p) div m \<and> (g * p) div m < p"
proof -
  have "0 \<le> (g * p) div m" using assms by (simp add: div_int_pos_iff)
  moreover have "\<not> p \<le> (g * p) div m"
    using assms le_div_iff_mult_le [of m p "g * p"] by (simp add: mult.commute)
  ultimately show ?thesis by simp
qed

lemma range_bounds_valid:
  fixes i m p :: int
  assumes "1 \<le> p" "p \<le> m" "0 \<le> i" "i < p"
  shows "0 \<le> (i * m + p - 1) div p"
    and "(i * m + p - 1) div p \<le> ((i + 1) * m + p - 1) div p - 1"
proof -
  have "0 \<le> i * m" using assms by simp
  then have "0 \<le> i * m + p - 1" using assms by linarith
  then show "0 \<le> (i * m + p - 1) div p" using assms by (simp only: pos_imp_zdiv_nonneg_iff)
  define d where "d = (i * m + p - 1) div p"
  have "d * p \<le> i * m + p - 1"
    using assms le_div_iff_mult_le [of p d "i * m + p - 1"] by (simp add: d_def)
  then have "(d + 1) * p \<le> (i + 1) * m + p - 1" using assms by (simp add: algebra_simps)
  then have "d + 1 \<le> ((i + 1) * m + p - 1) div p" using assms le_div_iff_mult_le by simp
  then show "(i * m + p - 1) div p \<le> ((i + 1) * m + p - 1) div p - 1" by (simp add: d_def)
qed

lemma assign_key_group_range_ok:
  assumes "1 \<le> p" "p \<le> m" "0 \<le> i" "i < p"
  shows "assign_key_group_range (PInt m) (PInt p) (PInt i) =
    Inr \<lparr>kgr_start = (i * m + p - 1) div p, kgr_end = ((i + 1) * m + p - 1) div p - 1\<rparr>"
  using assms range_bounds_valid [OF assms]
  by (simp add: assign_key_group_range_def make_key_group_range_def Let_def)

lemma owner_iff_in_bounds:
  fixes g i m p :: int
  assumes "1 \<le> p" "p \<le> m"
  shows "(g * p) div m = i \<longleftrightarrow>
    (i * m + p - 1) div p \<le> g \<and> g \<le> ((i + 1) * m + p - 1) div p - 1"
proof -
  have p: "0 < p" and m: "0 < m" using assms by simp_all
  have "g \<le> ((i + 1) * m + p - 1) div p - 1 \<longleftrightarrow> \<not> ((i + 1) * m + p - 1) div p \<le> g" by auto
  also have "\<dots> \<longleftrightarrow> g * p < (i + 1) * m" by (simp add: ceil_div_le_iff [OF p] not_le)
  finally show ?thesis
    by (simp add: div_eq_iff_bounds [OF m] ceil_div_le_iff [OF p])
qed

text \<open>
  C33. The key-group range a subtask owns and the owner computed for routing agree: for every legal
  parallelism, key group \<open>g\<close> lies in the range assigned to subtask \<open>i\<close> exactly when
  \<open>key_group_owner\<close> names \<open>i\<close>; neither call raises, the owner is a legal subtask index,
  and every range is non-empty.
\<close>

theorem key_group_ranges_partition:
  assumes "1 \<le> p" "p \<le> m"
  shows "(\<forall>i. 0 \<le> i \<and> i < p \<longrightarrow>
      (\<exists>r. assign_key_group_range (PInt m) (PInt p) (PInt i) = Inr r \<and> 1 \<le> kgr_len r \<and>
        (\<forall>g. 0 \<le> g \<and> g < m \<longrightarrow>
          (kgr_contains r g \<longleftrightarrow> key_group_owner (PInt g) (PInt m) (PInt p) = Inr i)))) \<and>
    (\<forall>g. 0 \<le> g \<and> g < m \<longrightarrow>
      (\<exists>i. key_group_owner (PInt g) (PInt m) (PInt p) = Inr i \<and> 0 \<le> i \<and> i < p))"
proof (intro conjI allI impI)
  fix i :: int assume i: "0 \<le> i \<and> i < p"
  show "\<exists>r. assign_key_group_range (PInt m) (PInt p) (PInt i) = Inr r \<and> 1 \<le> kgr_len r \<and>
      (\<forall>g. 0 \<le> g \<and> g < m \<longrightarrow>
        (kgr_contains r g \<longleftrightarrow> key_group_owner (PInt g) (PInt m) (PInt p) = Inr i))"
    using assms i range_bounds_valid [of p m i]
    by (simp add: assign_key_group_range_ok kgr_len_def kgr_contains_def key_group_owner_ok
        owner_iff_in_bounds)
next
  fix g :: int assume "0 \<le> g \<and> g < m"
  then show "\<exists>i. key_group_owner (PInt g) (PInt m) (PInt p) = Inr i \<and> 0 \<le> i \<and> i < p"
    using assms key_group_owner_ok owner_in_parallelism by simp
qed

theorem key_group_ranges_partition_witness:
  "assign_key_group_range (PInt 128) (PInt 3) (PInt 1) = Inr \<lparr>kgr_start = 43, kgr_end = 85\<rparr>
   \<and> (\<exists>i. key_group_owner (PInt 85) (PInt 128) (PInt 3) = Inr i \<and> 0 \<le> i \<and> i < 3)"
  using key_group_ranges_partition [of 3 128] by (simp add: assign_key_group_range_ok)

text \<open>Consecutive subtasks own adjacent ranges, the first starts at 0 and the last ends at the maximum.\<close>

lemma key_group_ranges_contiguous:
  assumes "1 \<le> p" "p \<le> m"
  shows "0 \<le> i \<Longrightarrow> i + 1 < p \<Longrightarrow>
      assign_key_group_range (PInt m) (PInt p) (PInt i) = Inr r \<Longrightarrow>
      assign_key_group_range (PInt m) (PInt p) (PInt (i + 1)) = Inr r' \<Longrightarrow>
      kgr_start r' = kgr_end r + 1"
    and "assign_key_group_range (PInt m) (PInt p) (PInt 0) = Inr r \<Longrightarrow> kgr_start r = 0"
    and "assign_key_group_range (PInt m) (PInt p) (PInt (p - 1)) = Inr r \<Longrightarrow> kgr_end r = m - 1"
proof -
  show "kgr_start r' = kgr_end r + 1"
    if "0 \<le> i" "i + 1 < p" "assign_key_group_range (PInt m) (PInt p) (PInt i) = Inr r"
      "assign_key_group_range (PInt m) (PInt p) (PInt (i + 1)) = Inr r'"
    using that assms by (auto simp: assign_key_group_range_ok)
  show "kgr_start r = 0" if "assign_key_group_range (PInt m) (PInt p) (PInt 0) = Inr r"
    using that assms by (auto simp: assign_key_group_range_ok)
  have "(p * m + p - 1) div p = m"
    using assms div_eq_iff_bounds [of p "p * m + p - 1" m] by (simp add: algebra_simps)
  then show "kgr_end r = m - 1"
    if "assign_key_group_range (PInt m) (PInt p) (PInt (p - 1)) = Inr r"
    using that assms by (auto simp: assign_key_group_range_ok)
qed

lemma key_group_for_key_range:
  assumes "1 \<le> m" "encode_key key = Inr encoded"
  shows "\<exists>g. key_group_for_key encode_key blake2b key (PInt m) = Inr g \<and> 0 \<le> g \<and> g < m"
  using assms by (simp add: key_group_for_key_def)

end
