(* ===== verification/Messages.thy ===== *)
theory Messages
  imports Prelude
begin

section \<open>Messages and record blocks (runtime/message.py, collector/delivery_command.py, _internal/block.py)\<close>

text \<open>
  The values that travel on a channel: event-time controls, data records, barriers, channel
  identities, put acknowledgements and the commands an edge executes. A block is modelled in its
  native form, a mapping from column names to scalars (row shape) or to equal-position lists
  (columnar shape); the pyarrow and numpy representations of the same columns are not modelled.
  The lemmas show that the contiguous fast path of \<open>slice_block_rows\<close> selects the same rows
  as the per-index path.
\<close>

subsection \<open>Identities and controls\<close>

record vertex_id =
  job_vertex_id :: int
  vertex_index :: int

datatype stream_control =
    Watermark int
  | InputIdle
  | InputActive "int option"
  | RescaleBarrier string int

definition make_watermark :: "pyobj \<Rightarrow> stream_control result" where
  "make_watermark timestamp =
     rbind (as_int timestamp) (\<lambda>t. if t < 0 then Inl ValueError else Inr (Watermark t))"

definition make_input_active :: "pyobj \<Rightarrow> stream_control result" where
  "make_input_active resume =
     (case resume of
        PNone \<Rightarrow> Inr (InputActive None)
      | _ \<Rightarrow> rbind (as_int resume) (\<lambda>t.
               if t < 0 then Inl ValueError else Inr (InputActive (Some t))))"

definition py_isspace :: "char \<Rightarrow> bool" where
  "py_isspace c \<longleftrightarrow>
     (of_char c :: nat) \<in> {9, 10, 11, 12, 13, 28, 29, 30, 31, 32, 133, 160}"

definition py_strip :: "string \<Rightarrow> string" where
  "py_strip s = rev (dropWhile py_isspace (rev (dropWhile py_isspace s)))"

definition make_rescale_barrier :: "pyobj \<Rightarrow> pyobj \<Rightarrow> stream_control result" where
  "make_rescale_barrier operation_id target_operator_id =
     (case operation_id of
        PStr s \<Rightarrow>
          (if py_strip s = [] then Inl ValueError
           else rbind (as_int target_operator_id) (\<lambda>t. Inr (RescaleBarrier s t)))
      | _ \<Rightarrow> Inl ValueError)"

text \<open>
  \<open>DeliveryChannel.sender_vertex_id\<close> is typed \<open>object\<close>: it is an execution vertex id, or
  any other object, which the barrier aligner refuses as a sender.
\<close>

datatype sender_obj = SenderVertex vertex_id | SenderOther nat

record delivery_channel =
  sender_vertex :: sender_obj
  sender_task_name :: string
  edge_index :: int
  target_index :: int
  topology_epoch :: "string option"

record put_ack =
  accepted :: bool
  buffer_size :: int
  forwarded_sequence :: int

definition default_forwarded_sequence :: int where
  "default_forwarded_sequence = - 1"

subsection \<open>Blocks\<close>

datatype 'v block =
    RowBlock "(string \<times> 'v) list"
  | ColumnBlock "(string \<times> 'v list) list"

text \<open>Python indexing (negative indices count from the end) and slicing.\<close>

definition py_index :: "'a list \<Rightarrow> int \<Rightarrow> 'a result" where
  "py_index xs i =
     (if i < - int (length xs) \<or> int (length xs) \<le> i then Inl IndexError
      else Inr (xs ! nat (if i < 0 then int (length xs) + i else i)))"

definition slice_bound :: "int \<Rightarrow> int \<Rightarrow> nat" where
  "slice_bound n i = nat (if i < 0 then max 0 (n + i) else min n i)"

definition py_slice :: "'a list \<Rightarrow> int \<Rightarrow> int \<Rightarrow> 'a list" where
  "py_slice xs start stop =
     (let n = int (length xs); i = slice_bound n start; j = slice_bound n stop
      in take (j - i) (drop i xs))"

definition contiguous_slice :: "int list \<Rightarrow> (int \<times> int) option" where
  "contiguous_slice indices =
     (case indices of
        [] \<Rightarrow> Some (0, 0)
      | start # _ \<Rightarrow>
          (if \<exists>(offset, index) \<in> set (enumerate 0 indices). index \<noteq> start + int offset
           then None else Some (start, start + int (length indices))))"

definition slice_column :: "int list \<Rightarrow> 'v list \<Rightarrow> 'v list result" where
  "slice_column indices values =
     (case contiguous_slice indices of
        Some (start, stop) \<Rightarrow>
          Inr (if start = 0 \<and> stop = int (length values) then values
               else py_slice values start stop)
      | None \<Rightarrow> rmap (py_index values) indices)"

definition slice_block_rows ::
  "(string \<times> 'v list) list \<Rightarrow> int list \<Rightarrow> (string \<times> 'v list) list result" where
  "slice_block_rows block indices =
     rmap (\<lambda>(column, values).
       rbind (slice_column indices values) (\<lambda>vs. Inr (column, vs))) block"

definition block_row_dict :: "(string \<times> 'v list) list \<Rightarrow> int \<Rightarrow> (string \<times> 'v) list result" where
  "block_row_dict block index =
     rmap (\<lambda>(column, values).
       rbind (py_index values index) (\<lambda>v. Inr (column, v))) block"

definition block_num_rows :: "(string \<times> 'v list) list \<Rightarrow> int" where
  "block_num_rows block = (case block of [] \<Rightarrow> 0 | (_, values) # _ \<Rightarrow> int (length values))"

definition concat_blocks :: "(string \<times> 'v list) list list \<Rightarrow> (string \<times> 'v list) list result" where
  "concat_blocks blocks =
     (case blocks of
        [] \<Rightarrow> Inr []
      | [b] \<Rightarrow> Inr b
      | first # _ \<Rightarrow>
          rmap (\<lambda>column.
            rbind (rmap (\<lambda>b. dict_item b column) blocks) (\<lambda>parts.
              Inr (column, concat parts))) (keys first))"

subsection \<open>Records and barriers\<close>

record 'v data_record =
  block :: "'v block option"
  num_rows :: "int option"
  rec_sender :: "vertex_id option"
  rec_input_tag :: "int option"
  rec_timestamp :: "int option"
  row_kinds :: "string option list option"
  row_timestamps :: "int option list option"

definition make_record :: "'v block option \<Rightarrow> int option \<Rightarrow> 'v data_record" where
  "make_record b n =
     \<lparr>block = b, num_rows = n, rec_sender = None, rec_input_tag = None, rec_timestamp = None,
      row_kinds = None, row_timestamps = None\<rparr>"

definition is_columnar :: "'v data_record \<Rightarrow> bool" where
  "is_columnar r \<longleftrightarrow> num_rows r \<noteq> None"

definition record_fork :: "'v data_record \<Rightarrow> 'v data_record result" where
  "record_fork r = (if block r = None then Inl ValueError else Inr r)"

text \<open>The rows a record stands for: \<open>1 if record.num_rows is None else record.num_rows\<close>.\<close>

definition record_rows :: "'v data_record \<Rightarrow> int" where
  "record_rows r = (case num_rows r of None \<Rightarrow> 1 | Some n \<Rightarrow> n)"

record barrier =
  barrier_id :: int
  source_id :: "vertex_id option"
  coordinated :: bool
  barrier_timestamp :: int
  is_end_of_data :: bool

definition barrier_eq :: "barrier \<Rightarrow> barrier \<Rightarrow> bool" where
  "barrier_eq a b \<longleftrightarrow> is_end_of_data a = is_end_of_data b \<and> barrier_id a = barrier_id b"

datatype 'v edge_command =
    DataCommand int "int list" "'v data_record list"
  | BarrierCommand barrier
  | ControlCommand stream_control
  | ReplayCommand int int "'v data_record list"

record 'v delivery_command =
  command_edge_index :: int
  command :: "'v edge_command"

subsection \<open>Slicing selects the requested rows\<close>

lemma py_index_in_range: "0 \<le> i \<Longrightarrow> i < int (length xs) \<Longrightarrow> py_index xs i = Inr (xs ! nat i)"
  by (simp add: py_index_def)

lemma py_slice_in_range:
  "0 \<le> a \<Longrightarrow> a \<le> b \<Longrightarrow> b \<le> int (length xs) \<Longrightarrow>
   py_slice xs a b = map (\<lambda>k. xs ! (nat a + k)) [0..<nat (b - a)]"
  by (auto simp: py_slice_def slice_bound_def Let_def nat_diff_distrib intro!: nth_equalityI)

lemma contiguous_slice_Some:
  assumes "contiguous_slice indices = Some (start, stop)" "indices \<noteq> []"
  shows "indices = map (\<lambda>k. start + int k) [0..<length indices] \<and>
    stop = start + int (length indices)"
proof -
  obtain h t where i: "indices = h # t" using assms(2) by (cases indices) auto
  have "\<forall>(offset, index) \<in> set (enumerate 0 indices). index = start + int offset"
    and "stop = start + int (length indices)"
    using assms(1) i by (auto simp: contiguous_slice_def split: if_splits)
  moreover have "(k, indices ! k) \<in> set (enumerate 0 indices)" if "k < length indices" for k
    using that by (simp add: in_set_enumerate_eq)
  ultimately show ?thesis by (force intro!: nth_equalityI)
qed

lemma slice_column_selects:
  assumes "\<forall>i \<in> set indices. 0 \<le> i \<and> i < int (length values)" "indices \<noteq> []"
  shows "slice_column indices values = Inr (map (\<lambda>i. values ! nat i) indices)"
proof (cases "contiguous_slice indices")
  case None
  then show ?thesis
    using assms rmap_Inr_map [of indices "py_index values" "\<lambda>i. values ! nat i"]
    by (simp add: slice_column_def py_index_in_range)
next
  case (Some p)
  obtain start stop where p: "p = (start, stop)" by (cases p)
  have idx: "indices = map (\<lambda>k. start + int k) [0..<length indices]"
    and stop: "stop = start + int (length indices)"
    using contiguous_slice_Some [of indices start stop] Some p assms(2) by auto
  have n: "0 < length indices" using assms(2) by simp
  have nth: "\<And>k. k < length indices \<Longrightarrow> indices ! k = start + int k"
    by (subst idx) simp
  have lo: "0 \<le> start" using assms(1) nth [OF n] nth_mem [OF n] by auto
  have "indices ! (length indices - 1) < int (length values)"
    using assms(1) n by (simp add: nth_mem)
  then have hi: "stop \<le> int (length values)" using nth [of "length indices - 1"] n stop by simp
  have rows: "map (\<lambda>i. values ! nat i) indices =
      map (\<lambda>k. values ! (nat start + k)) [0..<nat (stop - start)]"
    using nth lo stop by (auto intro!: nth_equalityI simp: nat_add_distrib)
  show ?thesis
  proof (cases "start = 0 \<and> stop = int (length values)")
    case True
    then have "map (\<lambda>k. values ! (nat start + k)) [0..<nat (stop - start)] = values"
      by (simp add: map_nth)
    with True rows show ?thesis by (simp add: slice_column_def Some p)
  next
    case False
    have "py_slice values start stop = map (\<lambda>k. values ! (nat start + k)) [0..<nat (stop - start)]"
      using lo hi stop by (intro py_slice_in_range) auto
    with False rows show ?thesis by (auto simp: slice_column_def Some p)
  qed
qed

lemma slice_block_rows_selects:
  assumes "\<forall>(c, vs) \<in> set b. \<forall>i \<in> set indices. 0 \<le> i \<and> i < int (length vs)" "indices \<noteq> []"
  shows "slice_block_rows b indices = Inr (map (\<lambda>(c, vs). (c, map (\<lambda>i. vs ! nat i) indices)) b)"
  unfolding slice_block_rows_def
  by (rule rmap_Inr_map) (use assms in \<open>force simp: slice_column_selects\<close>)

lemma block_row_dict_row:
  assumes "\<forall>(c, vs) \<in> set b. i < int (length vs)" "0 \<le> i"
  shows "block_row_dict b i = Inr (map (\<lambda>(c, vs). (c, vs ! nat i)) b)"
  unfolding block_row_dict_def
  by (rule rmap_Inr_map) (use assms in \<open>force simp: py_index_in_range\<close>)

text \<open>
  Row \<open>k\<close> of a sliced block is row \<open>indices[k]\<close> of the original block, whichever
  path \<open>slice_block_rows\<close> takes (whole column, contiguous slice or per-index selection).
\<close>

theorem slice_block_rows_row:
  assumes "\<forall>(c, vs) \<in> set b. length vs = n"
    and "\<forall>i \<in> set indices. 0 \<le> i \<and> i < int n"
    and "k < length indices"
  shows "\<exists>sub. slice_block_rows b indices = Inr sub \<and>
    block_row_dict sub (int k) = block_row_dict b (indices ! k)"
proof -
  define sub where "sub = map (\<lambda>(c, vs). (c, map (\<lambda>i. vs ! nat i) indices)) b"
  have "slice_block_rows b indices = Inr sub"
    unfolding sub_def by (rule slice_block_rows_selects) (use assms in fastforce)+
  moreover have "block_row_dict sub (int k) = Inr (map (\<lambda>(c, vs). (c, vs ! nat (indices ! k))) b)"
    using assms(3) by (subst block_row_dict_row) (auto simp: sub_def)
  moreover have "block_row_dict b (indices ! k) = Inr (map (\<lambda>(c, vs). (c, vs ! nat (indices ! k))) b)"
    by (rule block_row_dict_row) (use assms nth_mem [OF assms(3)] in fastforce)+
  ultimately show ?thesis by auto
qed

theorem slice_block_rows_row_witness:
  "\<exists>sub. slice_block_rows [(''a'', [10, 11, 12 :: int]), (''b'', [20, 21, 22])] [2, 0] = Inr sub \<and>
     block_row_dict sub (int 0) = Inr [(''a'', 12), (''b'', 22)]"
  using slice_block_rows_row [of "[(''a'', [10, 11, 12 :: int]), (''b'', [20, 21, 22])]" 3 "[2, 0]" 0]
  by (simp add: block_row_dict_def py_index_def)

end
