(* ===== verification/Partitioning.thy ===== *)
theory Partitioning
  imports KeyGroups Messages
begin

section \<open>Partitioners (runtime/partitioning)\<close>

text \<open>
  The static channel topology, the task-local partitioners with the state each keeps, and the
  dynamic dispatch over them. An operation that mutates a partitioner returns its result (or the
  exception) with the state left behind. The interface a router relies on is the locale
  \<open>routing_policy\<close>: an opened partitioner returns a non-empty, duplicate-free list of eligible
  targets and a retry ring that starts at the chosen target and stays inside the eligible set. It
  is interpreted for each built-in partitioner class.
\<close>

subsection \<open>Channel topology\<close>

datatype channel_pattern = ALL_TO_ALL | FORWARD | RESCALE

definition py_range :: "int \<Rightarrow> int \<Rightarrow> int \<Rightarrow> int list" where
  "py_range start stop step =
     map (\<lambda>k. start + step * int k) [0..<nat ((stop - start + step - 1) div step)]"

definition target_indices :: "channel_pattern \<Rightarrow> int \<Rightarrow> int \<Rightarrow> int \<Rightarrow> int list result" where
  "target_indices pattern source_parallelism target_parallelism source_index =
     (if source_parallelism \<le> 0 \<or> target_parallelism \<le> 0 then Inl ValueError
      else if source_index < 0 \<or> source_index \<ge> source_parallelism then Inl ValueError
      else case pattern of
        ALL_TO_ALL \<Rightarrow> Inr (py_range 0 target_parallelism 1)
      | FORWARD \<Rightarrow>
          (if source_parallelism \<noteq> target_parallelism then Inl ValueError
           else Inr [source_index])
      | RESCALE \<Rightarrow>
          (if source_parallelism \<ge> target_parallelism then Inr [source_index mod target_parallelism]
           else Inr (py_range source_index target_parallelism source_parallelism)))"

record runtime_ctx =
  task_index :: int
  ctx_parallelism :: int
  ctx_max_parallelism :: pyobj

definition partitioner_open :: "int \<Rightarrow> int result" where
  "partitioner_open partition_count =
     (if partition_count \<le> 0 then Inl ValueError else Inr partition_count)"

definition default_retry_targets :: "int \<Rightarrow> int list" where
  "default_retry_targets initial_target = [initial_target]"

subsection \<open>Worker-pool dispatcher\<close>

record dispatcher =
  disp_tasks :: "int list"
  disp_cursor :: int

definition make_dispatcher :: "int list \<Rightarrow> dispatcher result" where
  "make_dispatcher assigned =
     (if assigned = [] then Inl ValueError
      else Inr \<lparr>disp_tasks = assigned, disp_cursor = 0\<rparr>)"

definition dispatcher_current :: "dispatcher \<Rightarrow> int result" where
  "dispatcher_current d = py_index (disp_tasks d) (disp_cursor d)"

definition dispatcher_advance :: "dispatcher \<Rightarrow> int result \<times> dispatcher" where
  "dispatcher_advance d =
     (let d' = d\<lparr>disp_cursor := (disp_cursor d + 1) mod int (length (disp_tasks d))\<rparr>
      in (dispatcher_current d', d'))"

definition dispatcher_take :: "dispatcher \<Rightarrow> int result \<times> dispatcher" where
  "dispatcher_take d =
     (case dispatcher_current d of
        Inl e \<Rightarrow> (Inl e, d)
      | Inr current \<Rightarrow>
          (case dispatcher_advance d of
             (Inl e, d') \<Rightarrow> (Inl e, d')
           | (Inr _, d') \<Rightarrow> (Inr current, d')))"

fun index_of :: "'a list \<Rightarrow> 'a \<Rightarrow> nat option" where
  "index_of [] y = None"
| "index_of (x # xs) y = (if x = y then Some 0 else map_option Suc (index_of xs y))"

definition dispatcher_ring_from :: "dispatcher \<Rightarrow> int \<Rightarrow> int list result" where
  "dispatcher_ring_from d task =
     (case index_of (disp_tasks d) task of
        None \<Rightarrow> Inl ValueError
      | Some start \<Rightarrow> Inr (drop start (disp_tasks d) @ take start (disp_tasks d)))"

subsection \<open>Round-robin and adaptive partitioners\<close>

record round_robin =
  rr_count :: "int option"
  rr_cursor :: int

definition make_round_robin :: round_robin where
  "make_round_robin = \<lparr>rr_count = None, rr_cursor = 0\<rparr>"

definition rr_open :: "round_robin \<Rightarrow> int \<Rightarrow> unit result \<times> round_robin" where
  "rr_open p partition_count =
     (case partitioner_open partition_count of
        Inl e \<Rightarrow> (Inl e, p)
      | Inr n \<Rightarrow> (Inr (), p\<lparr>rr_count := Some n\<rparr>))"

definition opened :: "int option \<Rightarrow> int result" where
  "opened count =
     (case count of
        None \<Rightarrow> Inl RuntimeError
      | Some n \<Rightarrow> (if n \<le> 0 then Inl RuntimeError else Inr n))"

definition rr_partition :: "round_robin \<Rightarrow> 'r \<Rightarrow> int list result \<times> round_robin" where
  "rr_partition p r =
     (case opened (rr_count p) of
        Inl e \<Rightarrow> (Inl e, p)
      | Inr n \<Rightarrow> (Inr [rr_cursor p], p\<lparr>rr_cursor := (rr_cursor p + 1) mod n\<rparr>))"

definition rr_retry_targets :: "round_robin \<Rightarrow> int \<Rightarrow> int list result" where
  "rr_retry_targets p initial_target =
     rbind (opened (rr_count p)) (\<lambda>n.
       Inr (map (\<lambda>offset. (initial_target + offset) mod n) (py_range 0 n 1)))"

subsection \<open>Broadcast and forward partitioners\<close>

record broadcast =
  bc_count :: "int option"
  bc_partitions :: "int list"

definition bc_open :: "broadcast \<Rightarrow> int \<Rightarrow> unit result \<times> broadcast" where
  "bc_open p partition_count =
     (case partitioner_open partition_count of
        Inl e \<Rightarrow> (Inl e, p)
      | Inr n \<Rightarrow> (Inr (), p\<lparr>bc_count := Some n\<rparr>))"

definition bc_partition :: "broadcast \<Rightarrow> 'r \<Rightarrow> int list result \<times> broadcast" where
  "bc_partition p r =
     (case opened (bc_count p) of
        Inl e \<Rightarrow> (Inl e, p)
      | Inr n \<Rightarrow>
          (let p' = (if int (length (bc_partitions p)) \<noteq> n
                     then p\<lparr>bc_partitions := py_range 0 n 1\<rparr> else p)
           in (Inr (bc_partitions p'), p')))"

record forward =
  fw_count :: "int option"
  fw_partitions :: "int list"

definition make_forward :: forward where
  "make_forward = \<lparr>fw_count = None, fw_partitions = [0]\<rparr>"

definition fw_open :: "forward \<Rightarrow> runtime_ctx \<Rightarrow> int \<Rightarrow> unit result \<times> forward" where
  "fw_open p ctx partition_count =
     (case partitioner_open partition_count of
        Inl e \<Rightarrow> (Inl e, p)
      | Inr n \<Rightarrow>
          (let p' = p\<lparr>fw_count := Some n\<rparr>
           in if task_index ctx \<ge> n then (Inl ValueError, p')
              else (Inr (), p'\<lparr>fw_partitions := [task_index ctx]\<rparr>)))"

definition fw_partition :: "forward \<Rightarrow> 'r \<Rightarrow> int list result \<times> forward" where
  "fw_partition p r = (Inr (fw_partitions p), p)"

subsection \<open>Rescale partitioner\<close>

record rescale =
  rs_count :: "int option"
  rs_assignment :: "int list"
  rs_dispatcher :: "dispatcher option"

definition make_rescale :: rescale where
  "make_rescale = \<lparr>rs_count = None, rs_assignment = [], rs_dispatcher = None\<rparr>"

definition rs_open :: "rescale \<Rightarrow> runtime_ctx \<Rightarrow> int \<Rightarrow> unit result \<times> rescale" where
  "rs_open p ctx partition_count =
     (case partitioner_open partition_count of
        Inl e \<Rightarrow> (Inl e, p)
      | Inr n \<Rightarrow>
          (let p1 = p\<lparr>rs_count := Some n\<rparr>
           in case target_indices RESCALE (ctx_parallelism ctx) n (task_index ctx) of
                Inl e \<Rightarrow> (Inl e, p1)
              | Inr assignment \<Rightarrow>
                  (let p2 = p1\<lparr>rs_assignment := assignment\<rparr>
                   in if length assignment \<le> 0 then (Inl RuntimeError, p2)
                      else case make_dispatcher assignment of
                             Inl e \<Rightarrow> (Inl e, p2)
                           | Inr d \<Rightarrow> (Inr (), p2\<lparr>rs_dispatcher := Some d\<rparr>))))"

definition rs_partition :: "rescale \<Rightarrow> 'r \<Rightarrow> int list result \<times> rescale" where
  "rs_partition p r =
     (case rs_dispatcher p of
        None \<Rightarrow> (Inl RuntimeError, p)
      | Some d \<Rightarrow>
          (case dispatcher_take d of
             (Inl e, d') \<Rightarrow> (Inl e, p\<lparr>rs_dispatcher := Some d'\<rparr>)
           | (Inr t, d') \<Rightarrow> (Inr [t], p\<lparr>rs_dispatcher := Some d'\<rparr>)))"

definition rs_retry_targets :: "rescale \<Rightarrow> int \<Rightarrow> int list result" where
  "rs_retry_targets p initial_target =
     (case rs_dispatcher p of
        None \<Rightarrow> Inl RuntimeError
      | Some d \<Rightarrow> dispatcher_ring_from d initial_target)"

subsection \<open>Key partitioner\<close>

text \<open>
  \<open>group_for\<close> is \<open>key_group_for_key\<close> with its codec and digest fixed. Rows of a columnar
  batch are bucketed by target in first-seen order.
\<close>

record ('v, 'k) key_partitioner =
  kp_selector :: "'v block option \<Rightarrow> 'k"
  kp_configured :: pyobj
  kp_count :: "int option"
  kp_max :: "pyobj option"

definition kp_open ::
  "('v, 'k) key_partitioner \<Rightarrow> runtime_ctx \<Rightarrow> int \<Rightarrow> unit result \<times> ('v, 'k) key_partitioner" where
  "kp_open p ctx partition_count =
     (case partitioner_open partition_count of
        Inl e \<Rightarrow> (Inl e, p)
      | Inr n \<Rightarrow>
          (let m = (if kp_configured p \<noteq> PNone then kp_configured p else ctx_max_parallelism ctx);
               p' = p\<lparr>kp_count := Some n, kp_max := (if m = PNone then None else Some m)\<rparr>
           in case as_int m of
                Inl e \<Rightarrow> (Inl e, p')
              | Inr v \<Rightarrow> (if v < n then (Inl ValueError, p') else (Inr (), p'))))"

definition kp_target_for_key ::
  "('k \<Rightarrow> pyobj \<Rightarrow> int result) \<Rightarrow> ('v, 'k) key_partitioner \<Rightarrow> 'k \<Rightarrow> int result" where
  "kp_target_for_key group_for p key =
     (case (kp_max p, kp_count p) of
        (Some m, Some n) \<Rightarrow>
          rbind (group_for key m) (\<lambda>g. key_group_owner (PInt g) m (PInt n))
      | _ \<Rightarrow> Inl RuntimeError)"

definition kp_partition ::
  "('k \<Rightarrow> pyobj \<Rightarrow> int result) \<Rightarrow> ('v, 'k) key_partitioner \<Rightarrow> 'v data_record \<Rightarrow>
   int list result \<times> ('v, 'k) key_partitioner" where
  "kp_partition group_for p r =
     (rbind (opened (kp_count p)) (\<lambda>_.
        rbind (kp_target_for_key group_for p (kp_selector p (block r))) (\<lambda>t. Inr [t])), p)"

definition block_columns :: "'v data_record \<Rightarrow> (string \<times> 'v list) list result" where
  "block_columns r =
     (case block r of
        None \<Rightarrow> Inl AttributeError
      | Some (RowBlock _) \<Rightarrow> Inl TypeError
      | Some (ColumnBlock c) \<Rightarrow> Inr c)"

definition bucket_add ::
  "('t \<Rightarrow> 'b) \<Rightarrow> 't \<Rightarrow> int \<Rightarrow> ('b, int list) dict \<times> 't list \<Rightarrow>
   ('b, int list) dict \<times> 't list" where
  "bucket_add key target row_index st =
     (let (buckets, order) = st;
          buckets' = dict_setdefault (key target) [] buckets;
          order' = (if map_of buckets (key target) = None then order @ [target] else order)
      in (AList.update (key target) (dict_get buckets' (key target) [] @ [row_index]) buckets',
          order'))"

fun bucket_rows ::
  "(int \<Rightarrow> 't result) \<Rightarrow> int list \<Rightarrow> ('t, int list) dict \<times> 't list \<Rightarrow>
   (('t, int list) dict \<times> 't list) result" where
  "bucket_rows target_of [] st = Inr st"
| "bucket_rows target_of (i # is) st =
     rbind (target_of i) (\<lambda>t. bucket_rows target_of is (bucket_add id t i st))"

definition kp_row_target ::
  "('k \<Rightarrow> pyobj \<Rightarrow> int result) \<Rightarrow> ('v, 'k) key_partitioner \<Rightarrow> 'v data_record \<Rightarrow> int \<Rightarrow> int result" where
  "kp_row_target group_for p r i =
     rbind (block_columns r) (\<lambda>c.
     rbind (block_row_dict c i) (\<lambda>row.
       kp_target_for_key group_for p (kp_selector p (Some (RowBlock row)))))"

definition kp_partition_columnar ::
  "('k \<Rightarrow> pyobj \<Rightarrow> int result) \<Rightarrow> ('v, 'k) key_partitioner \<Rightarrow> 'v data_record \<Rightarrow> int \<Rightarrow>
   (int \<times> int list option) list result" where
  "kp_partition_columnar group_for p r nrows =
     rbind (bucket_rows (kp_row_target group_for p r) (py_range 0 nrows 1) ([], []))
       (\<lambda>(buckets, order).
          case order of
            [t] \<Rightarrow> Inr [(t, None)]
          | _ \<Rightarrow> Inr (map (\<lambda>t. (t, Some (dict_get buckets t []))) order))"

subsection \<open>Custom partitioner\<close>

text \<open>
  The user's function may return any objects; dictionary keys compare \<open>True\<close> with \<open>1\<close>
  and \<open>1.0\<close> as equal, which \<open>py_key\<close> normalises.
\<close>

definition py_key :: "pyobj \<Rightarrow> pyobj" where
  "py_key x =
     (case x of
        PBool b \<Rightarrow> PInt (if b then 1 else 0)
      | PFloat q \<Rightarrow> (if q = of_int \<lfloor>q\<rfloor> then PInt \<lfloor>q\<rfloor> else x)
      | _ \<Rightarrow> x)"

record 'v simple_partitioner =
  sp_fn :: "'v data_record \<Rightarrow> int option \<Rightarrow> pyobj list"
  sp_count :: "int option"

definition sp_partition :: "'v simple_partitioner \<Rightarrow> 'v data_record \<Rightarrow> pyobj list" where
  "sp_partition p r = sp_fn p r (sp_count p)"

definition sp_bucket_row ::
  "int \<Rightarrow> pyobj list \<Rightarrow> (pyobj, int list) dict \<times> pyobj list \<Rightarrow>
   (pyobj, int list) dict \<times> pyobj list" where
  "sp_bucket_row i targets st = fold (\<lambda>t. bucket_add py_key t i) targets st"

fun sp_bucket_rows ::
  "'v simple_partitioner \<Rightarrow> (string \<times> 'v list) list \<Rightarrow> int list \<Rightarrow>
   (pyobj, int list) dict \<times> pyobj list \<Rightarrow> ((pyobj, int list) dict \<times> pyobj list) result" where
  "sp_bucket_rows p c [] st = Inr st"
| "sp_bucket_rows p c (i # is) st =
     rbind (block_row_dict c i) (\<lambda>row.
       sp_bucket_rows p c is
         (sp_bucket_row i (sp_fn p (make_record (Some (RowBlock row)) None) (sp_count p)) st))"

definition sp_partition_columnar ::
  "'v simple_partitioner \<Rightarrow> 'v data_record \<Rightarrow> int \<Rightarrow> (pyobj \<times> int list option) list result" where
  "sp_partition_columnar p r nrows =
     rbind (block_columns r) (\<lambda>c.
     rbind (sp_bucket_rows p c (py_range 0 nrows 1) ([], [])) (\<lambda>(buckets, order).
       case order of
         [t] \<Rightarrow> (if int (length (dict_get buckets (py_key t) [])) = nrows then Inr [(t, None)]
                 else Inr [(t, Some (dict_get buckets (py_key t) []))])
       | _ \<Rightarrow> Inr (map (\<lambda>t. (t, Some (dict_get buckets (py_key t) []))) order)))"

subsection \<open>Dynamic dispatch\<close>

datatype ('v, 'k) partitioner =
    RoundRobinPartitioner round_robin
  | AdaptivePartitioner round_robin
  | BroadcastPartitioner broadcast
  | ForwardPartitioner forward
  | RescalePartitioner rescale
  | KeyPartitioner "('v, 'k) key_partitioner"
  | SimplePartitioner "'v simple_partitioner"

abbreviation pints :: "int list result \<Rightarrow> pyobj list result" where
  "pints r \<equiv> map_sum id (map PInt) r"

fun partition_record ::
  "('k \<Rightarrow> pyobj \<Rightarrow> int result) \<Rightarrow> ('v, 'k) partitioner \<Rightarrow> 'v data_record \<Rightarrow>
   pyobj list result \<times> ('v, 'k) partitioner" where
  "partition_record gf (RoundRobinPartitioner p) r =
     map_prod pints RoundRobinPartitioner (rr_partition p r)"
| "partition_record gf (AdaptivePartitioner p) r =
     map_prod pints AdaptivePartitioner (rr_partition p r)"
| "partition_record gf (BroadcastPartitioner p) r =
     map_prod pints BroadcastPartitioner (bc_partition p r)"
| "partition_record gf (ForwardPartitioner p) r =
     map_prod pints ForwardPartitioner (fw_partition p r)"
| "partition_record gf (RescalePartitioner p) r =
     map_prod pints RescalePartitioner (rs_partition p r)"
| "partition_record gf (KeyPartitioner p) r =
     map_prod pints KeyPartitioner (kp_partition gf p r)"
| "partition_record gf (SimplePartitioner p) r = (Inr (sp_partition p r), SimplePartitioner p)"

text \<open>\<open>None\<close> for the rows is the whole-batch fast path.\<close>

fun partition_columnar ::
  "('k \<Rightarrow> pyobj \<Rightarrow> int result) \<Rightarrow> ('v, 'k) partitioner \<Rightarrow> 'v data_record \<Rightarrow> int \<Rightarrow>
   (pyobj \<times> int list option) list result \<times> ('v, 'k) partitioner" where
  "partition_columnar gf (KeyPartitioner p) r n =
     (map_sum id (map (map_prod PInt id)) (kp_partition_columnar gf p r n), KeyPartitioner p)"
| "partition_columnar gf (SimplePartitioner p) r n =
     (sp_partition_columnar p r n, SimplePartitioner p)"
| "partition_columnar gf p r n =
     map_prod (map_sum id (map (\<lambda>t. (t, None)))) id (partition_record gf p r)"

fun retry_targets :: "('v, 'k) partitioner \<Rightarrow> int \<Rightarrow> int list result" where
  "retry_targets (RoundRobinPartitioner p) t = rr_retry_targets p t"
| "retry_targets (AdaptivePartitioner p) t = rr_retry_targets p t"
| "retry_targets (RescalePartitioner p) t = rs_retry_targets p t"
| "retry_targets _ t = Inr (default_retry_targets t)"

fun partitioner_topology :: "('v, 'k) partitioner \<Rightarrow> channel_pattern" where
  "partitioner_topology (ForwardPartitioner _) = FORWARD"
| "partitioner_topology (RescalePartitioner _) = RESCALE"
| "partitioner_topology _ = ALL_TO_ALL"

datatype parallelism = Fixed int | Elastic int int

definition default_partitioner :: "parallelism \<Rightarrow> parallelism \<Rightarrow> ('v, 'k) partitioner result" where
  "default_partitioner source target =
     (case (source, target) of
        (Fixed s, Fixed t) \<Rightarrow>
          (if s = t then Inr (ForwardPartitioner make_forward)
           else if t = 0 then Inl ZeroDivisionError
           else if s mod t = 0 then Inr (RescalePartitioner make_rescale)
           else if t mod s = 0 then Inr (RescalePartitioner make_rescale)
           else Inr (AdaptivePartitioner make_round_robin))
      | _ \<Rightarrow> Inr (AdaptivePartitioner make_round_robin))"

subsection \<open>Topology lemmas\<close>

lemma py_range_mem:
  assumes "0 < step"
  shows "x \<in> set (py_range start stop step) \<longleftrightarrow>
    start \<le> x \<and> x < stop \<and> step dvd (x - start)"
proof -
  have bound: "k < nat ((stop - start + step - 1) div step) \<longleftrightarrow> start + step * int k < stop" for k
  proof -
    have "k < nat ((stop - start + step - 1) div step) \<longleftrightarrow>
        \<not> (stop - start + step - 1) div step \<le> int k" by linarith
    also have "\<dots> \<longleftrightarrow> \<not> stop - start \<le> int k * step"
      using ceil_div_le_iff [OF assms, of "stop - start" "int k"] by simp
    finally show ?thesis by (auto simp: algebra_simps)
  qed
  have "x \<in> set (py_range start stop step) \<longleftrightarrow> (\<exists>k. start + step * int k < stop \<and> x = start + step * int k)"
    by (auto simp: py_range_def bound)
  also have "\<dots> \<longleftrightarrow> start \<le> x \<and> x < stop \<and> step dvd (x - start)"
  proof
    assume r: "start \<le> x \<and> x < stop \<and> step dvd (x - start)"
    then obtain c where c: "x - start = step * c" by (auto elim: dvdE)
    moreover have "0 \<le> c" using r c assms by (metis diff_ge_0_iff_ge zero_le_mult_iff not_less)
    ultimately have "x = start + step * int (nat c)" by simp
    with r show "\<exists>k. start + step * int k < stop \<and> x = start + step * int k" by metis
  qed (use assms in auto)
  finally show ?thesis .
qed

lemma distinct_py_range: "0 < step \<Longrightarrow> distinct (py_range start stop step)"
  by (simp add: py_range_def distinct_map inj_on_def)

lemma py_range_unit [simp]: "set (py_range 0 n 1) = {0..<n}"
  by (auto simp: py_range_mem)

lemma length_py_range_unit [simp]: "length (py_range 0 n 1) = nat n"
  by (simp add: py_range_def)

lemma rescale_target_mem:
  assumes "0 < sp" "0 < tp" "0 \<le> i" "i < sp"
  shows "\<exists>ts. target_indices RESCALE sp tp i = Inr ts \<and> ts \<noteq> [] \<and> distinct ts \<and>
    set ts = {j. 0 \<le> j \<and> j < tp \<and> (if sp \<ge> tp then i mod tp = j else j mod sp = i)}"
proof (cases "sp \<ge> tp")
  case True
  then show ?thesis using assms by (auto simp: target_indices_def)
next
  case False
  have mem: "j \<in> set (py_range i tp sp) \<longleftrightarrow> 0 \<le> j \<and> j < tp \<and> j mod sp = i" for j
  proof
    assume "j \<in> set (py_range i tp sp)"
    then have j: "i \<le> j" "j < tp" "sp dvd (j - i)" using assms by (auto simp: py_range_mem)
    then have "j mod sp = i mod sp" by (simp add: mod_eq_dvd_iff)
    with j assms show "0 \<le> j \<and> j < tp \<and> j mod sp = i" by simp
  next
    assume j: "0 \<le> j \<and> j < tp \<and> j mod sp = i"
    then have "i \<le> j" using assms by (auto intro: zmod_le_nonneg_dividend)
    moreover have "sp dvd (j - i)" using j by (auto simp: minus_mod_eq_mult_div)
    ultimately show "j \<in> set (py_range i tp sp)" using assms j by (simp add: py_range_mem)
  qed
  have "i \<in> set (py_range i tp sp)" using mem assms False by simp
  then have "py_range i tp sp \<noteq> []" by (cases "py_range i tp sp") auto
  with False assms mem show ?thesis
    by (auto simp: target_indices_def distinct_py_range)
qed

text \<open>
  The rescale topology loses no channel: every source subtask gets a non-empty, duplicate-free
  set of legal targets, every target is reached by some source, and when there are no more sources
  than targets each target is fed by exactly one source.
\<close>

theorem rescale_topology_covers:
  assumes "0 < sp" "0 < tp"
  shows "(\<forall>i. 0 \<le> i \<and> i < sp \<longrightarrow>
      (\<exists>ts. target_indices RESCALE sp tp i = Inr ts \<and> ts \<noteq> [] \<and> distinct ts \<and> set ts \<subseteq> {0..<tp})) \<and>
    (\<forall>j. 0 \<le> j \<and> j < tp \<longrightarrow>
      (\<exists>i ts. 0 \<le> i \<and> i < sp \<and> target_indices RESCALE sp tp i = Inr ts \<and> j \<in> set ts \<and>
        (sp \<le> tp \<longrightarrow> (\<forall>i' ts'. 0 \<le> i' \<and> i' < sp \<and> target_indices RESCALE sp tp i' = Inr ts' \<and>
            j \<in> set ts' \<longrightarrow> i' = i))))"
proof (intro conjI allI impI)
  fix i assume i: "0 \<le> i \<and> i < sp"
  then show "\<exists>ts. target_indices RESCALE sp tp i = Inr ts \<and> ts \<noteq> [] \<and> distinct ts \<and> set ts \<subseteq> {0..<tp}"
    using rescale_target_mem [OF assms, of i] by fastforce
next
  fix j assume j: "0 \<le> j \<and> j < tp"
  define i where "i = (if sp \<ge> tp then j else j mod sp)"
  have i: "0 \<le> i" "i < sp" using j assms by (auto simp: i_def)
  obtain ts where ts: "target_indices RESCALE sp tp i = Inr ts"
    and mem: "set ts = {j. 0 \<le> j \<and> j < tp \<and> (if sp \<ge> tp then i mod tp = j else j mod sp = i)}"
    using rescale_target_mem [OF assms i] by auto
  have "i' = i" if "sp \<le> tp" "0 \<le> i'" "i' < sp" "target_indices RESCALE sp tp i' = Inr ts'" "j \<in> set ts'"
    for i' ts'
  proof -
    have "if sp \<ge> tp then i' mod tp = j else j mod sp = i'"
      using rescale_target_mem [OF assms that(2,3)] that(4,5) by auto
    with that(1-3) show ?thesis by (auto simp: i_def split: if_splits)
  qed
  moreover have "j \<in> set ts" using mem j by (auto simp: i_def)
  ultimately show "\<exists>i ts. 0 \<le> i \<and> i < sp \<and> target_indices RESCALE sp tp i = Inr ts \<and> j \<in> set ts \<and>
        (sp \<le> tp \<longrightarrow> (\<forall>i' ts'. 0 \<le> i' \<and> i' < sp \<and> target_indices RESCALE sp tp i' = Inr ts' \<and>
            j \<in> set ts' \<longrightarrow> i' = i))"
    using ts i by (intro exI [of _ i] exI [of _ ts]) blast
qed

theorem rescale_topology_covers_witness:
  "target_indices RESCALE 2 5 1 = Inr [1, 3] \<and>
   (\<exists>i ts. 0 \<le> i \<and> i < (2::int) \<and> target_indices RESCALE 2 5 i = Inr ts \<and> 4 \<in> set ts)"
proof
  show "target_indices RESCALE 2 5 1 = Inr [1, 3]" by code_simp
  show "\<exists>i ts. 0 \<le> i \<and> i < (2::int) \<and> target_indices RESCALE 2 5 i = Inr ts \<and> 4 \<in> set ts"
    using rescale_topology_covers [of 2 5, THEN conjunct2, rule_format, of 4] by auto
qed

subsection \<open>The routing interface\<close>

lemma map_PInt_eq_iff [simp]: "map PInt xs = map PInt ys \<longleftrightarrow> xs = ys"
  by (simp add: inj_map_eq_map inj_on_def)

lemma PInt_singleton_eq_iff [simp]: "[PInt x] = map PInt ys \<longleftrightarrow> ys = [x]"
  by auto

abbreviation boxed :: "('s \<Rightarrow> 'r \<Rightarrow> int list result \<times> 's) \<Rightarrow> 's \<Rightarrow> 'r \<Rightarrow> pyobj list result \<times> 's" where
  "boxed route \<equiv> \<lambda>s r. map_prod pints id (route s r)"

text \<open>A sequence of records through one stateful routing operation, stopping at the first exception.\<close>

fun route_all :: "('s \<Rightarrow> 'r \<Rightarrow> 'a result \<times> 's) \<Rightarrow> 's \<Rightarrow> 'r list \<Rightarrow> 'a list result \<times> 's" where
  "route_all route s [] = (Inr [], s)"
| "route_all route s (r # rs) =
     (case route s r of
        (Inl e, s') \<Rightarrow> (Inl e, s')
      | (Inr ts, s') \<Rightarrow>
          (case route_all route s' rs of
             (Inl e, s'') \<Rightarrow> (Inl e, s'')
           | (Inr tss, s'') \<Rightarrow> (Inr (ts # tss), s'')))"

locale routing_policy =
  fixes route :: "'s \<Rightarrow> 'v data_record \<Rightarrow> pyobj list result \<times> 's"
    and retry :: "'s \<Rightarrow> int \<Rightarrow> int list result"
    and ready :: "int set \<Rightarrow> 's \<Rightarrow> bool"
    and admits :: "'s \<Rightarrow> 'v data_record \<Rightarrow> bool"
  assumes route_ok: "ready T s \<Longrightarrow> admits s r \<Longrightarrow>
      \<exists>ts s'. route s r = (Inr (map PInt ts), s') \<and> ts \<noteq> [] \<and> distinct ts \<and> set ts \<subseteq> T \<and> ready T s' \<and>
        (\<forall>r'. admits s' r' = admits s r')"
    and retry_ok: "ready T s \<Longrightarrow> t \<in> T \<Longrightarrow>
      \<exists>ring. retry s t = Inr ring \<and> ring \<noteq> [] \<and> hd ring = t \<and> distinct ring \<and> set ring \<subseteq> T"
begin

lemma route_all_ok:
  "ready T s \<Longrightarrow> \<forall>r \<in> set rs. admits s r \<Longrightarrow>
   \<exists>tss s'. route_all route s rs = (Inr tss, s') \<and> length tss = length rs \<and>
     (\<forall>ts \<in> set tss. ts \<noteq> [] \<and> distinct ts \<and> set ts \<subseteq> PInt ` T) \<and> ready T s'"
proof (induction rs arbitrary: s)
  case (Cons r rs)
  then obtain ts s' where s': "route s r = (Inr (map PInt ts), s')" "ts \<noteq> []" "distinct ts" "set ts \<subseteq> T"
      "ready T s'" "\<forall>r'. admits s' r' = admits s r'"
    using route_ok [of T s r] by auto
  with Cons.prems have "\<forall>r \<in> set rs. admits s' r" by simp
  from Cons.IH [OF s'(5) this] s' show ?case by (fastforce simp: distinct_map inj_on_def)
qed simp

end

subsection \<open>Every built-in partitioner is a routing policy\<close>

lemma index_of_Some: "index_of xs y = Some i \<Longrightarrow> i < length xs \<and> xs ! i = y"
  by (induction xs arbitrary: i) (auto split: if_splits)

lemma index_of_member: "y \<in> set xs \<Longrightarrow> \<exists>i. index_of xs y = Some i"
  by (induction xs) auto

lemma ring_from_rotation:
  assumes "task \<in> set (disp_tasks d)" "distinct (disp_tasks d)"
  shows "\<exists>ring. dispatcher_ring_from d task = Inr ring \<and> ring \<noteq> [] \<and> hd ring = task \<and>
    distinct ring \<and> set ring = set (disp_tasks d)"
proof -
  obtain i where i: "index_of (disp_tasks d) task = Some i" using index_of_member [OF assms(1)] by auto
  then have i': "i < length (disp_tasks d)" "disp_tasks d ! i = task" using index_of_Some by fastforce+
  have "set (drop i (disp_tasks d)) \<union> set (take i (disp_tasks d)) = set (disp_tasks d)"
    by (metis append_take_drop_id set_append sup_commute)
  moreover have "distinct (drop i (disp_tasks d) @ take i (disp_tasks d))"
    using assms(2) by (metis append_take_drop_id distinct_append inf_commute)
  ultimately show ?thesis using i i' by (simp add: dispatcher_ring_from_def hd_append hd_drop_conv_nth)
qed

lemma mod_ring:
  fixes n t :: int
  assumes "0 \<le> t" "t < n"
  shows "map (\<lambda>offset. (t + offset) mod n) (py_range 0 n 1) \<noteq> []"
    and "hd (map (\<lambda>offset. (t + offset) mod n) (py_range 0 n 1)) = t"
    and "distinct (map (\<lambda>offset. (t + offset) mod n) (py_range 0 n 1))"
    and "set (map (\<lambda>offset. (t + offset) mod n) (py_range 0 n 1)) = {0..<n}"
proof -
  have n: "0 < n" using assms by simp
  have "[0..<nat n] = 0 # [1..<nat n]" using n by (simp add: upt_conv_Cons)
  then have range: "py_range 0 n 1 = 0 # map int [1..<nat n]" by (simp add: py_range_def)
  then show "map (\<lambda>offset. (t + offset) mod n) (py_range 0 n 1) \<noteq> []"
    and "hd (map (\<lambda>offset. (t + offset) mod n) (py_range 0 n 1)) = t"
    using assms by simp_all
  have inj: "inj_on (\<lambda>offset. (t + offset) mod n) {0..<n}"
  proof (rule inj_onI)
    fix x y assume "x \<in> {0..<n}" "y \<in> {0..<n}" "(t + x) mod n = (t + y) mod n"
    then have "n dvd (t + x) - (t + y)" by (simp only: mod_eq_dvd_iff)
    then have "x mod n = y mod n" by (simp only: mod_eq_dvd_iff) simp
    then show "x = y"
      using \<open>x \<in> _\<close> \<open>y \<in> _\<close> by (metis atLeastLessThan_iff mod_pos_pos_trivial)
  qed
  then show "distinct (map (\<lambda>offset. (t + offset) mod n) (py_range 0 n 1))"
    by (simp add: distinct_map distinct_py_range)
  have "(\<lambda>offset. (t + offset) mod n) ` {0..<n} = {0..<n}"
    by (rule endo_inj_surj) (use n inj in auto)
  then show "set (map (\<lambda>offset. (t + offset) mod n) (py_range 0 n 1)) = {0..<n}" by simp
qed

definition rr_ready :: "int set \<Rightarrow> round_robin \<Rightarrow> bool" where
  "rr_ready T p \<longleftrightarrow>
     (\<exists>n. rr_count p = Some n \<and> 0 < n \<and> 0 \<le> rr_cursor p \<and> rr_cursor p < n \<and> T = {0..<n})"

interpretation rr: routing_policy "boxed rr_partition" rr_retry_targets rr_ready "\<lambda>_ _. True"
proof unfold_locales
  fix T p and r :: "'v data_record"
  assume "rr_ready T p"
  then obtain n where "rr_count p = Some n" "0 < n" "0 \<le> rr_cursor p" "rr_cursor p < n" "T = {0..<n}"
    by (auto simp: rr_ready_def)
  then show "\<exists>ts s'. boxed rr_partition p r = (Inr (map PInt ts), s') \<and> ts \<noteq> [] \<and> distinct ts \<and> set ts \<subseteq> T \<and>
      rr_ready T s' \<and> (\<forall>r'::'v data_record. True = True)"
    by (simp add: rr_partition_def opened_def rr_ready_def)
next
  fix T p t
  assume "rr_ready T p" "t \<in> T"
  then obtain n where n: "rr_count p = Some n" "0 \<le> t" "t < n" "T = {0..<n}"
    by (auto simp: rr_ready_def)
  then show "\<exists>ring. rr_retry_targets p t = Inr ring \<and> ring \<noteq> [] \<and> hd ring = t \<and> distinct ring \<and>
      set ring \<subseteq> T"
    using mod_ring [OF n(2,3)] by (simp add: rr_retry_targets_def opened_def)
qed

definition bc_ready :: "int set \<Rightarrow> broadcast \<Rightarrow> bool" where
  "bc_ready T p \<longleftrightarrow>
     (\<exists>n. bc_count p = Some n \<and> 0 < n \<and> T = {0..<n} \<and>
        (int (length (bc_partitions p)) = n \<longrightarrow> bc_partitions p = py_range 0 n 1))"

interpretation bc: routing_policy "boxed bc_partition" "\<lambda>_ t. Inr (default_retry_targets t)" bc_ready "\<lambda>_ _. True"
proof unfold_locales
  fix T p and r :: "'v data_record"
  assume "bc_ready T p"
  then obtain n where n: "bc_count p = Some n" "0 < n" "T = {0..<n}"
      "int (length (bc_partitions p)) = n \<longrightarrow> bc_partitions p = py_range 0 n 1"
    by (auto simp: bc_ready_def)
  define p' where "p' = (if int (length (bc_partitions p)) \<noteq> n
      then p\<lparr>bc_partitions := py_range 0 n 1\<rparr> else p)"
  have p': "bc_partitions p' = py_range 0 n 1" "bc_count p' = Some n" using n by (auto simp: p'_def)
  have "bc_partition p r = (Inr (py_range 0 n 1), p')"
    using n p' by (simp add: bc_partition_def opened_def p'_def [symmetric])
  moreover have "py_range 0 n 1 \<noteq> []" using n by (metis atLeastLessThan_empty_iff py_range_unit set_empty)
  ultimately show "\<exists>ts s'. boxed bc_partition p r = (Inr (map PInt ts), s') \<and> ts \<noteq> [] \<and> distinct ts \<and> set ts \<subseteq> T \<and>
      bc_ready T s' \<and> (\<forall>r'::'v data_record. True = True)"
    using n p' by (simp add: distinct_py_range bc_ready_def)
qed (simp add: default_retry_targets_def)

definition fw_ready :: "int set \<Rightarrow> forward \<Rightarrow> bool" where
  "fw_ready T p \<longleftrightarrow> (\<exists>i. fw_partitions p = [i] \<and> T = {i})"

interpretation fw: routing_policy "boxed fw_partition" "\<lambda>_ t. Inr (default_retry_targets t)" fw_ready "\<lambda>_ _. True"
  by unfold_locales (auto simp: fw_ready_def fw_partition_def default_retry_targets_def)

definition rs_ready :: "int set \<Rightarrow> rescale \<Rightarrow> bool" where
  "rs_ready T p \<longleftrightarrow>
     (\<exists>d. rs_dispatcher p = Some d \<and> disp_tasks d \<noteq> [] \<and> distinct (disp_tasks d) \<and>
        0 \<le> disp_cursor d \<and> disp_cursor d < int (length (disp_tasks d)) \<and> T = set (disp_tasks d))"

lemma dispatcher_take_ok:
  assumes "disp_tasks d \<noteq> []" "0 \<le> disp_cursor d" "disp_cursor d < int (length (disp_tasks d))"
  shows "dispatcher_take d =
    (Inr (disp_tasks d ! nat (disp_cursor d)),
     d\<lparr>disp_cursor := (disp_cursor d + 1) mod int (length (disp_tasks d))\<rparr>)"
  using assms
  by (simp add: dispatcher_take_def dispatcher_current_def dispatcher_advance_def py_index_in_range
      Let_def)

interpretation rs: routing_policy "boxed rs_partition" rs_retry_targets rs_ready "\<lambda>_ _. True"
proof unfold_locales
  fix T p and r :: "'v data_record"
  assume "rs_ready T p"
  then obtain d where "rs_dispatcher p = Some d" "disp_tasks d \<noteq> []" "distinct (disp_tasks d)"
      "0 \<le> disp_cursor d" "disp_cursor d < int (length (disp_tasks d))" "T = set (disp_tasks d)"
    by (auto simp: rs_ready_def)
  then show "\<exists>ts s'. boxed rs_partition p r = (Inr (map PInt ts), s') \<and> ts \<noteq> [] \<and> distinct ts \<and> set ts \<subseteq> T \<and>
      rs_ready T s' \<and> (\<forall>r'::'v data_record. True = True)"
    by (simp add: rs_partition_def dispatcher_take_ok rs_ready_def)
next
  fix T p t
  assume "rs_ready T p" "t \<in> T"
  then show "\<exists>ring. rs_retry_targets p t = Inr ring \<and> ring \<noteq> [] \<and> hd ring = t \<and> distinct ring \<and>
      set ring \<subseteq> T"
    using ring_from_rotation by (fastforce simp: rs_ready_def rs_retry_targets_def)
qed

text \<open>The key partitioner admits the records whose key the codec maps to a legal key group.\<close>

definition kp_ready :: "int set \<Rightarrow> ('v, 'k) key_partitioner \<Rightarrow> bool" where
  "kp_ready T p \<longleftrightarrow>
     (\<exists>n m. kp_count p = Some n \<and> kp_max p = Some (PInt m) \<and> 0 < n \<and> n \<le> m \<and> T = {0..<n})"

definition kp_admits ::
  "('k \<Rightarrow> pyobj \<Rightarrow> int result) \<Rightarrow> ('v, 'k) key_partitioner \<Rightarrow> 'v data_record \<Rightarrow> bool" where
  "kp_admits group_for p r \<longleftrightarrow>
     (\<exists>m g. kp_max p = Some (PInt m) \<and> group_for (kp_selector p (block r)) (PInt m) = Inr g \<and>
        0 \<le> g \<and> g < m)"

lemma kp_target_for_key_ok:
  assumes "kp_count p = Some n" "kp_max p = Some (PInt m)" "0 < n" "n \<le> m"
    and "group_for key (PInt m) = Inr g" "0 \<le> g" "g < m"
  shows "kp_target_for_key group_for p key = Inr ((g * n) div m) \<and>
    0 \<le> (g * n) div m \<and> (g * n) div m < n"
proof -
  have *: "1 \<le> n" "n \<le> m" "0 \<le> g" "g < m" using assms by auto
  show ?thesis
    using assms owner_in_parallelism [OF *] key_group_owner_ok [OF *]
    by (simp add: kp_target_for_key_def)
qed

interpretation kp: routing_policy "boxed (kp_partition group_for)" "\<lambda>_ t. Inr (default_retry_targets t)"
  kp_ready "kp_admits group_for" for group_for :: "'k \<Rightarrow> pyobj \<Rightarrow> int result"
proof unfold_locales
  fix T and p :: "('v, 'k) key_partitioner" and r
  assume r: "kp_ready T p" and a: "kp_admits group_for p r"
  from r obtain n m where p: "kp_count p = Some n" "kp_max p = Some (PInt m)" "0 < n" "n \<le> m"
      "T = {0..<n}"
    by (auto simp: kp_ready_def)
  with a obtain g where g: "group_for (kp_selector p (block r)) (PInt m) = Inr g" "0 \<le> g" "g < m"
    by (auto simp: kp_admits_def)
  show "\<exists>ts s'. boxed (kp_partition group_for) p r = (Inr (map PInt ts), s') \<and> ts \<noteq> [] \<and> distinct ts \<and> set ts \<subseteq> T \<and>
      kp_ready T s' \<and> (\<forall>r'. kp_admits group_for s' r' = kp_admits group_for p r')"
    using kp_target_for_key_ok [of p n m group_for "kp_selector p (block r)" g] g p r
    by (simp add: kp_partition_def opened_def)
qed (simp add: default_retry_targets_def)

fun policy_ready :: "int set \<Rightarrow> ('v, 'k) partitioner \<Rightarrow> bool" where
  "policy_ready T (RoundRobinPartitioner p) = rr_ready T p"
| "policy_ready T (AdaptivePartitioner p) = rr_ready T p"
| "policy_ready T (BroadcastPartitioner p) = bc_ready T p"
| "policy_ready T (ForwardPartitioner p) = fw_ready T p"
| "policy_ready T (RescalePartitioner p) = rs_ready T p"
| "policy_ready T (KeyPartitioner p) = kp_ready T p"
| "policy_ready T (SimplePartitioner p) = False"

fun policy_admits ::
  "('k \<Rightarrow> pyobj \<Rightarrow> int result) \<Rightarrow> ('v, 'k) partitioner \<Rightarrow> 'v data_record \<Rightarrow> bool" where
  "policy_admits gf (KeyPartitioner p) r = kp_admits gf p r"
| "policy_admits gf _ r = True"

text \<open>Dynamic dispatch keeps the contract: one interpretation for every built-in class at once.\<close>

interpretation any: routing_policy "partition_record group_for" retry_targets policy_ready
  "policy_admits group_for" for group_for :: "'k \<Rightarrow> pyobj \<Rightarrow> int result"
proof unfold_locales
  fix T and P :: "('v, 'k) partitioner" and r :: "'v data_record"
  assume "policy_ready T P" "policy_admits group_for P r"
  then show "\<exists>ts s'. partition_record group_for P r = (Inr (map PInt ts), s') \<and> ts \<noteq> [] \<and> distinct ts \<and>
      set ts \<subseteq> T \<and> policy_ready T s' \<and>
      (\<forall>r'. policy_admits group_for s' r' = policy_admits group_for P r')"
  proof (cases P)
    case (KeyPartitioner p)
    then show ?thesis
      using \<open>policy_ready T P\<close> \<open>policy_admits group_for P r\<close> kp.route_ok [of T p group_for r]
      by (fastforce simp: map_prod_def split: prod.splits)
  qed (use \<open>policy_ready T P\<close> rr.route_ok bc.route_ok fw.route_ok rs.route_ok in
      \<open>fastforce simp: map_prod_def split: prod.splits\<close>)+
next
  fix T and P :: "('v, 'k) partitioner" and t
  assume "policy_ready T P" "t \<in> T"
  then show "\<exists>ring. retry_targets P t = Inr ring \<and> ring \<noteq> [] \<and> hd ring = t \<and> distinct ring \<and> set ring \<subseteq> T"
    by (cases P) (auto simp: rr.retry_ok rs.retry_ok default_retry_targets_def)
qed

subsection \<open>Opening establishes readiness\<close>

lemma rr_open_ready:
  "0 < n \<Longrightarrow> \<exists>p. rr_open make_round_robin n = (Inr (), p) \<and> rr_ready {0..<n} p"
  by (simp add: rr_open_def make_round_robin_def partitioner_open_def rr_ready_def)

lemma fw_open_ready:
  "0 \<le> task_index ctx \<Longrightarrow> task_index ctx < n \<Longrightarrow>
   \<exists>p. fw_open make_forward ctx n = (Inr (), p) \<and> fw_ready {task_index ctx} p"
  by (simp add: fw_open_def make_forward_def partitioner_open_def fw_ready_def Let_def)

lemma rs_open_ready:
  assumes "0 < n" "0 \<le> task_index ctx" "task_index ctx < ctx_parallelism ctx"
  shows "\<exists>p ts. rs_open make_rescale ctx n = (Inr (), p) \<and>
    target_indices RESCALE (ctx_parallelism ctx) n (task_index ctx) = Inr ts \<and> rs_ready (set ts) p"
proof -
  obtain ts where "target_indices RESCALE (ctx_parallelism ctx) n (task_index ctx) = Inr ts"
      "ts \<noteq> []" "distinct ts"
    using rescale_target_mem [of "ctx_parallelism ctx" n "task_index ctx"] assms by auto
  with assms(1) show ?thesis
    by (simp add: rs_open_def make_rescale_def partitioner_open_def make_dispatcher_def rs_ready_def
        Let_def)
qed

subsection \<open>Fairness of the round-robin cursor\<close>

lemma rr_route_all:
  assumes "rr_count p = Some n" "0 < n" "0 \<le> rr_cursor p" "rr_cursor p < n"
  shows "route_all rr_partition p rs =
    (Inr (map (\<lambda>k. [(rr_cursor p + int k) mod n]) [0..<length rs]),
     p\<lparr>rr_cursor := (rr_cursor p + int (length rs)) mod n\<rparr>)"
  using assms
proof (induction rs arbitrary: p)
  case (Cons r rs)
  define p' where "p' = p\<lparr>rr_cursor := (rr_cursor p + 1) mod n\<rparr>"
  have "rr_partition p r = (Inr [rr_cursor p], p')"
    using Cons.prems by (simp add: rr_partition_def opened_def p'_def)
  moreover have "route_all rr_partition p' rs =
      (Inr (map (\<lambda>k. [(rr_cursor p' + int k) mod n]) [0..<length rs]),
       p'\<lparr>rr_cursor := (rr_cursor p' + int (length rs)) mod n\<rparr>)"
    using Cons.prems by (intro Cons.IH) (auto simp: p'_def)
  moreover have "[0..<length (r # rs)] = 0 # map Suc [0..<length rs]"
    by (simp add: upt_conv_Cons map_Suc_upt del: upt_Suc)
  moreover have "((rr_cursor p + 1) mod n + int k) mod n = (rr_cursor p + int (Suc k)) mod n" for k
    by (simp only: mod_add_left_eq) (simp add: algebra_simps)
  ultimately show ?case
    using Cons.prems by (simp add: p'_def comp_def del: upt_Suc of_nat_Suc)
qed simp

text \<open>
  Round-robin routing is fair: over any \<open>n\<close> consecutive records, where \<open>n\<close> is the
  number of downstream partitions, each partition is chosen exactly once, and the cursor is back
  where it was.
\<close>

theorem round_robin_fair:
  assumes "rr_count p = Some n" "0 < n" "0 \<le> rr_cursor p" "rr_cursor p < n" "int (length rs) = n"
  shows "\<exists>tss. route_all rr_partition p rs = (Inr tss, p) \<and> distinct (concat tss) \<and> set (concat tss) = {0..<n}"
proof -
  have len: "length rs = nat n" using assms by simp
  define tss where "tss = map (\<lambda>k. [(rr_cursor p + int k) mod n]) [0..<length rs]"
  have "concat tss = map (\<lambda>offset. (rr_cursor p + offset) mod n) (py_range 0 n 1)"
    by (simp add: tss_def py_range_def len comp_def)
  moreover have "p\<lparr>rr_cursor := (rr_cursor p + int (length rs)) mod n\<rparr> = p"
    using assms by simp
  ultimately show ?thesis
    using rr_route_all [OF assms(1-4), of rs] mod_ring(3,4) [OF assms(3,4)]
    unfolding tss_def [symmetric] by (simp del: set_concat)
qed

theorem round_robin_fair_witness:
  "\<exists>tss. route_all rr_partition \<lparr>rr_count = Some 3, rr_cursor = 1\<rparr> [(), (), ()] =
      (Inr tss, \<lparr>rr_count = Some 3, rr_cursor = 1\<rparr>) \<and> set (concat tss) = {0..<3}"
  using round_robin_fair [of "\<lparr>rr_count = Some 3, rr_cursor = 1\<rparr>" 3 "[(), (), ()]"] by auto

subsection \<open>Columnar routing by key\<close>

lemma bucket_rows_spec:
  assumes "\<And>i. i \<in> set is \<Longrightarrow> target_of i = Inr (tgt i)"
    and "set order = set (keys buckets)" "distinct order"
  shows "\<exists>buckets' order'. bucket_rows target_of is (buckets, order) = Inr (buckets', order') \<and>
    distinct order' \<and> set order' = set (keys buckets') \<and>
    set order' = set order \<union> tgt ` set is \<and>
    (\<forall>t. dict_get buckets' t [] = dict_get buckets t [] @ filter (\<lambda>i. tgt i = t) is)"
  using assms
proof (induction "is" arbitrary: buckets order)
  case (Cons i "is")
  define b' where "b' = AList.update (tgt i) (dict_get buckets (tgt i) [] @ [i]) (dict_setdefault (tgt i) [] buckets)"
  define o' where "o' = (if map_of buckets (tgt i) = None then order @ [tgt i] else order)"
  have step: "bucket_add id (tgt i) i (buckets, order) = (b', o')"
    by (simp add: bucket_add_def b'_def o'_def Let_def dict_get_def split: option.splits)
  have new: "map_of buckets (tgt i) = None \<longleftrightarrow> tgt i \<notin> set order"
    using Cons.prems(2) by (simp add: map_of_eq_None_iff)
  have o': "set o' = set (keys b')" "distinct o'" "set o' = insert (tgt i) (set order)"
    using Cons.prems(2,3) new by (auto simp: o'_def b'_def simp del: set_map)
  have b': "dict_get b' t [] = dict_get buckets t [] @ (if tgt i = t then [i] else [])" for t
    by (auto simp: b'_def dict_get_def split: option.splits)
  obtain bs os where "bucket_rows target_of is (b', o') = Inr (bs, os)" "distinct os"
      "set os = set (keys bs)" and os: "set os = set o' \<union> tgt ` set is"
      and bs: "\<forall>t. dict_get bs t [] = dict_get b' t [] @ filter (\<lambda>i. tgt i = t) is"
    using Cons.IH [OF _ o'(1,2)] Cons.prems(1) by (metis list.set_intros(2))
  moreover have "set os = set order \<union> tgt ` set (i # is)" unfolding os o'(3) by auto
  moreover have "\<forall>t. dict_get bs t [] = dict_get buckets t [] @ filter (\<lambda>i. tgt i = t) (i # is)"
    using bs b' by simp
  moreover have "bucket_rows target_of (i # is) (buckets, order) = bucket_rows target_of is (b', o')"
    using Cons.prems(1) step by simp
  ultimately show ?case by metis
qed simp

text \<open>
  Columnar key routing agrees with row-by-row routing: if every row of the batch has a target,
  \<open>partition_columnar\<close> succeeds, returns distinct targets, and for each returned pair the rows
  are exactly those whose own target it is (the whole batch when all rows share one target).
\<close>

theorem key_partition_columnar_rows:
  assumes "\<And>i. 0 \<le> i \<Longrightarrow> i < n \<Longrightarrow> kp_row_target group_for p r i = Inr (tgt i)" "0 < n"
  shows "\<exists>routes. kp_partition_columnar group_for p r n = Inr routes \<and> distinct (map fst routes) \<and>
    set (map fst routes) = tgt ` {0..<n} \<and>
    (\<forall>(t, rows) \<in> set routes.
       filter (\<lambda>i. tgt i = t) (py_range 0 n 1) = (case rows of None \<Rightarrow> py_range 0 n 1 | Some is \<Rightarrow> is))"
proof -
  obtain buckets order where br: "bucket_rows (kp_row_target group_for p r) (py_range 0 n 1) ([], []) = Inr (buckets, order)"
    and o: "distinct order" "set order = tgt ` {0..<n}"
    and b: "\<And>t. dict_get buckets t [] = filter (\<lambda>i. tgt i = t) (py_range 0 n 1)"
    using bucket_rows_spec [of "py_range 0 n 1" "kp_row_target group_for p r" tgt "[]" "[]"] assms(1)
    by (auto simp: dict_get_def)
  show ?thesis
  proof (cases "\<exists>t. order = [t]")
    case True
    then obtain t where t: "order = [t]" by auto
    with o(2) have "\<forall>i \<in> set (py_range 0 n 1). tgt i = t" by auto
    then have "filter (\<lambda>i. tgt i = t) (py_range 0 n 1) = py_range 0 n 1" by (simp add: filter_id_conv)
    then show ?thesis using br o t by (simp add: kp_partition_columnar_def)
  next
    case False
    then have "kp_partition_columnar group_for p r n = Inr (map (\<lambda>t. (t, Some (dict_get buckets t []))) order)"
      using br by (auto simp: kp_partition_columnar_def split: list.splits)
    moreover have "map fst (map (\<lambda>t. (t, Some (dict_get buckets t []))) order) = order"
      by (simp add: comp_def)
    ultimately show ?thesis using o b by (auto simp: image_image simp del: map_map)
  qed
qed

text \<open>A concrete instance: keys are the integers of column \<open>k\<close>, grouped by remainder.\<close>

definition demo_group :: "int \<Rightarrow> pyobj \<Rightarrow> int result" where
  "demo_group k m = rbind (as_int m) (\<lambda>v. Inr (k mod v))"

definition demo_selector :: "int block option \<Rightarrow> int" where
  "demo_selector b = (case b of Some (RowBlock [(_, v)]) \<Rightarrow> v | _ \<Rightarrow> 0)"

definition demo_key_partitioner :: "(int, int) key_partitioner" where
  "demo_key_partitioner =
     \<lparr>kp_selector = demo_selector, kp_configured = PNone, kp_count = Some 2, kp_max = Some (PInt 4)\<rparr>"

definition demo_batch :: "int data_record" where
  "demo_batch = make_record (Some (ColumnBlock [(''k'', [0, 3])])) (Some 2)"

theorem key_partition_columnar_rows_witness:
  "\<exists>routes. kp_partition_columnar demo_group demo_key_partitioner demo_batch 2 = Inr routes \<and>
     set (map fst routes) = {0, 1}"
proof -
  define tgt :: "int \<Rightarrow> int" where "tgt i = (if i = 0 then 0 else 1)" for i
  have "kp_row_target demo_group demo_key_partitioner demo_batch i = Inr (tgt i)"
    if "0 \<le> i" "i < 2" for i
  proof -
    have "i = 0 \<or> i = 1" using that by auto
    then show ?thesis
      by (auto simp: kp_row_target_def block_columns_def demo_batch_def make_record_def
          block_row_dict_def py_index_def kp_target_for_key_def demo_key_partitioner_def
          demo_selector_def demo_group_def key_group_owner_ok tgt_def)
  qed
  moreover have "tgt ` {0..<2} = {0, 1}"
  proof -
    have "{0..<2 :: int} = {0, 1}" by auto
    then show ?thesis by (auto simp: tgt_def)
  qed
  ultimately show ?thesis
    using key_partition_columnar_rows [of 2 demo_group demo_key_partitioner demo_batch tgt] by auto
qed

end
