(* ===== verification/RecordRouting.thy ===== *)
theory RecordRouting
  imports Partitioning
begin

section \<open>Record router (runtime/collector/record_router.py)\<close>

text \<open>
  The router validates what a partitioner decides. It is written over the partitioner's operations
  (\<open>part\<close>, \<open>part_columnar\<close>, \<open>retry\<close>), which it only calls. \<open>route\<close> is a generator:
  the model returns the pairs yielded so far together with the exception that ended it, if any, and
  the router left behind (the partitioner's cursor moves and retry rings are cached even when a
  later check raises).
\<close>

record 'p router =
  rt_partitioner :: 'p
  rt_target_count :: int
  rt_control :: "int list"
  rt_rings :: "(int, int list) dict"

definition validate_target :: "int \<Rightarrow> int list option \<Rightarrow> pyobj \<Rightarrow> int result" where
  "validate_target target_count allowed target =
     rbind (as_int target) (\<lambda>t.
       if t < 0 \<or> t \<ge> target_count then Inl ValueError
       else case allowed of
              None \<Rightarrow> Inr t
            | Some ts \<Rightarrow> (if t \<notin> set ts then Inl ValueError else Inr t))"

fun validate_targets_from ::
  "int \<Rightarrow> int list option \<Rightarrow> int list \<Rightarrow> pyobj list \<Rightarrow> int list result" where
  "validate_targets_from n allowed validated [] = Inr validated"
| "validate_targets_from n allowed validated (target # targets) =
     rbind (validate_target n allowed target) (\<lambda>t.
       if t \<in> set validated then Inl ValueError
       else validate_targets_from n allowed (validated @ [t]) targets)"

definition validate_targets :: "int \<Rightarrow> int list option \<Rightarrow> pyobj list \<Rightarrow> int list result" where
  "validate_targets n allowed targets = validate_targets_from n allowed [] targets"

definition make_router :: "'p \<Rightarrow> int \<Rightarrow> pyobj list \<Rightarrow> 'p router result" where
  "make_router partitioner target_count control_target_indices =
     (if target_count \<le> 0 then Inl ValueError
      else rbind (validate_targets target_count None control_target_indices) (\<lambda>control.
        if control = [] then Inl ValueError
        else Inr \<lparr>rt_partitioner = partitioner, rt_target_count = target_count,
                  rt_control = control, rt_rings = []\<rparr>))"

definition retry_ring ::
  "('p \<Rightarrow> int \<Rightarrow> int list result) \<Rightarrow> 'p router \<Rightarrow> int \<Rightarrow> int list result \<times> 'p router" where
  "retry_ring retry rt initial_target =
     (case map_of (rt_rings rt) initial_target of
        Some ring \<Rightarrow> (Inr ring, rt)
      | None \<Rightarrow>
          (case rbind (retry (rt_partitioner rt) initial_target) (\<lambda>ring.
                  validate_targets (rt_target_count rt) (Some (rt_control rt)) (map PInt ring)) of
             Inl e \<Rightarrow> (Inl e, rt)
           | Inr ring \<Rightarrow>
               (if ring = [] \<or> hd ring \<noteq> initial_target then (Inl ValueError, rt)
                else (Inr ring, rt\<lparr>rt_rings := AList.update initial_target ring (rt_rings rt)\<rparr>))))"

type_synonym ('p, 'v) routed = "(int \<times> 'v data_record) list \<times> unit result \<times> 'p router"

fun yield_row ::
  "('p \<Rightarrow> int \<Rightarrow> int list result) \<Rightarrow> 'p router \<Rightarrow> 'v data_record \<Rightarrow> int list \<Rightarrow> ('p, 'v) routed" where
  "yield_row retry rt r [] = ([], Inr (), rt)"
| "yield_row retry rt r (t # ts) =
     (case retry_ring retry rt t of
        (Inl e, rt') \<Rightarrow> ([], Inl e, rt')
      | (Inr _, rt') \<Rightarrow>
          (let (ys, st, rt'') = yield_row retry rt' r ts in ((t, r) # ys, st, rt'')))"

definition route_row ::
  "('p \<Rightarrow> 'v data_record \<Rightarrow> pyobj list result \<times> 'p) \<Rightarrow> ('p \<Rightarrow> int \<Rightarrow> int list result) \<Rightarrow>
   'p router \<Rightarrow> 'v data_record \<Rightarrow> ('p, 'v) routed" where
  "route_row part retry rt r =
     (let (res, p') = part (rt_partitioner rt) r; rt' = rt\<lparr>rt_partitioner := p'\<rparr>
      in case rbind res (validate_targets (rt_target_count rt) (Some (rt_control rt))) of
           Inl e \<Rightarrow> ([], Inl e, rt')
         | Inr targets \<Rightarrow>
             (if targets = [] then ([], Inl ValueError, rt') else yield_row retry rt' r targets))"

fun validate_row_indices_from :: "int \<Rightarrow> int list \<Rightarrow> int list \<Rightarrow> unit result" where
  "validate_row_indices_from n seen [] = Inr ()"
| "validate_row_indices_from n seen (i # is) =
     (if i < 0 \<or> i \<ge> n then Inl ValueError
      else if i \<in> set seen then Inl ValueError
      else validate_row_indices_from n (i # seen) is)"

definition validate_row_indices :: "int \<Rightarrow> int list \<Rightarrow> int list result" where
  "validate_row_indices n indices =
     (if indices = [] then Inl ValueError
      else rbind (validate_row_indices_from n [] indices) (\<lambda>_. Inr indices))"

definition pick :: "'a list option \<Rightarrow> int list \<Rightarrow> 'a list option result" where
  "pick xs indices =
     (case xs of
        None \<Rightarrow> Inr None
      | Some ys \<Rightarrow> rbind (rmap (py_index ys) indices) (\<lambda>zs. Inr (Some zs)))"

definition inherit_slice_metadata ::
  "'v data_record \<Rightarrow> 'v data_record \<Rightarrow> int list \<Rightarrow> 'v data_record result" where
  "inherit_slice_metadata routed source indices =
     rbind (pick (row_kinds source) indices) (\<lambda>kinds.
     rbind (pick (row_timestamps source) indices) (\<lambda>stamps.
       Inr (routed\<lparr>rec_sender := rec_sender source, rec_input_tag := rec_input_tag source,
                   rec_timestamp := rec_timestamp source, row_kinds := kinds, row_timestamps := stamps\<rparr>)))"

definition slice_record :: "'v data_record \<Rightarrow> int list \<Rightarrow> 'v data_record result" where
  "slice_record r indices =
     rbind (block_columns r) (\<lambda>c.
     rbind (slice_block_rows c indices) (\<lambda>sub.
       inherit_slice_metadata
         (make_record (Some (ColumnBlock sub)) (Some (int (length indices)))) r indices))"

fun columnar_loop ::
  "('p \<Rightarrow> int \<Rightarrow> int list result) \<Rightarrow> 'v data_record \<Rightarrow> int \<Rightarrow>
   'p router \<Rightarrow> int list \<Rightarrow> int list \<Rightarrow> bool \<Rightarrow> (pyobj \<times> int list option) list \<Rightarrow> ('p, 'v) routed" where
  "columnar_loop retry r n rt seen covered covers_all [] =
     ([], (if \<not> covers_all \<and> int (card (set covered)) \<noteq> n then Inl ValueError else Inr ()), rt)"
| "columnar_loop retry r n rt seen covered covers_all ((target, row_indices) # routes) =
     (case validate_target (rt_target_count rt) (Some (rt_control rt)) target of
        Inl e \<Rightarrow> ([], Inl e, rt)
      | Inr t \<Rightarrow>
          (if t \<in> set seen then ([], Inl ValueError, rt)
           else case retry_ring retry rt t of
             (Inl e, rt') \<Rightarrow> ([], Inl e, rt')
           | (Inr _, rt') \<Rightarrow>
               (case row_indices of
                  None \<Rightarrow>
                    (let (ys, st, rt'') = columnar_loop retry r n rt' (t # seen) covered True routes
                     in ((t, r) # ys, st, rt''))
                | Some rows \<Rightarrow>
                    (case validate_row_indices n rows of
                       Inl e \<Rightarrow> ([], Inl e, rt')
                     | Inr indices \<Rightarrow>
                         (case slice_record r indices of
                            Inl e \<Rightarrow> ([], Inl e, rt')
                          | Inr routed \<Rightarrow>
                              (let (ys, st, rt'') = columnar_loop retry r n rt' (t # seen)
                                     (covered @ indices) covers_all routes
                               in ((t, routed) # ys, st, rt'')))))))"

definition route_columnar ::
  "('p \<Rightarrow> 'v data_record \<Rightarrow> int \<Rightarrow> (pyobj \<times> int list option) list result \<times> 'p) \<Rightarrow>
   ('p \<Rightarrow> int \<Rightarrow> int list result) \<Rightarrow> 'p router \<Rightarrow> 'v data_record \<Rightarrow> int \<Rightarrow> ('p, 'v) routed" where
  "route_columnar part_columnar retry rt r n =
     (if n < 0 then ([], Inl ValueError, rt)
      else let (res, p') = part_columnar (rt_partitioner rt) r n; rt' = rt\<lparr>rt_partitioner := p'\<rparr>
        in case res of
             Inl e \<Rightarrow> ([], Inl e, rt')
           | Inr routes \<Rightarrow>
               (if n \<noteq> 0 \<and> routes = [] then ([], Inl ValueError, rt')
                else columnar_loop retry r n rt' [] [] False routes))"

definition route ::
  "('p \<Rightarrow> 'v data_record \<Rightarrow> pyobj list result \<times> 'p) \<Rightarrow>
   ('p \<Rightarrow> 'v data_record \<Rightarrow> int \<Rightarrow> (pyobj \<times> int list option) list result \<times> 'p) \<Rightarrow>
   ('p \<Rightarrow> int \<Rightarrow> int list result) \<Rightarrow> 'p router \<Rightarrow> 'v data_record \<Rightarrow> ('p, 'v) routed" where
  "route part part_columnar retry rt r =
     (case num_rows r of
        None \<Rightarrow> route_row part retry rt r
      | Some n \<Rightarrow> route_columnar part_columnar retry rt r n)"

subsection \<open>Validation\<close>

lemma validate_target_Inr [result_simps]:
  "validate_target n allowed x = Inr t \<longleftrightarrow>
     x = PInt t \<and> 0 \<le> t \<and> t < n \<and> (case allowed of None \<Rightarrow> True | Some ts \<Rightarrow> t \<in> set ts)"
  by (cases x; cases allowed) (auto simp: validate_target_def as_int_def)

lemma validate_targets_from_Inr:
  "validate_targets_from n allowed acc xs = Inr ts \<longleftrightarrow>
     (\<exists>zs. xs = map PInt zs \<and> ts = acc @ zs \<and> distinct zs \<and> set zs \<inter> set acc = {} \<and>
       (\<forall>z \<in> set zs. 0 \<le> z \<and> z < n \<and> (case allowed of None \<Rightarrow> True | Some as \<Rightarrow> z \<in> set as)))"
proof (induction xs arbitrary: acc)
  case (Cons x xs)
  show ?case (is "?l \<longleftrightarrow> ?r")
  proof
    assume ?l
    then obtain t where t: "x = PInt t" "0 \<le> t" "t < n"
        "case allowed of None \<Rightarrow> True | Some ts \<Rightarrow> t \<in> set ts" "t \<notin> set acc"
        "validate_targets_from n allowed (acc @ [t]) xs = Inr ts"
      by (auto simp: result_simps split: if_splits)
    with Cons.IH obtain zs where "xs = map PInt zs" "ts = (acc @ [t]) @ zs" "distinct zs"
        "set zs \<inter> set (acc @ [t]) = {}"
        "\<forall>z \<in> set zs. 0 \<le> z \<and> z < n \<and> (case allowed of None \<Rightarrow> True | Some as \<Rightarrow> z \<in> set as)"
      by auto
    with t show ?r by (intro exI [of _ "t # zs"]) auto
  next
    assume ?r
    then obtain t zs where "x = PInt t" "xs = map PInt zs" "ts = acc @ t # zs" "distinct (t # zs)"
        "set (t # zs) \<inter> set acc = {}"
        "\<forall>z \<in> set (t # zs). 0 \<le> z \<and> z < n \<and> (case allowed of None \<Rightarrow> True | Some as \<Rightarrow> z \<in> set as)"
      by (auto simp: Cons_eq_map_conv)
    then have t: "validate_target n allowed x = Inr t" "t \<notin> set acc"
      and "validate_targets_from n allowed (acc @ [t]) xs = Inr ts"
      using Cons.IH [of "acc @ [t]"] by (auto simp: validate_target_Inr)
    then show ?l by simp
  qed
qed auto

lemma validate_targets_Inr:
  "validate_targets n allowed xs = Inr ts \<longleftrightarrow>
     xs = map PInt ts \<and> distinct ts \<and>
     (\<forall>z \<in> set ts. 0 \<le> z \<and> z < n \<and> (case allowed of None \<Rightarrow> True | Some as \<Rightarrow> z \<in> set as))"
  by (auto simp: validate_targets_def validate_targets_from_Inr)

lemma validate_row_indices_from_Inr:
  "validate_row_indices_from n seen is = Inr u \<longleftrightarrow>
     distinct is \<and> set is \<inter> set seen = {} \<and> (\<forall>i \<in> set is. 0 \<le> i \<and> i < n)"
  by (induction "is" arbitrary: seen) auto

lemma validate_row_indices_Inr [result_simps]:
  "validate_row_indices n is = Inr js \<longleftrightarrow>
     js = is \<and> is \<noteq> [] \<and> distinct is \<and> (\<forall>i \<in> set is. 0 \<le> i \<and> i < n)"
  by (auto simp: validate_row_indices_def result_simps validate_row_indices_from_Inr)

text \<open>The invariant of a router: legal control topology, and cached rings start at their key.\<close>

definition ring_ok :: "int list \<Rightarrow> int \<Rightarrow> int list \<Rightarrow> bool" where
  "ring_ok control t ring \<longleftrightarrow>
     ring \<noteq> [] \<and> hd ring = t \<and> distinct ring \<and> set ring \<subseteq> set control"

definition router_inv :: "'p router \<Rightarrow> bool" where
  "router_inv rt \<longleftrightarrow>
     rt_control rt \<noteq> [] \<and> distinct (rt_control rt) \<and>
     (\<forall>t \<in> set (rt_control rt). 0 \<le> t \<and> t < rt_target_count rt) \<and>
     (\<forall>t ring. map_of (rt_rings rt) t = Some ring \<longrightarrow> ring_ok (rt_control rt) t ring)"

lemma make_router_inv: "make_router p n control = Inr rt \<Longrightarrow> router_inv rt"
  by (auto simp: make_router_def router_inv_def result_simps validate_targets_Inr split: if_splits)

lemma router_inv_partitioner [simp]: "router_inv (rt\<lparr>rt_partitioner := p\<rparr>) = router_inv rt"
  by (simp add: router_inv_def)

text \<open>What an operation of the router leaves alone.\<close>

definition same_topology :: "'p router \<Rightarrow> 'p router \<Rightarrow> bool" where
  "same_topology rt rt' \<longleftrightarrow>
     rt_control rt' = rt_control rt \<and> rt_target_count rt' = rt_target_count rt \<and>
     rt_partitioner rt' = rt_partitioner rt"

lemma same_topology_refl [simp]: "same_topology rt rt"
  by (simp add: same_topology_def)

lemma same_topology_trans: "same_topology a b \<Longrightarrow> same_topology b c \<Longrightarrow> same_topology a c"
  by (simp add: same_topology_def)

lemma retry_ring_inv:
  assumes "router_inv rt" "retry_ring retry rt t = (res, rt')"
  shows "router_inv rt' \<and> same_topology rt rt' \<and>
    (\<forall>ring. res = Inr ring \<longrightarrow> ring_ok (rt_control rt) t ring)"
proof (cases "map_of (rt_rings rt) t")
  case (Some ring)
  with assms show ?thesis by (auto simp: retry_ring_def router_inv_def)
next
  case None
  define v where "v = rbind (retry (rt_partitioner rt) t) (\<lambda>ring.
    validate_targets (rt_target_count rt) (Some (rt_control rt)) (map PInt ring))"
  have eq: "(res, rt') = (case v of Inl e \<Rightarrow> (Inl e, rt)
      | Inr ring \<Rightarrow> (if ring = [] \<or> hd ring \<noteq> t then (Inl ValueError, rt)
          else (Inr ring, rt\<lparr>rt_rings := AList.update t ring (rt_rings rt)\<rparr>)))"
    using None assms(2) by (simp add: retry_ring_def v_def)
  show ?thesis
  proof (cases "\<exists>ring. v = Inr ring \<and> ring \<noteq> [] \<and> hd ring = t")
    case False
    with eq have "(\<exists>e. res = Inl e) \<and> rt' = rt" by (auto split: sum.splits if_splits)
    with assms(1) show ?thesis by auto
  next
    case True
    then obtain ring where v: "v = Inr ring" "ring \<noteq> []" "hd ring = t" by auto
    then have ring: "ring_ok (rt_control rt) t ring"
      by (auto simp: ring_ok_def v_def rbind_eq_Inr_iff validate_targets_Inr)
    have "res = Inr ring" "rt' = rt\<lparr>rt_rings := AList.update t ring (rt_rings rt)\<rparr>"
      using eq v by auto
    with assms(1) ring show ?thesis by (simp add: router_inv_def same_topology_def)
  qed
qed

subsection \<open>Row routing over a contract-abiding partitioner\<close>

text \<open>
  \<open>ready_router\<close>: the router's partitioner is ready for exactly the control topology. Under
  the contract of \<open>routing_policy\<close> row routing never raises.
\<close>

context routing_policy
begin

definition ready_router :: "'s router \<Rightarrow> bool" where
  "ready_router rt \<longleftrightarrow> router_inv rt \<and> ready (set (rt_control rt)) (rt_partitioner rt)"

lemma retry_ring_ok:
  assumes "ready_router rt" "t \<in> set (rt_control rt)"
  shows "\<exists>ring rt'. retry_ring retry rt t = (Inr ring, rt') \<and> ring_ok (rt_control rt) t ring \<and>
    ready_router rt' \<and> same_topology rt rt'"
proof -
  have inv: "router_inv rt" using assms(1) by (simp add: ready_router_def)
  obtain res rt' where r: "retry_ring retry rt t = (res, rt')" by fastforce
  have "\<exists>ring. res = Inr ring"
  proof (cases "map_of (rt_rings rt) t")
    case (Some ring)
    with r show ?thesis by (auto simp: retry_ring_def)
  next
    case None
    obtain ring where ring: "retry (rt_partitioner rt) t = Inr ring" "ring \<noteq> []" "hd ring = t"
        "distinct ring" "set ring \<subseteq> set (rt_control rt)"
      using retry_ok [of "set (rt_control rt)" "rt_partitioner rt" t] assms
      by (auto simp: ready_router_def)
    have "validate_targets (rt_target_count rt) (Some (rt_control rt)) (map PInt ring) = Inr ring"
      using ring inv by (auto simp: validate_targets_Inr router_inv_def)
    then have "res = Inr ring" using r None ring(1-3) by (simp add: retry_ring_def)
    then show ?thesis by simp
  qed
  with r retry_ring_inv [OF inv r] assms(1) show ?thesis
    by (auto simp: ready_router_def same_topology_def)
qed

lemma yield_row_ok:
  "ready_router rt \<Longrightarrow> set ts \<subseteq> set (rt_control rt) \<Longrightarrow>
   \<exists>rt'. yield_row retry rt r ts = (map (\<lambda>t. (t, r)) ts, Inr (), rt') \<and> ready_router rt' \<and>
     same_topology rt rt'"
proof (induction ts arbitrary: rt)
  case (Cons t ts)
  then obtain ring rt1 where rt1: "retry_ring retry rt t = (Inr ring, rt1)" "ready_router rt1"
      "same_topology rt rt1"
    using retry_ring_ok [of rt t] by auto
  then have "set ts \<subseteq> set (rt_control rt1)" using Cons.prems by (simp add: same_topology_def)
  from Cons.IH [OF rt1(2) this] rt1 show ?case by (auto dest: same_topology_trans)
qed simp

lemma route_row_ok:
  assumes "ready_router rt" "admits (rt_partitioner rt) r"
  shows "\<exists>ts rt'. route_row route retry rt r = (map (\<lambda>t. (t, r)) ts, Inr (), rt') \<and> ts \<noteq> [] \<and>
    distinct ts \<and> set ts \<subseteq> set (rt_control rt) \<and> ready_router rt' \<and> rt_control rt' = rt_control rt"
proof -
  obtain ts p' where p': "route (rt_partitioner rt) r = (Inr (map PInt ts), p')" "ts \<noteq> []" "distinct ts"
      "set ts \<subseteq> set (rt_control rt)" "ready (set (rt_control rt)) p'"
    using route_ok [of "set (rt_control rt)" "rt_partitioner rt" r] assms
    by (auto simp: ready_router_def)
  define rt1 where "rt1 = rt\<lparr>rt_partitioner := p'\<rparr>"
  have rt1: "ready_router rt1" "set ts \<subseteq> set (rt_control rt1)"
    using assms(1) p' by (simp_all add: ready_router_def rt1_def)
  have "validate_targets (rt_target_count rt) (Some (rt_control rt)) (map PInt ts) = Inr ts"
    using p' assms(1) by (auto simp: validate_targets_Inr ready_router_def router_inv_def)
  then have "route_row route retry rt r = yield_row retry rt1 r ts"
    using p' by (simp add: route_row_def rt1_def)
  with yield_row_ok [OF rt1, of r] p' show ?thesis by (auto simp: same_topology_def rt1_def)
qed

end

text \<open>
  A router whose built-in partitioner is open for the control topology routes every row record
  without raising: it yields the record once to each of a non-empty set of distinct targets inside
  the control topology, and is ready for the next record.
\<close>

theorem route_row_never_raises:
  assumes "router_inv rt" "policy_ready (set (rt_control rt)) (rt_partitioner rt)"
    and "policy_admits group_for (rt_partitioner rt) r"
  shows "\<exists>ts rt'. route_row (partition_record group_for) retry_targets rt r =
      (map (\<lambda>t. (t, r)) ts, Inr (), rt') \<and> ts \<noteq> [] \<and> distinct ts \<and>
    set ts \<subseteq> set (rt_control rt) \<and> router_inv rt' \<and>
    policy_ready (set (rt_control rt')) (rt_partitioner rt')"
proof -
  have "any.ready_router rt" using assms(1,2) by (simp add: any.ready_router_def)
  from any.route_row_ok [OF this assms(3)] show ?thesis by (auto simp: any.ready_router_def)
qed

definition demo_router :: "(int, int) partitioner router" where
  "demo_router =
     \<lparr>rt_partitioner = RoundRobinPartitioner \<lparr>rr_count = Some 3, rr_cursor = 2\<rparr>,
      rt_target_count = 3, rt_control = [0, 1, 2], rt_rings = []\<rparr>"

theorem route_row_never_raises_witness:
  "\<exists>ts rt'. route_row (partition_record demo_group) retry_targets demo_router
      (make_record (Some (RowBlock [])) None) =
      (map (\<lambda>t. (t, make_record (Some (RowBlock [])) None)) ts, Inr (), rt') \<and> ts \<noteq> []"
proof -
  have "router_inv demo_router" by (simp add: demo_router_def router_inv_def)
  moreover have "policy_ready (set (rt_control demo_router)) (rt_partitioner demo_router)"
    by (auto simp: demo_router_def rr_ready_def)
  ultimately show ?thesis
    using route_row_never_raises [of demo_router demo_group "make_record (Some (RowBlock [])) None"]
    by (auto simp: demo_router_def)
qed

subsection \<open>Columnar routing loses no row\<close>

definition columns_of :: "'v data_record \<Rightarrow> (string \<times> 'v list) list" where
  "columns_of r = (case block r of Some (ColumnBlock c) \<Rightarrow> c | _ \<Rightarrow> [])"

definition carries_row :: "'v data_record \<Rightarrow> int \<Rightarrow> 'v data_record \<Rightarrow> bool" where
  "carries_row r i r' \<longleftrightarrow>
     (\<exists>k. block_row_dict (columns_of r') k = block_row_dict (columns_of r) i)"

lemma slice_record_carries:
  assumes "slice_record r indices = Inr r'" "\<forall>(c, vs) \<in> set (columns_of r). int (length vs) = n"
    and "\<forall>i \<in> set indices. 0 \<le> i \<and> i < n" "i \<in> set indices"
  shows "carries_row r i r'"
proof -
  obtain c sub where c: "block r = Some (ColumnBlock c)" and sub: "slice_block_rows c indices = Inr sub"
    and r': "inherit_slice_metadata (make_record (Some (ColumnBlock sub)) (Some (int (length indices)))) r indices = Inr r'"
    using assms(1)
    by (auto simp: slice_record_def rbind_eq_Inr_iff block_columns_def split: option.splits block.splits)
  then have "columns_of r' = sub" "columns_of r = c"
    by (auto simp: inherit_slice_metadata_def rbind_eq_Inr_iff columns_of_def make_record_def)
  moreover obtain k where "k < length indices" "indices ! k = i"
    using assms(4) by (auto simp: in_set_conv_nth)
  moreover have "\<forall>(c, vs) \<in> set (columns_of r). length vs = nat n" using assms(2) by auto
  ultimately show ?thesis
    using slice_block_rows_row [of c "nat n" indices k] assms(3) sub
    unfolding carries_row_def by force
qed

lemma columnar_loop_covers:
  assumes "columnar_loop retry r n rt seen covered covers_all routes = (ys, Inr (), rt')"
    and "\<forall>(c, vs) \<in> set (columns_of r). int (length vs) = n"
    and "set covered \<subseteq> {0..<n}" "0 \<le> n" "0 \<le> i" "i < n" "\<not> covers_all" "i \<notin> set covered"
  shows "\<exists>(t, r') \<in> set ys. carries_row r i r'"
  using assms
proof (induction retry r n rt seen covered covers_all routes arbitrary: ys rt'
    rule: columnar_loop.induct)
  case (1 retry r n rt seen covered covers_all)
  then have "card (set covered) = card {0..<n}" by (auto split: if_splits)
  then have "set covered = {0..<n}" using "1.prems"(3) card_subset_eq [of "{0..<n}" "set covered"] by simp
  with 1 show ?case by auto
next
  case (2 retry r n rt seen covered covers_all target row_indices routes)
  obtain t where t: "validate_target (rt_target_count rt) (Some (rt_control rt)) target = Inr t"
      "t \<notin> set seen"
    using "2.prems"(1) by (auto split: sum.splits if_splits)
  obtain ring rt1 where rt1: "retry_ring retry rt t = (Inr ring, rt1)"
    using "2.prems"(1) t by (auto split: sum.splits prod.splits)
  show ?case
  proof (cases row_indices)
    case None
    obtain ys' where "ys = (t, r) # ys'"
      using "2.prems"(1) t rt1 None by (auto split: prod.splits)
    then show ?thesis by (auto simp: carries_row_def)
  next
    case (Some rows)
    obtain indices where i: "validate_row_indices n rows = Inr indices"
      using "2.prems"(1) t rt1 Some by (auto split: sum.splits)
    obtain routed where rd: "slice_record r indices = Inr routed"
      using "2.prems"(1) t rt1 Some i by (auto split: sum.splits)
    obtain ys' where ys: "ys = (t, routed) # ys'"
      and loop: "columnar_loop retry r n rt1 (t # seen) (covered @ indices) covers_all routes = (ys', Inr (), rt')"
      using "2.prems"(1) t rt1 Some i rd by (auto split: prod.splits)
    have ok: "\<forall>j \<in> set indices. 0 \<le> j \<and> j < n" using i by (auto simp: validate_row_indices_Inr)
    show ?thesis
    proof (cases "i \<in> set indices")
      case True
      then show ?thesis using slice_record_carries [OF rd "2.prems"(2) ok] ys by auto
    next
      case False
      have "\<exists>(t, r') \<in> set ys'. carries_row r i r'"
        using "2.IH"(2) [OF t rt1 [symmetric] refl Some i rd loop] "2.prems"(2-) ok False
        by (simp add: subset_iff)
      then show ?thesis using ys by auto
    qed
  qed
qed

lemma columnar_loop_targets:
  assumes "columnar_loop retry r n rt seen covered covers_all routes = (ys, st, rt')" "router_inv rt"
  shows "distinct (map fst ys) \<and> set (map fst ys) \<subseteq> set (rt_control rt) - set seen \<and>
    router_inv rt' \<and> rt_control rt' = rt_control rt"
  using assms
proof (induction retry r n rt seen covered covers_all routes arbitrary: ys st rt'
    rule: columnar_loop.induct)
  case (2 retry r n rt seen covered covers_all target row_indices routes)
  show ?case
  proof (cases "\<exists>t. validate_target (rt_target_count rt) (Some (rt_control rt)) target = Inr t \<and> t \<notin> set seen")
    case False
    with "2.prems" show ?thesis by (auto split: sum.splits if_splits)
  next
    case True
    then obtain t where t: "validate_target (rt_target_count rt) (Some (rt_control rt)) target = Inr t"
        "t \<notin> set seen" by auto
    then have mem: "t \<in> set (rt_control rt)" by (simp add: validate_target_Inr)
    obtain res rt1 where rr: "retry_ring retry rt t = (res, rt1)" by fastforce
    have rt1: "router_inv rt1" "rt_control rt1 = rt_control rt"
      using retry_ring_inv [OF "2.prems"(2) rr] by (auto simp: same_topology_def)
    show ?thesis
    proof (cases res)
      case (Inl e)
      with "2.prems" t rr rt1 show ?thesis by auto
    next
      case (Inr ring)
      note rr' = rr [unfolded Inr]
      show ?thesis
      proof (cases row_indices)
        case None
        obtain ys' where ys: "ys = (t, r) # ys'"
          and loop: "columnar_loop retry r n rt1 (t # seen) covered True routes = (ys', st, rt')"
          using "2.prems"(1) t rr' None by (auto split: prod.splits)
        from "2.IH"(1) [OF t rr' [symmetric] refl None loop rt1(1)] rt1 mem t ys show ?thesis by auto
      next
        case (Some rows)
        show ?thesis
        proof (cases "\<exists>indices routed. validate_row_indices n rows = Inr indices \<and>
            slice_record r indices = Inr routed")
          case False
          with "2.prems" t rr' Some rt1 show ?thesis by (auto split: sum.splits)
        next
          case True
          then obtain indices routed where i: "validate_row_indices n rows = Inr indices"
            and rd: "slice_record r indices = Inr routed" by auto
          obtain ys' where ys: "ys = (t, routed) # ys'"
            and loop: "columnar_loop retry r n rt1 (t # seen) (covered @ indices) covers_all routes = (ys', st, rt')"
            using "2.prems"(1) t rr' Some i rd by (auto split: prod.splits)
          from "2.IH"(2) [OF t rr' [symmetric] refl Some i rd loop rt1(1)] rt1 mem t ys show ?thesis by auto
        qed
      qed
    qed
  qed
qed auto

text \<open>
  C34. Columnar routing is complete: whenever \<open>route\<close> finishes a columnar record without an
  exception, every row of the batch is carried by one of the yielded records, and the targets are
  pairwise distinct members of the control topology. This holds for any partitioner, user code
  included: a partitioner that drops rows is turned into an exception.
\<close>

theorem route_columnar_complete:
  assumes "route_columnar part_columnar retry rt r n = (ys, Inr (), rt')" "router_inv rt"
    and "\<forall>(c, vs) \<in> set (columns_of r). int (length vs) = n"
  shows "(\<forall>i. 0 \<le> i \<and> i < n \<longrightarrow> (\<exists>(t, r') \<in> set ys. carries_row r i r')) \<and>
    distinct (map fst ys) \<and> set (map fst ys) \<subseteq> set (rt_control rt)"
proof -
  have n: "0 \<le> n" using assms(1) by (auto simp: route_columnar_def split: if_splits)
  obtain res p' where p': "part_columnar (rt_partitioner rt) r n = (res, p')" by fastforce
  obtain routes where "res = Inr routes"
    and loop: "columnar_loop retry r n (rt\<lparr>rt_partitioner := p'\<rparr>) [] [] False routes = (ys, Inr (), rt')"
    using assms(1) p' by (auto simp: route_columnar_def Let_def split: sum.splits if_splits)
  have "\<exists>(t, r') \<in> set ys. carries_row r i r'" if "0 \<le> i \<and> i < n" for i
    using columnar_loop_covers [OF loop assms(3)] that n by simp
  moreover have "distinct (map fst ys) \<and> set (map fst ys) \<subseteq> set (rt_control rt)"
    using columnar_loop_targets [OF loop] assms(2) by simp
  ultimately show ?thesis by blast
qed

definition demo_columnar_router :: "(int, int) partitioner router" where
  "demo_columnar_router = demo_router\<lparr>rt_partitioner := KeyPartitioner demo_key_partitioner\<rparr>"

lemma demo_columnar_route:
  "let (ys, st, rt') = route_columnar (partition_columnar demo_group) retry_targets
      demo_columnar_router demo_batch 2
   in st = Inr () \<and> map fst ys = [0, 1]"
  by code_simp

theorem route_columnar_complete_witness:
  "\<exists>ys :: (int \<times> int data_record) list.
     (\<forall>i. 0 \<le> i \<and> i < 2 \<longrightarrow> (\<exists>(t, r') \<in> set ys. carries_row demo_batch i r')) \<and>
     map fst ys = [0, 1]"
proof -
  obtain ys rt' where r: "route_columnar (partition_columnar demo_group) retry_targets
      demo_columnar_router demo_batch 2 = (ys, Inr (), rt')" and "map fst ys = [0, 1]"
    using demo_columnar_route by (auto simp: Let_def split: prod.splits)
  moreover have "router_inv demo_columnar_router"
    by (simp add: demo_columnar_router_def demo_router_def router_inv_def)
  moreover have "\<forall>(c, vs) \<in> set (columns_of demo_batch). int (length vs) = 2"
    by (simp add: columns_of_def demo_batch_def make_record_def)
  ultimately show ?thesis
    using route_columnar_complete [OF r] by (intro exI [of _ ys]) simp
qed

end
