(* ===== verification/WatermarkTracking.thy ===== *)
theory WatermarkTracking
  imports Messages
begin

section \<open>Event-time aggregation over inputs (runtime/event_time/input_watermark_tracker.py)\<close>

text \<open>
  \<open>InputWatermarkTracker\<close> combines the watermarks of the physical inputs of a task into one
  monotonic output. Its state is a dictionary of input states in insertion order, the output
  watermark and the output idle flag. The main results: the idle flag says exactly whether all
  inputs are idle, the output watermark is the running maximum of the minimum over active inputs
  (the abstract specification), and the controls it emits form a well-formed event-time stream.
\<close>

record input_state =
  watermark :: "int option"
  idle :: bool

definition fresh_input :: input_state where
  "fresh_input = \<lparr>watermark = None, idle = False\<rparr>"

record 'i tracker =
  inputs :: "('i, input_state) dict"
  output_watermark :: int
  output_idle :: bool

type_synonym 'i tracker_snapshot = "('i \<times> int option \<times> bool) list \<times> int \<times> bool"

text \<open>A dict comprehension over ids: a repeated id keeps its first position and its last value.\<close>

definition dict_of :: "('i \<Rightarrow> input_state) \<Rightarrow> 'i list \<Rightarrow> ('i, input_state) dict" where
  "dict_of f ids = fold (\<lambda>i d. AList.update i (f i) d) ids []"

definition make_tracker :: "'i list \<Rightarrow> 'i tracker" where
  "make_tracker ids =
     \<lparr>inputs = dict_of (\<lambda>_. fresh_input) ids, output_watermark = - 1, output_idle = False\<rparr>"

definition idle_input_count :: "'i tracker \<Rightarrow> nat" where
  "idle_input_count t = length (filter idle (map snd (inputs t)))"

definition snapshot_state :: "'i tracker \<Rightarrow> 'i tracker_snapshot" where
  "snapshot_state t =
     (map (\<lambda>(i, s). (i, watermark s, idle s)) (inputs t), output_watermark t, output_idle t)"

definition restore_state :: "'i tracker_snapshot \<Rightarrow> 'i tracker" where
  "restore_state snap =
     (case snap of (ins, w, i) \<Rightarrow>
        \<lparr>inputs = fold (\<lambda>(i, wm, idl) d. AList.update i \<lparr>watermark = wm, idle = idl\<rparr> d) ins [],
         output_watermark = w, output_idle = i\<rparr>)"

definition resume_watermark :: "'i tracker \<Rightarrow> int option" where
  "resume_watermark t = (if output_watermark t < 0 then None else Some (output_watermark t))"

definition reactivate_output :: "bool \<Rightarrow> 'i tracker \<Rightarrow> stream_control list \<times> 'i tracker" where
  "reactivate_output should t =
     (if \<not> should then ([], t)
      else let t' = t\<lparr>output_idle := False\<rparr> in ([InputActive (resume_watermark t')], t'))"

definition active_inputs :: "'i tracker \<Rightarrow> input_state list" where
  "active_inputs t = filter (\<lambda>s. \<not> idle s) (map snd (inputs t))"

definition advance :: "'i tracker \<Rightarrow> stream_control list \<times> 'i tracker" where
  "advance t =
     (let active = active_inputs t
      in if active = [] \<or> (\<exists>s \<in> set active. watermark s = None) then ([], t)
         else let candidate = Min (set (List.map_filter watermark active))
              in if candidate \<le> output_watermark t then ([], t)
                 else ([Watermark candidate], t\<lparr>output_watermark := candidate\<rparr>))"

definition all_inputs_were_idle_except :: "'i \<Rightarrow> 'i tracker \<Rightarrow> bool" where
  "all_inputs_were_idle_except sender t \<longleftrightarrow>
     (\<forall>(i, s) \<in> set (inputs t). i = sender \<or> idle s)"

definition set_input :: "'i \<Rightarrow> input_state \<Rightarrow> 'i tracker \<Rightarrow> 'i tracker" where
  "set_input i s t = t\<lparr>inputs := AList.update i s (inputs t)\<rparr>"

definition on_watermark ::
  "'i \<Rightarrow> input_state \<Rightarrow> int \<Rightarrow> 'i tracker \<Rightarrow> stream_control list \<times> 'i tracker" where
  "on_watermark sender s ts t =
     (let was_idle = idle s;
          is_newer = (case watermark s of None \<Rightarrow> True | Some w \<Rightarrow> ts > w);
          s' = \<lparr>watermark = (if is_newer then Some ts else watermark s), idle = False\<rparr>;
          t1 = set_input sender s' t;
          (out1, t2) = reactivate_output
            (output_idle t1 \<or> (was_idle \<and> all_inputs_were_idle_except sender t1)) t1
      in if is_newer then let (out2, t3) = advance t2 in (out1 @ out2, t3) else (out1, t2))"

definition on_idle :: "'i \<Rightarrow> input_state \<Rightarrow> 'i tracker \<Rightarrow> stream_control list \<times> 'i tracker" where
  "on_idle sender s t =
     (if idle s then ([], t)
      else let t1 = set_input sender (s\<lparr>idle := True\<rparr>) t
           in if \<forall>x \<in> snd ` set (inputs t1). idle x
              then if output_idle t1 then ([], t1)
                   else ([InputIdle], t1\<lparr>output_idle := True\<rparr>)
              else advance t1)"

definition on_active ::
  "'i \<Rightarrow> input_state \<Rightarrow> int option \<Rightarrow> 'i tracker \<Rightarrow> stream_control list \<times> 'i tracker" where
  "on_active sender s resume t =
     (let wm = (case resume of
                  None \<Rightarrow> watermark s
                | Some r \<Rightarrow> Some (max (case watermark s of None \<Rightarrow> - 1 | Some w \<Rightarrow> w) r));
          t1 = set_input sender \<lparr>watermark = wm, idle = False\<rparr> t;
          (out1, t2) = reactivate_output (output_idle t1) t1;
          (out2, t3) = advance t2
      in (out1 @ out2, t3))"

text \<open>\<open>setdefault\<close> registers an unknown sender before the control is dispatched.\<close>

definition on_control ::
  "'i \<Rightarrow> stream_control \<Rightarrow> 'i tracker \<Rightarrow> stream_control list result \<times> 'i tracker" where
  "on_control sender control t =
     (let t0 = t\<lparr>inputs := dict_setdefault sender fresh_input (inputs t)\<rparr>;
          s = dict_get (inputs t0) sender fresh_input
      in case control of
           Watermark ts \<Rightarrow> map_prod Inr id (on_watermark sender s ts t0)
         | InputIdle \<Rightarrow> map_prod Inr id (on_idle sender s t0)
         | InputActive resume \<Rightarrow> map_prod Inr id (on_active sender s resume t0)
         | RescaleBarrier _ _ \<Rightarrow> (Inl TypeError, t0))"

definition reconfigure_inputs :: "'i list \<Rightarrow> 'i tracker \<Rightarrow> stream_control list \<times> 'i tracker" where
  "reconfigure_inputs ids t =
     (let t1 = t\<lparr>inputs := dict_of (\<lambda>i. dict_get (inputs t) i fresh_input) ids\<rparr>
      in if inputs t1 = [] then ([], t1)
         else if \<forall>x \<in> snd ` set (inputs t1). idle x
              then if output_idle t1 then ([], t1)
                   else ([InputIdle], t1\<lparr>output_idle := True\<rparr>)
         else let (out1, t2) = reactivate_output (output_idle t1) t1;
                  (out2, t3) = advance t2
              in (out1 @ out2, t3))"

subsection \<open>Specification\<close>

text \<open>
  The minimum watermark over the active inputs, if there is an active input and all of them have
  reported one; and the abstract output: the running maximum of that minimum.
\<close>

definition candidate :: "('i, input_state) dict \<Rightarrow> int option" where
  "candidate ins =
     (let active = filter (\<lambda>s. \<not> idle s) (map snd ins)
      in if active = [] \<or> (\<exists>s \<in> set active. watermark s = None) then None
         else Some (Min (set (List.map_filter watermark active))))"

definition raise_to :: "int option \<Rightarrow> int \<Rightarrow> int" where
  "raise_to c w = (case c of None \<Rightarrow> w | Some x \<Rightarrow> max x w)"

definition all_idle :: "('i, input_state) dict \<Rightarrow> bool" where
  "all_idle ins \<longleftrightarrow> (\<forall>x \<in> snd ` set ins. idle x)"

text \<open>
  The invariant: keys are unique and, unless the input set is empty, the output is idle exactly
  when all inputs are. The output has \<^emph>\<open>caught up\<close> when no further advance is possible.
\<close>

definition tracker_inv :: "'i tracker \<Rightarrow> bool" where
  "tracker_inv t \<longleftrightarrow>
     wf_dict (inputs t) \<and>
     (inputs t \<noteq> [] \<longrightarrow> (output_idle t \<longleftrightarrow> all_idle (inputs t)))"

definition caught_up :: "'i tracker \<Rightarrow> bool" where
  "caught_up t \<longleftrightarrow> raise_to (candidate (inputs t)) (output_watermark t) = output_watermark t"

text \<open>The effect of a control on the state of its own input.\<close>

definition input_after :: "stream_control \<Rightarrow> input_state \<Rightarrow> input_state" where
  "input_after c s =
     (case c of
        Watermark ts \<Rightarrow>
          \<lparr>watermark = Some (case watermark s of None \<Rightarrow> ts | Some w \<Rightarrow> max w ts), idle = False\<rparr>
      | InputIdle \<Rightarrow> s\<lparr>idle := True\<rparr>
      | InputActive None \<Rightarrow> s\<lparr>idle := False\<rparr>
      | InputActive (Some r) \<Rightarrow>
          \<lparr>watermark = Some (max (case watermark s of None \<Rightarrow> - 1 | Some w \<Rightarrow> w) r), idle = False\<rparr>
      | RescaleBarrier _ _ \<Rightarrow> s)"

text \<open>The controls that tell a downstream reader of the change from one abstract output to the next.\<close>

definition emitted :: "bool \<Rightarrow> int \<Rightarrow> bool \<Rightarrow> int \<Rightarrow> stream_control list" where
  "emitted old_idle old_wm new_idle new_wm =
     (if old_idle \<and> \<not> new_idle then [InputActive (if old_wm < 0 then None else Some old_wm)] else []) @
     (if old_wm < new_wm then [Watermark new_wm] else []) @
     (if \<not> old_idle \<and> new_idle then [InputIdle] else [])"

text \<open>A watermark that is not newer than what its idle input already reported.\<close>

definition stale_wakeup :: "'i \<Rightarrow> stream_control \<Rightarrow> 'i tracker \<Rightarrow> bool" where
  "stale_wakeup i c t \<longleftrightarrow>
     (case (c, map_of (inputs t) i) of
        (Watermark ts, Some s) \<Rightarrow> idle s \<and> (case watermark s of None \<Rightarrow> False | Some w \<Rightarrow> ts \<le> w)
      | _ \<Rightarrow> False)"

definition is_event_time :: "stream_control \<Rightarrow> bool" where
  "is_event_time c \<longleftrightarrow> (case c of RescaleBarrier _ _ \<Rightarrow> False | _ \<Rightarrow> True)"

subsection \<open>Lemmas\<close>

lemma advance_spec:
  "advance t =
     (let w = raise_to (candidate (inputs t)) (output_watermark t)
      in (if output_watermark t < w then [Watermark w] else [], t\<lparr>output_watermark := w\<rparr>))"
  by (auto simp: advance_def candidate_def raise_to_def active_inputs_def Let_def max_def)

lemma raise_to_idem [simp]: "raise_to c (raise_to c w) = raise_to c w"
  by (cases c) (auto simp: raise_to_def)

lemma raise_to_ge [simp]: "w \<le> raise_to c w"
  by (cases c) (auto simp: raise_to_def)

lemma raise_to_None [simp]: "raise_to None w = w"
  by (simp add: raise_to_def)

lemma candidate_all_idle [simp]: "all_idle ins \<Longrightarrow> candidate ins = None"
  by (auto simp: candidate_def all_idle_def filter_empty_conv)

lemma wf_dict_of [simp]: "wf_dict (dict_of f ids)"
proof -
  have "wf_dict (fold (\<lambda>i d. AList.update i (f i) d) ids d)" if "wf_dict d" for d :: "('a, input_state) dict"
    using that by (induction ids arbitrary: d) auto
  then show ?thesis by (simp add: dict_of_def)
qed

lemma map_of_dict_of: "map_of (dict_of f ids) i = (if i \<in> set ids then Some (f i) else None)"
proof -
  have "map_of (fold (\<lambda>i d. AList.update i (f i) d) ids d) i = (if i \<in> set ids then Some (f i) else map_of d i)"
    for d :: "('a, input_state) dict"
    by (induction ids arbitrary: d) auto
  then show ?thesis by (simp add: dict_of_def)
qed

lemma all_idle_map_of: "wf_dict ins \<Longrightarrow> all_idle ins \<longleftrightarrow> (\<forall>i s. map_of ins i = Some s \<longrightarrow> idle s)"
  unfolding all_idle_def
  by (metis (no_types, lifting) image_set values_iff_map_of)

lemma update_setdefault [simp]:
  "AList.update k v (dict_setdefault k v0 d) = AList.update k v d"
  by (auto simp: dict_setdefault_def split: option.splits)

lemma all_inputs_were_idle_except_iff:
  assumes "wf_dict (inputs t)"
  shows "all_inputs_were_idle_except i t \<longleftrightarrow>
    (\<forall>j s. map_of (inputs t) j = Some s \<longrightarrow> j = i \<or> idle s)"
proof -
  have "all_inputs_were_idle_except i t \<longleftrightarrow> (\<forall>j s. (j, s) \<in> set (inputs t) \<longrightarrow> j = i \<or> idle s)"
    by (auto simp: all_inputs_were_idle_except_def)
  then show ?thesis by (simp only: wf_dict_mem_iff [OF assms])
qed

lemma all_idle_update:
  assumes "wf_dict ins"
  shows "all_idle (AList.update i s ins) \<longleftrightarrow>
    idle s \<and> (\<forall>j x. j \<noteq> i \<longrightarrow> map_of ins j = Some x \<longrightarrow> idle x)"
  using assms by (auto simp: all_idle_map_of)

lemma reactivate_output_eq:
  "reactivate_output b t = (if b then [InputActive (resume_watermark t)] else [],
     if b then t\<lparr>output_idle := False\<rparr> else t)"
  by (simp add: reactivate_output_def resume_watermark_def Let_def)

lemma set_input_fields [simp]:
  "inputs (set_input i s t) = AList.update i s (inputs t)"
  "output_idle (set_input i s t) = output_idle t"
  "output_watermark (set_input i s t) = output_watermark t"
  by (simp_all add: set_input_def)

lemma set_input_setdefault [simp]:
  "set_input i s (t\<lparr>inputs := dict_setdefault i s0 (inputs t)\<rparr>) = set_input i s t"
  by (simp add: set_input_def)

text \<open>The three handlers, reduced to the abstract step (\<open>s\<close> is the input's state, known or fresh).\<close>

lemma on_watermark_eq:
  fixes t :: "'i tracker" and ts :: int
  assumes "tracker_inv t" and s: "s = dict_get (inputs t) i fresh_input"
  defines "t1 \<equiv> set_input i (input_after (Watermark ts) s) t"
  defines "newer \<equiv> (case watermark s of None \<Rightarrow> True | Some w \<Rightarrow> ts > w)"
  defines "w \<equiv> (if newer then raise_to (candidate (inputs t1)) (output_watermark t) else output_watermark t)"
  shows "on_watermark i s ts t =
    (emitted (output_idle t) (output_watermark t) False w,
     t1\<lparr>output_idle := False, output_watermark := w\<rparr>)"
proof -
  have s1: "\<lparr>watermark = (if newer then Some ts else watermark s), idle = False\<rparr> = input_after (Watermark ts) s"
    by (auto simp: newer_def input_after_def split: option.splits)
  have clause: "idle s \<and> all_inputs_were_idle_except i t1 \<Longrightarrow> output_idle t"
  proof -
    assume a: "idle s \<and> all_inputs_were_idle_except i t1"
    then obtain x where x: "map_of (inputs t) i = Some x" "idle x"
      using s by (auto simp: dict_get_def fresh_input_def split: option.splits)
    have "wf_dict (inputs t1)" using assms(1) by (simp add: t1_def tracker_inv_def)
    with a have "\<forall>j y. map_of (inputs t1) j = Some y \<longrightarrow> j = i \<or> idle y"
      by (simp add: all_inputs_were_idle_except_iff)
    then have "idle y" if "map_of (inputs t) j = Some y" for j y
      using that x by (cases "j = i") (force simp: t1_def)+
    then have "all_idle (inputs t)"
      using assms(1) by (simp add: all_idle_map_of tracker_inv_def)
    moreover have "inputs t \<noteq> []" using x by auto
    ultimately show "output_idle t" using assms(1) by (simp add: tracker_inv_def)
  qed
  then have r: "(output_idle t \<or> idle s \<and> all_inputs_were_idle_except i t1) = output_idle t" by blast
  show ?thesis
    unfolding on_watermark_def Let_def newer_def [symmetric] s1 t1_def [symmetric]
    using r by (auto simp: reactivate_output_eq advance_spec Let_def w_def emitted_def
        resume_watermark_def t1_def set_input_def)
qed

lemma on_idle_active:
  assumes "tracker_inv t" "s = dict_get (inputs t) i fresh_input" "\<not> idle s" "output_idle t"
  shows "all_idle (AList.update i (input_after InputIdle s) (inputs t))"
proof -
  have wf: "wf_dict (inputs t)" using assms(1) by (simp add: tracker_inv_def)
  have "\<forall>j x. map_of (inputs t) j = Some x \<longrightarrow> idle x"
  proof (cases "inputs t = []")
    case False
    then have "all_idle (inputs t)" using assms(1,4) by (simp add: tracker_inv_def)
    then show ?thesis by (simp only: all_idle_map_of [OF wf])
  qed simp
  then show ?thesis by (simp add: all_idle_update [OF wf] input_after_def)
qed

lemma on_idle_eq:
  assumes "tracker_inv t" and s: "s = dict_get (inputs t) i fresh_input" "\<not> idle s"
  defines "t1 \<equiv> set_input i (input_after InputIdle s) t"
  defines "w \<equiv> raise_to (candidate (inputs t1)) (output_watermark t)"
  shows "on_idle i s t =
    (emitted (output_idle t) (output_watermark t) (output_idle t \<or> all_idle (inputs t1)) w,
     t1\<lparr>output_idle := output_idle t \<or> all_idle (inputs t1), output_watermark := w\<rparr>)"
proof -
  have t1: "set_input i (s\<lparr>idle := True\<rparr>) t = t1" by (simp add: t1_def input_after_def)
  have active: "all_idle (inputs t1)" if "output_idle t"
    using on_idle_active [OF assms(1) s that] by (simp add: t1_def)
  show ?thesis
  proof (cases "all_idle (inputs t1)")
    case True
    then have "w = output_watermark t" by (simp add: w_def)
    with True s(2) show ?thesis
      unfolding on_idle_def Let_def t1 all_idle_def [symmetric]
      by (auto simp: emitted_def t1_def set_input_def)
  next
    case False
    with active s(2) show ?thesis
      unfolding on_idle_def Let_def t1 all_idle_def [symmetric]
      by (auto simp: advance_spec Let_def w_def emitted_def t1_def set_input_def)
  qed
qed

lemma on_active_eq:
  fixes t :: "'i tracker" and r :: "int option" and i :: 'i and s :: input_state
  defines "t1 \<equiv> set_input i (input_after (InputActive r) s) t"
  defines "w \<equiv> raise_to (candidate (inputs t1)) (output_watermark t)"
  shows "on_active i s r t =
    (emitted (output_idle t) (output_watermark t) False w,
     t1\<lparr>output_idle := False, output_watermark := w\<rparr>)"
proof -
  have "set_input i \<lparr>watermark = (case r of None \<Rightarrow> watermark s
      | Some r \<Rightarrow> Some (max (case watermark s of None \<Rightarrow> - 1 | Some w \<Rightarrow> w) r)), idle = False\<rparr> t = t1"
    by (cases s) (auto simp: t1_def input_after_def split: option.splits)
  then show ?thesis
    unfolding on_active_def Let_def
    by (auto simp: reactivate_output_eq advance_spec Let_def w_def emitted_def resume_watermark_def
        t1_def set_input_def)
qed

text \<open>Whether the handler looks for progress after storing the input's new state.\<close>

definition looks_for_progress :: "stream_control \<Rightarrow> input_state \<Rightarrow> bool" where
  "looks_for_progress c s \<longleftrightarrow>
     (case c of
        Watermark ts \<Rightarrow> (case watermark s of None \<Rightarrow> True | Some w \<Rightarrow> ts > w)
      | InputIdle \<Rightarrow> \<not> idle s
      | _ \<Rightarrow> True)"

definition inputs_after :: "'i \<Rightarrow> stream_control \<Rightarrow> 'i tracker \<Rightarrow> ('i, input_state) dict" where
  "inputs_after i c t =
     AList.update i (input_after c (dict_get (inputs t) i fresh_input)) (inputs t)"

lemma all_idle_inputs_after:
  assumes "tracker_inv t" "c \<noteq> InputIdle" "is_event_time c"
  shows "\<not> all_idle (inputs_after i c t)"
  using assms
  by (auto simp: inputs_after_def tracker_inv_def all_idle_update input_after_def is_event_time_def
      split: stream_control.splits option.splits)

lemma update_same_value: "map_of d k = Some v \<Longrightarrow> AList.update k v d = d"
  by (induction d) auto

lemma unchanged_input:
  assumes "\<not> looks_for_progress c (dict_get (inputs t) i fresh_input)" "\<not> stale_wakeup i c t"
  shows "inputs_after i c t = inputs t"
proof (cases "map_of (inputs t) i")
  case None
  with assms(1) show ?thesis
    by (simp add: looks_for_progress_def dict_get_def fresh_input_def split: stream_control.splits)
next
  case (Some x)
  with assms have "input_after c x = x"
    by (cases x) (auto simp: looks_for_progress_def stale_wakeup_def input_after_def dict_get_def
        split: stream_control.splits option.splits)
  with Some show ?thesis by (simp add: inputs_after_def dict_get_def update_same_value)
qed

lemma on_idle_already:
  assumes "tracker_inv t" "idle (dict_get (inputs t) i fresh_input)"
  shows "dict_setdefault i fresh_input (inputs t) = inputs t"
    and "inputs_after i InputIdle t = inputs t"
    and "output_idle t \<longleftrightarrow> all_idle (inputs t)"
proof -
  obtain x where x: "map_of (inputs t) i = Some x"
    using assms(2) by (auto simp: dict_get_def fresh_input_def split: option.splits)
  then show "dict_setdefault i fresh_input (inputs t) = inputs t" by (simp add: dict_setdefault_def)
  have "inputs t \<noteq> []" using x by auto
  then show "output_idle t \<longleftrightarrow> all_idle (inputs t)" using assms(1) by (simp add: tracker_inv_def)
  show "inputs_after i InputIdle t = inputs t"
    by (rule unchanged_input) (use assms in \<open>auto simp: looks_for_progress_def stale_wakeup_def\<close>)
qed

lemma dict_get_setdefault [simp]: "dict_get (dict_setdefault i v d) i v = dict_get d i v"
  by (auto simp: dict_get_def split: option.splits)

lemma tracker_record_eq:
  "t\<lparr>inputs := a, output_idle := b, output_watermark := c\<rparr> =
   \<lparr>inputs = a, output_watermark = c, output_idle = b\<rparr>"
  by (cases t) simp

text \<open>Every event-time control is one abstract step.\<close>

lemma on_watermark_inputs:
  "on_watermark i s ts (t\<lparr>inputs := dict_setdefault i s0 (inputs t)\<rparr>) = on_watermark i s ts t"
  "on_active i s r (t\<lparr>inputs := dict_setdefault i s0 (inputs t)\<rparr>) = on_active i s r t"
  "\<not> idle s \<Longrightarrow> on_idle i s (t\<lparr>inputs := dict_setdefault i s0 (inputs t)\<rparr>) = on_idle i s t"
  by (simp_all add: on_watermark_def on_active_def on_idle_def)

lemma on_control_eq:
  fixes t :: "'i tracker" and i :: 'i
  assumes inv: "tracker_inv t" and ev: "is_event_time c"
  defines "ins \<equiv> inputs_after i c t"
  defines "w \<equiv> (if looks_for_progress c (dict_get (inputs t) i fresh_input)
     then raise_to (candidate ins) (output_watermark t) else output_watermark t)"
  shows "on_control i c t =
    (Inr (emitted (output_idle t) (output_watermark t) (all_idle ins) w),
     \<lparr>inputs = ins, output_watermark = w, output_idle = all_idle ins\<rparr>)"
proof (cases c)
  case (Watermark ts)
  then have "\<not> all_idle ins" using all_idle_inputs_after [OF inv] ev by (simp add: ins_def)
  then show ?thesis
    using on_watermark_eq [OF inv refl, of i ts] Watermark
    by (simp add: on_control_def Let_def on_watermark_inputs w_def looks_for_progress_def
        ins_def inputs_after_def set_input_def tracker_record_eq)
next
  case (InputActive r)
  then have "\<not> all_idle ins" using all_idle_inputs_after [OF inv] ev by (simp add: ins_def)
  then show ?thesis
    using on_active_eq [of i "dict_get (inputs t) i fresh_input" r t] InputActive
    by (simp add: on_control_def Let_def on_watermark_inputs w_def looks_for_progress_def
        ins_def inputs_after_def set_input_def tracker_record_eq)
next
  case InputIdle
  show ?thesis
  proof (cases "idle (dict_get (inputs t) i fresh_input)")
    case True
    note already = on_idle_already [OF inv True]
    show ?thesis using True InputIdle already
      by (cases t) (simp add: on_control_def on_idle_def looks_for_progress_def ins_def w_def emitted_def)
  next
    case False
    have a: "output_idle t \<or> all_idle ins \<longleftrightarrow> all_idle ins"
      using on_idle_active [OF inv refl False] InputIdle by (auto simp: ins_def inputs_after_def)
    show ?thesis
      using on_idle_eq [OF inv refl False] InputIdle False a
      by (simp add: on_control_def Let_def on_watermark_inputs w_def looks_for_progress_def
        ins_def inputs_after_def set_input_def tracker_record_eq)
  qed
next
  case (RescaleBarrier x y)
  with ev show ?thesis by (simp add: is_event_time_def)
qed

lemma on_control_inv:
  assumes "tracker_inv t" "is_event_time c"
  shows "tracker_inv (snd (on_control i c t))"
  using assms by (simp add: on_control_eq tracker_inv_def inputs_after_def)

lemma reconfigure_inputs_eq:
  fixes t :: "'i tracker" and ids :: "'i list"
  defines "ins \<equiv> dict_of (\<lambda>i. dict_get (inputs t) i fresh_input) ids"
  defines "w \<equiv> raise_to (candidate ins) (output_watermark t)"
  defines "idl \<equiv> (if ins = [] then output_idle t else all_idle ins)"
  shows "reconfigure_inputs ids t =
    (emitted (output_idle t) (output_watermark t) idl w,
     \<lparr>inputs = ins, output_watermark = w, output_idle = idl\<rparr>)"
proof -
  let ?t1 = "t\<lparr>inputs := ins\<rparr>"
  consider "ins = []" | "ins \<noteq> []" "all_idle ins" | "ins \<noteq> []" "\<not> all_idle ins" by blast
  then show ?thesis
  proof cases
    case 1
    then show ?thesis
      unfolding reconfigure_inputs_def Let_def ins_def [symmetric]
      by (cases t) (simp add: w_def idl_def emitted_def candidate_def)
  next
    case 2
    then show ?thesis
      unfolding reconfigure_inputs_def Let_def ins_def [symmetric] all_idle_def [symmetric]
      by (cases t) (auto simp: w_def idl_def emitted_def all_idle_def [symmetric])
  next
    case 3
    then show ?thesis
      unfolding reconfigure_inputs_def Let_def ins_def [symmetric] all_idle_def [symmetric]
      by (cases t) (auto simp: all_idle_def [symmetric] w_def idl_def emitted_def reactivate_output_eq
          advance_spec Let_def resume_watermark_def)
  qed
qed

lemma candidate_le_active:
  assumes "candidate ins = Some x" "wf_dict ins" "map_of ins i = Some s" "\<not> idle s"
  shows "\<exists>w. watermark s = Some w \<and> x \<le> w"
proof -
  let ?active = "filter (\<lambda>s. \<not> idle s) (map snd ins)"
  have mem: "s \<in> set ?active" using assms(3,4) by (force dest: map_of_SomeD)
  from assms(1) have x: "\<forall>s \<in> set ?active. watermark s \<noteq> None"
    "x = Min (set (List.map_filter watermark ?active))"
    by (auto simp: candidate_def Let_def split: if_splits)
  from x(1) mem obtain w where w: "watermark s = Some w" by blast
  then have "w \<in> set (List.map_filter watermark ?active)"
    using mem by (force simp: map_filter_def)
  with x(2) w show ?thesis by simp
qed

text \<open>A downstream reader of the output: the state it reconstructs, or \<open>None\<close> on a protocol error.\<close>

fun follow :: "bool \<times> int \<Rightarrow> stream_control list \<Rightarrow> (bool \<times> int) option" where
  "follow st [] = Some st"
| "follow (idl, w) (Watermark x # cs) = (if \<not> idl \<and> w < x then follow (False, x) cs else None)"
| "follow (idl, w) (InputIdle # cs) = (if \<not> idl then follow (True, w) cs else None)"
| "follow (idl, w) (InputActive r # cs) =
     (if idl \<and> r = (if w < 0 then None else Some w) then follow (False, w) cs else None)"
| "follow st (RescaleBarrier x y # cs) = None"

lemma follow_append: "follow st (xs @ ys) = Option.bind (follow st xs) (\<lambda>st'. follow st' ys)"
  by (induction st xs rule: follow.induct) auto

lemma follow_emitted:
  "w \<le> w' \<Longrightarrow> (idl' \<longrightarrow> w' = w) \<Longrightarrow>
   follow (idl, w) (emitted idl w idl' w') = Some (idl', w')"
  by (cases "idl"; cases "idl'"; cases "w < w'") (simp_all add: emitted_def)

text \<open>Runs of the tracker: event-time controls of any sender and topology changes.\<close>

inductive tracker_run :: "'i list \<Rightarrow> stream_control list \<Rightarrow> 'i tracker \<Rightarrow> bool" for ids where
  start: "tracker_run ids [] (make_tracker ids)"
| control: "tracker_run ids out t \<Longrightarrow> is_event_time c \<Longrightarrow> on_control i c t = (Inr out', t') \<Longrightarrow>
    tracker_run ids (out @ out') t'"
| reconfigure: "tracker_run ids out t \<Longrightarrow> reconfigure_inputs ids' t = (out', t') \<Longrightarrow>
    tracker_run ids (out @ out') t'"

lemma tracker_run_controlI:
  "tracker_run ids out t \<Longrightarrow> is_event_time c \<Longrightarrow> on_control i c t = (Inr out', t') \<Longrightarrow>
   out'' = out @ out' \<Longrightarrow> tracker_run ids out'' t'"
  by (simp add: tracker_run.control)

lemma all_idle_make: "ids \<noteq> [] \<Longrightarrow> \<not> all_idle (dict_of (\<lambda>_. fresh_input) ids)"
proof -
  assume "ids \<noteq> []"
  then have "map_of (dict_of (\<lambda>_. fresh_input) ids) (hd ids) = Some fresh_input"
    by (simp add: map_of_dict_of)
  then have "fresh_input \<in> snd ` set (dict_of (\<lambda>_. fresh_input) ids)" by (rule in_values_map_of)
  then show ?thesis by (metis all_idle_def fresh_input_def input_state.select_convs(2))
qed

lemma dict_of_Nil [simp]: "dict_of f [] = []"
  by (simp add: dict_of_def)

lemma make_tracker_inv [inv_intros]: "tracker_inv (make_tracker ids)"
  using all_idle_make [of ids]
  by (cases "ids = []") (simp_all add: tracker_inv_def make_tracker_def)

lemma tracker_run_inv: "tracker_run ids out t \<Longrightarrow> tracker_inv t"
proof (induction rule: tracker_run.induct)
  case (control out t c i out' t')
  then show ?case using on_control_inv [of t c i] by simp
next
  case (reconfigure out t ids' out' t')
  then show ?case by (auto simp: reconfigure_inputs_eq tracker_inv_def)
qed (rule make_tracker_inv)

lemma candidate_Nil [simp]: "candidate [] = None"
  by (simp add: candidate_def)

lemma follow_control:
  assumes "tracker_inv t" "is_event_time c" "on_control i c t = (Inr out, t')"
  shows "follow (output_idle t, output_watermark t) out = Some (output_idle t', output_watermark t')"
  using assms by (auto simp: on_control_eq intro!: follow_emitted split: if_splits)

lemma follow_reconfigure:
  assumes "tracker_inv t" "reconfigure_inputs ids t = (out, t')"
  shows "follow (output_idle t, output_watermark t) out = Some (output_idle t', output_watermark t')"
  using assms by (auto simp: reconfigure_inputs_eq intro!: follow_emitted split: if_splits)

text \<open>
  C5. The tracker implements the running minimum: in a state that satisfies the invariant and has
  caught up, every event-time control except a stale watermark that wakes its idle input stores the
  input's new state, raises the output to the minimum over the active inputs (never lowering it),
  sets the idle flag exactly when all inputs are idle, emits exactly the controls that describe
  this change, and again satisfies the invariant and has caught up.
\<close>

theorem on_control_refines_minimum:
  assumes "tracker_inv t" "caught_up t" "is_event_time c" "\<not> stale_wakeup i c t"
  shows "let (r, t') = on_control i c t;
             w' = raise_to (candidate (inputs t')) (output_watermark t)
         in inputs t' = AList.update i (input_after c (dict_get (inputs t) i fresh_input)) (inputs t) \<and>
            output_watermark t' = w' \<and>
            output_idle t' = all_idle (inputs t') \<and>
            r = Inr (emitted (output_idle t) (output_watermark t) (output_idle t') w') \<and>
            tracker_inv t' \<and> caught_up t'"
proof -
  have "\<not> looks_for_progress c (dict_get (inputs t) i fresh_input) \<Longrightarrow>
      raise_to (candidate (inputs_after i c t)) (output_watermark t) = output_watermark t"
    using unchanged_input [OF _ assms(4)] assms(2) by (simp add: caught_up_def)
  then show ?thesis
    using on_control_inv [OF assms(1,3), of i]
    by (simp add: on_control_eq [OF assms(1,3)] caught_up_def inputs_after_def)
qed

definition demo_tracker :: "nat tracker" where
  "demo_tracker =
     \<lparr>inputs = [(0, \<lparr>watermark = Some 5, idle = False\<rparr>), (1, \<lparr>watermark = Some 3, idle = False\<rparr>)],
      output_watermark = 3, output_idle = False\<rparr>"

theorem on_control_refines_minimum_witness:
  "tracker_inv demo_tracker \<and> caught_up demo_tracker \<and>
   (let (r, t') = on_control 1 (Watermark 9) demo_tracker
    in output_watermark t' = 5 \<and> r = Inr [Watermark 5])"
proof -
  have h: "tracker_inv demo_tracker" "caught_up demo_tracker" "is_event_time (Watermark 9)"
    "\<not> stale_wakeup 1 (Watermark 9) demo_tracker"
    by (code_simp)+
  from on_control_refines_minimum [OF h] have
    "output_watermark (snd (on_control 1 (Watermark 9) demo_tracker)) =
     raise_to (candidate (inputs (snd (on_control 1 (Watermark 9) demo_tracker)))) 3"
    by (simp add: demo_tracker_def split_beta Let_def)
  moreover have "raise_to (candidate (inputs (snd (on_control 1 (Watermark 9) demo_tracker)))) 3 = 5"
    by code_simp
  moreover have "fst (on_control 1 (Watermark 9) demo_tracker) = Inr [Watermark 5]" by code_simp
  ultimately show ?thesis using h by (simp add: split_beta)
qed

text \<open>
  Whatever event-time controls arrive and however the inputs are reconfigured, the controls
  the tracker has emitted form a well-formed stream: a downstream reader that starts active at -1
  sees strictly increasing watermarks, alternating idle and active markers that carry the right
  resume watermark, and reconstructs exactly the tracker's output state.
\<close>

theorem tracker_output_well_formed:
  assumes "tracker_run ids out t"
  shows "follow (False, - 1) out = Some (output_idle t, output_watermark t)"
  using assms
proof (induction rule: tracker_run.induct)
  case start
  then show ?case by (simp add: make_tracker_def)
next
  case (control out t c i out' t')
  then show ?case
    using follow_control [OF tracker_run_inv] by (auto simp: follow_append)
next
  case (reconfigure out t ids' out' t')
  then show ?case
    using follow_reconfigure [OF tracker_run_inv] by (auto simp: follow_append)
qed

theorem tracker_output_well_formed_witness:
  "\<exists>t. tracker_run [1::nat] [Watermark 4, InputIdle] t \<and>
       follow (False, - 1) [Watermark 4, InputIdle] = Some (output_idle t, output_watermark t)"
proof -
  let ?t1 = "snd (on_control 1 (Watermark 4) (make_tracker [1::nat]))"
  let ?t2 = "snd (on_control 1 InputIdle ?t1)"
  have "on_control 1 (Watermark 4) (make_tracker [1::nat]) = (Inr [Watermark 4], ?t1)" by code_simp
  then have 1: "tracker_run [1::nat] [Watermark 4] ?t1"
    by (rule tracker_run_controlI [OF tracker_run.start, rotated]) (simp_all add: is_event_time_def)
  have "on_control 1 InputIdle ?t1 = (Inr [InputIdle], ?t2)" by code_simp
  then have "tracker_run [1::nat] [Watermark 4, InputIdle] ?t2"
    by (rule tracker_run_controlI [OF 1, rotated]) (simp_all add: is_event_time_def)
  then show ?thesis using tracker_output_well_formed by blast
qed

text \<open>
  No event-time result is emitted early: every watermark the tracker emits, on a control or on
  a topology change, is at most the watermark of every input that is active afterwards, and exceeds
  every watermark emitted before.
\<close>

theorem emitted_watermark_safe:
  assumes "tracker_run ids out t"
    and "(is_event_time c \<and> on_control i c t = (Inr new, t')) \<or> reconfigure_inputs ids' t = (new, t')"
    and "Watermark x \<in> set new" "map_of (inputs t') j = Some s" "\<not> idle s"
  shows "(\<exists>w. watermark s = Some w \<and> x \<le> w) \<and> output_watermark t < x \<and> output_watermark t' = x"
proof -
  have inv: "tracker_inv t" by (rule tracker_run_inv [OF assms(1)])
  have e: "x = output_watermark t' \<and> output_watermark t < x \<and> wf_dict (inputs t') \<and>
      x = raise_to (candidate (inputs t')) (output_watermark t)"
    using assms(2)
  proof
    assume a: "is_event_time c \<and> on_control i c t = (Inr new, t')"
    then show ?thesis
      using inv assms(3) on_control_inv [OF inv, of c i]
      by (auto simp: on_control_eq emitted_def tracker_inv_def split: if_splits)
  next
    assume "reconfigure_inputs ids' t = (new, t')"
    then show ?thesis
      using assms(3) by (auto simp: reconfigure_inputs_eq emitted_def split: if_splits)
  qed
  then have "candidate (inputs t') = Some x"
    by (cases "candidate (inputs t')") (auto simp: raise_to_def max_def split: if_splits)
  with e assms(4,5) have "\<exists>w. watermark s = Some w \<and> x \<le> w" by (metis candidate_le_active)
  with e show ?thesis by simp
qed

theorem emitted_watermark_safe_witness:
  "\<exists>t t' s w. tracker_run [1::nat, 2] [] t \<and> on_control 2 (Watermark 4) t = (Inr [], t') \<and>
     tracker_run [1, 2] [] t' \<and> map_of (inputs (snd (on_control 1 (Watermark 7) t'))) 1 = Some s \<and>
     watermark s = Some w \<and> 4 \<le> w"
proof -
  let ?t0 = "make_tracker [1::nat, 2]"
  let ?t1 = "snd (on_control 2 (Watermark 4) ?t0)"
  let ?t2 = "snd (on_control 1 (Watermark 7) ?t1)"
  have 0: "tracker_run [1::nat, 2] [] ?t0" by (rule tracker_run.start)
  have c1: "on_control 2 (Watermark 4) ?t0 = (Inr [], ?t1)" by code_simp
  then have 1: "tracker_run [1::nat, 2] [] ?t1"
    by (rule tracker_run_controlI [OF 0, rotated]) (simp_all add: is_event_time_def)
  have c2: "on_control 1 (Watermark 7) ?t1 = (Inr [Watermark 4], ?t2)" by code_simp
  have m: "map_of (inputs ?t2) 1 = Some \<lparr>watermark = Some 7, idle = False\<rparr>" by code_simp
  have "\<exists>w. watermark \<lparr>watermark = Some (7::int), idle = False\<rparr> = Some w \<and> 4 \<le> w"
    using emitted_watermark_safe [OF 1 disjI1 [OF conjI [OF _ c2]] _ m] by (simp add: is_event_time_def)
  then show ?thesis using 0 c1 1 m by blast
qed

text \<open>
  A savepoint of the tracker, taken before a topology transaction, restores the tracker
  exactly, so a rolled-back transaction leaves no trace in the event-time state.
\<close>

theorem restore_snapshot_state:
  assumes "tracker_run ids out t"
  shows "restore_state (snapshot_state t) = t"
proof -
  have "wf_dict (inputs t)" using tracker_run_inv [OF assms] by (simp add: tracker_inv_def)
  moreover have "wf_dict (d0 @ d) \<Longrightarrow>
      fold (\<lambda>(i, wm, idl) d. AList.update i \<lparr>watermark = wm, idle = idl\<rparr> d)
        (map (\<lambda>(i, s). (i, watermark s, idle s)) d) d0 = d0 @ d" for d0 d :: "('a, input_state) dict"
  proof (induction d arbitrary: d0)
    case (Cons p d)
    obtain i s where p: "p = (i, s)" by (cases p)
    have "AList.update i \<lparr>watermark = watermark s, idle = idle s\<rparr> d0 = d0 @ [p]"
      using Cons.prems p by (cases s) (simp add: update_append_new)
    with Cons.IH [of "d0 @ [p]"] Cons.prems p show ?case by simp
  qed simp
  ultimately show ?thesis
    by (cases t) (force simp: restore_state_def snapshot_state_def)
qed

theorem restore_snapshot_state_witness:
  "tracker_run [1::nat, 2] [] (make_tracker [1, 2]) \<and>
   restore_state (snapshot_state (make_tracker [1::nat, 2])) = make_tracker [1, 2]"
  using restore_snapshot_state [OF tracker_run.start] tracker_run.start by blast

end
