(* ===== verification/WeightedInbox.thy ===== *)
theory WeightedInbox
  imports Prelude "HOL-Library.Multiset"
begin

section \<open>The weighted inbox of a task (runtime/worker/weighted_queue.py, runtime/worker/pump.py)\<close>

text \<open>
  \<open>WeightedQueue\<close> is a FIFO bounded by item weight and, optionally, by bytes, where the bytes the
  consumer still holds count as well. The two callbacks of the consumer act on the consumer's own
  state \<open>'e\<close>, which the operations thread through; \<open>InboxPump\<close> supplies them (second part).
  A coroutine that waits on the condition returns \<open>None\<close> in the model: it has not run yet and has
  changed nothing. Shown: exact accounting, the capacity bound with its single exclusive item,
  conservation and order of items, and that a dequeue moves bytes without an admission gap.
\<close>

subsection \<open>WeightedQueue\<close>

record ('a, 'e) wqueue =
  max_weight :: int
  weigh :: "'a \<Rightarrow> int"
  max_bytes :: "int option"
  size_of :: "('a \<Rightarrow> int) option"
  items :: "('a \<times> int \<times> int) list"
  queue_weight :: int
  queue_bytes :: int
  external_bytes :: "('e \<Rightarrow> pyobj) option"
  on_take :: "('a \<Rightarrow> int \<Rightarrow> 'e \<Rightarrow> 'e result) option"

definition make_weighted_queue ::
  "int \<Rightarrow> ('a \<Rightarrow> int) \<Rightarrow> int option \<Rightarrow> ('a \<Rightarrow> int) option \<Rightarrow> ('a, 'e) wqueue result" where
  "make_weighted_queue mw wt mb sz =
     rbind (require (0 < mw) ValueError) (\<lambda>_.
     rbind (require (case mb of None \<Rightarrow> True | Some m \<Rightarrow> 0 < m) ValueError) (\<lambda>_.
     rbind (require ((mb = None) = (sz = None)) ValueError) (\<lambda>_.
       Inr \<lparr>max_weight = mw, weigh = wt, max_bytes = mb, size_of = sz, items = [],
            queue_weight = 0, queue_bytes = 0, external_bytes = None, on_take = None\<rparr>)))"

definition bind_external_byte_reservation ::
  "('e \<Rightarrow> pyobj) \<Rightarrow> ('a \<Rightarrow> int \<Rightarrow> 'e \<Rightarrow> 'e result) \<Rightarrow> ('a, 'e) wqueue \<Rightarrow> ('a, 'e) wqueue result" where
  "bind_external_byte_reservation ext tk q =
     (if max_bytes q = None then Inr q
      else if external_bytes q \<noteq> None \<or> on_take q \<noteq> None then Inl RuntimeError
      else Inr (q\<lparr>external_bytes := Some ext, on_take := Some tk\<rparr>))"

definition measure_item :: "('a, 'e) wqueue \<Rightarrow> 'a \<Rightarrow> (int \<times> int) result" where
  "measure_item q x =
     (let w = weigh q x;
          b = (case size_of q of None \<Rightarrow> 0 | Some f \<Rightarrow> f x)
      in if w \<le> 0 then Inl ValueError else if b < 0 then Inl ValueError else Inr (w, b))"

definition external_byte_size :: "('a, 'e) wqueue \<Rightarrow> 'e \<Rightarrow> int result" where
  "external_byte_size q e =
     (case external_bytes q of
        None \<Rightarrow> Inr 0
      | Some f \<Rightarrow> (case f e of
                    PInt n \<Rightarrow> if n < 0 then Inl RuntimeError else Inr n
                  | _ \<Rightarrow> Inl RuntimeError))"

definition can_admit :: "('a, 'e) wqueue \<Rightarrow> 'e \<Rightarrow> int \<Rightarrow> int \<Rightarrow> bool result" where
  "can_admit q e w b =
     rbind (external_byte_size q e) (\<lambda>ext.
       Inr (if items q = [] \<and> ext = 0 then True
            else if queue_weight q + w > max_weight q then False
            else (case max_bytes q of None \<Rightarrow> True | Some m \<Rightarrow> queue_bytes q + ext + b \<le> m)))"

definition admit :: "'a \<Rightarrow> int \<Rightarrow> int \<Rightarrow> ('a, 'e) wqueue \<Rightarrow> ('a, 'e) wqueue" where
  "admit x w b q = q\<lparr>items := items q @ [(x, w, b)], queue_weight := queue_weight q + w,
     queue_bytes := queue_bytes q + b\<rparr>"

definition put :: "'a \<Rightarrow> 'e \<Rightarrow> ('a, 'e) wqueue \<Rightarrow> ('a, 'e) wqueue option result" where
  "put x e q =
     rbind (measure_item q x) (\<lambda>(w, b).
     rbind (can_admit q e w b) (\<lambda>ok. Inr (if ok then Some (admit x w b q) else None)))"

definition try_put :: "'a \<Rightarrow> 'e \<Rightarrow> ('a, 'e) wqueue \<Rightarrow> (bool \<times> ('a, 'e) wqueue) result" where
  "try_put x e q =
     rbind (measure_item q x) (\<lambda>(w, b).
     rbind (can_admit q e w b) (\<lambda>ok. Inr (if \<not> ok then (False, q) else (True, admit x w b q))))"

definition put_control :: "'a \<Rightarrow> ('a, 'e) wqueue \<Rightarrow> ('a, 'e) wqueue result" where
  "put_control x q = rbind (measure_item q x) (\<lambda>(w, b). Inr (admit x w b q))"

text \<open>The dequeue callback runs before the item is removed; if it raises, the item stays.\<close>

definition take_at :: "nat \<Rightarrow> 'e \<Rightarrow> ('a, 'e) wqueue \<Rightarrow> ('a \<times> 'e \<times> ('a, 'e) wqueue) result" where
  "take_at i e q =
     (if length (items q) \<le> i then Inl IndexError
      else case items q ! i of (x, w, b) \<Rightarrow>
        rbind (case on_take q of None \<Rightarrow> Inr e | Some f \<Rightarrow> f x b e) (\<lambda>e'.
          Inr (x, e', q\<lparr>items := take i (items q) @ drop (Suc i) (items q),
                        queue_weight := queue_weight q - w, queue_bytes := queue_bytes q - b\<rparr>)))"

definition get :: "'e \<Rightarrow> ('a, 'e) wqueue \<Rightarrow> ('a \<times> 'e \<times> ('a, 'e) wqueue) option result" where
  "get e q = (if items q = [] then Inr None else rbind (take_at 0 e q) (\<lambda>r. Inr (Some r)))"

fun first_index :: "('a \<Rightarrow> bool) \<Rightarrow> 'a list \<Rightarrow> nat option" where
  "first_index p [] = None"
| "first_index p (x # xs) = (if p x then Some 0 else map_option Suc (first_index p xs))"

definition get_matching ::
  "('a \<Rightarrow> bool) \<Rightarrow> 'e \<Rightarrow> ('a, 'e) wqueue \<Rightarrow> ('a \<times> 'e \<times> ('a, 'e) wqueue) option result" where
  "get_matching p e q =
     (case first_index (\<lambda>(x, _, _). p x) (items q) of
        None \<Rightarrow> Inr None
      | Some i \<Rightarrow> rbind (take_at i e q) (\<lambda>r. Inr (Some r)))"

definition retained_byte_size :: "('a, 'e) wqueue \<Rightarrow> 'e \<Rightarrow> int result" where
  "retained_byte_size q e = rbind (external_byte_size q e) (\<lambda>ext. Inr (queue_bytes q + ext))"

definition envelope_count :: "('a, 'e) wqueue \<Rightarrow> nat" where
  "envelope_count q = length (items q)"

subsection \<open>InboxPump: bytes in flight between the inbox and the operator\<close>

text \<open>
  \<open>_inflight_envelopes\<close> is keyed by \<open>id(envelope)\<close>, the parameter \<open>ident\<close>;
  \<open>accumulator_bytes\<close> is what the input accumulator reports.
\<close>

record pump_bytes =
  inflight_input_bytes :: int
  inflight_envelopes :: "(nat, int) dict"
  processing_accumulator_bytes :: int
  accumulator_bytes :: pyobj

definition accumulator_buffered_bytes :: "pump_bytes \<Rightarrow> int" where
  "accumulator_buffered_bytes p =
     (case accumulator_bytes p of PInt n \<Rightarrow> if n \<ge> 0 then n else 0 | _ \<Rightarrow> 0)"

definition reserved_input_bytes :: "pump_bytes \<Rightarrow> int" where
  "reserved_input_bytes p =
     inflight_input_bytes p + processing_accumulator_bytes p + accumulator_buffered_bytes p"

definition reserve_accumulator_processing :: "pump_bytes \<Rightarrow> pump_bytes result" where
  "reserve_accumulator_processing p =
     (if processing_accumulator_bytes p \<noteq> 0 then Inl RuntimeError
      else Inr (p\<lparr>processing_accumulator_bytes := accumulator_buffered_bytes p\<rparr>))"

definition release_accumulator_processing :: "pump_bytes \<Rightarrow> pump_bytes" where
  "release_accumulator_processing p = p\<lparr>processing_accumulator_bytes := 0\<rparr>"

definition reserve_input_envelope :: "('a \<Rightarrow> nat) \<Rightarrow> 'a \<Rightarrow> int \<Rightarrow> pump_bytes \<Rightarrow> pump_bytes result" where
  "reserve_input_envelope ident x b p =
     (if map_of (inflight_envelopes p) (ident x) \<noteq> None then Inl RuntimeError
      else Inr (p\<lparr>inflight_envelopes := AList.update (ident x) b (inflight_envelopes p),
                  inflight_input_bytes := inflight_input_bytes p + b\<rparr>))"

definition release_input_envelope :: "('a \<Rightarrow> nat) \<Rightarrow> 'a \<Rightarrow> pump_bytes \<Rightarrow> pump_bytes" where
  "release_input_envelope ident x p =
     (case map_of (inflight_envelopes p) (ident x) of
        None \<Rightarrow> p
      | Some b \<Rightarrow> p\<lparr>inflight_envelopes := AList.delete (ident x) (inflight_envelopes p),
                   inflight_input_bytes := inflight_input_bytes p - b\<rparr>)"

subsection \<open>Invariants\<close>

definition item_weights :: "('a \<times> int \<times> int) list \<Rightarrow> int" where
  "item_weights xs = (\<Sum>(x, w, b) \<leftarrow> xs. w)"

definition item_bytes :: "('a \<times> int \<times> int) list \<Rightarrow> int" where
  "item_bytes xs = (\<Sum>(x, w, b) \<leftarrow> xs. b)"

definition positive_items :: "('a \<times> int \<times> int) list \<Rightarrow> bool" where
  "positive_items xs \<longleftrightarrow> list_all (\<lambda>(x, w, b). 0 < w \<and> 0 \<le> b) xs"

definition wqueue_inv :: "('a, 'e) wqueue \<Rightarrow> bool" where
  "wqueue_inv q \<longleftrightarrow>
     0 < max_weight q \<and> (case max_bytes q of None \<Rightarrow> True | Some m \<Rightarrow> 0 < m) \<and>
     queue_weight q = item_weights (items q) \<and> queue_bytes q = item_bytes (items q) \<and>
     positive_items (items q)"

text \<open>The part of the queue that ordinary admission (not \<open>put_control\<close>) put there.\<close>

definition data_items :: "('a \<Rightarrow> bool) \<Rightarrow> ('a \<times> int \<times> int) list \<Rightarrow> ('a \<times> int \<times> int) list" where
  "data_items ctl xs = filter (\<lambda>(x, _, _). \<not> ctl x) xs"

definition within_capacity :: "('a \<Rightarrow> bool) \<Rightarrow> ('a, 'e) wqueue \<Rightarrow> bool" where
  "within_capacity ctl q \<longleftrightarrow>
     length (data_items ctl (items q)) \<le> 1 \<or>
     item_weights (data_items ctl (items q)) \<le> max_weight q \<and>
     (case max_bytes q of None \<Rightarrow> True | Some m \<Rightarrow> item_bytes (data_items ctl (items q)) \<le> m)"

definition pump_inv :: "pump_bytes \<Rightarrow> bool" where
  "pump_inv p \<longleftrightarrow>
     wf_dict (inflight_envelopes p) \<and>
     (\<forall>b \<in> snd ` set (inflight_envelopes p). 0 \<le> b) \<and>
     inflight_input_bytes p = sum_list (map snd (inflight_envelopes p)) \<and>
     0 \<le> processing_accumulator_bytes p"

lemma item_sums [simp]:
  "item_weights [] = 0" "item_weights ((x, w, b) # xs) = w + item_weights xs"
  "item_weights (xs @ ys) = item_weights xs + item_weights ys"
  "item_bytes [] = 0" "item_bytes ((x, w, b) # xs) = b + item_bytes xs"
  "item_bytes (xs @ ys) = item_bytes xs + item_bytes ys"
  by (simp_all add: item_weights_def item_bytes_def)

lemma positive_items_simps [simp]:
  "positive_items []" "positive_items ((x, w, b) # xs) \<longleftrightarrow> 0 < w \<and> 0 \<le> b \<and> positive_items xs"
  "positive_items (xs @ ys) \<longleftrightarrow> positive_items xs \<and> positive_items ys"
  by (auto simp: positive_items_def)

lemma data_items_simps [simp]:
  "data_items ctl [] = []"
  "data_items ctl ((x, w, b) # xs) = (if ctl x then [] else [(x, w, b)]) @ data_items ctl xs"
  "data_items ctl (xs @ ys) = data_items ctl xs @ data_items ctl ys"
  by (auto simp: data_items_def)

lemma data_items_le:
  "positive_items xs \<Longrightarrow>
   item_weights (data_items ctl xs) \<le> item_weights xs \<and> item_bytes (data_items ctl xs) \<le> item_bytes xs"
  by (induction xs) auto

lemma data_items_set: "set (data_items ctl xs) \<subseteq> set xs"
  by (auto simp: data_items_def)

lemma split_at:
  assumes "i < length xs"
  obtains ys zs where "xs = ys @ xs ! i # zs" "ys = take i xs" "zs = drop (Suc i) xs"
  using id_take_nth_drop [OF assms] by blast

lemma first_index_Some:
  "first_index p xs = Some i \<longleftrightarrow> i < length xs \<and> p (xs ! i) \<and> (\<forall>j < i. \<not> p (xs ! j))"
proof (induction xs arbitrary: i)
  case (Cons x xs)
  show ?case
    by (cases i) (auto simp: Cons.IH nth_Cons')
qed simp

lemma first_index_None: "first_index p xs = None \<longleftrightarrow> (\<forall>x \<in> set xs. \<not> p x)"
  by (induction xs) auto

subsection \<open>Admission and removal\<close>

lemma measure_item_Inr: "measure_item q x = Inr (w, b) \<Longrightarrow> 0 < w \<and> 0 \<le> b"
  by (auto simp: measure_item_def Let_def split: if_splits)

lemma admit_fields [simp]:
  "items (admit x w b q) = items q @ [(x, w, b)]"
  "queue_weight (admit x w b q) = queue_weight q + w"
  "queue_bytes (admit x w b q) = queue_bytes q + b"
  "max_weight (admit x w b q) = max_weight q" "max_bytes (admit x w b q) = max_bytes q"
  "external_bytes (admit x w b q) = external_bytes q" "on_take (admit x w b q) = on_take q"
  by (simp_all add: admit_def)

lemma admit_inv [inv_intros]:
  "wqueue_inv q \<Longrightarrow> 0 < w \<Longrightarrow> 0 \<le> b \<Longrightarrow> wqueue_inv (admit x w b q)"
  by (auto simp: wqueue_inv_def)

lemma put_Some:
  assumes "put x e q = Inr (Some q')"
  obtains w b where "measure_item q x = Inr (w, b)" "can_admit q e w b = Inr True" "q' = admit x w b q"
  using assms by (auto simp: put_def result_simps split: if_splits)

lemma put_control_Inr:
  assumes "put_control x q = Inr q'"
  obtains w b where "measure_item q x = Inr (w, b)" "q' = admit x w b q"
  using assms by (auto simp: put_control_def result_simps)

lemma try_put_eq_put:
  "try_put x e q = rbind (put x e q) (\<lambda>r. Inr (case r of None \<Rightarrow> (False, q) | Some q' \<Rightarrow> (True, q')))"
  by (auto simp: try_put_def put_def rbind_def split: sum.splits)

lemma can_admit_Inr:
  assumes "can_admit q e w b = Inr ok"
  shows "\<exists>ext \<ge> 0. external_byte_size q e = Inr ext \<and>
    (ok \<longleftrightarrow> (items q = [] \<and> ext = 0) \<or>
       (queue_weight q + w \<le> max_weight q \<and>
        (case max_bytes q of None \<Rightarrow> True | Some m \<Rightarrow> queue_bytes q + ext + b \<le> m)))"
proof -
  obtain ext where ext: "external_byte_size q e = Inr ext"
    using assms by (auto simp: can_admit_def result_simps)
  moreover have "0 \<le> ext"
    using ext by (auto simp: external_byte_size_def split: option.splits pyobj.splits if_splits)
  ultimately show ?thesis using assms by (auto simp: can_admit_def split: if_splits)
qed

lemma take_at_Inr:
  assumes "take_at i e q = Inr (x, e', q')"
  obtains ys zs w b where "items q = ys @ (x, w, b) # zs" "length ys = i" "items q' = ys @ zs"
    "queue_weight q' = queue_weight q - w" "queue_bytes q' = queue_bytes q - b"
    "max_weight q' = max_weight q" "max_bytes q' = max_bytes q" "external_bytes q' = external_bytes q"
    "on_take q' = on_take q"
    "(case on_take q of None \<Rightarrow> Inr e | Some f \<Rightarrow> f x b e) = Inr e'"
proof -
  from assms have i: "i < length (items q)" by (auto simp: take_at_def split: if_splits)
  from split_at [OF i] obtain ys zs where
    s: "items q = ys @ items q ! i # zs" "ys = take i (items q)" "zs = drop (Suc i) (items q)" .
  obtain x' w b where xi: "items q ! i = (x', w, b)" by (cases "items q ! i")
  with assms i have q': "x' = x"
      "q' = q\<lparr>items := ys @ zs, queue_weight := queue_weight q - w, queue_bytes := queue_bytes q - b\<rparr>"
      "(case on_take q of None \<Rightarrow> Inr e | Some f \<Rightarrow> f x b e) = Inr e'"
    by (auto simp: take_at_def result_simps s(2,3))
  have "length ys = i" using i s(2) by simp
  then show thesis using that [of ys w b zs] s(1) q' xi by simp
qed

lemma get_matching_Some:
  assumes "get_matching p e q = Inr (Some (x, e', q'))"
  obtains i where "take_at i e q = Inr (x, e', q')" "i < length (items q)"
    "p (fst (items q ! i))" "\<forall>j < i. \<not> p (fst (items q ! j))"
  using assms
  by (auto simp: get_matching_def result_simps first_index_Some case_prod_beta split: option.splits)

lemma get_eq_get_matching: "get e q = get_matching (\<lambda>_. True) e q"
  by (cases "items q") (auto simp: get_def get_matching_def)

lemma take_at_inv [inv_intros]:
  assumes "wqueue_inv q" "take_at i e q = Inr (x, e', q')"
  shows "wqueue_inv q'"
  using assms by (auto elim!: take_at_Inr simp: wqueue_inv_def)

lemma admit_capacity:
  assumes "wqueue_inv q" "within_capacity ctl q" "measure_item q x = Inr (w, b)"
    and "ctl x \<or> can_admit q e w b = Inr True"
  shows "within_capacity ctl (admit x w b q)"
proof (cases "ctl x")
  case True
  with assms(2) show ?thesis by (auto simp: within_capacity_def split: option.splits)
next
  case False
  with assms(4) obtain ext where ext: "0 \<le> ext" "(items q = [] \<and> ext = 0) \<or>
      (queue_weight q + w \<le> max_weight q \<and>
        (case max_bytes q of None \<Rightarrow> True | Some m \<Rightarrow> queue_bytes q + ext + b \<le> m))"
    using can_admit_Inr [of q e w b True] by auto
  have le: "item_weights (data_items ctl (items q)) \<le> queue_weight q \<and>
      item_bytes (data_items ctl (items q)) \<le> queue_bytes q"
    using assms(1) data_items_le [of "items q" ctl] by (simp add: wqueue_inv_def)
  from ext(2) show ?thesis
  proof
    assume "items q = [] \<and> ext = 0"
    then show ?thesis by (simp add: within_capacity_def)
  next
    assume r: "queue_weight q + w \<le> max_weight q \<and>
        (case max_bytes q of None \<Rightarrow> True | Some m \<Rightarrow> queue_bytes q + ext + b \<le> m)"
    then show ?thesis
      using le False ext(1) by (auto simp: within_capacity_def split: option.splits)
  qed
qed

lemma take_at_capacity:
  assumes "wqueue_inv q" "within_capacity ctl q" "take_at i e q = Inr (x, e', q')"
  shows "within_capacity ctl q'"
proof -
  from assms(3) obtain ys zs w b where t: "items q = ys @ (x, w, b) # zs" "items q' = ys @ zs"
      "max_weight q' = max_weight q" "max_bytes q' = max_bytes q"
    by (rule take_at_Inr)
  have "0 < w \<and> 0 \<le> b" using assms(1) t(1) by (auto simp: wqueue_inv_def)
  with assms(2) t show ?thesis by (auto simp: within_capacity_def split: option.splits if_splits)
qed

subsection \<open>Byte reservations of the consumer\<close>

text \<open>What the queue needs from the consumer of its items: a byte count and an addition to it.\<close>

locale byte_reservation =
  fixes ext :: "'e \<Rightarrow> int" and reserve :: "'a \<Rightarrow> int \<Rightarrow> 'e \<Rightarrow> 'e result" and consumer_inv :: "'e \<Rightarrow> bool"
  assumes ext_nonneg: "consumer_inv e \<Longrightarrow> 0 \<le> ext e"
    and reserve_adds: "consumer_inv e \<Longrightarrow> 0 \<le> b \<Longrightarrow> reserve x b e = Inr e' \<Longrightarrow>
      consumer_inv e' \<and> ext e' = ext e + b"
begin

definition bound :: "('a, 'e) wqueue \<Rightarrow> bool" where
  "bound q \<longleftrightarrow> external_bytes q = Some (\<lambda>e. PInt (ext e)) \<and> on_take q = Some reserve"

lemma external_byte_size_bound: "bound q \<Longrightarrow> consumer_inv e \<Longrightarrow> external_byte_size q e = Inr (ext e)"
  using ext_nonneg [of e] by (simp add: bound_def external_byte_size_def)

lemma retained_unchanged:
  assumes "bound q" "consumer_inv e" "wqueue_inv q" "take_at i e q = Inr (x, e', q')"
  shows "consumer_inv e' \<and> bound q' \<and> retained_byte_size q' e' = retained_byte_size q e"
proof -
  from assms(4) obtain ys zs w b where t: "items q = ys @ (x, w, b) # zs"
      "queue_bytes q' = queue_bytes q - b" "external_bytes q' = external_bytes q"
      "on_take q' = on_take q" "(case on_take q of None \<Rightarrow> Inr e | Some f \<Rightarrow> f x b e) = Inr e'"
    by (rule take_at_Inr)
  have "0 \<le> b" using assms(3) t(1) by (auto simp: wqueue_inv_def)
  moreover have "reserve x b e = Inr e'" using t(5) assms(1) by (simp add: bound_def)
  ultimately have "consumer_inv e'" "ext e' = ext e + b" using reserve_adds [OF assms(2)] by auto
  moreover have "bound q'" using assms(1) t(3,4) by (simp add: bound_def)
  ultimately show ?thesis
    using t(2) assms(1,2) external_byte_size_bound by (simp add: retained_byte_size_def)
qed

lemma admitted_within_budget:
  assumes "bound q" "consumer_inv e" "put x e q = Inr (Some q')" "max_bytes q = Some m"
    and "items q \<noteq> [] \<or> ext e \<noteq> 0"
  shows "\<exists>n. retained_byte_size q' e = Inr n \<and> n \<le> m \<and> queue_weight q' \<le> max_weight q"
proof -
  from assms(3) obtain w b where p: "can_admit q e w b = Inr True" "q' = admit x w b q"
    by (rule put_Some)
  have "bound q'" using assms(1) p(2) by (simp add: bound_def)
  with p assms show ?thesis
    using can_admit_Inr [OF p(1)] external_byte_size_bound
    by (auto simp: retained_byte_size_def)
qed

end

lemma sum_list_delete:
  fixes d :: "('k, int) dict"
  assumes "wf_dict d" "map_of d k = Some b"
  shows "sum_list (map snd (AList.delete k d)) = sum_list (map snd d) - b"
  using assms
proof (induction d)
  case (Cons p d)
  show ?case
  proof (cases "fst p = k")
    case True
    then have "k \<notin> fst ` set d" using Cons.prems(1) by auto
    then have "AList.delete k d = d" by simp
    with True Cons.prems(2) show ?thesis by (cases p) simp
  next
    case False
    with Cons show ?thesis by (cases p) auto
  qed
qed simp

lemma reserve_input_envelope_Inr:
  assumes "pump_inv p" "0 \<le> b" "reserve_input_envelope ident x b p = Inr p'"
  shows "pump_inv p' \<and> reserved_input_bytes p' = reserved_input_bytes p + b"
proof -
  from assms(3) have "ident x \<notin> fst ` set (inflight_envelopes p)"
    by (auto simp: reserve_input_envelope_def map_of_eq_None_iff split: if_splits)
  then have u: "AList.update (ident x) b (inflight_envelopes p) = inflight_envelopes p @ [(ident x, b)]"
    by (rule update_append_new)
  have wf: "wf_dict (AList.update (ident x) b (inflight_envelopes p))"
    using assms(1) by (simp add: pump_inv_def)
  show ?thesis
    using assms wf unfolding u
    by (auto simp: reserve_input_envelope_def pump_inv_def reserved_input_bytes_def
        accumulator_buffered_bytes_def u split: if_splits)
qed

lemma release_input_envelope_inv [inv_intros]:
  assumes "pump_inv p"
  shows "pump_inv (release_input_envelope ident x p)"
proof (cases "map_of (inflight_envelopes p) (ident x)")
  case None
  with assms show ?thesis by (simp add: release_input_envelope_def)
next
  case (Some b)
  have sub: "set (AList.delete (ident x) (inflight_envelopes p)) \<subseteq> set (inflight_envelopes p)"
    by (auto simp: AList.delete_eq)
  with Some assms show ?thesis
    by (auto dest!: subsetD [OF sub] simp: release_input_envelope_def pump_inv_def sum_list_delete)
qed

lemma reserved_nonneg: "pump_inv p \<Longrightarrow> 0 \<le> reserved_input_bytes p"
proof -
  assume p: "pump_inv p"
  have "0 \<le> sum_list (map snd d)" if "\<forall>b \<in> snd ` set d. 0 \<le> b" for d :: "(nat, int) dict"
    using that by (induction d) auto
  then have "0 \<le> inflight_input_bytes p" using p by (simp add: pump_inv_def)
  moreover have "0 \<le> accumulator_buffered_bytes p"
    by (simp add: accumulator_buffered_bytes_def split: pyobj.splits)
  ultimately show ?thesis using p by (simp add: reserved_input_bytes_def pump_inv_def)
qed

interpretation pump: byte_reservation reserved_input_bytes "reserve_input_envelope ident" pump_inv
  for ident :: "'a \<Rightarrow> nat"
  by unfold_locales (auto simp: reserved_nonneg dest: reserve_input_envelope_Inr)

text \<open>
  Runs of the inbox: data admission (blocking or not), control admission, removal of the first item
  whose lane is not blocked, and any change of the consumer's state in between.
\<close>

inductive inbox_run ::
  "('a \<Rightarrow> 'l) \<Rightarrow> ('a \<Rightarrow> bool) \<Rightarrow> ('a, 'e) wqueue \<Rightarrow> 'a list \<Rightarrow> 'a list \<Rightarrow> 'e \<Rightarrow> ('a, 'e) wqueue \<Rightarrow> bool"
  for lane ctl q0 where
  start: "wqueue_inv q0 \<Longrightarrow> items q0 = [] \<Longrightarrow> inbox_run lane ctl q0 [] [] e q0"
| data: "inbox_run lane ctl q0 ins outs e q \<Longrightarrow> put x e q = Inr (Some q') \<Longrightarrow>
    inbox_run lane ctl q0 (ins @ [x]) outs e q'"
| control: "inbox_run lane ctl q0 ins outs e q \<Longrightarrow> put_control x q = Inr q' \<Longrightarrow> ctl x \<Longrightarrow>
    inbox_run lane ctl q0 (ins @ [x]) outs e q'"
| taken: "inbox_run lane ctl q0 ins outs e q \<Longrightarrow>
    get_matching (\<lambda>x. lane x \<notin> blocked) e q = Inr (Some (x, e', q')) \<Longrightarrow>
    inbox_run lane ctl q0 ins (outs @ [x]) e' q'"
| consumer: "inbox_run lane ctl q0 ins outs e q \<Longrightarrow> inbox_run lane ctl q0 ins outs e' q"

lemma inbox_run_inv: "inbox_run lane ctl q0 ins outs e q \<Longrightarrow> wqueue_inv q \<and> within_capacity ctl q"
proof (induction rule: inbox_run.induct)
  case (start e)
  then show ?case by (simp add: within_capacity_def)
next
  case (data ins outs e q x q')
  from data(2) obtain w b where "measure_item q x = Inr (w, b)" "can_admit q e w b = Inr True"
    "q' = admit x w b q" by (rule put_Some)
  with data(3) show ?case by (metis admit_capacity admit_inv measure_item_Inr)
next
  case (control ins outs e q x q')
  from control(2) obtain w b where "measure_item q x = Inr (w, b)" "q' = admit x w b q"
    by (rule put_control_Inr)
  with control(3,4) show ?case by (metis admit_capacity admit_inv measure_item_Inr)
next
  case (taken ins outs e q blocked x e' q')
  then show ?case by (metis get_matching_Some take_at_capacity take_at_inv)
qed

lemma take_matching_lane:
  assumes "get_matching (\<lambda>x. lane x \<notin> blocked) e q = Inr (Some (x, e', q'))"
  shows "filter (\<lambda>y. lane y = l) (map fst (items q)) =
    filter (\<lambda>y. lane y = l) [x] @ filter (\<lambda>y. lane y = l) (map fst (items q'))"
proof -
  from assms obtain i where t: "take_at i e q = Inr (x, e', q')" "i < length (items q)"
      "lane (fst (items q ! i)) \<notin> blocked" "\<forall>j < i. lane (fst (items q ! j)) \<in> blocked"
    by (rule get_matching_Some) auto
  from t(1) obtain ys zs w b where s: "items q = ys @ (x, w, b) # zs" "length ys = i" "items q' = ys @ zs"
    by (rule take_at_Inr)
  have x: "lane x \<notin> blocked" using t(3) s(1,2) by (simp add: nth_append)
  have "lane (fst y) \<in> blocked" if "y \<in> set ys" for y
    using that t(4) s(1,2) by (auto simp: in_set_conv_nth nth_append)
  then have "lane x = l \<Longrightarrow> filter (\<lambda>y. lane y = l) (map fst ys) = []"
    using x by (fastforce simp: filter_empty_conv)
  then show ?thesis using s by auto
qed

text \<open>
  C32. The inbox stays within its capacity: after any interleaving of puts, control puts, removals
  and consumer activity, the accounted weight and bytes are exactly those of the queued items, and
  the data items weigh at most the row capacity and occupy at most the byte capacity, unless there
  is only one of them (the oversized item that is admitted into an empty inbox).
\<close>

theorem inbox_within_capacity:
  assumes "inbox_run lane ctl q0 ins outs e q"
  shows "queue_weight q = item_weights (items q) \<and> queue_bytes q = item_bytes (items q) \<and>
    (length (data_items ctl (items q)) \<le> 1 \<or>
     item_weights (data_items ctl (items q)) \<le> max_weight q \<and>
     (case max_bytes q of None \<Rightarrow> True | Some m \<Rightarrow> item_bytes (data_items ctl (items q)) \<le> m))"
  using inbox_run_inv [OF assms] by (simp add: wqueue_inv_def within_capacity_def)

definition demo_queue :: "(nat, pump_bytes) wqueue" where
  "demo_queue =
     \<lparr>max_weight = 10, weigh = int, max_bytes = Some 100, size_of = Some (\<lambda>x. 8 * int x), items = [],
      queue_weight = 0, queue_bytes = 0,
      external_bytes = Some (\<lambda>p. PInt (reserved_input_bytes p)),
      on_take = Some (reserve_input_envelope id)\<rparr>"

definition demo_pump :: pump_bytes where
  "demo_pump = \<lparr>inflight_input_bytes = 0, inflight_envelopes = [], processing_accumulator_bytes = 0,
     accumulator_bytes = PInt 0\<rparr>"

lemma demo_queue_start: "inbox_run lane ctl demo_queue [] [] demo_pump demo_queue"
  by (rule inbox_run.start) (simp_all add: wqueue_inv_def demo_queue_def)

theorem inbox_within_capacity_witness:
  "\<exists>q. inbox_run id (\<lambda>_. False) demo_queue [4] [] demo_pump q \<and>
     queue_weight q = item_weights (items q) \<and> queue_bytes q = 32"
proof -
  have p: "put 4 demo_pump demo_queue = Inr (Some (admit 4 4 32 demo_queue))"
    by (simp add: put_def measure_item_def can_admit_def external_byte_size_def demo_queue_def
        demo_pump_def reserved_input_bytes_def accumulator_buffered_bytes_def)
  have r: "inbox_run id (\<lambda>_. False) demo_queue [4] [] demo_pump (admit 4 4 32 demo_queue)"
    using inbox_run.data [OF demo_queue_start p] by simp
  from inbox_within_capacity [OF r] r show ?thesis by (auto simp: demo_queue_def)
qed

text \<open>
  C37. Every lane is a FIFO through the inbox: whatever lanes the consumer blocks in between, the
  items of a lane come out in the order in which they were admitted, none lost and none duplicated;
  what was not taken yet is still queued.
\<close>

theorem inbox_lane_fifo:
  assumes "inbox_run lane ctl q0 ins outs e q"
  shows "filter (\<lambda>x. lane x = l) ins =
    filter (\<lambda>x. lane x = l) outs @ filter (\<lambda>x. lane x = l) (map fst (items q))"
  using assms
proof (induction rule: inbox_run.induct)
  case (data ins outs e q x q')
  from data(2) obtain w b where "q' = admit x w b q" by (rule put_Some)
  with data(3) show ?case by simp
next
  case (control ins outs e q x q')
  from control(2) obtain w b where "q' = admit x w b q" by (rule put_control_Inr)
  with control(4) show ?case by simp
next
  case (taken ins outs e q blocked x e' q')
  then show ?case using take_matching_lane [OF taken(2)] by simp
qed simp_all

theorem inbox_lane_fifo_witness:
  "\<exists>q. inbox_run id (\<lambda>_. False) demo_queue [4] [] demo_pump q \<and> map fst (items q) = [4]"
proof -
  have p: "put 4 demo_pump demo_queue = Inr (Some (admit 4 4 32 demo_queue))"
    by (simp add: put_def measure_item_def can_admit_def external_byte_size_def demo_queue_def
        demo_pump_def reserved_input_bytes_def accumulator_buffered_bytes_def)
  have r: "inbox_run id (\<lambda>_. False) demo_queue [4] [] demo_pump (admit 4 4 32 demo_queue)"
    using inbox_run.data [OF demo_queue_start p] by simp
  from inbox_lane_fifo [OF r, of 4] r show ?thesis by (auto simp: demo_queue_def)
qed

text \<open>
  Byte admission leaves no gap between the inbox and the pump: taking an envelope moves its
  bytes into the pump's in-flight reservation, so the retained size the next admission sees is
  unchanged, and an envelope admitted while anything is queued or reserved keeps queued plus
  reserved bytes and queued rows within the configured capacities.
\<close>

theorem pump_reservation_no_gap:
  assumes "pump.bound ident q" "pump_inv p" "wqueue_inv q"
  shows "(\<forall>f x p' q'. get_matching f p q = Inr (Some (x, p', q')) \<longrightarrow>
      pump_inv p' \<and> retained_byte_size q' p' = retained_byte_size q p) \<and>
    (\<forall>x q' m. put x p q = Inr (Some q') \<and> max_bytes q = Some m \<and>
        (items q \<noteq> [] \<or> reserved_input_bytes p \<noteq> 0) \<longrightarrow>
      (\<exists>n. retained_byte_size q' p = Inr n \<and> n \<le> m \<and> queue_weight q' \<le> max_weight q))"
proof (intro conjI allI impI)
  fix f x p' q' assume "get_matching f p q = Inr (Some (x, p', q'))"
  then obtain i where "take_at i p q = Inr (x, p', q')" by (rule get_matching_Some)
  from pump.retained_unchanged [OF assms this]
  show "pump_inv p'" "retained_byte_size q' p' = retained_byte_size q p" by simp_all
next
  fix x q' m
  assume "put x p q = Inr (Some q') \<and> max_bytes q = Some m \<and>
        (items q \<noteq> [] \<or> reserved_input_bytes p \<noteq> 0)"
  then show "\<exists>n. retained_byte_size q' p = Inr n \<and> n \<le> m \<and> queue_weight q' \<le> max_weight q"
    using pump.admitted_within_budget [OF assms(1,2)] by blast
qed

theorem pump_reservation_no_gap_witness:
  "\<exists>q x p' q'. pump.bound id q \<and> wqueue_inv q \<and> items q = [(4::nat, 4, 32)] \<and>
     get_matching (\<lambda>_. True) demo_pump q = Inr (Some (x, p', q')) \<and> x = 4 \<and> items q' = [] \<and>
     reserved_input_bytes p' = 32 \<and> retained_byte_size q' p' = retained_byte_size q demo_pump"
proof -
  let ?q = "admit 4 4 32 demo_queue"
  let ?p' = "demo_pump\<lparr>inflight_envelopes := [(4, 32)], inflight_input_bytes := 32\<rparr>"
  have b: "pump.bound id ?q" by (simp add: pump.bound_def demo_queue_def)
  have i: "wqueue_inv ?q" by (simp add: wqueue_inv_def demo_queue_def)
  have p: "pump_inv demo_pump" by (simp add: pump_inv_def demo_pump_def)
  have g: "get_matching (\<lambda>_. True) demo_pump ?q = Inr (Some (4, ?p',
      ?q\<lparr>items := [], queue_weight := 0, queue_bytes := 0\<rparr>))"
    by (simp add: get_matching_def take_at_def demo_queue_def reserve_input_envelope_def demo_pump_def admit_def)
  have "reserved_input_bytes ?p' = 32"
    by (simp add: reserved_input_bytes_def accumulator_buffered_bytes_def demo_pump_def)
  moreover have "retained_byte_size (?q\<lparr>items := [], queue_weight := 0, queue_bytes := 0\<rparr>) ?p' =
      retained_byte_size ?q demo_pump"
    using pump_reservation_no_gap [OF b p i] g by blast
  moreover have "items ?q = [(4, 4, 32)]" by (simp add: demo_queue_def)
  ultimately show ?thesis using b i g by fastforce
qed



end
