(* ===== verification/Delivery.thy ===== *)
theory Delivery
  imports Messages
begin

section \<open>Replay journal, micro-batches and the sender (runtime/collector)\<close>

text \<open>
  \<open>DeliveryJournal\<close> retains landed batches until the downstream confirms them,
  \<open>DownstreamBatcher\<close> collects records per target, and \<open>DownstreamSender.send_sync\<close>
  offers a batch along its retry ring until a target accepts it. Targets are list indices; an index
  out of range raises \<open>IndexError\<close>. The size estimate of a retained object
  (\<open>estimate_retained_size\<close>, an interpreter measurement) is the parameter \<open>size_of\<close>.
  The locks are not modelled: every operation is one critical section. The metrics observers do not
  change the journal and are left out.
\<close>

subsection \<open>DeliveryJournal\<close>

record 'r replay_entry =
  entry_sequence :: int
  entry_records :: "'r list"
  entry_rows :: int
  entry_bytes :: int

record 'r journal =
  enabled :: bool
  journal_sender :: "vertex_id option"
  journal_task_name :: "string option"
  journal_edge_index :: "int option"
  journal_epoch :: "string option"
  sequence :: "int list"
  buffer :: "'r replay_entry list list"
  forwarded :: "int list"
  buffered_bytes :: int
  buffered_records :: int
  journal_max_bytes :: int

definition make_journal :: "nat \<Rightarrow> 'r journal" where
  "make_journal n =
     \<lparr>enabled = False, journal_sender = None, journal_task_name = None, journal_edge_index = None,
      journal_epoch = None, sequence = replicate n 0, buffer = replicate n [],
      forwarded = replicate n (- 1), buffered_bytes = 0, buffered_records = 0, journal_max_bytes = 0\<rparr>"

definition configure ::
  "bool \<Rightarrow> vertex_id option \<Rightarrow> int \<Rightarrow> string option \<Rightarrow> int option \<Rightarrow> string option \<Rightarrow>
   'r journal \<Rightarrow> 'r journal result" where
  "configure on vertex mb task edge epoch j =
     (if on \<and> mb \<le> 0 then Inl ValueError
      else if mb < 0 then Inl ValueError
      else Inr (j\<lparr>enabled := on, journal_sender := vertex, journal_task_name := task,
                  journal_edge_index := edge, journal_epoch := epoch, journal_max_bytes := mb\<rparr>))"

definition journal_delivery_channel :: "int \<Rightarrow> 'r journal \<Rightarrow> delivery_channel option" where
  "journal_delivery_channel target j =
     (case (journal_sender j, journal_task_name j, journal_edge_index j) of
        (Some v, Some task, Some edge) \<Rightarrow>
          Some \<lparr>sender_vertex = SenderVertex v, sender_task_name = task, edge_index = edge,
                target_index = target, topology_epoch = journal_epoch j\<rparr>
      | _ \<Rightarrow> None)"

definition next_sequence :: "nat \<Rightarrow> 'r journal \<Rightarrow> int result" where
  "next_sequence i j = (if i < length (sequence j) then Inr (sequence j ! i + 1) else Inl IndexError)"

text \<open>\<open>row_count\<close> of a tuple of records.\<close>

definition rows_of :: "'v data_record list \<Rightarrow> int" where
  "rows_of rs = sum_list (map record_rows rs)"

definition record_delivery ::
  "('v data_record list \<Rightarrow> int) \<Rightarrow> nat \<Rightarrow> 'v data_record list \<Rightarrow> int \<Rightarrow>
   'v data_record journal \<Rightarrow> 'v data_record journal result" where
  "record_delivery size_of i rs s j =
     (if length (forwarded j) \<le> i \<or> length (sequence j) \<le> i \<or> length (buffer j) \<le> i then Inl IndexError
      else if enabled j \<and> s > forwarded j ! i
      then let next_size = buffered_bytes j + size_of rs
           in if journal_max_bytes j > 0 \<and> next_size > journal_max_bytes j then Inl CapacityError
              else Inr (j\<lparr>buffer := (buffer j)[i := buffer j ! i @
                            [\<lparr>entry_sequence = s, entry_records = rs, entry_rows = rows_of rs,
                              entry_bytes = size_of rs\<rparr>]],
                          buffered_records := buffered_records j + rows_of rs,
                          buffered_bytes := next_size,
                          sequence := (sequence j)[i := s]\<rparr>)
      else Inr (j\<lparr>sequence := (sequence j)[i := s]\<rparr>))"

text \<open>The loop of \<open>acknowledge\<close>: pop covered entries from the left, adjusting the totals.\<close>

fun drop_covered :: "int \<Rightarrow> 'r replay_entry list \<Rightarrow> int \<Rightarrow> int \<Rightarrow> 'r replay_entry list \<times> int \<times> int" where
  "drop_covered fwd [] rows bytes = ([], rows, bytes)"
| "drop_covered fwd (x # xs) rows bytes =
     (if entry_sequence x \<le> fwd then drop_covered fwd xs (rows - entry_rows x) (bytes - entry_bytes x)
      else (x # xs, rows, bytes))"

definition acknowledge :: "nat \<Rightarrow> int \<Rightarrow> 'r journal \<Rightarrow> 'r journal result" where
  "acknowledge i fwd j =
     (if \<not> enabled j then Inr j
      else if length (forwarded j) \<le> i \<or> length (buffer j) \<le> i then Inl IndexError
      else if fwd \<le> forwarded j ! i then Inr j
      else let (rest, rows, bytes) =
             drop_covered fwd (buffer j ! i) (buffered_records j) (buffered_bytes j)
           in Inr (j\<lparr>forwarded := (forwarded j)[i := fwd], buffer := (buffer j)[i := rest],
                     buffered_records := rows, buffered_bytes := bytes\<rparr>))"

definition pending_for :: "nat \<Rightarrow> 'r journal \<Rightarrow> (int \<times> 'r list) list result" where
  "pending_for i j =
     (if i < length (buffer j)
      then Inr (map (\<lambda>x. (entry_sequence x, entry_records x)) (buffer j ! i)) else Inl IndexError)"

subsection \<open>DownstreamBatcher\<close>

record 'r batcher =
  batches :: "'r list list"
  started_at :: "rat option list"
  batch_rows :: "int list"
  batch_bytes :: "int list"
  batch_size :: int
  max_rows :: "int option"
  batch_max_bytes :: "int option"
  idle_timeout :: rat

definition make_batcher ::
  "int \<Rightarrow> int \<Rightarrow> rat \<Rightarrow> int option \<Rightarrow> int option \<Rightarrow> 'r batcher result" where
  "make_batcher n bs timeout rows bytes =
     (if n \<le> 0 then Inl ValueError
      else if bs < 0 then Inl ValueError
      else if timeout \<le> 0 then Inl ValueError
      else if (case rows of None \<Rightarrow> False | Some r \<Rightarrow> r \<le> 0) then Inl ValueError
      else if (case bytes of None \<Rightarrow> False | Some r \<Rightarrow> r \<le> 0) then Inl ValueError
      else Inr \<lparr>batches = replicate (nat n) [], started_at = replicate (nat n) None,
                batch_rows = replicate (nat n) 0, batch_bytes = replicate (nat n) 0,
                batch_size = max 1 bs, max_rows = rows, batch_max_bytes = bytes,
                idle_timeout = timeout\<rparr>)"

definition batcher_append ::
  "('v data_record \<Rightarrow> int) \<Rightarrow> rat \<Rightarrow> nat \<Rightarrow> 'v data_record \<Rightarrow> 'v data_record batcher \<Rightarrow>
   'v data_record batcher result" where
  "batcher_append size_of now i r b =
     (if length (batches b) \<le> i then Inl IndexError
      else Inr (b\<lparr>started_at := (if batches b ! i = [] then (started_at b)[i := Some now] else started_at b),
                  batches := (batches b)[i := batches b ! i @ [r]],
                  batch_rows := (batch_rows b)[i := batch_rows b ! i + record_rows r],
                  batch_bytes := (batch_bytes b)[i := batch_bytes b ! i + size_of r]\<rparr>))"

definition take_batch :: "nat \<Rightarrow> 'r batcher \<Rightarrow> 'r list \<times> 'r batcher" where
  "take_batch i b =
     (batches b ! i,
      b\<lparr>batches := (batches b)[i := []], started_at := (started_at b)[i := None],
        batch_rows := (batch_rows b)[i := 0], batch_bytes := (batch_bytes b)[i := 0]\<rparr>)"

definition batch_full :: "nat \<Rightarrow> 'r batcher \<Rightarrow> bool" where
  "batch_full i b \<longleftrightarrow>
     int (length (batches b ! i)) \<ge> batch_size b \<or>
     (case max_rows b of None \<Rightarrow> False | Some m \<Rightarrow> batch_rows b ! i \<ge> m) \<or>
     (case batch_max_bytes b of None \<Rightarrow> False | Some m \<Rightarrow> batch_bytes b ! i \<ge> m)"

definition take_full :: "nat \<Rightarrow> 'r batcher \<Rightarrow> ('r list \<times> 'r batcher) result" where
  "take_full i b =
     (if length (batches b) \<le> i then Inl IndexError
      else Inr (if \<not> batch_full i b then ([], b) else take_batch i b))"

text \<open>\<open>drain\<close> consumed to its end: targets in order, each non-empty batch that is due.\<close>

fun drain_targets :: "rat \<Rightarrow> bool \<Rightarrow> nat list \<Rightarrow> 'r batcher \<Rightarrow> (nat \<times> 'r list) list \<times> 'r batcher" where
  "drain_targets now force [] b = ([], b)"
| "drain_targets now force (i # is) b =
     (if batches b ! i \<noteq> [] \<and>
         (force \<or> (case started_at b ! i of None \<Rightarrow> False | Some t \<Rightarrow> now - t \<ge> idle_timeout b))
      then let (rs, b1) = take_batch i b; (out, b2) = drain_targets now force is b1 in ((i, rs) # out, b2)
      else drain_targets now force is b)"

definition drain :: "rat \<Rightarrow> bool \<Rightarrow> 'r batcher \<Rightarrow> (nat \<times> 'r list) list \<times> 'r batcher" where
  "drain now force b = drain_targets now force [0..<length (batches b)] b"

subsection \<open>DownstreamSender: one delivery along its retry ring\<close>

text \<open>
  The answer of an attempt: an acknowledgement, or \<open>ActorUnavailableError\<close>. The sender's state is
  the journal, the last reported queue sizes, and the count of rejected attempts.
\<close>

datatype put_answer = Answered put_ack | Unavailable

record 'r downstream_sender =
  sender_journal :: "'r journal"
  target_buffer_size :: "int list"
  backpressure_events :: int
  reresolve_max_wait :: rat

definition validate_retry_ring :: "nat \<Rightarrow> nat list \<Rightarrow> nat list result" where
  "validate_retry_ring initial ring =
     (case ring of [] \<Rightarrow> Inl ValueError | t # _ \<Rightarrow> if t \<noteq> initial then Inl ValueError else Inr ring)"

definition order_retry_ring :: "nat list \<Rightarrow> 'r downstream_sender \<Rightarrow> nat list" where
  "order_retry_ring ring s =
     (if length ring < 3 then ring
      else hd ring # sort_key (\<lambda>t. target_buffer_size s ! t) (tl ring))"

definition on_success ::
  "('v data_record list \<Rightarrow> int) \<Rightarrow> nat \<Rightarrow> 'v data_record list \<Rightarrow> int \<Rightarrow> put_ack \<Rightarrow> bool \<Rightarrow>
   'v data_record downstream_sender \<Rightarrow> 'v data_record downstream_sender result" where
  "on_success size_of t rs sq ack is_replay s =
     rbind (acknowledge t (forwarded_sequence ack) (sender_journal s)) (\<lambda>j1.
     rbind (if is_replay then Inr j1 else record_delivery size_of t rs sq j1) (\<lambda>j2.
       Inr (s\<lparr>sender_journal := j2,
              target_buffer_size := (target_buffer_size s)[t := buffer_size ack]\<rparr>)))"

text \<open>
  The loop of \<open>send_sync\<close>, driven by the list of answers the targets give. It returns
  \<open>None\<close> while answers are missing, an error when the actor stays away for too long, and
  otherwise the index it landed on. The waiting times only decide when the loop gives up on an
  unavailable target. An exception fails the task, which discards the sender; the abort flag of a
  forced teardown, which makes the loop return without sending, is not modelled.
\<close>

fun send_loop ::
  "('v data_record list \<Rightarrow> int) \<Rightarrow> nat list \<Rightarrow> 'v data_record list \<Rightarrow> int option \<Rightarrow>
   put_answer list \<Rightarrow> nat \<Rightarrow> rat \<Rightarrow> rat \<Rightarrow> 'v data_record downstream_sender \<Rightarrow>
   (nat \<times> int \<times> 'v data_record downstream_sender) option result" where
  "send_loop size_of ring rs replay [] k backoff waited s = Inr None"
| "send_loop size_of ring rs replay (a # as) k backoff waited s =
     (let t = ring ! k in
      rbind (case replay of Some sq \<Rightarrow> Inr sq | None \<Rightarrow> next_sequence t (sender_journal s)) (\<lambda>sq.
      case a of
        Unavailable \<Rightarrow>
          let backoff' = min 1 (backoff * 2 + 5 / 100); waited' = waited + backoff'
          in if waited' > reresolve_max_wait s then Inl ActorUnavailableError
             else send_loop size_of ring rs replay as k backoff' waited' s
      | Answered ack \<Rightarrow>
          if accepted ack
          then rbind (on_success size_of t rs sq ack (replay \<noteq> None) s) (\<lambda>s'. Inr (Some (t, sq, s')))
          else let k' = (k + 1) mod length ring;
                   s' = s\<lparr>backpressure_events := backpressure_events s + 1,
                          target_buffer_size := (target_buffer_size s)[t := buffer_size ack]\<rparr>
               in send_loop size_of ring rs replay as k'
                    (if k' = 0 then min (1 / 10) (backoff * 2 + 1 / 1000) else backoff) waited s'))"

definition send_sync ::
  "('v data_record list \<Rightarrow> int) \<Rightarrow> nat \<Rightarrow> 'v data_record list \<Rightarrow> nat list option \<Rightarrow> int option \<Rightarrow>
   put_answer list \<Rightarrow> 'v data_record downstream_sender \<Rightarrow>
   (nat \<times> int \<times> 'v data_record downstream_sender) option result" where
  "send_sync size_of t rs retry replay answers s =
     rbind (validate_retry_ring t (case retry of Some (r # rest) \<Rightarrow> r # rest | _ \<Rightarrow> [t])) (\<lambda>ring0.
     let ring = (if replay \<noteq> None then [t] else order_retry_ring ring0 s)
     in send_loop size_of ring rs replay answers 0 0 0 s)"

subsection \<open>The journal: what is pending is what landed and is not confirmed\<close>

definition entries_bytes :: "'r replay_entry list \<Rightarrow> int" where
  "entries_bytes xs = sum_list (map entry_bytes xs)"

definition entries_rows :: "'r replay_entry list \<Rightarrow> int" where
  "entries_rows xs = sum_list (map entry_rows xs)"

definition landing :: "'r replay_entry \<Rightarrow> int \<times> 'r list" where
  "landing x = (entry_sequence x, entry_records x)"

text \<open>
  The history \<open>h\<close> lists, per target, every batch that landed with its sequence number. One
  target's part of the invariant, and the invariant of the whole journal.
\<close>

definition target_ok :: "(int \<times> 'r list) list \<Rightarrow> int \<Rightarrow> 'r replay_entry list \<Rightarrow> int \<Rightarrow> bool" where
  "target_ok h s buf fwd \<longleftrightarrow>
     s = int (length h) \<and> map fst h = map int [1..<Suc (length h)] \<and>
     map landing buf = filter (\<lambda>(q, _). q > fwd) h"

definition measured :: "('v data_record list \<Rightarrow> int) \<Rightarrow> 'v data_record replay_entry list \<Rightarrow> bool" where
  "measured size_of xs \<longleftrightarrow>
     list_all (\<lambda>x. entry_bytes x = size_of (entry_records x) \<and> entry_rows x = rows_of (entry_records x)) xs"

definition journal_inv ::
  "('v data_record list \<Rightarrow> int) \<Rightarrow> nat \<Rightarrow> (nat \<Rightarrow> (int \<times> 'v data_record list) list) \<Rightarrow>
   'v data_record journal \<Rightarrow> bool" where
  "journal_inv size_of n h j \<longleftrightarrow>
     enabled j \<and> 0 < journal_max_bytes j \<and>
     length (sequence j) = n \<and> length (buffer j) = n \<and> length (forwarded j) = n \<and>
     (\<forall>i < n. target_ok (h i) (sequence j ! i) (buffer j ! i) (forwarded j ! i) \<and>
              measured size_of (buffer j ! i)) \<and>
     buffered_bytes j = sum_list (map entries_bytes (buffer j)) \<and>
     buffered_records j = sum_list (map entries_rows (buffer j)) \<and>
     buffered_bytes j \<le> journal_max_bytes j"

inductive journal_run ::
  "('v data_record list \<Rightarrow> int) \<Rightarrow> nat \<Rightarrow> (nat \<Rightarrow> (int \<times> 'v data_record list) list) \<Rightarrow>
   'v data_record journal \<Rightarrow> bool" for size_of n where
  start: "configure True v mb task edge epoch (make_journal n) = Inr j \<Longrightarrow>
    journal_run size_of n (\<lambda>_. []) j"
| landed: "journal_run size_of n h j \<Longrightarrow> next_sequence i j = Inr s \<Longrightarrow>
    record_delivery size_of i rs s j = Inr j' \<Longrightarrow> journal_run size_of n (h(i := h i @ [(s, rs)])) j'"
| confirmed: "journal_run size_of n h j \<Longrightarrow> acknowledge i f j = Inr j' \<Longrightarrow> journal_run size_of n h j'"

lemma sum_list_list_update:
  fixes xs :: "int list"
  shows "i < length xs \<Longrightarrow> sum_list (xs[i := y]) = sum_list xs - xs ! i + y"
proof (induction xs arbitrary: i)
  case (Cons x xs)
  then show ?case by (cases i) auto
qed simp

lemma entries_simps [simp]:
  "entries_bytes [] = 0" "entries_bytes (x # xs) = entry_bytes x + entries_bytes xs"
  "entries_bytes (xs @ ys) = entries_bytes xs + entries_bytes ys"
  "entries_rows [] = 0" "entries_rows (x # xs) = entry_rows x + entries_rows xs"
  "entries_rows (xs @ ys) = entries_rows xs + entries_rows ys"
  by (simp_all add: entries_bytes_def entries_rows_def)

lemma measured_simps [simp]:
  "measured size_of []" "measured size_of (xs @ ys) \<longleftrightarrow> measured size_of xs \<and> measured size_of ys"
  "measured size_of (x # xs) \<longleftrightarrow> entry_bytes x = size_of (entry_records x) \<and>
     entry_rows x = rows_of (entry_records x) \<and> measured size_of xs"
  by (simp_all add: measured_def)

lemma entries_bytes_nonneg:
  "measured size_of xs \<Longrightarrow> (\<And>rs. 0 \<le> size_of rs) \<Longrightarrow> 0 \<le> entries_bytes xs"
  by (induction xs) auto

text \<open>On a buffer in sequence order, popping from the left removes exactly the covered entries.\<close>

lemma drop_covered_eq:
  assumes "sorted (map entry_sequence xs)"
  shows "drop_covered fwd xs rows bytes =
    (filter (\<lambda>x. entry_sequence x > fwd) xs,
     rows - entries_rows (filter (\<lambda>x. \<not> entry_sequence x > fwd) xs),
     bytes - entries_bytes (filter (\<lambda>x. \<not> entry_sequence x > fwd) xs))"
  using assms
proof (induction xs arbitrary: rows bytes)
  case (Cons x xs)
  show ?case
  proof (cases "entry_sequence x \<le> fwd")
    case True
    with Cons show ?thesis by simp
  next
    case False
    with Cons.prems have "\<forall>y \<in> set (x # xs). entry_sequence y > fwd" by force
    then show ?thesis using False by (simp add: filter_id_conv filter_empty_conv)
  qed
qed simp

lemma entries_filter_split:
  "entries_bytes (filter P xs) + entries_bytes (filter (\<lambda>x. \<not> P x) xs) = entries_bytes xs"
  "entries_rows (filter P xs) + entries_rows (filter (\<lambda>x. \<not> P x) xs) = entries_rows xs"
  by (induction xs) auto

lemma measured_filter: "measured size_of xs \<Longrightarrow> measured size_of (filter P xs)"
  by (induction xs) auto

lemma sorted_sequences: "sorted (map int [1..<Suc n])"
  by (induction n) (auto simp: sorted_append)

lemma target_ok_sorted: "target_ok h s buf fwd \<Longrightarrow> sorted (map entry_sequence buf)"
proof -
  assume t: "target_ok h s buf fwd"
  have "map entry_sequence buf = map fst (map landing buf)" by (simp add: landing_def)
  also have "\<dots> = map fst (filter (\<lambda>(q, _). q > fwd) h)" using t by (simp only: target_ok_def)
  also have "\<dots> = filter (\<lambda>q. q > fwd) (map fst h)" by (induction h) auto
  also have "sorted \<dots>"
    using t sorted_filter [of id "map fst h" "\<lambda>q. q > fwd"] sorted_sequences [of "length h"]
    by (simp only: target_ok_def list.map_id)
  finally show ?thesis .
qed

lemma target_ok_append:
  assumes "target_ok h s buf fwd"
  shows "target_ok (h @ [(s + 1, rs)]) (s + 1)
    (if s + 1 > fwd then buf @ [\<lparr>entry_sequence = s + 1, entry_records = rs, entry_rows = r, entry_bytes = b\<rparr>]
     else buf) fwd"
  using assms by (simp add: target_ok_def landing_def)

lemma target_ok_confirm:
  assumes "target_ok h s buf fwd" "fwd \<le> f"
  shows "target_ok h s (filter (\<lambda>x. entry_sequence x > f) buf) f"
proof -
  have "map landing (filter (\<lambda>x. entry_sequence x > f) buf) = filter (\<lambda>(q, _). q > f) (map landing buf)"
    by (induction buf) (auto simp: landing_def)
  also have "\<dots> = filter (\<lambda>(q, _). q > f) h"
    using assms by (auto simp: target_ok_def intro!: filter_cong)
  finally show ?thesis using assms by (simp add: target_ok_def)
qed

lemma configure_inv:
  "configure True v mb task edge epoch (make_journal n) = Inr j \<Longrightarrow> journal_inv size_of n (\<lambda>_. []) j"
  by (auto simp: configure_def make_journal_def journal_inv_def target_ok_def entries_bytes_def
      entries_rows_def sum_list_replicate split: if_splits)

lemma record_delivery_inv:
  assumes inv: "journal_inv size_of n h j" and s: "next_sequence i j = Inr s"
    and d: "record_delivery size_of i rs s j = Inr j'"
  shows "journal_inv size_of n (h(i := h i @ [(s, rs)])) j'"
proof -
  have i: "i < n" "s = sequence j ! i + 1"
    using s inv by (auto simp: next_sequence_def journal_inv_def split: if_splits)
  have t: "target_ok (h i) (sequence j ! i) (buffer j ! i) (forwarded j ! i)"
    using inv i by (simp add: journal_inv_def)
  show ?thesis
  proof (cases "s > forwarded j ! i")
    case True
    with d inv i have j': "j' = j\<lparr>buffer := (buffer j)[i := buffer j ! i @
          [\<lparr>entry_sequence = s, entry_records = rs, entry_rows = rows_of rs, entry_bytes = size_of rs\<rparr>]],
        buffered_records := buffered_records j + rows_of rs, buffered_bytes := buffered_bytes j + size_of rs,
        sequence := (sequence j)[i := s]\<rparr>" "buffered_bytes j + size_of rs \<le> journal_max_bytes j"
      by (auto simp: record_delivery_def journal_inv_def Let_def split: if_splits)
    have "target_ok (h i @ [(s, rs)]) s (buffer j ! i @
        [\<lparr>entry_sequence = s, entry_records = rs, entry_rows = rows_of rs, entry_bytes = size_of rs\<rparr>])
        (forwarded j ! i)"
      using target_ok_append [OF t, of rs "rows_of rs" "size_of rs"] True i(2) by simp
    with inv i(1) j' show ?thesis
      by (auto simp: journal_inv_def nth_list_update map_update sum_list_list_update)
  next
    case False
    with d inv i have j': "j' = j\<lparr>sequence := (sequence j)[i := s]\<rparr>"
      by (auto simp: record_delivery_def journal_inv_def Let_def split: if_splits)
    have "target_ok (h i @ [(s, rs)]) s (buffer j ! i) (forwarded j ! i)"
      using target_ok_append [OF t, of rs] False i(2) by simp
    with inv i(1) j' show ?thesis by (auto simp: journal_inv_def nth_list_update)
  qed
qed

lemma acknowledge_Inr:
  assumes inv: "journal_inv size_of n h j" and a: "acknowledge i f j = Inr j'"
  shows "j' = (if i < n \<and> forwarded j ! i < f
    then j\<lparr>forwarded := (forwarded j)[i := f],
           buffer := (buffer j)[i := filter (\<lambda>x. entry_sequence x > f) (buffer j ! i)],
           buffered_records := buffered_records j - entries_rows (filter (\<lambda>x. \<not> entry_sequence x > f) (buffer j ! i)),
           buffered_bytes := buffered_bytes j - entries_bytes (filter (\<lambda>x. \<not> entry_sequence x > f) (buffer j ! i))\<rparr>
    else j) \<and> i < n"
proof -
  have i: "i < n" using assms by (auto simp: acknowledge_def journal_inv_def split: if_splits)
  then have "target_ok (h i) (sequence j ! i) (buffer j ! i) (forwarded j ! i)"
    using inv by (simp add: journal_inv_def)
  then have "sorted (map entry_sequence (buffer j ! i))" by (rule target_ok_sorted)
  from drop_covered_eq [OF this] a inv i show ?thesis
    by (auto simp: acknowledge_def journal_inv_def split: if_splits)
qed

lemma acknowledge_inv:
  assumes inv: "journal_inv size_of n h j" and a: "acknowledge i f j = Inr j'"
    and size: "\<And>rs. 0 \<le> size_of rs"
  shows "journal_inv size_of n h j'"
proof (cases "forwarded j ! i < f")
  case False
  with acknowledge_Inr [OF inv a] inv show ?thesis by simp
next
  case True
  let ?P = "\<lambda>x. entry_sequence x > f"
  from True acknowledge_Inr [OF inv a] have i: "i < n" and j': "j' = j\<lparr>forwarded := (forwarded j)[i := f],
      buffer := (buffer j)[i := filter ?P (buffer j ! i)],
      buffered_records := buffered_records j - entries_rows (filter (\<lambda>x. \<not> ?P x) (buffer j ! i)),
      buffered_bytes := buffered_bytes j - entries_bytes (filter (\<lambda>x. \<not> ?P x) (buffer j ! i))\<rparr>"
    by auto
  have m: "measured size_of (buffer j ! i)" using inv i by (simp add: journal_inv_def)
  have t: "target_ok (h i) (sequence j ! i) (filter ?P (buffer j ! i)) f"
    by (rule target_ok_confirm [of _ _ _ "forwarded j ! i"]) (use inv i True in \<open>auto simp: journal_inv_def\<close>)
  have "0 \<le> entries_bytes (filter (\<lambda>x. \<not> ?P x) (buffer j ! i))"
    by (rule entries_bytes_nonneg [OF measured_filter [OF m] size])
  with inv i j' t measured_filter [OF m, of ?P] entries_filter_split [of ?P "buffer j ! i"] show ?thesis
    by (auto simp: journal_inv_def nth_list_update map_update sum_list_list_update)
qed

lemma journal_run_inv:
  assumes "journal_run size_of n h j" "\<And>rs. 0 \<le> size_of rs"
  shows "journal_inv size_of n h j"
  using assms(1)
proof (induction rule: journal_run.induct)
  case (start v mb task edge epoch j)
  then show ?case by (rule configure_inv)
next
  case (landed h j i s rs j')
  then show ?case by (metis record_delivery_inv)
next
  case (confirmed h j i f j')
  then show ?case using acknowledge_inv assms(2) by blast
qed

subsection \<open>The batcher\<close>

definition batcher_inv ::
  "('v data_record \<Rightarrow> int) \<Rightarrow> nat \<Rightarrow> 'v data_record batcher \<Rightarrow> bool" where
  "batcher_inv size_of n b \<longleftrightarrow>
     0 < batch_size b \<and> length (batches b) = n \<and> length (started_at b) = n \<and>
     length (batch_rows b) = n \<and> length (batch_bytes b) = n \<and>
     (\<forall>i < n. batch_rows b ! i = rows_of (batches b ! i) \<and>
              batch_bytes b ! i = sum_list (map size_of (batches b ! i)) \<and>
              (started_at b ! i = None \<longleftrightarrow> batches b ! i = []))"

text \<open>Histories: what was appended to each target and what was taken from it, in order.\<close>

inductive batcher_run ::
  "('v data_record \<Rightarrow> int) \<Rightarrow> nat \<Rightarrow> (nat \<Rightarrow> 'v data_record list) \<Rightarrow> (nat \<Rightarrow> 'v data_record list) \<Rightarrow>
   'v data_record batcher \<Rightarrow> bool" for size_of n where
  start: "make_batcher (int n) bs timeout rows bytes = Inr b \<Longrightarrow>
    batcher_run size_of n (\<lambda>_. []) (\<lambda>_. []) b"
| append: "batcher_run size_of n ins outs b \<Longrightarrow> batcher_append size_of now i r b = Inr b' \<Longrightarrow>
    batcher_run size_of n (ins(i := ins i @ [r])) outs b'"
| taken: "batcher_run size_of n ins outs b \<Longrightarrow> take_full i b = Inr (rs, b') \<Longrightarrow>
    batcher_run size_of n ins (outs(i := outs i @ rs)) b'"
| drained: "batcher_run size_of n ins outs b \<Longrightarrow> drain now force b = (out, b') \<Longrightarrow>
    batcher_run size_of n ins (fold (\<lambda>(i, rs) o'. o'(i := o' i @ rs)) out outs) b'"

definition balanced ::
  "(nat \<Rightarrow> 'v data_record list) \<Rightarrow> (nat \<Rightarrow> 'v data_record list) \<Rightarrow> 'v data_record batcher \<Rightarrow> bool" where
  "balanced ins outs b \<longleftrightarrow> (\<forall>i. ins i = outs i @ (if i < length (batches b) then batches b ! i else []))"

lemma rows_of_simps [simp]: "rows_of [] = 0" "rows_of (rs @ ss) = rows_of rs + rows_of ss"
  "rows_of (r # rs) = record_rows r + rows_of rs"
  by (simp_all add: rows_of_def)

lemma make_batcher_inv [inv_intros]:
  "make_batcher (int n) bs timeout rows bytes = Inr b \<Longrightarrow> batcher_inv size_of n b"
  by (auto simp: make_batcher_def batcher_inv_def split: if_splits)

lemma batcher_append_inv:
  "batcher_inv size_of n b \<Longrightarrow> batcher_append size_of now i r b = Inr b' \<Longrightarrow> batcher_inv size_of n b'"
  by (auto simp: batcher_append_def batcher_inv_def nth_list_update split: if_splits)

lemma take_batch_inv: "batcher_inv size_of n b \<Longrightarrow> batcher_inv size_of n (snd (take_batch i b))"
  by (cases "i < n") (auto simp: take_batch_def batcher_inv_def nth_list_update)

lemma take_batch_fields [simp]:
  "length (batches (snd (take_batch i b))) = length (batches b)"
  "batches (snd (take_batch i b)) = (batches b)[i := []]"
  "fst (take_batch i b) = batches b ! i"
  by (simp_all add: take_batch_def)

lemma take_batch_balanced:
  assumes "balanced ins outs b" "i < length (batches b)"
  shows "balanced ins (outs(i := outs i @ batches b ! i)) (snd (take_batch i b))"
  using assms by (auto simp: balanced_def nth_list_update)

lemma drain_targets_run:
  assumes "drain_targets now force is b = (out, b')" "\<forall>i \<in> set is. i < length (batches b)"
    "batcher_inv size_of n b" "balanced ins outs b"
  shows "batcher_inv size_of n b' \<and> balanced ins (fold (\<lambda>(i, rs) o'. o'(i := o' i @ rs)) out outs) b' \<and>
    (force \<longrightarrow> (\<forall>i. i < length (batches b') \<longrightarrow> i \<in> set is \<or> batches b ! i = [] \<longrightarrow> batches b' ! i = [])) \<and>
    length (batches b') = length (batches b)"
  using assms
proof (induction "is" arbitrary: b out outs)
  case (Cons i "is")
  show ?case
  proof (cases "batches b ! i \<noteq> [] \<and>
         (force \<or> (case started_at b ! i of None \<Rightarrow> False | Some t \<Rightarrow> now - t \<ge> idle_timeout b))")
    case True
    let ?b1 = "snd (take_batch i b)"
    obtain out1 where out: "out = (i, batches b ! i) # out1" and d: "drain_targets now force is ?b1 = (out1, b')"
      using Cons.prems(1) True by (auto simp: split_beta Let_def split: prod.splits)
    have "balanced ins (outs(i := outs i @ batches b ! i)) ?b1"
      using Cons.prems take_batch_balanced by auto
    from Cons.IH [OF d _ take_batch_inv [OF Cons.prems(3)] this] Cons.prems(2) out
    show ?thesis by (auto simp: nth_list_update)
  next
    case False
    then have d: "drain_targets now force is b = (out, b')" using Cons.prems(1) by (auto split: if_splits)
    from Cons.IH [OF d _ Cons.prems(3,4)] Cons.prems(2) False show ?thesis by auto
  qed
qed auto

lemma batcher_run_inv:
  "batcher_run size_of n ins outs b \<Longrightarrow> batcher_inv size_of n b \<and> balanced ins outs b"
proof (induction rule: batcher_run.induct)
  case (start bs timeout rows bytes b)
  then have "balanced (\<lambda>_. []) (\<lambda>_. []) b"
    by (auto simp: balanced_def make_batcher_def split: if_splits)
  with make_batcher_inv [OF start] show ?case by simp
next
  case (append ins outs b now i r b')
  then have "balanced (ins(i := ins i @ [r])) outs b'"
    by (auto simp: balanced_def batcher_append_def nth_list_update split: if_splits)
  with append batcher_append_inv show ?case by blast
next
  case (taken ins outs b i rs b')
  show ?case
  proof (cases "batch_full i b")
    case True
    with taken(2) have "rs = batches b ! i" "b' = snd (take_batch i b)" "i < length (batches b)"
      by (auto simp: take_full_def split: if_splits dest: arg_cong [of _ _ fst] arg_cong [of _ _ snd])
    with taken(3) take_batch_inv take_batch_balanced show ?thesis by blast
  next
    case False
    with taken(2) have "rs = []" "b' = b" by (auto simp: take_full_def split: if_splits)
    with taken(3) show ?thesis by (simp only: append_Nil2 fun_upd_triv)
  qed
next
  case (drained ins outs b now force out b')
  then show ?case using drain_targets_run [of now force _ b out b'] by (auto simp: drain_def)
qed

subsection \<open>Sending along the retry ring\<close>

lemma acknowledge_sequence: "acknowledge i f j = Inr j' \<Longrightarrow> sequence j' = sequence j"
  by (auto simp: acknowledge_def Let_def split: if_splits prod.splits)

lemma record_delivery_sequence:
  "record_delivery size_of i rs s j = Inr j' \<Longrightarrow> sequence j' = (sequence j)[i := s]"
  by (auto simp: record_delivery_def Let_def split: if_splits)

lemma send_loop_lands:
  assumes "send_loop size_of ring rs replay as k backoff waited s = Inr (Some (t, sq, s'))" "k < length ring"
  shows "t \<in> set ring \<and>
    (case replay of
       None \<Rightarrow> next_sequence t (sender_journal s) = Inr sq \<and>
         sequence (sender_journal s') = (sequence (sender_journal s))[t := sq]
     | Some q \<Rightarrow> sq = q \<and> sequence (sender_journal s') = sequence (sender_journal s))"
  using assms
proof (induction as arbitrary: k backoff waited s)
  case (Cons a as)
  obtain sq0 where sq0: "(case replay of Some sq \<Rightarrow> Inr sq | None \<Rightarrow> next_sequence (ring ! k) (sender_journal s)) = Inr sq0"
    using Cons.prems(1) by (auto simp: Let_def result_simps)
  show ?case
  proof (cases a)
    case Unavailable
    with Cons.prems sq0 show ?thesis
      by (auto simp: Let_def split: if_splits dest: Cons.IH)
  next
    case (Answered ack)
    show ?thesis
    proof (cases "accepted ack")
      case True
      with Answered Cons.prems(1) sq0 have "t = ring ! k" "sq = sq0"
          "on_success size_of t rs sq ack (replay \<noteq> None) s = Inr s'"
        by (auto simp: Let_def result_simps)
      with sq0 Cons.prems(2) show ?thesis
        by (auto simp: on_success_def result_simps acknowledge_sequence record_delivery_sequence
            dest!: acknowledge_sequence record_delivery_sequence split: option.splits)
    next
      case False
      have "(k + 1) mod length ring < length ring" using Cons.prems(2) by (cases ring) auto
      from Cons.IH [OF _ this] show ?thesis
        using Answered False Cons.prems(1) sq0 by (fastforce simp: Let_def split: option.splits)
    qed
  qed
qed simp

text \<open>
  C4. The replay journal holds exactly what a restarted downstream needs: after any sequence of
  landings and confirmations, the batches pending for a target are the landed ones whose sequence
  number exceeds the confirmed watermark, in sequence order, the landed sequence numbers are
  1, 2, 3, ... without a hole, and the retained bytes are accounted exactly and stay within the
  configured guard.
\<close>

theorem journal_pending_exact:
  assumes "journal_run size_of n h j" "\<And>rs. 0 \<le> size_of rs" "i < n"
  shows "pending_for i j = Inr (filter (\<lambda>(s, _). s > forwarded j ! i) (h i)) \<and>
    map fst (h i) = map int [1..<Suc (length (h i))] \<and>
    buffered_bytes j = sum_list (map entries_bytes (buffer j)) \<and>
    buffered_bytes j \<le> journal_max_bytes j"
proof -
  have inv: "journal_inv size_of n h j" by (rule journal_run_inv [OF assms(1,2)])
  then have t: "target_ok (h i) (sequence j ! i) (buffer j ! i) (forwarded j ! i)"
    using assms(3) by (simp add: journal_inv_def)
  have "pending_for i j = Inr (map landing (buffer j ! i))"
    using inv assms(3) by (simp add: pending_for_def journal_inv_def landing_def)
  then show ?thesis using t inv by (simp add: target_ok_def journal_inv_def)
qed

definition demo_row :: "nat data_record" where
  "demo_row = make_record (Some (RowBlock [(''v'', 1)])) None"

lemma demo_journal_run:
  "\<exists>j. journal_run (\<lambda>rs. 10) 2 ((\<lambda>_. [])(1 := [(1, [demo_row])])) j \<and> forwarded j ! 1 = - 1"
proof -
  let ?j0 = "(make_journal 2 :: nat data_record journal)\<lparr>enabled := True, journal_max_bytes := 64\<rparr>"
  have 0: "journal_run (\<lambda>rs. 10) 2 (\<lambda>_. []) ?j0"
    by (rule journal_run.start [of None 64 None None None]) (simp add: configure_def make_journal_def)
  have s: "next_sequence 1 ?j0 = Inr 1" by (simp add: next_sequence_def make_journal_def)
  obtain j where d: "record_delivery (\<lambda>rs. 10) 1 [demo_row] 1 ?j0 = Inr j" and f: "forwarded j ! 1 = - 1"
    by (simp add: record_delivery_def make_journal_def Let_def)
  show ?thesis using journal_run.landed [OF 0 s d] f by auto
qed

theorem journal_pending_exact_witness:
  "\<exists>j. journal_run (\<lambda>rs. 10) 2 ((\<lambda>_. [])(1 := [(1, [demo_row])])) j \<and>
     pending_for 1 j = Inr [(1, [demo_row])]"
proof -
  obtain j where r: "journal_run (\<lambda>rs. 10) 2 ((\<lambda>_. [])(1 := [(1, [demo_row])])) j" "forwarded j ! 1 = - 1"
    using demo_journal_run by blast
  from journal_pending_exact [OF r(1), of 1] r show ?thesis by auto
qed

text \<open>
  Confirmation is monotone and idempotent: it never lowers a target's watermark, repeating it
  or delivering an older one changes nothing, and confirmations of one target leave the pending
  batches of every other target alone.
\<close>

theorem acknowledge_monotone_idempotent:
  assumes "journal_run size_of n h j" "\<And>rs. 0 \<le> size_of rs" "acknowledge i f j = Inr j'"
  shows "forwarded j' = (forwarded j)[i := max f (forwarded j ! i)] \<and>
    (\<forall>f' \<le> f. acknowledge i f' j' = Inr j') \<and>
    (\<forall>k. k \<noteq> i \<longrightarrow> pending_for k j' = pending_for k j)"
proof -
  have inv: "journal_inv size_of n h j" by (rule journal_run_inv [OF assms(1,2)])
  note a = acknowledge_Inr [OF inv assms(3)]
  have len: "length (forwarded j) = n" "length (buffer j) = n" "enabled j" using inv by (auto simp: journal_inv_def)
  have 1: "forwarded j' = (forwarded j)[i := max f (forwarded j ! i)]"
    using a len by (auto simp: max_def not_less)
  have "acknowledge i f' j' = Inr j'" if "f' \<le> f" for f'
    using a len that by (auto simp: acknowledge_def not_less)
  moreover have "pending_for k j' = pending_for k j" if "k \<noteq> i" for k
    using a len that by (auto simp: pending_for_def)
  ultimately show ?thesis using 1 by blast
qed

theorem acknowledge_monotone_idempotent_witness:
  "\<exists>j j'. journal_run (\<lambda>rs. 10) 2 ((\<lambda>_. [])(1 := [(1, [demo_row])])) j \<and>
     acknowledge 1 1 j = Inr j' \<and> acknowledge 1 0 j' = Inr j' \<and> pending_for 0 j' = pending_for 0 j"
proof -
  obtain j where r: "journal_run (\<lambda>rs. 10) 2 ((\<lambda>_. [])(1 := [(1, [demo_row])])) j"
    using demo_journal_run by blast
  have "journal_inv (\<lambda>rs. 10) 2 ((\<lambda>_. [])(1 := [(1, [demo_row])])) j" by (rule journal_run_inv [OF r]) simp
  then have "\<exists>j'. acknowledge 1 1 j = Inr j'"
    by (simp add: acknowledge_def journal_inv_def Let_def split: prod.splits)
  then obtain j' where a: "acknowledge 1 1 j = Inr j'" ..
  from acknowledge_monotone_idempotent [OF r _ a] have "acknowledge 1 0 j' = Inr j'"
    "pending_for 0 j' = pending_for 0 j" by auto
  with r a show ?thesis by blast
qed



text \<open>
  Micro-batching neither loses nor duplicates nor reorders a record: for every target, what was
  appended is what was taken, in order, followed by what is still batched; row and byte totals are
  those of the batched records, a target's idle clock runs exactly while its batch is non-empty,
  and a forced drain leaves nothing behind.
\<close>

theorem batcher_conserves:
  assumes "batcher_run size_of n ins outs b" "i < n"
  shows "ins i = outs i @ batches b ! i \<and>
    batch_rows b ! i = rows_of (batches b ! i) \<and>
    batch_bytes b ! i = sum_list (map size_of (batches b ! i)) \<and>
    (started_at b ! i = None \<longleftrightarrow> batches b ! i = []) \<and>
    batches (snd (drain now True b)) ! i = []"
proof -
  from batcher_run_inv [OF assms(1)] have inv: "batcher_inv size_of n b" "balanced ins outs b" by simp_all
  obtain out b' where d: "drain now True b = (out, b')" by fastforce
  then have "batches b' ! i = []"
    using drain_targets_run [of now True _ b out b', OF _ _ inv] inv assms(2)
    by (auto simp: drain_def batcher_inv_def)
  with d inv assms(2) show ?thesis by (auto simp: batcher_inv_def balanced_def)
qed

theorem batcher_conserves_witness:
  "\<exists>b. batcher_run (\<lambda>_. 10) 2 ((\<lambda>_. [])(1 := [demo_row])) (\<lambda>_. []) b \<and> batches b ! 1 = [demo_row]"
proof -
  let ?make = "make_batcher (int 2) 5 3 None None :: nat data_record batcher result"
  obtain b0 where b0: "?make = Inr b0" by (simp add: make_batcher_def)
  then have 0: "batcher_run (\<lambda>_. 10) 2 (\<lambda>_. []) (\<lambda>_. []) b0" by (rule batcher_run.start)
  have "length (batches b0) = 2" using b0 by (auto simp: make_batcher_def)
  then obtain b where b: "batcher_append (\<lambda>_. 10) 0 1 demo_row b0 = Inr b" by (simp add: batcher_append_def)
  from batcher_run.append [OF 0 b] have r: "batcher_run (\<lambda>_. 10) 2 ((\<lambda>_. [])(1 := [demo_row])) (\<lambda>_. []) b"
    by simp
  from batcher_conserves [OF r, of 1] r show ?thesis by auto
qed

end
