(* ===== verification/ReplayWatermarks.thy ===== *)
theory ReplayWatermarks
  imports Prelude
begin

section \<open>Replay durability watermarks (runtime/worker/watermark.py, runtime/worker/emit_pipeline.py)\<close>

text \<open>
  \<open>WatermarkController\<close> tells the upstream which input batches may be dropped from its replay
  journal; \<open>EmitPipeline\<close> is the FIFO between the operator and the network. A task holds, in
  order: records inside the input batcher, operator and output batcher (\<open>held\<close>), commands detached
  from them (\<open>output_pending\<close>), the emit queue, and what was delivered. Every output carries
  the channel and sequence of the input batch it came from. Coroutines interleave at their
  \<open>await\<close>s: \<open>advance\<close> is split where it suspends. Shown: a watermark is published only
  after every output of every covered batch has left the task.
\<close>

subsection \<open>WatermarkController\<close>

datatype watermark_mode = DISABLED | PIPELINED | SINK

record 'k controller =
  wm_mode :: watermark_mode
  flush_interval_batches :: int
  forwarded_to :: "('k, int) dict"
  pending_by_sender :: "('k, int) dict"
  batches_since_flush :: int

definition make_controller :: "watermark_mode \<Rightarrow> int \<Rightarrow> 'k controller result" where
  "make_controller m interval =
     (if interval \<le> 0 then Inl ValueError
      else Inr \<lparr>wm_mode = m, flush_interval_batches = interval, forwarded_to = [],
                pending_by_sender = [], batches_since_flush = 0\<rparr>)"

definition forwarded_sequence_for :: "'k option \<Rightarrow> 'k controller \<Rightarrow> int" where
  "forwarded_sequence_for sender c =
     (case sender of None \<Rightarrow> - 1 | Some k \<Rightarrow> dict_get (forwarded_to c) k (- 1))"

text \<open>The pushed acknowledgement is a best-effort copy of the mark; only the stored mark is state.\<close>

definition apply_forwarded :: "'k \<Rightarrow> int \<Rightarrow> 'k controller \<Rightarrow> 'k controller" where
  "apply_forwarded k q c =
     c\<lparr>forwarded_to := AList.update k (max (dict_get (forwarded_to c) k (- 1)) q) (forwarded_to c)\<rparr>"

definition note_processed :: "'k option \<Rightarrow> int option \<Rightarrow> 'k controller \<Rightarrow> bool \<times> 'k controller" where
  "note_processed sender q c =
     (case (sender, q) of
        (Some k, Some n) \<Rightarrow>
          let c' = c\<lparr>pending_by_sender :=
                       AList.update k (max (dict_get (pending_by_sender c) k (- 1)) n) (pending_by_sender c),
                     batches_since_flush := batches_since_flush c + 1\<rparr>
          in (batches_since_flush c' \<ge> flush_interval_batches c', c')
      | _ \<Rightarrow> (False, c))"

text \<open>\<open>advance\<close> up to its first suspension: nothing to do, or the snapshot of the pending marks.\<close>

definition advance_begin :: "'k controller \<Rightarrow> ('k, int) dict option \<times> 'k controller" where
  "advance_begin c =
     (if wm_mode c = DISABLED \<or> pending_by_sender c = [] then (None, c\<lparr>batches_since_flush := 0\<rparr>)
      else (Some (pending_by_sender c), c))"

text \<open>\<open>advance\<close> after \<open>_do_advance\<close>: marks that have not moved on are forgotten.\<close>

definition advance_finish :: "('k, int) dict \<Rightarrow> 'k controller \<Rightarrow> 'k controller" where
  "advance_finish pending c =
     c\<lparr>pending_by_sender :=
         fold (\<lambda>(k, q) d. if dict_get d k (- 1) \<le> q then AList.delete k d else d) pending (pending_by_sender c),
       batches_since_flush := 0\<rparr>"

subsection \<open>EmitPipeline\<close>

datatype ('k, 'o) emit_item = Commands "'o list" | WatermarkMarker 'k int

record ('k, 'o) task_emit =
  ctrl :: "'k controller"
  held :: "'o list"
  output_pending :: "'o list"
  emit_queue :: "('k, 'o) emit_item list"
  delivered :: "'o list"

definition drain_pending :: "('k, 'o) task_emit \<Rightarrow> ('k, 'o) task_emit" where
  "drain_pending t =
     (if output_pending t = [] then t
      else t\<lparr>output_pending := [], emit_queue := emit_queue t @ [Commands (output_pending t)]\<rparr>)"

definition enqueue_watermark :: "'k \<Rightarrow> int \<Rightarrow> ('k, 'o) task_emit \<Rightarrow> ('k, 'o) task_emit" where
  "enqueue_watermark k q t = t\<lparr>emit_queue := emit_queue t @ [WatermarkMarker k q]\<rparr>"

definition enqueue_watermarks :: "('k, int) dict \<Rightarrow> ('k, 'o) task_emit \<Rightarrow> ('k, 'o) task_emit" where
  "enqueue_watermarks pending t = fold (\<lambda>(k, q). enqueue_watermark k q) pending t"

text \<open>One iteration of the emit worker.\<close>

definition emit_loop_step :: "('k, 'o) task_emit \<Rightarrow> ('k, 'o) task_emit option" where
  "emit_loop_step t =
     (case emit_queue t of
        [] \<Rightarrow> None
      | Commands os # rest \<Rightarrow> Some (t\<lparr>emit_queue := rest, delivered := delivered t @ os\<rparr>)
      | WatermarkMarker k q # rest \<Rightarrow> Some (t\<lparr>emit_queue := rest, ctrl := apply_forwarded k q (ctrl t)\<rparr>))"

text \<open>
  \<open>_flush_processing_boundary\<close>: the input batcher, the operator and the output batcher give up
  everything; a pipelined task detaches it as commands, a sink writes it out.
\<close>

definition flush_processing_boundary :: "('k, 'o) task_emit \<Rightarrow> ('k, 'o) task_emit" where
  "flush_processing_boundary t =
     (if wm_mode (ctrl t) = SINK then t\<lparr>held := [], delivered := delivered t @ held t\<rparr>
      else t\<lparr>held := [], output_pending := output_pending t @ held t\<rparr>)"

definition do_advance :: "('k, int) dict \<Rightarrow> ('k, 'o) task_emit \<Rightarrow> ('k, 'o) task_emit" where
  "do_advance pending t =
     (let t1 = flush_processing_boundary t in
      case wm_mode (ctrl t1) of
        PIPELINED \<Rightarrow> enqueue_watermarks pending (drain_pending t1)
      | SINK \<Rightarrow> t1\<lparr>ctrl := fold (\<lambda>(k, q). apply_forwarded k q) pending (ctrl t1)\<rparr>
      | DISABLED \<Rightarrow> t1)"

subsection \<open>Runs of a task\<close>

text \<open>
  An output is tagged with the channel and sequence of its input batch. \<open>seen\<close> is the history
  of processed batches. A channel delivers its batches in increasing sequence order. Between the
  processing of a batch and its note, outputs may already have moved on. An advance in progress
  carries its snapshot.
\<close>

type_synonym 'k tagged = "'k \<times> int"

inductive emit_run ::
  "('k \<times> int) list \<Rightarrow> 'k tagged list \<Rightarrow> ('k, int) dict option \<Rightarrow> ('k, 'k tagged) task_emit \<Rightarrow> bool" where
  start: "make_controller m n = Inr c \<Longrightarrow>
    emit_run [] [] None \<lparr>ctrl = c, held = [], output_pending = [], emit_queue = [], delivered = []\<rparr>"
| process: "emit_run seen made adv t \<Longrightarrow> 0 \<le> q \<Longrightarrow> \<forall>(k', q') \<in> set seen. k' = k \<longrightarrow> q' < q \<Longrightarrow>
    note_processed (Some k) (Some q) (ctrl t) = (due, c') \<Longrightarrow>
    emit_run (seen @ [(k, q)]) (made @ replicate m (k, q)) adv
      (t\<lparr>held := held t @ replicate m (k, q), ctrl := c'\<rparr>)"
| detach: "emit_run seen made adv t \<Longrightarrow> wm_mode (ctrl t) \<noteq> SINK \<Longrightarrow> held t = xs @ ys \<Longrightarrow>
    emit_run seen made adv (t\<lparr>held := ys, output_pending := output_pending t @ xs\<rparr>)"
| written: "emit_run seen made adv t \<Longrightarrow> wm_mode (ctrl t) = SINK \<Longrightarrow> held t = xs @ ys \<Longrightarrow>
    emit_run seen made adv (t\<lparr>held := ys, delivered := delivered t @ xs\<rparr>)"
| drained: "emit_run seen made adv t \<Longrightarrow> emit_run seen made adv (drain_pending t)"
| emitted: "emit_run seen made adv t \<Longrightarrow> emit_loop_step t = Some t' \<Longrightarrow> emit_run seen made adv t'"
| begin_none: "emit_run seen made None t \<Longrightarrow> advance_begin (ctrl t) = (None, c') \<Longrightarrow>
    emit_run seen made None (t\<lparr>ctrl := c'\<rparr>)"
| begin_some: "emit_run seen made None t \<Longrightarrow> advance_begin (ctrl t) = (Some pending, c') \<Longrightarrow>
    emit_run seen made (Some pending) (do_advance pending (t\<lparr>ctrl := c'\<rparr>))"
| finish: "emit_run seen made (Some pending) t \<Longrightarrow>
    emit_run seen made None (t\<lparr>ctrl := advance_finish pending (ctrl t)\<rparr>)"

text \<open>The outputs a queue prefix holds, and the outputs of a channel up to a sequence.\<close>

fun queued :: "('k, 'o) emit_item list \<Rightarrow> 'o list" where
  "queued [] = []"
| "queued (Commands os # xs) = os @ queued xs"
| "queued (WatermarkMarker k q # xs) = queued xs"

definition covered :: "'k \<Rightarrow> int \<Rightarrow> 'k tagged list \<Rightarrow> 'k tagged list" where
  "covered k q os = filter (\<lambda>(k', q'). k' = k \<and> q' \<le> q) os"

text \<open>
  A mark is sound behind a prefix \<open>os\<close> of the outputs when every output it covers is in it.
  Since outputs keep their order, soundness of a queued marker is soundness behind everything
  delivered and queued before it.
\<close>

fun markers_sound :: "'k tagged list \<Rightarrow> 'k tagged list \<Rightarrow> ('k, 'k tagged) emit_item list \<Rightarrow> bool" where
  "markers_sound made done [] \<longleftrightarrow> True"
| "markers_sound made done (Commands os # xs) \<longleftrightarrow> markers_sound made (done @ os) xs"
| "markers_sound made done (WatermarkMarker k q # xs) \<longleftrightarrow>
     covered k q done = covered k q made \<and> markers_sound made done xs"

fun markers_seen :: "('k \<times> int) list \<Rightarrow> ('k, 'o) emit_item list \<Rightarrow> bool" where
  "markers_seen seen [] \<longleftrightarrow> True"
| "markers_seen seen (Commands os # xs) \<longleftrightarrow> markers_seen seen xs"
| "markers_seen seen (WatermarkMarker k q # xs) \<longleftrightarrow> (k, q) \<in> set seen \<and> markers_seen seen xs"

definition dict_seen :: "('k \<times> int) list \<Rightarrow> ('k, int) dict \<Rightarrow> bool" where
  "dict_seen seen d \<longleftrightarrow> (\<forall>k q. map_of d k = Some q \<longrightarrow> (k, q) \<in> set seen)"

text \<open>The published marks.\<close>

definition marks_sound :: "('k \<times> int) list \<Rightarrow> 'k tagged list \<Rightarrow> 'k tagged list \<Rightarrow> 'k controller \<Rightarrow> bool" where
  "marks_sound seen made d c \<longleftrightarrow>
     (\<forall>k q. map_of (forwarded_to c) k = Some q \<longrightarrow> (k, q) \<in> set seen \<and> covered k q d = covered k q made)"

definition task_outputs :: "('k, 'o) task_emit \<Rightarrow> 'o list" where
  "task_outputs t = delivered t @ queued (emit_queue t) @ output_pending t @ held t"

definition emit_inv :: "('k \<times> int) list \<Rightarrow> 'k tagged list \<Rightarrow> ('k, 'k tagged) task_emit \<Rightarrow> bool" where
  "emit_inv seen made t \<longleftrightarrow>
     task_outputs t = made \<and>
     set made \<subseteq> set seen \<and>
     (wm_mode (ctrl t) = SINK \<longrightarrow> output_pending t = [] \<and> emit_queue t = []) \<and>
     markers_sound made (delivered t) (emit_queue t) \<and>
     markers_seen seen (emit_queue t) \<and>
     dict_seen seen (pending_by_sender (ctrl t)) \<and>
     marks_sound seen made (delivered t) (ctrl t) \<and>
     wf_dict (pending_by_sender (ctrl t)) \<and> (\<forall>(k, q) \<in> set seen. 0 \<le> q)"

subsection \<open>The invariant\<close>

lemma queued_append [simp]: "queued (xs @ ys) = queued xs @ queued ys"
  by (induction xs rule: queued.induct) auto

lemma covered_append [simp]: "covered k q (xs @ ys) = covered k q xs @ covered k q ys"
  by (simp add: covered_def)

lemma markers_sound_append [simp]:
  "markers_sound made d (xs @ ys) \<longleftrightarrow> markers_sound made d xs \<and> markers_sound made (d @ queued xs) ys"
  by (induction made d xs rule: markers_sound.induct) auto

lemma markers_seen_append [simp]: "markers_seen seen (xs @ ys) \<longleftrightarrow> markers_seen seen xs \<and> markers_seen seen ys"
  by (induction seen xs rule: markers_seen.induct) auto

lemma covered_new:
  assumes "(k', q') \<in> set seen" "\<forall>(k', q') \<in> set seen. k' = k \<longrightarrow> q' < q"
  shows "covered k' q' (replicate m (k, q)) = []"
proof -
  have "\<not> (k = k' \<and> q \<le> q')" using assms by auto
  then show ?thesis by (auto simp: covered_def)
qed

lemma markers_sound_new:
  assumes "markers_sound made d xs" "markers_seen seen xs" "\<forall>(k', q') \<in> set seen. k' = k \<longrightarrow> q' < q"
  shows "markers_sound (made @ replicate m (k, q)) d xs"
  using assms(1,2)
  by (induction made d xs rule: markers_sound.induct) (simp_all add: covered_new [OF _ assms(3)])

lemma markers_seen_mono: "markers_seen seen xs \<Longrightarrow> set seen \<subseteq> set seen' \<Longrightarrow> markers_seen seen' xs"
  by (induction seen xs rule: markers_seen.induct) auto

lemma fold_delete_sub:
  "map_of (fold (\<lambda>(k, q) d. if dict_get d k (- 1) \<le> q then AList.delete k d else d) pending d) k = Some (v::int) \<Longrightarrow>
   map_of d k = Some v"
proof (induction pending arbitrary: d)
  case (Cons p pending)
  obtain k' q where p: "p = (k', q)" by (cases p)
  have "map_of (if dict_get d k' (- 1) \<le> q then AList.delete k' d else d) k = Some v"
    by (rule Cons.IH) (use Cons.prems p in simp)
  then show ?case by (simp split: if_splits)
qed simp

lemma enqueue_watermarks_eq:
  "enqueue_watermarks pending t =
     t\<lparr>emit_queue := emit_queue t @ map (\<lambda>(k, q). WatermarkMarker k q) pending\<rparr>"
  by (induction pending arbitrary: t) (auto simp: enqueue_watermarks_def enqueue_watermark_def)

lemma queued_markers [simp]: "queued (map (\<lambda>(k, q). WatermarkMarker k q) pending) = []"
  by (induction pending) auto

lemma markers_sound_markers:
  "markers_sound made made (map (\<lambda>(k, q). WatermarkMarker k q) pending)"
  by (induction pending) auto

lemma markers_seen_markers:
  "set pending \<subseteq> set seen \<Longrightarrow> markers_seen seen (map (\<lambda>(k, q). WatermarkMarker k q) pending)"
  by (induction pending) auto

lemma apply_forwarded_sound:
  assumes "marks_sound seen made d c" "(k, q) \<in> set seen" "covered k q d = covered k q made" "0 \<le> q"
  shows "marks_sound seen made d (apply_forwarded k q c)"
proof -
  have "max (dict_get (forwarded_to c) k (- 1)) q = q \<or> map_of (forwarded_to c) k = Some (max (dict_get (forwarded_to c) k (- 1)) q)"
    using assms(4) by (auto simp: dict_get_def max_def split: option.splits)
  with assms(1-3) show ?thesis
    by (auto simp: marks_sound_def apply_forwarded_def)
qed

lemma apply_forwarded_fields [simp]:
  "pending_by_sender (apply_forwarded k q c) = pending_by_sender c"
  "wm_mode (apply_forwarded k q c) = wm_mode c"
  by (simp_all add: apply_forwarded_def)

lemma fold_apply_forwarded:
  assumes "marks_sound seen made d c" "set pending \<subseteq> set seen" "d = made" "\<forall>(k, q) \<in> set seen. 0 \<le> q"
  shows "marks_sound seen made d (fold (\<lambda>(k, q). apply_forwarded k q) pending c) \<and>
    pending_by_sender (fold (\<lambda>(k, q). apply_forwarded k q) pending c) = pending_by_sender c \<and>
    wm_mode (fold (\<lambda>(k, q). apply_forwarded k q) pending c) = wm_mode c"
  using assms(1,2)
proof (induction pending arbitrary: c)
  case (Cons p pending)
  obtain k q where p: "p = (k, q)" by (cases p)
  have "marks_sound seen made d (apply_forwarded k q c)"
    by (rule apply_forwarded_sound) (use Cons.prems p assms(3,4) in auto)
  from Cons.IH [OF this] Cons.prems(2) p show ?case by simp
qed simp

lemma wf_fold_delete:
  "wf_dict d \<Longrightarrow> wf_dict (fold (\<lambda>(k, q) d. if dict_get d k (- 1) \<le> (q::int) then AList.delete k d else d) pending d)"
  by (induction pending arbitrary: d) auto

lemma marks_sound_grow:
  assumes "marks_sound seen made d c" "made = d @ xs @ ys"
  shows "marks_sound seen made (d @ xs) c"
  using assms by (auto simp: marks_sound_def)

lemma written_inv:
  assumes "emit_inv seen made t" "wm_mode (ctrl t) = SINK" "held t = xs @ ys"
  shows "emit_inv seen made (t\<lparr>held := ys, delivered := delivered t @ xs\<rparr>)"
proof -
  have e: "output_pending t = []" "emit_queue t = []" using assms(1,2) by (simp_all add: emit_inv_def)
  then have m: "made = delivered t @ xs @ ys" using assms(1,3) by (simp add: emit_inv_def task_outputs_def)
  have "marks_sound seen made (delivered t) (ctrl t)" using assms(1) by (simp add: emit_inv_def)
  from marks_sound_grow [OF this m] assms(1) e m show ?thesis
    by (simp add: emit_inv_def task_outputs_def)
qed

lemma detach_inv:
  assumes "emit_inv seen made t" "wm_mode (ctrl t) \<noteq> SINK" "held t = xs @ ys"
  shows "emit_inv seen made (t\<lparr>held := ys, output_pending := output_pending t @ xs\<rparr>)"
proof -
  have "task_outputs (t\<lparr>held := ys, output_pending := output_pending t @ xs\<rparr>) = task_outputs t"
    using assms(3) by (simp add: task_outputs_def)
  with assms(1,2) show ?thesis by (simp add: emit_inv_def)
qed

lemma flush_processing_boundary_inv:
  assumes "emit_inv seen made t"
  shows "emit_inv seen made (flush_processing_boundary t) \<and> held (flush_processing_boundary t) = []"
  using written_inv [OF assms, of "held t" "[]"] detach_inv [OF assms, of "held t" "[]"]
  by (simp add: flush_processing_boundary_def)

lemma drain_pending_inv:
  assumes "emit_inv seen made t"
  shows "emit_inv seen made (drain_pending t) \<and> output_pending (drain_pending t) = [] \<and>
   held (drain_pending t) = held t \<and> ctrl (drain_pending t) = ctrl t"
proof -
  have "task_outputs (drain_pending t) = task_outputs t" by (simp add: drain_pending_def task_outputs_def)
  with assms show ?thesis by (auto simp: emit_inv_def drain_pending_def)
qed

lemma do_advance_inv:
  assumes "emit_inv seen made t" "pending = pending_by_sender (ctrl t)" "wm_mode (ctrl t) \<noteq> DISABLED"
  shows "emit_inv seen made (do_advance pending t)"
proof -
  let ?t1 = "flush_processing_boundary t"
  have f: "emit_inv seen made ?t1" "held ?t1 = []" "ctrl ?t1 = ctrl t"
    using flush_processing_boundary_inv [OF assms(1)] by (auto simp: flush_processing_boundary_def)
  have p: "set pending \<subseteq> set seen"
    using assms(1,2) wf_dict_mem_iff by (fastforce simp: emit_inv_def dict_seen_def)
  show ?thesis
  proof (cases "wm_mode (ctrl t)")
    case DISABLED
    with assms(3) show ?thesis by simp
  next
    case PIPELINED
    let ?t2 = "drain_pending ?t1"
    have d: "emit_inv seen made ?t2" "output_pending ?t2 = []" "held ?t2 = []" "ctrl ?t2 = ctrl t"
      using drain_pending_inv [OF f(1)] f by auto
    then have m: "delivered ?t2 @ queued (emit_queue ?t2) = made" by (simp add: emit_inv_def task_outputs_def)
    have "task_outputs (enqueue_watermarks pending ?t2) = task_outputs ?t2"
      by (simp add: enqueue_watermarks_eq task_outputs_def)
    then have "emit_inv seen made (enqueue_watermarks pending ?t2)"
      using d m PIPELINED markers_sound_markers [of made pending] markers_seen_markers [OF p]
      by (simp add: emit_inv_def enqueue_watermarks_eq)
    with PIPELINED f(3) show ?thesis by (simp add: do_advance_def Let_def)
  next
    case SINK
    with f have e: "delivered ?t1 = made" "output_pending ?t1 = []" "emit_queue ?t1 = []"
      by (auto simp: emit_inv_def task_outputs_def)
    have "marks_sound seen made (delivered ?t1) (ctrl t) \<and> (\<forall>(k, q) \<in> set seen. 0 \<le> q)"
      using f(1,3) by (simp add: emit_inv_def)
    with fold_apply_forwarded [of seen made "delivered ?t1" "ctrl t" pending] p e f SINK show ?thesis
      by (simp add: do_advance_def Let_def emit_inv_def task_outputs_def)
  qed
qed

lemma process_inv:
  assumes inv: "emit_inv seen made t" and q: "0 \<le> q" and new: "\<forall>(k', q') \<in> set seen. k' = k \<longrightarrow> q' < q"
    and n: "note_processed (Some k) (Some q) (ctrl t) = (due, c')"
  shows "emit_inv (seen @ [(k, q)]) (made @ replicate m (k, q)) (t\<lparr>held := held t @ replicate m (k, q), ctrl := c'\<rparr>)"
proof -
  have c': "c' = (ctrl t)\<lparr>pending_by_sender := AList.update k (max (dict_get (pending_by_sender (ctrl t)) k (- 1)) q)
      (pending_by_sender (ctrl t)), batches_since_flush := batches_since_flush (ctrl t) + 1\<rparr>"
    using n by (auto simp: note_processed_def Let_def)
  have "dict_get (pending_by_sender (ctrl t)) k (- 1) < q"
    using inv new q by (auto simp: dict_get_def emit_inv_def dict_seen_def split: option.splits)
  then have mx: "max (dict_get (pending_by_sender (ctrl t)) k (- 1)) q = q" by simp
  have ds: "dict_seen (seen @ [(k, q)]) (pending_by_sender c')"
    using inv unfolding c' mx by (auto simp: emit_inv_def dict_seen_def)
  have ms: "marks_sound (seen @ [(k, q)]) (made @ replicate m (k, q)) (delivered t) c'"
    unfolding marks_sound_def
  proof (intro allI impI)
    fix k' q' assume "map_of (forwarded_to c') k' = Some q'"
    then have "(k', q') \<in> set seen" "covered k' q' (delivered t) = covered k' q' made"
      using inv by (auto simp: emit_inv_def marks_sound_def c')
    with covered_new [OF _ new] show "(k', q') \<in> set (seen @ [(k, q)]) \<and>
        covered k' q' (delivered t) = covered k' q' (made @ replicate m (k, q))" by simp
  qed
  have "markers_sound (made @ replicate m (k, q)) (delivered t) (emit_queue t)"
    using markers_sound_new [OF _ _ new] inv by (simp add: emit_inv_def)
  moreover have "markers_seen (seen @ [(k, q)]) (emit_queue t)"
    by (rule markers_seen_mono [of seen]) (use inv in \<open>auto simp: emit_inv_def\<close>)
  moreover have "wf_dict (pending_by_sender c')" "wm_mode c' = wm_mode (ctrl t)"
    using inv by (simp_all add: c' emit_inv_def)
  moreover have "task_outputs (t\<lparr>held := held t @ replicate m (k, q), ctrl := c'\<rparr>) = made @ replicate m (k, q)"
    using inv by (auto simp: emit_inv_def task_outputs_def)
  moreover have "set (made @ replicate m (k, q)) \<subseteq> set (seen @ [(k, q)])"
    "\<forall>(k, q) \<in> set (seen @ [(k, q)]). 0 \<le> q" using inv q by (auto simp: emit_inv_def)
  ultimately show ?thesis using inv ds ms by (simp add: emit_inv_def)
qed

lemma emit_loop_step_inv:
  assumes inv: "emit_inv seen made t" and e: "emit_loop_step t = Some t'"
  shows "emit_inv seen made t'"
proof (cases "emit_queue t")
  case Nil
  with e show ?thesis by (simp add: emit_loop_step_def)
next
  case (Cons x rest)
  show ?thesis
  proof (cases x)
    case (Commands os)
    with e Cons have t': "t' = t\<lparr>emit_queue := rest, delivered := delivered t @ os\<rparr>"
      by (simp add: emit_loop_step_def)
    have "marks_sound seen made (delivered t @ os) (ctrl t)"
      by (rule marks_sound_grow) (use inv Cons Commands in \<open>auto simp: emit_inv_def task_outputs_def\<close>)
    moreover have "task_outputs t' = task_outputs t" using t' Cons Commands by (simp add: task_outputs_def)
    ultimately show ?thesis using inv Cons Commands t' by (simp add: emit_inv_def)
  next
    case (WatermarkMarker k q)
    with e Cons have t': "t' = t\<lparr>emit_queue := rest, ctrl := apply_forwarded k q (ctrl t)\<rparr>"
      by (simp add: emit_loop_step_def)
    have "marks_sound seen made (delivered t) (apply_forwarded k q (ctrl t))"
      by (rule apply_forwarded_sound) (use inv Cons WatermarkMarker in \<open>auto simp: emit_inv_def\<close>)
    moreover have "task_outputs t' = task_outputs t" using t' Cons WatermarkMarker by (simp add: task_outputs_def)
    ultimately show ?thesis using inv Cons WatermarkMarker t' by (simp add: emit_inv_def)
  qed
qed

lemma emit_run_inv:
  "emit_run seen made adv t \<Longrightarrow> emit_inv seen made t"
proof (induction rule: emit_run.induct)
  case (start m n c)
  then show ?case
    by (auto simp: emit_inv_def task_outputs_def make_controller_def marks_sound_def dict_seen_def split: if_splits)
next
  case (process seen made adv t q k due c' m)
  then show ?case by (intro process_inv) auto
next
  case (detach seen made adv t xs ys)
  then show ?case by (simp add: detach_inv)
next
  case (written seen made adv t xs ys)
  then show ?case by (simp add: written_inv)
next
  case (drained seen made adv t)
  then show ?case by (simp add: drain_pending_inv)
next
  case (emitted seen made adv t t')
  then show ?case by (metis emit_loop_step_inv)
next
  case (begin_none seen made t c')
  then have c': "c' = (ctrl t)\<lparr>batches_since_flush := 0\<rparr>" by (auto simp: advance_begin_def split: if_splits)
  from begin_none show ?case by (simp add: emit_inv_def task_outputs_def c' marks_sound_def)
next
  case (begin_some seen made t pending c')
  then have c': "c' = ctrl t" "pending = pending_by_sender (ctrl t)" "wm_mode (ctrl t) \<noteq> DISABLED"
    by (auto simp: advance_begin_def split: if_splits)
  with do_advance_inv [OF begin_some(3)] show ?case by simp
next
  case (finish seen made pending t)
  let ?c = "advance_finish pending (ctrl t)"
  have d: "dict_seen seen (pending_by_sender (ctrl t))" using finish(2) by (simp add: emit_inv_def)
  have "dict_seen seen (pending_by_sender ?c)"
    unfolding dict_seen_def
  proof (intro allI impI)
    fix k q assume "map_of (pending_by_sender ?c) k = Some q"
    then have "map_of (pending_by_sender (ctrl t)) k = Some q"
      using fold_delete_sub [of pending "pending_by_sender (ctrl t)" k q] by (simp add: advance_finish_def)
    with d show "(k, q) \<in> set seen" by (simp add: dict_seen_def)
  qed
  moreover have "wf_dict (pending_by_sender ?c)" "forwarded_to ?c = forwarded_to (ctrl t)"
    "wm_mode ?c = wm_mode (ctrl t)"
    using finish(2) by (simp_all add: advance_finish_def emit_inv_def wf_fold_delete)
  ultimately show ?case using finish(2) by (simp add: emit_inv_def task_outputs_def marks_sound_def)
qed


lemma demo_emit_run:
  "\<exists>c. emit_run [(7::nat, 1)] [(7, 1)] (Some [(7, 1)])
     \<lparr>ctrl = c, held = [], output_pending = [], emit_queue = [], delivered = [(7, 1)]\<rparr> \<and>
     forwarded_to c = [(7, 1)]"
proof -
  let ?c0 = "\<lparr>wm_mode = SINK, flush_interval_batches = 1, forwarded_to = [], pending_by_sender = [],
    batches_since_flush = 0\<rparr> :: nat controller"
  let ?c1 = "?c0\<lparr>pending_by_sender := [(7, 1)], batches_since_flush := 1\<rparr>"
  have 0: "emit_run [] [] None \<lparr>ctrl = ?c0, held = [], output_pending = [], emit_queue = [], delivered = []\<rparr>"
    by (rule emit_run.start [of SINK 1]) (simp add: make_controller_def)
  have "emit_run [(7, 1)] [(7, 1)] None
      \<lparr>ctrl = ?c1, held = [(7, 1)], output_pending = [], emit_queue = [], delivered = []\<rparr>"
    using emit_run.process [OF 0, of 1 7 True ?c1 1] by (simp add: note_processed_def dict_get_def)
  from emit_run.begin_some [OF this, of "[(7, 1)]" ?c1]
  have "emit_run [(7, 1)] [(7, 1)] (Some [(7, 1)])
      \<lparr>ctrl = ?c1\<lparr>forwarded_to := [(7, 1)]\<rparr>, held = [], output_pending = [], emit_queue = [],
       delivered = [(7, 1)]\<rparr>"
    by (simp add: advance_begin_def do_advance_def flush_processing_boundary_def apply_forwarded_def dict_get_def)
  then show ?thesis by fastforce
qed


end
