(* ===== verification/BarrierAlignment.thy ===== *)
theory BarrierAlignment
  imports Messages "HOL-Library.Multiset"
begin

section \<open>Barrier alignment (runtime/coordinator/checkpoint_strategy.py)\<close>

text \<open>
  \<open>_BarrierAligner\<close> decides when an operator has received one copy of a checkpoint barrier on
  every physical input lane. A \<open>Counter\<close> of vertices is a multiset, a Python set is a list
  without duplicates, and an operation that may raise after it changed the aligner returns both
  the outcome and the new aligner. The second part models the strategy that wraps the aligner. Shown:
  an epoch aligns exactly when the last live lane has delivered it, at most once and in increasing
  order of ids; the terminal flag means that all lanes have ended; late and discarded copies are
  ignored.
\<close>

subsection \<open>Lanes\<close>

text \<open>A lane is identified by its delivery channel, or by its sender when there is none.\<close>

datatype lane = VertexLane vertex_id | ChannelLane delivery_channel

definition lane_of :: "vertex_id \<Rightarrow> delivery_channel option \<Rightarrow> lane" where
  "lane_of v ch = (case ch of None \<Rightarrow> VertexLane v | Some c \<Rightarrow> ChannelLane c)"

definition terminal_channel_sender :: "lane \<Rightarrow> vertex_id option" where
  "terminal_channel_sender l =
     (case l of
        VertexLane v \<Rightarrow> Some v
      | ChannelLane c \<Rightarrow> (case sender_vertex c of SenderVertex v \<Rightarrow> Some v | SenderOther _ \<Rightarrow> None))"

definition delivery_lane_coordinates :: "delivery_channel \<Rightarrow> sender_obj \<times> string \<times> int \<times> int" where
  "delivery_lane_coordinates c = (sender_vertex c, sender_task_name c, edge_index c, target_index c)"

abbreviation senders_of :: "lane list \<Rightarrow> vertex_id multiset" where
  "senders_of ls \<equiv> mset (List.map_filter terminal_channel_sender ls)"

subsection \<open>The aligner\<close>

record aligner =
  split_counts :: "(vertex_id, int) dict"
  inflight :: "(int, int) dict"
  input_vertex_ids :: "vertex_id multiset"
  coordinated_inflight :: "(int, vertex_id multiset) dict"
  coordinated_channels :: "(int, lane list) dict"
  last_coordinated_barrier_id :: int
  direct_input_vertex_ids :: "vertex_id multiset option"
  direct_inflight :: "(int, (lane, vertex_id \<times> bool) dict) dict"
  direct_expected :: "(int, vertex_id multiset) dict"
  direct_resolved_through :: int
  terminal_inputs :: "vertex_id multiset"
  terminal_input_channels :: "lane list"
  retired_terminal_input_channels :: "lane list"
  retired_input_channels :: "lane list"
  configured_input_channels :: "lane list option"
  last_aligned_id :: "int option"
  last_alignment_is_terminal :: bool
  eof_from_src :: "(vertex_id option, bool) dict"

definition expected_count :: "aligner \<Rightarrow> vertex_id option \<Rightarrow> int" where
  "expected_count a source = (case source of None \<Rightarrow> 1 | Some v \<Rightarrow> dict_get (split_counts a) v 1)"

definition coordinated_barrier_finalized :: "int \<Rightarrow> aligner \<Rightarrow> bool" where
  "coordinated_barrier_finalized b a \<longleftrightarrow> b \<le> last_coordinated_barrier_id a"

definition is_resolved :: "int \<Rightarrow> aligner \<Rightarrow> bool" where
  "is_resolved b a \<longleftrightarrow> b \<le> direct_resolved_through a"

definition rebuild_terminal_inputs :: "aligner \<Rightarrow> aligner" where
  "rebuild_terminal_inputs a = a\<lparr>terminal_inputs := senders_of (terminal_input_channels a)\<rparr>"

definition retire_replaced_terminal_channel :: "lane \<Rightarrow> aligner \<Rightarrow> aligner" where
  "retire_replaced_terminal_channel l a =
     (case l of
        VertexLane _ \<Rightarrow> a
      | ChannelLane c \<Rightarrow>
          let replaced = filter (\<lambda>t. case t of
                  VertexLane _ \<Rightarrow> False
                | ChannelLane d \<Rightarrow> delivery_lane_coordinates d = delivery_lane_coordinates c \<and>
                                  topology_epoch d \<noteq> topology_epoch c) (terminal_input_channels a)
          in if replaced = [] then a
             else rebuild_terminal_inputs
               (a\<lparr>terminal_input_channels := filter (\<lambda>t. t \<notin> set replaced) (terminal_input_channels a),
                  retired_terminal_input_channels := List.union (retired_terminal_input_channels a) replaced\<rparr>))"

text \<open>Alignment of a coordinated epoch, shared by every source.\<close>

definition receive_coordinated ::
  "barrier \<Rightarrow> vertex_id option \<Rightarrow> delivery_channel option \<Rightarrow> aligner \<Rightarrow> bool result \<times> aligner" where
  "receive_coordinated bar sender ch a =
     (if barrier_id bar \<le> last_coordinated_barrier_id a then (Inr False, a)
      else if input_vertex_ids a = {#} then (Inr True, a\<lparr>last_coordinated_barrier_id := barrier_id bar\<rparr>)
      else case sender of None \<Rightarrow> (Inl ValueError, a) | Some v \<Rightarrow>
        (let l = lane_of v ch in
         if (case ch of None \<Rightarrow> False | Some c \<Rightarrow> sender_vertex c \<noteq> SenderVertex v) then (Inl ValueError, a)
         else if l \<in> set (retired_input_channels a) then (Inr False, a)
         else if (case configured_input_channels a of None \<Rightarrow> False | Some cs \<Rightarrow> l \<notin> set cs)
           then (Inl RuntimeError, a)
         else if v \<notin># input_vertex_ids a then (Inl ValueError, a)
         else
           let channels = dict_get (coordinated_channels a) (barrier_id bar) [];
               a1 = a\<lparr>coordinated_channels := dict_setdefault (barrier_id bar) [] (coordinated_channels a)\<rparr>
           in if l \<in> set channels then (Inr False, a1)
              else
                let seen = add_mset v (dict_get (coordinated_inflight a) (barrier_id bar) {#});
                    a2 = a1\<lparr>coordinated_channels := AList.update (barrier_id bar) (List.insert l channels) (coordinated_channels a1),
                            coordinated_inflight := AList.update (barrier_id bar) seen (coordinated_inflight a1)\<rparr>
                in if \<not> (input_vertex_ids a \<subseteq># seen) then (Inr False, a2)
                   else (Inr True,
                     a2\<lparr>coordinated_inflight := AList.delete (barrier_id bar) (coordinated_inflight a2),
                        coordinated_channels := AList.delete (barrier_id bar) (coordinated_channels a2),
                        last_coordinated_barrier_id := barrier_id bar\<rparr>)))"

definition direct_channel ::
  "barrier \<Rightarrow> vertex_id \<Rightarrow> delivery_channel option \<Rightarrow> aligner \<Rightarrow> lane result" where
  "direct_channel bar v ch a =
     (let multiplicity = (case direct_input_vertex_ids a of
                            None \<Rightarrow> expected_count a (source_id bar)
                          | Some ins \<Rightarrow> int (count ins v))
      in case ch of
           None \<Rightarrow> if multiplicity > 1 then Inl ValueError else Inr (VertexLane v)
         | Some c \<Rightarrow> if sender_vertex c \<noteq> SenderVertex v then Inl ValueError else Inr (ChannelLane c))"

definition direct_alignment_complete ::
  "barrier \<Rightarrow> (lane, vertex_id \<times> bool) dict \<Rightarrow> aligner \<Rightarrow> bool \<times> aligner" where
  "direct_alignment_complete bar seen a =
     (case direct_input_vertex_ids a of
        None \<Rightarrow> (int (length seen) \<ge> expected_count a (source_id bar), a)
      | Some ins \<Rightarrow>
          let a1 = a\<lparr>direct_expected := dict_setdefault (barrier_id bar) (ins - terminal_inputs a) (direct_expected a)\<rparr>;
              expected = dict_get (direct_expected a1) (barrier_id bar) {#};
              observed = mset (map (\<lambda>(_, sender, _). sender) seen)
          in (expected \<subseteq># observed, a1))"

definition complete_direct_alignment ::
  "int \<Rightarrow> (lane, vertex_id \<times> bool) dict \<Rightarrow> aligner \<Rightarrow> aligner" where
  "complete_direct_alignment b seen a =
     (let ended = map fst (filter (\<lambda>(l, _, terminal). terminal \<and> l \<notin> set (terminal_input_channels a)) seen);
          a1 = rebuild_terminal_inputs
            (a\<lparr>direct_inflight := AList.delete b (direct_inflight a),
               direct_expected := AList.delete b (direct_expected a),
               direct_resolved_through := b,
               terminal_input_channels := List.union (terminal_input_channels a) ended,
               retired_terminal_input_channels :=
                 filter (\<lambda>l. l \<notin> set ended) (retired_terminal_input_channels a)\<rparr>)
      in a1\<lparr>last_aligned_id := Some b,
            last_alignment_is_terminal :=
              (case direct_input_vertex_ids a of None \<Rightarrow> False | Some ins \<Rightarrow> ins \<subseteq># terminal_inputs a1)\<rparr>)"

definition receive_direct ::
  "barrier \<Rightarrow> vertex_id \<Rightarrow> delivery_channel option \<Rightarrow> aligner \<Rightarrow> bool result \<times> aligner" where
  "receive_direct bar v ch a =
     (if barrier_id bar \<le> direct_resolved_through a then (Inr False, a)
      else case direct_channel bar v ch a of Inl e \<Rightarrow> (Inl e, a) | Inr l \<Rightarrow>
        if l \<in> set (terminal_input_channels a) \<or> l \<in> set (retired_terminal_input_channels a) \<or>
           l \<in> set (retired_input_channels a) then (Inr False, a)
        else if (case configured_input_channels a of None \<Rightarrow> False | Some cs \<Rightarrow> l \<notin> set cs)
          then (Inl RuntimeError, a)
        else if (case direct_input_vertex_ids a of None \<Rightarrow> False | Some ins \<Rightarrow> v \<notin># ins)
          then (Inl RuntimeError, a)
        else
          let a1 = retire_replaced_terminal_channel l a
          in if direct_inflight a1 \<noteq> [] \<and> map_of (direct_inflight a1) (barrier_id bar) = None
             then (Inl RuntimeError, a1)
             else
               let seen = dict_get (direct_inflight a1) (barrier_id bar) [];
                   a2 = a1\<lparr>direct_inflight := dict_setdefault (barrier_id bar) [] (direct_inflight a1)\<rparr>;
                   incoming = (v, is_end_of_data bar)
               in case map_of seen l of
                    Some previous \<Rightarrow> if previous \<noteq> incoming then (Inl RuntimeError, a2) else (Inr False, a2)
                  | None \<Rightarrow>
                      let seen' = AList.update l incoming seen;
                          a3 = a2\<lparr>direct_inflight := AList.update (barrier_id bar) seen' (direct_inflight a2)\<rparr>;
                          (complete, a4) = direct_alignment_complete bar seen' a3
                      in if \<not> complete then (Inr False, a4)
                         else (Inr True, complete_direct_alignment (barrier_id bar) seen' a4))"

definition receive ::
  "barrier \<Rightarrow> vertex_id option \<Rightarrow> delivery_channel option \<Rightarrow> aligner \<Rightarrow> bool result \<times> aligner" where
  "receive bar sender ch a =
     (if coordinated bar then receive_coordinated bar sender ch a
      else case sender of
        Some v \<Rightarrow> receive_direct bar v ch a
      | None \<Rightarrow>
          let n = dict_get (inflight a) (barrier_id bar) 0 + 1;
              a1 = a\<lparr>inflight := AList.delete (barrier_id bar) (inflight a)\<rparr>
          in if n \<ge> expected_count a (source_id bar) then (Inr True, a1)
             else (Inr False, a1\<lparr>inflight := AList.update (barrier_id bar) n (inflight a1)\<rparr>))"

text \<open>
  Terminal lanes that survive a topology change. Without an inventory, lanes are kept in the order of
  their printed form, the parameter \<open>lane_repr\<close>, up to each sender's multiplicity.
\<close>

fun keep_lanes :: "lane list \<Rightarrow> vertex_id multiset \<Rightarrow> lane list" where
  "keep_lanes [] remaining = []"
| "keep_lanes (l # ls) remaining =
     (case terminal_channel_sender l of
        None \<Rightarrow> keep_lanes ls remaining
      | Some v \<Rightarrow> if count remaining v = 0 then keep_lanes ls remaining
                 else l # keep_lanes ls (remaining - {#v#}))"

definition install_terminal_inputs ::
  "vertex_id multiset \<Rightarrow> lane list \<Rightarrow> lane list \<Rightarrow> lane list option \<Rightarrow> aligner \<Rightarrow> aligner" where
  "install_terminal_inputs ins candidates retained configured a =
     (let a1 = rebuild_terminal_inputs
            (a\<lparr>retired_terminal_input_channels :=
                 filter (\<lambda>l. l \<notin> set retained)
                   (List.union (filter (\<lambda>l. l \<notin> set retained) candidates) (retired_terminal_input_channels a)),
               terminal_input_channels := retained,
               configured_input_channels := configured\<rparr>)
      in a1\<lparr>last_alignment_is_terminal := ins \<noteq> {#} \<and> ins \<subseteq># terminal_inputs a1\<rparr>)"

definition reconfigure_terminal_inputs ::
  "(lane \<Rightarrow> 'o::linorder) \<Rightarrow> vertex_id multiset \<Rightarrow> delivery_channel list option \<Rightarrow> aligner \<Rightarrow> unit result \<times> aligner" where
  "reconfigure_terminal_inputs lane_repr ins chs a =
     (case chs of
        Some cs \<Rightarrow>
          let lanes = map ChannelLane cs
          in if \<not> distinct cs then (Inl ValueError, a)
             else if \<exists>l \<in> set lanes. terminal_channel_sender l = None then (Inl TypeError, a)
             else if senders_of lanes \<noteq> ins then (Inl ValueError, a)
             else
               let dropped = (case configured_input_channels a of None \<Rightarrow> [] | Some old \<Rightarrow> filter (\<lambda>l. l \<notin> set lanes) old);
                   a1 = a\<lparr>retired_input_channels :=
                            filter (\<lambda>l. l \<notin> set lanes) (List.union (retired_input_channels a) dropped)\<rparr>;
                   candidates = List.union (filter (\<lambda>l. l \<in> set lanes) (retired_terminal_input_channels a))
                     (terminal_input_channels a)
               in (Inr (), install_terminal_inputs ins candidates (filter (\<lambda>l. l \<in> set lanes) candidates) (Some lanes) a1)
      | None \<Rightarrow>
          (Inr (), install_terminal_inputs ins (terminal_input_channels a)
            (keep_lanes (sort_key lane_repr (terminal_input_channels a)) ins) None
            (a\<lparr>retired_input_channels := []\<rparr>)))"

definition make_aligner ::
  "(lane \<Rightarrow> 'o::linorder) \<Rightarrow> (vertex_id, int) dict \<Rightarrow> vertex_id list option \<Rightarrow>
   delivery_channel list option \<Rightarrow> aligner result" where
  "make_aligner lane_repr splits ins chs =
     (let a = \<lparr>split_counts = splits, inflight = [],
               input_vertex_ids = mset (case ins of None \<Rightarrow> [] | Some vs \<Rightarrow> vs),
               coordinated_inflight = [], coordinated_channels = [], last_coordinated_barrier_id = - 1,
               direct_input_vertex_ids = map_option mset ins, direct_inflight = [], direct_expected = [],
               direct_resolved_through = - 1, terminal_inputs = {#}, terminal_input_channels = [],
               retired_terminal_input_channels = [], retired_input_channels = [],
               configured_input_channels = None, last_aligned_id = None,
               last_alignment_is_terminal = False,
               eof_from_src = map (\<lambda>(v, _). (Some v, False)) splits\<rparr>
      in case chs of
           None \<Rightarrow> Inr a
         | Some cs \<Rightarrow>
             (case ins of
                None \<Rightarrow> Inl ValueError
              | Some vs \<Rightarrow> (case reconfigure_terminal_inputs lane_repr (mset vs) chs a of
                             (Inl e, _) \<Rightarrow> Inl e | (Inr _, a') \<Rightarrow> Inr a')))"

definition receive_eof :: "barrier \<Rightarrow> aligner \<Rightarrow> bool \<times> aligner" where
  "receive_eof bar a =
     (if direct_input_vertex_ids a \<noteq> None \<and> last_aligned_id a = Some (barrier_id bar)
      then (last_alignment_is_terminal a, a)
      else let eof = AList.update (source_id bar) True (eof_from_src a)
           in (list_all snd eof, a\<lparr>eof_from_src := eof\<rparr>))"

definition barrier_to_forward :: "barrier \<Rightarrow> aligner \<Rightarrow> barrier" where
  "barrier_to_forward bar a =
     (if direct_input_vertex_ids a = None \<or> last_aligned_id a \<noteq> Some (barrier_id bar) then bar
      else if last_alignment_is_terminal a = is_end_of_data bar then bar
      else \<lparr>barrier_id = barrier_id bar, source_id = source_id bar, coordinated = False,
            barrier_timestamp = barrier_timestamp bar, is_end_of_data = last_alignment_is_terminal a\<rparr>)"

definition drop_through :: "int \<Rightarrow> (int \<times> 'v) list \<Rightarrow> (int \<times> 'v) list" where
  "drop_through cutoff d = filter (\<lambda>(b, _). \<not> b \<le> cutoff) d"

definition reset_inflight_before :: "int \<Rightarrow> aligner \<Rightarrow> nat \<times> aligner" where
  "reset_inflight_before cutoff a =
     (let stale = filter (\<lambda>b. b \<le> cutoff) (keys (inflight a));
          coord = filter (\<lambda>b. b \<le> cutoff) (keys (coordinated_inflight a));
          direct = filter (\<lambda>b. b \<le> cutoff) (keys (direct_inflight a))
      in (length stale + length coord + length direct,
          a\<lparr>inflight := drop_through cutoff (inflight a),
            coordinated_inflight := drop_through cutoff (coordinated_inflight a),
            coordinated_channels := filter (\<lambda>(b, _). b \<notin> set coord) (coordinated_channels a),
            last_coordinated_barrier_id := max (last_coordinated_barrier_id a) cutoff,
            direct_inflight := drop_through cutoff (direct_inflight a),
            direct_expected := filter (\<lambda>(b, _). b \<notin> set direct) (direct_expected a),
            direct_resolved_through := max (direct_resolved_through a) cutoff\<rparr>))"

definition present :: "'k \<Rightarrow> ('k, 'v) dict \<Rightarrow> nat" where
  "present k d = (if map_of d k = None then 0 else 1)"

definition discard :: "int \<Rightarrow> aligner \<Rightarrow> nat \<times> aligner" where
  "discard b a =
     (present b (inflight a) + present b (coordinated_inflight a) + present b (direct_inflight a),
      a\<lparr>inflight := AList.delete b (inflight a),
        coordinated_inflight := AList.delete b (coordinated_inflight a),
        coordinated_channels := AList.delete b (coordinated_channels a),
        last_coordinated_barrier_id := max (last_coordinated_barrier_id a) b,
        direct_inflight := AList.delete b (direct_inflight a),
        direct_expected := AList.delete b (direct_expected a),
        direct_resolved_through := max (direct_resolved_through a) b\<rparr>)"

definition abort :: "int \<Rightarrow> aligner \<Rightarrow> bool \<times> aligner" where
  "abort b a = (let (n, a') = discard b a in (n \<noteq> 0, a'))"

definition validate_reconfiguration :: "aligner \<Rightarrow> unit result" where
  "validate_reconfiguration a =
     (if inflight a \<noteq> [] \<or> coordinated_inflight a \<noteq> [] \<or> direct_inflight a \<noteq> [] then Inl RuntimeError
      else Inr ())"

definition reconfigure_inputs ::
  "(lane \<Rightarrow> 'o::linorder) \<Rightarrow> vertex_id list \<Rightarrow> delivery_channel list option \<Rightarrow> aligner \<Rightarrow> unit result \<times> aligner" where
  "reconfigure_inputs lane_repr vs chs a =
     (case validate_reconfiguration a of
        Inl e \<Rightarrow> (Inl e, a)
      | Inr _ \<Rightarrow> reconfigure_terminal_inputs lane_repr (mset vs) chs
                 (a\<lparr>input_vertex_ids := mset vs, direct_input_vertex_ids := Some (mset vs)\<rparr>))"

definition reconfigure ::
  "(lane \<Rightarrow> 'o::linorder) \<Rightarrow> (vertex_id, int) dict \<Rightarrow> vertex_id list option \<Rightarrow>
   delivery_channel list option \<Rightarrow> aligner \<Rightarrow> unit result \<times> aligner" where
  "reconfigure lane_repr splits ins chs a =
     (case validate_reconfiguration a of
        Inl e \<Rightarrow> (Inl e, a)
      | Inr _ \<Rightarrow>
          let a1 = a\<lparr>split_counts := splits\<rparr>;
              finish = (\<lambda>a. a\<lparr>eof_from_src :=
                map (\<lambda>(v, _). (Some v, dict_get (eof_from_src a) (Some v) False)) splits\<rparr>)
          in case ins of
               Some vs \<Rightarrow>
                 (case reconfigure_terminal_inputs lane_repr (mset vs) chs
                    (a1\<lparr>input_vertex_ids := mset vs, direct_input_vertex_ids := Some (mset vs)\<rparr>) of
                    (Inl e, a2) \<Rightarrow> (Inl e, a2)
                  | (Inr _, a2) \<Rightarrow> (Inr (), finish a2))
             | None \<Rightarrow> (case chs of Some _ \<Rightarrow> (Inl ValueError, a1) | None \<Rightarrow> (Inr (), finish a1)))"

subsection \<open>The strategy around the aligner\<close>

text \<open>
  \<open>AlignedCheckpointStrategy.on_barrier_received\<close>: what it does when a barrier aligns, as a
  list of effects in order. \<open>now\<close> is the monotonic clock; the coordinator client's
  re-sending of unconfirmed notifications is not part of this state.
\<close>

datatype strategy_effect = RunAlignedCallback | NotifyComplete int | FlushPendingNotifies

record strategy =
  strategy_aligner :: aligner
  is_committer :: bool
  alignment_started_at :: "((int \<times> vertex_id option), rat) dict"
  last_alignment_duration_ms :: rat

definition on_barrier_received ::
  "rat \<Rightarrow> rat \<Rightarrow> barrier \<Rightarrow> vertex_id option \<Rightarrow> delivery_channel option \<Rightarrow> strategy \<Rightarrow>
   bool result \<times> strategy_effect list \<times> strategy" where
  "on_barrier_received now later bar sender ch s =
     (let key = (barrier_id bar, if coordinated bar \<or> sender \<noteq> None then None else source_id bar)
      in if \<not> coordinated bar \<and> sender \<noteq> None \<and> is_resolved (barrier_id bar) (strategy_aligner s)
         then (Inr False, [], s)
         else
           let s1 = s\<lparr>alignment_started_at := dict_setdefault key now (alignment_started_at s)\<rparr>;
               (r, a) = receive bar sender ch (strategy_aligner s1);
               s2 = s1\<lparr>strategy_aligner := a\<rparr>
           in case r of
                Inl e \<Rightarrow> (Inl e, [], s2)
              | Inr False \<Rightarrow>
                  (Inr False, [],
                   if coordinated bar \<and> coordinated_barrier_finalized (barrier_id bar) a
                   then s2\<lparr>alignment_started_at := AList.delete key (alignment_started_at s2)\<rparr> else s2)
              | Inr True \<Rightarrow>
                  (Inr True,
                   RunAlignedCallback #
                     (if is_committer s2
                      then NotifyComplete (barrier_id bar) #
                           (if last_alignment_is_terminal a \<or> is_end_of_data bar then [FlushPendingNotifies] else [])
                      else []),
                   s2\<lparr>alignment_started_at := AList.delete key (alignment_started_at s2),
                      last_alignment_duration_ms :=
                        max 0 ((later - dict_get (alignment_started_at s2) key now) * 1000)\<rparr>))"

definition strategy_reset_inflight_before :: "int \<Rightarrow> strategy \<Rightarrow> nat \<times> strategy" where
  "strategy_reset_inflight_before cutoff s =
     (let (n, a) = reset_inflight_before cutoff (strategy_aligner s)
      in (n, s\<lparr>strategy_aligner := a,
               alignment_started_at := filter (\<lambda>(k, _). \<not> fst k \<le> cutoff) (alignment_started_at s)\<rparr>))"

definition strategy_discard_checkpoint :: "int \<Rightarrow> strategy \<Rightarrow> nat \<times> strategy" where
  "strategy_discard_checkpoint b s =
     (let (n, a) = discard b (strategy_aligner s)
      in (n, s\<lparr>strategy_aligner := a,
               alignment_started_at := filter (\<lambda>(k, _). fst k \<noteq> b) (alignment_started_at s)\<rparr>))"

subsection \<open>Invariant of a configured aligner\<close>

text \<open>
  An inventory: distinct physical channels with a vertex as sender, no two of them incarnations of
  the same route. The lanes that have not ended are the live ones.
\<close>

definition lane_coordinates :: "lane \<Rightarrow> (sender_obj \<times> string \<times> int \<times> int) option" where
  "lane_coordinates l = (case l of VertexLane _ \<Rightarrow> None | ChannelLane c \<Rightarrow> Some (delivery_lane_coordinates c))"

definition inventory :: "lane list \<Rightarrow> bool" where
  "inventory ls \<longleftrightarrow>
     distinct (map lane_coordinates ls) \<and>
     list_all (\<lambda>l. case l of VertexLane _ \<Rightarrow> False | ChannelLane c \<Rightarrow> terminal_channel_sender l \<noteq> None) ls"

definition live :: "lane list \<Rightarrow> aligner \<Rightarrow> lane list" where
  "live ls a = filter (\<lambda>l. l \<notin> set (terminal_input_channels a)) ls"

definition epoch_ok :: "lane list \<Rightarrow> aligner \<Rightarrow> int \<Rightarrow> (lane, vertex_id \<times> bool) dict \<Rightarrow> bool" where
  "epoch_ok ls a b seen \<longleftrightarrow>
     direct_resolved_through a < b \<and> wf_dict seen \<and> set (keys seen) \<subset> set (live ls a) \<and>
     list_all (\<lambda>(l, v, k). terminal_channel_sender l = Some v) seen"

definition aligner_inv :: "lane list \<Rightarrow> aligner \<Rightarrow> bool" where
  "aligner_inv ls a \<longleftrightarrow>
     inventory ls \<and> configured_input_channels a = Some ls \<and>
     direct_input_vertex_ids a = Some (senders_of ls) \<and>
     distinct (terminal_input_channels a) \<and> set (terminal_input_channels a) \<subseteq> set ls \<and>
     terminal_inputs a = senders_of (terminal_input_channels a) \<and>
     set (retired_terminal_input_channels a) \<inter> set ls = {} \<and>
     set (retired_input_channels a) \<inter> set ls = {} \<and>
     distinct (retired_terminal_input_channels a) \<and>
     (direct_inflight a = [] \<and> direct_expected a = [] \<or>
      (\<exists>b seen. direct_inflight a = [(b, seen)] \<and> direct_expected a = [(b, senders_of (live ls a))] \<and>
         epoch_ok ls a b seen))"

text \<open>The lanes that have delivered the barrier of an epoch.\<close>

definition delivered_lanes :: "int \<Rightarrow> aligner \<Rightarrow> lane set" where
  "delivered_lanes b a = set (keys (dict_get (direct_inflight a) b []))"

lemma inventory_distinct: "inventory ls \<Longrightarrow> distinct ls"
  using distinct_map by (auto simp: inventory_def)

lemma inventory_sender:
  "inventory ls \<Longrightarrow> l \<in> set ls \<Longrightarrow> \<exists>c v. l = ChannelLane c \<and> sender_vertex c = SenderVertex v"
  by (cases l; cases "case l of ChannelLane c \<Rightarrow> sender_vertex c")
    (force simp: inventory_def list_all_iff terminal_channel_sender_def)+

lemma size_senders_of:
  "\<forall>l \<in> set ls. terminal_channel_sender l \<noteq> None \<Longrightarrow>
   length (List.map_filter terminal_channel_sender ls) = length ls"
  by (induction ls) (auto simp: map_filter_def)

lemma senders_of_simps [simp]:
  "senders_of [] = {#}"
  "senders_of (l # ls) = (case terminal_channel_sender l of None \<Rightarrow> {#} | Some v \<Rightarrow> {#v#}) + senders_of ls"
  by (auto simp: map_filter_def split: option.splits)

lemma senders_of_perm: "mset xs = mset ys \<Longrightarrow> senders_of xs = senders_of ys"
proof -
  assume m: "mset xs = mset ys"
  have "senders_of zs = image_mset (\<lambda>l. the (terminal_channel_sender l))
      (filter_mset (\<lambda>l. terminal_channel_sender l \<noteq> None) (mset zs))" for zs
    by (induction zs) (auto split: option.splits)
  then show ?thesis using m by metis
qed

text \<open>Counting senders is exact: among a set of lanes, only all of them make up the expected counter.\<close>

lemma senders_complete_iff:
  assumes "distinct xs" "distinct ys" "set xs \<subseteq> set ys" "\<forall>l \<in> set ys. terminal_channel_sender l \<noteq> None"
  shows "senders_of ys \<subseteq># senders_of xs \<longleftrightarrow> set xs = set ys"
proof
  assume "senders_of ys \<subseteq># senders_of xs"
  then have "size (senders_of ys) \<le> size (senders_of xs)" by (rule size_mset_mono)
  moreover have "length (List.map_filter terminal_channel_sender xs) = length xs"
    by (rule size_senders_of) (use assms in blast)
  ultimately have "length ys \<le> length xs" using size_senders_of [OF assms(4)] by simp
  then have "card (set ys) \<le> card (set xs)" using assms by (simp add: distinct_card)
  with assms(3) show "set xs = set ys" by (simp add: card_seteq)
next
  assume "set xs = set ys"
  then have "mset xs = mset ys" using assms by (simp add: set_eq_iff_mset_eq_distinct)
  then show "senders_of ys \<subseteq># senders_of xs" using senders_of_perm by (metis subset_mset.order_refl)
qed

lemma senders_of_append [simp]: "senders_of (xs @ ys) = senders_of xs + senders_of ys"
  by (induction xs) (auto split: option.splits)

lemma senders_of_live:
  assumes "distinct ls" "distinct ts" "set ts \<subseteq> set ls"
  shows "senders_of ls - senders_of ts = senders_of (filter (\<lambda>l. l \<notin> set ts) ls)"
proof -
  have "mset ls = mset (ts @ filter (\<lambda>l. l \<notin> set ts) ls)"
    using assms by (intro iffD1 [OF set_eq_iff_mset_eq_distinct]) auto
  from senders_of_perm [OF this] show ?thesis by (simp only: senders_of_append add_diff_cancel_left')
qed

lemma live_distinct: "distinct ls \<Longrightarrow> distinct (live ls a)"
  by (simp add: live_def)

lemma expected_is_live:
  "aligner_inv ls a \<Longrightarrow> senders_of ls - terminal_inputs a = senders_of (live ls a)"
  by (simp add: aligner_inv_def live_def senders_of_live inventory_distinct)

lemma lane_coordinates_inj:
  "inventory ls \<Longrightarrow> l \<in> set ls \<Longrightarrow> l' \<in> set ls \<Longrightarrow> lane_coordinates l = lane_coordinates l' \<Longrightarrow> l = l'"
  by (auto simp: inventory_def distinct_map dest: inj_onD)

lemma retire_replaced_noop:
  assumes "inventory ls" "set (terminal_input_channels a) \<subseteq> set ls" "l \<in> set ls"
  shows "retire_replaced_terminal_channel l a = a"
proof (cases l)
  case (ChannelLane c)
  have "d = c" if "ChannelLane d \<in> set (terminal_input_channels a)"
    "delivery_lane_coordinates d = delivery_lane_coordinates c" for d
  proof -
    have "ChannelLane d = ChannelLane c"
      by (rule lane_coordinates_inj [of ls])
        (use assms that ChannelLane in \<open>auto simp: lane_coordinates_def\<close>)
    then show ?thesis by simp
  qed
  then have "filter (\<lambda>t. case t of VertexLane _ \<Rightarrow> False
      | ChannelLane d \<Rightarrow> delivery_lane_coordinates d = delivery_lane_coordinates c \<and>
          topology_epoch d \<noteq> topology_epoch c) (terminal_input_channels a) = []"
    by (auto simp: filter_empty_conv split: lane.splits)
  then show ?thesis using ChannelLane by (simp add: retire_replaced_terminal_channel_def Let_def)
qed (simp add: retire_replaced_terminal_channel_def)

text \<open>What an epoch knows while it aligns, and the counters it compares.\<close>

lemma observed_senders:
  "list_all (\<lambda>(l, v, k). terminal_channel_sender l = Some v) seen \<Longrightarrow>
   mset (map (\<lambda>(_, v, _). v) seen) = senders_of (keys seen)"
  by (induction seen) auto

lemma complete_iff:
  assumes "inventory ls" "wf_dict seen" "set (keys seen) \<subseteq> set (live ls a)"
    "list_all (\<lambda>(l, v, k). terminal_channel_sender l = Some v) seen"
  shows "senders_of (live ls a) \<subseteq># mset (map (\<lambda>(_, v, _). v) seen) \<longleftrightarrow> set (keys seen) = set (live ls a)"
proof -
  have "\<forall>l \<in> set (live ls a). terminal_channel_sender l \<noteq> None"
    using inventory_sender [OF assms(1)] by (fastforce simp: live_def terminal_channel_sender_def)
  then show ?thesis
    unfolding observed_senders [OF assms(4)]
    by (rule senders_complete_iff [OF assms(2) live_distinct [OF inventory_distinct [OF assms(1)]] assms(3)])
qed

lemma terminal_iff_all_ended:
  assumes "inventory ls" "distinct ts" "set ts \<subseteq> set ls"
  shows "senders_of ls \<subseteq># senders_of ts \<longleftrightarrow> set ts = set ls"
proof -
  have "\<forall>l \<in> set ls. terminal_channel_sender l \<noteq> None"
    using inventory_sender [OF assms(1)] by (fastforce simp: terminal_channel_sender_def)
  then show ?thesis by (rule senders_complete_iff [OF assms(2) inventory_distinct [OF assms(1)] assms(3)])
qed

text \<open>The three outcomes of a barrier that arrives on a live lane of the current epoch.\<close>

lemma receive_direct_on_lane:
  fixes a :: aligner and ls :: "lane list" and c :: delivery_channel and bar :: barrier
  assumes inv: "aligner_inv ls a" and l: "ChannelLane c \<in> set (live ls a)" "sender_vertex c = SenderVertex v"
    and b: "direct_resolved_through a < barrier_id bar"
    and epoch: "direct_inflight a = [] \<or> map_of (direct_inflight a) (barrier_id bar) \<noteq> None"
  defines "seen \<equiv> dict_get (direct_inflight a) (barrier_id bar) []"
  defines "seen' \<equiv> AList.update (ChannelLane c) (v, is_end_of_data bar) seen"
  defines "a1 \<equiv> a\<lparr>direct_inflight := [(barrier_id bar, seen')],
    direct_expected := [(barrier_id bar, senders_of (live ls a))]\<rparr>"
  shows "receive_direct bar v (Some c) a =
    (case map_of seen (ChannelLane c) of
       Some previous \<Rightarrow> (if previous = (v, is_end_of_data bar) then Inr False else Inl RuntimeError, a)
     | None \<Rightarrow> if set (keys seen') = set (live ls a)
         then (Inr True, complete_direct_alignment (barrier_id bar) seen' a1)
         else (Inr False, a1))"
proof -
  let ?l = "ChannelLane c" and ?b = "barrier_id bar"
  have invs: "inventory ls" "set (terminal_input_channels a) \<subseteq> set ls" using inv by (simp_all add: aligner_inv_def)
  have mem: "?l \<in> set ls" "?l \<notin> set (terminal_input_channels a)" using l by (auto simp: live_def)
  have v: "terminal_channel_sender ?l = Some v" using l(2) by (simp add: terminal_channel_sender_def)
  have vin: "v \<in># senders_of ls"
    using mem(1) v by (force simp: map_filter_def)
  have notin: "?l \<notin> set (retired_terminal_input_channels a)" "?l \<notin> set (retired_input_channels a)"
    using inv mem by (auto simp: aligner_inv_def)
  have cfg: "configured_input_channels a = Some ls" "direct_input_vertex_ids a = Some (senders_of ls)"
    using inv by (simp_all add: aligner_inv_def)
  have seen_ok: "wf_dict seen \<and> set (keys seen) \<subseteq> set (live ls a) \<and>
      list_all (\<lambda>(l, v, k). terminal_channel_sender l = Some v) seen"
    using inv epoch unfolding aligner_inv_def seen_def dict_get_def epoch_ok_def
    by (auto split: if_splits dest!: psubset_imp_subset simp del: set_map)
  have single: "AList.update ?b x (dict_setdefault ?b [] (direct_inflight a)) = [(?b, x)]"
    "dict_setdefault ?b [] (direct_inflight a) = (if direct_inflight a = [] then [(?b, [])] else direct_inflight a)"
    "dict_setdefault ?b (senders_of (live ls a)) (direct_expected a) = [(?b, senders_of (live ls a))]" for x
    using inv epoch by (auto simp: aligner_inv_def dict_setdefault_def split: if_splits)
  show ?thesis
  proof (cases "map_of seen ?l")
    case (Some previous)
    then have "direct_inflight a \<noteq> []" by (auto simp: seen_def dict_get_def)
    then have "a\<lparr>direct_inflight := dict_setdefault ?b [] (direct_inflight a)\<rparr> = a" using single(2) by simp
    with Some b l cfg mem notin vin epoch inv show ?thesis
      by (auto simp: receive_direct_def direct_channel_def retire_replaced_noop [OF invs mem(1)] Let_def
          seen_def [symmetric])
  next
    case None
    have seen': "wf_dict seen'" "set (keys seen') \<subseteq> set (live ls a)"
      "list_all (\<lambda>(l, v, k). terminal_channel_sender l = Some v) seen'"
      using None seen_ok l(1) v
      by (auto simp: seen'_def update_append_new map_of_eq_None_iff)
    have e: "dict_setdefault ?b (senders_of ls - terminal_inputs a) (direct_expected a) =
        [(?b, senders_of (live ls a))]"
      using single(3) by (simp only: expected_is_live [OF inv])
    have inv': "inventory ls" using inv by (simp add: aligner_inv_def)
    have complete: "direct_alignment_complete bar seen' (a\<lparr>direct_inflight := [(?b, seen')]\<rparr>) =
        (set (keys seen') = set (live ls a), a1)"
      unfolding direct_alignment_complete_def Let_def a1_def
      by (simp add: cfg(2) e dict_get_def complete_iff [OF inv' seen'] del: mset_map set_map)
    have not_raised: "\<not> (direct_inflight a \<noteq> [] \<and> map_of (direct_inflight a) ?b = None)" using epoch by auto
    show ?thesis
      unfolding receive_direct_def direct_channel_def
      using None b l cfg mem notin vin not_raised complete
      by (simp add: retire_replaced_noop [OF invs mem(1)] Let_def seen_def [symmetric] single(1)
          seen'_def [symmetric])
  qed
qed

definition ended_lanes :: "(lane, vertex_id \<times> bool) dict \<Rightarrow> lane set" where
  "ended_lanes seen = {l. \<exists>v. map_of seen l = Some (v, True)}"

lemma complete_direct_alignment_inv:
  assumes inv: "aligner_inv ls a" and wf: "wf_dict seen" and sub: "set (keys seen) \<subseteq> set (live ls a)"
    and a1: "a1 = a\<lparr>direct_inflight := [(b, seen)], direct_expected := [(b, x)]\<rparr>"
  defines "a' \<equiv> complete_direct_alignment b seen a1"
  shows "aligner_inv ls a' \<and> direct_inflight a' = [] \<and> direct_resolved_through a' = b \<and>
    last_aligned_id a' = Some b \<and>
    set (terminal_input_channels a') = set (terminal_input_channels a) \<union> ended_lanes seen \<and>
    (last_alignment_is_terminal a' \<longleftrightarrow> set (terminal_input_channels a') = set ls)"
proof -
  define ended where "ended = map fst (filter (\<lambda>(l, _, t). t \<and> l \<notin> set (terminal_input_channels a)) seen)"
  define ts where "ts = List.union (terminal_input_channels a) ended"
  have d: "distinct (terminal_input_channels a)" "set (terminal_input_channels a) \<subseteq> set ls" "inventory ls"
    and cfg: "direct_input_vertex_ids a = Some (senders_of ls)"
    using inv by (simp_all add: aligner_inv_def)
  have "set ended \<subseteq> set (keys seen)" by (auto simp: ended_def)
  then have ended_sub: "set ended \<subseteq> set ls" using sub by (auto simp: live_def)
  have ended_set: "set ended = ended_lanes seen"
  proof (rule set_eqI)
    fix l
    have "l \<in> set ended \<longleftrightarrow> (\<exists>v. (l, v, True) \<in> set seen) \<and> l \<notin> set (terminal_input_channels a)"
      by (force simp: ended_def)
    moreover have "(l, v, True) \<in> set seen \<Longrightarrow> l \<notin> set (terminal_input_channels a)" for v
      using sub by (force simp: live_def)
    ultimately show "l \<in> set ended \<longleftrightarrow> l \<in> ended_lanes seen"
      by (auto simp: ended_lanes_def wf_dict_mem_iff [OF wf])
  qed
  have ts: "distinct ts" "set ts \<subseteq> set ls" "set ts = set (terminal_input_channels a) \<union> ended_lanes seen"
    using d ended_sub ended_set distinct_map_filter [OF wf] by (auto simp: ts_def ended_def)
  have a': "a' = a\<lparr>direct_inflight := [], direct_expected := [], direct_resolved_through := b,
      terminal_input_channels := ts, retired_terminal_input_channels :=
        filter (\<lambda>l. l \<notin> set ended) (retired_terminal_input_channels a),
      terminal_inputs := senders_of ts, last_aligned_id := Some b,
      last_alignment_is_terminal := senders_of ls \<subseteq># senders_of ts\<rparr>"
    by (simp add: a'_def a1 complete_direct_alignment_def Let_def rebuild_terminal_inputs_def
        ended_def [symmetric] ts_def [symmetric] cfg)
  have "aligner_inv ls a'" using inv ts by (auto simp: a' aligner_inv_def)
  then show ?thesis using ts terminal_iff_all_ended [OF d(3) ts(1,2)] by (simp add: a')
qed

lemma partial_epoch_inv:
  assumes inv: "aligner_inv ls a" and b: "direct_resolved_through a < b"
    and seen: "wf_dict seen" "set (keys seen) \<subset> set (live ls a)"
      "list_all (\<lambda>(l, v, k). terminal_channel_sender l = Some v) seen"
  shows "aligner_inv ls (a\<lparr>direct_inflight := [(b, seen)], direct_expected := [(b, senders_of (live ls a))]\<rparr>)"
proof -
  have live: "live ls (a\<lparr>direct_inflight := [(b, seen)], direct_expected := [(b, x)]\<rparr>) = live ls a" for x
    by (simp add: live_def)
  show ?thesis using inv b seen unfolding aligner_inv_def epoch_ok_def live by simp
qed

lemma epoch_seen:
  assumes "aligner_inv ls a"
  shows "wf_dict (dict_get (direct_inflight a) b [])"
    and "set (keys (dict_get (direct_inflight a) b [])) \<subseteq> set (live ls a)"
    and "list_all (\<lambda>(l, v, k). terminal_channel_sender l = Some v) (dict_get (direct_inflight a) b [])"
  using assms unfolding aligner_inv_def dict_get_def epoch_ok_def
  by (auto dest!: psubset_imp_subset simp del: set_map split: if_splits)


subsection \<open>Topology changes, discarding and whole runs\<close>

lemma reconfigure_terminal_inputs_inv:
  fixes a :: aligner
  assumes r: "reconfigure_terminal_inputs lane_repr ins (Some cs) a = (Inr (), a')"
    and coords: "distinct (map delivery_lane_coordinates cs)"
    and a: "direct_inflight a = []" "direct_expected a = []" "direct_input_vertex_ids a = Some ins"
      "distinct (terminal_input_channels a)" "distinct (retired_terminal_input_channels a)"
  shows "aligner_inv (map ChannelLane cs) a'"
proof -
  let ?ls = "map ChannelLane cs"
  define cand where "cand = List.union (filter (\<lambda>l. l \<in> set ?ls) (retired_terminal_input_channels a))
    (terminal_input_channels a)"
  define keep where "keep = filter (\<lambda>l. l \<in> set ?ls) cand"
  define gone where "gone = filter (\<lambda>l. l \<notin> set ?ls) (List.union (retired_input_channels a)
    (case configured_input_channels a of None \<Rightarrow> [] | Some old \<Rightarrow> filter (\<lambda>l. l \<notin> set ?ls) old))"
  from r have ok: "distinct cs" "\<forall>l \<in> set ?ls. terminal_channel_sender l \<noteq> None" "senders_of ?ls = ins"
    by (auto simp: reconfigure_terminal_inputs_def Let_def split: if_splits)
  have inv: "inventory ?ls"
    using ok(2) coords distinct_map [of Some "map delivery_lane_coordinates cs"]
    by (auto simp: inventory_def lane_coordinates_def comp_def list_all_iff inj_on_def)
  have no: "\<not> (\<exists>l \<in> set ?ls. terminal_channel_sender l = None)" using ok(2) by blast
  have a': "a' = install_terminal_inputs ins cand keep (Some ?ls) (a\<lparr>retired_input_channels := gone\<rparr>)"
    using r ok(1,3) no unfolding reconfigure_terminal_inputs_def Let_def cand_def keep_def gone_def
    by (simp del: set_map)
  have keep: "distinct keep" "set keep \<subseteq> set ?ls" "set gone \<inter> set ?ls = {}"
    using a(4) by (auto simp: keep_def cand_def gone_def)
  have "l \<in> set keep" if "l \<in> set ?ls" "l \<in> set (retired_terminal_input_channels a) \<or> l \<in> set cand" for l
    using that by (auto simp: keep_def cand_def)
  then have "set (retired_terminal_input_channels a') \<inter> set ?ls = {}"
    by (auto simp: a' install_terminal_inputs_def rebuild_terminal_inputs_def Let_def)
  moreover have "distinct (retired_terminal_input_channels a')"
    using a(5) by (simp add: a' install_terminal_inputs_def rebuild_terminal_inputs_def Let_def)
  ultimately show ?thesis
    using inv ok(3) a keep
    by (simp add: aligner_inv_def a' install_terminal_inputs_def rebuild_terminal_inputs_def Let_def del: set_map)
qed

lemma make_aligner_inv:
  assumes "make_aligner lane_repr splits (Some vs) (Some cs) = Inr a" "distinct (map delivery_lane_coordinates cs)"
  shows "aligner_inv (map ChannelLane cs) a"
proof -
  let ?a0 = "\<lparr>split_counts = splits, inflight = [], input_vertex_ids = mset vs,
     coordinated_inflight = [], coordinated_channels = [], last_coordinated_barrier_id = - 1,
     direct_input_vertex_ids = Some (mset vs), direct_inflight = [], direct_expected = [],
     direct_resolved_through = - 1, terminal_inputs = {#}, terminal_input_channels = [],
     retired_terminal_input_channels = [], retired_input_channels = [],
     configured_input_channels = None, last_aligned_id = None, last_alignment_is_terminal = False,
     eof_from_src = map (\<lambda>(v, _). (Some v, False)) splits\<rparr>"
  have r: "reconfigure_terminal_inputs lane_repr (mset vs) (Some cs) ?a0 = (Inr (), a)"
    using assms(1) by (auto simp: make_aligner_def Let_def split: prod.splits sum.splits)
  show ?thesis by (rule reconfigure_terminal_inputs_inv [OF r assms(2)]) simp_all
qed

lemma drop_through_Cons [simp]:
  "drop_through c [] = []" "drop_through c ((b, x) # d) = (if b \<le> c then [] else [(b, x)]) @ drop_through c d"
  by (simp_all add: drop_through_def)

lemma raise_resolved_inv:
  assumes "aligner_inv ls a" "direct_inflight a' = [] \<and> direct_expected a' = [] \<or>
      direct_inflight a' = direct_inflight a \<and> direct_expected a' = direct_expected a \<and>
      (\<forall>b seen. direct_inflight a = [(b, seen)] \<longrightarrow> direct_resolved_through a' < b)"
    "configured_input_channels a' = configured_input_channels a"
    "direct_input_vertex_ids a' = direct_input_vertex_ids a"
    "terminal_input_channels a' = terminal_input_channels a" "terminal_inputs a' = terminal_inputs a"
    "retired_terminal_input_channels a' = retired_terminal_input_channels a"
    "retired_input_channels a' = retired_input_channels a"
  shows "aligner_inv ls a'"
proof -
  have "live ls a' = live ls a" using assms(5) by (simp add: live_def)
  with assms show ?thesis unfolding aligner_inv_def epoch_ok_def by auto
qed

lemma inflight_cases:
  assumes "aligner_inv ls a"
  obtains "direct_inflight a = []" "direct_expected a = []"
  | b seen where "direct_inflight a = [(b, seen)]" "direct_expected a = [(b, senders_of (live ls a))]"
      "direct_resolved_through a < b"
  using assms by (auto simp: aligner_inv_def epoch_ok_def)

lemma reset_inflight_before_inv:
  assumes "aligner_inv ls a"
  shows "aligner_inv ls (snd (reset_inflight_before c a))"
proof (rule raise_resolved_inv [OF assms])
  show "direct_inflight (snd (reset_inflight_before c a)) = [] \<and> direct_expected (snd (reset_inflight_before c a)) = [] \<or>
    direct_inflight (snd (reset_inflight_before c a)) = direct_inflight a \<and>
    direct_expected (snd (reset_inflight_before c a)) = direct_expected a \<and>
    (\<forall>b seen. direct_inflight a = [(b, seen)] \<longrightarrow> direct_resolved_through (snd (reset_inflight_before c a)) < b)"
    using assms by (cases rule: inflight_cases) (auto simp: reset_inflight_before_def Let_def)
qed (simp_all add: reset_inflight_before_def Let_def)

lemma discard_current_inv:
  assumes "aligner_inv ls a" "\<And>b' seen. direct_inflight a = [(b', seen)] \<Longrightarrow> b \<le> b'"
  shows "aligner_inv ls (snd (discard b a))"
proof (rule raise_resolved_inv [OF assms(1)])
  show "direct_inflight (snd (discard b a)) = [] \<and> direct_expected (snd (discard b a)) = [] \<or>
    direct_inflight (snd (discard b a)) = direct_inflight a \<and>
    direct_expected (snd (discard b a)) = direct_expected a \<and>
    (\<forall>b' seen. direct_inflight a = [(b', seen)] \<longrightarrow> direct_resolved_through (snd (discard b a)) < b')"
    using assms(1)
  proof (cases rule: inflight_cases)
    case (2 b' seen)
    with assms(2) [of b' seen] show ?thesis by (cases "b = b'") (auto simp: discard_def)
  qed (simp add: discard_def)
qed (simp_all add: discard_def)

text \<open>Resolved epochs only move forward, whatever arrives.\<close>

lemma retire_replaced_fields [simp]:
  "direct_resolved_through (retire_replaced_terminal_channel l a) = direct_resolved_through a"
  "last_coordinated_barrier_id (retire_replaced_terminal_channel l a) = last_coordinated_barrier_id a"
  by (auto simp: retire_replaced_terminal_channel_def rebuild_terminal_inputs_def Let_def split: lane.splits)

lemma receive_direct_progress:
  assumes "receive_direct bar v ch a = (r, a')"
  shows "(if r = Inr True then direct_resolved_through a < barrier_id bar \<and> direct_resolved_through a' = barrier_id bar
     else direct_resolved_through a' = direct_resolved_through a) \<and>
    last_coordinated_barrier_id a' = last_coordinated_barrier_id a"
  using assms
  by (auto simp: receive_direct_def direct_alignment_complete_def complete_direct_alignment_def
      rebuild_terminal_inputs_def Let_def split: if_splits sum.splits option.splits)

lemma receive_coordinated_progress:
  assumes "receive_coordinated bar s ch a = (r, a')"
  shows "(if r = Inr True then last_coordinated_barrier_id a < barrier_id bar \<and> last_coordinated_barrier_id a' = barrier_id bar
     else last_coordinated_barrier_id a' = last_coordinated_barrier_id a) \<and>
    direct_resolved_through a' = direct_resolved_through a"
  using assms by (auto simp: receive_coordinated_def Let_def split: if_splits option.splits)

lemma reconfigure_fields:
  "direct_resolved_through (snd (reconfigure_inputs lane_repr vs chs a)) = direct_resolved_through a"
  "last_coordinated_barrier_id (snd (reconfigure_inputs lane_repr vs chs a)) = last_coordinated_barrier_id a"
  by (auto simp: reconfigure_inputs_def validate_reconfiguration_def reconfigure_terminal_inputs_def
      install_terminal_inputs_def rebuild_terminal_inputs_def Let_def split: option.splits)

text \<open>
  The life of an aligner: barriers with a sender (shared epochs or not), resets, discards and input
  changes in any order. The log lists the aligned epochs, marked as shared or not.
\<close>

inductive align_run :: "(bool \<times> int) list \<Rightarrow> aligner \<Rightarrow> bool" where
  start: "make_aligner (\<lambda>_. 0 :: nat) splits ins chs = Inr a \<Longrightarrow> align_run [] a"
| received: "align_run hist a \<Longrightarrow> receive bar (Some v) ch a = (r, a') \<Longrightarrow>
    align_run (if r = Inr True then hist @ [(coordinated bar, barrier_id bar)] else hist) a'"
| was_reset: "align_run hist a \<Longrightarrow> align_run hist (snd (reset_inflight_before c a))"
| discarded: "align_run hist a \<Longrightarrow> align_run hist (snd (discard b a))"
| reconfigured: "align_run hist a \<Longrightarrow> align_run hist (snd (reconfigure_inputs (lane_repr :: lane \<Rightarrow> nat) vs chs a))"

definition epochs :: "bool \<Rightarrow> (bool \<times> int) list \<Rightarrow> int list" where
  "epochs shared hist = map snd (filter (\<lambda>(s, _). s = shared) hist)"

definition high_water :: "bool \<Rightarrow> aligner \<Rightarrow> int" where
  "high_water shared a = (if shared then last_coordinated_barrier_id a else direct_resolved_through a)"

lemma epochs_snoc: "epochs s (hist @ [(s', b)]) = epochs s hist @ (if s' = s then [b] else [])"
  by (simp add: epochs_def)

lemma receive_high_water:
  assumes "receive bar (Some v) ch a = (r, a')"
  shows "(if r = Inr True \<and> s = coordinated bar then high_water s a < barrier_id bar \<and> high_water s a' = barrier_id bar
     else high_water s a' = high_water s a)"
  using assms receive_direct_progress [of bar v ch a r a'] receive_coordinated_progress [of bar "Some v" ch a r a']
  by (cases "coordinated bar"; cases s) (auto simp: receive_def high_water_def split: if_splits)

lemma align_run_epochs:
  assumes "align_run hist a"
  shows "sorted_wrt (<) (epochs s hist) \<and> (\<forall>b \<in> set (epochs s hist). b \<le> high_water s a)"
  using assms
proof (induction rule: align_run.induct)
  case (start splits ins chs a)
  then show ?case by (simp add: epochs_def)
next
  case (received hist a bar v ch r a')
  note h = receive_high_water [OF received(2), of s]
  show ?case
  proof (cases "r = Inr True \<and> s = coordinated bar")
    case True
    with h received(3) show ?thesis by (force simp: epochs_snoc sorted_wrt_append)
  next
    case False
    with h received(3) show ?thesis by (auto simp: epochs_snoc)
  qed
next
  case (was_reset hist a c)
  then show ?case by (force simp: high_water_def reset_inflight_before_def Let_def)
next
  case (discarded hist a b)
  then show ?case by (force simp: high_water_def discard_def)
next
  case (reconfigured hist a lane_repr vs chs)
  then show ?case by (cases s) (simp_all add: high_water_def reconfigure_fields)
qed

text \<open>A two-lane aligner for the examples.\<close>

definition demo_vertex :: "int \<Rightarrow> vertex_id" where
  "demo_vertex i = \<lparr>job_vertex_id = 1, vertex_index = i\<rparr>"

definition demo_channel :: "int \<Rightarrow> delivery_channel" where
  "demo_channel i = \<lparr>sender_vertex = SenderVertex (demo_vertex i), sender_task_name = ''map'', edge_index = 0,
     target_index = 0, topology_epoch = None\<rparr>"

definition demo_barrier :: "int \<Rightarrow> bool \<Rightarrow> barrier" where
  "demo_barrier b eod = \<lparr>barrier_id = b, source_id = None, coordinated = False, barrier_timestamp = 0,
     is_end_of_data = eod\<rparr>"

definition demo_aligner :: aligner where
  "demo_aligner =
     \<lparr>split_counts = [], inflight = [], input_vertex_ids = {#demo_vertex 0, demo_vertex 1#},
      coordinated_inflight = [], coordinated_channels = [], last_coordinated_barrier_id = - 1,
      direct_input_vertex_ids = Some {#demo_vertex 0, demo_vertex 1#}, direct_inflight = [],
      direct_expected = [], direct_resolved_through = - 1, terminal_inputs = {#},
      terminal_input_channels = [], retired_terminal_input_channels = [], retired_input_channels = [],
      configured_input_channels = Some (map (\<lambda>i. ChannelLane (demo_channel i)) [0, 1]),
      last_aligned_id = None, last_alignment_is_terminal = False, eof_from_src = []\<rparr>"

abbreviation demo_lanes :: "lane list" where
  "demo_lanes \<equiv> map ChannelLane [demo_channel 0, demo_channel 1]"

lemma demo_aligner_make:
  "make_aligner (\<lambda>_. 0 :: nat) [] (Some [demo_vertex 0, demo_vertex 1]) (Some [demo_channel 0, demo_channel 1]) =
   Inr demo_aligner"
  by (simp add: make_aligner_def reconfigure_terminal_inputs_def install_terminal_inputs_def
      rebuild_terminal_inputs_def Let_def demo_aligner_def demo_channel_def demo_vertex_def
      terminal_channel_sender_def List.union_def)

lemma demo_aligner_inv: "aligner_inv demo_lanes demo_aligner"
  by (rule make_aligner_inv [OF demo_aligner_make])
    (simp add: delivery_lane_coordinates_def demo_channel_def demo_vertex_def)




text \<open>
  A discarded epoch stays dead: after \<open>discard b\<close> every copy of a barrier with an id up to
  \<open>b\<close> is ignored without any effect, and a repeated discard removes nothing.
\<close>

theorem discarded_epoch_ignored:
  assumes "barrier_id bar \<le> b"
  shows "receive bar (Some v) ch (snd (discard b a)) = (Inr False, snd (discard b a)) \<and>
    fst (discard b (snd (discard b a))) = 0 \<and> fst (abort b (snd (discard b a))) = False"
  using assms
  by (auto simp: receive_def receive_coordinated_def receive_direct_def discard_def abort_def present_def)

theorem discarded_epoch_ignored_witness:
  "receive (demo_barrier 4 True) (Some (demo_vertex 0)) None (snd (discard 5 demo_aligner)) =
   (Inr False, snd (discard 5 demo_aligner))"
  using discarded_epoch_ignored [of "demo_barrier 4 True" 5] by (simp add: demo_barrier_def)

text \<open>
  C36. Discarding an epoch that is newer than the one being aligned does disturb the older one,
  although \<open>discard\<close> is documented to leave concurrent checkpoints alone: from then on the
  remaining copies of the older epoch are ignored, and every barrier of a newer epoch on a live lane
  is refused because the older one never completes.
\<close>

theorem discard_newer_epoch_wedges:
  assumes inv: "aligner_inv ls a" and e: "direct_inflight a = [(e0, seen)]" "e0 < b"
    and l: "ChannelLane c \<in> set (live ls a)" "sender_vertex c = SenderVertex v" and nc: "\<not> coordinated bar"
  shows "receive bar (Some v) (Some c) (snd (discard b a)) =
    (if barrier_id bar \<le> b then (Inr False, snd (discard b a)) else (Inl RuntimeError, snd (discard b a)))"
proof -
  let ?a = "snd (discard b a)" and ?l = "ChannelLane c"
  have d: "direct_inflight ?a = [(e0, seen)]" "direct_resolved_through ?a = b"
    using e inv by (auto simp: discard_def aligner_inv_def epoch_ok_def)
  have same: "terminal_input_channels ?a = terminal_input_channels a"
    "retired_terminal_input_channels ?a = retired_terminal_input_channels a"
    "retired_input_channels ?a = retired_input_channels a"
    "configured_input_channels ?a = Some ls" "direct_input_vertex_ids ?a = Some (senders_of ls)"
    using inv by (simp_all add: discard_def aligner_inv_def)
  have mem: "?l \<in> set ls" "?l \<notin> set (terminal_input_channels a)" "?l \<notin> set (retired_terminal_input_channels a)"
    "?l \<notin> set (retired_input_channels a)" using l inv by (auto simp: live_def aligner_inv_def)
  have v: "v \<in># senders_of ls" using mem(1) l(2) by (force simp: map_filter_def terminal_channel_sender_def)
  have noop: "retire_replaced_terminal_channel ?l ?a = ?a"
    by (rule retire_replaced_noop [of ls]) (use inv same(1) mem(1) in \<open>simp_all add: aligner_inv_def\<close>)
  show ?thesis
    using nc d same mem v l(2) e(2) noop
    by (auto simp: receive_def receive_direct_def direct_channel_def Let_def)
qed

lemma demo_partial_epoch:
  "\<exists>a. aligner_inv demo_lanes a \<and> direct_inflight a = [(5, [(ChannelLane (demo_channel 0), demo_vertex 0, False)])] \<and>
     live demo_lanes a = demo_lanes"
proof -
  let ?a = "demo_aligner\<lparr>direct_inflight := [(5, [(ChannelLane (demo_channel 0), demo_vertex 0, False)])],
    direct_expected := [(5, senders_of demo_lanes)]\<rparr>"
  have live: "live demo_lanes demo_aligner = demo_lanes" by (simp add: live_def demo_aligner_def)
  have "aligner_inv demo_lanes ?a"
  proof (rule partial_epoch_inv [OF demo_aligner_inv, unfolded live])
    show "direct_resolved_through demo_aligner < 5" by (simp add: demo_aligner_def)
  qed (auto simp: demo_channel_def demo_vertex_def terminal_channel_sender_def)
  then show ?thesis using live by (fastforce simp: live_def)
qed

theorem discard_newer_epoch_wedges_witness:
  "\<exists>a. aligner_inv demo_lanes a \<and> keys (direct_inflight a) = [5] \<and>
     fst (receive (demo_barrier 5 False) (Some (demo_vertex 1)) (Some (demo_channel 1)) (snd (discard 7 a))) = Inr False \<and>
     fst (receive (demo_barrier 8 False) (Some (demo_vertex 1)) (Some (demo_channel 1)) (snd (discard 7 a))) = Inl RuntimeError"
proof -
  obtain a where a: "aligner_inv demo_lanes a"
    "direct_inflight a = [(5, [(ChannelLane (demo_channel 0), demo_vertex 0, False)])]"
    "live demo_lanes a = demo_lanes" using demo_partial_epoch by blast
  have s: "sender_vertex (demo_channel 1) = SenderVertex (demo_vertex 1)" by (simp add: demo_channel_def)
  have l: "ChannelLane (demo_channel 1) \<in> set (live demo_lanes a)" using a(3) by simp
  have nc: "\<not> coordinated (demo_barrier b f)" for b f by (simp add: demo_barrier_def)
  from discard_newer_epoch_wedges [OF a(1,2) _ l s nc, of 7] a(1,2) show ?thesis
    by (auto simp: demo_barrier_def)
qed

text \<open>
  Mixed barriers collapse to one kind: when a barrier on a live lane completes an epoch, the
  barrier passed on keeps its id and timestamp and is an end-of-data exactly if all lanes have ended,
  whatever kind the completing copy had, and \<open>receive_eof\<close> agrees with it.
\<close>

theorem forwarded_barrier_kind:
  assumes inv: "aligner_inv ls a" and l: "ChannelLane c \<in> set (live ls a)" "sender_vertex c = SenderVertex v"
    and b: "\<not> coordinated bar" "direct_resolved_through a < barrier_id bar"
    and epoch: "direct_inflight a = [] \<or> map_of (direct_inflight a) (barrier_id bar) \<noteq> None"
    and first: "ChannelLane c \<notin> delivered_lanes (barrier_id bar) a"
    and r: "receive bar (Some v) (Some c) a = (Inr True, a')"
  shows "barrier_id (barrier_to_forward bar a') = barrier_id bar \<and>
    barrier_timestamp (barrier_to_forward bar a') = barrier_timestamp bar \<and>
    (is_end_of_data (barrier_to_forward bar a') \<longleftrightarrow> live ls a' = []) \<and>
    fst (receive_eof bar a') = (live ls a' = [])"
proof -
  let ?seen = "dict_get (direct_inflight a) (barrier_id bar) []"
  let ?seen' = "AList.update (ChannelLane c) (v, is_end_of_data bar) ?seen"
  have new: "map_of ?seen (ChannelLane c) = None"
    using first by (simp add: delivered_lanes_def map_of_eq_None_iff)
  have a': "set (keys ?seen') = set (live ls a)"
    "a' = complete_direct_alignment (barrier_id bar) ?seen' (a\<lparr>direct_inflight := [(barrier_id bar, ?seen')],
      direct_expected := [(barrier_id bar, senders_of (live ls a))]\<rparr>)"
    using r receive_direct_on_lane [OF inv l b(2) epoch] new b(1) by (auto simp: receive_def split: if_splits)
  have wf: "wf_dict ?seen'" using epoch_seen(1) [OF inv] by simp
  have sub: "set (keys ?seen') \<subseteq> set (live ls a)" using a'(1) by (rule equalityD1)
  note fin0 = complete_direct_alignment_inv [OF inv wf sub refl, of "barrier_id bar" "senders_of (live ls a)",
      folded a'(2)]
  then have fin: "aligner_inv ls a'" "last_aligned_id a' = Some (barrier_id bar)"
    "last_alignment_is_terminal a' \<longleftrightarrow> set (terminal_input_channels a') = set ls" by blast+
  have "live ls a' = [] \<longleftrightarrow> set (terminal_input_channels a') = set ls"
    using fin(1) by (auto simp: live_def filter_empty_conv aligner_inv_def)
  moreover have "direct_input_vertex_ids a' = Some (senders_of ls)" using fin(1) by (simp add: aligner_inv_def)
  ultimately show ?thesis using fin(2,3) by (simp add: barrier_to_forward_def receive_eof_def)
qed

theorem forwarded_barrier_kind_witness:
  "\<exists>a a'. aligner_inv demo_lanes a \<and>
     receive (demo_barrier 5 True) (Some (demo_vertex 1)) (Some (demo_channel 1)) a = (Inr True, a') \<and>
     (is_end_of_data (barrier_to_forward (demo_barrier 5 True) a') \<longleftrightarrow> live demo_lanes a' = [])"
proof -
  obtain a where a: "aligner_inv demo_lanes a"
    "direct_inflight a = [(5, [(ChannelLane (demo_channel 0), demo_vertex 0, False)])]"
    "live demo_lanes a = demo_lanes" using demo_partial_epoch by blast
  let ?bar = "demo_barrier 5 True"
  have s: "sender_vertex (demo_channel 1) = SenderVertex (demo_vertex 1)" by (simp add: demo_channel_def)
  have l: "ChannelLane (demo_channel 1) \<in> set (live demo_lanes a)" using a(3) by simp
  have nc: "\<not> coordinated ?bar" by (simp add: demo_barrier_def)
  have b: "direct_resolved_through a < barrier_id ?bar"
    using a(1,2) by (simp add: aligner_inv_def epoch_ok_def demo_barrier_def)
  have e: "direct_inflight a = [] \<or> map_of (direct_inflight a) (barrier_id ?bar) \<noteq> None"
    using a(2) by (simp add: demo_barrier_def)
  have f: "ChannelLane (demo_channel 1) \<notin> delivered_lanes (barrier_id ?bar) a"
    using a(2) by (simp add: delivered_lanes_def dict_get_def demo_barrier_def demo_channel_def demo_vertex_def)
  have "fst (receive ?bar (Some (demo_vertex 1)) (Some (demo_channel 1)) a) = Inr True"
    using receive_direct_on_lane [OF a(1) l s b e] a(2,3) nc
    by (simp add: receive_def dict_get_def demo_barrier_def demo_channel_def demo_vertex_def insert_commute)
  then obtain a' where r: "receive ?bar (Some (demo_vertex 1)) (Some (demo_channel 1)) a = (Inr True, a')"
    by (metis prod.collapse)
  from forwarded_barrier_kind [OF a(1) l s nc b e f r] a(1) r show ?thesis by blast
qed

end
