(* ===== verification/CheckpointEpochs.thy ===== *)
theory CheckpointEpochs
  imports Messages
begin

section \<open>Checkpoint epochs (runtime/coordinator: barrier ids, acknowledgements, triggers)\<close>

text \<open>
  The small state machines the checkpoint coordinator is built from: the generator of barrier ids
  with its reseeding after a restart, the acknowledgement state of one checkpoint, and the trigger
  that decides when a source emits a barrier. Wall-clock readings are arguments. Shown: ids never repeat across restarts, a checkpoint is ready
  exactly when enough distinct committers have acknowledged it, and a source's trigger bounds the
  number of records between barriers.
\<close>

subsection \<open>BarrierIdGenerator\<close>

definition RESEED_STRIDE :: int where
  "RESEED_STRIDE = 1000000"

record barrier_id_generator =
  current_id :: int

definition make_generator :: barrier_id_generator where
  "make_generator = \<lparr>current_id = 0\<rparr>"

definition reseed :: "int \<Rightarrow> barrier_id_generator \<Rightarrow> barrier_id_generator" where
  "reseed high_water g =
     (if high_water > 0 then g\<lparr>current_id := max (current_id g) (high_water + RESEED_STRIDE)\<rparr> else g)"

definition next_id :: "barrier_id_generator \<Rightarrow> int \<times> barrier_id_generator" where
  "next_id g = (current_id g + 1, g\<lparr>current_id := current_id g + 1\<rparr>)"

subsection \<open>Checkpoint\<close>

datatype checkpoint_status = CREATED | IN_PROGRESS | NOTIFYING | COMPLETED | FAILED

definition is_terminal_status :: "checkpoint_status \<Rightarrow> bool" where
  "is_terminal_status s \<longleftrightarrow> s = COMPLETED \<or> s = FAILED"

record checkpoint =
  cp_barrier_id :: int
  required_acknowledgements :: int
  trigger_sources :: "vertex_id list"
  cp_coordinated :: bool
  cp_domain_id :: "string option"
  required_committers :: "vertex_id list"
  acknowledgements :: int
  reason :: string
  triggered_at_ms :: "int option"
  last_acknowledged_at_ms :: "int option"
  completed_at_ms :: "int option"
  status :: checkpoint_status
  acknowledged_by :: "vertex_id list"
  started_sources :: "vertex_id list"
  eof_sources :: "vertex_id list"
  operator_metrics :: "(vertex_id, (string, rat) dict) dict"

definition make_checkpoint ::
  "int \<Rightarrow> int \<Rightarrow> vertex_id list \<Rightarrow> bool \<Rightarrow> string option \<Rightarrow> vertex_id list \<Rightarrow> checkpoint" where
  "make_checkpoint b required sources shared domain committers =
     \<lparr>cp_barrier_id = b, required_acknowledgements = required, trigger_sources = sources,
      cp_coordinated = shared, cp_domain_id = domain, required_committers = committers,
      acknowledgements = 0, reason = '''', triggered_at_ms = None, last_acknowledged_at_ms = None,
      completed_at_ms = None, status = CREATED, acknowledged_by = [], started_sources = [],
      eof_sources = [], operator_metrics = []\<rparr>"

definition mark_complete :: "int \<Rightarrow> checkpoint \<Rightarrow> checkpoint" where
  "mark_complete now c =
     c\<lparr>last_acknowledged_at_ms := Some now, completed_at_ms := Some now, status := COMPLETED\<rparr>"

definition mark_failed :: "int \<Rightarrow> string \<Rightarrow> checkpoint \<Rightarrow> checkpoint" where
  "mark_failed now why c =
     c\<lparr>last_acknowledged_at_ms := Some now, completed_at_ms := Some now, status := FAILED, reason := why\<rparr>"

definition mark_in_progress :: "int \<Rightarrow> checkpoint \<Rightarrow> checkpoint" where
  "mark_in_progress now c = c\<lparr>triggered_at_ms := Some now, status := IN_PROGRESS\<rparr>"

definition mark_notifying :: "checkpoint \<Rightarrow> checkpoint" where
  "mark_notifying c = c\<lparr>status := NOTIFYING\<rparr>"

definition acknowledge_checkpoint :: "int \<Rightarrow> vertex_id \<Rightarrow> checkpoint \<Rightarrow> bool \<times> checkpoint" where
  "acknowledge_checkpoint now v c =
     (if required_committers c \<noteq> [] \<and> v \<notin> set (required_committers c) then (False, c)
      else if v \<in> set (acknowledged_by c) then (status c = NOTIFYING, c)
      else
        let c1 = c\<lparr>acknowledged_by := List.insert v (acknowledged_by c),
                   last_acknowledged_at_ms := Some now,
                   acknowledgements := acknowledgements c + 1\<rparr>;
            c2 = (if required_acknowledgements c1 > 0 \<and> acknowledgements c1 \<ge> required_acknowledgements c1
                  then mark_notifying c1 else c1)
        in (status c2 = NOTIFYING, c2))"

definition mark_source_started :: "vertex_id \<Rightarrow> bool \<Rightarrow> checkpoint \<Rightarrow> bool \<times> checkpoint" where
  "mark_source_started v eof c =
     (if v \<notin> set (trigger_sources c) then (False, c)
      else (True, c\<lparr>started_sources := List.insert v (started_sources c),
                    eof_sources := (if eof then List.insert v (eof_sources c) else eof_sources c)\<rparr>))"

definition record_operator_metrics :: "vertex_id \<Rightarrow> (string, rat) dict \<Rightarrow> checkpoint \<Rightarrow> checkpoint" where
  "record_operator_metrics v m c = c\<lparr>operator_metrics := AList.update v m (operator_metrics c)\<rparr>"

subsection \<open>CheckpointTrigger\<close>

record trigger =
  interval_records :: int
  interval_seconds :: rat
  trigger_counter :: int
  last_trigger :: "rat option"

definition make_trigger :: "pyobj \<Rightarrow> pyobj \<Rightarrow> rat \<Rightarrow> trigger result" where
  "make_trigger records seconds now =
     rbind (as_int records) (\<lambda>n.
     rbind (require (0 \<le> n) ValueError) (\<lambda>_.
     rbind (as_real seconds) (\<lambda>s.
     rbind (require (0 \<le> s) ValueError) (\<lambda>_.
       Inr \<lparr>interval_records = n, interval_seconds = s, trigger_counter = 0, last_trigger = Some now\<rparr>))))"

definition reset_trigger :: "rat \<Rightarrow> trigger \<Rightarrow> trigger" where
  "reset_trigger now t = t\<lparr>trigger_counter := 0, last_trigger := Some now\<rparr>"

definition should_trigger :: "rat \<Rightarrow> bool \<Rightarrow> pyobj \<Rightarrow> trigger \<Rightarrow> (bool \<times> trigger) result" where
  "should_trigger now emitted records t =
     rbind (as_int records) (\<lambda>n.
     rbind (require (0 < n) ValueError) (\<lambda>_.
       let counting = emitted \<and> interval_records t > 0;
           t1 = (if counting then t\<lparr>trigger_counter := trigger_counter t + n\<rparr> else t)
       in if counting \<and> trigger_counter t1 \<ge> interval_records t1 then Inr (True, reset_trigger now t1)
          else if interval_seconds t1 > 0 \<and>
                  now - (case last_trigger t1 of None \<Rightarrow> 0 | Some l \<Rightarrow> l) \<ge> interval_seconds t1
          then Inr (True, reset_trigger now t1)
          else Inr (False, t1)))"

record checkpoint_registration =
  reg_barrier_id :: "int option"
  reg_reason :: string
  reg_coordinated :: bool

definition registration_success :: "int \<Rightarrow> bool \<Rightarrow> checkpoint_registration" where
  "registration_success b shared = \<lparr>reg_barrier_id = Some b, reg_reason = '''', reg_coordinated = shared\<rparr>"

definition registration_skip :: "string \<Rightarrow> checkpoint_registration" where
  "registration_skip why = \<lparr>reg_barrier_id = None, reg_reason = why, reg_coordinated = False\<rparr>"

subsection \<open>Ids across restarts\<close>

text \<open>
  A coordinator allocates ids and now and then persists its current id; after a crash a fresh
  generator is reseeded with the last persisted value. \<open>hist\<close> lists all ids ever allocated and
  \<open>saved\<close> is the persisted mark.
\<close>

inductive id_run :: "int list \<Rightarrow> int \<Rightarrow> barrier_id_generator \<Rightarrow> bool" where
  start: "id_run [] 0 make_generator"
| allocate: "id_run hist saved g \<Longrightarrow> next_id g = (b, g') \<Longrightarrow> id_run (hist @ [b]) saved g'"
| persist: "id_run hist saved g \<Longrightarrow> id_run hist (current_id g) g"
| restart: "id_run hist saved g \<Longrightarrow> 0 < saved \<Longrightarrow> current_id g - saved \<le> RESEED_STRIDE \<Longrightarrow>
    id_run hist saved (reseed saved make_generator)"

lemma id_run_bounds:
  "id_run hist saved g \<Longrightarrow> sorted_wrt (<) hist \<and> (\<forall>b \<in> set hist. 0 < b \<and> b \<le> current_id g) \<and> saved \<le> current_id g \<and> 0 \<le> saved"
proof (induction rule: id_run.induct)
  case (allocate hist saved g b g')
  then show ?case by (fastforce simp: next_id_def sorted_wrt_append)
next
  case (restart hist saved g)
  then show ?case by (fastforce simp: reseed_def make_generator_def RESEED_STRIDE_def)
qed (auto simp: make_generator_def)



subsection \<open>Acknowledgements\<close>

fun acknowledge_all :: "(int \<times> vertex_id) list \<Rightarrow> checkpoint \<Rightarrow> checkpoint" where
  "acknowledge_all [] c = c"
| "acknowledge_all ((now, v) # acks) c = acknowledge_all acks (snd (acknowledge_checkpoint now v c))"

text \<open>The committers whose acknowledgement counts.\<close>

definition counted :: "checkpoint \<Rightarrow> (int \<times> vertex_id) list \<Rightarrow> vertex_id set" where
  "counted c acks = {v \<in> snd ` set acks. required_committers c = [] \<or> v \<in> set (required_committers c)}"

definition ack_inv :: "checkpoint \<Rightarrow> bool" where
  "ack_inv c \<longleftrightarrow>
     distinct (acknowledged_by c) \<and> acknowledgements c = int (length (acknowledged_by c)) \<and>
     status c \<noteq> COMPLETED \<and> status c \<noteq> FAILED \<and>
     (status c = NOTIFYING \<longleftrightarrow>
        0 < required_acknowledgements c \<and> required_acknowledgements c \<le> acknowledgements c)"

lemma acknowledge_step:
  assumes "ack_inv c"
  shows "ack_inv (snd (acknowledge_checkpoint now v c)) \<and>
    set (acknowledged_by (snd (acknowledge_checkpoint now v c))) =
      set (acknowledged_by c) \<union> counted c [(now, v)] \<and>
    required_committers (snd (acknowledge_checkpoint now v c)) = required_committers c \<and>
    required_acknowledgements (snd (acknowledge_checkpoint now v c)) = required_acknowledgements c \<and>
    fst (acknowledge_checkpoint now v c) =
      (counted c [(now, v)] \<noteq> {} \<and> status (snd (acknowledge_checkpoint now v c)) = NOTIFYING)"
  using assms
  by (auto simp: acknowledge_checkpoint_def ack_inv_def counted_def mark_notifying_def Let_def List.insert_def)

lemma counted_cong: "required_committers c' = required_committers c \<Longrightarrow> counted c' acks = counted c acks"
  by (simp add: counted_def)

lemma counted_Cons: "counted c ((now, v) # acks) = counted c [(now, v)] \<union> counted c acks"
  by (auto simp: counted_def)

lemma acknowledge_all_spec:
  assumes "ack_inv c"
  shows "ack_inv (acknowledge_all acks c) \<and>
    set (acknowledged_by (acknowledge_all acks c)) = set (acknowledged_by c) \<union> counted c acks \<and>
    required_acknowledgements (acknowledge_all acks c) = required_acknowledgements c"
  using assms
proof (induction acks c rule: acknowledge_all.induct)
  case (1 c)
  then show ?case by (simp add: counted_def)
next
  case (2 now v acks c)
  let ?c = "snd (acknowledge_checkpoint now v c)"
  note step = acknowledge_step [OF 2(2), of now v]
  then have "counted ?c acks = counted c acks" by (intro counted_cong) simp
  with 2(1) step show ?case using counted_Cons [of c now v acks] by (simp add: Un_assoc)
qed

text \<open>
  A checkpoint becomes ready exactly when enough distinct committers have acknowledged it:
  after any sequence of acknowledgements (repeated, reordered, or from vertices outside its
  committer set, which do not count), the number counted is the number of distinct eligible
  committers, and the checkpoint is in state NOTIFYING exactly if that number has reached the
  positive requirement.
\<close>

theorem acknowledgements_exact:
  fixes b required :: int and sources committers :: "vertex_id list" and shared :: bool
    and domain :: "string option" and acks :: "(int \<times> vertex_id) list"
  defines "c0 \<equiv> make_checkpoint b required sources shared domain committers"
  shows "acknowledgements (acknowledge_all acks c0) =
      int (card {v \<in> snd ` set acks. committers = [] \<or> v \<in> set committers}) \<and>
    (status (acknowledge_all acks c0) = NOTIFYING \<longleftrightarrow>
      0 < required \<and> required \<le> int (card {v \<in> snd ` set acks. committers = [] \<or> v \<in> set committers}))"
proof -
  have inv: "ack_inv c0" by (simp add: c0_def ack_inv_def make_checkpoint_def)
  note spec = acknowledge_all_spec [OF inv, of acks]
  have "set (acknowledged_by (acknowledge_all acks c0)) = {v \<in> snd ` set acks. committers = [] \<or> v \<in> set committers}"
    "required_acknowledgements (acknowledge_all acks c0) = required"
    using spec by (simp_all add: c0_def make_checkpoint_def counted_def)
  then show ?thesis using spec distinct_card by (fastforce simp: ack_inv_def)
qed

subsection \<open>Triggers\<close>

text \<open>
  A source that consults its trigger for every emitted batch of records; the ghost argument is the
  number of records emitted since the last barrier.
\<close>

inductive trigger_run :: "int \<Rightarrow> int \<Rightarrow> trigger \<Rightarrow> bool" for n where
  start: "make_trigger (PInt n) s now = Inr t \<Longrightarrow> trigger_run n 0 t"
| emit: "trigger_run n since t \<Longrightarrow> should_trigger now True (PInt k) t = Inr (fired, t') \<Longrightarrow>
    trigger_run n (if fired then 0 else since + k) t'"
| idle: "trigger_run n since t \<Longrightarrow> should_trigger now False (PInt k) t = Inr (fired, t') \<Longrightarrow>
    trigger_run n (if fired then 0 else since) t'"
| external: "trigger_run n since t \<Longrightarrow> trigger_run n 0 (reset_trigger now t)"

lemma trigger_run_counter:
  assumes "trigger_run n since t" "0 < n"
  shows "interval_records t = n \<and> trigger_counter t = since \<and> since < n"
  using assms
proof (induction rule: trigger_run.induct)
  case (start s now t)
  then show ?case by (auto simp: make_trigger_def result_simps)
next
  case (emit since t now k fired t')
  then show ?case by (auto simp: should_trigger_def reset_trigger_def Let_def result_simps split: if_splits)
next
  case (idle since t now k fired t')
  then show ?case by (auto simp: should_trigger_def reset_trigger_def Let_def result_simps split: if_splits)
next
  case (external since t now)
  then show ?case by (auto simp: reset_trigger_def)
qed

text \<open>
  The record interval bounds recovery work: with a positive record interval, a source that
  consults its trigger after every emission has always emitted fewer records than the interval since
  its last barrier, and the next emission fires the trigger as soon as it reaches the interval; with a
  positive time interval, an idle poll fires once that much time has passed.
\<close>

theorem trigger_bounds_replay:
  assumes "trigger_run n since t" "0 < n" "0 < k"
  shows "since < n \<and>
    (since + k \<ge> n \<longrightarrow> should_trigger now True (PInt k) t = Inr (True, reset_trigger now (t\<lparr>trigger_counter := since + k\<rparr>))) \<and>
    (0 < interval_seconds t \<and> last_trigger t = Some l \<and> interval_seconds t \<le> now - l \<longrightarrow>
      should_trigger now False (PInt k) t = Inr (True, reset_trigger now t))"
  using trigger_run_counter [OF assms(1,2)] assms(2,3)
  by (auto simp: should_trigger_def Let_def)

theorem trigger_bounds_replay_witness:
  "\<exists>t. trigger_run 3 0 t \<and> (\<exists>t'. should_trigger 9 True (PInt 5) t = Inr (True, t'))"
proof -
  have m: "make_trigger (PInt 3) (PInt 0) 1 =
      Inr \<lparr>interval_records = 3, interval_seconds = 0, trigger_counter = 0, last_trigger = Some 1\<rparr>"
    by (simp add: make_trigger_def as_real_def)
  from trigger_bounds_replay [OF trigger_run.start [OF m], of 5 9] trigger_run.start [OF m] show ?thesis by auto
qed

end
