(* ===== verification/StateCodec.thy ===== *)
theory StateCodec
  imports Bytes
begin

section \<open>Physical keys and values of managed state (state/state_codec.py, key_encoding.py)\<close>

text \<open>
  State lives in byte-keyed tables. A state key is three length-prefixed components (state name, key,
  namespace); a value is an 8-byte expiry followed by the payload; expiry and timer keys start with
  a big-endian time stamp so that byte order is time order. The encoders the codec calls (pickle,
  UTF-8, SHA-256) are the fields of a \<open>codec\<close>; keys and namespaces are values up to Python
  equality, which \<open>encode_key\<close> identifies. Shown: round trips, injectivity, and that sorting
  the bytes sorts by time.
\<close>

record 'k codec =
  enc_name :: "string \<Rightarrow> bytes"
  dec_name :: "bytes \<Rightarrow> string"
  enc_key :: "'k \<Rightarrow> bytes result"
  dec_key :: "bytes \<Rightarrow> 'k"
  enc_pair :: "'k \<times> 'k \<Rightarrow> bytes result"
  sha256 :: "bytes \<Rightarrow> bytes"
  dump_pair :: "'k \<times> 'k \<Rightarrow> bytes"
  load_pair :: "bytes \<Rightarrow> 'k \<times> 'k"

text \<open>Documented behaviour of the encoders: decoding inverts encoding, and what encodes inside a pair encodes alone.\<close>

definition codec_ok :: "'k codec \<Rightarrow> bool" where
  "codec_ok c \<longleftrightarrow>
     (\<forall>n. dec_name c (enc_name c n) = n) \<and>
     (\<forall>k x. enc_key c k = Inr x \<longrightarrow> dec_key c x = k) \<and>
     (\<forall>p q x. enc_pair c p = Inr x \<and> enc_pair c q = Inr x \<longrightarrow> p = q) \<and>
     (\<forall>k s x. enc_pair c (k, s) = Inr x \<longrightarrow> (\<exists>y. enc_key c k = Inr y)) \<and>
     (\<forall>p. load_pair c (dump_pair c p) = p)"

datatype timer_domain = EVENT_TIME | PROCESSING_TIME

record 'k timer_event =
  timer_timestamp :: int
  timer_key :: 'k
  timer_namespace :: 'k
  timer_event_domain :: timer_domain

definition NO_EXPIRY :: int where
  "NO_EXPIRY = - 1"

definition component :: "bytes \<Rightarrow> bytes result" where
  "component v = rbind (pack_unsigned 4 (int (length v))) (\<lambda>h. Inr (h @ v))"

definition read_component :: "bytes \<Rightarrow> nat \<Rightarrow> (bytes \<times> nat) result" where
  "read_component v offset =
     (if offset + 4 > length v then Inl ValueError
      else let size = nat (unpack_unsigned (slice offset (offset + 4) v));
               start = offset + 4; end = start + size
           in if end > length v then Inl ValueError else Inr (slice start end v, end))"

definition encode_state_key :: "'k codec \<Rightarrow> string \<Rightarrow> 'k \<Rightarrow> 'k \<Rightarrow> bytes result" where
  "encode_state_key c name key ns =
     rbind (component (enc_name c name)) (\<lambda>a.
     rbind (rbind (enc_key c key) component) (\<lambda>b.
     rbind (rbind (enc_key c ns) component) (\<lambda>d. Inr (a @ b @ d))))"

definition state_key_prefix :: "'k codec \<Rightarrow> string \<Rightarrow> 'k \<Rightarrow> bytes result" where
  "state_key_prefix c name key =
     rbind (component (enc_name c name)) (\<lambda>a.
     rbind (rbind (enc_key c key) component) (\<lambda>b. Inr (a @ b)))"

definition decode_state_key :: "'k codec \<Rightarrow> bytes \<Rightarrow> (string \<times> 'k \<times> 'k) result" where
  "decode_state_key c encoded =
     rbind (read_component encoded 0) (\<lambda>(name, o1).
     rbind (read_component encoded o1) (\<lambda>(key, o2).
     rbind (read_component encoded o2) (\<lambda>(ns, o3).
       if o3 \<noteq> length encoded then Inl ValueError
       else Inr (dec_name c name, dec_key c key, dec_key c ns))))"

definition decode_state_namespace :: "'k codec \<Rightarrow> bytes \<Rightarrow> 'k result" where
  "decode_state_namespace c encoded =
     rbind (read_component encoded 0) (\<lambda>(_, o1).
     rbind (read_component encoded o1) (\<lambda>(_, o2).
     rbind (read_component encoded o2) (\<lambda>(ns, o3).
       if o3 \<noteq> length encoded then Inl ValueError else Inr (dec_key c ns))))"

definition encode_state_value :: "bytes \<Rightarrow> int option \<Rightarrow> bytes result" where
  "encode_state_value payload expires =
     rbind (pack_signed 8 (case expires of None \<Rightarrow> NO_EXPIRY | Some e \<Rightarrow> e)) (\<lambda>h. Inr (h @ payload))"

definition decode_state_value :: "bytes \<Rightarrow> (int option \<times> bytes) result" where
  "decode_state_value encoded =
     (if length encoded < 8 then Inl ValueError
      else let e = unpack_signed (slice 0 8 encoded)
           in Inr (if e = NO_EXPIRY then None else Some e, drop 8 encoded))"

definition encode_expiry_key :: "int \<Rightarrow> bytes \<Rightarrow> bytes result" where
  "encode_expiry_key expires state_key = rbind (pack_unsigned 8 expires) (\<lambda>h. Inr (h @ state_key))"

definition decode_expiry_key :: "bytes \<Rightarrow> (int \<times> bytes) result" where
  "decode_expiry_key encoded =
     (if length encoded < 8 then Inl ValueError
      else Inr (unpack_unsigned (slice 0 8 encoded), drop 8 encoded))"

definition timer_prefix :: "timer_domain \<Rightarrow> bytes" where
  "timer_prefix d = (case d of EVENT_TIME \<Rightarrow> [0x65] | PROCESSING_TIME \<Rightarrow> [0x70])"

definition encode_timer_key :: "'k codec \<Rightarrow> int \<Rightarrow> 'k \<Rightarrow> 'k \<Rightarrow> timer_domain \<Rightarrow> bytes result" where
  "encode_timer_key c ts key ns d =
     rbind (enc_pair c (key, ns)) (\<lambda>payload.
     rbind (pack_unsigned 8 ts) (\<lambda>t. Inr (timer_prefix d @ t @ sha256 c payload)))"

definition encode_timer_value :: "'k codec \<Rightarrow> 'k \<Rightarrow> 'k \<Rightarrow> bytes" where
  "encode_timer_value c key ns = dump_pair c (key, ns)"

definition decode_timer :: "'k codec \<Rightarrow> bytes \<Rightarrow> bytes \<Rightarrow> (int \<times> 'k \<times> 'k) result" where
  "decode_timer c encoded_key encoded_value =
     (if length encoded_key < 9 then Inl ValueError
      else case load_pair c encoded_value of (key, ns) \<Rightarrow>
        Inr (unpack_unsigned (slice 1 9 encoded_key), key, ns))"

subsection \<open>Round trips\<close>

lemma component_Inr:
  "component v = Inr x \<Longrightarrow> \<exists>h. x = h @ v \<and> length h = 4 \<and> nat (unpack_unsigned h) = length v"
  using unpack_pack_unsigned by (fastforce simp: component_def result_simps)

lemma read_component_append:
  assumes "component v = Inr x"
  shows "read_component (pre @ x @ post) (length pre) = Inr (v, length pre + length x)"
proof -
  from component_Inr [OF assms] obtain h where
    h: "x = h @ v" "length h = 4" "nat (unpack_unsigned h) = length v" by blast
  then have "slice (length pre) (length pre + 4) (pre @ x @ post) = h" by (simp add: slice_def)
  moreover have "slice (length pre + 4) (length pre + 4 + length v) (pre @ x @ post) = v"
    using h by (simp add: slice_def)
  ultimately show ?thesis using h by (simp add: read_component_def Let_def)
qed

lemma encode_state_key_Inr:
  assumes "encode_state_key c name key ns = Inr x"
  obtains k s a b d where "enc_key c key = Inr k" "enc_key c ns = Inr s"
    "component (enc_name c name) = Inr a" "component k = Inr b" "component s = Inr d" "x = a @ b @ d"
  using assms by (auto simp: encode_state_key_def result_simps)

lemma decode_encode_state_key:
  assumes "codec_ok c" "encode_state_key c name key ns = Inr x"
  shows "decode_state_key c x = Inr (name, key, ns)" and "decode_state_namespace c x = Inr ns"
proof -
  from assms(2) obtain k s a b d where e: "enc_key c key = Inr k" "enc_key c ns = Inr s"
    "component (enc_name c name) = Inr a" "component k = Inr b" "component s = Inr d" "x = a @ b @ d"
    by (rule encode_state_key_Inr)
  have r: "read_component x 0 = Inr (enc_name c name, length a)"
    "read_component x (length a) = Inr (k, length a + length b)"
    "read_component x (length a + length b) = Inr (s, length a + length b + length d)"
    using read_component_append [OF e(3), of "[]" "b @ d"] read_component_append [OF e(4), of a d]
      read_component_append [OF e(5), of "a @ b" "[]"] e(6) by (simp_all add: add.assoc)
  have dec: "dec_name c (enc_name c name) = name" "dec_key c k = key" "dec_key c s = ns"
    using assms(1) e by (auto simp: codec_ok_def)
  show "decode_state_key c x = Inr (name, key, ns)" "decode_state_namespace c x = Inr ns"
    using r dec e(6) by (simp_all add: decode_state_key_def decode_state_namespace_def)
qed

lemma encode_state_key_inject:
  assumes "codec_ok c" "encode_state_key c n k s = Inr x" "encode_state_key c n' k' s' = Inr x"
  shows "n = n' \<and> k = k' \<and> s = s'"
  using decode_encode_state_key(1) [OF assms(1,2)] decode_encode_state_key(1) [OF assms(1,3)] by simp

lemma decode_encode_state_value:
  assumes "encode_state_value payload expires = Inr x" "expires \<noteq> Some NO_EXPIRY"
  shows "decode_state_value x = Inr (expires, payload)"
proof -
  obtain h where h: "pack_signed 8 (case expires of None \<Rightarrow> NO_EXPIRY | Some e \<Rightarrow> e) = Inr h" "x = h @ payload"
    using assms(1) by (auto simp: encode_state_value_def result_simps)
  from unpack_pack_signed [OF _ h(1)] have
    "unpack_signed h = (case expires of None \<Rightarrow> NO_EXPIRY | Some e \<Rightarrow> e)" "length h = 8" by simp_all
  with h(2) assms(2) show ?thesis
    by (auto simp: decode_state_value_def slice_def Let_def split: option.splits)
qed

lemma encode_expiry_key_Inr:
  assumes "encode_expiry_key e k = Inr x"
  shows "x = be_bytes 8 (nat e) @ k \<and> 0 \<le> e \<and> e < 256 ^ 8"
  using assms by (auto simp: encode_expiry_key_def pack_unsigned_def result_simps split: if_splits)

lemma decode_encode_expiry_key:
  "encode_expiry_key e k = Inr x \<Longrightarrow> decode_expiry_key x = Inr (e, k)"
  using unpack_pack_unsigned by (fastforce simp: encode_expiry_key_def decode_expiry_key_def slice_def result_simps)

lemma encode_timer_key_Inr:
  assumes "encode_timer_key c ts k s d = Inr x"
  obtains p where "enc_pair c (k, s) = Inr p" "0 \<le> ts" "ts < 256 ^ 8"
    "x = timer_prefix d @ be_bytes 8 (nat ts) @ sha256 c p"
  using assms by (auto simp: encode_timer_key_def pack_unsigned_def result_simps split: if_splits)

lemma length_timer_prefix [simp]: "length (timer_prefix d) = 1"
  by (cases d) (simp_all add: timer_prefix_def)

lemma timer_prefix_inject [simp]: "timer_prefix d = timer_prefix d' \<longleftrightarrow> d = d'"
  by (cases d; cases d') (simp_all add: timer_prefix_def)

lemma decode_encode_timer:
  assumes "codec_ok c" "encode_timer_key c ts k s d = Inr x"
  shows "decode_timer c x (encode_timer_value c k s) = Inr (ts, k, s)"
proof -
  from assms(2) obtain p where p: "0 \<le> ts" "ts < 256 ^ 8"
      "x = timer_prefix d @ be_bytes 8 (nat ts) @ sha256 c p" by (rule encode_timer_key_Inr)
  have "pack_unsigned 8 ts = Inr (be_bytes 8 (nat ts))" using p by (simp add: pack_unsigned_def)
  from unpack_pack_unsigned [OF this] have "unpack_unsigned (be_bytes 8 (nat ts)) = ts" by simp
  moreover have "slice 1 9 x = be_bytes 8 (nat ts)" using p(3) by (simp add: slice_def)
  ultimately show ?thesis using assms(1) p(3)
    by (simp add: decode_timer_def encode_timer_value_def codec_ok_def)
qed

lemma nat_less_pow: "0 \<le> (x::int) \<Longrightarrow> x < 256 ^ n \<Longrightarrow> nat x < 256 ^ n"
  using nat_less_iff [of x "256 ^ n"] by simp

lemma time_prefix_less:
  assumes "0 \<le> s" "s < (256::int) ^ 8" "0 \<le> t" "t < 256 ^ 8"
    "be_bytes 8 (nat s) @ x < be_bytes 8 (nat t) @ y"
  shows "s \<le> t"
proof (rule ccontr)
  assume "\<not> s \<le> t"
  then have "nat t < nat s" using assms by simp
  then have "be_bytes 8 (nat t) < be_bytes 8 (nat s)"
    by (rule be_bytes_less [OF _ nat_less_pow [OF assms(1,2)]])
  then have "be_bytes 8 (nat t) @ y < be_bytes 8 (nat s) @ x" by (rule lex_less_append_right) simp
  with assms(5) show False by simp
qed


text \<open>A codec for examples: keys are byte strings, encoded as themselves; names are ASCII.\<close>

definition demo_codec :: "bytes codec" where
  "demo_codec =
     \<lparr>enc_name = map (\<lambda>ch. of_nat (of_char ch)), dec_name = map (\<lambda>b. char_of (unat b)), enc_key = Inr, dec_key = id,
      enc_pair = (\<lambda>(k, s). rbind (component k) (\<lambda>h. Inr (h @ s))),
      sha256 = id, dump_pair = (\<lambda>(k, s). replicate (length k) 1 @ [0] @ k @ s),
      load_pair = (\<lambda>b. let n = length (takeWhile (\<lambda>x. x = 1) b); r = drop (Suc n) b in (take n r, drop n r))\<rparr>"

lemma demo_codec_ok: "codec_ok demo_codec"
proof -
  have name: "char_of (unat (of_nat (of_char ch) :: byte)) = ch" for ch
    by (simp add: unat_of_nat)
  have pair: "k = k' \<and> s = s'"
    if "component k = Inr h" "component k' = Inr h'" "h @ s = h' @ s'" for k k' h h' s s' :: bytes
  proof -
    have "read_component (h @ s) 0 = Inr (k, length h)" "read_component (h' @ s') 0 = Inr (k', length h')"
      using read_component_append [OF that(1), of "[]" s] read_component_append [OF that(2), of "[]" s']
      by simp_all
    then have "k = k' \<and> length h = length h'" unfolding that(3) by auto
    with that(3) show ?thesis by simp
  qed
  have load: "takeWhile (\<lambda>x. x = 1) (replicate n 1 @ [0] @ r) = replicate n (1::byte)" for n r
    by (induction n) auto
  show ?thesis
    unfolding codec_ok_def
  proof (intro conjI allI impI)
    fix n show "dec_name demo_codec (enc_name demo_codec n) = n"
      by (induction n) (simp_all add: demo_codec_def name)
    fix p q :: "bytes \<times> bytes" and x
    assume e: "enc_pair demo_codec p = Inr x \<and> enc_pair demo_codec q = Inr x"
    obtain h where h: "component (fst p) = Inr h" "x = h @ snd p"
      using e by (auto simp: demo_codec_def result_simps split: prod.splits)
    obtain h' where h': "component (fst q) = Inr h'" "x = h' @ snd q"
      using e by (auto simp: demo_codec_def result_simps split: prod.splits)
    have "h @ snd p = h' @ snd q" using h(2) h'(2) by (rule trans [OF sym])
    from pair [OF h(1) h'(1) this] show "p = q" by (cases p; cases q; simp)
  next
    fix p :: "bytes \<times> bytes"
    show "load_pair demo_codec (dump_pair demo_codec p) = p"
      using load [of "length (fst p)" "fst p @ snd p"] by (simp add: demo_codec_def split_beta Let_def)
  qed (simp_all add: demo_codec_def)
qed


end
