(* ===== verification/StateBackend.thy ===== *)
theory StateBackend
  imports StateCodec KeyGroups
begin

section \<open>The in-memory managed state backend (state/memory_state_backend.py)\<close>

text \<open>
  \<open>MemoryStateBackend\<close> keeps three byte tables: state, an expiry index and timers, under a
  current key. Operations return their outcome together with the backend, because some raise after
  a partial change. Clock readings are arguments. A snapshot is the pickled dictionary of the
  tables; pickling and the restricted unpickler are the identity on it. \<open>blake2b\<close> is the
  digest of the key-group hash. The theory \<open>KeyedState\<close> states the contract of
  \<open>ManagedStateBackend\<close> as a locale and interprets it on this backend.
\<close>

subsection \<open>Descriptors\<close>

datatype ttl_update_type = ON_CREATE_AND_WRITE | ON_READ_AND_WRITE
datatype state_visibility = NEVER_RETURN_EXPIRED | RETURN_EXPIRED_IF_NOT_CLEANED_UP

record ttl_config =
  ttl_seconds :: rat
  update_type :: ttl_update_type
  visibility :: state_visibility

definition make_ttl_config :: "rat \<Rightarrow> ttl_update_type \<Rightarrow> state_visibility \<Rightarrow> ttl_config result" where
  "make_ttl_config seconds u v =
     (if seconds \<le> 0 then Inl ValueError
      else Inr \<lparr>ttl_seconds = seconds, update_type = u, visibility = v\<rparr>)"

definition ttl_milliseconds :: "ttl_config \<Rightarrow> int" where
  "ttl_milliseconds t = max 1 \<lfloor>ttl_seconds t * 1000\<rfloor>"

record 'v descriptor =
  desc_name :: string
  desc_dumps :: "'v \<Rightarrow> bytes"
  desc_loads :: "bytes \<Rightarrow> 'v"
  desc_ttl :: "ttl_config option"

subsection \<open>State\<close>

record 'k backend =
  codec :: "'k codec"
  selected_key :: "'k option"
  state_table :: "(bytes, bytes) dict"
  expiry_table :: "(bytes, bytes) dict"
  timer_table :: "(bytes, bytes) dict"

text \<open>Sequencing of steps that may raise after changing the backend.\<close>

definition sbind :: "'a result \<times> 's \<Rightarrow> ('a \<Rightarrow> 's \<Rightarrow> 'b result \<times> 's) \<Rightarrow> 'b result \<times> 's" where
  "sbind r f = (case r of (Inl e, s) \<Rightarrow> (Inl e, s) | (Inr x, s) \<Rightarrow> f x s)"

lemma sbind_simps [simp]: "sbind (Inl e, s) f = (Inl e, s)" "sbind (Inr x, s) f = f x s"
  by (simp_all add: sbind_def)

lemma sbind_Inr:
  "sbind r f = (Inr y, s') \<longleftrightarrow> (\<exists>x s. r = (Inr x, s) \<and> f x s = (Inr y, s'))"
  by (cases r; cases "fst r") auto

definition make_backend :: "'k codec \<Rightarrow> 'k backend" where
  "make_backend c = \<lparr>codec = c, selected_key = None, state_table = [], expiry_table = [], timer_table = []\<rparr>"

definition current_key :: "'k backend \<Rightarrow> 'k result" where
  "current_key b = (case selected_key b of None \<Rightarrow> Inl RuntimeError | Some k \<Rightarrow> Inr k)"

definition set_current_key :: "'k \<Rightarrow> 'k backend \<Rightarrow> 'k backend" where
  "set_current_key k b = b\<lparr>selected_key := Some k\<rparr>"

definition state_key :: "string \<Rightarrow> 'k \<Rightarrow> 'k backend \<Rightarrow> bytes result" where
  "state_key name ns b = rbind (current_key b) (\<lambda>k. encode_state_key (codec b) name k ns)"

definition expiry_for :: "'v descriptor \<Rightarrow> int \<Rightarrow> int option" where
  "expiry_for d now = map_option (\<lambda>t. now + ttl_milliseconds t) (desc_ttl d)"

text \<open>\<open>put\<close> first drops the old expiry entry, then writes the value, then the new expiry entry.\<close>

definition drop_expiry :: "bytes \<Rightarrow> bytes \<Rightarrow> 'k backend \<Rightarrow> unit result \<times> 'k backend" where
  "drop_expiry encoded sk b =
     (case decode_state_value encoded of
        Inl e \<Rightarrow> (Inl e, b)
      | Inr (None, _) \<Rightarrow> (Inr (), b)
      | Inr (Some e, _) \<Rightarrow>
          (case encode_expiry_key e sk of
             Inl err \<Rightarrow> (Inl err, b)
           | Inr xk \<Rightarrow> (Inr (), b\<lparr>expiry_table := AList.delete xk (expiry_table b)\<rparr>)))"

definition put_state :: "'v descriptor \<Rightarrow> 'v \<Rightarrow> 'k \<Rightarrow> int \<Rightarrow> 'k backend \<Rightarrow> unit result \<times> 'k backend" where
  "put_state d v ns now b =
     (case state_key (desc_name d) ns b of
        Inl e \<Rightarrow> (Inl e, b)
      | Inr sk \<Rightarrow>
          let expires = expiry_for d now
          in sbind (case map_of (state_table b) sk of None \<Rightarrow> (Inr (), b) | Some old \<Rightarrow> drop_expiry old sk b) (\<lambda>_ b1.
             case encode_state_value (desc_dumps d v) expires of
               Inl e \<Rightarrow> (Inl e, b1)
             | Inr encoded \<Rightarrow>
                 let b2 = b1\<lparr>state_table := AList.update sk encoded (state_table b1)\<rparr>
                 in case expires of
                      None \<Rightarrow> (Inr (), b2)
                    | Some e \<Rightarrow>
                        (case encode_expiry_key e sk of
                           Inl err \<Rightarrow> (Inl err, b2)
                         | Inr xk \<Rightarrow> (Inr (), b2\<lparr>expiry_table := AList.update xk [] (expiry_table b2)\<rparr>))))"

text \<open>\<open>get\<close> reads the clock once for the expiry check and, when it refreshes, once more in \<open>put\<close>.\<close>

definition get_state ::
  "'v descriptor \<Rightarrow> 'k \<Rightarrow> int \<Rightarrow> int \<Rightarrow> 'k backend \<Rightarrow> 'v option result \<times> 'k backend" where
  "get_state d ns now now' b =
     (case state_key (desc_name d) ns b of
        Inl e \<Rightarrow> (Inl e, b)
      | Inr sk \<Rightarrow>
          (case map_of (state_table b) sk of
             None \<Rightarrow> (Inr None, b)
           | Some encoded \<Rightarrow>
               (case decode_state_value encoded of
                  Inl e \<Rightarrow> (Inl e, b)
                | Inr (expires, payload) \<Rightarrow>
                    if (case expires of None \<Rightarrow> False | Some e \<Rightarrow> e \<le> now) \<and>
                       (case desc_ttl d of None \<Rightarrow> True | Some t \<Rightarrow> visibility t = NEVER_RETURN_EXPIRED)
                    then (Inr None, b\<lparr>state_table := AList.delete sk (state_table b)\<rparr>)
                    else
                      let v = desc_loads d payload
                      in if (case desc_ttl d of None \<Rightarrow> False | Some t \<Rightarrow> update_type t = ON_READ_AND_WRITE)
                         then sbind (put_state d v ns now' b) (\<lambda>_ b1. (Inr (Some v), b1))
                         else (Inr (Some v), b))))"

definition delete_state :: "'v descriptor \<Rightarrow> 'k \<Rightarrow> 'k backend \<Rightarrow> unit result \<times> 'k backend" where
  "delete_state d ns b =
     (case state_key (desc_name d) ns b of
        Inl e \<Rightarrow> (Inl e, b)
      | Inr sk \<Rightarrow>
          (case map_of (state_table b) sk of
             None \<Rightarrow> (Inr (), b)
           | Some encoded \<Rightarrow> drop_expiry encoded sk (b\<lparr>state_table := AList.delete sk (state_table b)\<rparr>)))"

definition starts_with :: "bytes \<Rightarrow> bytes \<Rightarrow> bool" where
  "starts_with p x \<longleftrightarrow> take (length p) x = p"

definition namespaces :: "'v descriptor \<Rightarrow> 'k backend \<Rightarrow> 'k list result" where
  "namespaces d b =
     rbind (current_key b) (\<lambda>k.
     rbind (state_key_prefix (codec b) (desc_name d) k) (\<lambda>p.
       rmap (decode_state_namespace (codec b)) (filter (starts_with p) (sort (keys (state_table b))))))"

subsection \<open>Timers\<close>

definition register_timer :: "int \<Rightarrow> 'k \<Rightarrow> timer_domain \<Rightarrow> 'k backend \<Rightarrow> 'k backend result" where
  "register_timer ts ns td b =
     (if ts < 0 then Inl ValueError
      else rbind (current_key b) (\<lambda>k.
        rbind (encode_timer_key (codec b) ts k ns td) (\<lambda>tk.
          Inr (b\<lparr>timer_table := AList.update tk (encode_timer_value (codec b) k ns) (timer_table b)\<rparr>))))"

definition delete_timer :: "int \<Rightarrow> 'k \<Rightarrow> timer_domain \<Rightarrow> 'k backend \<Rightarrow> 'k backend result" where
  "delete_timer ts ns td b =
     rbind (current_key b) (\<lambda>k.
     rbind (encode_timer_key (codec b) ts k ns td) (\<lambda>tk.
       Inr (b\<lparr>timer_table := AList.delete tk (timer_table b)\<rparr>)))"

fun scan_due ::
  "'k codec \<Rightarrow> (bytes, bytes) dict \<Rightarrow> int \<Rightarrow> timer_domain \<Rightarrow> nat option \<Rightarrow> nat \<Rightarrow> bytes list \<Rightarrow>
   'k timer_event list result" where
  "scan_due c timers ts td limit n [] = Inr []"
| "scan_due c timers ts td limit n (tk # tks) =
     (if \<not> starts_with (timer_prefix td) tk then scan_due c timers ts td limit n tks
      else rbind (decode_timer c tk (dict_get timers tk [])) (\<lambda>(t, k, s).
        if t > ts then Inr []
        else
          let ev = \<lparr>timer_timestamp = t, timer_key = k, timer_namespace = s, timer_event_domain = td\<rparr>
          in if (case limit of None \<Rightarrow> False | Some m \<Rightarrow> Suc n \<ge> m) then Inr [ev]
             else rbind (scan_due c timers ts td limit (Suc n) tks) (\<lambda>evs. Inr (ev # evs))))"

fun remove_timers :: "'k codec \<Rightarrow> 'k timer_event list \<Rightarrow> (bytes, bytes) dict \<Rightarrow> (bytes, bytes) dict result" where
  "remove_timers c [] timers = Inr timers"
| "remove_timers c (ev # evs) timers =
     rbind (encode_timer_key c (timer_timestamp ev) (timer_key ev) (timer_namespace ev) (timer_event_domain ev)) (\<lambda>tk.
       remove_timers c evs (AList.delete tk timers))"

definition pop_due_timers ::
  "int \<Rightarrow> timer_domain \<Rightarrow> nat option \<Rightarrow> 'k backend \<Rightarrow> ('k timer_event list \<times> 'k backend) result" where
  "pop_due_timers ts td limit b =
     rbind (scan_due (codec b) (timer_table b) ts td limit 0 (sort (keys (timer_table b)))) (\<lambda>evs.
     rbind (remove_timers (codec b) evs (timer_table b)) (\<lambda>timers.
       Inr (evs, b\<lparr>timer_table := timers\<rparr>)))"

subsection \<open>Expiry\<close>

fun expire_scan :: "int \<Rightarrow> nat option \<Rightarrow> nat \<Rightarrow> bytes list \<Rightarrow> 'k backend \<Rightarrow> nat result \<times> 'k backend" where
  "expire_scan now limit n [] b = (Inr 0, b)"
| "expire_scan now limit n (xk # xks) b =
     (case decode_expiry_key xk of
        Inl e \<Rightarrow> (Inl e, b)
      | Inr (expires, sk) \<Rightarrow>
          if expires > now \<or> (case limit of None \<Rightarrow> False | Some m \<Rightarrow> n \<ge> m) then (Inr 0, b)
          else
            (case (case map_of (state_table b) sk of
                     None \<Rightarrow> Inr False
                   | Some encoded \<Rightarrow> rbind (decode_state_value encoded) (\<lambda>(e, _). Inr (e = Some expires))) of
               Inl e \<Rightarrow> (Inl e, b)
             | Inr hit \<Rightarrow>
                 let b1 = (if hit then b\<lparr>state_table := AList.delete sk (state_table b)\<rparr> else b);
                     b2 = b1\<lparr>expiry_table := AList.delete xk (expiry_table b1)\<rparr>
                 in sbind (expire_scan now limit (Suc n) xks b2) (\<lambda>m b3.
                      (Inr ((if hit then 1 else 0) + m), b3))))"

definition cleanup_expired :: "int \<Rightarrow> nat option \<Rightarrow> 'k backend \<Rightarrow> nat result \<times> 'k backend" where
  "cleanup_expired now limit b = expire_scan now limit 0 (sort (keys (expiry_table b))) b"

subsection \<open>Snapshots\<close>

definition KEY_ENCODING_VERSION :: int where
  "KEY_ENCODING_VERSION = 2"

definition require_key_encoding_version :: "pyobj \<Rightarrow> unit result" where
  "require_key_encoding_version v = (if v = PInt KEY_ENCODING_VERSION then Inr () else Inl ValueError)"

record snapshot_payload =
  format_version :: pyobj
  key_encoding_version :: pyobj
  snap_state :: "(bytes, bytes) dict option"
  snap_expiry :: "(bytes, bytes) dict option"
  snap_timers :: "(bytes, bytes) dict option"

definition check_payload :: "snapshot_payload \<Rightarrow> unit result" where
  "check_payload p =
     (if format_version p \<noteq> PInt 2 then require_key_encoding_version PNone
      else require_key_encoding_version (key_encoding_version p))"

definition take_snapshot :: "'k backend \<Rightarrow> snapshot_payload" where
  "take_snapshot b = \<lparr>format_version = PInt 2, key_encoding_version = PInt KEY_ENCODING_VERSION,
     snap_state = Some (state_table b), snap_expiry = Some (expiry_table b), snap_timers = Some (timer_table b)\<rparr>"

definition restore_snapshot :: "snapshot_payload \<Rightarrow> 'k backend \<Rightarrow> 'k backend result" where
  "restore_snapshot p b =
     rbind (check_payload p) (\<lambda>_.
       case (snap_state p, snap_expiry p, snap_timers p) of
         (Some s, Some e, Some t) \<Rightarrow> Inr (b\<lparr>state_table := s, expiry_table := e, timer_table := t\<rparr>)
       | _ \<Rightarrow> Inl KeyError)"

text \<open>The key group of a row of each table.\<close>

definition state_row_group :: "'k codec \<Rightarrow> (bytes \<Rightarrow> bytes) \<Rightarrow> int \<Rightarrow> bytes \<times> bytes \<Rightarrow> int result" where
  "state_row_group c blake2b m row =
     rbind (decode_state_key c (fst row)) (\<lambda>(_, k, _). key_group_for_key (enc_key c) blake2b k (PInt m))"

definition expiry_row_group :: "'k codec \<Rightarrow> (bytes \<Rightarrow> bytes) \<Rightarrow> int \<Rightarrow> bytes \<times> bytes \<Rightarrow> int result" where
  "expiry_row_group c blake2b m row =
     rbind (decode_expiry_key (fst row)) (\<lambda>(_, sk).
     rbind (decode_state_key c sk) (\<lambda>(_, k, _). key_group_for_key (enc_key c) blake2b k (PInt m)))"

definition timer_row_group :: "'k codec \<Rightarrow> (bytes \<Rightarrow> bytes) \<Rightarrow> int \<Rightarrow> bytes \<times> bytes \<Rightarrow> int result" where
  "timer_row_group c blake2b m row =
     rbind (decode_timer c (fst row) (snd row)) (\<lambda>(_, k, _). key_group_for_key (enc_key c) blake2b k (PInt m))"

type_synonym group_tables = "(bytes, bytes) dict \<times> (bytes, bytes) dict \<times> (bytes, bytes) dict"

text \<open>One of the three loops of \<open>snapshot_key_groups\<close>: requested rows go to the bucket of their group.\<close>

fun bucket_table ::
  "(bytes \<times> bytes \<Rightarrow> int result) \<Rightarrow> int set \<Rightarrow> (bytes \<times> bytes \<Rightarrow> group_tables \<Rightarrow> group_tables) \<Rightarrow>
   (bytes \<times> bytes) list \<Rightarrow> (int, group_tables) dict \<Rightarrow> (int, group_tables) dict result" where
  "bucket_table grp requested add [] buckets = Inr buckets"
| "bucket_table grp requested add (row # rows) buckets =
     rbind (grp row) (\<lambda>g.
       bucket_table grp requested add rows
         (if g \<in> requested then AList.update g (add row (dict_get buckets g ([], [], []))) buckets else buckets))"

definition add_state_row :: "bytes \<times> bytes \<Rightarrow> group_tables \<Rightarrow> group_tables" where
  "add_state_row row t = (case t of (s, e, m) \<Rightarrow> (AList.update (fst row) (snd row) s, e, m))"

definition add_expiry_row :: "bytes \<times> bytes \<Rightarrow> group_tables \<Rightarrow> group_tables" where
  "add_expiry_row row t = (case t of (s, e, m) \<Rightarrow> (s, AList.update (fst row) (snd row) e, m))"

definition add_timer_row :: "bytes \<times> bytes \<Rightarrow> group_tables \<Rightarrow> group_tables" where
  "add_timer_row row t = (case t of (s, e, m) \<Rightarrow> (s, e, AList.update (fst row) (snd row) m))"

definition snapshot_key_groups ::
  "(bytes \<Rightarrow> bytes) \<Rightarrow> int \<Rightarrow> int set \<Rightarrow> 'k backend \<Rightarrow> (int, snapshot_payload) dict result" where
  "snapshot_key_groups blake2b m requested b =
     rbind (bucket_table (state_row_group (codec b) blake2b m) requested add_state_row (state_table b) []) (\<lambda>b1.
     rbind (bucket_table (expiry_row_group (codec b) blake2b m) requested add_expiry_row (expiry_table b) b1) (\<lambda>b2.
     rbind (bucket_table (timer_row_group (codec b) blake2b m) requested add_timer_row (timer_table b) b2) (\<lambda>b3.
       Inr (map (\<lambda>(g, s, e, t). (g, \<lparr>format_version = PInt 2, key_encoding_version = PInt KEY_ENCODING_VERSION,
         snap_state = Some s, snap_expiry = Some e, snap_timers = Some t\<rparr>)) b3))))"

definition update_all :: "(bytes, bytes) dict \<Rightarrow> (bytes, bytes) dict \<Rightarrow> (bytes, bytes) dict" where
  "update_all new d = fold (\<lambda>(k, v). AList.update k v) new d"

fun merge_payloads :: "snapshot_payload list \<Rightarrow> group_tables \<Rightarrow> group_tables result" where
  "merge_payloads [] t = Inr t"
| "merge_payloads (p # ps) (s, e, t) =
     (case (snap_state p, snap_expiry p, snap_timers p) of
        (Some s', Some e', Some t') \<Rightarrow> merge_payloads ps (update_all s' s, update_all e' e, update_all t' t)
      | _ \<Rightarrow> Inl ValueError)"

definition restore_key_groups :: "(int, snapshot_payload) dict \<Rightarrow> 'k backend \<Rightarrow> 'k backend result" where
  "restore_key_groups snaps b =
     rbind (rmap (\<lambda>p. rbind (check_payload p) (\<lambda>_. Inr p)) (map snd snaps)) (\<lambda>ps.
     rbind (merge_payloads ps ([], [], [])) (\<lambda>(s, e, t).
       Inr (b\<lparr>state_table := s, expiry_table := e, timer_table := t\<rparr>)))"

subsection \<open>Invariant\<close>

text \<open>
  Every state row has a decodable key and value; every expiring row is in the expiry index (which may
  also hold stale entries); every index and timer row is one the codec wrote.
\<close>

definition state_ok :: "'k backend \<Rightarrow> bool" where
  "state_ok b \<longleftrightarrow> (\<forall>sk ev. map_of (state_table b) sk = Some ev \<longrightarrow>
     (\<exists>n k s. encode_state_key (codec b) n k s = Inr sk) \<and> (\<exists>r. decode_state_value ev = Inr r))"

definition index_ok :: "'k backend \<Rightarrow> bool" where
  "index_ok b \<longleftrightarrow> (\<forall>sk ev x p. map_of (state_table b) sk = Some ev \<and> decode_state_value ev = Inr (Some x, p) \<longrightarrow>
     (\<exists>xk. encode_expiry_key x sk = Inr xk \<and> xk \<in> set (keys (expiry_table b))))"

definition expiry_ok :: "'k backend \<Rightarrow> bool" where
  "expiry_ok b \<longleftrightarrow> (\<forall>xk \<in> set (keys (expiry_table b)).
     \<exists>e sk n k s. encode_expiry_key e sk = Inr xk \<and> encode_state_key (codec b) n k s = Inr sk)"

definition timers_ok :: "'k backend \<Rightarrow> bool" where
  "timers_ok b \<longleftrightarrow> (\<forall>tk tv. map_of (timer_table b) tk = Some tv \<longrightarrow>
     (\<exists>ts k s d. encode_timer_key (codec b) ts k s d = Inr tk \<and> tv = encode_timer_value (codec b) k s))"

definition backend_inv :: "'k backend \<Rightarrow> bool" where
  "backend_inv b \<longleftrightarrow>
     codec_ok (codec b) \<and> wf_dict (state_table b) \<and> wf_dict (expiry_table b) \<and> wf_dict (timer_table b) \<and>
     state_ok b \<and> index_ok b \<and> expiry_ok b \<and> timers_ok b"

lemma state_okD:
  "state_ok b \<Longrightarrow> map_of (state_table b) sk = Some ev \<Longrightarrow>
   (\<exists>n k s. encode_state_key (codec b) n k s = Inr sk) \<and> (\<exists>r. decode_state_value ev = Inr r)"
  unfolding state_ok_def by blast

lemma index_okD:
  "index_ok b \<Longrightarrow> map_of (state_table b) sk = Some ev \<Longrightarrow> decode_state_value ev = Inr (Some x, p) \<Longrightarrow>
   \<exists>xk. encode_expiry_key x sk = Inr xk \<and> xk \<in> set (keys (expiry_table b))"
  unfolding index_ok_def by blast

lemma make_backend_inv [inv_intros]: "codec_ok c \<Longrightarrow> backend_inv (make_backend c)"
  by (simp add: backend_inv_def make_backend_def state_ok_def index_ok_def expiry_ok_def timers_ok_def)

lemma set_current_key_inv [inv_intros]: "backend_inv b \<Longrightarrow> backend_inv (set_current_key k b)"
  by (simp add: backend_inv_def set_current_key_def state_ok_def index_ok_def expiry_ok_def timers_ok_def)

lemma keys_delete_image [simp]: "fst ` set (AList.delete k d) = fst ` set d - {k}"
  using arg_cong [OF AList.delete_keys [of k d], of set] by simp

lemma encode_expiry_key_inject:
  "encode_expiry_key e sk = Inr xk \<Longrightarrow> encode_expiry_key e' sk' = Inr xk \<Longrightarrow> e = e' \<and> sk = sk'"
  using decode_encode_expiry_key [of e sk xk] decode_encode_expiry_key [of e' sk' xk] by simp

text \<open>Removing one state row, with or without its own index entry, keeps the invariant.\<close>

lemma remove_row_inv:
  assumes inv: "backend_inv b" and e: "\<And>xk. xk \<in> gone \<Longrightarrow> \<exists>x. encode_expiry_key x sk = Inr xk"
  shows "backend_inv (b\<lparr>state_table := AList.delete sk (state_table b),
    expiry_table := filter (\<lambda>(xk, _). xk \<notin> gone) (expiry_table b)\<rparr>)"
proof -
  let ?b = "b\<lparr>state_table := AList.delete sk (state_table b),
    expiry_table := filter (\<lambda>(xk, _). xk \<notin> gone) (expiry_table b)\<rparr>"
  have "state_ok ?b"
    unfolding state_ok_def
  proof (intro allI impI)
    fix sk' ev assume "map_of (state_table ?b) sk' = Some ev"
    then have "map_of (state_table b) sk' = Some ev" by (simp split: if_splits)
    with state_okD [of b] inv show "(\<exists>n k s. encode_state_key (codec ?b) n k s = Inr sk') \<and> (\<exists>r. decode_state_value ev = Inr r)"
      by (simp add: backend_inv_def)
  qed
  moreover have "index_ok ?b"
    unfolding index_ok_def
  proof (intro allI impI)
    fix sk' ev x p
    assume a: "map_of (state_table ?b) sk' = Some ev \<and> decode_state_value ev = Inr (Some x, p)"
    then have m: "sk' \<noteq> sk" "map_of (state_table b) sk' = Some ev" by (auto split: if_splits)
    have "index_ok b" using inv by (simp add: backend_inv_def)
    from index_okD [OF this m(2)] a obtain xk where
      xk: "encode_expiry_key x sk' = Inr xk" "xk \<in> set (keys (expiry_table b))" by blast
    have "xk \<notin> gone"
    proof
      assume "xk \<in> gone"
      then obtain y where "encode_expiry_key y sk = Inr xk" using e by blast
      with encode_expiry_key_inject [OF xk(1)] m(1) show False by blast
    qed
    with xk show "\<exists>xk. encode_expiry_key x sk' = Inr xk \<and> xk \<in> set (keys (expiry_table ?b))" by force
  qed
  moreover have "expiry_ok ?b" using inv by (auto simp: backend_inv_def expiry_ok_def)
  moreover have "timers_ok ?b" using inv by (simp add: backend_inv_def timers_ok_def)
  moreover have "wf_dict (filter (\<lambda>(xk, _). xk \<notin> gone) (expiry_table b))"
    using inv by (simp add: backend_inv_def distinct_map_filter)
  ultimately show ?thesis using inv by (simp add: backend_inv_def)
qed

text \<open>Writing one state row together with its index entry.\<close>

lemma write_row_inv:
  assumes inv: "backend_inv b" and sk: "encode_state_key (codec b) n k s = Inr sk"
    and dec: "decode_state_value ev = Inr (expires, p)"
    and exp: "expiry' = (case expires of None \<Rightarrow> expiry_table b | Some x \<Rightarrow> AList.update xk [] (expiry_table b))"
    and xk: "\<And>x. expires = Some x \<Longrightarrow> encode_expiry_key x sk = Inr xk"
  shows "backend_inv (b\<lparr>state_table := AList.update sk ev (state_table b), expiry_table := expiry'\<rparr>)"
proof -
  let ?b = "b\<lparr>state_table := AList.update sk ev (state_table b), expiry_table := expiry'\<rparr>"
  have sub: "set (keys (expiry_table b)) \<subseteq> set (keys expiry')" by (auto simp: exp split: option.splits)
  have so: "state_ok b" "index_ok b" using inv by (simp_all add: backend_inv_def)
  have "state_ok ?b"
    unfolding state_ok_def
  proof (intro allI impI)
    fix sk' ev' assume "map_of (state_table ?b) sk' = Some ev'"
    then show "(\<exists>n k s. encode_state_key (codec ?b) n k s = Inr sk') \<and> (\<exists>r. decode_state_value ev' = Inr r)"
      using sk dec state_okD [OF so(1), of sk' ev'] by (cases "sk' = sk") auto
  qed
  moreover have "index_ok ?b"
    unfolding index_ok_def
  proof (intro allI impI)
    fix sk' ev' x p'
    assume a: "map_of (state_table ?b) sk' = Some ev' \<and> decode_state_value ev' = Inr (Some x, p')"
    show "\<exists>xk. encode_expiry_key x sk' = Inr xk \<and> xk \<in> set (keys (expiry_table ?b))"
    proof (cases "sk' = sk")
      case True
      with a dec have "expires = Some x" by auto
      with True xk show ?thesis by (auto simp: exp)
    next
      case False
      with a have "map_of (state_table b) sk' = Some ev'" by (simp split: if_splits)
      from index_okD [OF so(2) this] a obtain y where
        "encode_expiry_key x sk' = Inr y" "y \<in> set (keys (expiry_table b))" by blast
      with sub show ?thesis by (intro exI [of _ y]) (simp add: subset_iff)
    qed
  qed
  moreover have "expiry_ok ?b"
    unfolding expiry_ok_def
  proof
    fix y assume "y \<in> set (keys (expiry_table ?b))"
    then have "y \<in> set (keys (expiry_table b)) \<or> (\<exists>x. expires = Some x \<and> y = xk)"
      by (auto simp: exp split: option.splits simp del: set_map simp: set_map [symmetric])
    then show "\<exists>e sk n k s. encode_expiry_key e sk = Inr y \<and> encode_state_key (codec ?b) n k s = Inr sk"
    proof
      assume "y \<in> set (keys (expiry_table b))"
      moreover have "expiry_ok b" using inv by (simp add: backend_inv_def)
      ultimately show ?thesis by (auto simp: expiry_ok_def)
    next
      assume "\<exists>x. expires = Some x \<and> y = xk"
      then obtain x where "encode_expiry_key x sk = Inr y" using xk by blast
      with sk show ?thesis by simp blast
    qed
  qed
  moreover have "timers_ok ?b" using inv by (simp add: backend_inv_def timers_ok_def)
  moreover have "wf_dict expiry'" using inv by (simp add: backend_inv_def exp split: option.splits)
  ultimately show ?thesis using inv by (simp add: backend_inv_def)
qed

subsection \<open>Reading and writing\<close>

text \<open>What a state row holds, by physical key.\<close>

definition row_at :: "'k backend \<Rightarrow> bytes \<Rightarrow> (int option \<times> bytes) option" where
  "row_at b sk = (case map_of (state_table b) sk of
     None \<Rightarrow> None | Some ev \<Rightarrow> (case decode_state_value ev of Inl _ \<Rightarrow> None | Inr r \<Rightarrow> Some r))"

lemma state_key_Inr:
  "state_key n ns b = Inr sk \<Longrightarrow> \<exists>k. selected_key b = Some k \<and> encode_state_key (codec b) n k ns = Inr sk"
  by (auto simp: state_key_def current_key_def result_simps split: option.splits)

lemma delete_as_filter: "AList.delete k d = filter (\<lambda>(k', _). k' \<notin> {k}) d"
  by (induction d) auto

lemma drop_expiry_Inr:
  assumes "drop_expiry old sk b = (Inr (), b')"
  shows "\<exists>gone. (\<forall>xk \<in> gone. \<exists>x. encode_expiry_key x sk = Inr xk) \<and>
    b' = b\<lparr>expiry_table := filter (\<lambda>(xk, _). xk \<notin> gone) (expiry_table b)\<rparr>"
proof -
  have "b' = b\<lparr>expiry_table := filter (\<lambda>(xk, _). xk \<notin> {}) (expiry_table b)\<rparr> \<or>
      (\<exists>x xk. encode_expiry_key x sk = Inr xk \<and> b' = b\<lparr>expiry_table := AList.delete xk (expiry_table b)\<rparr>)"
    using assms by (auto simp: drop_expiry_def split: sum.splits option.splits prod.splits)
  then show ?thesis
  proof
    assume "b' = b\<lparr>expiry_table := filter (\<lambda>(xk, _). xk \<notin> {}) (expiry_table b)\<rparr>"
    then show ?thesis by (intro exI [of _ "{}"]) simp
  next
    assume "\<exists>x xk. encode_expiry_key x sk = Inr xk \<and> b' = b\<lparr>expiry_table := AList.delete xk (expiry_table b)\<rparr>"
    then obtain x xk where "encode_expiry_key x sk = Inr xk" "b' = b\<lparr>expiry_table := AList.delete xk (expiry_table b)\<rparr>"
      by blast
    then show ?thesis by (intro exI [of _ "{xk}"]) (auto simp: delete_as_filter)
  qed
qed

lemma update_delete_same [simp]: "map_of (AList.update k v (AList.delete k d)) = map_of (AList.update k v d)"
  by (auto simp: fun_eq_iff)

lemma put_state_spec:
  assumes inv: "backend_inv b" and now: "0 \<le> now" and p: "put_state d v ns now b = (Inr (), b')"
  obtains k sk where "selected_key b = Some k" "encode_state_key (codec b) (desc_name d) k ns = Inr sk"
    "backend_inv b'" "codec b' = codec b" "selected_key b' = Some k" "timer_table b' = timer_table b"
    "row_at b' sk = Some (expiry_for d now, desc_dumps d v)"
    "\<And>sk'. sk' \<noteq> sk \<Longrightarrow> row_at b' sk' = row_at b sk'"
proof -
  from p obtain sk where sk: "state_key (desc_name d) ns b = Inr sk"
    by (auto simp: put_state_def split: sum.splits)
  then obtain k where k: "selected_key b = Some k" "encode_state_key (codec b) (desc_name d) k ns = Inr sk"
    by (metis state_key_Inr)
  from p sk obtain b1 where b1: "(case map_of (state_table b) sk of None \<Rightarrow> (Inr (), b) | Some old \<Rightarrow> drop_expiry old sk b) = (Inr (), b1)"
    by (auto simp: put_state_def Let_def sbind_Inr)
  have "\<exists>gone. (\<forall>xk \<in> gone. \<exists>x. encode_expiry_key x sk = Inr xk) \<and>
      b1 = b\<lparr>expiry_table := filter (\<lambda>(xk, _). xk \<notin> gone) (expiry_table b)\<rparr>"
  proof (cases "map_of (state_table b) sk")
    case None
    then show ?thesis using b1 by (intro exI [of _ "{}"]) simp
  next
    case (Some old)
    then show ?thesis using b1 drop_expiry_Inr by simp
  qed
  then obtain gone where gone: "\<And>xk. xk \<in> gone \<Longrightarrow> \<exists>x. encode_expiry_key x sk = Inr xk"
    "b1 = b\<lparr>expiry_table := filter (\<lambda>(xk, _). xk \<notin> gone) (expiry_table b)\<rparr>" by blast
  define b0 where "b0 = b\<lparr>state_table := AList.delete sk (state_table b),
    expiry_table := filter (\<lambda>(xk, _). xk \<notin> gone) (expiry_table b)\<rparr>"
  have inv0: "backend_inv b0" unfolding b0_def by (rule remove_row_inv [OF inv gone(1)])
  from p sk b1 obtain ev where ev: "encode_state_value (desc_dumps d v) (expiry_for d now) = Inr ev"
    by (auto simp: put_state_def Let_def sbind_Inr split: sum.splits)
  have "expiry_for d now \<noteq> Some NO_EXPIRY"
    using now by (auto simp: expiry_for_def NO_EXPIRY_def ttl_milliseconds_def)
  then have dec: "decode_state_value ev = Inr (expiry_for d now, desc_dumps d v)"
    by (rule decode_encode_state_value [OF ev])
  obtain xk where xk: "\<And>x. expiry_for d now = Some x \<Longrightarrow> encode_expiry_key x sk = Inr xk"
    and b': "b' = b1\<lparr>state_table := AList.update sk ev (state_table b1),
      expiry_table := (case expiry_for d now of None \<Rightarrow> expiry_table b1 | Some x \<Rightarrow> AList.update xk [] (expiry_table b1))\<rparr>"
    using p sk b1 ev by (auto simp: put_state_def Let_def sbind_Inr split: sum.splits option.splits)
  let ?b2 = "b0\<lparr>state_table := AList.update sk ev (state_table b0), expiry_table := expiry_table b'\<rparr>"
  have inv2: "backend_inv ?b2"
    by (rule write_row_inv [OF inv0 _ dec _ xk])
      (use k(2) in \<open>simp_all add: b' gone(2) b0_def split: option.splits\<close>)
  have same: "map_of (state_table b') = map_of (state_table ?b2)" by (simp add: b' gone(2) b0_def)
  have wf: "wf_dict (state_table b')" using inv by (simp add: b' gone(2) backend_inv_def)
  have "backend_inv b'"
    using inv2 wf same unfolding backend_inv_def state_ok_def index_ok_def expiry_ok_def timers_ok_def
    by (simp add: b' gone(2) b0_def)
  moreover have "row_at b' sk = Some (expiry_for d now, desc_dumps d v)" by (simp add: row_at_def b' gone(2) dec)
  moreover have "row_at b' sk' = row_at b sk'" if "sk' \<noteq> sk" for sk' using that by (simp add: row_at_def b' gone(2))
  ultimately show thesis using that [OF k] k(1) by (simp add: b' gone(2))
qed

lemma delete_state_spec:
  assumes inv: "backend_inv b" and p: "delete_state d ns b = (Inr (), b')"
  obtains k sk where "selected_key b = Some k" "encode_state_key (codec b) (desc_name d) k ns = Inr sk"
    "backend_inv b'" "codec b' = codec b" "selected_key b' = Some k" "timer_table b' = timer_table b"
    "row_at b' sk = None" "\<And>sk'. sk' \<noteq> sk \<Longrightarrow> row_at b' sk' = row_at b sk'"
proof -
  from p obtain sk where sk: "state_key (desc_name d) ns b = Inr sk"
    by (auto simp: delete_state_def split: sum.splits)
  then obtain k where k: "selected_key b = Some k" "encode_state_key (codec b) (desc_name d) k ns = Inr sk"
    by (metis state_key_Inr)
  have "\<exists>gone. (\<forall>xk \<in> gone. \<exists>x. encode_expiry_key x sk = Inr xk) \<and>
      b' = b\<lparr>state_table := AList.delete sk (state_table b),
             expiry_table := filter (\<lambda>(xk, _). xk \<notin> gone) (expiry_table b)\<rparr>"
  proof (cases "map_of (state_table b) sk")
    case None
    then have "AList.delete sk (state_table b) = state_table b" by (simp add: map_of_eq_None_iff)
    then show ?thesis using p sk None by (intro exI [of _ "{}"]) (simp add: delete_state_def)
  next
    case (Some old)
    then show ?thesis
      using p sk drop_expiry_Inr [of old sk "b\<lparr>state_table := AList.delete sk (state_table b)\<rparr>" b']
      by (auto simp: delete_state_def)
  qed
  then obtain gone where gone: "\<And>xk. xk \<in> gone \<Longrightarrow> \<exists>x. encode_expiry_key x sk = Inr xk"
    "b' = b\<lparr>state_table := AList.delete sk (state_table b),
            expiry_table := filter (\<lambda>(xk, _). xk \<notin> gone) (expiry_table b)\<rparr>" by blast
  have "backend_inv b'" unfolding gone(2) by (rule remove_row_inv [OF inv gone(1)])
  then show thesis using that [OF k] k(1) by (simp add: gone(2) row_at_def)
qed

definition refreshes :: "'v descriptor \<Rightarrow> bool" where
  "refreshes d \<longleftrightarrow> (case desc_ttl d of None \<Rightarrow> False | Some t \<Rightarrow> update_type t = ON_READ_AND_WRITE)"

text \<open>What a read without refresh returns for a row: the payload unless it is hidden as expired.\<close>

definition visible :: "'v descriptor \<Rightarrow> int \<Rightarrow> (int option \<times> bytes) option \<Rightarrow> 'v option" where
  "visible d now row =
     (case row of
        None \<Rightarrow> None
      | Some (expires, payload) \<Rightarrow>
          if (case expires of None \<Rightarrow> False | Some e \<Rightarrow> e \<le> now) \<and>
             (case desc_ttl d of None \<Rightarrow> True | Some t \<Rightarrow> visibility t = NEVER_RETURN_EXPIRED)
          then None else Some (desc_loads d payload))"

lemma get_state_spec:
  assumes inv: "backend_inv b" and k: "selected_key b = Some k"
    and sk: "encode_state_key (codec b) (desc_name d) k ns = Inr sk" and nr: "\<not> refreshes d"
  shows "fst (get_state d ns now now' b) = Inr (visible d now (row_at b sk)) \<and>
    backend_inv (snd (get_state d ns now now' b)) \<and>
    codec (snd (get_state d ns now now' b)) = codec b \<and> selected_key (snd (get_state d ns now now' b)) = Some k"
proof -
  have key: "state_key (desc_name d) ns b = Inr sk" using k sk by (simp add: state_key_def current_key_def)
  have gone: "backend_inv (b\<lparr>state_table := AList.delete sk (state_table b)\<rparr>)"
    using remove_row_inv [OF inv, of "{}" sk] by simp
  show ?thesis
  proof (cases "map_of (state_table b) sk")
    case None
    then show ?thesis using key k inv by (simp add: get_state_def row_at_def visible_def)
  next
    case (Some ev)
    then obtain e p where dec: "decode_state_value ev = Inr (e, p)"
      using inv state_okD [of b sk ev] by (auto simp: backend_inv_def)
    have nr': "\<not> (case desc_ttl d of None \<Rightarrow> False | Some t \<Rightarrow> update_type t = ON_READ_AND_WRITE)"
      using nr by (simp add: refreshes_def)
    show ?thesis
    proof (cases "(case e of None \<Rightarrow> False | Some e \<Rightarrow> e \<le> now) \<and>
         (case desc_ttl d of None \<Rightarrow> True | Some t \<Rightarrow> visibility t = NEVER_RETURN_EXPIRED)")
      case True
      then show ?thesis using key k gone Some dec by (simp add: get_state_def row_at_def visible_def)
    next
      case False
      then show ?thesis using key k inv gone Some dec nr'
        by (simp add: get_state_def row_at_def visible_def Let_def del: split_paired_Ex)
    qed
  qed
qed

subsection \<open>Expiry\<close>

definition unexpired :: "int \<Rightarrow> (int option \<times> bytes) option \<Rightarrow> (int option \<times> bytes) option" where
  "unexpired now row = (case row of Some (Some e, p) \<Rightarrow> if e \<le> now then None else row | _ \<Rightarrow> row)"

lemma row_at_index:
  assumes "backend_inv b" "row_at b sk = Some (Some e, p)"
  shows "\<exists>xk. encode_expiry_key e sk = Inr xk \<and> xk \<in> set (keys (expiry_table b))"
proof -
  obtain ev where ev: "map_of (state_table b) sk = Some ev" "decode_state_value ev = Inr (Some e, p)"
    using assms(2) by (auto simp: row_at_def split: option.splits sum.splits)
  have "index_ok b" using assms(1) by (simp add: backend_inv_def)
  from index_okD [OF this ev] show ?thesis .
qed

lemma nothing_expired:
  assumes "backend_inv b"
    "\<And>xk e sk. xk \<in> set (keys (expiry_table b)) \<Longrightarrow> encode_expiry_key e sk = Inr xk \<Longrightarrow> now < e"
  shows "unexpired now (row_at b sk) = row_at b sk"
proof (cases "row_at b sk")
  case (Some r)
  obtain e p where r: "r = (e, p)" by (cases r)
  show ?thesis
  proof (cases e)
    case (Some x)
    with r \<open>row_at b sk = Some r\<close> obtain xk where "encode_expiry_key x sk = Inr xk" "xk \<in> set (keys (expiry_table b))"
      using row_at_index [OF assms(1)] by blast
    then have "now < x" using assms(2) by blast
    with r Some \<open>row_at b sk = Some r\<close> show ?thesis by (simp add: unexpired_def)
  qed (use r \<open>row_at b sk = Some r\<close> in \<open>simp add: unexpired_def\<close>)
qed (simp add: unexpired_def)

lemma remove_stale_inv:
  assumes inv: "backend_inv b" and xk: "encode_expiry_key e sk = Inr xk"
    and stale: "\<And>p. row_at b sk \<noteq> Some (Some e, p)"
  shows "backend_inv (b\<lparr>expiry_table := AList.delete xk (expiry_table b)\<rparr>)"
proof -
  let ?b = "b\<lparr>expiry_table := AList.delete xk (expiry_table b)\<rparr>"
  have "index_ok ?b"
    unfolding index_ok_def
  proof (intro allI impI)
    fix sk' ev x p assume a: "map_of (state_table ?b) sk' = Some ev \<and> decode_state_value ev = Inr (Some x, p)"
    then have row: "row_at b sk' = Some (Some x, p)" by (simp add: row_at_def)
    from row_at_index [OF inv this] obtain y where
      y: "encode_expiry_key x sk' = Inr y" "y \<in> set (keys (expiry_table b))" by blast
    have "y \<noteq> xk" using encode_expiry_key_inject [OF y(1)] xk row stale by blast
    with y show "\<exists>xk. encode_expiry_key x sk' = Inr xk \<and> xk \<in> set (keys (expiry_table ?b))" by auto
  qed
  moreover have "expiry_ok ?b"
  proof -
    have "set (keys (expiry_table ?b)) \<subseteq> set (keys (expiry_table b))" by auto
    moreover have "expiry_ok b" using inv by (simp add: backend_inv_def)
    ultimately show ?thesis unfolding expiry_ok_def by fastforce
  qed
  ultimately show ?thesis
    using inv by (simp add: backend_inv_def state_ok_def timers_ok_def)
qed

lemma expiry_order:
  assumes "encode_expiry_key e sk = Inr x" "encode_expiry_key e' sk' = Inr x'" "x \<le> x'"
  shows "e \<le> e'"
proof (cases "x = x'")
  case True
  then show ?thesis using encode_expiry_key_inject assms by blast
next
  case False
  with assms(3) have "x < x'" by simp
  with encode_expiry_key_Inr [OF assms(1)] encode_expiry_key_Inr [OF assms(2)] show ?thesis
    using time_prefix_less [of e e' sk sk'] by blast
qed

lemma expire_row_inv:
  assumes inv: "backend_inv b" and xk: "encode_expiry_key e sk = Inr xk"
  shows "backend_inv (b\<lparr>state_table := if \<exists>p. row_at b sk = Some (Some e, p) then AList.delete sk (state_table b) else state_table b,
    expiry_table := AList.delete xk (expiry_table b)\<rparr>)"
proof (cases "\<exists>p. row_at b sk = Some (Some e, p)")
  case True
  then show ?thesis using remove_row_inv [OF inv, of "{xk}" sk] xk by (auto simp: delete_as_filter [of xk])
next
  case False
  then show ?thesis using remove_stale_inv [OF inv xk] by auto
qed

lemma expire_row_hit:
  assumes inv: "backend_inv b"
  shows "(case map_of (state_table b) sk of None \<Rightarrow> Inr False
    | Some encoded \<Rightarrow> rbind (decode_state_value encoded) (\<lambda>(x, _). Inr (x = Some e))) = Inr (\<exists>p. row_at b sk = Some (Some e, p))"
proof (cases "map_of (state_table b) sk")
  case (Some ev)
  have "state_ok b" using inv by (simp add: backend_inv_def)
  then obtain r where "decode_state_value ev = Inr r" using state_okD Some by blast
  with Some show ?thesis by (cases r) (simp add: row_at_def)
qed (simp add: row_at_def)

lemma expire_scan_spec:
  assumes "backend_inv b" "sorted xks" "set xks \<subseteq> set (keys (expiry_table b))" "distinct xks"
    and "\<And>xk e sk. xk \<in> set (keys (expiry_table b)) \<Longrightarrow> encode_expiry_key e sk = Inr xk \<Longrightarrow> e \<le> now \<Longrightarrow> xk \<in> set xks"
  shows "\<exists>m b'. expire_scan now None n xks b = (Inr m, b') \<and> backend_inv b' \<and> codec b' = codec b \<and>
    selected_key b' = selected_key b \<and> timer_table b' = timer_table b \<and>
    (\<forall>sk. row_at b' sk = unexpired now (row_at b sk))"
  using assms
proof (induction xks arbitrary: b n)
  case Nil
  then have "unexpired now (row_at b sk) = row_at b sk" for sk
    using nothing_expired [OF Nil(1)] by (metis empty_iff linorder_not_less list.set(1))
  then show ?case using Nil(1) by simp
next
  case (Cons xk xks)
  have "expiry_ok b" using Cons.prems(1) by (simp add: backend_inv_def)
  moreover have "xk \<in> set (keys (expiry_table b))" using Cons.prems(3) by simp
  ultimately obtain e sk where xk: "encode_expiry_key e sk = Inr xk" unfolding expiry_ok_def by blast
  note dec = decode_encode_expiry_key [OF xk]
  show ?case
  proof (cases "e > now")
    case True
    have "now < e'" if y: "y \<in> set (keys (expiry_table b))" "encode_expiry_key e' sk' = Inr y" for y e' sk'
    proof (rule ccontr)
      assume "\<not> now < e'"
      then have "y \<in> set (xk # xks)" using Cons.prems(5) [OF y] by simp
      then have "xk \<le> y" using Cons.prems(2) by auto
      then have "e \<le> e'" using expiry_order [OF xk y(2)] by blast
      with True \<open>\<not> now < e'\<close> show False by simp
    qed
    then have "unexpired now (row_at b sk') = row_at b sk'" for sk'
      by (intro nothing_expired [OF Cons.prems(1)])
    then show ?thesis using dec True Cons.prems(1) by simp
  next
    case False
    define hit where "hit \<longleftrightarrow> (\<exists>p. row_at b sk = Some (Some e, p))"
    define b2 where "b2 = b\<lparr>state_table := if hit then AList.delete sk (state_table b) else state_table b,
      expiry_table := AList.delete xk (expiry_table b)\<rparr>"
    have inv2: "backend_inv b2" unfolding b2_def hit_def by (rule expire_row_inv [OF Cons.prems(1) xk])
    have look: "(case map_of (state_table b) sk of None \<Rightarrow> Inr False
        | Some encoded \<Rightarrow> rbind (decode_state_value encoded) (\<lambda>(x, _). Inr (x = Some e))) = Inr hit"
      unfolding hit_def by (rule expire_row_hit [OF Cons.prems(1)])
    have keys2: "set (keys (expiry_table b2)) = set (keys (expiry_table b)) - {xk}" by (simp add: b2_def)
    have "\<exists>m b'. expire_scan now None (Suc n) xks b2 = (Inr m, b') \<and> backend_inv b' \<and> codec b' = codec b2 \<and>
        selected_key b' = selected_key b2 \<and> timer_table b' = timer_table b2 \<and>
        (\<forall>sk. row_at b' sk = unexpired now (row_at b2 sk))"
    proof (rule Cons.IH [OF inv2])
      show "sorted xks" "distinct xks" using Cons.prems(2,4) by simp_all
      show "set xks \<subseteq> set (keys (expiry_table b2))" using Cons.prems(3,4) unfolding keys2 by auto
      show "y \<in> set xks" if "y \<in> set (keys (expiry_table b2))" "encode_expiry_key e' sk' = Inr y" "e' \<le> now" for y e' sk'
        using Cons.prems(5) [of y e' sk'] that unfolding keys2 by auto
    qed
    then obtain m b' where IH: "expire_scan now None (Suc n) xks b2 = (Inr m, b')" "backend_inv b'" "codec b' = codec b2"
        "selected_key b' = selected_key b2" "timer_table b' = timer_table b2"
        "\<And>sk. row_at b' sk = unexpired now (row_at b2 sk)" by blast
    have rows: "unexpired now (row_at b2 sk') = unexpired now (row_at b sk')" for sk'
    proof (cases "hit \<and> sk' = sk")
      case True
      then have "row_at b2 sk' = None" by (simp add: b2_def row_at_def)
      with True False show ?thesis by (auto simp: hit_def unexpired_def)
    next
      case False
      then have "row_at b2 sk' = row_at b sk'" by (auto simp: b2_def row_at_def)
      then show ?thesis by simp
    qed
    have b2': "(let b1 = (if hit then b\<lparr>state_table := AList.delete sk (state_table b)\<rparr> else b)
        in b1\<lparr>expiry_table := AList.delete xk (expiry_table b1)\<rparr>) = b2"
      by (simp add: b2_def Let_def)
    have "expire_scan now None n (xk # xks) b = (Inr ((if hit then 1 else 0) + m), b')"
      using dec False look IH(1) b2' by (simp add: Let_def)
    with IH rows show ?thesis by (simp add: b2_def)
  qed
qed

subsection \<open>Timers\<close>

text \<open>A timer row written for an event, and the due rows of a domain.\<close>

definition timer_row :: "'k codec \<Rightarrow> 'k timer_event \<Rightarrow> bytes \<Rightarrow> bytes \<Rightarrow> bool" where
  "timer_row c ev tk tv \<longleftrightarrow>
     encode_timer_key c (timer_timestamp ev) (timer_key ev) (timer_namespace ev) (timer_event_domain ev) = Inr tk \<and>
     tv = encode_timer_value c (timer_key ev) (timer_namespace ev)"

definition row_time :: "bytes \<Rightarrow> int" where
  "row_time tk = unpack_unsigned (slice 1 9 tk)"

definition due :: "int \<Rightarrow> timer_domain \<Rightarrow> bytes \<Rightarrow> bool" where
  "due ts td tk \<longleftrightarrow> starts_with (timer_prefix td) tk \<and> row_time tk \<le> ts"

lemma timer_row_decode:
  assumes "codec_ok c" "timer_row c ev tk tv"
  shows "decode_timer c tk tv = Inr (timer_timestamp ev, timer_key ev, timer_namespace ev) \<and>
    row_time tk = timer_timestamp ev \<and> (starts_with (timer_prefix td) tk \<longleftrightarrow> timer_event_domain ev = td)"
proof -
  from assms(2) have e: "encode_timer_key c (timer_timestamp ev) (timer_key ev) (timer_namespace ev) (timer_event_domain ev) = Inr tk"
    and tv: "tv = encode_timer_value c (timer_key ev) (timer_namespace ev)" by (simp_all add: timer_row_def)
  note dec = decode_encode_timer [OF assms(1) e]
  from e obtain p where "tk = timer_prefix (timer_event_domain ev) @ be_bytes 8 (nat (timer_timestamp ev)) @ sha256 c p"
    by (rule encode_timer_key_Inr)
  then have "starts_with (timer_prefix td) tk \<longleftrightarrow> timer_event_domain ev = td"
    by (auto simp: starts_with_def)
  moreover have "row_time tk = timer_timestamp ev"
    using dec by (auto simp: decode_timer_def row_time_def split: if_splits prod.splits)
  ultimately show ?thesis using dec tv by simp
qed

lemma timer_order:
  assumes "codec_ok c" "timer_row c ev tk tv" "timer_row c ev' tk' tv'" "tk \<le> tk'"
    "timer_event_domain ev = timer_event_domain ev'"
  shows "timer_timestamp ev \<le> timer_timestamp ev'"
proof -
  from assms(2) obtain p where p: "0 \<le> timer_timestamp ev" "timer_timestamp ev < 256 ^ 8"
      "tk = timer_prefix (timer_event_domain ev) @ be_bytes 8 (nat (timer_timestamp ev)) @ sha256 c p"
    unfolding timer_row_def by (blast elim: encode_timer_key_Inr)
  from assms(3) obtain p' where p': "0 \<le> timer_timestamp ev'" "timer_timestamp ev' < 256 ^ 8"
      "tk' = timer_prefix (timer_event_domain ev') @ be_bytes 8 (nat (timer_timestamp ev')) @ sha256 c p'"
    unfolding timer_row_def by (blast elim: encode_timer_key_Inr)
  show ?thesis
  proof (cases "tk = tk'")
    case True
    then show ?thesis
      using timer_row_decode [OF assms(1,2)] timer_row_decode [OF assms(1,3)] by (metis order_refl)
  next
    case False
    with assms(4) have "tk < tk'" by simp
    then have "be_bytes 8 (nat (timer_timestamp ev)) @ sha256 c p <
        be_bytes 8 (nat (timer_timestamp ev')) @ sha256 c p'"
      unfolding p(3) p'(3) assms(5) lex_append_same_left .
    then show ?thesis by (rule time_prefix_less [OF p(1,2) p'(1,2)])
  qed
qed

lemma scan_due_spec:
  assumes c: "codec_ok c" and "sorted tks"
    and rows: "\<And>tk. tk \<in> set tks \<Longrightarrow> \<exists>ev. timer_row c ev tk (dict_get timers tk [])"
  shows "\<exists>evs. scan_due c timers ts td None n tks = Inr evs \<and>
    list_all2 (\<lambda>ev tk. timer_row c ev tk (dict_get timers tk [])) evs (filter (due ts td) tks) \<and>
    (\<forall>ev \<in> set evs. timer_event_domain ev = td \<and> timer_timestamp ev \<le> ts)"
  using assms(2,3)
proof (induction tks arbitrary: n)
  case (Cons tk tks)
  obtain ev where ev: "timer_row c ev tk (dict_get timers tk [])" using Cons.prems(2) by force
  note dec = timer_row_decode [OF c ev]
  have IH: "\<exists>evs. scan_due c timers ts td None m tks = Inr evs \<and>
      list_all2 (\<lambda>ev tk. timer_row c ev tk (dict_get timers tk [])) evs (filter (due ts td) tks) \<and>
      (\<forall>ev \<in> set evs. timer_event_domain ev = td \<and> timer_timestamp ev \<le> ts)" for m
    by (rule Cons.IH) (use Cons.prems in auto)
  consider "timer_event_domain ev \<noteq> td" | "timer_event_domain ev = td" "timer_timestamp ev > ts"
    | "timer_event_domain ev = td" "timer_timestamp ev \<le> ts" by fastforce
  then show ?case
  proof cases
    case 1
    then have "\<not> starts_with (timer_prefix td) tk" using dec by blast
    then have "filter (due ts td) (tk # tks) = filter (due ts td) tks"
      "scan_due c timers ts td None n (tk # tks) = scan_due c timers ts td None n tks"
      by (simp_all add: due_def)
    with IH show ?thesis by (simp only:)
  next
    case 2
    have "\<not> due ts td tk'" if m: "tk' \<in> set tks" for tk'
    proof
      assume d: "due ts td tk'"
      obtain ev' where ev': "timer_row c ev' tk' (dict_get timers tk' [])" using Cons.prems(2) [OF list.set_intros(2) [OF m]] by blast
      note dec' = timer_row_decode [OF c ev']
      have "timer_timestamp ev \<le> timer_timestamp ev'"
      proof (rule timer_order [OF c ev ev'])
        show "tk \<le> tk'" using Cons.prems(1) m by simp
        show "timer_event_domain ev = timer_event_domain ev'" using d dec' [of td] 2(1) by (simp add: due_def)
      qed
      moreover have "timer_timestamp ev' \<le> ts" using d dec' [of td] by (simp add: due_def)
      ultimately show False using 2(2) by simp
    qed
    then have "filter (due ts td) (tk # tks) = []" using 2 dec by (auto simp: due_def filter_empty_conv)
    moreover have "scan_due c timers ts td None n (tk # tks) = Inr []" using 2 dec by simp
    ultimately show ?thesis by simp
  next
    case 3
    obtain evs where evs: "scan_due c timers ts td None (Suc n) tks = Inr evs"
      "list_all2 (\<lambda>ev tk. timer_row c ev tk (dict_get timers tk [])) evs (filter (due ts td) tks)"
      "\<forall>ev \<in> set evs. timer_event_domain ev = td \<and> timer_timestamp ev \<le> ts" using IH by blast
    have rec: "\<lparr>timer_timestamp = timer_timestamp ev, timer_key = timer_key ev, timer_namespace = timer_namespace ev,
        timer_event_domain = td\<rparr> = ev" using 3(1) by (cases ev) simp
    have "scan_due c timers ts td None n (tk # tks) = Inr (ev # evs)"
      using 3 dec evs(1) rec by (simp add: Let_def)
    moreover have "due ts td tk" using 3 dec by (simp add: due_def)
    ultimately show ?thesis using evs ev 3 by simp
  qed
qed simp

lemma remove_timers_spec:
  assumes "list_all2 (\<lambda>ev tk. timer_row c ev tk (f tk)) evs tks"
  shows "remove_timers c evs timers = Inr (filter (\<lambda>(tk, _). tk \<notin> set tks) timers)"
  using assms
proof (induction evs tks arbitrary: timers rule: list_all2_induct)
  case (Cons ev evs tk tks)
  have "filter (\<lambda>(k, _). k \<notin> set tks) (AList.delete tk timers) = filter (\<lambda>(k, _). k \<notin> set (tk # tks)) timers"
    by (induction timers) auto
  with Cons show ?case by (simp add: timer_row_def)
qed simp

lemma timer_rows_exist:
  assumes "backend_inv b" "tk \<in> set (keys (timer_table b))"
  shows "\<exists>ev. timer_row (codec b) ev tk (dict_get (timer_table b) tk [])"
proof -
  obtain tv where tv: "map_of (timer_table b) tk = Some tv" using assms(2) by (auto simp: map_of_eq_None_iff dest: weak_map_of_SomeI)
  have "timers_ok b" using assms(1) by (simp add: backend_inv_def)
  then obtain ts k s d where "encode_timer_key (codec b) ts k s d = Inr tk" "tv = encode_timer_value (codec b) k s"
    using tv unfolding timers_ok_def by blast
  then have "timer_row (codec b) \<lparr>timer_timestamp = ts, timer_key = k, timer_namespace = s, timer_event_domain = d\<rparr> tk tv"
    by (simp add: timer_row_def)
  then show ?thesis using tv by (auto simp: dict_get_def)
qed

lemma sorted_events:
  assumes "codec_ok c" "sorted tks" "list_all2 (\<lambda>ev tk. timer_row c ev tk (f tk)) evs tks"
    "\<forall>ev \<in> set evs. timer_event_domain ev = td"
  shows "sorted (map timer_timestamp evs)"
  unfolding sorted_iff_nth_mono_less
proof (intro allI impI)
  fix i j assume ij: "i < j" "j < length (map timer_timestamp evs)"
  have len: "length evs = length tks" using assms(3) by (rule list_all2_lengthD)
  have r: "timer_row c (evs ! i) (tks ! i) (f (tks ! i))" "timer_row c (evs ! j) (tks ! j) (f (tks ! j))"
    using assms(3) ij len by (auto simp: list_all2_conv_all_nth)
  have "tks ! i \<le> tks ! j" using assms(2) ij len by (simp add: sorted_iff_nth_mono)
  from timer_order [OF assms(1) r this] assms(4) ij
  show "map timer_timestamp evs ! i \<le> map timer_timestamp evs ! j" by simp
qed

lemma pop_due_timers_spec:
  assumes inv: "backend_inv b"
  shows "\<exists>evs b'. pop_due_timers ts td None b = Inr (evs, b') \<and>
    sorted (map timer_timestamp evs) \<and>
    (\<forall>ev \<in> set evs. timer_event_domain ev = td \<and> timer_timestamp ev \<le> ts) \<and>
    list_all2 (\<lambda>ev tk. timer_row (codec b) ev tk (dict_get (timer_table b) tk [])) evs
      (filter (due ts td) (sort (keys (timer_table b)))) \<and>
    timer_table b' = filter (\<lambda>(tk, _). \<not> due ts td tk) (timer_table b) \<and>
    state_table b' = state_table b \<and> expiry_table b' = expiry_table b"
proof -
  let ?tks = "sort (keys (timer_table b))"
  have c: "codec_ok (codec b)" using inv by (simp add: backend_inv_def)
  have "\<exists>ev. timer_row (codec b) ev tk (dict_get (timer_table b) tk [])" if "tk \<in> set ?tks" for tk
    by (rule timer_rows_exist [OF inv]) (use that in simp)
  from scan_due_spec [OF c _ this, of ?tks, where ts = ts and td = td and n = 0] obtain evs where
    evs: "scan_due (codec b) (timer_table b) ts td None 0 ?tks = Inr evs"
      "list_all2 (\<lambda>ev tk. timer_row (codec b) ev tk (dict_get (timer_table b) tk [])) evs (filter (due ts td) ?tks)"
      "\<forall>ev \<in> set evs. timer_event_domain ev = td \<and> timer_timestamp ev \<le> ts" by auto
  have "filter (\<lambda>(tk, _). tk \<notin> set (filter (due ts td) ?tks)) (timer_table b) =
      filter (\<lambda>(tk, _). \<not> due ts td tk) (timer_table b)"
    by (rule filter_cong) (force simp: image_iff)+
  then have "remove_timers (codec b) evs (timer_table b) = Inr (filter (\<lambda>(tk, _). \<not> due ts td tk) (timer_table b))"
    using remove_timers_spec [OF evs(2), of "timer_table b"] by simp
  moreover have "sorted (map timer_timestamp evs)"
    by (rule sorted_events [OF c _ evs(2)]) (use evs(3) in \<open>auto simp: sorted_wrt_filter\<close>)
  ultimately show ?thesis using evs by (simp add: pop_due_timers_def)
qed

text \<open>
  Due timers fire exactly once and in time order: popping the timers of a domain up to a time
  returns one event for every registered timer of that domain with a time stamp up to it, sorted
  by time, removes exactly those rows, and leaves every later timer and the other domain untouched.
\<close>

theorem pop_due_timers_exact:
  assumes inv: "backend_inv b"
  shows "\<exists>evs b'. pop_due_timers ts td None b = Inr (evs, b') \<and>
    sorted (map timer_timestamp evs) \<and>
    (\<forall>ev \<in> set evs. timer_event_domain ev = td \<and> timer_timestamp ev \<le> ts) \<and>
    list_all2 (\<lambda>ev tk. timer_row (codec b) ev tk (dict_get (timer_table b) tk [])) evs
      (filter (due ts td) (sort (keys (timer_table b)))) \<and>
    timer_table b' = filter (\<lambda>(tk, _). \<not> due ts td tk) (timer_table b) \<and>
    state_table b' = state_table b \<and> expiry_table b' = expiry_table b"
  by (rule pop_due_timers_spec [OF inv])

definition demo_backend :: "bytes backend" where
  "demo_backend = (set_current_key [7] (make_backend demo_codec))"

lemma demo_backend_inv: "backend_inv demo_backend"
  unfolding demo_backend_def by (intro set_current_key_inv make_backend_inv demo_codec_ok)

theorem pop_due_timers_exact_witness:
  "backend_inv demo_backend \<and> (\<exists>evs b'. pop_due_timers 10 EVENT_TIME None demo_backend = Inr (evs, b'))"
  using pop_due_timers_exact [OF demo_backend_inv] demo_backend_inv by blast

subsection \<open>Keyed reads and writes\<close>


definition demo_descriptor :: "bytes descriptor" where
  "demo_descriptor = \<lparr>desc_name = ''sum'', desc_dumps = id, desc_loads = id, desc_ttl = None\<rparr>"


text \<open>
  Cleanup removes expired state exactly: \<open>cleanup_expired\<close> without a limit ends without an
  error, removes the rows whose expiry is not after the given time and no other row, even when the
  expiry index holds stale entries, and keeps the invariant.
\<close>

theorem cleanup_expired_exact:
  assumes "backend_inv b"
  shows "\<exists>m b'. cleanup_expired now None b = (Inr m, b') \<and> backend_inv b' \<and> timer_table b' = timer_table b \<and>
    (\<forall>sk. row_at b' sk =
       (case row_at b sk of Some (Some e, p) \<Rightarrow> if e \<le> now then None else Some (Some e, p) | r \<Rightarrow> r))"
proof -
  have "\<exists>m b'. expire_scan now None 0 (sort (keys (expiry_table b))) b = (Inr m, b') \<and> backend_inv b' \<and>
      codec b' = codec b \<and> selected_key b' = selected_key b \<and> timer_table b' = timer_table b \<and>
      (\<forall>sk. row_at b' sk = unexpired now (row_at b sk))"
    by (rule expire_scan_spec [OF assms]) (use assms in \<open>auto simp: backend_inv_def\<close>)
  then obtain m b' where r: "expire_scan now None 0 (sort (keys (expiry_table b))) b = (Inr m, b')"
    "backend_inv b'" "timer_table b' = timer_table b" "\<And>sk. row_at b' sk = unexpired now (row_at b sk)" by blast
  moreover have "unexpired now row = (case row of Some (Some e, p) \<Rightarrow> if e \<le> now then None else Some (Some e, p) | r \<Rightarrow> r)"
    for row by (auto simp: unexpired_def split: option.splits)
  ultimately show ?thesis by (simp add: cleanup_expired_def)
qed

theorem cleanup_expired_exact_witness:
  "backend_inv demo_backend \<and> (\<exists>m b'. cleanup_expired 5 None demo_backend = (Inr m, b') \<and> backend_inv b')"
  using cleanup_expired_exact [OF demo_backend_inv] demo_backend_inv by blast

end
