(* ===== verification/StateRescale.thy ===== *)
theory StateRescale
  imports StateBackend
begin

section \<open>Redistribution of keyed state by key group\<close>

text \<open>
  What \<open>snapshot_key_groups\<close> and \<open>restore_key_groups\<close> of the memory backend do to the three
  tables. The loops that fill the buckets differ only in the table they add to, which is the
  interface \<open>table_slot\<close>; its interpretations are the state, expiry and timer tables.
\<close>

abbreviation no_tables :: group_tables where
  "no_tables \<equiv> ([], [], [])"

definition bucket_row :: "(group_tables \<Rightarrow> (bytes, bytes) dict) \<Rightarrow> (int, group_tables) dict \<Rightarrow> int \<Rightarrow> bytes \<Rightarrow> bytes option" where
  "bucket_row sel B g x = map_of (sel (dict_get B g no_tables)) x"

text \<open>The group of a row, and the buckets that hold exactly the requested rows of a table.\<close>

definition group_of :: "(bytes \<times> bytes \<Rightarrow> int result) \<Rightarrow> bytes \<times> bytes \<Rightarrow> int" where
  "group_of grp row = (case grp row of Inr g \<Rightarrow> g | Inl _ \<Rightarrow> 0)"

lemma group_of_eq: "\<exists>g. grp row = Inr g \<Longrightarrow> grp row = Inr (group_of grp row)"
  by (auto simp: group_of_def)

definition bucketed ::
  "(group_tables \<Rightarrow> (bytes, bytes) dict) \<Rightarrow> (bytes \<times> bytes \<Rightarrow> int result) \<Rightarrow> int set \<Rightarrow> (bytes, bytes) dict \<Rightarrow>
   (int, group_tables) dict \<Rightarrow> bool" where
  "bucketed sel grp R T B \<longleftrightarrow>
     (\<forall>g. wf_dict (sel (dict_get B g no_tables))) \<and>
     (\<forall>g x. bucket_row sel B g x = (case map_of T x of
        Some v \<Rightarrow> if group_of grp (x, v) = g \<and> g \<in> R then Some v else None | None \<Rightarrow> None))"

lemma bucketed_cong:
  "(\<And>g. sel (dict_get B g no_tables) = sel (dict_get B' g no_tables)) \<Longrightarrow>
   bucketed sel grp R T B = bucketed sel grp R T B'"
  by (simp add: bucketed_def bucket_row_def)

locale table_slot =
  fixes sel :: "group_tables \<Rightarrow> (bytes, bytes) dict"
    and others :: "group_tables \<Rightarrow> (bytes, bytes) dict \<times> (bytes, bytes) dict"
    and add :: "bytes \<times> bytes \<Rightarrow> group_tables \<Rightarrow> group_tables"
  assumes sel_add: "sel (add row t) = AList.update (fst row) (snd row) (sel t)"
    and others_add: "others (add row t) = others t"
begin

lemma bucket_table_spec:
  assumes "\<And>row. row \<in> set rows \<Longrightarrow> grp row = Inr (G row)" "wf_dict rows" "wf_dict B"
    "\<And>g. wf_dict (sel (dict_get B g no_tables))"
  shows "\<exists>B'. bucket_table grp R add rows B = Inr B' \<and> wf_dict B' \<and> set (keys B') \<subseteq> set (keys B) \<union> R \<and>
    (\<forall>g. wf_dict (sel (dict_get B' g no_tables))) \<and>
    (\<forall>g. others (dict_get B' g no_tables) = others (dict_get B g no_tables)) \<and>
    (\<forall>g x. bucket_row sel B' g x =
       (case map_of rows x of
          Some v \<Rightarrow> if G (x, v) = g \<and> g \<in> R then Some v else bucket_row sel B g x
        | None \<Rightarrow> bucket_row sel B g x))"
  using assms
proof (induction rows arbitrary: B)
  case (Cons row rows)
  obtain k v where row: "row = (k, v)" by (cases row)
  let ?g = "G row"
  define B1 where "B1 = (if ?g \<in> R then AList.update ?g (add row (dict_get B ?g no_tables)) B else B)"
  have get1: "dict_get B1 g no_tables =
      (if g = ?g \<and> ?g \<in> R then add row (dict_get B ?g no_tables) else dict_get B g no_tables)" for g
    by (simp add: B1_def dict_get_def)
  have row1: "bucket_row sel B1 g x =
      (if x = k \<and> g = ?g \<and> ?g \<in> R then Some v else bucket_row sel B g x)" for g x
    by (simp add: bucket_row_def get1 sel_add row)
  have "\<exists>B'. bucket_table grp R add rows B1 = Inr B' \<and> wf_dict B' \<and> set (keys B') \<subseteq> set (keys B1) \<union> R \<and>
    (\<forall>g. wf_dict (sel (dict_get B' g no_tables))) \<and>
    (\<forall>g. others (dict_get B' g no_tables) = others (dict_get B1 g no_tables)) \<and>
    (\<forall>g x. bucket_row sel B' g x =
       (case map_of rows x of
          Some v \<Rightarrow> if G (x, v) = g \<and> g \<in> R then Some v else bucket_row sel B1 g x
        | None \<Rightarrow> bucket_row sel B1 g x))"
  proof (rule Cons.IH)
    show "wf_dict B1" using Cons.prems(3) by (simp add: B1_def)
    show "wf_dict (sel (dict_get B1 g no_tables))" for g using Cons.prems(4) by (simp add: get1 sel_add)
  qed (use Cons.prems(1,2) in simp_all)
  then obtain B' where B': "bucket_table grp R add rows B1 = Inr B'" "wf_dict B'"
      "set (keys B') \<subseteq> set (keys B1) \<union> R" "\<And>g. wf_dict (sel (dict_get B' g no_tables))"
      "\<And>g. others (dict_get B' g no_tables) = others (dict_get B1 g no_tables)"
      "\<And>g x. bucket_row sel B' g x = (case map_of rows x of
          Some v \<Rightarrow> if G (x, v) = g \<and> g \<in> R then Some v else bucket_row sel B1 g x
        | None \<Rightarrow> bucket_row sel B1 g x)" by blast
  have run: "bucket_table grp R add (row # rows) B = Inr B'"
    using B'(1) Cons.prems(1) by (simp add: B1_def)
  have "set (keys B') \<subseteq> set (keys B) \<union> R" using B'(3) by (auto simp: B1_def split: if_splits)
  moreover have "others (dict_get B' g no_tables) = others (dict_get B g no_tables)" for g
    by (simp add: B'(5) get1 others_add)
  moreover have "bucket_row sel B' g x = (case map_of (row # rows) x of
          Some v \<Rightarrow> if G (x, v) = g \<and> g \<in> R then Some v else bucket_row sel B g x
        | None \<Rightarrow> bucket_row sel B g x)" for g x
  proof (cases "x = k")
    case True
    then have "map_of rows x = None" using Cons.prems(2) by (simp add: row map_of_eq_None_iff)
    then show ?thesis using True by (auto simp: B'(6) row1 row)
  next
    case False
    then show ?thesis by (simp add: B'(6) row1 row split: option.splits)
  qed
  ultimately show ?case using run B'(2,4) by blast
qed simp

lemma bucket_table_fills:
  assumes "\<And>row. row \<in> set rows \<Longrightarrow> \<exists>g. grp row = Inr g" "wf_dict rows" "wf_dict B" "set (keys B) \<subseteq> R"
    "\<And>g. sel (dict_get B g no_tables) = []"
  shows "\<exists>B'. bucket_table grp R add rows B = Inr B' \<and> wf_dict B' \<and> set (keys B') \<subseteq> R \<and>
    (\<forall>g. others (dict_get B' g no_tables) = others (dict_get B g no_tables)) \<and> bucketed sel grp R rows B'"
proof -
  have e: "wf_dict (sel (dict_get B g no_tables))" "bucket_row sel B g x = None" for g x
    by (simp_all add: assms(5) bucket_row_def)
  obtain B' where B': "bucket_table grp R add rows B = Inr B'" "wf_dict B'"
      "set (keys B') \<subseteq> set (keys B) \<union> R" "\<And>g. wf_dict (sel (dict_get B' g no_tables))"
      "\<And>g. others (dict_get B' g no_tables) = others (dict_get B g no_tables)"
      "\<And>g x. bucket_row sel B' g x = (case map_of rows x of
          Some v \<Rightarrow> if group_of grp (x, v) = g \<and> g \<in> R then Some v else bucket_row sel B g x
        | None \<Rightarrow> bucket_row sel B g x)"
    using bucket_table_spec [of rows grp "group_of grp" B R, OF group_of_eq [OF assms(1)] assms(2,3) e(1)] by blast
  then have "bucketed sel grp R rows B'" unfolding bucketed_def B'(6) e(2) by blast
  moreover have "set (keys B') \<subseteq> R" using B'(3) assms(4) by blast
  ultimately show ?thesis using B'(1,2,5) by blast
qed

end

interpretation state_slot: table_slot fst snd add_state_row
  by unfold_locales (simp_all add: add_state_row_def split: prod.splits)

interpretation expiry_slot: table_slot "\<lambda>t. fst (snd t)" "\<lambda>t. (fst t, snd (snd t))" add_expiry_row
  by unfold_locales (simp_all add: add_expiry_row_def split: prod.splits)

interpretation timer_slot: table_slot "\<lambda>t. snd (snd t)" "\<lambda>t. (fst t, fst (snd t))" add_timer_row
  by unfold_locales (simp_all add: add_timer_row_def split: prod.splits)

subsection \<open>Merging\<close>

lemma update_all_lookup:
  assumes "wf_dict new"
  shows "map_of (update_all new d) x = (case map_of new x of Some v \<Rightarrow> Some v | None \<Rightarrow> map_of d x)"
  using assms
proof (induction new arbitrary: d)
  case (Cons p new)
  obtain k v where p: "p = (k, v)" by (cases p)
  have "map_of new k = None" using Cons.prems p by (simp add: map_of_eq_None_iff)
  then show ?case using Cons by (auto simp: update_all_def p split: option.splits)
qed (simp add: update_all_def)

definition payload_of :: "group_tables \<Rightarrow> snapshot_payload" where
  "payload_of t = (case t of (s, e, m) \<Rightarrow> \<lparr>format_version = PInt 2, key_encoding_version = PInt KEY_ENCODING_VERSION,
     snap_state = Some s, snap_expiry = Some e, snap_timers = Some m\<rparr>)"

lemma check_payload_of [simp]: "check_payload (payload_of t) = Inr ()"
  by (simp add: check_payload_def payload_of_def require_key_encoding_version_def split: prod.splits)

definition merged :: "(group_tables \<Rightarrow> (bytes, bytes) dict) \<Rightarrow> group_tables list \<Rightarrow> (bytes, bytes) dict \<Rightarrow> (bytes, bytes) dict" where
  "merged sel ts d = fold (\<lambda>t. update_all (sel t)) ts d"

lemma merge_payloads_merged:
  "merge_payloads (map payload_of ts) (s, e, m) =
     Inr (merged fst ts s, merged (\<lambda>t. fst (snd t)) ts e, merged (\<lambda>t. snd (snd t)) ts m)"
  by (induction ts arbitrary: s e m) (simp_all add: merged_def payload_of_def split: prod.splits)

text \<open>Tables that agree with one function \<open>f\<close> merge to its restriction to the keys they hold.\<close>

lemma merged_lookup:
  assumes "\<And>t. t \<in> set ts \<Longrightarrow> wf_dict (sel t)" "\<And>t x v. t \<in> set ts \<Longrightarrow> map_of (sel t) x = Some v \<Longrightarrow> f x = Some v"
  shows "map_of (merged sel ts d) x =
    (if \<exists>t \<in> set ts. map_of (sel t) x \<noteq> None then f x else map_of d x)"
  using assms
proof (induction ts arbitrary: d)
  case (Cons t ts)
  have ih: "map_of (merged sel ts (update_all (sel t) d)) x =
      (if \<exists>t \<in> set ts. map_of (sel t) x \<noteq> None then f x else map_of (update_all (sel t) d) x)"
    by (rule Cons.IH) (meson Cons.prems list.set_intros(2))+
  have step: "merged sel (t # ts) d = merged sel ts (update_all (sel t) d)" by (simp add: merged_def)
  have "map_of (update_all (sel t) d) x = (if map_of (sel t) x \<noteq> None then f x else map_of d x)"
  proof (cases "map_of (sel t) x")
    case None
    then show ?thesis using update_all_lookup [of "sel t" d x] Cons.prems(1) [of t] by simp
  next
    case (Some v)
    have "f x = Some v" by (rule Cons.prems(2) [OF _ Some]) simp
    then show ?thesis using update_all_lookup [of "sel t" d x] Cons.prems(1) [of t] Some by simp
  qed
  then show ?case unfolding step ih by auto
qed (simp add: merged_def)

text \<open>Buckets that hold exactly the requested rows of a table merge to those rows.\<close>

lemma merged_buckets:
  assumes B: "wf_dict B" "\<And>g. wf_dict (sel (dict_get B g no_tables))" "sel no_tables = []"
    and row: "\<And>g x. bucket_row sel B g x =
      (case map_of T x of Some v \<Rightarrow> if G (x, v) = g \<and> g \<in> R then Some v else None | None \<Rightarrow> None)"
  shows "map_of (merged sel (map snd B) []) x =
    (case map_of T x of Some v \<Rightarrow> if G (x, v) \<in> R then Some v else None | None \<Rightarrow> None)"
proof -
  have get: "t = dict_get B g no_tables" if "(g, t) \<in> set B" for g t
    using that B(1) by (simp add: dict_get_def)
  have agree: "map_of T y = Some v" if "t \<in> set (map snd B)" "map_of (sel t) y = Some v" for t y v
  proof -
    from that(1) obtain g where "(g, t) \<in> set B" by auto
    then have "bucket_row sel B g y = Some v" using that(2) get by (simp add: bucket_row_def)
    then show ?thesis unfolding row by (auto split: option.splits if_splits)
  qed
  have "map_of (merged sel (map snd B) []) x =
      (if \<exists>t \<in> set (map snd B). map_of (sel t) x \<noteq> None then map_of T x else map_of [] x)"
  proof (rule merged_lookup)
    fix t assume "t \<in> set (map snd B)"
    then obtain g where "(g, t) \<in> set B" by auto
    then show "wf_dict (sel t)" using B(2) [of g] get by metis
  qed (rule agree)
  moreover have "(\<exists>t \<in> set (map snd B). map_of (sel t) x \<noteq> None) \<longleftrightarrow>
      (\<exists>v. map_of T x = Some v \<and> G (x, v) \<in> R)"
  proof
    assume "\<exists>t \<in> set (map snd B). map_of (sel t) x \<noteq> None"
    then obtain g t where gt: "(g, t) \<in> set B" "map_of (sel t) x \<noteq> None" by auto
    then have "bucket_row sel B g x \<noteq> None" using get by (simp add: bucket_row_def)
    then show "\<exists>v. map_of T x = Some v \<and> G (x, v) \<in> R" unfolding row by (auto split: option.splits if_splits)
  next
    assume "\<exists>v. map_of T x = Some v \<and> G (x, v) \<in> R"
    then obtain v where v: "map_of T x = Some v" "G (x, v) \<in> R" by blast
    let ?g = "G (x, v)"
    have has: "bucket_row sel B ?g x = Some v" using v by (simp add: row)
    then obtain t where t: "map_of B ?g = Some t"
      using B(3) by (cases "map_of B ?g") (simp_all add: bucket_row_def dict_get_def)
    then have "t \<in> set (map snd B)" using in_values_map_of by fastforce
    moreover have "map_of (sel t) x = Some v" using has t by (simp add: bucket_row_def dict_get_def)
    ultimately show "\<exists>t \<in> set (map snd B). map_of (sel t) x \<noteq> None" by blast
  qed
  ultimately show ?thesis by (auto split: option.splits)
qed

subsection \<open>Snapshot and restore\<close>

lemma key_group_total:
  "1 \<le> m \<Longrightarrow> enc_key c k = Inr x \<Longrightarrow> key_group_for_key (enc_key c) h k (PInt m) = Inr (unpack_unsigned (h x) mod m)"
  by (simp add: key_group_for_key_def)

lemma state_row_group_total:
  assumes "backend_inv b" "1 \<le> m" "row \<in> set (state_table b)"
  shows "\<exists>g. state_row_group (codec b) h m row = Inr g"
proof -
  obtain sk ev where row: "row = (sk, ev)" by (cases row)
  have "map_of (state_table b) sk = Some ev" using assms by (simp add: row backend_inv_def)
  then obtain n k s where e: "encode_state_key (codec b) n k s = Inr sk"
    using assms(1) state_okD [of b sk ev] by (auto simp: backend_inv_def)
  then obtain x where "enc_key (codec b) k = Inr x" by (rule encode_state_key_Inr)
  moreover have "decode_state_key (codec b) sk = Inr (n, k, s)"
    using assms(1) e by (simp add: backend_inv_def decode_encode_state_key)
  ultimately show ?thesis using assms(2) by (simp add: state_row_group_def row key_group_total)
qed

lemma expiry_row_group_total:
  assumes "backend_inv b" "1 \<le> m" "row \<in> set (expiry_table b)"
  shows "\<exists>g. expiry_row_group (codec b) h m row = Inr g"
proof -
  have "fst row \<in> set (keys (expiry_table b))" using assms(3) by simp
  then obtain x sk n k s where e: "encode_expiry_key x sk = Inr (fst row)" "encode_state_key (codec b) n k s = Inr sk"
    using assms(1) unfolding backend_inv_def expiry_ok_def by metis
  obtain y where "enc_key (codec b) k = Inr y" using e(2) by (rule encode_state_key_Inr)
  moreover have "decode_state_key (codec b) sk = Inr (n, k, s)"
    using assms(1) e by (simp add: backend_inv_def decode_encode_state_key)
  ultimately show ?thesis
    using assms(2) decode_encode_expiry_key [OF e(1)] by (simp add: expiry_row_group_def key_group_total)
qed

lemma timer_row_group_total:
  assumes "backend_inv b" "1 \<le> m" "row \<in> set (timer_table b)"
  shows "\<exists>g. timer_row_group (codec b) h m row = Inr g"
proof -
  obtain tk tv where row: "row = (tk, tv)" by (cases row)
  have "map_of (timer_table b) tk = Some tv" using assms by (simp add: row backend_inv_def)
  then obtain ts k s d where e: "encode_timer_key (codec b) ts k s d = Inr tk" "tv = encode_timer_value (codec b) k s"
    using assms(1) unfolding backend_inv_def timers_ok_def by metis
  then obtain p where "enc_pair (codec b) (k, s) = Inr p" by (auto elim: encode_timer_key_Inr)
  then obtain y where "enc_key (codec b) k = Inr y" using assms(1) unfolding backend_inv_def codec_ok_def by metis
  moreover have "decode_timer (codec b) tk tv = Inr (ts, k, s)"
    using assms(1) e by (simp add: backend_inv_def decode_encode_timer)
  ultimately show ?thesis using assms(2) by (simp add: timer_row_group_def row key_group_total)
qed

lemmas row_group_total = state_row_group_total expiry_row_group_total timer_row_group_total

definition requested_rows :: "(bytes \<times> bytes \<Rightarrow> int result) \<Rightarrow> int set \<Rightarrow> (bytes, bytes) dict \<Rightarrow> bytes \<Rightarrow> bytes option" where
  "requested_rows grp R T x =
     (case map_of T x of Some v \<Rightarrow> if group_of grp (x, v) \<in> R then Some v else None | None \<Rightarrow> None)"

text \<open>The three loops of \<open>snapshot_key_groups\<close>, each over its own table.\<close>

lemma snapshot_buckets:
  assumes inv: "backend_inv b" and m: "1 \<le> m"
  shows "\<exists>B. snapshot_key_groups h m R b = Inr (map (\<lambda>(g, t). (g, payload_of t)) B) \<and> wf_dict B \<and> set (keys B) \<subseteq> R \<and>
    bucketed fst (state_row_group (codec b) h m) R (state_table b) B \<and>
    bucketed (\<lambda>t. fst (snd t)) (expiry_row_group (codec b) h m) R (expiry_table b) B \<and>
    bucketed (\<lambda>t. snd (snd t)) (timer_row_group (codec b) h m) R (timer_table b) B"
proof -
  let ?gs = "state_row_group (codec b) h m" and ?ge = "expiry_row_group (codec b) h m"
    and ?gt = "timer_row_group (codec b) h m"
  have wf: "wf_dict (state_table b)" "wf_dict (expiry_table b)" "wf_dict (timer_table b)"
    using inv by (simp_all add: backend_inv_def)
  have empty: "dict_get [] g no_tables = no_tables" for g :: int by (simp add: dict_get_def)
  obtain B1 where 1: "bucket_table ?gs R add_state_row (state_table b) [] = Inr B1" "wf_dict B1"
      "set (keys B1) \<subseteq> R" "\<And>g. snd (dict_get B1 g no_tables) = ([], [])"
      and f1: "bucketed fst ?gs R (state_table b) B1"
    using state_slot.bucket_table_fills [of "state_table b" ?gs "[]" R, OF row_group_total(1) [OF inv m] wf(1)]
    by (auto simp: empty)
  obtain B2 where 2: "bucket_table ?ge R add_expiry_row (expiry_table b) B1 = Inr B2" "wf_dict B2"
      "set (keys B2) \<subseteq> R" "\<And>g. fst (dict_get B2 g no_tables) = fst (dict_get B1 g no_tables)"
      "\<And>g. snd (snd (dict_get B2 g no_tables)) = []"
      and f2: "bucketed (\<lambda>t. fst (snd t)) ?ge R (expiry_table b) B2"
    using expiry_slot.bucket_table_fills [of "expiry_table b" ?ge B1 R, OF row_group_total(2) [OF inv m] wf(2) 1(2,3)]
    by (auto simp: 1(4))
  obtain B3 where 3: "bucket_table ?gt R add_timer_row (timer_table b) B2 = Inr B3" "wf_dict B3"
      "set (keys B3) \<subseteq> R" "\<And>g. fst (dict_get B3 g no_tables) = fst (dict_get B2 g no_tables)"
      "\<And>g. fst (snd (dict_get B3 g no_tables)) = fst (snd (dict_get B2 g no_tables))"
      and f3: "bucketed (\<lambda>t. snd (snd t)) ?gt R (timer_table b) B3"
    using timer_slot.bucket_table_fills [of "timer_table b" ?gt B2 R, OF row_group_total(3) [OF inv m] wf(3) 2(2,3)]
    by (auto simp: 2(5))
  have "snapshot_key_groups h m R b = Inr (map (\<lambda>(g, t). (g, payload_of t)) B3)"
    using 1(1) 2(1) 3(1) by (auto simp: snapshot_key_groups_def payload_of_def)
  moreover have "bucketed fst ?gs R (state_table b) B3" using f1 bucketed_cong [of fst B3 B1] 3(4) 2(4) by simp
  moreover have "bucketed (\<lambda>t. fst (snd t)) ?ge R (expiry_table b) B3"
    using f2 bucketed_cong [of "\<lambda>t. fst (snd t)" B3 B2] 3(5) by simp
  ultimately show ?thesis using 3(2,3) f3 by blast
qed

lemma restore_buckets:
  assumes "wf_dict B" "bucketed fst gs R S B" "bucketed (\<lambda>t. fst (snd t)) ge R X B" "bucketed (\<lambda>t. snd (snd t)) gt R T B"
  shows "\<exists>b'. restore_key_groups (map (\<lambda>(g, t). (g, payload_of t)) B) b0 = Inr b' \<and>
    codec b' = codec b0 \<and> selected_key b' = selected_key b0 \<and>
    map_of (state_table b') = requested_rows gs R S \<and> map_of (expiry_table b') = requested_rows ge R X \<and>
    map_of (timer_table b') = requested_rows gt R T"
proof -
  have payloads: "map snd (map (\<lambda>(g, t). (g, payload_of t)) B) = map payload_of (map snd B)" by auto
  have checked: "rmap (\<lambda>p. rbind (check_payload p) (\<lambda>_. Inr p)) (map payload_of ts) = Inr (map payload_of ts)" for ts
    by (induction ts) simp_all
  have "map_of (merged sel (map snd B) []) = requested_rows grp R D"
    if b: "bucketed sel grp R D B" and e: "sel no_tables = []" for sel grp D
  proof
    fix x
    show "map_of (merged sel (map snd B) []) x = requested_rows grp R D x"
      unfolding requested_rows_def
      by (rule merged_buckets [OF assms(1)]) (use b e in \<open>simp_all add: bucketed_def\<close>)
  qed
  from this [OF assms(2)] this [OF assms(3)] this [OF assms(4)] show ?thesis
    unfolding restore_key_groups_def payloads checked rbind_Inr merge_payloads_merged by simp
qed



end
