(* ===== verification/ExecutionGraph.thy ===== *)
theory ExecutionGraph
  imports Partitioning
begin

section \<open>The physical execution graph (runtime/execution_graph, runtime/resources.py)\<close>

text \<open>
  A job is expanded into job vertices, each with one execution vertex per subtask, and job edges,
  each with the execution edges its channel topology prescribes. Execution edges are pairs of
  execution vertex ids: the graph reads nothing else of their end points. The task generation is a
  random \<open>uuid4\<close> and therefore an argument of the constructor, and operator specifications are
  opaque except for the flag that marks a source. Metric groups, locks and configurations do not
  influence the topology and are left out.
\<close>

subsection \<open>Resources\<close>

datatype concurrency_arg = NoConcurrency | ScalarConcurrency pyobj | TupleConcurrency "pyobj list"

record resources =
  num_cpus :: "rat option"
  num_gpus :: "rat option"
  res_concurrency :: "parallelism option"

definition validate_resource :: "pyobj \<Rightarrow> rat option result" where
  "validate_resource x =
     (if x = PNone then Inr None
      else rbind (as_real x) (\<lambda>q. if q < 0 then Inl ValueError else Inr (Some q)))"

definition validate_concurrency :: "concurrency_arg \<Rightarrow> parallelism option result" where
  "validate_concurrency c =
     (case c of
        NoConcurrency \<Rightarrow> Inr None
      | TupleConcurrency xs \<Rightarrow>
          (case xs of
             [PInt lo, PInt hi] \<Rightarrow>
               (if lo \<le> 0 \<or> hi \<le> 0 then Inl ValueError
                else if lo > hi then Inl ValueError else Inr (Some (Elastic lo hi)))
           | _ \<Rightarrow> Inl ValueError)
      | ScalarConcurrency x \<Rightarrow>
          (if x = PNone then Inr None
           else rbind (as_int x) (\<lambda>i. if i \<le> 0 then Inl ValueError else Inr (Some (Fixed i)))))"

definition make_resources :: "pyobj \<Rightarrow> pyobj \<Rightarrow> concurrency_arg \<Rightarrow> resources result" where
  "make_resources c g p =
     rbind (validate_resource c) (\<lambda>c'.
     rbind (validate_resource g) (\<lambda>g'.
     rbind (validate_concurrency p) (\<lambda>p'.
       Inr \<lparr>num_cpus = c', num_gpus = g', res_concurrency = p'\<rparr>)))"

definition res_cpus :: "resources \<Rightarrow> rat" where
  "res_cpus r = (case num_cpus r of Some c \<Rightarrow> c | None \<Rightarrow> 1)"

definition res_gpus :: "resources \<Rightarrow> rat" where
  "res_gpus r = (case num_gpus r of Some g \<Rightarrow> g | None \<Rightarrow> 0)"

definition scalar_concurrency :: "resources \<Rightarrow> int" where
  "scalar_concurrency r =
     (case res_concurrency r of Some (Elastic lo _) \<Rightarrow> lo | Some (Fixed n) \<Rightarrow> n | None \<Rightarrow> 1)"

record vertex_spec =
  spec_index :: int
  spec_name :: string
  spec_source :: bool
  spec_operator :: nat
  spec_resources :: resources

definition spec_concurrency :: "vertex_spec \<Rightarrow> int" where
  "spec_concurrency s = scalar_concurrency (spec_resources s)"

subsection \<open>Execution vertices\<close>

datatype vertex_status =
    V_CREATED | V_DEPLOYED | V_RUNNING | V_CANCELLING | V_FAILED | V_FINISHED | V_CANCELLED

definition status_terminal :: "vertex_status \<Rightarrow> bool" where
  "status_terminal s \<longleftrightarrow> s \<in> {V_FAILED, V_FINISHED, V_CANCELLED}"

record execution_vertex =
  ev_vertex_name :: string
  ev_name :: string
  ev_resources :: resources
  ev_id :: vertex_id
  ev_concurrency :: int
  ev_operator :: nat
  stream_task :: "nat option"
  task_generation :: string
  restore_operation_id :: "string option"
  ev_status :: vertex_status
  error_message :: "string option"

definition make_execution_vertex ::
  "string \<Rightarrow> int \<Rightarrow> string \<Rightarrow> resources \<Rightarrow> int \<Rightarrow> int \<Rightarrow> nat \<Rightarrow> execution_vertex" where
  "make_execution_vertex gen vid name r i conc operator =
     \<lparr>ev_vertex_name = name, ev_name = name @ '' ('' @ show_int (i + 1) @ '')'', ev_resources = r,
      ev_id = \<lparr>job_vertex_id = vid, vertex_index = i\<rparr>, ev_concurrency = conc, ev_operator = operator,
      stream_task = None, task_generation = gen, restore_operation_id = None,
      ev_status = V_CREATED, error_message = None\<rparr>"

fun allowed_transitions :: "vertex_status \<Rightarrow> vertex_status set" where
  "allowed_transitions V_CREATED = {V_DEPLOYED, V_FAILED}"
| "allowed_transitions V_DEPLOYED = {V_RUNNING, V_FAILED, V_FINISHED, V_CANCELLING, V_CANCELLED}"
| "allowed_transitions V_RUNNING = {V_FAILED, V_FINISHED, V_CANCELLING, V_CANCELLED}"
| "allowed_transitions V_CANCELLING = {V_CANCELLED, V_FAILED}"
| "allowed_transitions _ = {}"

definition transition_to ::
  "vertex_status \<Rightarrow> string option \<Rightarrow> execution_vertex \<Rightarrow> execution_vertex result" where
  "transition_to st msg v =
     (if st = ev_status v then Inr v
      else if st \<notin> allowed_transitions (ev_status v) then Inl RuntimeError
      else
        let v1 = v\<lparr>ev_status := st\<rparr>;
            v2 = (if msg \<noteq> None then v1\<lparr>error_message := msg\<rparr> else v1)
        in Inr (if st \<in> {V_CREATED, V_DEPLOYED, V_RUNNING, V_FINISHED} then v2\<lparr>error_message := None\<rparr> else v2))"

definition reset_vertex :: "execution_vertex \<Rightarrow> execution_vertex" where
  "reset_vertex v = v\<lparr>ev_status := V_CREATED, error_message := None\<rparr>"

definition renew_task_generation :: "string \<Rightarrow> execution_vertex \<Rightarrow> execution_vertex" where
  "renew_task_generation gen v = v\<lparr>task_generation := gen\<rparr>"

definition rebind :: "string \<Rightarrow> pyobj \<Rightarrow> resources \<Rightarrow> nat \<Rightarrow> execution_vertex \<Rightarrow> execution_vertex result" where
  "rebind gen conc r operator v =
     rbind (as_int conc) (\<lambda>c.
       if c \<le> vertex_index (ev_id v) then Inl ValueError
       else
         let fresh = make_execution_vertex gen (job_vertex_id (ev_id v)) (ev_vertex_name v) r
                       (vertex_index (ev_id v)) c operator
         in Inr (fresh\<lparr>stream_task := stream_task v, task_generation := task_generation v,
                       restore_operation_id := restore_operation_id v, ev_status := ev_status v,
                       error_message := error_message v\<rparr>))"

subsection \<open>Job vertices and edges\<close>

record job_vertex =
  jv_spec :: vertex_spec
  output_queue :: "nat option"
  execution_vertices :: "(int, execution_vertex) dict"

definition jv_id :: "job_vertex \<Rightarrow> int" where
  "jv_id v = spec_index (jv_spec v)"

definition jv_concurrency :: "job_vertex \<Rightarrow> int" where
  "jv_concurrency v = spec_concurrency (jv_spec v)"

definition create_execution_vertices :: "(vertex_id \<Rightarrow> string) \<Rightarrow> vertex_spec \<Rightarrow> (int, execution_vertex) dict" where
  "create_execution_vertices gen s =
     map (\<lambda>i. (i, make_execution_vertex (gen \<lparr>job_vertex_id = spec_index s, vertex_index = i\<rparr>) (spec_index s)
                    (spec_name s) (spec_resources s) i (spec_concurrency s) (spec_operator s)))
       [0..spec_concurrency s - 1]"

definition make_job_vertex :: "(vertex_id \<Rightarrow> string) \<Rightarrow> vertex_spec \<Rightarrow> job_vertex" where
  "make_job_vertex gen s = \<lparr>jv_spec = s, output_queue = None, execution_vertices = create_execution_vertices gen s\<rparr>"

definition jv_execution_vertex :: "job_vertex \<Rightarrow> int \<Rightarrow> execution_vertex result" where
  "jv_execution_vertex v i = dict_item (execution_vertices v) i"

record partitioner_spec =
  forward_class :: bool
  spec_topology :: channel_pattern

definition to_spec :: "(unit, unit) partitioner \<Rightarrow> partitioner_spec" where
  "to_spec p = \<lparr>forward_class = (case p of ForwardPartitioner _ \<Rightarrow> True | _ \<Rightarrow> False),
                spec_topology = partitioner_topology p\<rparr>"

type_synonym execution_edge = "vertex_id \<times> vertex_id"

record job_edge =
  je_source :: int
  je_target :: int
  je_partitioner :: partitioner_spec
  execution_edges :: "execution_edge list"

definition create_execution_edges :: "job_vertex \<Rightarrow> job_vertex \<Rightarrow> partitioner_spec \<Rightarrow> execution_edge list result" where
  "create_execution_edges s t p =
     rbind (rmap (\<lambda>i.
         rbind (target_indices (spec_topology p) (jv_concurrency s) (jv_concurrency t) i) (\<lambda>js.
           rmap (\<lambda>j.
             rbind (jv_execution_vertex s i) (\<lambda>u.
             rbind (jv_execution_vertex t j) (\<lambda>w. Inr (ev_id u, ev_id w)))) js))
       [0..jv_concurrency s - 1])
     (\<lambda>edges. Inr (concat edges))"

definition make_job_edge :: "job_vertex \<Rightarrow> job_vertex \<Rightarrow> partitioner_spec \<Rightarrow> job_edge result" where
  "make_job_edge s t p =
     rbind (create_execution_edges s t p) (\<lambda>edges.
       Inr \<lparr>je_source = jv_id s, je_target = jv_id t, je_partitioner = p, execution_edges = edges\<rparr>)"

subsection \<open>The graph\<close>

record egraph =
  g_namespace :: string
  job_vertices :: "(int, job_vertex) dict"
  job_edges :: "job_edge list"
  topology_epochs :: "(int \<times> int, string) dict"

definition validate_topology :: "(int, job_vertex) dict \<Rightarrow> job_edge list \<Rightarrow> unit result" where
  "validate_topology vs es =
     (if \<exists>(i, v) \<in> set vs. jv_id v \<noteq> i then Inl ValueError
      else if \<exists>e \<in> set es. je_source e \<notin> set (keys vs) \<or> je_target e \<notin> set (keys vs) then Inl ValueError
      else if \<not> distinct (map (\<lambda>e. (je_source e, je_target e)) es) then Inl ValueError
      else if vs \<noteq> [] \<and>
              set (keys vs) - je_target ` set es \<noteq> fst ` set (filter (\<lambda>(_, v). spec_source (jv_spec v)) vs)
           then Inl ValueError
      else Inr ())"

definition g_job_vertex :: "egraph \<Rightarrow> int \<Rightarrow> job_vertex result" where
  "g_job_vertex g i = dict_item (job_vertices g) i"

definition out_edges :: "egraph \<Rightarrow> int \<Rightarrow> job_edge list" where
  "out_edges g i = filter (\<lambda>e. je_source e = i) (job_edges g)"

definition in_edges :: "egraph \<Rightarrow> int \<Rightarrow> job_edge list" where
  "in_edges g i = filter (\<lambda>e. je_target e = i) (job_edges g)"

definition output_job_edges :: "egraph \<Rightarrow> int \<Rightarrow> job_edge list result" where
  "output_job_edges g i = rbind (g_job_vertex g i) (\<lambda>_. Inr (out_edges g i))"

definition input_job_edges :: "egraph \<Rightarrow> int \<Rightarrow> job_edge list result" where
  "input_job_edges g i = rbind (g_job_vertex g i) (\<lambda>_. Inr (in_edges g i))"

definition downstream_job_vertices :: "egraph \<Rightarrow> int \<Rightarrow> int list result" where
  "downstream_job_vertices g i = rbind (g_job_vertex g i) (\<lambda>_. Inr (map je_target (out_edges g i)))"

definition in_degrees :: "egraph \<Rightarrow> (int, int) dict" where
  "in_degrees g = map (\<lambda>i. (i, int (length (in_edges g i)))) (keys (job_vertices g))"

definition out_degrees :: "egraph \<Rightarrow> (int, int) dict" where
  "out_degrees g = map (\<lambda>i. (i, int (length (out_edges g i)))) (keys (job_vertices g))"

definition all_execution_vertices :: "egraph \<Rightarrow> execution_vertex list" where
  "all_execution_vertices g = concat (map (\<lambda>(_, v). map snd (execution_vertices v)) (job_vertices g))"

definition g_execution_vertex :: "egraph \<Rightarrow> vertex_id \<Rightarrow> execution_vertex result" where
  "g_execution_vertex g x = rbind (g_job_vertex g (job_vertex_id x)) (\<lambda>v. jv_execution_vertex v (vertex_index x))"

definition find_execution_vertex :: "egraph \<Rightarrow> vertex_id \<Rightarrow> execution_vertex option" where
  "find_execution_vertex g x =
     (case map_of (job_vertices g) (job_vertex_id x) of
        None \<Rightarrow> None
      | Some v \<Rightarrow> map_of (execution_vertices v) (vertex_index x))"

definition source_job_vertices :: "egraph \<Rightarrow> int list" where
  "source_job_vertices g = map fst (filter (\<lambda>(_, v). spec_source (jv_spec v)) (job_vertices g))"

definition sink_job_vertices :: "egraph \<Rightarrow> int list" where
  "sink_job_vertices g = filter (\<lambda>i. dict_get (out_degrees g) i 0 = 0) (keys (job_vertices g))"

definition subtasks_of :: "egraph \<Rightarrow> int list \<Rightarrow> execution_vertex list" where
  "subtasks_of g is =
     concat (map (\<lambda>i. case map_of (job_vertices g) i of None \<Rightarrow> [] | Some v \<Rightarrow> map snd (execution_vertices v)) is)"

definition mark_rescale_epoch :: "int \<Rightarrow> pyobj \<Rightarrow> egraph \<Rightarrow> egraph result" where
  "mark_rescale_epoch i operation_id g =
     (if i \<notin> set (keys (job_vertices g)) then Inl KeyError
      else case operation_id of
        PStr op \<Rightarrow>
          (if op = [] then Inl ValueError
           else Inr (g\<lparr>topology_epochs :=
             fold (\<lambda>e d. AList.update (je_source e, je_target e) op d)
               (filter (\<lambda>e. i \<in> {je_source e, je_target e}) (job_edges g)) (topology_epochs g)\<rparr>))
      | _ \<Rightarrow> Inl ValueError)"

definition topology_epoch_of :: "egraph \<Rightarrow> int \<Rightarrow> int \<Rightarrow> string option" where
  "topology_epoch_of g s t = map_of (topology_epochs g) (s, t)"

end
