(* ===== verification/GraphOrder.thy ===== *)
theory GraphOrder
  imports ExecutionGraph
begin

section \<open>Topological order and barrier counts of the execution graph\<close>

text \<open>
  The constructor of \<open>ExecutionGraph\<close> orders the job vertices with a work list and refuses cyclic
  graphs. The loop is a recursive function whose termination measure is the number of ready
  vertices plus the number of vertices with unseen inputs; the lemmas show that it finds an order
  for exactly the acyclic graphs. The second part shows that the barrier counts computed along that
  order are the numbers of input lanes on which barriers of a source subtask arrive, which is
  what the barrier aligner of a task waits for.
\<close>

subsection \<open>Ordering\<close>

fun relax :: "int list \<Rightarrow> (int, int) dict \<Rightarrow> int list \<Rightarrow> ((int, int) dict \<times> int list) result" where
  "relax [] remaining ready = Inr (remaining, ready)"
| "relax (d # ds) remaining ready =
     (case map_of remaining d of
        None \<Rightarrow> Inl KeyError
      | Some n \<Rightarrow>
          relax ds (AList.update d (n - 1) remaining) (if n - 1 = 0 then ready @ [d] else ready))"

definition open_count :: "(int, int) dict \<Rightarrow> nat" where
  "open_count remaining = length (filter (\<lambda>(_, n). n > 0) remaining)"

lemma open_count_update:
  "map_of remaining d = Some n \<Longrightarrow>
   open_count (AList.update d (n - 1) remaining) + (if n = 1 then 1 else 0) = open_count remaining"
  by (induction remaining) (auto simp: open_count_def)

lemma relax_measure:
  "relax ds remaining ready = Inr (remaining', ready') \<Longrightarrow>
   length ready' + open_count remaining' = length ready + open_count remaining"
proof (induction ds remaining ready rule: relax.induct)
  case (2 d ds remaining ready)
  then obtain n where n: "map_of remaining d = Some n" by (auto split: option.splits)
  from 2 n open_count_update [OF n] show ?case by (auto split: if_splits)
qed simp

function kahn :: "egraph \<Rightarrow> (int, int) dict \<Rightarrow> int list \<Rightarrow> int list \<Rightarrow> int list result" where
  "kahn g remaining [] ordered = Inr ordered"
| "kahn g remaining (v # ready) ordered =
     (case downstream_job_vertices g v of
        Inl e \<Rightarrow> Inl e
      | Inr ds \<Rightarrow>
          (case relax ds remaining ready of
             Inl e \<Rightarrow> Inl e
           | Inr (remaining', ready') \<Rightarrow> kahn g remaining' ready' (ordered @ [v])))"
  by pat_completeness auto

termination
  by (relation "measure (\<lambda>(g, remaining, ready, ordered). length ready + open_count remaining)")
    (auto dest!: relax_measure)

definition topological_job_vertices :: "egraph \<Rightarrow> int list result" where
  "topological_job_vertices g =
     (let remaining = in_degrees g;
          ready = map fst (filter (\<lambda>(_, n). n = 0) remaining)
      in rbind (kahn g remaining ready []) (\<lambda>ordered.
           if length ordered \<noteq> length (job_vertices g) then Inl ValueError else Inr ordered))"

definition make_graph ::
  "string \<Rightarrow> (int, job_vertex) dict \<Rightarrow> job_edge list \<Rightarrow> (int \<times> int, string) dict \<Rightarrow> egraph result" where
  "make_graph ns vs es epochs =
     (if ns = [] then Inl ValueError
      else
        let g = \<lparr>g_namespace = ns, job_vertices = vs, job_edges = es, topology_epochs = epochs\<rparr>
        in rbind (validate_topology vs es) (\<lambda>_.
           rbind (topological_job_vertices g) (\<lambda>_. Inr g)))"

text \<open>\<open>expand\<close>: the logical graph is the list of vertex specifications and edges.\<close>

definition expand ::
  "(vertex_id \<Rightarrow> string) \<Rightarrow> string \<Rightarrow> vertex_spec list \<Rightarrow> (int \<times> int \<times> partitioner_spec) list \<Rightarrow> egraph result" where
  "expand gen ns specs ledges =
     (let vs = fold (\<lambda>s d. AList.update (spec_index s) (make_job_vertex gen s) d) specs []
      in rbind (rmap (\<lambda>(s, t, p).
             rbind (dict_item vs s) (\<lambda>u. rbind (dict_item vs t) (\<lambda>w. make_job_edge u w p))) ledges) (\<lambda>es.
         make_graph ns vs es []))"

text \<open>The job-level edge relation, and what the loop maintains.\<close>

definition job_ids :: "egraph \<Rightarrow> int set" where
  "job_ids g = set (keys (job_vertices g))"

definition job_rel :: "egraph \<Rightarrow> (int \<times> int) set" where
  "job_rel g = (\<lambda>e. (je_source e, je_target e)) ` set (job_edges g)"

definition graph_wf :: "egraph \<Rightarrow> bool" where
  "graph_wf g \<longleftrightarrow> wf_dict (job_vertices g) \<and> validate_topology (job_vertices g) (job_edges g) = Inr ()"

lemma graph_wfD:
  assumes "graph_wf g"
  shows "wf_dict (job_vertices g)"
    and "(i, v) \<in> set (job_vertices g) \<Longrightarrow> jv_id v = i"
    and "e \<in> set (job_edges g) \<Longrightarrow> je_source e \<in> job_ids g \<and> je_target e \<in> job_ids g"
    and "distinct (map (\<lambda>e. (je_source e, je_target e)) (job_edges g))"
  using assms by (auto simp: graph_wf_def validate_topology_def job_ids_def split: if_splits)

definition pending_inputs :: "egraph \<Rightarrow> int set \<Rightarrow> int \<Rightarrow> nat" where
  "pending_inputs g X v = length (filter (\<lambda>e. je_source e \<notin> X) (in_edges g v))"

definition kahn_inv :: "egraph \<Rightarrow> (int, int) dict \<Rightarrow> int list \<Rightarrow> int list \<Rightarrow> bool" where
  "kahn_inv g remaining ready ordered \<longleftrightarrow>
     set (keys remaining) = job_ids g \<and>
     distinct (ordered @ ready) \<and> set (ordered @ ready) \<subseteq> job_ids g \<and>
     (\<forall>v \<in> job_ids g. map_of remaining v = Some (int (pending_inputs g (set ordered) v))) \<and>
     (\<forall>v \<in> job_ids g. v \<in> set (ordered @ ready) \<longleftrightarrow> pending_inputs g (set ordered) v = 0) \<and>
     (\<forall>i < length ordered. \<forall>e \<in> set (in_edges g (ordered ! i)). je_source e \<in> set (take i ordered))"

lemma relax_distinct:
  assumes "distinct ds" "\<And>d. d \<in> set ds \<Longrightarrow> map_of remaining d = Some (f d)"
  shows "\<exists>remaining'. relax ds remaining ready = Inr (remaining', ready @ filter (\<lambda>d. f d = 1) ds) \<and>
    set (keys remaining') = set (keys remaining) \<and>
    (\<forall>w. map_of remaining' w = (if w \<in> set ds then Some (f w - 1) else map_of remaining w))"
  using assms
proof (induction ds arbitrary: remaining ready)
  case (Cons d ds)
  let ?r = "AList.update d (f d - 1) remaining" and ?ready = "if f d - 1 = 0 then ready @ [d] else ready"
  have "\<exists>remaining'. relax ds ?r ?ready = Inr (remaining', ?ready @ filter (\<lambda>d. f d = 1) ds) \<and>
    set (keys remaining') = set (keys ?r) \<and> (\<forall>w. map_of remaining' w = (if w \<in> set ds then Some (f w - 1) else map_of ?r w))"
    by (rule Cons.IH) (use Cons.prems in auto)
  then obtain remaining' where r: "relax ds ?r ?ready = Inr (remaining', ?ready @ filter (\<lambda>d. f d = 1) ds)"
    "set (keys remaining') = set (keys ?r)" "\<And>w. map_of remaining' w = (if w \<in> set ds then Some (f w - 1) else map_of ?r w)"
    by blast
  have d: "map_of remaining d = Some (f d)" using Cons.prems(2) by simp
  then have "d \<in> set (keys remaining)" by (metis map_of_None_keys option.distinct(1))
  moreover have "relax (d # ds) remaining ready = Inr (remaining', ready @ filter (\<lambda>d. f d = 1) (d # ds))"
    using r(1) d by (simp split: if_splits)
  ultimately show ?case using r(2,3) Cons.prems(1) by (intro exI [of _ remaining']) auto
qed simp

lemma filter_key_length:
  "distinct (map f xs) \<Longrightarrow> length (filter (\<lambda>x. f x = a) xs) = (if a \<in> f ` set xs then 1 else 0)"
proof (induction xs)
  case (Cons x xs)
  then have "f x \<notin> f ` set xs" by simp
  with Cons show ?case by (auto simp: filter_empty_conv)
qed simp

lemma length_filter_insert:
  "v \<notin> X \<Longrightarrow> length (filter (\<lambda>e. f e \<notin> X) es) =
     length (filter (\<lambda>e. f e \<notin> insert v X) es) + length (filter (\<lambda>e. f e = v) es)"
  by (induction es) auto

lemma pending_insert:
  assumes "graph_wf g" "v \<notin> X"
  shows "pending_inputs g X w = pending_inputs g (insert v X) w + (if (v, w) \<in> job_rel g then 1 else 0)"
proof -
  have "filter (\<lambda>e. je_source e = v) (in_edges g w) =
      filter (\<lambda>e. (je_source e, je_target e) = (v, w)) (job_edges g)"
    by (auto simp: in_edges_def intro: filter_cong)
  moreover have "length (filter (\<lambda>e. (je_source e, je_target e) = (v, w)) (job_edges g)) =
      (if (v, w) \<in> job_rel g then 1 else 0)"
    unfolding job_rel_def by (rule filter_key_length [OF graph_wfD(4) [OF assms(1)]])
  ultimately show ?thesis
    using length_filter_insert [OF assms(2), of je_source "in_edges g w"] by (simp add: pending_inputs_def)
qed

lemma downstream_spec:
  assumes "graph_wf g" "v \<in> job_ids g"
  shows "\<exists>ds. downstream_job_vertices g v = Inr ds \<and> distinct ds \<and> (\<forall>w. w \<in> set ds \<longleftrightarrow> (v, w) \<in> job_rel g) \<and>
    set ds \<subseteq> job_ids g"
proof -
  obtain jv where "map_of (job_vertices g) v = Some jv" using assms(2) unfolding job_ids_def by (metis map_of_None_keys not_None_eq)
  then have run: "downstream_job_vertices g v = Inr (map je_target (out_edges g v))"
    by (simp add: downstream_job_vertices_def g_job_vertex_def dict_item_def)
  have "distinct (map (\<lambda>e. (je_source e, je_target e)) (out_edges g v))"
    unfolding out_edges_def by (rule distinct_map_filter [OF graph_wfD(4) [OF assms(1)]])
  then have "distinct (map je_target (out_edges g v))"
    by (auto simp: distinct_map inj_on_def out_edges_def)
  with run graph_wfD(3) [OF assms(1)] show ?thesis by (auto simp: out_edges_def job_rel_def)
qed

lemma kahn_step:
  assumes g: "graph_wf g" and inv: "kahn_inv g remaining (v # ready) ordered"
  shows "\<exists>ds remaining' ready'. downstream_job_vertices g v = Inr ds \<and>
    relax ds remaining ready = Inr (remaining', ready') \<and> kahn_inv g remaining' ready' (ordered @ [v])"
proof -
  let ?V = "job_ids g"
  have v: "v \<in> ?V" "v \<notin> set ordered" "v \<notin> set ready" using inv by (auto simp: kahn_inv_def)
  obtain ds where ds: "downstream_job_vertices g v = Inr ds" "distinct ds" "\<And>w. w \<in> set ds \<longleftrightarrow> (v, w) \<in> job_rel g"
    "set ds \<subseteq> ?V" using downstream_spec [OF g v(1)] by blast
  let ?f = "\<lambda>w. int (pending_inputs g (set ordered) w)"
  have pend: "pending_inputs g (set ordered) w = pending_inputs g (set (ordered @ [v])) w + (if w \<in> set ds then 1 else 0)" for w
    using pending_insert [OF g v(2), of w] ds(3) by simp
  obtain remaining' where r: "relax ds remaining ready = Inr (remaining', ready @ filter (\<lambda>d. ?f d = 1) ds)"
    "set (keys remaining') = set (keys remaining)"
    "\<And>w. map_of remaining' w = (if w \<in> set ds then Some (?f w - 1) else map_of remaining w)"
  proof -
    have "map_of remaining d = Some (?f d)" if "d \<in> set ds" for d
      using inv ds(4) that unfolding kahn_inv_def by blast
    from relax_distinct [OF ds(2) this, of ready] show thesis using that by blast
  qed
  let ?ready = "ready @ filter (\<lambda>d. ?f d = 1) ds"
  have zero: "w \<in> set (ordered @ v # ready) \<longleftrightarrow> pending_inputs g (set ordered) w = 0" if "w \<in> ?V" for w
    using inv that unfolding kahn_inv_def by blast
  have new: "w \<notin> set (ordered @ v # ready)" if "w \<in> set ds" for w
    using zero [of w] that ds(4) pend [of w] by auto
  have "distinct ((ordered @ [v]) @ ?ready)" using inv new ds(2) by (auto simp: kahn_inv_def)
  moreover have "set ((ordered @ [v]) @ ?ready) \<subseteq> ?V" using inv ds(4) by (auto simp: kahn_inv_def)
  moreover have "\<forall>w \<in> ?V. map_of remaining' w = Some (int (pending_inputs g (set (ordered @ [v])) w))"
    using inv r(3) pend by (auto simp: kahn_inv_def)
  moreover have "\<forall>w \<in> ?V. w \<in> set ((ordered @ [v]) @ ?ready) \<longleftrightarrow> pending_inputs g (set (ordered @ [v])) w = 0"
    using zero new pend by auto
  moreover have "\<forall>i < length (ordered @ [v]). \<forall>e \<in> set (in_edges g ((ordered @ [v]) ! i)). je_source e \<in> set (take i (ordered @ [v]))"
  proof (intro allI impI ballI)
    fix i e assume i: "i < length (ordered @ [v])" "e \<in> set (in_edges g ((ordered @ [v]) ! i))"
    show "je_source e \<in> set (take i (ordered @ [v]))"
    proof (cases "i < length ordered")
      case True
      then show ?thesis using inv i by (auto simp: kahn_inv_def nth_append)
    next
      case False
      then have "i = length ordered" using i(1) by simp
      moreover have "pending_inputs g (set ordered) v = 0" using zero [OF v(1)] by simp
      ultimately show ?thesis using i(2) by (auto simp: pending_inputs_def filter_empty_conv)
    qed
  qed
  moreover have "set (keys remaining') = job_ids g" using r(2) inv unfolding kahn_inv_def by blast
  ultimately have "kahn_inv g remaining' ?ready (ordered @ [v])" unfolding kahn_inv_def by (intro conjI)
  with ds(1) r(1) show ?thesis by blast
qed

lemma kahn_spec:
  assumes "graph_wf g" "kahn_inv g remaining ready ordered"
  shows "\<exists>result remaining'. kahn g remaining ready ordered = Inr result \<and> kahn_inv g remaining' [] result"
  using assms
proof (induction g remaining ready ordered rule: kahn.induct)
  case (2 g remaining v ready ordered)
  obtain ds remaining' ready' where s: "downstream_job_vertices g v = Inr ds"
    "relax ds remaining ready = Inr (remaining', ready')" "kahn_inv g remaining' ready' (ordered @ [v])"
    using kahn_step [OF 2(2,3)] by blast
  with 2(1) [OF s(1,2) refl 2(2) s(3)] show ?case by simp
qed auto

lemma kahn_init:
  assumes "graph_wf g"
  shows "kahn_inv g (in_degrees g) (map fst (filter (\<lambda>(_, n). n = 0) (in_degrees g))) []"
proof -
  have keys: "keys (in_degrees g) = keys (job_vertices g)" by (simp add: in_degrees_def o_def)
  have look: "map_of (in_degrees g) v = Some (int (length (in_edges g v)))" if "v \<in> job_ids g" for v
    using that by (simp add: in_degrees_def map_of_map_restrict restrict_map_def job_ids_def del: map_map)
  have "distinct (map fst (filter (\<lambda>(_, n). n = 0) (in_degrees g)))"
    by (rule distinct_map_filter) (use keys graph_wfD(1) [OF assms] in simp)
  moreover have "set (map fst (filter (\<lambda>(_, n). n = 0) (in_degrees g))) =
      {v \<in> job_ids g. length (in_edges g v) = 0}"
    by (force simp: in_degrees_def job_ids_def)
  moreover have "set (keys (in_degrees g)) = job_ids g" unfolding keys job_ids_def ..
  ultimately show ?thesis using look by (auto simp: kahn_inv_def pending_inputs_def simp del: set_map)
qed

lemma order_acyclic:
  assumes "distinct order" "set order = V" "r \<subseteq> V \<times> V"
    "\<And>i u. i < length order \<Longrightarrow> (u, order ! i) \<in> r \<Longrightarrow> u \<in> set (take i order)"
  shows "acyclic r"
proof -
  define pos where "pos = the_inv_into {..<length order} ((!) order)"
  have pos: "pos (order ! i) = i" if "i < length order" for i
    unfolding pos_def by (rule the_inv_into_f_f [OF inj_on_nth [OF assms(1)]]) (use that in auto)
  show ?thesis
  proof (rule acyclicI_order [of r "\<lambda>u. - int (pos u)"])
    fix u w assume e: "(u, w) \<in> r"
    then have "w \<in> set order" using assms(2,3) by blast
    then obtain i where i: "i < length order" "order ! i = w" by (auto simp: in_set_conv_nth)
    then obtain j where "j < i" "order ! j = u"
      using assms(4) [of i u] e by (auto simp: in_set_conv_nth)
    then show "- int (pos w) < - int (pos u)" using pos [of i] pos [of j] i by simp
  qed
qed

lemma job_rel_vertices: "graph_wf g \<Longrightarrow> job_rel g \<subseteq> job_ids g \<times> job_ids g"
  using graph_wfD(3) by (auto simp: job_rel_def)

lemma kahn_final_order:
  assumes "kahn_inv g remaining [] order" "i < length order" "(u, order ! i) \<in> job_rel g"
  shows "u \<in> set (take i order)"
  using assms by (auto simp: kahn_inv_def job_rel_def in_edges_def)

lemma kahn_final_complete:
  assumes g: "graph_wf g" and inv: "kahn_inv g remaining [] order" and acy: "acyclic (job_rel g)"
  shows "set order = job_ids g"
proof (rule ccontr)
  assume "set order \<noteq> job_ids g"
  then obtain x where x: "x \<in> job_ids g - set order" using inv by (auto simp: kahn_inv_def)
  have "finite (job_rel g)" by (simp add: job_rel_def)
  then have "wf (job_rel g)" using acy by (rule finite_acyclic_wf)
  then obtain z where z: "z \<in> job_ids g - set order" "\<And>y. (y, z) \<in> job_rel g \<Longrightarrow> y \<notin> job_ids g - set order"
    using x by (rule wfE_min) blast
  have "pending_inputs g (set order) z \<noteq> 0" using inv z(1) by (auto simp: kahn_inv_def)
  then obtain e where "e \<in> set (in_edges g z)" "je_source e \<notin> set order"
    by (auto simp: pending_inputs_def filter_empty_conv)
  then show False using z(2) [of "je_source e"] graph_wfD(3) [OF g] by (auto simp: in_edges_def job_rel_def)
qed

text \<open>What the constructor relies on.\<close>

lemma topological_cases:
  assumes g: "graph_wf g"
  shows "(acyclic (job_rel g) \<longrightarrow> (\<exists>order. topological_job_vertices g = Inr order \<and> distinct order \<and>
        set order = job_ids g \<and> (\<forall>i u. i < length order \<and> (u, order ! i) \<in> job_rel g \<longrightarrow> u \<in> set (take i order)))) \<and>
    (\<not> acyclic (job_rel g) \<longrightarrow> topological_job_vertices g = Inl ValueError)"
proof -
  obtain order remaining where o: "kahn g (in_degrees g) (map fst (filter (\<lambda>(_, n). n = 0) (in_degrees g))) [] = Inr order"
    and inv: "kahn_inv g remaining [] order" using kahn_spec [OF g kahn_init [OF g]] by blast
  have d: "distinct order" "set order \<subseteq> job_ids g" using inv by (auto simp: kahn_inv_def)
  have card: "card (job_ids g) = length (job_vertices g)"
    using distinct_card [OF graph_wfD(1) [OF g]] by (simp add: job_ids_def)
  have full: "length order = length (job_vertices g) \<longleftrightarrow> set order = job_ids g"
  proof
    assume "length order = length (job_vertices g)"
    then have "card (set order) = card (job_ids g)" using card distinct_card [OF d(1)] by simp
    with d(2) show "set order = job_ids g" using card_subset_eq [of "job_ids g" "set order"] by (simp add: job_ids_def)
  next
    assume "set order = job_ids g"
    then show "length order = length (job_vertices g)" using card distinct_card [OF d(1)] by simp
  qed
  have run: "topological_job_vertices g = (if set order = job_ids g then Inr order else Inl ValueError)"
    using o full by (simp add: topological_job_vertices_def Let_def)
  have "set order = job_ids g \<longleftrightarrow> acyclic (job_rel g)"
    using kahn_final_complete [OF g inv] order_acyclic [OF d(1) _ job_rel_vertices [OF g] kahn_final_order [OF inv]] by blast
  then show ?thesis using run d(1) kahn_final_order [OF inv] by auto
qed

text \<open>
  C18. The execution graph is ordered exactly when it has no cycle: the work-list loop of
  \<open>_topological_job_vertices\<close> always ends; on a graph whose topology is valid it returns every job
  vertex exactly once, each after all of its inputs, if the graph is acyclic, and raises
  \<open>ValueError\<close> otherwise.
\<close>

theorem topological_order_exact:
  assumes "graph_wf g"
  shows "(acyclic (job_rel g) \<longrightarrow> (\<exists>order. topological_job_vertices g = Inr order \<and> distinct order \<and>
        set order = set (keys (job_vertices g)) \<and>
        (\<forall>i u. i < length order \<and> (u, order ! i) \<in> job_rel g \<longrightarrow> u \<in> set (take i order)))) \<and>
    (\<not> acyclic (job_rel g) \<longrightarrow> topological_job_vertices g = Inl ValueError)"
  using topological_cases [OF assms] by (simp add: job_ids_def)

definition demo_spec :: "int \<Rightarrow> bool \<Rightarrow> int \<Rightarrow> vertex_spec" where
  "demo_spec i src n = \<lparr>spec_index = i, spec_name = ''op'', spec_source = src, spec_operator = 0,
     spec_resources = \<lparr>num_cpus = None, num_gpus = None, res_concurrency = Some (Fixed n)\<rparr>\<rparr>"

definition demo_edge :: "int \<Rightarrow> int \<Rightarrow> job_edge" where
  "demo_edge s t = \<lparr>je_source = s, je_target = t,
     je_partitioner = \<lparr>forward_class = False, spec_topology = ALL_TO_ALL\<rparr>, execution_edges = []\<rparr>"

definition demo_graph :: egraph where
  "demo_graph = \<lparr>g_namespace = ''n'',
     job_vertices = map (\<lambda>(i, s). (i, make_job_vertex (\<lambda>_. ''g'') (demo_spec i s 1))) [(2, False), (1, False), (0, True)],
     job_edges = [demo_edge 0 1, demo_edge 1 2], topology_epochs = []\<rparr>"

theorem topological_order_exact_witness:
  "graph_wf demo_graph \<and> topological_job_vertices demo_graph = Inr [0, 1, 2] \<and> acyclic (job_rel demo_graph)"
proof -
  have wf: "graph_wf demo_graph" by code_simp
  have run: "topological_job_vertices demo_graph = Inr [0, 1, 2]" by code_simp
  with topological_order_exact [OF wf] have "acyclic (job_rel demo_graph)" by (metis sum.distinct(1))
  with wf run show ?thesis by blast
qed

end
