(* ===== verification/BarrierCounts.thy ===== *)
theory BarrierCounts
  imports GraphOrder
begin

section \<open>Barrier counts of the execution graph\<close>

text \<open>
  \<open>ExecutionGraph.barrier_splits\<close> tells every task how many copies of a barrier of each source
  subtask it has to align. The model follows the nested dictionaries of the code; the theorem shows
  that the count is the number of input channels that carry barriers of that source subtask, i.e.
  whose sender is reachable from it.
\<close>

type_synonym counts = "(vertex_id, int) dict"
type_synonym alignments = "(vertex_id, counts) dict"

definition add_counts :: "int \<Rightarrow> vertex_id list \<Rightarrow> counts \<Rightarrow> counts" where
  "add_counts S sources target =
     fold (\<lambda>s c. if job_vertex_id s = S then AList.update s (dict_get c s 0 + 1) c else c) sources target"

definition propagate_edge :: "int \<Rightarrow> execution_edge \<Rightarrow> alignments \<Rightarrow> alignments" where
  "propagate_edge S edge al =
     (case edge of (u, w) \<Rightarrow>
        let source_counts = dict_get al u [];
            al1 = dict_setdefault w [] al
        in AList.update w (add_counts S (keys source_counts) (dict_get al1 w [])) al1)"

definition propagate_source_alignment :: "egraph \<Rightarrow> int \<Rightarrow> int \<Rightarrow> alignments \<Rightarrow> alignments result" where
  "propagate_source_alignment g S cur al =
     rbind (input_job_edges g cur) (\<lambda>es.
       Inr (fold (propagate_edge S) (concat (map execution_edges es)) al))"

definition accumulate_barrier_splits :: "egraph \<Rightarrow> int \<Rightarrow> alignments \<Rightarrow> alignments result" where
  "accumulate_barrier_splits g S al =
     rbind (g_job_vertex g S) (\<lambda>jv.
       let al1 = fold (\<lambda>v. AList.update (ev_id v) [(ev_id v, 1)]) (map snd (execution_vertices jv)) al
       in rbind (topological_job_vertices g) (\<lambda>order.
            rfold (\<lambda>cur al. if cur = S then Inr al else propagate_source_alignment g S cur al) order al1))"

definition barrier_splits :: "egraph \<Rightarrow> alignments result" where
  "barrier_splits g = rfold (accumulate_barrier_splits g) (source_job_vertices g) []"

subsection \<open>Reading the dictionaries\<close>

definition cnt :: "alignments \<Rightarrow> vertex_id \<Rightarrow> vertex_id \<Rightarrow> int" where
  "cnt al v s = dict_get (dict_get al v []) s 0"

definition splits_ok :: "alignments \<Rightarrow> bool" where
  "splits_ok al \<longleftrightarrow> (\<forall>v. wf_dict (dict_get al v []) \<and> (\<forall>s n. map_of (dict_get al v []) s = Some n \<longrightarrow> 1 \<le> n))"

lemma key_iff_cnt: "splits_ok al \<Longrightarrow> s \<in> set (keys (dict_get al v [])) \<longleftrightarrow> 0 < cnt al v s"
proof -
  assume ok: "splits_ok al"
  show ?thesis
  proof (cases "map_of (dict_get al v []) s")
    case None
    then show ?thesis by (simp add: cnt_def dict_get_def [of _ s] map_of_None_keys [symmetric] del: set_map)
  next
    case (Some n)
    then have "1 \<le> n" using ok by (simp add: splits_ok_def)
    moreover have "s \<in> set (keys (dict_get al v []))" using Some by (metis map_of_None_keys option.distinct(1))
    ultimately show ?thesis using Some by (simp add: cnt_def dict_get_def [of _ s])
  qed
qed

lemma cnt_nonneg: "splits_ok al \<Longrightarrow> 0 \<le> cnt al v s"
proof -
  assume "splits_ok al"
  then have "map_of (dict_get al v []) s = Some n \<Longrightarrow> 1 \<le> n" for n by (simp add: splits_ok_def)
  then show ?thesis by (cases "map_of (dict_get al v []) s") (fastforce simp: cnt_def dict_get_def [of _ s])+
qed

lemma add_counts_spec:
  assumes "distinct sources"
  shows "map_of (add_counts S sources target) s =
    (if s \<in> set sources \<and> job_vertex_id s = S then Some (dict_get target s 0 + 1) else map_of target s) \<and>
    (wf_dict target \<longrightarrow> wf_dict (add_counts S sources target))"
  using assms
  by (induction sources arbitrary: target) (auto simp: add_counts_def dict_get_def)

lemma propagate_edge_spec:
  assumes ok: "splits_ok al"
  shows "splits_ok (propagate_edge S (u, w) al)"
    and "cnt (propagate_edge S (u, w) al) v s =
      cnt al v s + (if v = w \<and> job_vertex_id s = S \<and> 0 < cnt al u s then 1 else 0)"
proof -
  let ?al = "propagate_edge S (u, w) al"
  have d: "dict_get (dict_setdefault w [] al) w [] = dict_get al w []"
    by (simp add: dict_get_def split: option.splits)
  have new: "dict_get ?al v [] =
      (if v = w then add_counts S (keys (dict_get al u [])) (dict_get al w []) else dict_get al v [])" for v
    using d by (simp add: propagate_edge_def Let_def dict_get_def [of _ v])
  have dist: "distinct (keys (dict_get al u []))" using ok by (simp add: splits_ok_def)
  note a = add_counts_spec [OF dist, of S "dict_get al w []"]
  show "cnt ?al v s = cnt al v s + (if v = w \<and> job_vertex_id s = S \<and> 0 < cnt al u s then 1 else 0)"
    using a [of s] key_iff_cnt [OF ok, of s u] by (auto simp: cnt_def new dict_get_def [of _ s] split: option.splits)
  show "splits_ok ?al"
    unfolding splits_ok_def
  proof (intro allI conjI impI)
    fix v s n
    show "wf_dict (dict_get ?al v [])" using ok a [of s] by (simp add: new splits_ok_def)
    assume "map_of (dict_get ?al v []) s = Some n"
    then show "1 \<le> n"
      using ok a [of s] cnt_nonneg [OF ok, of w s] by (auto simp: new splits_ok_def cnt_def split: if_splits)
  qed
qed

text \<open>All edges into one job vertex: their senders are not changed on the way.\<close>

lemma propagate_edges_spec:
  assumes "splits_ok al" "\<And>u w. (u, w) \<in> set L \<Longrightarrow> job_vertex_id w = cur \<and> job_vertex_id u \<noteq> cur"
  shows "splits_ok (fold (propagate_edge S) L al) \<and> (\<forall>v s. cnt (fold (propagate_edge S) L al) v s =
    cnt al v s + (if job_vertex_id s = S then int (length (filter (\<lambda>(u, w). w = v \<and> 0 < cnt al u s) L)) else 0))"
  using assms
proof (induction L arbitrary: al)
  case (Cons e L)
  obtain u w where e: "e = (u, w)" by (cases e)
  let ?al = "propagate_edge S (u, w) al"
  note p = propagate_edge_spec [OF Cons.prems(1), of S u w]
  have ih: "splits_ok (fold (propagate_edge S) L ?al) \<and> (\<forall>v s. cnt (fold (propagate_edge S) L ?al) v s =
    cnt ?al v s + (if job_vertex_id s = S then int (length (filter (\<lambda>(u, w). w = v \<and> 0 < cnt ?al u s) L)) else 0))"
    by (rule Cons.IH [OF p(1)]) (use Cons.prems(2) in auto)
  have same: "cnt ?al u' s = cnt al u' s" if "(u', w') \<in> set L" for u' w' s
    using Cons.prems(2) [of u' w'] Cons.prems(2) [of u w] that p(2) by (auto simp: e)
  have filt: "filter (\<lambda>(u, w). w = v \<and> 0 < cnt ?al u s) L = filter (\<lambda>(u, w). w = v \<and> 0 < cnt al u s) L" for v s
    by (rule filter_cong) (use same in auto)
  have "cnt (fold (propagate_edge S) (e # L) al) v s = cnt al v s +
      (if job_vertex_id s = S then int (length (filter (\<lambda>(u, w). w = v \<and> 0 < cnt al u s) (e # L))) else 0)" for v s
  proof -
    have "cnt (fold (propagate_edge S) L ?al) v s = cnt ?al v s +
        (if job_vertex_id s = S then int (length (filter (\<lambda>(u, w). w = v \<and> 0 < cnt al u s) L)) else 0)"
      using ih unfolding filt by blast
    then show ?thesis unfolding p(2) by (simp add: e)
  qed
  with ih show ?case by (simp add: e)
qed simp

subsection \<open>Reachability\<close>

definition exec_edges :: "egraph \<Rightarrow> execution_edge list" where
  "exec_edges g = concat (map execution_edges (job_edges g))"

definition exec_wf :: "egraph \<Rightarrow> bool" where
  "exec_wf g \<longleftrightarrow>
     (\<forall>e \<in> set (job_edges g). \<forall>(u, w) \<in> set (execution_edges e).
        job_vertex_id u = je_source e \<and> job_vertex_id w = je_target e) \<and>
     (\<forall>(i, v) \<in> set (job_vertices g). \<forall>(j, x) \<in> set (execution_vertices v).
        ev_id x = \<lparr>job_vertex_id = i, vertex_index = j\<rparr>)"

definition subtasks :: "egraph \<Rightarrow> int \<Rightarrow> vertex_id set" where
  "subtasks g S = (case map_of (job_vertices g) S of None \<Rightarrow> {} | Some v \<Rightarrow> ev_id ` set (map snd (execution_vertices v)))"

text \<open>The number of channels into \<open>v\<close> whose sender is reachable from \<open>s\<close>.\<close>

definition fed_by :: "egraph \<Rightarrow> vertex_id \<Rightarrow> vertex_id \<Rightarrow> nat" where
  "fed_by g s v = length (filter (\<lambda>(u, w). w = v \<and> (s, u) \<in> (set (exec_edges g))\<^sup>*) (exec_edges g))"

lemma exec_edge_jobs:
  assumes "exec_wf g" "(u, w) \<in> set (exec_edges g)"
  shows "(job_vertex_id u, job_vertex_id w) \<in> job_rel g"
  using assms by (force simp: exec_wf_def exec_edges_def job_rel_def)

lemma source_no_inputs:
  assumes "graph_wf g" "S \<in> set (source_job_vertices g)"
  shows "(u, S) \<notin> job_rel g"
proof -
  have "job_vertices g \<noteq> []" using assms(2) by (auto simp: source_job_vertices_def)
  then have "set (source_job_vertices g) = set (keys (job_vertices g)) - je_target ` set (job_edges g)"
    using assms(1) by (auto simp: graph_wf_def validate_topology_def source_job_vertices_def split: if_splits)
  with assms(2) show ?thesis by (auto simp: job_rel_def)
qed

lemma fed_by_source:
  assumes "graph_wf g" "exec_wf g" "job_vertex_id v \<in> set (source_job_vertices g)"
  shows "fed_by g s v = 0"
  using exec_edge_jobs [OF assms(2)] source_no_inputs [OF assms(1,3)]
  by (auto simp: fed_by_def filter_empty_conv)

lemma fed_by_pos: "u \<noteq> s \<Longrightarrow> 0 < fed_by g s u \<longleftrightarrow> (s, u) \<in> (set (exec_edges g))\<^sup>*"
proof -
  assume "u \<noteq> s"
  then have "(s, u) \<in> (set (exec_edges g))\<^sup>* \<longleftrightarrow> (\<exists>x. (s, x) \<in> (set (exec_edges g))\<^sup>* \<and> (x, u) \<in> set (exec_edges g))"
    by (metis rtrancl.simps)
  then show ?thesis by (auto simp: fed_by_def filter_empty_conv)
qed

lemma filter_concat_filter:
  "(\<And>x. x \<in> set xs \<Longrightarrow> \<not> q x \<Longrightarrow> filter P (f x) = []) \<Longrightarrow>
   filter P (concat (map f (filter q xs))) = filter P (concat (map f xs))"
  by (induction xs) auto

lemma fed_by_in_edges:
  assumes "exec_wf g"
  shows "fed_by g s v = length (filter (\<lambda>(u, w). w = v \<and> (s, u) \<in> (set (exec_edges g))\<^sup>*)
    (concat (map execution_edges (in_edges g (job_vertex_id v)))))"
proof -
  have "filter (\<lambda>(u, w). w = v \<and> (s, u) \<in> (set (exec_edges g))\<^sup>*) (execution_edges e) = []"
    if "e \<in> set (job_edges g)" "je_target e \<noteq> job_vertex_id v" for e
    using that assms by (force simp: exec_wf_def filter_empty_conv)
  from filter_concat_filter [of "job_edges g" "\<lambda>e. je_target e = job_vertex_id v", OF this]
  show ?thesis by (simp add: fed_by_def exec_edges_def in_edges_def)
qed

subsection \<open>One source\<close>

lemma init_splits:
  fixes vs :: "execution_vertex list"
  assumes "splits_ok al"
  shows "splits_ok (fold (\<lambda>v. AList.update (ev_id v) [(ev_id v, 1)]) vs al)"
    and "cnt (fold (\<lambda>v. AList.update (ev_id v) [(ev_id v, 1)]) vs al) v s =
      (if v \<in> ev_id ` set vs then (if s = v then 1 else 0) else cnt al v s)"
proof -
  have get: "dict_get (fold (\<lambda>v. AList.update (ev_id v) [(ev_id v, 1)]) vs al) v [] =
      (if v \<in> ev_id ` set vs then [(v, 1)] else dict_get al v [])" for v
  proof (induction vs arbitrary: al)
    case (Cons x vs)
    show ?case by (simp add: Cons.IH) (simp add: dict_get_def)
  qed simp
  show "splits_ok (fold (\<lambda>v. AList.update (ev_id v) [(ev_id v, 1)]) vs al)"
    using assms by (simp add: splits_ok_def get)
  show "cnt (fold (\<lambda>v. AList.update (ev_id v) [(ev_id v, 1)]) vs al) v s =
      (if v \<in> ev_id ` set vs then (if s = v then 1 else 0) else cnt al v s)"
    by (simp add: cnt_def get) (simp add: dict_get_def)
qed

definition source_pass :: "egraph \<Rightarrow> int \<Rightarrow> alignments \<Rightarrow> int set \<Rightarrow> alignments \<Rightarrow> bool" where
  "source_pass g S al done_ids al' \<longleftrightarrow> splits_ok al' \<and>
     (\<forall>v s. job_vertex_id s \<noteq> S \<longrightarrow> cnt al' v s = cnt al v s) \<and>
     (\<forall>v s. job_vertex_id s = S \<longrightarrow> cnt al' v s =
        (if s \<notin> subtasks g S then 0 else if v = s then 1
         else if job_vertex_id v \<in> done_ids then int (fed_by g s v) else 0))"

lemma source_pass_step:
  assumes g: "graph_wf g" "exec_wf g" and S: "S \<in> set (source_job_vertices g)"
    and p: "source_pass g S al X al'" and cur: "cur \<in> job_ids g" "cur \<notin> X" "cur \<noteq> S"
    and sub: "\<And>s. s \<in> subtasks g S \<Longrightarrow> job_vertex_id s = S"
    and inputs: "\<And>u. (u, cur) \<in> job_rel g \<Longrightarrow> u \<in> X"
  shows "\<exists>al''. propagate_source_alignment g S cur al' = Inr al'' \<and> source_pass g S al (insert cur X) al''"
proof -
  let ?L = "concat (map execution_edges (in_edges g cur))"
  let ?al = "fold (propagate_edge S) ?L al'"
  obtain jv where "map_of (job_vertices g) cur = Some jv"
    using cur(1) unfolding job_ids_def by (metis map_of_None_keys not_None_eq)
  then have run: "propagate_source_alignment g S cur al' = Inr ?al"
    by (simp add: propagate_source_alignment_def input_job_edges_def g_job_vertex_def dict_item_def)
  have L: "(u, w) \<in> set (exec_edges g) \<and> job_vertex_id w = cur \<and> (job_vertex_id u, cur) \<in> job_rel g"
    if "(u, w) \<in> set ?L" for u w
    using that g(2) by (force simp: in_edges_def exec_edges_def exec_wf_def job_rel_def)
  have L': "job_vertex_id w = cur \<and> job_vertex_id u \<noteq> cur" if "(u, w) \<in> set ?L" for u w
    using L [OF that] inputs cur(2) by blast
  have ok: "splits_ok al'" using p by (simp add: source_pass_def)
  note e = propagate_edges_spec [OF ok L', of ?L S]
  have reach: "0 < cnt al' u s \<longleftrightarrow> (s, u) \<in> (set (exec_edges g))\<^sup>*"
    if "(u, w) \<in> set ?L" "s \<in> subtasks g S" for u w s
  proof -
    have "job_vertex_id u \<in> X" using L [OF that(1)] inputs by blast
    then have "cnt al' u s = (if u = s then 1 else int (fed_by g s u))"
      using p that(2) sub [OF that(2)] by (auto simp: source_pass_def)
    then show ?thesis using fed_by_pos [of u s g] by auto
  qed
  have "cnt ?al v s = (if s \<notin> subtasks g S then 0 else if v = s then 1
         else if job_vertex_id v \<in> insert cur X then int (fed_by g s v) else 0)" if s: "job_vertex_id s = S" for v s
  proof -
    have old: "cnt al' v s = (if s \<notin> subtasks g S then 0 else if v = s then 1
         else if job_vertex_id v \<in> X then int (fed_by g s v) else 0)" using p s by (simp add: source_pass_def)
    have new: "cnt ?al v s = cnt al' v s + int (length (filter (\<lambda>(u, w). w = v \<and> 0 < cnt al' u s) ?L))"
      using e s by simp
    show ?thesis
    proof (cases "s \<in> subtasks g S \<and> job_vertex_id v = cur")
      case True
      have "filter (\<lambda>(u, w). w = v \<and> 0 < cnt al' u s) ?L =
          filter (\<lambda>(u, w). w = v \<and> (s, u) \<in> (set (exec_edges g))\<^sup>*) ?L"
        by (rule filter_cong) (use reach True in auto)
      then have "cnt ?al v s = cnt al' v s + int (fed_by g s v)"
        using new fed_by_in_edges [OF g(2), of s v] True by simp
      then show ?thesis using old True cur(2,3) s by auto
    next
      case False
      have "filter (\<lambda>(u, w). w = v \<and> 0 < cnt al' u s) ?L = []"
      proof (cases "s \<in> subtasks g S")
        case True
        then show ?thesis using False L' by (auto simp: filter_empty_conv)
      next
        case notin: False
        then have "cnt al' u s = 0" for u using p s by (simp add: source_pass_def)
        then show ?thesis by (auto simp: filter_empty_conv)
      qed
      then have "cnt ?al v s = cnt al' v s" using new by simp
      then show ?thesis using old False by auto
    qed
  qed
  moreover have "cnt ?al v s = cnt al v s" if "job_vertex_id s \<noteq> S" for v s
    using e p that by (simp add: source_pass_def)
  ultimately have "source_pass g S al (insert cur X) ?al" using e by (simp add: source_pass_def)
  with run show ?thesis by blast
qed

lemma subtasks_job: "exec_wf g \<Longrightarrow> s \<in> subtasks g S \<Longrightarrow> job_vertex_id s = S"
  by (fastforce simp: subtasks_def exec_wf_def split: option.splits dest: map_of_SomeD)

lemma accumulate_spec:
  assumes g: "graph_wf g" "exec_wf g" "acyclic (job_rel g)" and S: "S \<in> set (source_job_vertices g)"
    and ok: "splits_ok al" and fresh: "\<And>v s. job_vertex_id s = S \<or> v \<in> subtasks g S \<Longrightarrow> cnt al v s = 0"
  shows "\<exists>al'. accumulate_barrier_splits g S al = Inr al' \<and> source_pass g S al (job_ids g) al'"
proof -
  obtain order where o: "topological_job_vertices g = Inr order" "distinct order" "set order = job_ids g"
    "\<And>i u. i < length order \<Longrightarrow> (u, order ! i) \<in> job_rel g \<Longrightarrow> u \<in> set (take i order)"
    using topological_cases [OF g(1)] g(3) by metis
  have "S \<in> job_ids g" using S by (auto simp: source_job_vertices_def job_ids_def)
  then obtain jv where jv: "map_of (job_vertices g) S = Some jv"
    unfolding job_ids_def by (metis map_of_None_keys not_None_eq)
  let ?al1 = "fold (\<lambda>v. AList.update (ev_id v) [(ev_id v, 1)]) (map snd (execution_vertices jv)) al"
  have sub: "subtasks g S = ev_id ` set (map snd (execution_vertices jv))" using jv by (simp add: subtasks_def)
  note i = init_splits [OF ok, of "map snd (execution_vertices jv)", folded sub]
  have start: "source_pass g S al {} ?al1"
    unfolding source_pass_def using i(1) by (auto simp: i(2) fresh dest: subtasks_job [OF g(2)])
  have "\<exists>al'. rfold (\<lambda>cur al. if cur = S then Inr al else propagate_source_alignment g S cur al) order ?al1 = Inr al' \<and>
      source_pass g S al (set order) al'"
  proof (rule rfold_invariant [where I = "\<lambda>pre. source_pass g S al (set pre)"])
    show "source_pass g S al (set []) ?al1" using start by simp
  next
    fix pre cur rest al'
    assume split: "order = pre @ cur # rest" and p: "source_pass g S al (set pre) al'"
    show "\<exists>s'. (if cur = S then Inr al' else propagate_source_alignment g S cur al') = Inr s' \<and>
        source_pass g S al (set (pre @ [cur])) s'"
    proof (cases "cur = S")
      case True
      have "source_pass g S al (insert S (set pre)) al'"
        using p fed_by_source [OF g(1,2)] S by (auto simp: source_pass_def)
      then show ?thesis using True by simp
    next
      case False
      have "u \<in> set pre" if "(u, cur) \<in> job_rel g" for u
        using o(4) [of "length pre" u] that by (simp add: split)
      moreover have "cur \<in> job_ids g" "cur \<notin> set pre" using o(2,3) split by auto
      ultimately show ?thesis
        using source_pass_step [OF g(1,2) S p _ _ False subtasks_job [OF g(2)]] False by simp
    qed
  qed
  then show ?thesis using jv o(1,3) by (simp add: accumulate_barrier_splits_def g_job_vertex_def dict_item_def)
qed

text \<open>
  C19. Tasks wait for exactly the barriers that will arrive: for an acyclic graph with valid
  topology, \<open>barrier_splits\<close> succeeds, and for every source subtask and every task of another
  operator the count it computes is the number of input channels whose sender is that source subtask
  or is reachable from it along execution edges; so a task without such a channel waits for none.
\<close>

theorem barrier_splits_exact:
  assumes "graph_wf g" "exec_wf g" "acyclic (job_rel g)"
  shows "\<exists>al. barrier_splits g = Inr al \<and>
    (\<forall>S \<in> set (source_job_vertices g). \<forall>s \<in> subtasks g S. \<forall>v. job_vertex_id v \<in> set (keys (job_vertices g)) - {S} \<longrightarrow>
       dict_get (dict_get al v []) s 0 =
         int (length (filter (\<lambda>(u, w). w = v \<and> (s, u) \<in> (set (exec_edges g))\<^sup>*) (exec_edges g))))"
proof -
  let ?I = "\<lambda>pre al. splits_ok al \<and> (\<forall>v s. cnt al v s =
      (if job_vertex_id s \<notin> set pre \<or> s \<notin> subtasks g (job_vertex_id s) then 0 else if v = s then 1
       else if job_vertex_id v \<in> job_ids g then int (fed_by g s v) else 0))"
  have "distinct (source_job_vertices g)"
    unfolding source_job_vertices_def by (rule distinct_map_filter [OF graph_wfD(1) [OF assms(1)]])
  have "\<exists>al. rfold (accumulate_barrier_splits g) (source_job_vertices g) [] = Inr al \<and> ?I (source_job_vertices g) al"
  proof (rule rfold_invariant [where I = ?I])
    show "?I [] []" by (simp add: splits_ok_def cnt_def dict_get_def)
  next
    fix pre S rest al
    assume split: "source_job_vertices g = pre @ S # rest" and I: "?I pre al"
    have S: "S \<in> set (source_job_vertices g)" "S \<notin> set pre"
      using split \<open>distinct (source_job_vertices g)\<close> by simp_all
    have "cnt al v s = 0" if "job_vertex_id s = S \<or> v \<in> subtasks g S" for v s
    proof (cases "job_vertex_id s = S")
      case True
      then show ?thesis using I S(2) by simp
    next
      case False
      then have v: "job_vertex_id v = S" using that subtasks_job [OF assms(2)] by blast
      then have "v \<noteq> s" "fed_by g s v = 0" using False fed_by_source [OF assms(1,2)] S(1) by auto
      then show ?thesis using I by simp
    qed
    with accumulate_spec [OF assms S(1)] I obtain al' where
      al': "accumulate_barrier_splits g S al = Inr al'" "source_pass g S al (job_ids g) al'" by blast
    have "?I (pre @ [S]) al'"
    proof (intro conjI allI)
      show "splits_ok al'" using al'(2) by (simp add: source_pass_def)
      fix v s
      show "cnt al' v s = (if job_vertex_id s \<notin> set (pre @ [S]) \<or> s \<notin> subtasks g (job_vertex_id s) then 0
        else if v = s then 1 else if job_vertex_id v \<in> job_ids g then int (fed_by g s v) else 0)"
        using al'(2) I by (cases "job_vertex_id s = S") (simp_all add: source_pass_def)
    qed
    with al'(1) show "\<exists>s'. accumulate_barrier_splits g S al = Inr s' \<and> ?I (pre @ [S]) s'" by blast
  qed
  then obtain al where al: "barrier_splits g = Inr al" "?I (source_job_vertices g) al"
    by (auto simp: barrier_splits_def)
  have "cnt al v s = int (fed_by g s v)"
    if "S \<in> set (source_job_vertices g)" "s \<in> subtasks g S" "job_vertex_id v \<in> set (keys (job_vertices g)) - {S}" for S s v
  proof -
    have "job_vertex_id s = S" using subtasks_job [OF assms(2) that(2)] .
    moreover have "v \<noteq> s" "job_vertex_id v \<in> job_ids g" using that(3) \<open>job_vertex_id s = S\<close> by (auto simp: job_ids_def)
    ultimately show ?thesis using al(2) that(1,2) by simp
  qed
  with al(1) show ?thesis unfolding cnt_def fed_by_def by blast
qed

text \<open>Two source subtasks that each feed both subtasks of one sink.\<close>

definition demo_shuffle :: egraph where
  "demo_shuffle =
     (let s = make_job_vertex (\<lambda>_. ''g'') (demo_spec 0 True 2); t = make_job_vertex (\<lambda>_. ''g'') (demo_spec 1 False 2);
          x = \<lambda>j i. \<lparr>job_vertex_id = j, vertex_index = i\<rparr>
      in \<lparr>g_namespace = ''n'', job_vertices = [(0, s), (1, t)],
          job_edges = [\<lparr>je_source = 0, je_target = 1,
            je_partitioner = \<lparr>forward_class = False, spec_topology = ALL_TO_ALL\<rparr>,
            execution_edges = [(x 0 0, x 1 0), (x 0 0, x 1 1), (x 0 1, x 1 0), (x 0 1, x 1 1)]\<rparr>], topology_epochs = []\<rparr>)"

theorem barrier_splits_exact_witness:
  "graph_wf demo_shuffle \<and> exec_wf demo_shuffle \<and> acyclic (job_rel demo_shuffle) \<and> (\<exists>al. barrier_splits demo_shuffle = Inr al)"
proof -
  have wf: "graph_wf demo_shuffle" "exec_wf demo_shuffle" by code_simp+
  have "job_rel demo_shuffle = {(0, 1)}" by code_simp
  then have acy: "acyclic (job_rel demo_shuffle)" by (intro acyclicI_order [where f = uminus]) simp
  from barrier_splits_exact [OF wf acy] wf acy show ?thesis by blast
qed

end
