(* ===== verification/CheckpointDomains.thy ===== *)
theory CheckpointDomains
  imports BarrierCounts "HOL-Library.List_Lexorder" "HOL-Library.Product_Lexorder"
begin

section \<open>Checkpoint domains and affinity groups (execution_graph.py, checkpoint_domain.py)\<close>

text \<open>
  Checkpoints are coordinated per weakly connected component of the physical graph, and subtasks
  joined by forward edges are placed together. Both come from one depth-first search, modelled with
  its explicit stack (the head of the list is the top) and shown to terminate because every step
  either shrinks the stack or marks a new vertex. The digest of a domain id is a parameter.
\<close>

subsection \<open>Connected components\<close>

type_synonym 'a adjacency = "('a, 'a list) dict"

function component_loop ::
  "'a adjacency \<Rightarrow> 'a set \<Rightarrow> 'a list \<Rightarrow> 'a list \<Rightarrow> ('a set \<times> 'a list) result" where
  "component_loop adj seen component [] = Inr (seen, component)"
| "component_loop adj seen component (node # stack) =
     (if node \<in> seen then component_loop adj seen component stack
      else case map_of adj node of
        None \<Rightarrow> Inl KeyError
      | Some neighbors \<Rightarrow>
          component_loop adj (insert node seen) (component @ [node])
            (rev (filter (\<lambda>n. n \<notin> insert node seen) neighbors) @ stack))"
  by pat_completeness auto

termination
proof (relation "measures [\<lambda>(adj, seen, _, _). card (set (keys adj) - seen), \<lambda>(_, _, _, stack). length stack]")
  fix adj :: "'a adjacency" and seen component stack node neighbors
  assume "node \<notin> seen" "map_of adj node = Some neighbors"
  then have "node \<in> set (keys adj) - seen" using map_of_None_keys [of adj node] by simp
  then have "set (keys adj) - insert node seen \<subset> set (keys adj) - seen" by blast
  then have "card (set (keys adj) - insert node seen) < card (set (keys adj) - seen)"
    by (rule psubset_card_mono [rotated]) simp
  then show "((adj, insert node seen, component @ [node], rev (filter (\<lambda>n. n \<notin> insert node seen) neighbors) @ stack),
       adj, seen, component, node # stack)
      \<in> measures [\<lambda>(adj, seen, _, _). card (set (keys adj) - seen), \<lambda>(_, _, _, stack). length stack]"
    by simp
qed auto

fun components_from :: "'a adjacency \<Rightarrow> 'a list \<Rightarrow> 'a set \<Rightarrow> 'a list list \<Rightarrow> 'a list list result" where
  "components_from adj [] seen groups = Inr groups"
| "components_from adj (v # vs) seen groups =
     (if v \<in> seen then components_from adj vs seen groups
      else rbind (component_loop adj seen [] [v]) (\<lambda>(seen', component).
             components_from adj vs seen' (groups @ [component])))"

definition connected_components :: "'a adjacency \<Rightarrow> 'a list list result" where
  "connected_components adj = components_from adj (keys adj) {} []"

subsection \<open>Domains and groups\<close>

definition vertex_key :: "vertex_id \<Rightarrow> int \<times> int" where
  "vertex_key v = (job_vertex_id v, vertex_index v)"

record checkpoint_domain =
  domain_id :: string
  domain_vertices :: "vertex_id list"
  domain_sources :: "vertex_id list"
  domain_sinks :: "vertex_id list"

definition make_checkpoint_domain ::
  "string \<Rightarrow> vertex_id list \<Rightarrow> vertex_id list \<Rightarrow> vertex_id list \<Rightarrow> checkpoint_domain result" where
  "make_checkpoint_domain i vs sources sinks =
     (if i = [] then Inl ValueError
      else if vs = [] then Inl ValueError
      else if \<not> distinct vs then Inl ValueError
      else if \<not> set sources \<subseteq> set vs then Inl ValueError
      else if \<not> set sinks \<subseteq> set vs then Inl ValueError
      else Inr \<lparr>domain_id = i, domain_vertices = vs, domain_sources = sources, domain_sinks = sinks\<rparr>)"

fun join_with :: "string \<Rightarrow> string list \<Rightarrow> string" where
  "join_with sep [] = []"
| "join_with sep [x] = x"
| "join_with sep (x # xs) = x @ sep @ join_with sep xs"

definition checkpoint_domain_id :: "(string \<Rightarrow> string) \<Rightarrow> vertex_id list \<Rightarrow> string" where
  "checkpoint_domain_id sha256_hex vs =
     ''checkpoint-domain-'' @ sha256_hex (join_with '','' (map (\<lambda>v.
       show_int (job_vertex_id v) @ '':'' @ show_int (vertex_index v)) (sort_key vertex_key vs)))"

definition connect :: "execution_edge \<Rightarrow> vertex_id adjacency \<Rightarrow> vertex_id adjacency result" where
  "connect edge adj =
     (case edge of (u, w) \<Rightarrow>
        rbind (dict_item adj u) (\<lambda>ns.
          let adj1 = AList.update u (ns @ [w]) adj
          in rbind (dict_item adj1 w) (\<lambda>ms. Inr (AList.update w (ms @ [u]) adj1))))"

definition empty_adjacency :: "egraph \<Rightarrow> vertex_id adjacency" where
  "empty_adjacency g = fold (\<lambda>v. AList.update (ev_id v) []) (all_execution_vertices g) []"

definition undirected_adjacency :: "egraph \<Rightarrow> vertex_id adjacency result" where
  "undirected_adjacency g = rfold connect (exec_edges g) (empty_adjacency g)"

definition forward_adjacency :: "egraph \<Rightarrow> vertex_id adjacency result" where
  "forward_adjacency g =
     rfold connect (concat (map execution_edges (filter (\<lambda>e. forward_class (je_partitioner e)) (job_edges g))))
       (empty_adjacency g)"

definition affinity_groups :: "egraph \<Rightarrow> vertex_id list list result" where
  "affinity_groups g = rbind (forward_adjacency g) connected_components"

definition source_ids :: "egraph \<Rightarrow> vertex_id set" where
  "source_ids g = set (map ev_id (subtasks_of g (source_job_vertices g)))"

definition sink_ids :: "egraph \<Rightarrow> vertex_id set" where
  "sink_ids g = set (map ev_id (subtasks_of g (sink_job_vertices g)))"

definition checkpoint_domains :: "(string \<Rightarrow> string) \<Rightarrow> egraph \<Rightarrow> checkpoint_domain list result" where
  "checkpoint_domains sha256_hex g =
     rbind (undirected_adjacency g) (\<lambda>adj.
     rbind (connected_components adj) (\<lambda>groups.
       let components = sort_key (map vertex_key) (map (sort_key vertex_key) groups)
       in rmap (\<lambda>c. make_checkpoint_domain (checkpoint_domain_id sha256_hex c) c
                     (filter (\<lambda>v. v \<in> source_ids g) c) (filter (\<lambda>v. v \<in> sink_ids g) c)) components))"

definition domain_by_vertex :: "checkpoint_domain list \<Rightarrow> (vertex_id, checkpoint_domain) dict" where
  "domain_by_vertex ds = fold (\<lambda>d m. fold (\<lambda>v. AList.update v d) (domain_vertices d) m) ds []"

definition find_checkpoint_domain :: "checkpoint_domain list \<Rightarrow> vertex_id \<Rightarrow> checkpoint_domain option" where
  "find_checkpoint_domain ds v = map_of (domain_by_vertex ds) v"

definition checkpoint_domain_of :: "checkpoint_domain list \<Rightarrow> vertex_id \<Rightarrow> checkpoint_domain result" where
  "checkpoint_domain_of ds v = dict_item (domain_by_vertex ds) v"

definition checkpoint_domains_for_job_vertex ::
  "(string \<Rightarrow> string) \<Rightarrow> egraph \<Rightarrow> int \<Rightarrow> checkpoint_domain list result" where
  "checkpoint_domains_for_job_vertex sha256_hex g i =
     rbind (g_job_vertex g i) (\<lambda>jv.
     rbind (checkpoint_domains sha256_hex g) (\<lambda>ds.
     rbind (rfold (\<lambda>v m. rbind (checkpoint_domain_of ds (ev_id v)) (\<lambda>d. Inr (AList.update (domain_id d) d m)))
              (map snd (execution_vertices jv)) []) (\<lambda>m. Inr (map snd m))))"

subsection \<open>The search finds the components\<close>

definition adj_rel :: "'a adjacency \<Rightarrow> ('a \<times> 'a) set" where
  "adj_rel adj = {(u, w). w \<in> set (dict_get adj u [])}"

definition symmetric_adjacency :: "'a adjacency \<Rightarrow> bool" where
  "symmetric_adjacency adj \<longleftrightarrow> sym (adj_rel adj) \<and> adj_rel adj \<subseteq> UNIV \<times> set (keys adj)"

definition closed_under :: "('a \<times> 'a) set \<Rightarrow> 'a set \<Rightarrow> bool" where
  "closed_under r X \<longleftrightarrow> (\<forall>u w. u \<in> X \<and> (u, w) \<in> r \<longrightarrow> w \<in> X)"

lemma closed_under_rtrancl: "(u, w) \<in> r\<^sup>* \<Longrightarrow> closed_under r X \<Longrightarrow> u \<in> X \<Longrightarrow> w \<in> X"
  by (induction rule: rtrancl_induct) (auto simp: closed_under_def)

definition search_inv :: "'a adjacency \<Rightarrow> 'a \<Rightarrow> 'a set \<Rightarrow> 'a set \<Rightarrow> 'a list \<Rightarrow> 'a list \<Rightarrow> bool" where
  "search_inv adj v0 seen0 seen component stack \<longleftrightarrow>
     seen = seen0 \<union> set component \<and> set component \<inter> seen0 = {} \<and> distinct component \<and>
     set component \<union> set stack \<subseteq> {y. (v0, y) \<in> (adj_rel adj)\<^sup>*} \<and> set stack \<subseteq> set (keys adj) \<and>
     set component \<subseteq> set (keys adj) \<and>
     (\<forall>u \<in> set component. \<forall>w. (u, w) \<in> adj_rel adj \<longrightarrow> w \<in> seen \<union> set stack) \<and>
     v0 \<in> seen \<union> set stack"

lemma component_loop_spec:
  assumes "symmetric_adjacency adj" "search_inv adj v0 seen0 seen component stack"
  shows "\<exists>seen' component'. component_loop adj seen component stack = Inr (seen', component') \<and>
    search_inv adj v0 seen0 seen' component' []"
  using assms
proof (induction adj seen component stack rule: component_loop.induct)
  case (2 adj seen component node stack)
  show ?case
  proof (cases "node \<in> seen")
    case True
    then have "search_inv adj v0 seen0 seen component stack" using 2(4) by (auto simp: search_inv_def)
    with 2(1) [OF True 2(3)] True show ?thesis by simp
  next
    case False
    have node: "node \<in> set (keys adj)" using 2(4) by (simp add: search_inv_def)
    then obtain ns where ns: "map_of adj node = Some ns" by (metis map_of_None_keys not_None_eq)
    let ?stack = "rev (filter (\<lambda>n. n \<notin> insert node seen) ns) @ stack"
    have adj: "(node, w) \<in> adj_rel adj \<longleftrightarrow> w \<in> set ns" for w using ns by (simp add: adj_rel_def dict_get_def)
    have reach: "(v0, node) \<in> (adj_rel adj)\<^sup>*" using 2(4) by (simp add: search_inv_def)
    have "(v0, w) \<in> (adj_rel adj)\<^sup>* \<and> w \<in> set (keys adj)" if "w \<in> set ns" for w
      using that adj reach 2(3) rtrancl_into_rtrancl [OF reach, of w] by (auto simp: symmetric_adjacency_def)
    then have "search_inv adj v0 seen0 (insert node seen) (component @ [node]) ?stack"
      using 2(4) False adj reach node unfolding search_inv_def by auto
    with 2(2) [OF False ns 2(3)] False ns show ?thesis by simp
  qed
qed simp

lemma component_spec:
  assumes adj: "symmetric_adjacency adj" and v0: "v0 \<in> set (keys adj)" "v0 \<notin> seen0"
    and closed: "closed_under (adj_rel adj) seen0"
  shows "\<exists>c. component_loop adj seen0 [] [v0] = Inr (seen0 \<union> set c, c) \<and> distinct c \<and>
    set c = {y. (v0, y) \<in> (adj_rel adj)\<^sup>*} \<and> set c \<inter> seen0 = {} \<and> set c \<subseteq> set (keys adj) \<and>
    closed_under (adj_rel adj) (seen0 \<union> set c)"
proof -
  have "search_inv adj v0 seen0 seen0 [] [v0]" using v0 by (simp add: search_inv_def)
  from component_loop_spec [OF adj this] obtain seen c where
    run: "component_loop adj seen0 [] [v0] = Inr (seen, c)" and inv: "search_inv adj v0 seen0 seen c []" by blast
  have c: "seen = seen0 \<union> set c" "set c \<inter> seen0 = {}" "distinct c" "set c \<subseteq> set (keys adj)"
    "set c \<subseteq> {y. (v0, y) \<in> (adj_rel adj)\<^sup>*}" "v0 \<in> set c" using inv v0(2) by (auto simp: search_inv_def)
  have "closed_under (adj_rel adj) (set c)"
    unfolding closed_under_def
  proof (intro allI impI)
    fix u w assume u: "u \<in> set c \<and> (u, w) \<in> adj_rel adj"
    then have "w \<in> seen0 \<union> set c" using inv c(1) unfolding search_inv_def by auto
    moreover have "(w, u) \<in> adj_rel adj" using u adj by (auto simp: symmetric_adjacency_def sym_def)
    ultimately show "w \<in> set c" using closed u c(2) by (auto simp: closed_under_def)
  qed
  with c(6) have "{y. (v0, y) \<in> (adj_rel adj)\<^sup>*} \<subseteq> set c" using closed_under_rtrancl by fastforce
  with c run closed \<open>closed_under (adj_rel adj) (set c)\<close> show ?thesis
    by (intro exI [of _ c]) (auto simp: closed_under_def)
qed

definition components_ok :: "('a \<times> 'a) set \<Rightarrow> 'a set \<Rightarrow> 'a list list \<Rightarrow> bool" where
  "components_ok r V groups \<longleftrightarrow> distinct (concat groups) \<and> set (concat groups) = V \<and>
     (\<forall>c \<in> set groups. c \<noteq> [] \<and> (\<forall>u \<in> set c. set c = {y. (u, y) \<in> r\<^sup>*}))"

lemma components_ok_snoc:
  assumes "sym r" "components_ok r V groups" "distinct c" "set c = {y. (v, y) \<in> r\<^sup>*}" "set c \<inter> V = {}"
  shows "components_ok r (V \<union> set c) (groups @ [c])"
proof -
  have "set c = {y. (u, y) \<in> r\<^sup>*}" if "u \<in> set c" for u
  proof -
    have "(v, u) \<in> r\<^sup>*" using that assms(4) by simp
    moreover have "(u, v) \<in> r\<^sup>*" using symD [OF sym_rtrancl [OF assms(1)] calculation] .
    ultimately show ?thesis using assms(4) by (auto intro: rtrancl_trans)
  qed
  moreover have "v \<in> set c" using assms(4) by simp
  ultimately show ?thesis using assms(2,3,5) by (auto simp: components_ok_def)
qed

lemma components_from_spec:
  assumes adj: "symmetric_adjacency adj" and "set vs \<subseteq> set (keys adj)" "closed_under (adj_rel adj) seen"
    "seen \<subseteq> set (keys adj)" "components_ok (adj_rel adj) seen groups"
  shows "\<exists>seen' groups'. components_from adj vs seen groups = Inr groups' \<and>
    components_ok (adj_rel adj) seen' groups' \<and> seen \<union> set vs \<subseteq> seen' \<and> seen' \<subseteq> set (keys adj)"
  using assms(2-)
proof (induction vs arbitrary: seen groups)
  case (Cons v vs)
  show ?case
  proof (cases "v \<in> seen")
    case True
    then show ?thesis using Cons.IH [OF _ Cons.prems(2-4)] Cons.prems(1) by auto
  next
    case False
    have v: "v \<in> set (keys adj)" using Cons.prems(1) by simp
    obtain c where c: "component_loop adj seen [] [v] = Inr (seen \<union> set c, c)" "distinct c"
      "set c = {y. (v, y) \<in> (adj_rel adj)\<^sup>*}" "set c \<inter> seen = {}" "set c \<subseteq> set (keys adj)"
      "closed_under (adj_rel adj) (seen \<union> set c)"
      using component_spec [OF adj v False Cons.prems(2)] by metis
    have ok: "components_ok (adj_rel adj) (seen \<union> set c) (groups @ [c])"
      using components_ok_snoc [OF _ Cons.prems(4) c(2,3,4)] adj by (simp add: symmetric_adjacency_def)
    have "v \<in> set c" unfolding c(3) by simp
    moreover have "seen \<union> set c \<subseteq> set (keys adj)" using Cons.prems(3) c(5) by blast
    moreover have "set vs \<subseteq> set (keys adj)" using Cons.prems(1) by simp
    ultimately obtain seen' groups' where "components_from adj vs (seen \<union> set c) (groups @ [c]) = Inr groups'"
      "components_ok (adj_rel adj) seen' groups'" "(seen \<union> set c) \<union> set vs \<subseteq> seen'" "seen' \<subseteq> set (keys adj)"
      using Cons.IH [OF _ c(6) _ ok] by blast
    moreover have "components_from adj (v # vs) seen groups = components_from adj vs (seen \<union> set c) (groups @ [c])"
      using c(1) False by (simp del: component_loop.simps)
    ultimately show ?thesis using \<open>v \<in> set c\<close> by (intro exI [of _ seen'] exI [of _ groups']) auto
  qed
qed auto

lemma connected_components_spec:
  assumes "symmetric_adjacency adj"
  shows "\<exists>groups. connected_components adj = Inr groups \<and> components_ok (adj_rel adj) (set (keys adj)) groups"
proof -
  have "components_ok (adj_rel adj) {} []" "closed_under (adj_rel adj) {}"
    by (simp_all add: components_ok_def closed_under_def)
  with components_from_spec [OF assms, of "keys adj" "{}" "[]"] show ?thesis
    unfolding connected_components_def by (metis Un_empty_left empty_subsetI order_refl subset_antisym)
qed

text \<open>Sorting the members and the groups keeps the components.\<close>

lemma components_ok_sorted:
  assumes "components_ok r V groups"
  shows "components_ok r V (sort_key f (map (sort_key k) groups))"
proof -
  have concat_ok: "distinct (concat gs) \<longleftrightarrow> distinct gs \<and> (\<forall>c \<in> set gs. distinct c) \<and>
      (\<forall>c \<in> set gs. \<forall>d \<in> set gs. c \<noteq> d \<longrightarrow> set c \<inter> set d = {})" if "[] \<notin> set gs" for gs :: "'a list list"
    using that by (auto simp: distinct_concat_iff removeAll_id)
  have d: "distinct groups" "[] \<notin> set groups" "\<forall>c \<in> set groups. distinct c"
      "\<forall>c \<in> set groups. \<forall>d \<in> set groups. c \<noteq> d \<longrightarrow> set c \<inter> set d = {}"
    using assms concat_ok [of groups] by (auto simp: components_ok_def)
  have "inj_on (sort_key k) (set groups)"
  proof (rule inj_onI)
    fix c e assume ce: "c \<in> set groups" "e \<in> set groups" "sort_key k c = sort_key k e"
    then have "set c = set e" by (metis set_sort)
    with ce d(2,4) show "c = e" by (metis inf.idem set_empty)
  qed
  moreover have ne: "sort_key k c \<noteq> []" if "c \<in> set groups" for c
    using that d(2) set_sort [of k c] by force
  then have "[] \<notin> set (sort_key f (map (sort_key k) groups))" by force
  moreover have "set c \<inter> set e = {}" if "c \<in> set groups" "e \<in> set groups" "sort_key k c \<noteq> sort_key k e" for c e
  proof -
    have "c \<noteq> e" using that(3) by auto
    with d(4) that(1,2) show ?thesis by simp
  qed
  ultimately have "distinct (concat (sort_key f (map (sort_key k) groups)))"
    using d by (subst concat_ok) (simp_all add: distinct_map)
  with assms show ?thesis by (auto simp: components_ok_def dest: ne)
qed

subsection \<open>The adjacency of a graph\<close>

definition vertex_ids :: "egraph \<Rightarrow> vertex_id set" where
  "vertex_ids g = ev_id ` set (all_execution_vertices g)"

definition undirected :: "execution_edge list \<Rightarrow> (vertex_id \<times> vertex_id) set" where
  "undirected es = set es \<union> (set es)\<inverse>"

lemma connect_spec:
  assumes "u \<in> set (keys adj)" "w \<in> set (keys adj)"
  shows "\<exists>adj'. connect (u, w) adj = Inr adj' \<and> set (keys adj') = set (keys adj) \<and>
    adj_rel adj' = adj_rel adj \<union> {(u, w), (w, u)}"
proof -
  obtain ns where ns: "map_of adj u = Some ns" using assms(1) by (metis map_of_None_keys not_None_eq)
  let ?adj1 = "AList.update u (ns @ [w]) adj"
  have "w \<in> set (keys ?adj1)" using assms(2) by simp
  then obtain ms where ms: "map_of ?adj1 w = Some ms" by (metis map_of_None_keys not_None_eq)
  let ?adj2 = "AList.update w (ms @ [u]) ?adj1"
  have "connect (u, w) adj = Inr ?adj2" using ns ms by (simp add: connect_def dict_item_def Let_def del: map_of_update)
  moreover have "set (keys ?adj2) = set (keys adj)" using assms by auto
  moreover have "(x, y) \<in> adj_rel ?adj2 \<longleftrightarrow> (x, y) \<in> adj_rel adj \<or> (x, y) \<in> {(u, w), (w, u)}" for x y
    using ns ms by (auto simp: adj_rel_def dict_get_def split: if_splits option.splits)
  ultimately show ?thesis by (intro exI [of _ ?adj2]) auto
qed

lemma connect_all:
  assumes "\<And>u w. (u, w) \<in> set es \<Longrightarrow> u \<in> set (keys adj) \<and> w \<in> set (keys adj)"
  shows "\<exists>adj'. rfold connect es adj = Inr adj' \<and> set (keys adj') = set (keys adj) \<and>
    adj_rel adj' = adj_rel adj \<union> undirected es"
proof -
  have "\<exists>adj'. rfold connect es adj = Inr adj' \<and>
      (\<lambda>pre adj'. set (keys adj') = set (keys adj) \<and> adj_rel adj' = adj_rel adj \<union> undirected pre) es adj'"
  proof (rule rfold_invariant)
    show "set (keys adj) = set (keys adj) \<and> adj_rel adj = adj_rel adj \<union> undirected []" by (simp add: undirected_def)
    fix pre x rest s
    assume a: "es = pre @ x # rest" "set (keys s) = set (keys adj) \<and> adj_rel s = adj_rel adj \<union> undirected pre"
    obtain u w where x: "x = (u, w)" by (cases x)
    have "u \<in> set (keys s)" "w \<in> set (keys s)" using assms [of u w] a x by auto
    from connect_spec [OF this] obtain s' where "connect x s = Inr s'" "set (keys s') = set (keys s)"
      "adj_rel s' = adj_rel s \<union> {(u, w), (w, u)}" using x by blast
    with a(2) x show "\<exists>s'. connect x s = Inr s' \<and> set (keys s') = set (keys adj) \<and>
        adj_rel s' = adj_rel adj \<union> undirected (pre @ [x])" by (auto simp: undirected_def)
  qed
  then show ?thesis by simp
qed

lemma empty_adjacency_spec:
  "set (keys (empty_adjacency g)) = vertex_ids g \<and> adj_rel (empty_adjacency g) = {}"
proof -
  have "set (keys (fold (\<lambda>v. AList.update (ev_id v) []) vs d)) = ev_id ` set vs \<union> set (keys d) \<and>
      (adj_rel d = {} \<longrightarrow> adj_rel (fold (\<lambda>v. AList.update (ev_id v) []) vs d) = {})"
    for vs :: "execution_vertex list" and d :: "vertex_id adjacency"
  proof (induction vs arbitrary: d)
    case (Cons v vs)
    have "adj_rel d = {} \<Longrightarrow> adj_rel (AList.update (ev_id v) [] d) = {}" by (auto simp: adj_rel_def dict_get_def)
    with Cons.IH [of "AList.update (ev_id v) [] d"] show ?case by auto
  qed simp
  from this [of "all_execution_vertices g" "[]"] show ?thesis
    by (simp add: empty_adjacency_def vertex_ids_def) (simp add: adj_rel_def dict_get_def)
qed

definition edges_inside :: "egraph \<Rightarrow> bool" where
  "edges_inside g \<longleftrightarrow> set (exec_edges g) \<subseteq> vertex_ids g \<times> vertex_ids g"

lemma components_of_edges:
  assumes "set es \<subseteq> vertex_ids g \<times> vertex_ids g"
  shows "\<exists>adj groups. rfold connect es (empty_adjacency g) = Inr adj \<and> connected_components adj = Inr groups \<and>
    components_ok (undirected es) (vertex_ids g) groups"
proof -
  obtain adj where adj: "rfold connect es (empty_adjacency g) = Inr adj" "set (keys adj) = vertex_ids g"
    "adj_rel adj = undirected es"
    using connect_all [of es "empty_adjacency g"] empty_adjacency_spec [of g] assms by auto
  have "symmetric_adjacency adj"
    unfolding symmetric_adjacency_def adj using assms by (auto simp: undirected_def sym_def)
  from connected_components_spec [OF this] adj show ?thesis by metis
qed

text \<open>
  C20. Checkpoint domains are the weakly connected components of the physical graph: for a graph
  whose edges join its own vertices \<open>checkpoint_domains\<close> succeeds; every execution vertex is in
  exactly one domain, listed once and in order; two vertices share a domain exactly if they are
  connected by execution edges, ignoring direction; and a domain's sources and sinks are exactly its
  members that belong to source and sink operators.
\<close>

theorem checkpoint_domains_are_components:
  assumes "edges_inside g"
  shows "\<exists>ds. checkpoint_domains sha256_hex g = Inr ds \<and>
    distinct (concat (map domain_vertices ds)) \<and>
    set (concat (map domain_vertices ds)) = ev_id ` set (all_execution_vertices g) \<and>
    (\<forall>d \<in> set ds. sorted (map vertex_key (domain_vertices d)) \<and>
       domain_sources d = filter (\<lambda>v. v \<in> source_ids g) (domain_vertices d) \<and>
       domain_sinks d = filter (\<lambda>v. v \<in> sink_ids g) (domain_vertices d) \<and>
       (\<forall>u \<in> set (domain_vertices d). \<forall>w. w \<in> set (domain_vertices d) \<longleftrightarrow>
          (u, w) \<in> (set (exec_edges g) \<union> (set (exec_edges g))\<inverse>)\<^sup>*))"
proof -
  obtain adj groups where a: "undirected_adjacency g = Inr adj" "connected_components adj = Inr groups"
    "components_ok (undirected (exec_edges g)) (vertex_ids g) groups"
    using components_of_edges [OF assms [unfolded edges_inside_def]] unfolding undirected_adjacency_def by blast
  define cs where "cs = sort_key (map vertex_key) (map (sort_key vertex_key) groups)"
  let ?d = "\<lambda>c. \<lparr>domain_id = checkpoint_domain_id sha256_hex c, domain_vertices = c,
    domain_sources = filter (\<lambda>v. v \<in> source_ids g) c, domain_sinks = filter (\<lambda>v. v \<in> sink_ids g) c\<rparr>"
  have ok: "components_ok (undirected (exec_edges g)) (vertex_ids g) cs"
    unfolding cs_def by (rule components_ok_sorted [OF a(3)])
  have valid: "c \<noteq> []" "distinct c" if "c \<in> set cs" for c
    using ok that by (auto simp: components_ok_def distinct_concat_iff)
  have "rmap (\<lambda>c. make_checkpoint_domain (checkpoint_domain_id sha256_hex c) c
      (filter (\<lambda>v. v \<in> source_ids g) c) (filter (\<lambda>v. v \<in> sink_ids g) c)) cs = Inr (map ?d cs)"
    by (rule rmap_Inr_map) (use valid in \<open>auto simp: make_checkpoint_domain_def checkpoint_domain_id_def\<close>)
  then have run: "checkpoint_domains sha256_hex g = Inr (map ?d cs)"
    using a(1,2) by (simp add: checkpoint_domains_def cs_def [symmetric])
  have vs: "map domain_vertices (map ?d cs) = cs" by (simp add: o_def)
  have sorted: "sorted (map vertex_key c)" if "c \<in> set cs" for c
    using that by (auto simp: cs_def)
  have members: "w \<in> set c \<longleftrightarrow> (u, w) \<in> (set (exec_edges g) \<union> (set (exec_edges g))\<inverse>)\<^sup>*"
    if "c \<in> set cs" "u \<in> set c" for c u w
  proof -
    have "set c = {y. (u, y) \<in> (undirected (exec_edges g))\<^sup>*}" using ok that by (simp add: components_ok_def)
    then show ?thesis by (simp add: undirected_def)
  qed
  have "distinct (concat cs)" "set (concat cs) = ev_id ` set (all_execution_vertices g)"
    using ok by (simp_all add: components_ok_def vertex_ids_def)
  moreover have "\<forall>d \<in> set (map ?d cs). sorted (map vertex_key (domain_vertices d)) \<and>
       domain_sources d = filter (\<lambda>v. v \<in> source_ids g) (domain_vertices d) \<and>
       domain_sinks d = filter (\<lambda>v. v \<in> sink_ids g) (domain_vertices d) \<and>
       (\<forall>u \<in> set (domain_vertices d). \<forall>w. w \<in> set (domain_vertices d) \<longleftrightarrow>
          (u, w) \<in> (set (exec_edges g) \<union> (set (exec_edges g))\<inverse>)\<^sup>*)"
    by (simp add: sorted) (metis members)
  ultimately show ?thesis by (intro exI [of _ "map ?d cs"] conjI run, unfold vs)
qed

theorem checkpoint_domains_are_components_witness:
  "edges_inside demo_shuffle \<and> (\<exists>d. checkpoint_domains id demo_shuffle = Inr [d] \<and> length (domain_vertices d) = 4)"
proof -
  have i: "edges_inside demo_shuffle" by code_simp
  obtain ds where ds: "checkpoint_domains id demo_shuffle = Inr ds" "distinct (concat (map domain_vertices ds))"
    using checkpoint_domains_are_components [OF i, of id] by blast
  have "length ds = 1 \<and> map (length \<circ> domain_vertices) ds = [4]"
  proof -
    have "(case checkpoint_domains id demo_shuffle of Inr ds \<Rightarrow> map (length \<circ> domain_vertices) ds = [4] | Inl _ \<Rightarrow> False)"
      by code_simp
    with ds(1) show ?thesis by (auto simp: map_eq_Cons_conv)
  qed
  then obtain d where "ds = [d]" "length (domain_vertices d) = 4" by (auto simp: length_Suc_conv)
  with ds(1) i show ?thesis by blast
qed

end
