(* ===== verification/Rescaling.thy ===== *)
theory Rescaling
  imports CheckpointDomains
begin

section \<open>Resizing one operator (execution_graph.py, rescale_plan.py, rescale_operation.py)\<close>

text \<open>
  A rescale replaces one job vertex by a resized one that keeps the actors of the overlapping
  subtasks, rebuilds the execution edges and leaves everything else alone. The graph it returns is
  the current graph itself when the parallelism does not change, which is the result \<open>None\<close>
  here. The lemmas show that a graph built by \<open>expand\<close> satisfies the hypotheses of the barrier
  counts and checkpoint domains, and that resizing keeps them and never fails half-way. The rest of
  the theory is the phase cursor of the transaction and the status record of the operation.
\<close>

subsection \<open>Resizing\<close>

definition resized_spec :: "int \<Rightarrow> vertex_spec \<Rightarrow> vertex_spec" where
  "resized_spec p s = s\<lparr>spec_resources := (spec_resources s)\<lparr>res_concurrency := Some (Fixed p)\<rparr>\<rparr>"

definition edge_parallelism :: "egraph \<Rightarrow> int \<Rightarrow> int \<Rightarrow> int \<Rightarrow> int result" where
  "edge_parallelism g op p j = (if j = op then Inr p else rbind (g_job_vertex g j) (\<lambda>v. Inr (jv_concurrency v)))"

definition resized_partitioner :: "egraph \<Rightarrow> int \<Rightarrow> int \<Rightarrow> job_edge \<Rightarrow> partitioner_spec result" where
  "resized_partitioner g op p e =
     (if op \<in> {je_source e, je_target e} \<and> forward_class (je_partitioner e)
      then rbind (edge_parallelism g op p (je_source e)) (\<lambda>sp.
           rbind (edge_parallelism g op p (je_target e)) (\<lambda>tp.
             if sp \<noteq> tp then rbind (default_partitioner (Fixed sp) (Fixed tp)) (\<lambda>q. Inr (to_spec q))
             else Inr (je_partitioner e)))
      else Inr (je_partitioner e))"

definition rebind_retained ::
  "(vertex_id \<Rightarrow> string) \<Rightarrow> job_vertex \<Rightarrow> job_vertex \<Rightarrow> job_vertex result" where
  "rebind_retained gen old new =
     rfold (\<lambda>i nv.
         rbind (jv_execution_vertex old i) (\<lambda>v.
         rbind (rebind (gen (ev_id v)) (PInt (jv_concurrency nv)) (spec_resources (jv_spec nv)) (spec_operator (jv_spec nv)) v) (\<lambda>v'.
           Inr (nv\<lparr>execution_vertices := AList.update i v' (execution_vertices nv)\<rparr>))))
       [0..min (jv_concurrency old) (jv_concurrency new) - 1] new"

definition rescale_operator_spec ::
  "(vertex_id \<Rightarrow> string) \<Rightarrow> egraph \<Rightarrow> int \<Rightarrow> vertex_spec \<Rightarrow> (int \<times> int \<times> partitioner_spec) list \<Rightarrow> egraph option result" where
  "rescale_operator_spec gen g op spec edges =
     rbind (g_job_vertex g op) (\<lambda>old.
       if jv_concurrency old = spec_concurrency spec then Inr None
       else
         rbind (rebind_retained gen old (make_job_vertex gen spec)) (\<lambda>new.
           let vs = AList.update op (new\<lparr>output_queue := output_queue old\<rparr>) (job_vertices g)
           in rbind (rmap (\<lambda>(s, t, q).
                  rbind (dict_item vs s) (\<lambda>u. rbind (dict_item vs t) (\<lambda>w. make_job_edge u w q))) edges) (\<lambda>es.
              rbind (make_graph (g_namespace g) vs es (topology_epochs g)) (\<lambda>g'. Inr (Some g')))))"

definition resize_operator :: "(vertex_id \<Rightarrow> string) \<Rightarrow> pyobj \<Rightarrow> pyobj \<Rightarrow> egraph \<Rightarrow> egraph option result" where
  "resize_operator gen operator_id parallelism g =
     rbind (as_int operator_id) (\<lambda>op.
     rbind (as_int parallelism) (\<lambda>p.
       if p \<le> 0 then Inl ValueError
       else rbind (g_job_vertex g op) (\<lambda>old.
         rbind (rmap (\<lambda>e. rbind (resized_partitioner g op p e) (\<lambda>q. Inr (je_source e, je_target e, q))) (job_edges g)) (\<lambda>edges.
           rescale_operator_spec gen g op (resized_spec p (jv_spec old)) edges))))"

subsection \<open>Plan, phases and operation record\<close>

record rescale_delta =
  retained :: "execution_vertex list"
  added :: "execution_vertex list"
  removed :: "execution_vertex list"

definition delta_between :: "job_vertex \<Rightarrow> job_vertex \<Rightarrow> rescale_delta result" where
  "delta_between old new =
     (let old_indices = set (keys (execution_vertices old)); new_indices = set (keys (execution_vertices new))
      in rbind (rmap (jv_execution_vertex new) (sorted_list_of_set (old_indices \<inter> new_indices))) (\<lambda>r.
         rbind (rmap (jv_execution_vertex new) (sorted_list_of_set (new_indices - old_indices))) (\<lambda>a.
         rbind (rmap (jv_execution_vertex old) (sorted_list_of_set (old_indices - new_indices))) (\<lambda>d.
           Inr \<lparr>retained = r, added = a, removed = d\<rparr>))))"

record rescale_plan =
  plan_operation_id :: string
  plan_target_id :: int
  old_graph :: egraph
  new_graph :: egraph
  old_target :: job_vertex
  new_target :: job_vertex
  plan_delta :: rescale_delta

definition build_plan :: "(vertex_id \<Rightarrow> string) \<Rightarrow> egraph \<Rightarrow> int \<Rightarrow> pyobj \<Rightarrow> pyobj \<Rightarrow> rescale_plan result" where
  "build_plan gen g target_id parallelism operation_id =
     (case operation_id of
        PStr op \<Rightarrow>
          (if op = [] then Inl ValueError
           else rbind (resize_operator gen (PInt target_id) parallelism g) (\<lambda>g'.
             case g' of
               None \<Rightarrow> Inl ValueError
             | Some g2 \<Rightarrow>
                 rbind (g_job_vertex g target_id) (\<lambda>ot.
                 rbind (g_job_vertex g2 target_id) (\<lambda>nt.
                 rbind (delta_between ot nt) (\<lambda>d.
                   Inr \<lparr>plan_operation_id = op, plan_target_id = target_id, old_graph = g, new_graph = g2,
                        old_target = ot, new_target = nt, plan_delta = d\<rparr>)))))
      | _ \<Rightarrow> Inl ValueError)"

datatype rescale_phase =
    INITIAL | CANDIDATES | CHECKPOINT_GATE | PARTICIPANTS | RUNTIMES | ROUTES | COORDINATOR | COMMITTED | RELEASED

fun phase_value :: "rescale_phase \<Rightarrow> nat" where
  "phase_value INITIAL = 0"
| "phase_value CANDIDATES = 1"
| "phase_value CHECKPOINT_GATE = 2"
| "phase_value PARTICIPANTS = 3"
| "phase_value RUNTIMES = 4"
| "phase_value ROUTES = 5"
| "phase_value COORDINATOR = 6"
| "phase_value COMMITTED = 7"
| "phase_value RELEASED = 8"

definition enter_phase :: "rescale_phase \<Rightarrow> rescale_phase \<Rightarrow> rescale_phase result" where
  "enter_phase next current =
     (if phase_value next \<le> phase_value current then Inl RuntimeError
      else if phase_value next \<noteq> phase_value current + 1 then Inl RuntimeError
      else Inr next)"

definition attempted :: "rescale_phase \<Rightarrow> rescale_phase \<Rightarrow> bool" where
  "attempted phase current \<longleftrightarrow> phase_value phase \<le> phase_value current"

datatype rescale_status = R_ACCEPTED | R_RUNNING | R_STABILIZING | R_COMPLETED | R_NOOP | R_REJECTED | R_FAILED

definition rescale_terminal :: "rescale_status \<Rightarrow> bool" where
  "rescale_terminal s \<longleftrightarrow> s \<in> {R_COMPLETED, R_NOOP, R_REJECTED, R_FAILED}"

datatype operation_phase = P_QUEUED | P_COORDINATING | P_STABILIZING | P_COMPLETED

fun operation_phase_value :: "operation_phase \<Rightarrow> nat" where
  "operation_phase_value P_QUEUED = 0"
| "operation_phase_value P_COORDINATING = 1"
| "operation_phase_value P_STABILIZING = 2"
| "operation_phase_value P_COMPLETED = 3"

fun allowed_status_transitions :: "rescale_status \<Rightarrow> rescale_status set" where
  "allowed_status_transitions R_ACCEPTED = {R_RUNNING, R_FAILED}"
| "allowed_status_transitions R_RUNNING = {R_STABILIZING, R_NOOP, R_REJECTED, R_FAILED}"
| "allowed_status_transitions R_STABILIZING = {R_COMPLETED, R_FAILED}"
| "allowed_status_transitions _ = {}"

record rescale_operation =
  ro_operation_id :: string
  ro_job_id :: string
  ro_operator_id :: pyobj
  ro_operator_name :: "string option"
  ro_previous_parallelism :: "int option"
  ro_target_parallelism :: int
  ro_status :: rescale_status
  ro_phase :: operation_phase
  accepted_at_ms :: int
  started_at_ms :: "int option"
  updated_at_ms :: int
  ended_at_ms :: "int option"
  ro_error :: "string option"

definition accepted_operation :: "string \<Rightarrow> string \<Rightarrow> pyobj \<Rightarrow> string \<Rightarrow> int \<Rightarrow> int \<Rightarrow> int \<Rightarrow> rescale_operation" where
  "accepted_operation op job oper name previous target now =
     \<lparr>ro_operation_id = op, ro_job_id = job, ro_operator_id = oper, ro_operator_name = Some name,
      ro_previous_parallelism = Some previous, ro_target_parallelism = target, ro_status = R_ACCEPTED,
      ro_phase = P_QUEUED, accepted_at_ms = now, started_at_ms = None, updated_at_ms = now,
      ended_at_ms = None, ro_error = None\<rparr>"

definition terminal_operation ::
  "string \<Rightarrow> string \<Rightarrow> pyobj \<Rightarrow> string option \<Rightarrow> int option \<Rightarrow> int \<Rightarrow> rescale_status \<Rightarrow> string option \<Rightarrow> int \<Rightarrow> rescale_operation result" where
  "terminal_operation op job oper name previous target st err now =
     (if \<not> rescale_terminal st then Inl ValueError
      else Inr \<lparr>ro_operation_id = op, ro_job_id = job, ro_operator_id = oper, ro_operator_name = name,
        ro_previous_parallelism = previous, ro_target_parallelism = target, ro_status = st,
        ro_phase = P_COMPLETED, accepted_at_ms = now, started_at_ms = Some now, updated_at_ms = now,
        ended_at_ms = Some now, ro_error = err\<rparr>)"

text \<open>The argument \<open>error\<close> distinguishes "not given" (\<open>None\<close>) from a given message or \<open>None\<close>.\<close>

definition transition ::
  "rescale_status \<Rightarrow> operation_phase \<Rightarrow> int \<Rightarrow> int option \<Rightarrow> string option option \<Rightarrow> rescale_operation \<Rightarrow> rescale_operation result" where
  "transition st ph now started err r =
     (if st \<notin> allowed_status_transitions (ro_status r) then Inl RuntimeError
      else if operation_phase_value ph < operation_phase_value (ro_phase r) then Inl RuntimeError
      else if rescale_terminal st \<and> ph \<noteq> P_COMPLETED then Inl RuntimeError
      else Inr (r\<lparr>ro_status := st, ro_phase := ph, updated_at_ms := now,
                  started_at_ms := (case started of None \<Rightarrow> started_at_ms r | Some t \<Rightarrow> Some t),
                  ro_error := (case err of None \<Rightarrow> ro_error r | Some e \<Rightarrow> e),
                  ended_at_ms := (if rescale_terminal st then Some now else ended_at_ms r)\<rparr>))"

text \<open>A result mapping: a field is \<open>None\<close> when the mapping lacks the key.\<close>

record rescale_result =
  rr_operator_id :: "pyobj option"
  rr_operator_name :: "string option option"
  rr_previous_parallelism :: "int option option"
  rr_target_parallelism :: "int option"
  rr_parallelism :: "int option"
  rr_error :: "string option option"

definition merge_result :: "rescale_result \<Rightarrow> int \<Rightarrow> rescale_operation \<Rightarrow> rescale_operation" where
  "merge_result x now r =
     r\<lparr>ro_operator_id := (case rr_operator_id x of None \<Rightarrow> ro_operator_id r | Some v \<Rightarrow> v),
       ro_operator_name := (case rr_operator_name x of None \<Rightarrow> ro_operator_name r | Some v \<Rightarrow> v),
       ro_previous_parallelism := (case rr_previous_parallelism x of None \<Rightarrow> ro_previous_parallelism r | Some v \<Rightarrow> v),
       ro_target_parallelism :=
         (case rr_target_parallelism x of
            Some v \<Rightarrow> v
          | None \<Rightarrow> (case rr_parallelism x of None \<Rightarrow> ro_target_parallelism r | Some v \<Rightarrow> v)),
       ro_error := (case rr_error x of None \<Rightarrow> ro_error r | Some v \<Rightarrow> v),
       updated_at_ms := now\<rparr>"

subsection \<open>Graphs that the constructors build\<close>

definition jv_ok :: "job_vertex \<Rightarrow> bool" where
  "jv_ok v \<longleftrightarrow> 0 < jv_concurrency v \<and> keys (execution_vertices v) = [0..jv_concurrency v - 1] \<and>
     (\<forall>(j, x) \<in> set (execution_vertices v). ev_id x = \<lparr>job_vertex_id = jv_id v, vertex_index = j\<rparr>)"

definition spec_consistent :: "partitioner_spec \<Rightarrow> bool" where
  "spec_consistent q \<longleftrightarrow> (forward_class q \<longleftrightarrow> spec_topology q = FORWARD)"

definition edge_ok :: "(int, job_vertex) dict \<Rightarrow> job_edge \<Rightarrow> bool" where
  "edge_ok vs e \<longleftrightarrow> spec_consistent (je_partitioner e) \<and>
     (\<exists>s t. map_of vs (je_source e) = Some s \<and> map_of vs (je_target e) = Some t \<and> make_job_edge s t (je_partitioner e) = Inr e)"

definition graph_ok :: "egraph \<Rightarrow> bool" where
  "graph_ok g \<longleftrightarrow> g_namespace g \<noteq> [] \<and> graph_wf g \<and> acyclic (job_rel g) \<and>
     (\<forall>(i, v) \<in> set (job_vertices g). jv_ok v) \<and> (\<forall>e \<in> set (job_edges g). edge_ok (job_vertices g) e)"

lemma jv_ok_vertex:
  assumes "jv_ok v" "0 \<le> j" "j < jv_concurrency v"
  shows "\<exists>x. jv_execution_vertex v j = Inr x \<and> map_of (execution_vertices v) j = Some x \<and>
    ev_id x = \<lparr>job_vertex_id = jv_id v, vertex_index = j\<rparr>"
proof -
  have "j \<in> set (keys (execution_vertices v))" using assms by (simp add: jv_ok_def del: set_map)
  then obtain x where x: "map_of (execution_vertices v) j = Some x" by (metis map_of_None_keys not_None_eq)
  then have "ev_id x = \<lparr>job_vertex_id = jv_id v, vertex_index = j\<rparr>"
    using assms(1) map_of_SomeD [OF x] by (auto simp: jv_ok_def)
  with x show ?thesis by (simp add: jv_execution_vertex_def dict_item_def)
qed

lemma target_indices_total:
  assumes "0 < sp" "0 < tp" "0 \<le> i" "i < sp" "pat = FORWARD \<Longrightarrow> sp = tp"
  shows "\<exists>js. target_indices pat sp tp i = Inr js \<and> set js \<subseteq> {0..<tp}"
proof (cases pat)
  case RESCALE
  then show ?thesis using rescale_target_mem [OF assms(1-4)] by fastforce
qed (use assms in \<open>simp_all add: target_indices_def\<close>)

lemma make_job_edge_total:
  assumes "jv_ok s" "jv_ok t" "spec_topology q = FORWARD \<Longrightarrow> jv_concurrency s = jv_concurrency t"
  shows "\<exists>e. make_job_edge s t q = Inr e"
proof -
  have "\<exists>ys. rbind (target_indices (spec_topology q) (jv_concurrency s) (jv_concurrency t) i) (\<lambda>js.
           rmap (\<lambda>j. rbind (jv_execution_vertex s i) (\<lambda>u. rbind (jv_execution_vertex t j) (\<lambda>w. Inr (ev_id u, ev_id w)))) js) = Inr ys"
    if i: "i \<in> set [0..jv_concurrency s - 1]" for i
  proof -
    have i': "0 \<le> i" "i < jv_concurrency s" using i by auto
    have pos: "0 < jv_concurrency s" "0 < jv_concurrency t" using assms(1,2) by (auto simp: jv_ok_def)
    obtain js where js: "target_indices (spec_topology q) (jv_concurrency s) (jv_concurrency t) i = Inr js"
      "set js \<subseteq> {0..<jv_concurrency t}" using target_indices_total [OF pos i' assms(3)] by blast
    obtain u where u: "jv_execution_vertex s i = Inr u" using jv_ok_vertex [OF assms(1) i'] by blast
    have "\<exists>ys. rmap (\<lambda>j. rbind (jv_execution_vertex s i) (\<lambda>u. rbind (jv_execution_vertex t j) (\<lambda>w. Inr (ev_id u, ev_id w)))) js = Inr ys"
    proof (rule rmap_total)
      fix j assume "j \<in> set js"
      then have "0 \<le> j" "j < jv_concurrency t" using js(2) by auto
      then obtain w where "jv_execution_vertex t j = Inr w" using jv_ok_vertex [OF assms(2)] by blast
      then show "\<exists>y. rbind (jv_execution_vertex s i) (\<lambda>u. rbind (jv_execution_vertex t j) (\<lambda>w. Inr (ev_id u, ev_id w))) = Inr y"
        using u by simp
    qed
    then show ?thesis using js(1) by simp
  qed
  then have "\<exists>yss. rmap (\<lambda>i. rbind (target_indices (spec_topology q) (jv_concurrency s) (jv_concurrency t) i) (\<lambda>js.
         rmap (\<lambda>j. rbind (jv_execution_vertex s i) (\<lambda>u. rbind (jv_execution_vertex t j) (\<lambda>w. Inr (ev_id u, ev_id w)))) js))
       [0..jv_concurrency s - 1] = Inr yss" by (rule rmap_total)
  then show ?thesis by (auto simp: make_job_edge_def create_execution_edges_def)
qed

lemma make_job_edge_fields:
  assumes "make_job_edge s t q = Inr e"
  shows "je_source e = jv_id s" "je_target e = jv_id t" "je_partitioner e = q"
    "create_execution_edges s t q = Inr (execution_edges e)"
  using assms by (auto simp: make_job_edge_def result_simps)

lemma rmap_concat_mem:
  assumes "rmap f xs = Inr yss" "y \<in> set (concat yss)"
  shows "\<exists>x ys. x \<in> set xs \<and> f x = Inr ys \<and> y \<in> set ys"
  using assms by (induction xs arbitrary: yss) (fastforce simp: result_simps)+

lemma rmap_mem:
  assumes "rmap f xs = Inr ys" "y \<in> set ys"
  shows "\<exists>x \<in> set xs. f x = Inr y"
  using assms by (induction xs arbitrary: ys) (fastforce simp: result_simps)+

lemma execution_edges_mem:
  assumes "make_job_edge s t q = Inr e" "(u, w) \<in> set (execution_edges e)"
  shows "\<exists>i j x y. map_of (execution_vertices s) i = Some x \<and> map_of (execution_vertices t) j = Some y \<and> u = ev_id x \<and> w = ev_id y"
proof -
  obtain yss where yss: "rmap (\<lambda>i. rbind (target_indices (spec_topology q) (jv_concurrency s) (jv_concurrency t) i) (\<lambda>js.
           rmap (\<lambda>j. rbind (jv_execution_vertex s i) (\<lambda>u. rbind (jv_execution_vertex t j) (\<lambda>w. Inr (ev_id u, ev_id w)))) js))
       [0..jv_concurrency s - 1] = Inr yss" "execution_edges e = concat yss"
    using make_job_edge_fields(4) [OF assms(1)] by (auto simp: create_execution_edges_def result_simps)
  from rmap_concat_mem [OF yss(1)] assms(2) yss(2) obtain i js ys where
    "rmap (\<lambda>j. rbind (jv_execution_vertex s i) (\<lambda>u. rbind (jv_execution_vertex t j) (\<lambda>w. Inr (ev_id u, ev_id w)))) js = Inr ys"
    "(u, w) \<in> set ys" by (fastforce simp: result_simps)
  from rmap_mem [OF this] obtain j where
    "rbind (jv_execution_vertex s i) (\<lambda>u. rbind (jv_execution_vertex t j) (\<lambda>w. Inr (ev_id u, ev_id w))) = Inr (u, w)" by blast
  then show ?thesis
    by (auto simp: jv_execution_vertex_def dict_item_def result_simps split: option.splits)
qed

lemma graph_okD:
  assumes "graph_ok g"
  shows "graph_wf g" "acyclic (job_rel g)" "g_namespace g \<noteq> []"
    and "map_of (job_vertices g) i = Some v \<Longrightarrow> jv_ok v \<and> jv_id v = i"
    and "e \<in> set (job_edges g) \<Longrightarrow> edge_ok (job_vertices g) e"
  using assms graph_wfD(2) [of g] by (auto simp: graph_ok_def dest!: map_of_SomeD)

lemma edge_ok_vertices:
  assumes g: "graph_ok g" and e: "e \<in> set (job_edges g)" "(u, w) \<in> set (execution_edges e)"
  shows "job_vertex_id u = je_source e" "job_vertex_id w = je_target e" "u \<in> vertex_ids g" "w \<in> vertex_ids g"
proof -
  obtain s t where st: "map_of (job_vertices g) (je_source e) = Some s" "map_of (job_vertices g) (je_target e) = Some t"
    "make_job_edge s t (je_partitioner e) = Inr e" using graph_okD(5) [OF g e(1)] by (auto simp: edge_ok_def)
  obtain i j x y where xy: "map_of (execution_vertices s) i = Some x" "map_of (execution_vertices t) j = Some y"
    "u = ev_id x" "w = ev_id y" using execution_edges_mem [OF st(3) e(2)] by blast
  have "jv_ok s" "jv_id s = je_source e" "jv_ok t" "jv_id t = je_target e"
    using graph_okD(4) [OF g st(1)] graph_okD(4) [OF g st(2)] by simp_all
  then show "job_vertex_id u = je_source e" "job_vertex_id w = je_target e"
    using map_of_SomeD [OF xy(1)] map_of_SomeD [OF xy(2)] xy(3,4) by (auto simp: jv_ok_def)
  show "u \<in> vertex_ids g" "w \<in> vertex_ids g"
    using map_of_SomeD [OF st(1)] map_of_SomeD [OF st(2)] map_of_SomeD [OF xy(1)] map_of_SomeD [OF xy(2)] xy(3,4)
    by (force simp: vertex_ids_def all_execution_vertices_def)+
qed

lemma graph_ok_exec_wf: "graph_ok g \<Longrightarrow> exec_wf g"
  unfolding exec_wf_def
proof (intro conjI ballI)
  assume g: "graph_ok g"
  show "case x of (u, w) \<Rightarrow> job_vertex_id u = je_source e \<and> job_vertex_id w = je_target e"
    if "e \<in> set (job_edges g)" "x \<in> set (execution_edges e)" for e x
    using edge_ok_vertices(1,2) [OF g that(1)] that(2) by (cases x) auto
  fix p assume p: "p \<in> set (job_vertices g)"
  obtain i v where iv: "p = (i, v)" by (cases p)
  have "jv_ok v" "jv_id v = i" using g p iv graph_wfD(2) [of g i v] by (auto simp: graph_ok_def)
  then show "case p of (i, v) \<Rightarrow> \<forall>(j, x) \<in> set (execution_vertices v). ev_id x = \<lparr>job_vertex_id = i, vertex_index = j\<rparr>"
    by (auto simp: iv jv_ok_def)
qed

lemma graph_ok_edges_inside: "graph_ok g \<Longrightarrow> edges_inside g"
  using edge_ok_vertices(3,4) by (fastforce simp: edges_inside_def exec_edges_def)

lemma make_graph_ok:
  assumes "make_graph ns vs es epochs = Inr g" "wf_dict vs" "\<And>i v. (i, v) \<in> set vs \<Longrightarrow> jv_ok v"
    "\<And>e. e \<in> set es \<Longrightarrow> edge_ok vs e"
  shows "graph_ok g \<and> g = \<lparr>g_namespace = ns, job_vertices = vs, job_edges = es, topology_epochs = epochs\<rparr>"
proof -
  let ?g = "\<lparr>g_namespace = ns, job_vertices = vs, job_edges = es, topology_epochs = epochs\<rparr>"
  have g: "g = ?g" "ns \<noteq> []" "validate_topology vs es = Inr ()" and t: "\<exists>order. topological_job_vertices ?g = Inr order"
    using assms(1) by (auto simp: make_graph_def Let_def result_simps split: if_splits)
  have wf: "graph_wf ?g" using assms(2) g(3) by (simp add: graph_wf_def)
  have "acyclic (job_rel ?g)" using topological_cases [OF wf] t by auto
  with wf g assms(3,4) show ?thesis by (auto simp: graph_ok_def)
qed

lemma make_job_vertex_ok: "0 < spec_concurrency s \<Longrightarrow> jv_ok (make_job_vertex gen s)"
  by (auto simp: jv_ok_def make_job_vertex_def jv_concurrency_def create_execution_vertices_def o_def jv_id_def
      make_execution_vertex_def)

subsection \<open>Resizing keeps a graph well formed\<close>

lemma keys_update_existing: "k \<in> set (keys d) \<Longrightarrow> keys (AList.update k v d) = keys d"
  by (induction d) auto

definition same_actor :: "execution_vertex \<Rightarrow> execution_vertex \<Rightarrow> bool" where
  "same_actor x y \<longleftrightarrow> ev_id x = ev_id y \<and> ev_vertex_name x = ev_vertex_name y \<and> stream_task x = stream_task y \<and>
     task_generation x = task_generation y \<and> restore_operation_id x = restore_operation_id y \<and>
     ev_status x = ev_status y \<and> error_message x = error_message y"

lemma rebind_spec:
  assumes "vertex_index (ev_id v) < c"
  shows "\<exists>v'. rebind gen (PInt c) r operator v = Inr v' \<and> same_actor v' v \<and> ev_concurrency v' = c"
  using assms by (simp add: rebind_def Let_def same_actor_def make_execution_vertex_def)

text \<open>The vertices of the resized operator: kept up to the smaller parallelism, fresh above it.\<close>

definition carries_over :: "(vertex_id \<Rightarrow> string) \<Rightarrow> job_vertex \<Rightarrow> vertex_spec \<Rightarrow> int set \<Rightarrow> job_vertex \<Rightarrow> bool" where
  "carries_over gen old spec X nv \<longleftrightarrow> jv_spec nv = spec \<and> keys (execution_vertices nv) = [0..spec_concurrency spec - 1] \<and>
     (\<forall>j. if j \<in> X then \<exists>x x'. map_of (execution_vertices old) j = Some x \<and> map_of (execution_vertices nv) j = Some x' \<and> same_actor x' x
          else map_of (execution_vertices nv) j = map_of (execution_vertices (make_job_vertex gen spec)) j)"

lemma carries_overD:
  assumes "carries_over gen old spec X nv"
  shows "j \<in> X \<Longrightarrow> \<exists>x x'. map_of (execution_vertices old) j = Some x \<and> map_of (execution_vertices nv) j = Some x' \<and> same_actor x' x"
    and "j \<notin> X \<Longrightarrow> map_of (execution_vertices nv) j = map_of (execution_vertices (make_job_vertex gen spec)) j"
  using assms by (auto simp: carries_over_def dest: spec [where x = j])

lemma carries_over_queue [simp]:
  "carries_over gen old spec X (nv\<lparr>output_queue := oq\<rparr>) = carries_over gen old spec X nv"
proof -
  have "jv_spec (nv\<lparr>output_queue := oq\<rparr>) = jv_spec nv"
    "execution_vertices (nv\<lparr>output_queue := oq\<rparr>) = execution_vertices nv" by simp_all
  then show ?thesis unfolding carries_over_def by presburger
qed

lemma rebind_retained_spec:
  assumes old: "jv_ok old" and spec: "0 < spec_concurrency spec"
  shows "\<exists>nv. rebind_retained gen old (make_job_vertex gen spec) = Inr nv \<and>
    carries_over gen old spec {0..<min (jv_concurrency old) (spec_concurrency spec)} nv"
proof -
  let ?new = "make_job_vertex gen spec" and ?m = "min (jv_concurrency old) (spec_concurrency spec)"
  have c: "jv_concurrency ?new = spec_concurrency spec" by (simp add: make_job_vertex_def jv_concurrency_def)
  have "\<exists>nv. rebind_retained gen old ?new = Inr nv \<and> carries_over gen old spec (set [0..?m - 1]) nv"
    unfolding rebind_retained_def c
  proof (rule rfold_invariant [where I = "\<lambda>pre. carries_over gen old spec (set pre)"])
    show "carries_over gen old spec (set []) ?new"
      by (simp add: carries_over_def make_job_vertex_def create_execution_vertices_def o_def)
  next
    fix pre i rest nv
    assume split: "[0..?m - 1] = pre @ i # rest" and I: "carries_over gen old spec (set pre) nv"
    have "i \<in> set [0..?m - 1]" unfolding split by simp
    then have i: "0 \<le> i" "i < jv_concurrency old" "i < spec_concurrency spec" by auto
    obtain v where v: "jv_execution_vertex old i = Inr v" "map_of (execution_vertices old) i = Some v"
      "ev_id v = \<lparr>job_vertex_id = jv_id old, vertex_index = i\<rparr>" using jv_ok_vertex [OF old i(1,2)] by blast
    have conc: "jv_concurrency nv = spec_concurrency spec" using I by (simp add: carries_over_def jv_concurrency_def)
    obtain v' where v': "rebind (gen (ev_id v)) (PInt (jv_concurrency nv)) (spec_resources (jv_spec nv))
        (spec_operator (jv_spec nv)) v = Inr v'" "same_actor v' v"
      using rebind_spec [of v "jv_concurrency nv"] v(3) i(3) conc by (metis vertex_id.select_convs(2))
    let ?nv = "nv\<lparr>execution_vertices := AList.update i v' (execution_vertices nv)\<rparr>"
    have "i \<in> set (keys (execution_vertices nv))" using I i by (simp add: carries_over_def del: set_map)
    then have "keys (execution_vertices ?nv) = keys (execution_vertices nv)" by (simp add: keys_update_existing)
    then have "jv_spec ?nv = spec" "keys (execution_vertices ?nv) = [0..spec_concurrency spec - 1]"
      using I by (simp_all add: carries_over_def)
    moreover have "if j \<in> set (pre @ [i])
        then \<exists>x x'. map_of (execution_vertices old) j = Some x \<and> map_of (execution_vertices ?nv) j = Some x' \<and> same_actor x' x
        else map_of (execution_vertices ?nv) j = map_of (execution_vertices (make_job_vertex gen spec)) j" for j
    proof (cases "j = i")
      case True
      then show ?thesis using v(2) v'(2) by simp
    next
      case False
      then have eq: "map_of (execution_vertices ?nv) j = map_of (execution_vertices nv) j" by simp
      show ?thesis
      proof (cases "j \<in> set pre")
        case True
        then show ?thesis unfolding eq using carries_overD(1) [OF I True] by simp
      next
        case notin: False
        then show ?thesis unfolding eq using carries_overD(2) [OF I notin] False by simp
      qed
    qed
    ultimately have "carries_over gen old spec (set (pre @ [i])) ?nv"
      unfolding carries_over_def by blast
    then show "\<exists>s'. rbind (jv_execution_vertex old i) (\<lambda>v.
         rbind (rebind (gen (ev_id v)) (PInt (jv_concurrency nv)) (spec_resources (jv_spec nv)) (spec_operator (jv_spec nv)) v) (\<lambda>v'.
           Inr (nv\<lparr>execution_vertices := AList.update i v' (execution_vertices nv)\<rparr>))) = Inr s' \<and>
        carries_over gen old spec (set (pre @ [i])) s'" using v(1) v'(1) by simp
  qed
  moreover have "set [0..?m - 1] = {0..<?m}" by auto
  ultimately show ?thesis by simp
qed

lemma carries_over_ok:
  assumes "jv_ok old" "0 < spec_concurrency spec" "spec_index spec = jv_id old"
    "carries_over gen old spec X nv"
  shows "jv_ok (nv\<lparr>output_queue := oq\<rparr>)"
proof -
  have "wf_dict (execution_vertices nv)" using assms(4) by (simp add: carries_over_def)
  moreover have "ev_id x = \<lparr>job_vertex_id = jv_id old, vertex_index = j\<rparr>" if "map_of (execution_vertices nv) j = Some x" for j x
  proof (cases "j \<in> X")
    case True
    obtain y x' where y: "map_of (execution_vertices old) j = Some y"
        and x': "map_of (execution_vertices nv) j = Some x'" "same_actor x' y"
      using carries_overD(1) [OF assms(4) True] by blast
    have "x' = x" using x'(1) that by (metis option.inject)
    then have "ev_id x = ev_id y" using x'(2) by (simp add: same_actor_def)
    then show ?thesis using assms(1) map_of_SomeD [OF y] by (auto simp: jv_ok_def)
  next
    case False
    then have "map_of (execution_vertices (make_job_vertex gen spec)) j = Some x"
      using carries_overD(2) [OF assms(4) False] that by simp
    from map_of_SomeD [OF this] show ?thesis
      using assms(3) by (auto simp: make_job_vertex_def create_execution_vertices_def make_execution_vertex_def)
  qed
  ultimately show ?thesis
    using assms(2,3,4) by (auto simp: jv_ok_def jv_concurrency_def jv_id_def carries_over_def)
qed

lemma forward_needs_equal:
  assumes "make_job_edge s t q = Inr e" "jv_ok s" "spec_topology q = FORWARD"
  shows "jv_concurrency s = jv_concurrency t"
proof -
  have s: "0 < jv_concurrency s" using assms(2) by (simp add: jv_ok_def)
  then have "\<exists>xs. [0..jv_concurrency s - 1] = 0 # xs" by (simp add: upto_rec1)
  then obtain js where "target_indices FORWARD (jv_concurrency s) (jv_concurrency t) 0 = Inr js"
    using assms(1,3) by (fastforce simp: make_job_edge_def create_execution_edges_def result_simps)
  with s show ?thesis by (auto simp: target_indices_def split: if_splits)
qed

lemma default_partitioner_spec:
  assumes "0 < s" "0 < t" "s \<noteq> t"
  shows "\<exists>q. default_partitioner (Fixed s) (Fixed t) = Inr q \<and> spec_consistent (to_spec q) \<and> spec_topology (to_spec q) \<noteq> FORWARD"
  using assms by (simp add: default_partitioner_def to_spec_def spec_consistent_def)

definition resized_concurrency :: "egraph \<Rightarrow> int \<Rightarrow> int \<Rightarrow> int \<Rightarrow> int" where
  "resized_concurrency g op p j =
     (if j = op then p else case map_of (job_vertices g) j of Some v \<Rightarrow> jv_concurrency v | None \<Rightarrow> 0)"

lemma resized_partitioner_spec:
  assumes g: "graph_ok g" and e: "e \<in> set (job_edges g)" and p: "0 < p"
  shows "\<exists>q. resized_partitioner g op p e = Inr q \<and> spec_consistent q \<and>
    (spec_topology q = FORWARD \<longrightarrow> resized_concurrency g op p (je_source e) = resized_concurrency g op p (je_target e))"
proof -
  obtain s t where st: "map_of (job_vertices g) (je_source e) = Some s" "map_of (job_vertices g) (je_target e) = Some t"
    "make_job_edge s t (je_partitioner e) = Inr e" "spec_consistent (je_partitioner e)"
    using graph_okD(5) [OF g e] by (auto simp: edge_ok_def)
  have ok: "jv_ok s" "jv_ok t" using graph_okD(4) [OF g st(1)] graph_okD(4) [OF g st(2)] by simp_all
  let ?c = "resized_concurrency g op p"
  have par: "edge_parallelism g op p (je_source e) = Inr (?c (je_source e))"
    "edge_parallelism g op p (je_target e) = Inr (?c (je_target e))"
    using st by (simp_all add: edge_parallelism_def resized_concurrency_def g_job_vertex_def dict_item_def)
  have pos: "0 < ?c (je_source e)" "0 < ?c (je_target e)"
    using st p ok by (auto simp: resized_concurrency_def jv_ok_def)
  have untouched: "?c (je_source e) = ?c (je_target e)"
    if "op \<notin> {je_source e, je_target e}" "spec_topology (je_partitioner e) = FORWARD"
    using that forward_needs_equal [OF st(3) ok(1)] st(1,2) by (simp add: resized_concurrency_def)
  show ?thesis
  proof (cases "op \<in> {je_source e, je_target e} \<and> forward_class (je_partitioner e)")
    case True
    then show ?thesis
      using par pos default_partitioner_spec [OF pos] st(4) by (auto simp: resized_partitioner_def)
  next
    case False
    then show ?thesis using untouched st(4) by (auto simp: resized_partitioner_def spec_consistent_def)
  qed
qed

lemma source_keys_map_of:
  "wf_dict vs \<Longrightarrow> fst ` set (filter (\<lambda>(_, v). P v) vs) = {i. \<exists>v. map_of vs i = Some v \<and> P v}"
  by (force dest: map_of_SomeD)

lemma validate_same_shape:
  assumes "validate_topology vs es = Inr ()" "wf_dict vs" "keys vs' = keys vs"
    "map (\<lambda>e. (je_source e, je_target e)) es' = map (\<lambda>e. (je_source e, je_target e)) es"
    "\<And>i v. map_of vs' i = Some v \<Longrightarrow> jv_id v = i"
    "\<And>i. map_option (\<lambda>v. spec_source (jv_spec v)) (map_of vs' i) = map_option (\<lambda>v. spec_source (jv_spec v)) (map_of vs i)"
  shows "validate_topology vs' es' = Inr ()"
proof -
  have wf': "wf_dict vs'" using assms(2,3) by simp
  have targets: "je_source ` set es' = je_source ` set es" "je_target ` set es' = je_target ` set es"
    using arg_cong [OF assms(4), of "\<lambda>ps. fst ` set ps"] arg_cong [OF assms(4), of "\<lambda>ps. snd ` set ps"]
    by (simp_all add: image_image)
  have "{i. \<exists>v. map_of vs' i = Some v \<and> spec_source (jv_spec v)} = {i. \<exists>v. map_of vs i = Some v \<and> spec_source (jv_spec v)}"
    using assms(6) by (metis (no_types, lifting) map_option_eq_Some)
  then have sources: "fst ` set (filter (\<lambda>(_, v). spec_source (jv_spec v)) vs') = fst ` set (filter (\<lambda>(_, v). spec_source (jv_spec v)) vs)"
    unfolding source_keys_map_of [OF wf'] source_keys_map_of [OF assms(2)] .
  have ids: "\<not> (\<exists>(i, v) \<in> set vs'. jv_id v \<noteq> i)"
    using assms(5) map_of_is_SomeI [OF wf'] by blast
  have ends: "\<not> (\<exists>e \<in> set es'. je_source e \<notin> set (keys vs') \<or> je_target e \<notin> set (keys vs'))"
  proof -
    have "je_source ` set es \<subseteq> set (keys vs)" "je_target ` set es \<subseteq> set (keys vs)"
      using assms(1) by (auto simp: validate_topology_def split: if_splits)
    then have "je_source ` set es' \<subseteq> set (keys vs')" "je_target ` set es' \<subseteq> set (keys vs')"
      unfolding targets assms(3) .
    then show ?thesis by blast
  qed
  have "vs' = [] \<longleftrightarrow> vs = []" using assms(3) by (metis map_is_Nil_conv)
  then show ?thesis
    using assms(1) ids ends unfolding validate_topology_def assms(3,4) targets sources by (auto split: if_splits)
qed

lemma rmap_edges:
  assumes "\<And>x. x \<in> set xs \<Longrightarrow> \<exists>y. f x = Inr y \<and> P x y"
  shows "\<exists>ys. rmap f xs = Inr ys \<and> list_all2 P xs ys"
  using assms
proof (induction xs)
  case (Cons x xs)
  then obtain y ys where "f x = Inr y" "P x y" "rmap f xs = Inr ys" "list_all2 P xs ys" by (meson list.set_intros)
  then show ?case by simp
qed simp

lemma list_all2_pairs:
  "list_all2 (\<lambda>x y. f x = h y) xs ys \<Longrightarrow> map f xs = map h ys"
  by (induction rule: list_all2_induct) auto

text \<open>The edge list handed to the rebuild, and the rebuilt edges.\<close>

definition edge_plan_ok :: "(int, job_vertex) dict \<Rightarrow> int \<times> int \<times> partitioner_spec \<Rightarrow> bool" where
  "edge_plan_ok vs x \<longleftrightarrow> (case x of (s, t, q) \<Rightarrow> spec_consistent q \<and>
     (\<exists>u w. map_of vs s = Some u \<and> map_of vs t = Some w \<and> (spec_topology q = FORWARD \<longrightarrow> jv_concurrency u = jv_concurrency w)))"

lemma resized_edges:
  assumes g: "graph_ok g" and p: "0 < p"
    and vs: "\<And>j. j \<in> job_ids g \<Longrightarrow> \<exists>v. map_of vs j = Some v \<and> jv_concurrency v = resized_concurrency g op p j"
  shows "\<exists>edges. rmap (\<lambda>e. rbind (resized_partitioner g op p e) (\<lambda>q. Inr (je_source e, je_target e, q))) (job_edges g) = Inr edges \<and>
    list_all2 (\<lambda>e x. (je_source e, je_target e) = (case x of (s, t, q) \<Rightarrow> (s, t)) \<and> edge_plan_ok vs x) (job_edges g) edges"
proof (rule rmap_edges)
  fix e assume e: "e \<in> set (job_edges g)"
  obtain q where q: "resized_partitioner g op p e = Inr q" "spec_consistent q"
    "spec_topology q = FORWARD \<longrightarrow> resized_concurrency g op p (je_source e) = resized_concurrency g op p (je_target e)"
    using resized_partitioner_spec [OF g e p] by blast
  have "je_source e \<in> job_ids g" "je_target e \<in> job_ids g" using graph_wfD(3) [OF graph_okD(1) [OF g] e] by simp_all
  then obtain u w where "map_of vs (je_source e) = Some u" "jv_concurrency u = resized_concurrency g op p (je_source e)"
    "map_of vs (je_target e) = Some w" "jv_concurrency w = resized_concurrency g op p (je_target e)" using vs by metis
  with q show "\<exists>x. rbind (resized_partitioner g op p e) (\<lambda>q. Inr (je_source e, je_target e, q)) = Inr x \<and>
      ((je_source e, je_target e) = (case x of (s, t, q) \<Rightarrow> (s, t)) \<and> edge_plan_ok vs x)"
    by (simp add: edge_plan_ok_def)
qed

lemma rebuilt_edges:
  assumes vs: "\<And>j v. map_of vs j = Some v \<Longrightarrow> jv_ok v \<and> jv_id v = j" and edges: "\<And>x. x \<in> set edges \<Longrightarrow> edge_plan_ok vs x"
  shows "\<exists>es. rmap (\<lambda>(s, t, q). rbind (dict_item vs s) (\<lambda>u. rbind (dict_item vs t) (\<lambda>w. make_job_edge u w q))) edges = Inr es \<and>
    list_all2 (\<lambda>x e. (case x of (s, t, q) \<Rightarrow> (s, t)) = (je_source e, je_target e) \<and> edge_ok vs e) edges es"
proof (rule rmap_edges)
  fix x assume "x \<in> set edges"
  then have ok: "edge_plan_ok vs x" by (rule edges)
  obtain s t q where x: "x = (s, t, q)" by (cases x)
  obtain u w where uw: "map_of vs s = Some u" "map_of vs t = Some w" "spec_consistent q"
    "spec_topology q = FORWARD \<longrightarrow> jv_concurrency u = jv_concurrency w" using ok by (auto simp: x edge_plan_ok_def)
  obtain e where e: "make_job_edge u w q = Inr e" using make_job_edge_total [of u w q] vs [OF uw(1)] vs [OF uw(2)] uw(4) by auto
  with uw vs [OF uw(1)] vs [OF uw(2)] make_job_edge_fields [OF e]
  show "\<exists>e. (case x of (s, t, q) \<Rightarrow> rbind (dict_item vs s) (\<lambda>u. rbind (dict_item vs t) (\<lambda>w. make_job_edge u w q))) = Inr e \<and>
      ((case x of (s, t, q) \<Rightarrow> (s, t)) = (je_source e, je_target e) \<and> edge_ok vs e)"
    by (auto simp: x dict_item_def edge_ok_def)
qed

lemma list_all2_right: "list_all2 (\<lambda>x y. P x y \<and> Q y) xs ys \<Longrightarrow> y \<in> set ys \<Longrightarrow> Q y"
  by (auto simp: list_all2_conv_all_nth in_set_conv_nth)

lemma same_shape_graph:
  assumes g: "graph_ok g" and vs: "keys vs = keys (job_vertices g)" "\<And>j v. map_of vs j = Some v \<Longrightarrow> jv_ok v \<and> jv_id v = j"
    "\<And>i. map_option (\<lambda>v. spec_source (jv_spec v)) (map_of vs i) = map_option (\<lambda>v. spec_source (jv_spec v)) (map_of (job_vertices g) i)"
    and es: "map (\<lambda>e. (je_source e, je_target e)) es = map (\<lambda>e. (je_source e, je_target e)) (job_edges g)"
    "\<And>e. e \<in> set es \<Longrightarrow> edge_ok vs e"
  defines "g' \<equiv> \<lparr>g_namespace = g_namespace g, job_vertices = vs, job_edges = es, topology_epochs = topology_epochs g\<rparr>"
  shows "make_graph (g_namespace g) vs es (topology_epochs g) = Inr g' \<and> graph_ok g'"
proof -
  have wfd: "wf_dict (job_vertices g)" using graph_wfD(1) [OF graph_okD(1) [OF g]] .
  have val: "validate_topology vs es = Inr ()"
    by (rule validate_same_shape [OF _ wfd vs(1) es(1) _ vs(3)]) (use graph_okD(1) [OF g] vs(2) in \<open>auto simp: graph_wf_def\<close>)
  have wf: "graph_wf g'" using val vs(1) wfd by (simp add: graph_wf_def g'_def)
  have "job_rel g' = job_rel g"
    using arg_cong [OF es(1), of set] by (simp add: job_rel_def g'_def)
  then have "\<exists>order. topological_job_vertices g' = Inr order"
    using topological_cases [OF wf] graph_okD(2) [OF g] by auto
  then have mg: "make_graph (g_namespace g) vs es (topology_epochs g) = Inr g'"
    using val graph_okD(3) [OF g] by (auto simp: make_graph_def g'_def)
  moreover have "graph_ok g'"
    using make_graph_ok [OF mg] vs(1,2) wfd es(2) by (metis wf_dict_mem_iff)
  ultimately show ?thesis by blast
qed

lemma resize_operator_spec:
  assumes g: "graph_ok g" and old: "map_of (job_vertices g) op = Some old" and p: "0 < p" "p \<noteq> jv_concurrency old"
  shows "\<exists>g' new. resize_operator gen (PInt op) (PInt p) g = Inr (Some g') \<and> graph_ok g' \<and>
    job_vertices g' = AList.update op new (job_vertices g) \<and>
    map (\<lambda>e. (je_source e, je_target e)) (job_edges g') = map (\<lambda>e. (je_source e, je_target e)) (job_edges g) \<and>
    topology_epochs g' = topology_epochs g \<and> output_queue new = output_queue old \<and>
    carries_over gen old (resized_spec p (jv_spec old)) {0..<min (jv_concurrency old) p} new"
proof -
  let ?spec = "resized_spec p (jv_spec old)"
  have c: "spec_concurrency ?spec = p" by (simp add: resized_spec_def spec_concurrency_def scalar_concurrency_def)
  have ok: "jv_ok old" "jv_id old = op" using graph_okD(4) [OF g old] by simp_all
  have sid: "spec_index ?spec = jv_id old" by (simp add: resized_spec_def jv_id_def)
  obtain nv where nv: "rebind_retained gen old (make_job_vertex gen ?spec) = Inr nv"
    "carries_over gen old ?spec {0..<min (jv_concurrency old) p} nv"
    using rebind_retained_spec [OF ok(1), of ?spec gen] c p(1) by auto
  define new where "new = nv\<lparr>output_queue := output_queue old\<rparr>"
  define vs where "vs = AList.update op new (job_vertices g)"
  have new: "jv_ok new" "jv_spec new = ?spec" "jv_id new = op" "jv_concurrency new = p"
    using carries_over_ok [OF ok(1) _ sid nv(2)] c p(1) nv(2) sid ok(2)
    by (auto simp: new_def carries_over_def jv_id_def jv_concurrency_def)
  have "op \<in> set (keys (job_vertices g))" using old by (metis map_of_None_keys option.distinct(1))
  then have keys: "keys vs = keys (job_vertices g)" by (simp add: vs_def keys_update_existing)
  have lookup: "map_of vs j = (if j = op then Some new else map_of (job_vertices g) j)" for j by (simp add: vs_def)
  have jv: "jv_ok v \<and> jv_id v = j \<and> jv_concurrency v = resized_concurrency g op p j" if "map_of vs j = Some v" for j v
    using that new graph_okD(4) [OF g, of j v] by (auto simp: lookup resized_concurrency_def split: if_splits)
  have "\<exists>v. map_of vs j = Some v \<and> jv_concurrency v = resized_concurrency g op p j" if "j \<in> job_ids g" for j
    using that jv keys unfolding job_ids_def by (metis map_of_None_keys not_None_eq)
  then obtain edges where edges: "rmap (\<lambda>e. rbind (resized_partitioner g op p e) (\<lambda>q. Inr (je_source e, je_target e, q))) (job_edges g) = Inr edges"
    "list_all2 (\<lambda>e x. (je_source e, je_target e) = (case x of (s, t, q) \<Rightarrow> (s, t)) \<and> edge_plan_ok vs x) (job_edges g) edges"
    using resized_edges [OF g p(1)] by blast
  obtain es where es: "rmap (\<lambda>(s, t, q). rbind (dict_item vs s) (\<lambda>u. rbind (dict_item vs t) (\<lambda>w. make_job_edge u w q))) edges = Inr es"
    "list_all2 (\<lambda>x e. (case x of (s, t, q) \<Rightarrow> (s, t)) = (je_source e, je_target e) \<and> edge_ok vs e) edges es"
    using rebuilt_edges [of vs edges, OF _ list_all2_right [OF edges(2)]] jv by blast
  have "map (\<lambda>e. (je_source e, je_target e)) (job_edges g) = map (\<lambda>(s, t, q). (s, t)) edges"
    "map (\<lambda>(s, t, q). (s, t)) edges = map (\<lambda>e. (je_source e, je_target e)) es"
    by (rule list_all2_pairs, rule list_all2_mono [OF edges(2)], simp)
      (rule list_all2_pairs, rule list_all2_mono [OF es(2)], simp)
  then have pairs: "map (\<lambda>e. (je_source e, je_target e)) es = map (\<lambda>e. (je_source e, je_target e)) (job_edges g)" by simp
  let ?g = "\<lparr>g_namespace = g_namespace g, job_vertices = vs, job_edges = es, topology_epochs = topology_epochs g\<rparr>"
  have mg: "make_graph (g_namespace g) vs es (topology_epochs g) = Inr ?g \<and> graph_ok ?g"
    by (rule same_shape_graph [OF g keys _ _ pairs list_all2_right [OF es(2)]])
      (use jv old new(2) in \<open>auto simp: lookup resized_spec_def\<close>)
  then have run: "resize_operator gen (PInt op) (PInt p) g = Inr (Some ?g)"
    using p old edges(1) nv(1) es(1) c
    unfolding new_def vs_def
    by (simp add: resize_operator_def rescale_operator_spec_def g_job_vertex_def dict_item_def [of "job_vertices g" op] Let_def)
  have "carries_over gen old ?spec {0..<min (jv_concurrency old) p} new" "output_queue new = output_queue old"
    using nv(2) by (simp_all add: new_def)
  then show ?thesis using run mg pairs by (intro exI [of _ ?g] exI [of _ new]) (simp add: vs_def)
qed

subsection \<open>Plans\<close>

lemma rmap_vertices:
  assumes "jv_ok v" "set is \<subseteq> {0..<jv_concurrency v}"
  shows "\<exists>xs. rmap (jv_execution_vertex v) is = Inr xs \<and> map ev_id xs = map (\<lambda>j. \<lparr>job_vertex_id = jv_id v, vertex_index = j\<rparr>) is \<and>
    (\<forall>x \<in> set xs. map_of (execution_vertices v) (vertex_index (ev_id x)) = Some x)"
  using assms(2)
proof (induction "is")
  case (Cons j "is")
  then obtain x where "jv_execution_vertex v j = Inr x" "map_of (execution_vertices v) j = Some x"
    "ev_id x = \<lparr>job_vertex_id = jv_id v, vertex_index = j\<rparr>" using jv_ok_vertex [OF assms(1), of j] by auto
  with Cons show ?case by fastforce
qed simp

lemma sorted_list_of_upto: "sorted_list_of_set {a..<b} = [a..b - (1::int)]"
proof -
  have "{a..<b} = set [a..b - 1]" by auto
  then show ?thesis using sorted_list_of_set.idem_if_sorted_distinct [of "[a..b - 1]"] by simp
qed

lemma delta_between_spec:
  assumes "jv_ok old" "jv_ok new" "jv_id new = jv_id old"
  shows "\<exists>d. delta_between old new = Inr d \<and>
    map ev_id (retained d) = map (\<lambda>j. \<lparr>job_vertex_id = jv_id old, vertex_index = j\<rparr>) [0..min (jv_concurrency old) (jv_concurrency new) - 1] \<and>
    map ev_id (added d) = map (\<lambda>j. \<lparr>job_vertex_id = jv_id old, vertex_index = j\<rparr>) [jv_concurrency old..jv_concurrency new - 1] \<and>
    map ev_id (removed d) = map (\<lambda>j. \<lparr>job_vertex_id = jv_id old, vertex_index = j\<rparr>) [jv_concurrency new..jv_concurrency old - 1] \<and>
    (\<forall>x \<in> set (retained d @ added d). map_of (execution_vertices new) (vertex_index (ev_id x)) = Some x) \<and>
    (\<forall>x \<in> set (removed d). map_of (execution_vertices old) (vertex_index (ev_id x)) = Some x)"
proof -
  let ?c = "jv_concurrency old" and ?p = "jv_concurrency new"
  have k: "set (keys (execution_vertices old)) = {0..<?c}" "set (keys (execution_vertices new)) = {0..<?p}" "0 < ?c" "0 < ?p"
    using assms(1,2) by (auto simp: jv_ok_def simp del: set_map)
  have sets: "{0..<?c} \<inter> {0..<?p} = {0..<min ?c ?p}" "{0..<?p} - {0..<?c} = {?c..<?p}" "{0..<?c} - {0..<?p} = {?p..<?c}"
    using k(3,4) by auto
  have sub: "set [0..min ?c ?p - 1] \<subseteq> {0..<?p}" "set [?c..?p - 1] \<subseteq> {0..<?p}" "set [?p..?c - 1] \<subseteq> {0..<?c}"
    using k(3,4) by auto
  obtain r where r: "rmap (jv_execution_vertex new) [0..min ?c ?p - 1] = Inr r"
    "map ev_id r = map (\<lambda>j. \<lparr>job_vertex_id = jv_id new, vertex_index = j\<rparr>) [0..min ?c ?p - 1]"
    "\<forall>x \<in> set r. map_of (execution_vertices new) (vertex_index (ev_id x)) = Some x"
    using rmap_vertices [OF assms(2), of "[0..min ?c ?p - 1]"] sub by metis
  obtain a where a: "rmap (jv_execution_vertex new) [?c..?p - 1] = Inr a"
    "map ev_id a = map (\<lambda>j. \<lparr>job_vertex_id = jv_id new, vertex_index = j\<rparr>) [?c..?p - 1]"
    "\<forall>x \<in> set a. map_of (execution_vertices new) (vertex_index (ev_id x)) = Some x"
    using rmap_vertices [OF assms(2), of "[?c..?p - 1]"] sub by metis
  obtain x where x: "rmap (jv_execution_vertex old) [?p..?c - 1] = Inr x"
    "map ev_id x = map (\<lambda>j. \<lparr>job_vertex_id = jv_id old, vertex_index = j\<rparr>) [?p..?c - 1]"
    "\<forall>y \<in> set x. map_of (execution_vertices old) (vertex_index (ev_id y)) = Some y"
    using rmap_vertices [OF assms(1), of "[?p..?c - 1]"] sub by metis
  have "delta_between old new = Inr \<lparr>retained = r, added = a, removed = x\<rparr>"
    unfolding delta_between_def Let_def k(1,2) sets sorted_list_of_upto using r(1) a(1) x(1) by simp
  then show ?thesis
    using r a x assms(3) by (intro exI [of _ "\<lparr>retained = r, added = a, removed = x\<rparr>"]) (auto simp del: map_eq_conv)
qed


lemma edge_okI:
  "spec_consistent (je_partitioner e) \<and> (case map_of vs (je_source e) of None \<Rightarrow> False | Some s \<Rightarrow>
     case map_of vs (je_target e) of None \<Rightarrow> False | Some t \<Rightarrow> make_job_edge s t (je_partitioner e) = Inr e) \<Longrightarrow> edge_ok vs e"
  by (cases "map_of vs (je_source e)"; cases "map_of vs (je_target e)") (simp_all add: edge_ok_def)

lemma demo_shuffle_ok: "graph_ok demo_shuffle"
proof -
  have "job_rel demo_shuffle = {(0, 1)}" by code_simp
  then have "acyclic (job_rel demo_shuffle)" by (intro acyclicI_order [where f = uminus]) simp
  moreover have "graph_wf demo_shuffle" "g_namespace demo_shuffle \<noteq> []" by code_simp+
  moreover have "\<forall>(i, v) \<in> set (job_vertices demo_shuffle). jv_ok v" by code_simp
  moreover have "list_all (\<lambda>e. spec_consistent (je_partitioner e) \<and>
      (case map_of (job_vertices demo_shuffle) (je_source e) of None \<Rightarrow> False | Some s \<Rightarrow>
       case map_of (job_vertices demo_shuffle) (je_target e) of None \<Rightarrow> False | Some t \<Rightarrow>
         make_job_edge s t (je_partitioner e) = Inr e)) (job_edges demo_shuffle)" by code_simp
  then have "\<forall>e \<in> set (job_edges demo_shuffle). edge_ok (job_vertices demo_shuffle) e"
    unfolding list_all_iff using edge_okI by blast
  ultimately show ?thesis by (simp add: graph_ok_def)
qed


subsection \<open>Expansion establishes the invariant\<close>

lemma wf_fold_specs:
  "wf_dict (fold (\<lambda>s d. AList.update (spec_index s) (make_job_vertex gen s) d) specs d) = wf_dict d"
  by (induction specs arbitrary: d) auto

lemma map_of_fold_specs:
  "map_of (fold (\<lambda>s d. AList.update (spec_index s) (make_job_vertex gen s) d) specs d) i = Some v \<Longrightarrow>
     map_of d i = Some v \<or> (\<exists>s \<in> set specs. i = spec_index s \<and> v = make_job_vertex gen s)"
proof (induction specs arbitrary: d)
  case (Cons s specs)
  from Cons.IH [of "AList.update (spec_index s) (make_job_vertex gen s) d"] Cons.prems show ?case
    by (cases "i = spec_index s") auto
qed simp



subsection \<open>Lifecycles\<close>

inductive phase_run :: "rescale_phase list \<Rightarrow> rescale_phase \<Rightarrow> bool" where
  phase_start: "phase_run [] INITIAL"
| phase_enter: "phase_run ps ph \<Longrightarrow> enter_phase ph' ph = Inr ph' \<Longrightarrow> phase_run (ps @ [ph']) ph'"

definition phase_order :: "rescale_phase list" where
  "phase_order = [CANDIDATES, CHECKPOINT_GATE, PARTICIPANTS, RUNTIMES, ROUTES, COORDINATOR, COMMITTED, RELEASED]"

lemma phase_run_prefix: "phase_run ps ph \<Longrightarrow> ps = take (phase_value ph) phase_order"
proof (induction rule: phase_run.induct)
  case (phase_enter ps ph ph')
  then have "phase_value ph' = Suc (phase_value ph)" by (simp add: enter_phase_def split: if_splits)
  then show ?case using phase_enter.IH by (cases ph; cases ph') (simp_all add: phase_order_def)
qed simp

lemma attempted_iff: "phase_run ps ph \<Longrightarrow> x \<noteq> INITIAL \<Longrightarrow> attempted x ph \<longleftrightarrow> x \<in> set ps"
proof -
  assume "phase_run ps ph" "x \<noteq> INITIAL"
  then show ?thesis using phase_run_prefix [of ps ph]
    by (cases ph; cases x) (simp_all add: attempted_def phase_order_def)
qed

inductive operation_run :: "rescale_operation \<Rightarrow> rescale_status list \<Rightarrow> rescale_operation \<Rightarrow> bool" for r0 where
  operation_start: "operation_run r0 [] r0"
| operation_step: "operation_run r0 sts r \<Longrightarrow> transition st ph now started err r = Inr r' \<Longrightarrow> operation_run r0 (sts @ [st]) r'"
| operation_merge: "operation_run r0 sts r \<Longrightarrow> operation_run r0 sts (merge_result x now r)"

lemma operation_run_inv:
  assumes "operation_run r0 sts r" "ro_status r0 = R_ACCEPTED" "ro_phase r0 = P_QUEUED" "ended_at_ms r0 = None"
  shows "(ro_status r = R_ACCEPTED \<and> sts = [] \<or> ro_status r = R_RUNNING \<and> sts = [R_RUNNING] \<or>
      ro_status r = R_STABILIZING \<and> sts = [R_RUNNING, R_STABILIZING] \<or>
      rescale_terminal (ro_status r) \<and> sts \<in> {[R_FAILED], [R_RUNNING, R_NOOP], [R_RUNNING, R_REJECTED], [R_RUNNING, R_FAILED],
        [R_RUNNING, R_STABILIZING, R_COMPLETED], [R_RUNNING, R_STABILIZING, R_FAILED]}) \<and>
    (ended_at_ms r \<noteq> None \<longleftrightarrow> rescale_terminal (ro_status r)) \<and> (rescale_terminal (ro_status r) \<longrightarrow> ro_phase r = P_COMPLETED)"
  using assms
proof (induction rule: operation_run.induct)
  case operation_start
  then show ?case by (simp add: rescale_terminal_def)
next
  case (operation_step sts r st ph now started err r')
  then have IH: "(ro_status r = R_ACCEPTED \<and> sts = [] \<or> ro_status r = R_RUNNING \<and> sts = [R_RUNNING] \<or>
      ro_status r = R_STABILIZING \<and> sts = [R_RUNNING, R_STABILIZING] \<or> rescale_terminal (ro_status r))"
    "ended_at_ms r \<noteq> None \<longleftrightarrow> rescale_terminal (ro_status r)" by auto
  have t: "st \<in> allowed_status_transitions (ro_status r)" "rescale_terminal st \<longrightarrow> ph = P_COMPLETED"
    and r': "ro_status r' = st" "ro_phase r' = ph" "ended_at_ms r' = (if rescale_terminal st then Some now else ended_at_ms r)"
    using operation_step.hyps(2) by (auto simp: transition_def split: if_splits)
  have nt: "\<not> rescale_terminal (ro_status r)" using t(1) by (cases "ro_status r") (auto simp: rescale_terminal_def)
  show ?case using IH nt t r' by (cases "ro_status r"; cases st) (auto simp: rescale_terminal_def)
next
  case (operation_merge sts r x now)
  then show ?case by (simp add: merge_result_def)
qed

text \<open>
  C31. Rescale bookkeeping cannot go backwards or skip: the phases a transaction has entered are
  always an initial segment of the compensation order, so \<open>attempted\<close> says exactly which phases
  must be undone; and the status record of an accepted operation follows one of the six legal paths
  to a terminal status, has an end time exactly when it is terminal, is then in phase COMPLETED, and
  accepts no further transition.
\<close>

theorem rescale_lifecycle:
  "(phase_run ps ph \<longrightarrow> ps = take (length ps) phase_order \<and> (\<forall>x. x \<noteq> INITIAL \<longrightarrow> attempted x ph = (x \<in> set ps))) \<and>
   (operation_run (accepted_operation oid job oper name previous target t0) sts r \<longrightarrow>
      (ended_at_ms r \<noteq> None \<longleftrightarrow> rescale_terminal (ro_status r)) \<and>
      (rescale_terminal (ro_status r) \<longrightarrow> ro_phase r = P_COMPLETED \<and>
         sts \<in> {[R_FAILED], [R_RUNNING, R_NOOP], [R_RUNNING, R_REJECTED], [R_RUNNING, R_FAILED],
           [R_RUNNING, R_STABILIZING, R_COMPLETED], [R_RUNNING, R_STABILIZING, R_FAILED]} \<and>
         (\<forall>st p now started err. transition st p now started err r = Inl RuntimeError)))"
proof (intro conjI impI)
  assume run: "phase_run ps ph"
  show "ps = take (length ps) phase_order" using phase_run_prefix [OF run] by (metis length_take min.idem take_all_iff take_take nat_le_linear)
  show "\<forall>x. x \<noteq> INITIAL \<longrightarrow> attempted x ph = (x \<in> set ps)" using attempted_iff [OF run] by blast
next
  assume "operation_run (accepted_operation oid job oper name previous target t0) sts r"
  note inv = operation_run_inv [OF this, unfolded accepted_operation_def, simplified]
  show "ended_at_ms r \<noteq> None \<longleftrightarrow> rescale_terminal (ro_status r)" using inv by blast
  assume t: "rescale_terminal (ro_status r)"
  show "ro_phase r = P_COMPLETED" using inv t by blast
  show "sts \<in> {[R_FAILED], [R_RUNNING, R_NOOP], [R_RUNNING, R_REJECTED], [R_RUNNING, R_FAILED],
           [R_RUNNING, R_STABILIZING, R_COMPLETED], [R_RUNNING, R_STABILIZING, R_FAILED]}"
    using inv t by (auto simp: rescale_terminal_def)
  have "allowed_status_transitions (ro_status r) = {}" using t by (cases "ro_status r") (simp_all add: rescale_terminal_def)
  then show "\<forall>st p now started err. transition st p now started err r = Inl RuntimeError" by (simp add: transition_def)
qed

theorem rescale_lifecycle_witness:
  "phase_run [CANDIDATES] CANDIDATES \<and> \<not> attempted COMMITTED CANDIDATES \<and>
   (\<exists>r. operation_run (accepted_operation ''o'' ''j'' (PInt 1) ''map'' 2 4 10) [R_FAILED] r \<and> ended_at_ms r \<noteq> None)"
proof -
  have ph: "phase_run [CANDIDATES] CANDIDATES"
    using phase_enter [OF phase_start, of CANDIDATES] by (simp add: enter_phase_def)
  let ?r0 = "accepted_operation ''o'' ''j'' (PInt 1) ''map'' 2 4 10"
  obtain r where r: "transition R_FAILED P_COMPLETED 20 None None ?r0 = Inr r" "ro_status r = R_FAILED"
    by (simp add: transition_def accepted_operation_def rescale_terminal_def)
  have run: "operation_run ?r0 [R_FAILED] r" using operation_step [OF operation_start r(1)] by simp
  have "ended_at_ms r \<noteq> None \<longleftrightarrow> rescale_terminal (ro_status r)"
    using rescale_lifecycle [of "[CANDIDATES]" CANDIDATES "''o''" "''j''" "PInt 1" "''map''" 2 4 10 "[R_FAILED]" r] run by blast
  moreover have "\<not> attempted COMMITTED CANDIDATES"
    using rescale_lifecycle [of "[CANDIDATES]" CANDIDATES "''o''" "''j''" "PInt 1" "''map''" 2 4 10 "[R_FAILED]" r] ph by simp
  ultimately show ?thesis using ph run r(2) by (auto simp: rescale_terminal_def)
qed

end
