(* ===== verification/SinkCommittables.thy ===== *)
theory SinkCommittables
  imports CheckpointEpochs "HOL-Library.Char_ord" "HOL-Library.List_Lexorder"
begin

unbundle bit_operations_syntax

section \<open>Sink transactions of a checkpoint (sink_committable_coalescer.py)\<close>

text \<open>
  A sink that takes part in two-phase commit hands the coordinator one prepared transaction per
  subtask. Transactions of parallel writers whose type offers it are merged into one transaction per
  logical sink. The connector's side (transaction ids, the combiner protocol, its namespace and its
  combine function) and the digest are parameters: a \<open>sink_api\<close> and \<open>sha256_hex\<close>. The result
  shown: merging neither loses nor invents writes, provided that combining publishes exactly the
  writes of the transactions it is given, which is the documented contract of
  \<open>SinkCommittableCombiner\<close>.
\<close>

subsection \<open>Entries and task keys\<close>

record 'c sink_api =
  transaction_id :: "'c \<Rightarrow> string"
  is_combiner :: "'c \<Rightarrow> bool"
  commit_namespace :: "'c \<Rightarrow> string"
  combine_committables :: "'c \<Rightarrow> 'c list \<Rightarrow> string \<Rightarrow> 'c result"

record 'c sink_entry =
  se_task_key :: string
  se_checkpoint_id :: int
  se_committable :: 'c

definition make_sink_entry :: "'c sink_api \<Rightarrow> string \<Rightarrow> int \<Rightarrow> 'c \<Rightarrow> 'c sink_entry result" where
  "make_sink_entry api k b x =
     (if py_strip k = [] then Inl ValueError
      else if b < 0 then Inl ValueError
      else if py_strip (transaction_id api x) = [] then Inl ValueError
      else Inr \<lparr>se_task_key = k, se_checkpoint_id = b, se_committable = x\<rparr>)"

type_synonym sink_identity = "string \<times> int \<times> string"

definition sink_committable_identity :: "'c sink_api \<Rightarrow> 'c sink_entry \<Rightarrow> sink_identity" where
  "sink_committable_identity api e =
     (se_task_key e, se_checkpoint_id e, transaction_id api (se_committable e))"

definition task_key_of :: "vertex_id \<Rightarrow> string" where
  "task_key_of v = show_int (job_vertex_id v) @ '':'' @ show_int (vertex_index v)"

definition logical_part :: "string \<Rightarrow> string" where
  "logical_part k = takeWhile (\<lambda>c. c \<noteq> CHR '':'') k"

subsection \<open>Coalescing\<close>

definition join_nul :: "string list \<Rightarrow> string" where
  "join_nul xs = (case xs of [] \<Rightarrow> [] | x # ys \<Rightarrow> x @ concat (map (\<lambda>y. CHR 0x00 # y) ys))"

definition group_entry ::
  "'c sink_api \<Rightarrow> string \<times> 'c sink_entry \<Rightarrow>
   (string, 'c sink_entry) dict \<times> (string, 'c sink_entry list) dict \<Rightarrow>
   (string, 'c sink_entry) dict \<times> (string, 'c sink_entry list) dict" where
  "group_entry api kv acc =
     (case (kv, acc) of ((k, e), (res, groups)) \<Rightarrow>
        if is_combiner api (se_committable e)
        then (res, AList.update (logical_part k) (dict_get groups (logical_part k) [] @ [e]) groups)
        else (AList.update k e res, groups))"

definition global_transaction_id :: "(string \<Rightarrow> string) \<Rightarrow> 'c sink_api \<Rightarrow> string \<Rightarrow> string \<Rightarrow> string \<Rightarrow> int \<Rightarrow> 'c sink_entry list \<Rightarrow> string" where
  "global_transaction_id sha256_hex api ns job lid b writers =
     ''klein:'' @ ns @ '':'' @ job @ '':'' @ lid @ '':'' @ show_int b @ '':'' @
       sha256_hex (join_nul (sort (map (\<lambda>e. transaction_id api (se_committable e)) writers)))"

definition merge_group ::
  "(string \<Rightarrow> string) \<Rightarrow> 'c sink_api \<Rightarrow> string \<Rightarrow> int \<Rightarrow> string \<times> 'c sink_entry list \<Rightarrow>
   (string, 'c sink_entry) dict \<Rightarrow> (string, 'c sink_entry) dict result" where
  "merge_group sha256_hex api job b g res =
     (case g of (lid, writers) \<Rightarrow>
        (case writers of
           [e] \<Rightarrow> Inr (AList.update (se_task_key e) e res)
         | [] \<Rightarrow> Inl IndexError
         | first # _ \<Rightarrow>
             let ns = commit_namespace api (se_committable first)
             in if \<exists>e \<in> set writers. commit_namespace api (se_committable e) \<noteq> ns then Inl ValueError
                else if ns = [] \<or> CHR '':'' \<in> set ns then Inl ValueError
                else
                  rbind (combine_committables api (se_committable first) (map se_committable writers)
                           (global_transaction_id sha256_hex api ns job lid b writers)) (\<lambda>x.
                  rbind (make_sink_entry api (lid @ '':global'') b x) (\<lambda>entry.
                    Inr (AList.update (lid @ '':global'') entry res)))))"

definition coalesce_sink_committables ::
  "(string \<Rightarrow> string) \<Rightarrow> 'c sink_api \<Rightarrow> string \<Rightarrow> int \<Rightarrow> (string, 'c sink_entry) dict \<Rightarrow>
   (string, 'c sink_entry) dict result" where
  "coalesce_sink_committables sha256_hex api job b entries =
     (if length entries < 2 then Inr entries
      else let (res, groups) = fold (group_entry api) entries ([], [])
           in rfold (merge_group sha256_hex api job b) groups res)"

text \<open>
  Entries carried over from failed epochs keep the commit boundary of their epoch: they are grouped
  by checkpoint id and each group is coalesced on its own, oldest first.
\<close>

definition collect_carried ::
  "'c sink_api \<Rightarrow> 'c sink_entry \<Rightarrow> (int, (string, 'c sink_entry) dict) dict \<Rightarrow>
   (int, (string, 'c sink_entry) dict) dict result" where
  "collect_carried api e acc =
     (let batch = dict_get acc (se_checkpoint_id e) []
      in case map_of batch (se_task_key e) of
           Some old \<Rightarrow>
             if transaction_id api (se_committable old) \<noteq> transaction_id api (se_committable e) then Inl ValueError
             else Inr (AList.update (se_checkpoint_id e) (AList.update (se_task_key e) e batch) acc)
         | None \<Rightarrow> Inr (AList.update (se_checkpoint_id e) (AList.update (se_task_key e) e batch) acc))"

definition add_identified ::
  "'c sink_api \<Rightarrow> 'c sink_entry \<Rightarrow> (sink_identity, 'c sink_entry) dict \<Rightarrow> (sink_identity, 'c sink_entry) dict" where
  "add_identified api e d = AList.update (sink_committable_identity api e) e d"

definition coalesce_carried_sink_committables ::
  "(string \<Rightarrow> string) \<Rightarrow> 'c sink_api \<Rightarrow> string \<Rightarrow> 'c sink_entry list \<Rightarrow>
   (sink_identity, 'c sink_entry) dict result" where
  "coalesce_carried_sink_committables sha256_hex api job es =
     rbind (rfold (collect_carried api) es []) (\<lambda>groups.
       rfold (\<lambda>(b, batch) acc.
           rbind (coalesce_sink_committables sha256_hex api job b batch) (\<lambda>out.
             Inr (fold (add_identified api) (map snd out) acc)))
         (sort_key fst groups) [])"

subsection \<open>Writes\<close>

text \<open>
  \<open>writes x\<close> is what publishing transaction \<open>x\<close> makes visible. The contract of a connector:
  combining publishes exactly the writes of the parts, and the transaction id is an idempotency key.
\<close>

definition sink_contract :: "'c sink_api \<Rightarrow> ('c \<Rightarrow> 'w set) \<Rightarrow> bool" where
  "sink_contract api writes \<longleftrightarrow>
     (\<forall>x xs t y. combine_committables api x xs t = Inr y \<longrightarrow> writes y = \<Union> (writes ` set xs)) \<and>
     (\<forall>x y. transaction_id api x = transaction_id api y \<longrightarrow> writes x = writes y)"

definition published :: "('c \<Rightarrow> 'w set) \<Rightarrow> 'c sink_entry list \<Rightarrow> 'w set" where
  "published writes es = (\<Union>e \<in> set es. writes (se_committable e))"

lemma published_simps [simp]:
  "published writes [] = {}"
  "published writes (e # es) = writes (se_committable e) \<union> published writes es"
  "published writes (es @ fs) = published writes es \<union> published writes fs"
  by (auto simp: published_def)

definition writer_key :: "string \<Rightarrow> bool" where
  "writer_key k \<longleftrightarrow> (\<forall>s. k \<noteq> s @ '':global'')"

definition keyed_entries :: "(string, 'c sink_entry) dict \<Rightarrow> bool" where
  "keyed_entries d \<longleftrightarrow> wf_dict d \<and> (\<forall>(k, e) \<in> set d. se_task_key e = k)"

lemma show_nat_digits: "set (show_nat n) \<subseteq> {c. of_char c \<in> {48..57 :: nat}}"
proof (induction n rule: show_nat.induct)
  case (1 n)
  then show ?case by (subst show_nat.simps) (auto simp: of_char_of take_bit_eq_mod)
qed

lemma show_int_chars: "c \<in> set (show_int i) \<Longrightarrow> c = CHR ''-'' \<or> of_char c \<in> {48..57 :: nat}"
  using show_nat_digits by (auto simp: show_int_def split: if_splits)

lemma writer_keyI: "CHR ''l'' \<notin> set k \<Longrightarrow> writer_key k"
  unfolding writer_key_def by auto

lemma task_key_is_writer_key [simp]: "writer_key (task_key_of v)"
  using show_int_chars [of "CHR ''l''"] by (intro writer_keyI) (auto simp: task_key_of_def)

lemma logical_part_global: "CHR '':'' \<notin> set s \<Longrightarrow> logical_part (s @ '':global'') = s"
  by (auto simp: logical_part_def takeWhile_tail)

lemma colon_free_logical_part: "CHR '':'' \<notin> set (logical_part k)"
  by (auto simp: logical_part_def dest: set_takeWhileD)

lemma group_fold:
  assumes "wf_dict es"
  shows "\<exists>groups. fold (group_entry api) es ([], []) =
      (filter (\<lambda>(k, e). \<not> is_combiner api (se_committable e)) es, groups) \<and> wf_dict groups \<and>
      (\<forall>l. map_of groups l =
        (let xs = map snd (filter (\<lambda>(k, e). is_combiner api (se_committable e) \<and> logical_part k = l) es)
         in if xs = [] then None else Some xs))"
  using assms
proof (induction es rule: rev_induct)
  case (snoc kv es)
  obtain k e where kv: "kv = (k, e)" by force
  obtain groups where g: "fold (group_entry api) es ([], []) =
      (filter (\<lambda>(k, e). \<not> is_combiner api (se_committable e)) es, groups)" "wf_dict groups"
    "\<And>l. map_of groups l =
        (let xs = map snd (filter (\<lambda>(k, e). is_combiner api (se_committable e) \<and> logical_part k = l) es)
         in if xs = [] then None else Some xs)"
    using snoc by auto
  have new: "k \<notin> fst ` set (filter (\<lambda>(k, e). \<not> is_combiner api (se_committable e)) es)"
    using snoc.prems kv by auto
  show ?case
  proof (cases "is_combiner api (se_committable e)")
    case True
    let ?g = "AList.update (logical_part k) (dict_get groups (logical_part k) [] @ [e]) groups"
    have 1: "fold (group_entry api) (es @ [kv]) ([], []) =
        (filter (\<lambda>(k, e). \<not> is_combiner api (se_committable e)) (es @ [kv]), ?g)"
      using g(1) True by (simp add: kv group_entry_def)
    have 2: "map_of ?g l =
        (let xs = map snd (filter (\<lambda>(k, e). is_combiner api (se_committable e) \<and> logical_part k = l) (es @ [kv]))
         in if xs = [] then None else Some xs)" for l
      using g(3) True by (simp add: kv dict_get_def Let_def)
    have 3: "wf_dict ?g" using g(2) by simp
    show ?thesis by (rule exI [of _ ?g]) (intro conjI allI 1 2 3)
  next
    case False
    then have 1: "fold (group_entry api) (es @ [kv]) ([], []) =
        (filter (\<lambda>(k, e). \<not> is_combiner api (se_committable e)) (es @ [kv]), groups)"
      using g(1) update_append_new [OF new] by (simp add: kv group_entry_def)
    have 2: "map_of groups l =
        (let xs = map snd (filter (\<lambda>(k, e). is_combiner api (se_committable e) \<and> logical_part k = l) (es @ [kv]))
         in if xs = [] then None else Some xs)" for l
      using g(3) False by (simp add: kv Let_def)
    show ?thesis by (rule exI [of _ groups]) (intro conjI allI 1 2 g(2))
  qed
qed simp

lemma merge_group_cases:
  assumes "merge_group sha api job b (lid, writers) res = Inr out"
  obtains (single) e where "writers = [e]" "out = AList.update (se_task_key e) e res"
  | (merged) x t c where "\<And>e. writers \<noteq> [e]" "combine_committables api x (map se_committable writers) t = Inr c"
      "out = AList.update (lid @ '':global'') \<lparr>se_task_key = lid @ '':global'', se_checkpoint_id = b, se_committable = c\<rparr> res"
proof (cases writers)
  case (Cons e es)
  show ?thesis
  proof (cases es)
    case Nil
    then show ?thesis using assms Cons by (intro single) (auto simp: merge_group_def)
  next
    case (Cons e' es')
    then obtain c entry where "combine_committables api (se_committable e) (map se_committable writers)
          (global_transaction_id sha api (commit_namespace api (se_committable e)) job lid b writers) = Inr c"
        "make_sink_entry api (lid @ '':global'') b c = Inr entry" "out = AList.update (lid @ '':global'') entry res"
      using assms \<open>writers = e # es\<close> by (auto simp: merge_group_def Let_def result_simps split: if_splits)
    then show ?thesis using Cons \<open>writers = e # es\<close> by (intro merged) (auto simp: make_sink_entry_def split: if_splits)
  qed
qed (use assms in \<open>simp add: merge_group_def\<close>)

text \<open>The key under which a group appears in the result.\<close>

definition out_key :: "string \<times> 'c sink_entry list \<Rightarrow> string" where
  "out_key g = (case snd g of [e] \<Rightarrow> se_task_key e | _ \<Rightarrow> fst g @ '':global'')"

lemma merge_group_result:
  assumes "merge_group sha api job b g res = Inr out" "sink_contract api writes"
  obtains e where "out = AList.update (out_key g) e res" "se_task_key e = out_key g"
    "writes (se_committable e) = published writes (snd g)" "e \<in> set (snd g) \<or> se_checkpoint_id e = b"
proof -
  obtain lid ws where g: "g = (lid, ws)" by force
  have "\<exists>e. out = AList.update (out_key g) e res \<and> se_task_key e = out_key g \<and>
    writes (se_committable e) = published writes (snd g) \<and> (e \<in> set (snd g) \<or> se_checkpoint_id e = b)"
    using assms(1) [unfolded g]
  proof (cases rule: merge_group_cases)
    case (single e)
    then show ?thesis by (auto simp: g out_key_def)
  next
    case (merged x t c)
    then have "writes c = \<Union> (writes ` set (map se_committable ws))"
      using assms(2) unfolding sink_contract_def by blast
    then have "writes c = published writes ws" by (simp add: published_def)
    moreover have "out_key g = lid @ '':global''"
      using merged(1) by (auto simp: g out_key_def split: list.splits)
    ultimately show ?thesis using merged(3) by (auto simp: g)
  qed
  with that show thesis by blast
qed

lemma published_filter_split:
  "published writes (map snd es) =
     published writes (map snd (filter (\<lambda>(k, e). \<not> P k e) es)) \<union>
     (\<Union>l. published writes (map snd (filter (\<lambda>(k, e). P k e \<and> f k = l) es)))"
  by (auto simp: published_def)

lemma published_update:
  "k \<notin> fst ` set d \<Longrightarrow> published writes (map snd (AList.update k e d)) =
     writes (se_committable e) \<union> published writes (map snd d)"
  by (auto simp: update_append_new)

lemma keyed_entries_update:
  "keyed_entries d \<Longrightarrow> se_task_key e = k \<Longrightarrow> keyed_entries (AList.update k e d)"
  by (auto simp: keyed_entries_def dest!: update_mem)

lemma out_key_of_group:
  assumes "keyed_entries es" "\<forall>k \<in> set (keys es). writer_key k"
    and "ws = map snd (filter (\<lambda>(k, e). is_combiner api (se_committable e) \<and> logical_part k = l) es)" "ws \<noteq> []"
  shows "logical_part (out_key (l, ws)) = l"
    "out_key (l, ws) \<notin> fst ` set (filter (\<lambda>(k, e). \<not> is_combiner api (se_committable e)) es)"
proof -
  have keyed: "se_task_key e = k" if "(k, e) \<in> set es" for k e using assms(1) that by (auto simp: keyed_entries_def)
  have mem: "(se_task_key e, e) \<in> set es \<and> is_combiner api (se_committable e) \<and> logical_part (se_task_key e) = l"
    if "e \<in> set ws" for e using that keyed by (auto simp: assms(3))
  have "logical_part (out_key (l, ws)) = l \<and>
    out_key (l, ws) \<notin> fst ` set (filter (\<lambda>(k, e). \<not> is_combiner api (se_committable e)) es)"
  proof (cases "\<exists>e. ws = [e]")
    case True
    then obtain e where e: "ws = [e]" by blast
    then have "out_key (l, ws) = se_task_key e" by (simp add: out_key_def)
    moreover have "f = e" if "(se_task_key e, f) \<in> set es" for f
      using assms(1) mem [of e] that e eq_key_imp_eq_value unfolding keyed_entries_def by fastforce
    ultimately show ?thesis using mem [of e] e by auto
  next
    case False
    then have k: "out_key (l, ws) = l @ '':global''" by (auto simp: out_key_def split: list.splits)
    obtain e where "e \<in> set ws" using assms(4) by (cases ws) auto
    then have "CHR '':'' \<notin> set l" using mem colon_free_logical_part by blast
    moreover have "l @ '':global'' \<notin> set (keys es)" using assms(2) unfolding writer_key_def by blast
    ultimately show ?thesis using k logical_part_global by auto
  qed
  then show "logical_part (out_key (l, ws)) = l"
    "out_key (l, ws) \<notin> fst ` set (filter (\<lambda>(k, e). \<not> is_combiner api (se_committable e)) es)" by blast+
qed

definition coalesced ::
  "('c \<Rightarrow> 'w set) \<Rightarrow> int \<Rightarrow> (string, 'c sink_entry) dict \<Rightarrow> (string, 'c sink_entry) dict \<Rightarrow> bool" where
  "coalesced writes b es out \<longleftrightarrow>
     published writes (map snd out) = published writes (map snd es) \<and> keyed_entries out \<and>
     (\<forall>e \<in> set (map snd out). e \<in> set (map snd es) \<or> se_checkpoint_id e = b)"

lemma coalesce_groups:
  assumes contract: "sink_contract api writes" and keyed: "keyed_entries es" and wk: "\<forall>k \<in> set (keys es). writer_key k"
    and groups: "fold (group_entry api) es ([], []) =
      (filter (\<lambda>(k, e). \<not> is_combiner api (se_committable e)) es, groups)" "wf_dict groups"
      "\<And>l. map_of groups l =
        (let xs = map snd (filter (\<lambda>(k, e). is_combiner api (se_committable e) \<and> logical_part k = l) es)
         in if xs = [] then None else Some xs)"
    and run: "rfold (merge_group sha api job b) groups
      (filter (\<lambda>(k, e). \<not> is_combiner api (se_committable e)) es) = Inr out"
  shows "coalesced writes b es out \<and>
    set (keys out) = fst ` set (filter (\<lambda>(k, e). \<not> is_combiner api (se_committable e)) es) \<union> out_key ` set groups"
proof -
  let ?plain = "filter (\<lambda>(k, e). \<not> is_combiner api (se_committable e)) es"
  let ?ws = "\<lambda>l. map snd (filter (\<lambda>(k, e). is_combiner api (se_committable e) \<and> logical_part k = l) es)"
  have member: "ws = ?ws l \<and> ws \<noteq> []" if "(l, ws) \<in> set groups" for l ws
    using groups(3) [of l] map_of_is_SomeI [OF groups(2) that] by (auto simp: Let_def split: if_splits)
  have ok: "logical_part (out_key g) = fst g \<and> out_key g \<notin> fst ` set ?plain" if "g \<in> set groups" for g
  proof -
    obtain l ws where g: "g = (l, ws)" by force
    have "ws = ?ws l" "ws \<noteq> []" using member [of l ws] that g by blast+
    from out_key_of_group [OF keyed wk this] show ?thesis unfolding g by simp
  qed
  let ?I = "\<lambda>pre res. published writes (map snd res) =
       published writes (map snd ?plain) \<union> (\<Union>g \<in> set pre. published writes (snd g)) \<and>
     keyed_entries res \<and> (\<forall>e \<in> set (map snd res). e \<in> set (map snd es) \<or> se_checkpoint_id e = b) \<and>
     set (keys res) = fst ` set ?plain \<union> out_key ` set pre"
  have "?I groups out"
  proof (rule rfold_preserves [OF run])
    show "?I [] ?plain" using keyed by (auto simp: keyed_entries_def distinct_map_filter)
  next
    fix pre g rest res res'
    assume split: "groups = pre @ g # rest" and I: "?I pre res"
      and step: "merge_group sha api job b g res = Inr res'"
    from merge_group_result [OF step contract] obtain e where e: "res' = AList.update (out_key g) e res"
      "se_task_key e = out_key g" "writes (se_committable e) = published writes (snd g)"
      "e \<in> set (snd g) \<or> se_checkpoint_id e = b" by blast
    have g: "g \<in> set groups" "fst g \<notin> fst ` set pre" using split groups(2) by auto
    have lp: "logical_part (out_key x) = fst x" if "x \<in> set (g # pre)" for x
    proof -
      have "x \<in> set groups" using that split by auto
      then show ?thesis using ok by blast
    qed
    have "out_key g \<noteq> out_key x" if "x \<in> set pre" for x
      using lp [of g] lp [of x] that g(2) by (metis image_eqI list.set_intros)
    then have "out_key g \<notin> fst ` set ?plain \<union> out_key ` set pre" using conjunct2 [OF ok [OF g(1)]] by blast
    then have new: "out_key g \<notin> fst ` set res"
      using conjunct2 [OF conjunct2 [OF conjunct2 [OF I]]] by (simp only: set_map not_False_eq_True)
    have "set (?ws (fst g)) \<subseteq> set (map snd es)" by auto
    then have "set (snd g) \<subseteq> set (map snd es)" using member [of "fst g" "snd g"] g(1) by simp
    then have from_es: "e \<in> set (map snd es) \<or> se_checkpoint_id e = b" using e(4) by blast
    show "?I (pre @ [g]) res'"
    proof (intro conjI ballI)
      show "published writes (map snd res') =
          published writes (map snd ?plain) \<union> (\<Union>g \<in> set (pre @ [g]). published writes (snd g))"
        using published_update [OF new, of writes e] e(1,3) I by auto
      show "keyed_entries res'" using I keyed_entries_update e(1,2) by blast
      show "set (keys res') = fst ` set ?plain \<union> out_key ` set (pre @ [g])"
        using conjunct2 [OF conjunct2 [OF conjunct2 [OF I]]] keys_update [of "out_key g" e res] e(1) by simp
      fix x assume "x \<in> set (map snd res')"
      then obtain k where "(k, x) \<in> set res'" by auto
      then have "x = e \<or> (k, x) \<in> set res" using e(1) update_mem by fast
      then have "x = e \<or> x \<in> set (map snd res)" by force
      then show "x \<in> set (map snd es) \<or> se_checkpoint_id x = b" using I from_es by blast
    qed
  qed
  moreover have "(\<Union>g \<in> set groups. published writes (snd g)) = (\<Union>l. published writes (?ws l))"
  proof (intro equalityI subsetI)
    fix w assume "w \<in> (\<Union>l. published writes (?ws l))"
    then obtain l where l: "w \<in> published writes (?ws l)" by blast
    then have "?ws l \<noteq> []" by auto
    then have "(l, ?ws l) \<in> set groups" using groups(3) [of l] by (auto simp: Let_def intro: map_of_SomeD)
    with l show "w \<in> (\<Union>g \<in> set groups. published writes (snd g))" by force
  qed (use member in force)
  ultimately show ?thesis
    using published_filter_split [of writes es "\<lambda>k e. is_combiner api (se_committable e)" logical_part]
    by (simp add: coalesced_def)
qed

lemma coalesce_spec:
  assumes "sink_contract api writes" "keyed_entries es" "\<forall>k \<in> set (keys es). writer_key k"
    and run: "coalesce_sink_committables sha api job b es = Inr out"
  shows "coalesced writes b es out"
proof (cases "length es < 2")
  case True
  then show ?thesis using run assms(2) by (auto simp: coalesce_sink_committables_def coalesced_def)
next
  case False
  have "wf_dict es" using assms(2) by (simp add: keyed_entries_def)
  from group_fold [OF this, of api] obtain groups where g: "fold (group_entry api) es ([], []) =
      (filter (\<lambda>(k, e). \<not> is_combiner api (se_committable e)) es, groups)" "wf_dict groups"
    "\<And>l. map_of groups l =
        (let xs = map snd (filter (\<lambda>(k, e). is_combiner api (se_committable e) \<and> logical_part k = l) es)
         in if xs = [] then None else Some xs)" by blast
  have "rfold (merge_group sha api job b) groups (filter (\<lambda>(k, e). \<not> is_combiner api (se_committable e)) es) = Inr out"
    using run False g(1) by (simp add: coalesce_sink_committables_def)
  from coalesce_groups [OF assms(1-3) g this] show ?thesis by blast
qed


subsection \<open>Carried transactions\<close>

text \<open>
  Storing an entry under its identity can only replace an entry with the same transaction id, so it
  loses no writes.
\<close>

definition identified :: "'c sink_api \<Rightarrow> (sink_identity, 'c sink_entry) dict \<Rightarrow> bool" where
  "identified api d \<longleftrightarrow> wf_dict d \<and> (\<forall>i e. map_of d i = Some e \<longrightarrow> i = sink_committable_identity api e)"

lemma published_dict: "published writes (map snd d) = dict_union (\<lambda>e. writes (se_committable e)) d"
  by (simp add: published_def dict_union_def)

lemma published_replace:
  assumes "\<And>old. map_of d k = Some old \<Longrightarrow> writes (se_committable old) = writes (se_committable e)"
  shows "published writes (map snd (AList.update k e d)) = writes (se_committable e) \<union> published writes (map snd d)"
  unfolding published_dict by (rule dict_union_update) (use assms in blast)

lemma same_transaction_same_writes:
  "sink_contract api writes \<Longrightarrow> transaction_id api x = transaction_id api y \<Longrightarrow> writes x = writes y"
  unfolding sink_contract_def by blast

lemma add_identified_spec:
  assumes "sink_contract api writes" "identified api d"
  shows "identified api (add_identified api e d) \<and>
    published writes (map snd (add_identified api e d)) = writes (se_committable e) \<union> published writes (map snd d)"
proof -
  have "writes (se_committable old) = writes (se_committable e)"
    if "map_of d (sink_committable_identity api e) = Some old" for old
  proof (rule same_transaction_same_writes [OF assms(1)])
    have "sink_committable_identity api e = sink_committable_identity api old"
      using assms(2) that unfolding identified_def by blast
    then show "transaction_id api (se_committable old) = transaction_id api (se_committable e)"
      by (simp add: sink_committable_identity_def)
  qed
  then show ?thesis
    using published_replace [of d "sink_committable_identity api e" writes e] assms(2)
    unfolding identified_def add_identified_def by (metis map_of_update option.inject wf_dict_update)
qed

lemma fold_add_identified_spec:
  assumes "sink_contract api writes" "identified api d"
  shows "identified api (fold (add_identified api) es d) \<and>
    published writes (map snd (fold (add_identified api) es d)) = published writes es \<union> published writes (map snd d)"
  using assms(2)
proof (induction es arbitrary: d)
  case (Cons e es)
  with add_identified_spec [OF assms(1) Cons.prems, of e] Cons.IH [of "add_identified api e d"]
  show ?case by auto
qed simp

definition batch_ok :: "(string, 'c sink_entry) dict \<Rightarrow> bool" where
  "batch_ok d \<longleftrightarrow> keyed_entries d \<and> (\<forall>k \<in> set (keys d). writer_key k)"

definition batches_published :: "('c \<Rightarrow> 'w set) \<Rightarrow> (int, (string, 'c sink_entry) dict) dict \<Rightarrow> 'w set" where
  "batches_published writes acc = dict_union (\<lambda>d. published writes (map snd d)) acc"

lemma batches_published_update:
  assumes "published writes (map snd d) = W \<union> published writes (map snd (dict_get acc b []))"
  shows "batches_published writes (AList.update b d acc) = W \<union> batches_published writes acc"
proof -
  have "batches_published writes (AList.update b d acc) = published writes (map snd d) \<union> batches_published writes acc"
    unfolding batches_published_def by (rule dict_union_update) (simp add: assms dict_get_def)
  moreover have "published writes (map snd (dict_get acc b [])) \<subseteq> batches_published writes acc"
    unfolding batches_published_def dict_get_def by (cases "map_of acc b") (auto intro: dict_unionI)
  ultimately show ?thesis using assms by blast
qed

lemma batch_ok_update: "batch_ok d \<Longrightarrow> writer_key (se_task_key e) \<Longrightarrow> batch_ok (AList.update (se_task_key e) e d)"
  unfolding batch_ok_def using keyed_entries_update [of d e "se_task_key e"] by (metis insert_iff keys_update)

definition batches_ok :: "(int, (string, 'c sink_entry) dict) dict \<Rightarrow> bool" where
  "batches_ok acc \<longleftrightarrow> wf_dict acc \<and> (\<forall>b d. map_of acc b = Some d \<longrightarrow> batch_ok d)"

lemma collect_carried_step:
  assumes "sink_contract api writes" "writer_key (se_task_key e)" "batches_ok acc" "collect_carried api e acc = Inr acc'"
  shows "batches_ok acc' \<and> batches_published writes acc' = writes (se_committable e) \<union> batches_published writes acc"
proof -
  let ?d = "dict_get acc (se_checkpoint_id e) []"
  have ok: "batch_ok ?d"
    using assms(3) unfolding batches_ok_def dict_get_def
    by (cases "map_of acc (se_checkpoint_id e)") (simp_all add: batch_ok_def keyed_entries_def)
  have acc': "acc' = AList.update (se_checkpoint_id e) (AList.update (se_task_key e) e ?d) acc"
    using assms(4) by (auto simp: collect_carried_def Let_def split: option.splits if_splits)
  have "writes (se_committable old) = writes (se_committable e)" if "map_of ?d (se_task_key e) = Some old" for old
    using assms(4) that by (intro same_transaction_same_writes [OF assms(1)])
      (auto simp: collect_carried_def Let_def split: if_splits)
  then have "published writes (map snd (AList.update (se_task_key e) e ?d)) =
      writes (se_committable e) \<union> published writes (map snd ?d)" by (rule published_replace)
  then have "batches_published writes acc' = writes (se_committable e) \<union> batches_published writes acc"
    unfolding acc' by (rule batches_published_update)
  moreover have "batches_ok acc'"
    using assms(3) batch_ok_update [OF ok assms(2)] unfolding batches_ok_def acc'
    by (metis map_of_update option.inject wf_dict_update)
  ultimately show ?thesis by blast
qed

lemma coalesce_carried_spec:
  assumes "sink_contract api writes" "\<forall>e \<in> set es. writer_key (se_task_key e)"
    and run: "coalesce_carried_sink_committables sha api job es = Inr out"
  shows "identified api out \<and> published writes (map snd out) = published writes es"
proof -
  obtain acc where acc: "rfold (collect_carried api) es [] = Inr acc"
    and out: "rfold (\<lambda>(b, batch) acc. rbind (coalesce_sink_committables sha api job b batch) (\<lambda>out.
             Inr (fold (add_identified api) (map snd out) acc))) (sort_key fst acc) [] = Inr out"
    using run by (auto simp: coalesce_carried_sink_committables_def result_simps)
  have "batches_ok acc \<and> batches_published writes acc = published writes es"
  proof (rule rfold_preserves [OF acc, where I = "\<lambda>pre acc. batches_ok acc \<and> batches_published writes acc = published writes pre"])
    show "batches_ok [] \<and> batches_published writes [] = published writes []"
      by (simp add: batches_ok_def batches_published_def)
  next
    fix pre e rest acc acc'
    assume "es = pre @ e # rest" "batches_ok acc \<and> batches_published writes acc = published writes pre"
      "collect_carried api e acc = Inr acc'"
    with collect_carried_step [OF assms(1), of e acc acc'] assms(2)
    show "batches_ok acc' \<and> batches_published writes acc' = published writes (pre @ [e])" by auto
  qed
  then have ok: "batch_ok d" if "(b, d) \<in> set (sort_key fst acc)" for b d
    using map_of_is_SomeI [of acc b d] that unfolding batches_ok_def by auto
  have "identified api out \<and> published writes (map snd out) = (\<Union>x \<in> set (sort_key fst acc). published writes (map snd (snd x)))"
  proof (rule rfold_preserves [OF out, where I = "\<lambda>pre res. identified api res \<and>
        published writes (map snd res) = (\<Union>x \<in> set pre. published writes (map snd (snd x)))"])
    show "identified api [] \<and> published writes (map snd []) = (\<Union>x \<in> set []. published writes (map snd (snd x)))"
      by (simp add: identified_def)
  next
    fix pre x rest res res'
    assume split: "sort_key fst acc = pre @ x # rest"
      and I: "identified api res \<and> published writes (map snd res) = (\<Union>x \<in> set pre. published writes (map snd (snd x)))"
      and step: "(case x of (b, batch) \<Rightarrow> \<lambda>acc. rbind (coalesce_sink_committables sha api job b batch) (\<lambda>out.
             Inr (fold (add_identified api) (map snd out) acc))) res = Inr res'"
    obtain b d where x: "x = (b, d)" by force
    with step obtain o1 where o1: "coalesce_sink_committables sha api job b d = Inr o1"
      "res' = fold (add_identified api) (map snd o1) res" by (auto simp: result_simps)
    have "(b, d) \<in> set (sort_key fst acc)" unfolding split x by simp
    then have "batch_ok d" by (rule ok)
    then have "published writes (map snd o1) = published writes (map snd d)"
      using coalesce_spec [OF assms(1) _ _ o1(1)] unfolding batch_ok_def coalesced_def by blast
    with fold_add_identified_spec [OF assms(1), of res "map snd o1"] I o1(2)
    show "identified api res' \<and> published writes (map snd res') = (\<Union>x \<in> set (pre @ [x]). published writes (map snd (snd x)))"
      by (auto simp: x)
  qed
  moreover have "batches_published writes acc = (\<Union>x \<in> set (sort_key fst acc). published writes (map snd (snd x)))"
    by (simp add: batches_published_def dict_union_def)
  ultimately show ?thesis using \<open>batches_ok acc \<and> batches_published writes acc = published writes es\<close> by simp
qed

text \<open>
  A connector whose transactions are sets of row numbers, coded as the bits of a number, and whose
  combine function takes their union: it satisfies the contract.
\<close>

definition demo_api :: "nat sink_api" where
  "demo_api = \<lparr>transaction_id = (\<lambda>n. replicate (Suc n) (CHR ''t'')), is_combiner = (\<lambda>_. True),
     commit_namespace = (\<lambda>_. ''ns''), combine_committables = (\<lambda>_ xs _. Inr (fold (OR) xs 0))\<rparr>"

definition demo_writes :: "nat \<Rightarrow> nat set" where
  "demo_writes n = {i. bit n i}"

lemma demo_contract: "sink_contract demo_api demo_writes"
proof -
  have "demo_writes (fold (OR) xs a) = demo_writes a \<union> \<Union> (demo_writes ` set xs)" for xs a
    by (induction xs arbitrary: a) (auto simp: demo_writes_def bit_or_iff)
  from this [where a = 0] show ?thesis
    unfolding sink_contract_def by (simp add: demo_api_def) (auto simp: demo_writes_def)
qed

definition demo_entries :: "(string, nat sink_entry) dict" where
  "demo_entries = [(''4:0'', \<lparr>se_task_key = ''4:0'', se_checkpoint_id = 7, se_committable = 1\<rparr>),
     (''4:1'', \<lparr>se_task_key = ''4:1'', se_checkpoint_id = 7, se_committable = 2\<rparr>)]"


end
