(* ===== verification/Coordinator.thy ===== *)
theory Coordinator
  imports SinkCommittables CheckpointDomains
begin

section \<open>The checkpoint coordinator (runtime/coordinator/checkpoint_coordinator.py)\<close>

text \<open>
  The coordinator is an asynchronous actor: its handlers interleave only at \<open>await\<close>, so each
  handler is modelled by the functions that run between two suspension points, and the local
  variables a suspended handler still needs are part of the state: \<open>completing\<close> holds the checkpoint
  of every suspended \<open>notify_checkpoint_aligned\<close> (the source's set of ids is its key set),
  \<open>persisting\<close> the snapshot of the handler that owns the persistence lock, \<open>expiring\<close> the ids
  the maintenance loop has still to expire, and \<open>aborting\<close> the checkpoints a rescale has detached and
  has still to fail. The progress lock is never held across an \<open>await\<close> and is
  therefore implicit. The answers of remote calls, of the file system and of external commits are
  arguments. Sets are duplicate-free lists. Reasons of skipped registrations are abbreviated; metrics,
  logging, the history of finished checkpoints and the compatibility branches for graphs without
  checkpoint domains' methods are left out. The checkpoint domains of the installed graph (a cached
  property) are stored when the graph is installed.
\<close>

subsection \<open>State\<close>

record snapshot_reference =
  ref_size_bytes :: int
  ref_checksum :: string
  inline_payload :: "nat list option"
  object_ref :: "nat option"

definition make_snapshot_reference ::
  "int \<Rightarrow> string \<Rightarrow> nat list option \<Rightarrow> nat option \<Rightarrow> snapshot_reference result" where
  "make_snapshot_reference n checksum payload ref =
     (if n < 0 then Inl ValueError
      else if checksum = [] then Inl ValueError
      else if (payload = None) = (ref = None) then Inl ValueError
      else Inr \<lparr>ref_size_bytes = n, ref_checksum = checksum, inline_payload = payload, object_ref = ref\<rparr>)"

record 's source_entry =
  src_task_key :: string
  src_checkpoint_id :: int
  src_state :: 's

definition make_source_entry :: "string \<Rightarrow> int \<Rightarrow> 's \<Rightarrow> 's source_entry result" where
  "make_source_entry k b s =
     (if k = [] then Inl ValueError else if b < 0 then Inl ValueError
      else Inr \<lparr>src_task_key = k, src_checkpoint_id = b, src_state = s\<rparr>)"

record operator_entry =
  oe_task_key :: string
  oe_uri :: string
  oe_checksum :: string
  oe_size_bytes :: int

definition make_operator_entry :: "string \<Rightarrow> string \<Rightarrow> string \<Rightarrow> int \<Rightarrow> operator_entry result" where
  "make_operator_entry k uri checksum n =
     (if k = [] then Inl ValueError else if uri = [] then Inl ValueError
      else if checksum = [] then Inl ValueError else if n < 0 then Inl ValueError
      else Inr \<lparr>oe_task_key = k, oe_uri = uri, oe_checksum = checksum, oe_size_bytes = n\<rparr>)"

text \<open>Where a suspended completion will resume.\<close>

datatype completion_phase = Collecting | Persisting | Closing

record ('c, 's) persist_snapshot =
  ps_target_revision :: int
  ps_state_revision :: int
  ps_high_water :: int
  ps_source_states :: "'s source_entry list"
  ps_live_operator_states :: "(string, snapshot_reference) dict"
  ps_restored_operator_states :: "(string, operator_entry) dict"
  ps_restore_path :: "string option"
  ps_sink_committables :: "'c sink_entry list"

record ('c, 's) coordinator =
  job_id :: string
  max_concurrent_checkpoints :: int
  checkpoint_timeout :: int
  metadata_revision :: int
  state_revision :: int
  persisted_state_revision :: int
  persisted_high_water :: int
  checkpoint_path :: "string option"
  latest_source_states :: "(string, 's source_entry) dict"
  durable_source_states :: "(string, 's source_entry) dict"
  notified_source_ids :: "(string, int) dict"
  released_source_ids :: "(string, int) dict"
  latest_operator_states :: "(string, snapshot_reference) dict"
  restored_operator_states :: "(string, operator_entry) dict"
  inflight_operator_states :: "(int, (string, snapshot_reference) dict) dict"
  pending_sinks :: "(sink_identity, 'c sink_entry) dict"
  durable_sinks :: "(sink_identity, 'c sink_entry) dict"
  inflight_sinks :: "(int, (string, 'c sink_entry) dict) dict"
  carried_sinks :: "(string option, (sink_identity, 'c sink_entry) dict) dict"
  c_graph :: "egraph option"
  c_domains :: "checkpoint_domain list"
  required_acks :: "(vertex_id, int) dict"
  inflight_checkpoints :: "(int, checkpoint) dict"
  pending_releases :: "(int, vertex_id list) dict"
  active_by_domain :: "(string, int) dict"
  finished_sources :: "vertex_id list"
  completing :: "(int, checkpoint \<times> completion_phase) dict"
  barrier_gen :: barrier_id_generator
  epoch_floor :: int
  opened :: bool
  stopping :: bool
  persisting :: "('c, 's) persist_snapshot option"
  expiring :: "int list"
  aborting :: "checkpoint list"
  rescale_operation_id :: "string option"
  recovery_fence :: "string option"
  recovery_sources :: "vertex_id list"
  recovery_sinks :: "vertex_id list"
  recovery_required_revision :: "int option"
  coordinated_barrier :: "int option"
  coordinated_registered :: "vertex_id list"
  transient_rescale_states :: "(string \<times> int, snapshot_reference list) dict"
  superseded_rescale_operations :: "(string \<times> int) list"

subsection \<open>Looking at the graph\<close>

definition find_vertex :: "('c, 's) coordinator \<Rightarrow> vertex_id \<Rightarrow> execution_vertex option" where
  "find_vertex c v = (case c_graph c of None \<Rightarrow> None | Some g \<Rightarrow> find_execution_vertex g v)"

definition task_of :: "('c, 's) coordinator \<Rightarrow> vertex_id \<Rightarrow> nat option" where
  "task_of c v = (case find_vertex c v of None \<Rightarrow> None | Some x \<Rightarrow> stream_task x)"

definition checkpoint_domain_for_source :: "('c, 's) coordinator \<Rightarrow> vertex_id \<Rightarrow> checkpoint_domain option" where
  "checkpoint_domain_for_source c v =
     (case c_graph c of None \<Rightarrow> None | Some _ \<Rightarrow> find_checkpoint_domain (c_domains c) v)"

function reach_loop :: "('a, 'a list) dict \<Rightarrow> 'a set \<Rightarrow> 'a list \<Rightarrow> 'a set" where
  "reach_loop adj seen [] = seen"
| "reach_loop adj seen (v # stack) =
     (if v \<in> seen then reach_loop adj seen stack
      else reach_loop adj (insert v seen) (rev (dict_get adj v []) @ stack))"
  by pat_completeness auto

termination
proof (relation "measures [\<lambda>(adj, seen, _). card (set (keys adj) - seen), \<lambda>(_, _, stack). length stack]")
  fix adj :: "('a, 'a list) dict" and seen stack and v :: 'a
  assume v: "v \<notin> seen"
  show "((adj, insert v seen, rev (dict_get adj v []) @ stack), adj, seen, v # stack)
      \<in> measures [\<lambda>(adj, seen, _). card (set (keys adj) - seen), \<lambda>(_, _, stack). length stack]"
  proof (cases "v \<in> set (keys adj)")
    case True
    then have "set (keys adj) - insert v seen \<subset> set (keys adj) - seen" using v by blast
    then have "card (set (keys adj) - insert v seen) < card (set (keys adj) - seen)"
      by (rule psubset_card_mono [rotated]) simp
    then show ?thesis by simp
  next
    case False
    then have "map_of adj v = None" by (simp add: map_of_None_keys)
    moreover have "set (keys adj) - insert v seen = set (keys adj) - seen" using False by blast
    ultimately show ?thesis by (simp add: dict_get_def)
  qed
qed auto

definition domain_adjacency :: "egraph \<Rightarrow> checkpoint_domain \<Rightarrow> (vertex_id, vertex_id list) dict" where
  "domain_adjacency g d =
     map (\<lambda>v. (v, map snd (filter (\<lambda>(s, t). s = v \<and> t \<in> set (domain_vertices d))
                             (concat (map execution_edges (job_edges g))))))
       (domain_vertices d)"

definition reachable_domain_sinks ::
  "('c, 's) coordinator \<Rightarrow> checkpoint_domain \<Rightarrow> vertex_id list \<Rightarrow> vertex_id list" where
  "reachable_domain_sinks c d srcs =
     (case c_graph c of
        None \<Rightarrow> []
      | Some g \<Rightarrow>
          sort_key vertex_key
            (filter (\<lambda>v. v \<in> reach_loop (domain_adjacency g d) {} (rev srcs)) (remdups (domain_sinks d))))"

definition boundary_vertex_ids :: "(string \<Rightarrow> string) \<Rightarrow> egraph option \<Rightarrow> int list \<Rightarrow> bool \<Rightarrow> vertex_id list result" where
  "boundary_vertex_ids sha256_hex graph targets sources =
     (case graph of
        None \<Rightarrow> Inr []
      | Some g \<Rightarrow>
          let candidates = remdups (map ev_id (subtasks_of g (if sources then source_job_vertices g else sink_job_vertices g)))
          in if targets = [] then Inr candidates
             else rbind (rmap (checkpoint_domains_for_job_vertex sha256_hex g) targets) (\<lambda>dss.
                    let ds = concat dss
                    in Inr (if ds = [] then candidates
                            else remdups (concat (map (if sources then domain_sources else domain_sinks) ds)))))"

subsection \<open>Releasing\<close>

definition release_domain_slot :: "checkpoint \<Rightarrow> ('c, 's) coordinator \<Rightarrow> ('c, 's) coordinator" where
  "release_domain_slot cp c =
     (case cp_domain_id cp of
        None \<Rightarrow> c
      | Some d \<Rightarrow> if map_of (active_by_domain c) d = Some (cp_barrier_id cp)
                  then c\<lparr>active_by_domain := AList.delete d (active_by_domain c)\<rparr> else c)"

text \<open>
  \<open>_release_checkpoint_sources\<close> up to its await, and what follows a successful attempt. The attempt
  asks each source (a source without a task counts as released, an unknown one does not) and every
  live task; \<open>rpc\<close> says which remote calls succeeded.
\<close>

definition begin_release :: "int \<Rightarrow> vertex_id list \<Rightarrow> ('c, 's) coordinator \<Rightarrow> ('c, 's) coordinator" where
  "begin_release b srcs c = c\<lparr>pending_releases := AList.update b srcs (pending_releases c)\<rparr>"

definition release_source_inflight :: "(nat \<Rightarrow> bool) \<Rightarrow> vertex_id \<Rightarrow> ('c, 's) coordinator \<Rightarrow> bool" where
  "release_source_inflight rpc v c =
     (case c_graph c of
        None \<Rightarrow> True
      | Some g \<Rightarrow>
          (case g_execution_vertex g v of
             Inl _ \<Rightarrow> False
           | Inr x \<Rightarrow> (case stream_task x of None \<Rightarrow> True | Some t \<Rightarrow> rpc t)))"

definition discard_checkpoint_alignment :: "(nat \<Rightarrow> bool) \<Rightarrow> ('c, 's) coordinator \<Rightarrow> bool" where
  "discard_checkpoint_alignment rpc c =
     (case c_graph c of
        None \<Rightarrow> True
      | Some g \<Rightarrow> \<forall>x \<in> set (all_execution_vertices g). case stream_task x of None \<Rightarrow> True | Some t \<Rightarrow> rpc t)"

definition attempt_checkpoint_release :: "(nat \<Rightarrow> bool) \<Rightarrow> vertex_id list \<Rightarrow> ('c, 's) coordinator \<Rightarrow> bool" where
  "attempt_checkpoint_release rpc srcs c \<longleftrightarrow>
     (\<forall>v \<in> set srcs. release_source_inflight rpc v c) \<and> discard_checkpoint_alignment rpc c"

definition finish_checkpoint_release :: "int \<Rightarrow> ('c, 's) coordinator \<Rightarrow> ('c, 's) coordinator" where
  "finish_checkpoint_release b c =
     (let c1 = c\<lparr>pending_releases := AList.delete b (pending_releases c)\<rparr>
      in if coordinated_barrier c1 = Some b
         then c1\<lparr>coordinated_barrier := None, coordinated_registered := []\<rparr> else c1)"

definition retry_release :: "(nat \<Rightarrow> bool) \<Rightarrow> int \<Rightarrow> ('c, 's) coordinator \<Rightarrow> ('c, 's) coordinator" where
  "retry_release rpc b c =
     (case map_of (pending_releases c) b of
        None \<Rightarrow> c
      | Some srcs \<Rightarrow> if attempt_checkpoint_release rpc srcs c then finish_checkpoint_release b c else c)"

subsection \<open>Registration\<close>

definition track_checkpoint :: "int \<Rightarrow> checkpoint \<Rightarrow> ('c, 's) coordinator \<Rightarrow> ('c, 's) coordinator" where
  "track_checkpoint now cp c =
     c\<lparr>inflight_checkpoints := AList.update (cp_barrier_id cp) (mark_in_progress now cp) (inflight_checkpoints c)\<rparr>"

definition activate_checkpoint_domain :: "checkpoint \<Rightarrow> ('c, 's) coordinator \<Rightarrow> ('c, 's) coordinator" where
  "activate_checkpoint_domain cp c =
     (case cp_domain_id cp of
        None \<Rightarrow> c
      | Some d \<Rightarrow> c\<lparr>active_by_domain := AList.update d (cp_barrier_id cp) (active_by_domain c)\<rparr>)"

text \<open>The sources whose task is asked to emit the barrier.\<close>

definition request_domain_sources :: "checkpoint \<Rightarrow> vertex_id \<Rightarrow> ('c, 's) coordinator \<Rightarrow> (vertex_id \<times> int) list" where
  "request_domain_sources cp requester c =
     map (\<lambda>v. (v, cp_barrier_id cp)) (filter (\<lambda>v. v \<noteq> requester \<and> task_of c v \<noteq> None) (trigger_sources cp))"

text \<open>Domain, sources, committers and number of acknowledgements a source's checkpoint would have.\<close>

definition admission_plan ::
  "vertex_id \<Rightarrow> ('c, 's) coordinator \<Rightarrow> (string \<times> vertex_id list \<times> vertex_id list \<times> int) option" where
  "admission_plan v c =
     (case checkpoint_domain_for_source c v of
        None \<Rightarrow> Some (''legacy-source-'' @ show_int (job_vertex_id v) @ ''-'' @ show_int (vertex_index v),
                      [v], [], dict_get (required_acks c) v 0)
      | Some d \<Rightarrow>
          let srcs = filter (\<lambda>s. s \<notin> set (finished_sources c)) (domain_sources d);
              committers = reachable_domain_sinks c d srcs
          in if v \<notin> set srcs then None
             else Some (domain_id d, srcs, committers, int (length committers)))"

definition pending_stabilization_sinks :: "('c, 's) coordinator \<Rightarrow> egraph \<Rightarrow> vertex_id list" where
  "pending_stabilization_sinks c g =
     (if recovery_sinks c \<noteq> [] then recovery_sinks c
      else remdups (map ev_id (subtasks_of g (sink_job_vertices g))))"

definition stabilization_checkpoint :: "int \<Rightarrow> vertex_id list \<Rightarrow> ('c, 's) coordinator \<Rightarrow> checkpoint" where
  "stabilization_checkpoint b sinks c =
     (let sources = sort_key vertex_key (remdups (recovery_sources c));
          committers = sort_key vertex_key (remdups sinks);
          ids = remdups (map domain_id (List.map_filter (checkpoint_domain_for_source c) sources))
      in make_checkpoint b (int (length committers)) sources True
           (case ids of [d] \<Rightarrow> Some d | _ \<Rightarrow> None) committers)"

definition open_stabilization ::
  "int \<Rightarrow> ('c, 's) coordinator \<Rightarrow> int option \<times> ('c, 's) coordinator" where
  "open_stabilization now c =
     (case c_graph c of
        None \<Rightarrow> (None, c)
      | Some g \<Rightarrow>
          let sinks = pending_stabilization_sinks c g
          in if sinks = [] then (None, c)
             else
               let (b, gen) = next_id (barrier_gen c);
                   cp = stabilization_checkpoint b sinks c;
                   c1 = activate_checkpoint_domain cp (track_checkpoint now cp (c\<lparr>barrier_gen := gen\<rparr>))
               in (Some b, c1\<lparr>coordinated_barrier := Some b\<rparr>))"

definition stabilization_closed :: "int \<Rightarrow> ('c, 's) coordinator \<Rightarrow> bool" where
  "stabilization_closed b c \<longleftrightarrow>
     map_of (inflight_checkpoints c) b = None \<and> map_of (completing c) b = None"

definition register_rescale_stabilization_checkpoint ::
  "int \<Rightarrow> vertex_id \<Rightarrow> ('c, 's) coordinator \<Rightarrow> checkpoint_registration \<times> ('c, 's) coordinator" where
  "register_rescale_stabilization_checkpoint now v c =
     (if v \<notin> set (recovery_sources c) then (registration_skip ''not part of the stabilization epoch'', c)
      else if (case coordinated_barrier c of None \<Rightarrow> False | Some b \<Rightarrow> map_of (pending_releases c) b \<noteq> None)
      then (registration_skip ''awaiting abort cleanup'', c)
      else
        let closed = (case coordinated_barrier c of None \<Rightarrow> False | Some b \<Rightarrow> stabilization_closed b c)
        in if closed \<and> (case recovery_required_revision c of
                          None \<Rightarrow> False | Some r \<Rightarrow> persisted_state_revision c \<ge> r)
           then (registration_skip ''durable and awaiting source release'', c)
           else
             let c1 = (if closed then c\<lparr>coordinated_barrier := None, coordinated_registered := []\<rparr> else c)
             in if v \<in> set (coordinated_registered c1) then (registration_skip ''already joined'', c1)
                else
                  let (bo, c2) = (case coordinated_barrier c1 of
                                    Some b \<Rightarrow> (Some b, c1) | None \<Rightarrow> open_stabilization now c1)
                  in case bo of
                       None \<Rightarrow> (registration_skip ''no graph or no sink'', c2)
                     | Some b \<Rightarrow>
                         (registration_success b True,
                          c2\<lparr>coordinated_registered := List.insert v (coordinated_registered c2)\<rparr>))"

definition admit_checkpoint ::
  "int \<Rightarrow> vertex_id \<Rightarrow> string \<times> vertex_id list \<times> vertex_id list \<times> int \<Rightarrow> ('c, 's) coordinator \<Rightarrow>
   checkpoint_registration result \<times> (vertex_id \<times> int) list \<times> ('c, 's) coordinator" where
  "admit_checkpoint now v plan c =
     (case plan of (did, srcs, committers, required) \<Rightarrow>
        let (b, gen) = next_id (barrier_gen c);
            c1 = c\<lparr>barrier_gen := gen\<rparr>
        in case c_graph c1 of
             None \<Rightarrow> (Inl AttributeError, [], c1)
           | Some g \<Rightarrow>
               (case g_execution_vertex g v of
                  Inl e \<Rightarrow> (Inl e, [], c1)
                | Inr _ \<Rightarrow>
                    let cp = make_checkpoint b required srcs False (Some did) committers;
                        c2 = track_checkpoint now cp c1;
                        c3 = c2\<lparr>active_by_domain := AList.update did b (active_by_domain c2)\<rparr>
                    in (Inr (registration_success b False), request_domain_sources cp v c3, c3)))"

definition register_checkpoint ::
  "int \<Rightarrow> bool \<Rightarrow> vertex_id \<Rightarrow> ('c, 's) coordinator \<Rightarrow>
   checkpoint_registration result \<times> (vertex_id \<times> int) list \<times> ('c, 's) coordinator" where
  "register_checkpoint now force v c =
     (if rescale_operation_id c \<noteq> None then (Inr (registration_skip ''paused for operator rescale''), [], c)
      else if recovery_fence c \<noteq> None
      then let (r, c') = register_rescale_stabilization_checkpoint now v c in (Inr r, [], c')
      else
        (case admission_plan v c of
           None \<Rightarrow> (Inr (registration_skip ''source is already finished''), [], c)
         | Some (did, srcs, committers, required) \<Rightarrow>
             (case map_of (active_by_domain c) did of
                Some b \<Rightarrow>
                  (Inr (case map_of (inflight_checkpoints c) b of
                          Some active \<Rightarrow>
                            if v \<notin> set (started_sources active) then registration_success b False
                            else registration_skip ''already active''
                        | None \<Rightarrow> registration_skip ''already active''), [], c)
              | None \<Rightarrow>
                  if required \<le> 0 then (Inr (registration_skip ''no checkpointable sink path''), [], c)
                  else if \<not> force \<and> int (length (inflight_checkpoints c)) \<ge> max_concurrent_checkpoints c
                  then (Inr (registration_skip ''concurrent checkpoint limit''), [], c)
                  else admit_checkpoint now v (did, srcs, committers, required) c)))"

subsection \<open>Reports of tasks\<close>

definition update_checkpoint :: "int \<Rightarrow> checkpoint \<Rightarrow> ('c, 's) coordinator \<Rightarrow> ('c, 's) coordinator" where
  "update_checkpoint b cp c = c\<lparr>inflight_checkpoints := AList.update b cp (inflight_checkpoints c)\<rparr>"

definition source_checkpoint_started ::
  "int \<Rightarrow> vertex_id \<Rightarrow> bool \<Rightarrow> ('c, 's) coordinator \<Rightarrow> bool \<times> ('c, 's) coordinator" where
  "source_checkpoint_started b v eof c =
     (case map_of (inflight_checkpoints c) b of
        None \<Rightarrow> (False, c)
      | Some cp \<Rightarrow>
          if is_terminal_status (status cp) then (False, c)
          else let (joined, cp') = mark_source_started v eof cp in (joined, update_checkpoint b cp' c))"

definition register_operator_state ::
  "int \<Rightarrow> vertex_id \<Rightarrow> snapshot_reference \<Rightarrow> ('c, 's) coordinator \<Rightarrow> bool result \<times> ('c, 's) coordinator" where
  "register_operator_state b v ref c =
     (if map_of (inflight_checkpoints c) b = None then (Inr False, c)
      else
        let states = dict_get (inflight_operator_states c) b [];
            c1 = c\<lparr>inflight_operator_states := dict_setdefault b [] (inflight_operator_states c)\<rparr>
        in if (case map_of states (task_key_of v) of None \<Rightarrow> False | Some old \<Rightarrow> ref_checksum old \<noteq> ref_checksum ref)
           then (Inl ValueError, c1)
           else (Inr True, c1\<lparr>inflight_operator_states :=
                   AList.update b (AList.update (task_key_of v) ref states) (inflight_operator_states c1)\<rparr>))"

definition allowed_checkpoint_metrics :: "string list" where
  "allowed_checkpoint_metrics =
     [''alignment_duration_ms'', ''barrier_latency_ms'', ''state_size_bytes'', ''rows_in'', ''rows_out'',
      ''backpressure_events'', ''backpressure_duration_ms'']"

definition normalize_metrics :: "(string, pyobj) dict \<Rightarrow> (string, rat) dict" where
  "normalize_metrics ms =
     List.map_filter (\<lambda>(k, x). if k \<notin> set allowed_checkpoint_metrics then None
                               else case as_real x of Inl _ \<Rightarrow> None | Inr q \<Rightarrow> Some (k, max 0 q)) ms"

definition register_operator_checkpoint_metrics ::
  "int \<Rightarrow> vertex_id \<Rightarrow> (string, pyobj) dict \<Rightarrow> ('c, 's) coordinator \<Rightarrow> bool \<times> ('c, 's) coordinator" where
  "register_operator_checkpoint_metrics b v ms c =
     (case map_of (inflight_checkpoints c) b of
        None \<Rightarrow> (False, c)
      | Some cp \<Rightarrow>
          if is_terminal_status (status cp) then (False, c)
          else (True, update_checkpoint b (record_operator_metrics v (normalize_metrics ms) cp) c))"

definition register_sink_committable ::
  "'c sink_api \<Rightarrow> int \<Rightarrow> vertex_id \<Rightarrow> 'c \<Rightarrow> ('c, 's) coordinator \<Rightarrow> bool result \<times> ('c, 's) coordinator" where
  "register_sink_committable api b v x c =
     (case map_of (inflight_checkpoints c) b of
        None \<Rightarrow> (Inr False, c)
      | Some cp \<Rightarrow>
          if is_terminal_status (status cp) then (Inr False, c)
          else if required_committers cp \<noteq> [] \<and> v \<notin> set (required_committers cp) then (Inr False, c)
          else
            (case make_sink_entry api (task_key_of v) b x of
               Inl e \<Rightarrow> (Inl e, c)
             | Inr entry \<Rightarrow>
                 let entries = dict_get (inflight_sinks c) b [];
                     c1 = c\<lparr>inflight_sinks := dict_setdefault b [] (inflight_sinks c)\<rparr>
                 in if (case map_of entries (task_key_of v) of
                          None \<Rightarrow> False
                        | Some old \<Rightarrow> transaction_id api (se_committable old) \<noteq> transaction_id api x)
                    then (Inl ValueError, c1)
                    else (Inr True, c1\<lparr>inflight_sinks :=
                            AList.update b (AList.update (task_key_of v) entry entries) (inflight_sinks c1)\<rparr>)))"

end
