(* ===== verification/CoordinatorCommit.thy ===== *)
theory CoordinatorCommit
  imports Coordinator
begin

section \<open>Completing, failing and persisting checkpoints (checkpoint_coordinator.py)\<close>

text \<open>
  The handlers that move a checkpoint from its last acknowledgement to durable metadata: collecting
  the positions of its sources, merging them with operator states and sink transactions, writing the
  manifest, committing the sink transactions it lists, notifying the sources, and the failure paths,
  which keep prepared sink transactions for the next successful cut of their domain. Task keys are
  always written by \<open>task_key_of\<close>, so comparing the decimal text of a logical operator id is the same
  as comparing the parsed number.
\<close>

subsection \<open>Sink transactions of failed epochs\<close>

definition carry_inflight_sink_committables ::
  "'c sink_api \<Rightarrow> checkpoint \<Rightarrow> ('c, 's) coordinator \<Rightarrow> ('c, 's) coordinator" where
  "carry_inflight_sink_committables api cp c =
     (let entries = dict_get (inflight_sinks c) (cp_barrier_id cp) [];
          c1 = c\<lparr>inflight_sinks := AList.delete (cp_barrier_id cp) (inflight_sinks c)\<rparr>
      in if entries = [] then c1
         else c1\<lparr>carried_sinks :=
                AList.update (cp_domain_id cp)
                  (fold (add_identified api) (map snd entries) (dict_get (carried_sinks c1) (cp_domain_id cp) []))
                  (carried_sinks c1)\<rparr>)"

definition carried_domains_for_checkpoint :: "checkpoint \<Rightarrow> ('c, 's) coordinator \<Rightarrow> string option list" where
  "carried_domains_for_checkpoint cp c =
     (if \<not> cp_coordinated cp then [cp_domain_id cp]
      else case c_graph c of
        None \<Rightarrow> (case cp_domain_id cp of None \<Rightarrow> [None] | Some d \<Rightarrow> [None, Some d])
      | Some _ \<Rightarrow>
          let ids = map domain_id (List.map_filter (checkpoint_domain_for_source c) (trigger_sources cp));
              ids' = (case cp_domain_id cp of None \<Rightarrow> ids | Some d \<Rightarrow> d # ids)
          in None # map Some (sort (remdups ids')))"

definition read_nat :: "string \<Rightarrow> nat option" where
  "read_nat s =
     (if s = [] \<or> (\<exists>c \<in> set s. (of_char c :: nat) \<notin> {48..57}) then None
      else Some (foldl (\<lambda>n c. 10 * n + (of_char c - 48)) 0 s))"

definition read_int :: "string \<Rightarrow> int option" where
  "read_int s =
     (case s of
        [] \<Rightarrow> None
      | c # ds \<Rightarrow> if c = CHR ''-'' then map_option (\<lambda>n. - int n) (read_nat ds) else map_option int (read_nat s))"

definition parse_task_key :: "string \<Rightarrow> vertex_id option" where
  "parse_task_key k =
     (case dropWhile (\<lambda>c. c \<noteq> CHR '':'') k of
        [] \<Rightarrow> None
      | _ # i \<Rightarrow>
          (case (read_int (logical_part k), read_int i) of
             (Some j, Some n) \<Rightarrow> Some \<lparr>job_vertex_id = j, vertex_index = n\<rparr>
           | _ \<Rightarrow> None))"

text \<open>
  The domain an entry belongs to after a topology change: that of its task if the task still exists,
  the conservative bucket \<open>None\<close> if it does not, and the previous one if the key is not a task key.
  \<open>int(...)\<close> is only applied to decimal texts here.
\<close>

definition remapped_domain :: "checkpoint_domain list \<Rightarrow> string option \<Rightarrow> 'c sink_entry \<Rightarrow> string option" where
  "remapped_domain ds previous e =
     (case parse_task_key (se_task_key e) of
        None \<Rightarrow> previous
      | Some v \<Rightarrow> map_option domain_id (find_checkpoint_domain ds v))"

definition remap_entry ::
  "checkpoint_domain list \<Rightarrow> string option \<times> sink_identity \<times> 'c sink_entry \<Rightarrow>
   (string option, (sink_identity, 'c sink_entry) dict) dict \<Rightarrow>
   (string option, (sink_identity, 'c sink_entry) dict) dict" where
  "remap_entry ds x acc =
     (case x of (previous, i, e) \<Rightarrow>
        let d = remapped_domain ds previous e
        in AList.update d (AList.update i e (dict_get acc d [])) acc)"

definition remap_carried_sink_domains ::
  "checkpoint_domain list \<Rightarrow> ('c, 's) coordinator \<Rightarrow> ('c, 's) coordinator" where
  "remap_carried_sink_domains ds c =
     c\<lparr>carried_sinks :=
         fold (remap_entry ds)
           (concat (map (\<lambda>(d, es). map (\<lambda>(i, e). (d, i, e)) es) (carried_sinks c))) []\<rparr>"

subsection \<open>Source and operator states\<close>

definition update_latest_source_state :: "'s source_entry \<Rightarrow> ('c, 's) coordinator \<Rightarrow> ('c, 's) coordinator" where
  "update_latest_source_state e c =
     (if (case map_of (latest_source_states c) (src_task_key e) of
            None \<Rightarrow> True | Some old \<Rightarrow> src_checkpoint_id e > src_checkpoint_id old)
      then c\<lparr>latest_source_states := AList.update (src_task_key e) e (latest_source_states c),
             state_revision := state_revision c + 1\<rparr>
      else c)"

definition update_states :: "('k, 'v) dict \<Rightarrow> ('k, 'v) dict \<Rightarrow> ('k, 'v) dict" where
  "update_states new d = fold (\<lambda>(k, v). AList.update k v) new d"

definition of_operator :: "string set \<Rightarrow> string \<Rightarrow> bool" where
  "of_operator ids k \<longleftrightarrow> CHR '':'' \<in> set k \<and> logical_part k \<in> ids"

definition merge_checkpoint_operator_states ::
  "(string, snapshot_reference) dict \<Rightarrow> ('c, 's) coordinator \<Rightarrow> ('c, 's) coordinator" where
  "merge_checkpoint_operator_states states c =
     (let c1 = c\<lparr>latest_operator_states := update_states states (latest_operator_states c)\<rparr>
      in if states \<noteq> [] then c1\<lparr>state_revision := state_revision c1 + 1\<rparr> else c1)"

definition replace_logical_operator_states ::
  "(string, snapshot_reference) dict \<Rightarrow> ('c, 's) coordinator \<Rightarrow> ('c, 's) coordinator" where
  "replace_logical_operator_states states c =
     (let ids = logical_part ` set (keys states);
          gone = filter (\<lambda>key. show_int (snd key) \<in> ids) (keys (transient_rescale_states c));
          c1 = c\<lparr>latest_operator_states :=
                   update_states states (filter (\<lambda>(k, _). \<not> of_operator ids k) (latest_operator_states c)),
                 restored_operator_states := filter (\<lambda>(k, _). \<not> of_operator ids k) (restored_operator_states c),
                 superseded_rescale_operations := List.union (superseded_rescale_operations c) gone,
                 transient_rescale_states :=
                   filter (\<lambda>(key, _). show_int (snd key) \<notin> ids) (transient_rescale_states c)\<rparr>
      in if states \<noteq> [] then c1\<lparr>state_revision := state_revision c1 + 1\<rparr> else c1)"

definition live_task_keys :: "('c, 's) coordinator \<Rightarrow> int \<Rightarrow> string set" where
  "live_task_keys c j =
     (case c_graph c of
        None \<Rightarrow> {}
      | Some g \<Rightarrow>
          (case map_of (job_vertices g) j of
             None \<Rightarrow> {}
           | Some jv \<Rightarrow> (\<lambda>x. show_int j @ '':'' @ show_int (vertex_index (ev_id x))) ` set (map snd (execution_vertices jv))))"

definition stale_operator_key :: "int list \<Rightarrow> ('c, 's) coordinator \<Rightarrow> string \<Rightarrow> bool" where
  "stale_operator_key js c k \<longleftrightarrow> (\<exists>j \<in> set js. of_operator {show_int j} k \<and> k \<notin> live_task_keys c j)"

definition finalize_rescale_operator_states :: "string \<Rightarrow> ('c, 's) coordinator \<Rightarrow> ('c, 's) coordinator" where
  "finalize_rescale_operator_states operation c =
     (let gone = filter (\<lambda>key. fst key = operation) (keys (transient_rescale_states c));
          js = map snd gone;
          stale = stale_operator_key js c;
          changed = (\<exists>k \<in> set (keys (latest_operator_states c)) \<union> set (keys (restored_operator_states c)). stale k);
          c1 = c\<lparr>latest_operator_states := filter (\<lambda>(k, _). \<not> stale k) (latest_operator_states c),
                 restored_operator_states := filter (\<lambda>(k, _). \<not> stale k) (restored_operator_states c),
                 superseded_rescale_operations := List.union (superseded_rescale_operations c) gone,
                 transient_rescale_states :=
                   filter (\<lambda>(key, _). fst key \<noteq> operation) (transient_rescale_states c)\<rparr>
      in if changed then c1\<lparr>state_revision := state_revision c1 + 1\<rparr> else c1)"

definition record_rescale_stabilization_progress ::
  "checkpoint \<Rightarrow> ('c, 's) coordinator \<Rightarrow> bool \<times> ('c, 's) coordinator" where
  "record_rescale_stabilization_progress cp c =
     (case recovery_fence c of
        None \<Rightarrow> (False, c)
      | Some operation \<Rightarrow>
          if \<not> cp_coordinated cp \<or> Some (cp_barrier_id cp) \<noteq> coordinated_barrier c then (False, c)
          else if set (trigger_sources cp) \<noteq> set (recovery_sources c) then (False, c)
          else
            let c1 = finalize_rescale_operator_states operation c
            in if \<exists>key \<in> set (keys (transient_rescale_states c1)). fst key = operation then (False, c1)
               else (True, c1\<lparr>recovery_required_revision := Some (state_revision c1)\<rparr>))"

definition clear_rescale_recovery_fence_if_durable :: "('c, 's) coordinator \<Rightarrow> ('c, 's) coordinator" where
  "clear_rescale_recovery_fence_if_durable c =
     (case (recovery_fence c, recovery_required_revision c, coordinated_barrier c) of
        (Some _, Some r, Some b) \<Rightarrow>
          if persisted_state_revision c < r then c
          else if \<exists>v \<in> set (recovery_sources c). dict_get (released_source_ids c) (task_key_of v) (- 1) < b then c
          else c\<lparr>recovery_fence := None, recovery_sources := [], recovery_sinks := [],
                 recovery_required_revision := None, coordinated_barrier := None, coordinated_registered := []\<rparr>
      | _ \<Rightarrow> c)"

subsection \<open>From the last acknowledgement to completion\<close>

definition notify_checkpoint_aligned ::
  "int \<Rightarrow> int \<Rightarrow> vertex_id \<Rightarrow> ('c, 's) coordinator \<Rightarrow> bool option result \<times> ('c, 's) coordinator" where
  "notify_checkpoint_aligned now b v c =
     (if stopping c then (Inr (Some False), c)
      else case c_graph c of
        None \<Rightarrow> (Inl AttributeError, c)
      | Some g \<Rightarrow>
          (case g_execution_vertex g v of
             Inl e \<Rightarrow> (Inl e, c)
           | Inr _ \<Rightarrow>
               (case map_of (inflight_checkpoints c) b of
                  None \<Rightarrow> (Inr (Some False), c)
                | Some cp \<Rightarrow>
                    if is_terminal_status (status cp) then (Inr (Some False), c)
                    else if required_committers cp \<noteq> [] \<and> v \<notin> set (required_committers cp)
                    then (Inr (Some False), c)
                    else
                      let (ready, cp') = acknowledge_checkpoint now v cp
                      in if \<not> ready then (Inr (Some True), update_checkpoint b cp' c)
                         else (Inr None, c\<lparr>inflight_checkpoints := AList.delete b (inflight_checkpoints c),
                                           completing := AList.update b (cp', Collecting) (completing c)\<rparr>))))"

text \<open>
  What the sources answered: \<open>None\<close> stands for an exception or a refusal. All of them must have a
  task and answer.
\<close>

definition collect_domain_source_states ::
  "(vertex_id \<Rightarrow> 's option) \<Rightarrow> checkpoint \<Rightarrow> ('c, 's) coordinator \<Rightarrow> (vertex_id, 's) dict option" where
  "collect_domain_source_states answers cp c =
     (if \<exists>v \<in> set (trigger_sources cp). task_of c v = None then None
      else
        let states = fold (\<lambda>v d. case answers v of None \<Rightarrow> d | Some s \<Rightarrow> AList.update v s d) (trigger_sources cp) []
        in if length states = length (trigger_sources cp) then Some states else None)"

definition merge_completed_operator_states :: "checkpoint \<Rightarrow> ('c, 's) coordinator \<Rightarrow> ('c, 's) coordinator" where
  "merge_completed_operator_states cp c =
     (let states = dict_get (inflight_operator_states c) (cp_barrier_id cp) [];
          c1 = c\<lparr>inflight_operator_states := AList.delete (cp_barrier_id cp) (inflight_operator_states c)\<rparr>
      in if cp_coordinated cp then replace_logical_operator_states states c1
         else merge_checkpoint_operator_states states c1)"

definition absorb_sink_committables ::
  "'c sink_api \<Rightarrow> int \<Rightarrow> (string, 'c sink_entry) dict \<Rightarrow> (sink_identity, 'c sink_entry) dict \<Rightarrow>
   ('c, 's) coordinator \<Rightarrow> ('c, 's) coordinator" where
  "absorb_sink_committables api b completed carried c =
     c\<lparr>inflight_sinks := AList.delete b (inflight_sinks c),
       pending_sinks := fold (add_identified api) (map snd completed) (update_states carried (pending_sinks c)),
       state_revision := state_revision c + (if carried \<noteq> [] \<or> completed \<noteq> [] then 1 else 0)\<rparr>"

definition merge_aligned_checkpoint_progress ::
  "(string \<Rightarrow> string) \<Rightarrow> 'c sink_api \<Rightarrow> checkpoint \<Rightarrow> (vertex_id, 's) dict \<Rightarrow> ('c, 's) coordinator \<Rightarrow>
   (bool \<times> bool \<times> ('c, 's) coordinator) result" where
  "merge_aligned_checkpoint_progress sha256_hex api cp states c =
     (let b = cp_barrier_id cp;
          domains = carried_domains_for_checkpoint cp c;
          entries = concat (map (\<lambda>d. map snd (dict_get (carried_sinks c) d [])) domains)
      in
      rbind (coalesce_sink_committables sha256_hex api (job_id c) b (dict_get (inflight_sinks c) b [])) (\<lambda>completed.
      rbind (coalesce_carried_sink_committables sha256_hex api (job_id c) entries) (\<lambda>carried.
      rbind (rmap (\<lambda>(v, s). make_source_entry (task_key_of v) b s) states) (\<lambda>positions.
        let c1 = absorb_sink_committables api b completed carried
                   (merge_completed_operator_states cp (fold update_latest_source_state positions c));
            (ready, c2) = record_rescale_stabilization_progress cp c1
        in Inr (carried \<noteq> [] \<or> completed \<noteq> [], ready,
                c2\<lparr>carried_sinks := fold AList.delete domains (carried_sinks c2)\<rparr>)))))"

text \<open>The non-durable part of a failure: operator states are dropped, sink transactions carried over.\<close>

definition detach_failed :: "'c sink_api \<Rightarrow> checkpoint \<Rightarrow> ('c, 's) coordinator \<Rightarrow> ('c, 's) coordinator" where
  "detach_failed api cp c =
     begin_release (cp_barrier_id cp) (trigger_sources cp)
       (carry_inflight_sink_committables api cp
         (c\<lparr>inflight_operator_states := AList.delete (cp_barrier_id cp) (inflight_operator_states c)\<rparr>))"

definition set_phase :: "int \<Rightarrow> checkpoint \<Rightarrow> completion_phase \<Rightarrow> ('c, 's) coordinator \<Rightarrow> ('c, 's) coordinator" where
  "set_phase b cp ph c = c\<lparr>completing := AList.update b (cp, ph) (completing c)\<rparr>"

text \<open>The \<open>finally\<close> clause of \<open>notify_checkpoint_aligned\<close>.\<close>

definition close_completion :: "int \<Rightarrow> checkpoint \<Rightarrow> ('c, 's) coordinator \<Rightarrow> ('c, 's) coordinator" where
  "close_completion b cp c =
     (let c1 = release_domain_slot cp c in c1\<lparr>completing := AList.delete b (completing c1)\<rparr>)"

definition finish_completion :: "int \<Rightarrow> checkpoint \<Rightarrow> ('c, 's) coordinator \<Rightarrow> ('c, 's) coordinator" where
  "finish_completion b cp c =
     close_completion b cp (c\<lparr>finished_sources := List.union (finished_sources c) (eof_sources cp)\<rparr>)"

text \<open>\<open>_complete_aligned_checkpoint\<close> resumed with the sources' answers.\<close>

definition complete_collected ::
  "(string \<Rightarrow> string) \<Rightarrow> 'c sink_api \<Rightarrow> int \<Rightarrow> (vertex_id \<Rightarrow> 's option) \<Rightarrow> ('c, 's) coordinator \<Rightarrow> ('c, 's) coordinator" where
  "complete_collected sha256_hex api b answers c =
     (case map_of (completing c) b of
        Some (cp, Collecting) \<Rightarrow>
          (case collect_domain_source_states answers cp c of
             None \<Rightarrow> set_phase b cp Closing (detach_failed api cp c)
           | Some states \<Rightarrow>
               (case merge_aligned_checkpoint_progress sha256_hex api cp states c of
                  Inl _ \<Rightarrow> set_phase b cp Closing (detach_failed api cp c)
                | Inr (has, ready, c1) \<Rightarrow>
                    if has \<or> ready then set_phase b cp Persisting c1 else finish_completion b cp c1))
      | _ \<Rightarrow> c)"

text \<open>The strict write returned, or raised \<open>_CheckpointCommitError\<close>; then the failed epoch is closed.\<close>

definition complete_persisted :: "int \<Rightarrow> bool \<Rightarrow> ('c, 's) coordinator \<Rightarrow> ('c, 's) coordinator" where
  "complete_persisted b ok c =
     (case map_of (completing c) b of
        Some (cp, Persisting) \<Rightarrow>
          if ok then finish_completion b cp c
          else set_phase b cp Closing (begin_release b (trigger_sources cp) c)
      | _ \<Rightarrow> c)"

definition complete_closed :: "int \<Rightarrow> ('c, 's) coordinator \<Rightarrow> ('c, 's) coordinator" where
  "complete_closed b c =
     (case map_of (completing c) b of Some (cp, Closing) \<Rightarrow> close_completion b cp c | _ \<Rightarrow> c)"

subsection \<open>Persistence\<close>

definition operation_timeout :: "('c, 's) coordinator \<Rightarrow> rat" where
  "operation_timeout c = (if checkpoint_timeout c > 0 then of_int (checkpoint_timeout c) else 30)"

text \<open>
  One external commit succeeded; and the loop over the durable transactions, where \<open>ok\<close> says which
  external commits succeed. With \<open>strict\<close> the first failure raises.
\<close>

definition sink_committed :: "sink_identity \<Rightarrow> ('c, 's) coordinator \<Rightarrow> ('c, 's) coordinator" where
  "sink_committed i c =
     (let c1 = c\<lparr>durable_sinks := AList.delete i (durable_sinks c)\<rparr>
      in if map_of (pending_sinks c1) i \<noteq> None
         then c1\<lparr>pending_sinks := AList.delete i (pending_sinks c1), state_revision := state_revision c1 + 1\<rparr>
         else c1)"

fun commit_loop ::
  "(sink_identity \<Rightarrow> bool) \<Rightarrow> bool \<Rightarrow> sink_identity list \<Rightarrow> bool \<Rightarrow> ('c, 's) coordinator \<Rightarrow>
   bool result \<times> ('c, 's) coordinator" where
  "commit_loop ok strict [] all_committed c = (Inr all_committed, c)"
| "commit_loop ok strict (i # is) all_committed c =
     (if ok i then commit_loop ok strict is all_committed (sink_committed i c)
      else if strict then (Inl RuntimeError, c)
      else commit_loop ok strict is False c)"

definition commit_durable_sink_committables ::
  "(sink_identity \<Rightarrow> bool) \<Rightarrow> bool \<Rightarrow> ('c, 's) coordinator \<Rightarrow> bool result \<times> ('c, 's) coordinator" where
  "commit_durable_sink_committables ok strict c = commit_loop ok strict (keys (durable_sinks c)) True c"

text \<open>
  The answer of a source to the durability notice: the call failed, or it returned the outcome of the
  connector's callback.
\<close>

datatype notice_answer = NoticeFailed | NoticeReturned bool

definition notify_source ::
  "(nat \<Rightarrow> notice_answer) \<Rightarrow> execution_vertex \<Rightarrow> ('c, 's) coordinator \<Rightarrow> ('c, 's) coordinator" where
  "notify_source answers x c =
     (let k = task_key_of (ev_id x)
      in case map_of (durable_source_states c) k of
           None \<Rightarrow> c
         | Some e \<Rightarrow>
             if dict_get (notified_source_ids c) k (- 1) \<ge> src_checkpoint_id e \<and>
                dict_get (released_source_ids c) k (- 1) \<ge> src_checkpoint_id e then c
             else case stream_task x of
               None \<Rightarrow> c
             | Some t \<Rightarrow>
                 (case answers t of
                    NoticeFailed \<Rightarrow> c
                  | NoticeReturned succeeded \<Rightarrow>
                      let c1 = c\<lparr>released_source_ids := AList.update k (src_checkpoint_id e) (released_source_ids c)\<rparr>
                      in if succeeded
                         then c1\<lparr>notified_source_ids := AList.update k (src_checkpoint_id e) (notified_source_ids c1)\<rparr>
                         else c1))"

definition notify_durable_source_checkpoints ::
  "(nat \<Rightarrow> notice_answer) \<Rightarrow> ('c, 's) coordinator \<Rightarrow> ('c, 's) coordinator" where
  "notify_durable_source_checkpoints answers c =
     (case c_graph c of
        None \<Rightarrow> c
      | Some g \<Rightarrow>
          if durable_source_states c = [] then c
          else if durable_sinks c \<noteq> [] then c
          else fold (notify_source answers) (subtasks_of g (source_job_vertices g)) c)"

text \<open>
  \<open>_persist_checkpoint_metadata\<close> after the commits and notices that precede it: the snapshot under
  the progress lock (\<open>None\<close> if nothing changed since the last write), the effect of a successful
  write, and the release of the lock after a failed one.
\<close>

definition is_dirty :: "('c, 's) coordinator \<Rightarrow> bool" where
  "is_dirty c \<longleftrightarrow> state_revision c > persisted_state_revision c \<or> current_id (barrier_gen c) > persisted_high_water c"

definition take_persist_snapshot :: "('c, 's) coordinator \<Rightarrow> ('c, 's) persist_snapshot" where
  "take_persist_snapshot c =
     \<lparr>ps_target_revision = metadata_revision c + 1, ps_state_revision = state_revision c,
      ps_high_water = current_id (barrier_gen c), ps_source_states = map snd (latest_source_states c),
      ps_live_operator_states = latest_operator_states c,
      ps_restored_operator_states =
        filter (\<lambda>(k, _). k \<notin> set (keys (latest_operator_states c))) (restored_operator_states c),
      ps_restore_path = checkpoint_path c, ps_sink_committables = map snd (pending_sinks c)\<rparr>"

definition persist_begin :: "('c, 's) coordinator \<Rightarrow> ('c, 's) coordinator" where
  "persist_begin c =
     (if is_dirty c then c\<lparr>persisting := Some (take_persist_snapshot c)\<rparr>
      else clear_rescale_recovery_fence_if_durable c)"

definition persist_written ::
  "'c sink_api \<Rightarrow> string \<Rightarrow> (string, operator_entry) dict \<Rightarrow> ('c, 's) coordinator \<Rightarrow> ('c, 's) coordinator" where
  "persist_written api path restored c =
     (case persisting c of
        None \<Rightarrow> c
      | Some ps \<Rightarrow>
          c\<lparr>persisting := None, checkpoint_path := Some path, metadata_revision := ps_target_revision ps,
            persisted_state_revision := ps_state_revision ps, persisted_high_water := ps_high_water ps,
            durable_source_states := fold (\<lambda>e. AList.update (src_task_key e) e) (ps_source_states ps) [],
            durable_sinks := fold (add_identified api) (ps_sink_committables ps) [],
            restored_operator_states := restored\<rparr>)"

definition persist_failed :: "('c, 's) coordinator \<Rightarrow> ('c, 's) coordinator" where
  "persist_failed c = c\<lparr>persisting := None\<rparr>"

text \<open>The whole routine, run without interleaving. \<open>write\<close> gives the path and the operator entries
  of the new manifest, or \<open>None\<close> if materializing or writing it failed.\<close>

definition persist_checkpoint_metadata ::
  "'c sink_api \<Rightarrow> (sink_identity \<Rightarrow> bool) \<Rightarrow> (nat \<Rightarrow> notice_answer) \<Rightarrow>
   (('c, 's) persist_snapshot \<Rightarrow> (string \<times> (string, operator_entry) dict) option) \<Rightarrow> bool \<Rightarrow> bool \<Rightarrow>
   ('c, 's) coordinator \<Rightarrow> bool result \<times> ('c, 's) coordinator" where
  "persist_checkpoint_metadata api ok answers write notify strict c =
     (if stopping c then (Inr False, c)
      else
        (case commit_durable_sink_committables ok strict c of
           (Inl e, c1) \<Rightarrow> (Inl e, c1)
         | (Inr False, c1) \<Rightarrow> (Inr False, c1)
         | (Inr True, c1) \<Rightarrow>
             let c2 = (if notify then notify_durable_source_checkpoints answers c1 else c1);
                 c3 = persist_begin c2
             in case persisting c3 of
                  None \<Rightarrow> (Inr True, c3)
                | Some ps \<Rightarrow>
                    (case write ps of
                       None \<Rightarrow> (if strict then Inl RuntimeError else Inr False, persist_failed c3)
                     | Some (path, restored) \<Rightarrow>
                         (case commit_durable_sink_committables ok False (persist_written api path restored c3) of
                            (Inr True, c4) \<Rightarrow>
                              (Inr True, clear_rescale_recovery_fence_if_durable
                                 (if notify then notify_durable_source_checkpoints answers c4 else c4))
                          | (_, c4) \<Rightarrow> (Inr True, c4)))))"

end
