(* ===== verification/CoordinatorLifecycle.thy ===== *)
theory CoordinatorLifecycle
  imports CoordinatorCommit
begin

section \<open>Opening, expiry, operator rescale and teardown (checkpoint_coordinator.py)\<close>

text \<open>
  The handlers that are not part of a checkpoint's normal life. A wait that is not over is the result
  \<open>Inr None\<close>; the caller's deadline is the argument \<open>expired\<close>. What the storage layer returns on
  opening and the key-group partitions of a rescale snapshot are arguments.
\<close>

subsection \<open>Opening\<close>

definition validate_integer_option :: "pyobj \<Rightarrow> int \<Rightarrow> int result" where
  "validate_integer_option x minimum =
     rbind (as_int x) (\<lambda>i. if i < minimum then Inl ValueError else Inr i)"

text \<open>The constructor; the arguments after the job id are the checkpoint options in the order they are read.\<close>

definition make_coordinator ::
  "string \<Rightarrow> pyobj \<Rightarrow> pyobj \<Rightarrow> pyobj \<Rightarrow> pyobj \<Rightarrow> pyobj \<Rightarrow> pyobj \<Rightarrow> ('c, 's) coordinator result" where
  "make_coordinator job interval cache_min retained max_concurrent timeout history =
     rbind (validate_integer_option interval 0) (\<lambda>_.
     rbind (validate_integer_option cache_min 0) (\<lambda>_.
     rbind (validate_integer_option retained 1) (\<lambda>_.
     rbind (validate_integer_option max_concurrent 1) (\<lambda>m.
     rbind (validate_integer_option timeout 0) (\<lambda>t.
     rbind (validate_integer_option history 1) (\<lambda>_.
       Inr \<lparr>job_id = job, max_concurrent_checkpoints = m, checkpoint_timeout = t, metadata_revision = 0,
            state_revision = 0, persisted_state_revision = 0, persisted_high_water = 0, checkpoint_path = None,
            latest_source_states = [], durable_source_states = [], notified_source_ids = [],
            released_source_ids = [], latest_operator_states = [], restored_operator_states = [],
            inflight_operator_states = [], pending_sinks = [], durable_sinks = [], inflight_sinks = [],
            carried_sinks = [], c_graph = None, c_domains = [], required_acks = [],
            inflight_checkpoints = [], pending_releases = [], active_by_domain = [], finished_sources = [],
            completing = [], barrier_gen = make_generator, epoch_floor = 0, opened = False, stopping = False,
            persisting = None, expiring = [], aborting = [], rescale_operation_id = None,
            recovery_fence = None, recovery_sources = [], recovery_sinks = [],
            recovery_required_revision = None, coordinated_barrier = None, coordinated_registered = [],
            transient_rescale_states = [], superseded_rescale_operations = []\<rparr>))))))"

record ('c, 's) restored =
  rs_path :: "string option"
  rs_metadata_revision :: int
  rs_source_states :: "'s source_entry list"
  rs_high_water :: int
  rs_operator_states :: "(string, operator_entry) dict"
  rs_sink_committables :: "'c sink_entry list"

definition restore_vertices :: "egraph \<Rightarrow> execution_vertex list" where
  "restore_vertices g = filter (\<lambda>x. restore_operation_id x \<noteq> None) (all_execution_vertices g)"

definition recovery_operation :: "egraph \<Rightarrow> string option" where
  "recovery_operation g =
     (case sort (List.map_filter restore_operation_id (restore_vertices g)) of [] \<Rightarrow> None | x # _ \<Rightarrow> Some x)"

definition open_coordinator ::
  "(string \<Rightarrow> string) \<Rightarrow> 'c sink_api \<Rightarrow> (vertex_id, int) dict \<Rightarrow> ('c, 's) restored \<Rightarrow> egraph \<Rightarrow>
   ('c, 's) coordinator \<Rightarrow> ('c, 's) coordinator result" where
  "open_coordinator sha256_hex api acks r g c =
     (let fence = recovery_operation g;
          targets = remdups (map (\<lambda>x. job_vertex_id (ev_id x)) (restore_vertices g));
          boundary = (\<lambda>sources. if fence = None then Inr [] else boundary_vertex_ids sha256_hex (Some g) targets sources);
          gen = reseed (rs_high_water r) (barrier_gen c);
          sinks = fold (add_identified api) (rs_sink_committables r) [];
          sources = fold (\<lambda>e. AList.update (src_task_key e) e) (rs_source_states r) []
      in
      rbind (checkpoint_domains sha256_hex g) (\<lambda>ds.
      rbind (boundary True) (\<lambda>srcs.
      rbind (boundary False) (\<lambda>snks.
        Inr (c\<lparr>rescale_operation_id := None, transient_rescale_states := [], superseded_rescale_operations := [],
               recovery_fence := fence, recovery_sources := srcs, recovery_sinks := snks,
               recovery_required_revision := None, coordinated_barrier := None, coordinated_registered := [],
               checkpoint_path := rs_path r, c_graph := Some g, c_domains := ds, required_acks := acks,
               metadata_revision := rs_metadata_revision r, latest_source_states := sources,
               durable_source_states := sources, notified_source_ids := [], released_source_ids := [],
               latest_operator_states := [], restored_operator_states := rs_operator_states r,
               pending_sinks := sinks, durable_sinks := sinks, inflight_sinks := [], carried_sinks := [],
               inflight_operator_states := [], inflight_checkpoints := [], pending_releases := [],
               active_by_domain := [],
               finished_sources :=
                 remdups (map ev_id (filter (\<lambda>x. ev_status x = V_FINISHED) (subtasks_of g (source_job_vertices g)))),
               completing := [], state_revision := 0, persisted_state_revision := 0,
               barrier_gen := gen, persisted_high_water := rs_high_water r, epoch_floor := current_id gen,
               opened := True\<rparr>)))))"

subsection \<open>Expiry of checkpoints that never align\<close>

definition stale_checkpoints :: "int \<Rightarrow> ('c, 's) coordinator \<Rightarrow> int list" where
  "stale_checkpoints now c =
     (if checkpoint_timeout c \<le> 0 then []
      else map fst (filter (\<lambda>(_, cp). case triggered_at_ms cp of
                                        None \<Rightarrow> False | Some t \<Rightarrow> now - t > checkpoint_timeout c * 1000)
                      (inflight_checkpoints c)))"

definition expire_begin :: "int \<Rightarrow> ('c, 's) coordinator \<Rightarrow> ('c, 's) coordinator" where
  "expire_begin now c = c\<lparr>expiring := stale_checkpoints now c\<rparr>"

text \<open>
  One turn of the loop over the stale ids, which were computed before the first await. Popping an id
  that is no longer in flight raises \<open>KeyError\<close>, which ends the maintenance loop.
\<close>

definition expire_next :: "'c sink_api \<Rightarrow> ('c, 's) coordinator \<Rightarrow> ('c, 's) coordinator result" where
  "expire_next api c =
     (case expiring c of
        [] \<Rightarrow> Inr c
      | b # bs \<Rightarrow>
          (case map_of (inflight_checkpoints c) b of
             None \<Rightarrow> Inl KeyError
           | Some cp \<Rightarrow>
               Inr (detach_failed api cp
                 (release_domain_slot cp
                   (c\<lparr>inflight_checkpoints := AList.delete b (inflight_checkpoints c), expiring := bs\<rparr>)))))"

subsection \<open>Operator rescale\<close>

text \<open>\<open>begin_operator_rescale\<close> up to its first await after the fence is open: admission is closed and all
  uncommitted checkpoints are detached; then they are failed one after the other.\<close>

definition release_all_slots :: "checkpoint list \<Rightarrow> ('c, 's) coordinator \<Rightarrow> ('c, 's) coordinator" where
  "release_all_slots cps c = fold release_domain_slot cps c"

definition begin_operator_rescale ::
  "pyobj \<Rightarrow> rat \<Rightarrow> bool \<Rightarrow> ('c, 's) coordinator \<Rightarrow> unit option result \<times> ('c, 's) coordinator" where
  "begin_operator_rescale operation timeout expired c =
     (case operation of
        PStr op \<Rightarrow>
          (if py_strip op = [] then (Inl ValueError, c)
           else if timeout \<le> 0 then (Inl ValueError, c)
           else if recovery_fence c \<noteq> None then (if expired then Inl TimeoutError else Inr None, c)
           else if rescale_operation_id c \<notin> {None, Some op} then (Inl RuntimeError, c)
           else
             let cps = map snd (inflight_checkpoints c)
             in (Inr (Some ()), release_all_slots cps
                   (c\<lparr>rescale_operation_id := Some op, inflight_checkpoints := [],
                      aborting := aborting c @ cps\<rparr>)))
      | _ \<Rightarrow> (Inl ValueError, c))"

definition rescale_abort_next :: "'c sink_api \<Rightarrow> ('c, 's) coordinator \<Rightarrow> ('c, 's) coordinator" where
  "rescale_abort_next api c =
     (case aborting c of [] \<Rightarrow> c | cp # cps \<Rightarrow> detach_failed api cp (c\<lparr>aborting := cps\<rparr>))"

definition rescale_quiesced :: "bool \<Rightarrow> ('c, 's) coordinator \<Rightarrow> bool option result \<times> ('c, 's) coordinator" where
  "rescale_quiesced expired c =
     (if aborting c \<noteq> [] then (Inr None, c)
      else if completing c = [] then (Inr (Some True), c)
      else if expired then (Inl TimeoutError, c\<lparr>rescale_operation_id := None\<rparr>)
      else (Inr None, c))"

definition finish_operator_rescale ::
  "(string \<Rightarrow> string) \<Rightarrow> string \<Rightarrow> bool \<Rightarrow> int option \<Rightarrow> ('c, 's) coordinator \<Rightarrow> bool result \<times> ('c, 's) coordinator" where
  "finish_operator_rescale sha256_hex op committed target c =
     (if rescale_operation_id c = Some op
      then
        let c1 = c\<lparr>rescale_operation_id := None\<rparr>;
            targets = (case target of None \<Rightarrow> [] | Some j \<Rightarrow> [j])
        in if \<not> committed then (Inr True, c1)
           else
             let c2 = c1\<lparr>recovery_fence := Some op\<rparr>
             in case boundary_vertex_ids sha256_hex (c_graph c2) targets True of
                  Inl e \<Rightarrow> (Inl e, c2)
                | Inr srcs \<Rightarrow>
                    (case boundary_vertex_ids sha256_hex (c_graph c2) targets False of
                       Inl e \<Rightarrow> (Inl e, c2\<lparr>recovery_sources := srcs\<rparr>)
                     | Inr snks \<Rightarrow>
                         (Inr True, c2\<lparr>recovery_sources := srcs, recovery_sinks := snks,
                            recovery_required_revision := None, coordinated_barrier := None,
                            coordinated_registered := []\<rparr>))
      else if \<not> committed \<and> rescale_operation_id c = None then (Inr True, c)
      else (Inr (committed \<and> recovery_fence c = Some op), c))"

definition reconfigure_execution_graph ::
  "(string \<Rightarrow> string) \<Rightarrow> (vertex_id, int) dict \<Rightarrow> egraph \<Rightarrow> ('c, 's) coordinator \<Rightarrow> ('c, 's) coordinator result" where
  "reconfigure_execution_graph sha256_hex acks g c =
     (if g_namespace g \<noteq> job_id c then Inl ValueError
      else if rescale_operation_id c = None then Inl RuntimeError
      else if inflight_checkpoints c \<noteq> [] \<or> completing c \<noteq> [] then Inl RuntimeError
      else
        rbind (checkpoint_domains sha256_hex g) (\<lambda>ds.
          let c1 = remap_carried_sink_domains ds (c\<lparr>c_graph := Some g, c_domains := ds\<rparr>);
              live = map ev_id (subtasks_of g (source_job_vertices g))
          in Inr (c1\<lparr>required_acks := acks, active_by_domain := [],
                     finished_sources := filter (\<lambda>v. v \<in> set live) (finished_sources c1)\<rparr>)))"

text \<open>The transient state of a rescale: staged while it is active, served to the replacement tasks.\<close>

definition stage_operator_rescale_state ::
  "string \<Rightarrow> pyobj \<Rightarrow> pyobj \<Rightarrow> snapshot_reference list \<Rightarrow> ('c, 's) coordinator \<Rightarrow> ('c, 's) coordinator result" where
  "stage_operator_rescale_state op job_vertex target partitions c =
     (if rescale_operation_id c \<noteq> Some op then Inl RuntimeError
      else rbind (as_int job_vertex) (\<lambda>j.
           rbind (as_int target) (\<lambda>p.
             if p < 1 then Inl ValueError
             else Inr (c\<lparr>transient_rescale_states :=
                     AList.update (op, j) partitions (transient_rescale_states c)\<rparr>))))"

definition rescale_partition_for_vertex ::
  "vertex_id \<Rightarrow> snapshot_reference list \<Rightarrow> snapshot_reference list result" where
  "rescale_partition_for_vertex v parts =
     (if 0 \<le> vertex_index v \<and> vertex_index v < int (length parts)
      then Inr [parts ! nat (vertex_index v)] else Inl RuntimeError)"

definition operator_rescale_states ::
  "string \<Rightarrow> vertex_id \<Rightarrow> ('c, 's) coordinator \<Rightarrow> snapshot_reference list result" where
  "operator_rescale_states op v c =
     (case map_of (transient_rescale_states c) (op, job_vertex_id v) of
        None \<Rightarrow> Inr [] | Some parts \<Rightarrow> rescale_partition_for_vertex v parts)"

definition latest_operator_states_for ::
  "(operator_entry \<Rightarrow> snapshot_reference) \<Rightarrow> vertex_id \<Rightarrow> ('c, 's) coordinator \<Rightarrow> snapshot_reference list" where
  "latest_operator_states_for read v c =
     (let mine = of_operator {show_int (job_vertex_id v)};
          live = filter (\<lambda>(k, _). mine k) (latest_operator_states c);
          durable = filter (\<lambda>(k, _). mine k \<and> k \<notin> set (keys live)) (restored_operator_states c)
      in map snd (sort_key fst live) @
         (if checkpoint_path c = None then [] else map (read \<circ> snd) (sort_key fst durable)))"

definition restore_operator_rescale_states ::
  "(operator_entry \<Rightarrow> snapshot_reference) \<Rightarrow> string \<Rightarrow> vertex_id \<Rightarrow> ('c, 's) coordinator \<Rightarrow>
   snapshot_reference list result" where
  "restore_operator_rescale_states read op v c =
     (case map_of (transient_rescale_states c) (op, job_vertex_id v) of
        Some parts \<Rightarrow> rescale_partition_for_vertex v parts
      | None \<Rightarrow>
          if rescale_operation_id c = Some op then Inl RuntimeError
          else if (op, job_vertex_id v) \<notin> set (superseded_rescale_operations c) then Inl RuntimeError
          else Inr (latest_operator_states_for read v c))"

definition discard_operator_rescale_state ::
  "string \<Rightarrow> int \<Rightarrow> ('c, 's) coordinator \<Rightarrow> bool \<times> ('c, 's) coordinator" where
  "discard_operator_rescale_state op j c =
     (map_of (transient_rescale_states c) (op, j) \<noteq> None,
      c\<lparr>superseded_rescale_operations := removeAll (op, j) (superseded_rescale_operations c),
        transient_rescale_states := AList.delete (op, j) (transient_rescale_states c)\<rparr>)"

subsection \<open>Teardown\<close>

definition abort_sink_committables :: "('c, 's) coordinator \<Rightarrow> ('c, 's) coordinator" where
  "abort_sink_committables c = c\<lparr>inflight_sinks := [], carried_sinks := []\<rparr>"

definition notify_terminal_source_checkpoints ::
  "(nat \<Rightarrow> notice_answer) \<Rightarrow> ('c, 's) coordinator \<Rightarrow> unit result \<times> ('c, 's) coordinator" where
  "notify_terminal_source_checkpoints answers c =
     (let c1 = notify_durable_source_checkpoints answers c
      in if \<exists>(k, e) \<in> set (durable_source_states c1). dict_get (notified_source_ids c1) k (- 1) < src_checkpoint_id e
         then (Inl RuntimeError, c1) else (Inr (), c1))"

text \<open>The terminal flush once no completion is under way (\<open>Inr None\<close> before that).\<close>

definition persist_now ::
  "'c sink_api \<Rightarrow> (sink_identity \<Rightarrow> bool) \<Rightarrow> (nat \<Rightarrow> notice_answer) \<Rightarrow>
   (('c, 's) persist_snapshot \<Rightarrow> (string \<times> (string, operator_entry) dict) option) \<Rightarrow>
   bool \<Rightarrow> bool \<Rightarrow> bool \<Rightarrow> ('c, 's) coordinator \<Rightarrow> string option option result \<times> ('c, 's) coordinator" where
  "persist_now api ok answers write notify abort resolved c =
     (if abort \<and> resolved then (Inl ValueError, c)
      else if completing c \<noteq> [] then (Inr None, c)
      else if \<not> abort \<and> resolved \<and> (carried_sinks c \<noteq> [] \<or> inflight_sinks c \<noteq> []) then (Inl RuntimeError, c)
      else
        let c1 = (if abort then abort_sink_committables c else c)
        in case persist_checkpoint_metadata api ok answers write notify resolved c1 of
             (Inl e, c2) \<Rightarrow> (Inl e, c2)
           | (Inr _, c2) \<Rightarrow>
               if \<not> resolved then (Inr (Some (checkpoint_path c2)), c2)
               else
                 (case commit_durable_sink_committables ok True c2 of
                    (Inl e, c3) \<Rightarrow> (Inl e, c3)
                  | (Inr _, c3) \<Rightarrow>
                      if pending_sinks c3 \<noteq> [] then (Inl RuntimeError, c3)
                      else if \<not> notify then (Inr (Some (checkpoint_path c3)), c3)
                      else
                        (case notify_terminal_source_checkpoints answers c3 of
                           (Inl e, c4) \<Rightarrow> (Inl e, c4)
                         | (Inr _, c4) \<Rightarrow> (Inr (Some (checkpoint_path c4)), c4))))"

end
