(* ===== verification/CoordinatorRuns.thy ===== *)
theory CoordinatorRuns
  imports CoordinatorLifecycle
begin

section \<open>Interleaved runs of the checkpoint coordinator\<close>

text \<open>
  The handlers of the previous theories, interleaved at their suspension points in any order, with
  arbitrary answers of tasks, storage and connectors. A history collects what the outside world has
  seen: registered sink transactions, merges of completed checkpoints, manifests written and
  transactions committed. Shown: no write of a registered transaction is ever lost; a transaction is
  committed only after a manifest lists it together with positions of all sources of the checkpoint
  that delivered it; and at most one checkpoint is active per domain.
\<close>

record ('c, 's) history =
  registered :: "'c sink_entry list"
  merges :: "(sink_identity list \<times> int \<times> vertex_id list) list"
  manifests :: "('c, 's) persist_snapshot list"
  committed :: "'c sink_entry list"

definition no_history :: "('c, 's) history" where
  "no_history = \<lparr>registered = [], merges = [], manifests = [], committed = []\<rparr>"

definition note_registered ::
  "'c sink_api \<Rightarrow> int \<Rightarrow> vertex_id \<Rightarrow> 'c \<Rightarrow> bool result \<Rightarrow> ('c, 's) history \<Rightarrow> ('c, 's) history" where
  "note_registered api b v x r h =
     (if r = Inr True
      then h\<lparr>registered := registered h @ [\<lparr>se_task_key = task_key_of v, se_checkpoint_id = b, se_committable = x\<rparr>]\<rparr>
      else h)"

text \<open>The transactions a completion has made pending, with its epoch and sources.\<close>

definition note_merge ::
  "int \<Rightarrow> ('c, 's) coordinator \<Rightarrow> ('c, 's) coordinator \<Rightarrow> ('c, 's) history \<Rightarrow> ('c, 's) history" where
  "note_merge b c c' h =
     h\<lparr>merges := merges h @
        [case map_of (completing c) b of
           None \<Rightarrow> ([], b, [])
         | Some (cp, _) \<Rightarrow> (filter (\<lambda>i. i \<notin> set (keys (pending_sinks c))) (keys (pending_sinks c')),
                           cp_barrier_id cp, trigger_sources cp)]\<rparr>"

definition note_written :: "('c, 's) coordinator \<Rightarrow> ('c, 's) history \<Rightarrow> ('c, 's) history" where
  "note_written c h = (case persisting c of None \<Rightarrow> h | Some ps \<Rightarrow> h\<lparr>manifests := manifests h @ [ps]\<rparr>)"

inductive coordinator_run ::
  "(string \<Rightarrow> string) \<Rightarrow> 'c sink_api \<Rightarrow> ('c, 's) coordinator \<Rightarrow> ('c, 's) coordinator \<Rightarrow> ('c, 's) history \<Rightarrow> bool"
  for sha256_hex api c0 where
  run_start: "coordinator_run sha256_hex api c0 c0 no_history"
| run_register: "coordinator_run sha256_hex api c0 c h \<Longrightarrow> register_checkpoint now force v c = (r, reqs, c') \<Longrightarrow>
    coordinator_run sha256_hex api c0 c' h"
| run_started: "coordinator_run sha256_hex api c0 c h \<Longrightarrow> source_checkpoint_started b v eof c = (ok, c') \<Longrightarrow>
    coordinator_run sha256_hex api c0 c' h"
| run_operator_state: "coordinator_run sha256_hex api c0 c h \<Longrightarrow> register_operator_state b v ref c = (r', c') \<Longrightarrow>
    coordinator_run sha256_hex api c0 c' h"
| run_metrics: "coordinator_run sha256_hex api c0 c h \<Longrightarrow> register_operator_checkpoint_metrics b v ms c = (ok, c') \<Longrightarrow>
    coordinator_run sha256_hex api c0 c' h"
| run_sink: "coordinator_run sha256_hex api c0 c h \<Longrightarrow> register_sink_committable api b v x c = (r', c') \<Longrightarrow>
    coordinator_run sha256_hex api c0 c' (note_registered api b v x r' h)"
| run_aligned: "coordinator_run sha256_hex api c0 c h \<Longrightarrow> notify_checkpoint_aligned now b v c = (a, c') \<Longrightarrow>
    coordinator_run sha256_hex api c0 c' h"
| run_collected: "coordinator_run sha256_hex api c0 c h \<Longrightarrow> complete_collected sha256_hex api b answers c = c' \<Longrightarrow>
    coordinator_run sha256_hex api c0 c' (note_merge b c c' h)"
| run_completed: "coordinator_run sha256_hex api c0 c h \<Longrightarrow> coordinator_run sha256_hex api c0 (complete_persisted b ok c) h"
| run_closed: "coordinator_run sha256_hex api c0 c h \<Longrightarrow> coordinator_run sha256_hex api c0 (complete_closed b c) h"
| run_release: "coordinator_run sha256_hex api c0 c h \<Longrightarrow> coordinator_run sha256_hex api c0 (retry_release rpc b c) h"
| run_expire: "coordinator_run sha256_hex api c0 c h \<Longrightarrow> coordinator_run sha256_hex api c0 (expire_begin now c) h"
| run_expire_next: "coordinator_run sha256_hex api c0 c h \<Longrightarrow> expire_next api c = Inr c' \<Longrightarrow>
    coordinator_run sha256_hex api c0 c' h"
| run_rescale: "coordinator_run sha256_hex api c0 c h \<Longrightarrow> begin_operator_rescale op timeout expired c = (u, c') \<Longrightarrow>
    coordinator_run sha256_hex api c0 c' h"
| run_abort: "coordinator_run sha256_hex api c0 c h \<Longrightarrow> coordinator_run sha256_hex api c0 (rescale_abort_next api c) h"
| run_quiesced: "coordinator_run sha256_hex api c0 c h \<Longrightarrow> rescale_quiesced expired c = (a, c') \<Longrightarrow>
    coordinator_run sha256_hex api c0 c' h"
| run_finish: "coordinator_run sha256_hex api c0 c h \<Longrightarrow> finish_operator_rescale sha256_hex opid done target c = (r', c') \<Longrightarrow>
    done \<longrightarrow> inflight_checkpoints c = [] \<and> completing c = [] \<Longrightarrow> coordinator_run sha256_hex api c0 c' h"
| run_reconfigure: "coordinator_run sha256_hex api c0 c h \<Longrightarrow> reconfigure_execution_graph sha256_hex acks g c = Inr c' \<Longrightarrow>
    coordinator_run sha256_hex api c0 c' h"
| run_stage: "coordinator_run sha256_hex api c0 c h \<Longrightarrow> stage_operator_rescale_state opid j p parts c = Inr c' \<Longrightarrow>
    coordinator_run sha256_hex api c0 c' h"
| run_discard: "coordinator_run sha256_hex api c0 c h \<Longrightarrow> discard_operator_rescale_state opid jv c = (ok, c') \<Longrightarrow>
    coordinator_run sha256_hex api c0 c' h"
| run_persist: "coordinator_run sha256_hex api c0 c h \<Longrightarrow> persisting c = None \<Longrightarrow>
    coordinator_run sha256_hex api c0 (persist_begin c) h"
| run_written: "coordinator_run sha256_hex api c0 c h \<Longrightarrow>
    coordinator_run sha256_hex api c0 (persist_written api path restored c) (note_written c h)"
| run_write_failed: "coordinator_run sha256_hex api c0 c h \<Longrightarrow> coordinator_run sha256_hex api c0 (persist_failed c) h"
| run_commit: "coordinator_run sha256_hex api c0 c h \<Longrightarrow> e \<in> set (map snd (durable_sinks c)) \<or>
      (\<exists>m \<in> set (manifests h). e \<in> set (ps_sink_committables m)) \<Longrightarrow>
    coordinator_run sha256_hex api c0 (sink_committed (sink_committable_identity api e) c) (h\<lparr>committed := committed h @ [e]\<rparr>)"
| run_notify: "coordinator_run sha256_hex api c0 c h \<Longrightarrow>
    coordinator_run sha256_hex api c0 (notify_durable_source_checkpoints answers' c) h"
| run_clear: "coordinator_run sha256_hex api c0 c h \<Longrightarrow>
    coordinator_run sha256_hex api c0 (clear_rescale_recovery_fence_if_durable c) h"

subsection \<open>Small steps as record updates\<close>

text \<open>
  Written as one record update each, so that the simplifier computes every field of a handler's result.
\<close>

named_theorems as_update \<open>small steps as record updates\<close>

definition free_slot :: "checkpoint \<Rightarrow> (string, int) dict \<Rightarrow> (string, int) dict" where
  "free_slot cp slots =
     (case cp_domain_id cp of
        None \<Rightarrow> slots
      | Some d \<Rightarrow> if map_of slots d = Some (cp_barrier_id cp) then AList.delete d slots else slots)"

lemma release_domain_slot_update [as_update]:
  "release_domain_slot cp c = c\<lparr>active_by_domain := free_slot cp (active_by_domain c)\<rparr>"
  by (simp add: release_domain_slot_def free_slot_def split: option.splits)

lemma release_all_slots_update [as_update]:
  "release_all_slots cps c = c\<lparr>active_by_domain := fold free_slot cps (active_by_domain c)\<rparr>"
proof (induction cps arbitrary: c)
  case (Cons cp cps)
  then show ?case by (simp add: release_all_slots_def release_domain_slot_update)
qed (simp add: release_all_slots_def)

lemma activate_checkpoint_domain_update [as_update]:
  "activate_checkpoint_domain cp c = c\<lparr>active_by_domain :=
     (case cp_domain_id cp of
        None \<Rightarrow> active_by_domain c | Some d \<Rightarrow> AList.update d (cp_barrier_id cp) (active_by_domain c))\<rparr>"
  by (simp add: activate_checkpoint_domain_def split: option.splits)

lemma finish_checkpoint_release_update [as_update]:
  "finish_checkpoint_release b c = c\<lparr>pending_releases := AList.delete b (pending_releases c),
     coordinated_barrier := (if coordinated_barrier c = Some b then None else coordinated_barrier c),
     coordinated_registered := (if coordinated_barrier c = Some b then [] else coordinated_registered c)\<rparr>"
  by (simp add: finish_checkpoint_release_def Let_def)

lemma carry_update [as_update]:
  "carry_inflight_sink_committables api cp c =
     c\<lparr>inflight_sinks := AList.delete (cp_barrier_id cp) (inflight_sinks c),
       carried_sinks := (let entries = dict_get (inflight_sinks c) (cp_barrier_id cp) []
         in if entries = [] then carried_sinks c
            else AList.update (cp_domain_id cp)
              (fold (add_identified api) (map snd entries) (dict_get (carried_sinks c) (cp_domain_id cp) []))
              (carried_sinks c))\<rparr>"
  by (simp add: carry_inflight_sink_committables_def Let_def)

lemma sink_committed_update [as_update]:
  "sink_committed i c = c\<lparr>durable_sinks := AList.delete i (durable_sinks c),
     pending_sinks := AList.delete i (pending_sinks c),
     state_revision := state_revision c + (if map_of (pending_sinks c) i \<noteq> None then 1 else 0)\<rparr>"
proof (cases "map_of (pending_sinks c) i")
  case None
  then have "AList.delete i (pending_sinks c) = pending_sinks c" by (simp add: map_of_eq_None_iff)
  with None show ?thesis by (simp add: sink_committed_def Let_def)
qed (simp add: sink_committed_def Let_def)

definition newer_position :: "'s source_entry \<Rightarrow> ('c, 's) coordinator \<Rightarrow> bool" where
  "newer_position e c \<longleftrightarrow> (case map_of (latest_source_states c) (src_task_key e) of
     None \<Rightarrow> True | Some old \<Rightarrow> src_checkpoint_id e > src_checkpoint_id old)"

lemma update_latest_source_state_update [as_update]:
  "update_latest_source_state e c = c\<lparr>
     latest_source_states := (if newer_position e c then AList.update (src_task_key e) e (latest_source_states c)
                              else latest_source_states c),
     state_revision := state_revision c + (if newer_position e c then 1 else 0)\<rparr>"
  by (simp add: update_latest_source_state_def newer_position_def)

lemmas small_steps = as_update begin_release_def set_phase_def update_checkpoint_def track_checkpoint_def
  close_completion_def finish_completion_def detach_failed_def persist_failed_def expire_begin_def

text \<open>What the sink accounting looks at.\<close>

definition sink_view :: "('c, 's) coordinator \<Rightarrow> _" where
  "sink_view c = (inflight_sinks c, carried_sinks c, pending_sinks c, durable_sinks c)"

lemma sink_view_stabilization:
  assumes "register_rescale_stabilization_checkpoint now v c = (r, c')"
  shows "sink_view c' = sink_view c"
proof -
  have "sink_view d' = sink_view d" if "open_stabilization now d = (bo, d')" for d d' :: "('c, 's) coordinator" and bo
    using that
    by (auto simp: open_stabilization_def Let_def sink_view_def next_id_def small_steps split: option.splits if_splits)
  then show ?thesis
    using assms
    by (fastforce simp: register_rescale_stabilization_checkpoint_def Let_def sink_view_def
        split: option.splits if_splits prod.splits)
qed

named_theorems sink_frames \<open>handlers that do not touch sink transactions\<close>

lemma sink_view_register [sink_frames]:
  "register_checkpoint now force v c = (r, reqs, c') \<Longrightarrow> sink_view c' = sink_view c"
  by (auto simp: register_checkpoint_def admit_checkpoint_def Let_def next_id_def small_steps sink_view_stabilization
      split: option.splits if_splits prod.splits sum.splits) (simp_all add: sink_view_def small_steps)

lemma sink_view_reports [sink_frames]:
  "source_checkpoint_started b v eof c = (ok, c') \<Longrightarrow> sink_view c' = sink_view c"
  "register_operator_state b v ref c = (r, c') \<Longrightarrow> sink_view c' = sink_view c"
  "register_operator_checkpoint_metrics b v ms c = (ok, c') \<Longrightarrow> sink_view c' = sink_view c"
  "notify_checkpoint_aligned now b v c = (a, c') \<Longrightarrow> sink_view c' = sink_view c"
  by (auto simp: source_checkpoint_started_def register_operator_state_def register_operator_checkpoint_metrics_def
      notify_checkpoint_aligned_def small_steps sink_view_def Let_def
      split: option.splits if_splits prod.splits sum.splits)

lemma sink_view_completion [sink_frames]:
  "sink_view (complete_persisted b ok c) = sink_view c"
  "sink_view (complete_closed b c) = sink_view c"
  "sink_view (retry_release rpc b c) = sink_view c"
  "sink_view (expire_begin now c) = sink_view c"
  "sink_view (persist_failed c) = sink_view c"
  by (auto simp: complete_persisted_def complete_closed_def retry_release_def small_steps sink_view_def Let_def
      split: option.splits prod.splits completion_phase.splits)

lemma sink_view_fence [sink_frames]: "sink_view (clear_rescale_recovery_fence_if_durable c) = sink_view c"
  by (auto simp: clear_rescale_recovery_fence_if_durable_def sink_view_def split: option.splits)

lemma sink_view_persist_begin [sink_frames]: "sink_view (persist_begin c) = sink_view c"
  using sink_view_fence [of c] by (simp add: persist_begin_def) (simp add: sink_view_def)

lemma sink_view_rescale [sink_frames]:
  "begin_operator_rescale op timeout expired c = (u, c') \<Longrightarrow> sink_view c' = sink_view c"
  "rescale_quiesced expired c = (a, c') \<Longrightarrow> sink_view c' = sink_view c"
  "finish_operator_rescale sha opid done target c = (r, c') \<Longrightarrow> sink_view c' = sink_view c"
  "stage_operator_rescale_state opid j p parts c = Inr c' \<Longrightarrow> sink_view c' = sink_view c"
  "discard_operator_rescale_state opid jv c = (ok, c') \<Longrightarrow> sink_view c' = sink_view c"
  by (auto simp: begin_operator_rescale_def small_steps rescale_quiesced_def finish_operator_rescale_def stage_operator_rescale_state_def
      discard_operator_rescale_state_def sink_view_def Let_def result_simps split: pyobj.splits if_splits sum.splits)

lemma notify_updates:
  obtains R N where "notify_durable_source_checkpoints answers c = c\<lparr>released_source_ids := R, notified_source_ids := N\<rparr>"
proof -
  have one: "\<exists>R N. notify_source answers x d = d\<lparr>released_source_ids := R, notified_source_ids := N\<rparr>"
    for x and d :: "('a, 'b) coordinator"
  proof -
    have "notify_source answers x d = d\<lparr>released_source_ids := released_source_ids (notify_source answers x d),
        notified_source_ids := notified_source_ids (notify_source answers x d)\<rparr>"
      by (auto simp: notify_source_def Let_def split: option.split notice_answer.split)
    then show ?thesis by blast
  qed
  have many: "\<exists>R N. fold (notify_source answers) xs d = d\<lparr>released_source_ids := R, notified_source_ids := N\<rparr>"
    for xs and d :: "('a, 'b) coordinator"
  proof (induction xs arbitrary: d)
    case Nil
    have "d = d\<lparr>released_source_ids := released_source_ids d, notified_source_ids := notified_source_ids d\<rparr>" by simp
    then show ?case by (metis fold_simps(1))
  next
    case (Cons x xs)
    obtain R N where 1: "notify_source answers x d = d\<lparr>released_source_ids := R, notified_source_ids := N\<rparr>"
      using one by blast
    obtain R' N' where "fold (notify_source answers) xs (notify_source answers x d) =
        (notify_source answers x d)\<lparr>released_source_ids := R', notified_source_ids := N'\<rparr>" using Cons.IH by blast
    then have "fold (notify_source answers) (x # xs) d = d\<lparr>released_source_ids := R', notified_source_ids := N'\<rparr>"
      by (simp add: 1)
    then show ?case by blast
  qed
  have eq: "notify_durable_source_checkpoints answers c = fold (notify_source answers)
      (case c_graph c of None \<Rightarrow> [] | Some g \<Rightarrow>
         if durable_source_states c = [] \<or> durable_sinks c \<noteq> [] then [] else subtasks_of g (source_job_vertices g)) c"
    by (simp add: notify_durable_source_checkpoints_def split: option.split)
  obtain R N where "notify_durable_source_checkpoints answers c = c\<lparr>released_source_ids := R, notified_source_ids := N\<rparr>"
    unfolding eq using many by blast
  then show thesis by (rule that)
qed

lemma sink_view_notify [sink_frames]: "sink_view (notify_durable_source_checkpoints answers c) = sink_view c"
  by (rule notify_updates [of answers c]) (simp add: sink_view_def)

text \<open>How a completion goes on once the sources have answered.\<close>

lemma completion_cases:
  obtains (same) "complete_collected sha api b answers c = c" "\<And>cp. map_of (completing c) b \<noteq> Some (cp, Collecting)"
  | (failed) cp where "map_of (completing c) b = Some (cp, Collecting)"
      "complete_collected sha api b answers c = set_phase b cp Closing (detach_failed api cp c)"
  | (merged) cp states has ready c1 where "map_of (completing c) b = Some (cp, Collecting)"
      "collect_domain_source_states answers cp c = Some states"
      "merge_aligned_checkpoint_progress sha api cp states c = Inr (has, ready, c1)"
      "complete_collected sha api b answers c =
        (if has \<or> ready then set_phase b cp Persisting c1 else finish_completion b cp c1)"
proof (cases "\<exists>cp. map_of (completing c) b = Some (cp, Collecting)")
  case True
  then obtain cp where cp: "map_of (completing c) b = Some (cp, Collecting)" by blast
  then have run: "complete_collected sha api b answers c =
      (case collect_domain_source_states answers cp c of
         None \<Rightarrow> set_phase b cp Closing (detach_failed api cp c)
       | Some states \<Rightarrow> (case merge_aligned_checkpoint_progress sha api cp states c of
           Inl _ \<Rightarrow> set_phase b cp Closing (detach_failed api cp c)
         | Inr (has, ready, c1) \<Rightarrow> if has \<or> ready then set_phase b cp Persisting c1 else finish_completion b cp c1))"
    by (simp add: complete_collected_def)
  show ?thesis
  proof (cases "collect_domain_source_states answers cp c")
    case None
    then show ?thesis using cp run by (intro failed) simp_all
  next
    case (Some states)
    show ?thesis
    proof (cases "merge_aligned_checkpoint_progress sha api cp states c")
      case (Inl e)
      then show ?thesis using cp run Some by (intro failed) simp_all
    next
      case (Inr x)
      obtain has ready c1 where "x = (has, ready, c1)" by (rule prod_cases3)
      then show ?thesis using cp run Some Inr by (intro merged) simp_all
    qed
  qed
next
  case False
  then have "complete_collected sha api b answers c = c"
    by (auto simp: complete_collected_def split: option.split completion_phase.split)
  with False show ?thesis by (intro same) blast+
qed

end
