(* ===== verification/SinkAccounting.thy ===== *)
theory SinkAccounting
  imports CoordinatorRuns
begin

section \<open>No sink transaction is lost\<close>

text \<open>
  The coordinator holds a registered sink transaction with its checkpoint while that is in flight,
  with its domain after the checkpoint failed, and as pending once a cut has covered it. The writes it
  holds in these places only shrink when a transaction has been committed.
\<close>

definition entries_writes :: "('c \<Rightarrow> 'w set) \<Rightarrow> ('k, 'c sink_entry) dict \<Rightarrow> 'w set" where
  "entries_writes writes d = published writes (map snd d)"

definition bucket_ok :: "'c sink_api \<Rightarrow> (sink_identity, 'c sink_entry) dict \<Rightarrow> bool" where
  "bucket_ok api d \<longleftrightarrow> identified api d \<and> (\<forall>i e. map_of d i = Some e \<longrightarrow> writer_key (se_task_key e))"

definition sinks_ok :: "'c sink_api \<Rightarrow> ('c, 's) coordinator \<Rightarrow> bool" where
  "sinks_ok api c \<longleftrightarrow>
     batches_ok (inflight_sinks c) \<and>
     wf_dict (carried_sinks c) \<and> (\<forall>k d. map_of (carried_sinks c) k = Some d \<longrightarrow> bucket_ok api d) \<and>
     identified api (pending_sinks c) \<and> identified api (durable_sinks c)"

definition retained_writes :: "('c \<Rightarrow> 'w set) \<Rightarrow> ('c, 's) coordinator \<Rightarrow> 'w set" where
  "retained_writes writes c =
     dict_union (entries_writes writes) (inflight_sinks c) \<union>
     dict_union (entries_writes writes) (carried_sinks c) \<union> entries_writes writes (pending_sinks c)"

lemma sink_view_cong:
  "sink_view c' = sink_view c \<Longrightarrow> sinks_ok api c' = sinks_ok api c"
  "sink_view c' = sink_view c \<Longrightarrow> retained_writes writes c' = retained_writes writes c"
  by (simp_all add: sink_view_def sinks_ok_def retained_writes_def)

lemma sinks_okD:
  assumes "sinks_ok api c"
  shows "batches_ok (inflight_sinks c)" "wf_dict (carried_sinks c)" "bucket_ok api (dict_get (carried_sinks c) k [])"
    "batch_ok (dict_get (inflight_sinks c) b [])" "identified api (pending_sinks c)" "identified api (durable_sinks c)"
proof -
  have e: "bucket_ok api []" "batch_ok []" by (simp_all add: bucket_ok_def identified_def batch_ok_def keyed_entries_def)
  show "bucket_ok api (dict_get (carried_sinks c) k [])"
    using assms e(1) unfolding sinks_ok_def dict_get_def by (cases "map_of (carried_sinks c) k") simp_all
  show "batch_ok (dict_get (inflight_sinks c) b [])"
    using assms e(2) unfolding sinks_ok_def batches_ok_def dict_get_def by (cases "map_of (inflight_sinks c) b") simp_all
qed (use assms in \<open>simp_all add: sinks_ok_def\<close>)

lemma entries_writes_Nil [simp]: "entries_writes writes [] = {}"
  by (simp add: entries_writes_def)

lemma dict_get_union: "f [] = {} \<Longrightarrow> f (dict_get d k []) \<subseteq> dict_union f d"
  unfolding dict_get_def by (cases "map_of d k") (auto intro: dict_unionI)

lemma dict_union_delete_get:
  assumes "wf_dict d" "f [] = {}"
  shows "dict_union f d = dict_union f (AList.delete k d) \<union> f (dict_get d k [])"
  using dict_union_delete [OF assms(1), of f k] assms(2) by (cases "map_of d k") (auto simp: dict_get_def)

lemma dict_union_delete_all:
  assumes "wf_dict d" "f [] = {}"
  shows "dict_union f d \<subseteq> dict_union f (fold AList.delete ks d) \<union> (\<Union>k \<in> set ks. f (dict_get d k []))"
  using assms(1)
proof (induction ks arbitrary: d)
  case (Cons k ks)
  have "f (dict_get (AList.delete k d) k' []) \<subseteq> f (dict_get d k' [])" for k'
    using assms(2) by (simp add: dict_get_def)
  with Cons.IH [of "AList.delete k d"] Cons.prems dict_union_delete_get [of d f k] assms(2) show ?case by fastforce
qed simp

lemma batches_ok_delete: "batches_ok d \<Longrightarrow> batches_ok (AList.delete b d)"
  unfolding batches_ok_def by (metis map_of_delete option.distinct(1) wf_dict_delete)

lemma batches_ok_update: "batches_ok d \<Longrightarrow> batch_ok x \<Longrightarrow> batches_ok (AList.update b x d)"
  unfolding batches_ok_def by (metis map_of_update option.inject wf_dict_update)

subsection \<open>Registering\<close>

lemma register_sink_cases:
  assumes "register_sink_committable api b v x c = (r, c')"
  obtains (refused) "c' = c" "r \<noteq> Inr True"
  | (conflict) "c' = c\<lparr>inflight_sinks := dict_setdefault b [] (inflight_sinks c)\<rparr>" "r \<noteq> Inr True"
  | (stored) entry where "r = Inr True" "se_task_key entry = task_key_of v" "se_committable entry = x"
      "c' = c\<lparr>inflight_sinks := AList.update b (AList.update (task_key_of v) entry (dict_get (inflight_sinks c) b []))
                                    (dict_setdefault b [] (inflight_sinks c))\<rparr>"
      "\<And>old. map_of (dict_get (inflight_sinks c) b []) (task_key_of v) = Some old \<Longrightarrow>
        transaction_id api (se_committable old) = transaction_id api x"
      "se_checkpoint_id entry = b" "map_of (inflight_checkpoints c) b \<noteq> None"
proof (cases "map_of (inflight_checkpoints c) b")
  case None
  then show ?thesis using assms by (intro refused) (auto simp: register_sink_committable_def)
next
  case (Some cp)
  show ?thesis
  proof (cases "is_terminal_status (status cp) \<or> required_committers cp \<noteq> [] \<and> v \<notin> set (required_committers cp)")
    case True
    then show ?thesis using assms Some by (intro refused) (auto simp: register_sink_committable_def split: if_splits)
  next
    case False
    show ?thesis
    proof (cases "make_sink_entry api (task_key_of v) b x")
      case (Inl e)
      then show ?thesis using assms Some False by (intro refused) (auto simp: register_sink_committable_def split: if_splits)
    next
      case (Inr entry)
      then have entry: "se_task_key entry = task_key_of v" "se_committable entry = x" "se_checkpoint_id entry = b"
        by (auto simp: make_sink_entry_def split: if_splits)
      let ?old = "map_of (dict_get (inflight_sinks c) b []) (task_key_of v)"
      let ?bad = "case ?old of None \<Rightarrow> False | Some old \<Rightarrow> transaction_id api (se_committable old) \<noteq> transaction_id api x"
      have run: "(r, c') = (if ?bad then (Inl ValueError, c\<lparr>inflight_sinks := dict_setdefault b [] (inflight_sinks c)\<rparr>)
        else (Inr True, c\<lparr>inflight_sinks := AList.update b (AList.update (task_key_of v) entry (dict_get (inflight_sinks c) b []))
            (dict_setdefault b [] (inflight_sinks c))\<rparr>))"
        using assms Some False Inr by (simp add: register_sink_committable_def Let_def split: if_splits)
      show ?thesis
      proof (cases ?bad)
        case True
        then show ?thesis using run conflict by simp
      next
        case False
        then show ?thesis using run entry Some by (intro stored [of entry]) simp_all
      qed
    qed
  qed
qed

lemma register_sink_accounting:
  assumes "sink_contract api writes" "sinks_ok api c" "register_sink_committable api b v x c = (r, c')"
  shows "sinks_ok api c' \<and> retained_writes writes c' = retained_writes writes c \<union> (if r = Inr True then writes x else {})"
proof -
  let ?es = "dict_get (inflight_sinks c) b []"
  have set0: "batches_ok (dict_setdefault b [] (inflight_sinks c)) \<and>
      dict_union (entries_writes writes) (dict_setdefault b [] (inflight_sinks c)) =
        dict_union (entries_writes writes) (inflight_sinks c)"
  proof (cases "map_of (inflight_sinks c) b")
    case None
    then show ?thesis
      using batches_ok_update [OF sinks_okD(1) [OF assms(2)], of "[]" b] dict_union_update [of "inflight_sinks c" b "entries_writes writes" "[]"]
      by (simp add: dict_setdefault_def batch_ok_def keyed_entries_def)
  next
    case (Some d)
    then show ?thesis using sinks_okD(1) [OF assms(2)] by (simp add: dict_setdefault_def)
  qed
  from assms(3) show ?thesis
  proof (cases rule: register_sink_cases)
    case refused
    then show ?thesis using assms(2) by simp
  next
    case conflict
    then show ?thesis using assms(2) set0 by (simp add: sinks_ok_def retained_writes_def)
  next
    case (stored entry)
    note 3 = stored
    have old: "writes (se_committable old) = writes (se_committable entry)" if "map_of ?es (task_key_of v) = Some old" for old
      unfolding 3(3) by (rule same_transaction_same_writes [OF assms(1) 3(5) [OF that]])
    have new: "entries_writes writes (AList.update (task_key_of v) entry ?es) = writes x \<union> entries_writes writes ?es"
      unfolding entries_writes_def 3(3) [symmetric] by (rule published_replace) (rule old)
    have get: "map_of (dict_setdefault b [] (inflight_sinks c)) b = Some ?es"
      by (cases "map_of (inflight_sinks c) b") (simp_all add: dict_get_def)
    have "dict_union (entries_writes writes) (inflight_sinks c') =
        entries_writes writes (AList.update (task_key_of v) entry ?es) \<union> dict_union (entries_writes writes) (inflight_sinks c)"
      using dict_union_update [of "dict_setdefault b [] (inflight_sinks c)" b "entries_writes writes"] get new set0 3(4) by simp
    then have "retained_writes writes c' = retained_writes writes c \<union> writes x"
      using new dict_get_union [of "entries_writes writes" "inflight_sinks c" b] 3(4) by (auto simp: retained_writes_def)
    moreover have "batch_ok (AList.update (task_key_of v) entry ?es)"
      using batch_ok_update [OF sinks_okD(4) [OF assms(2)], of entry b] 3(2) by simp
    from batches_ok_update [OF conjunct1 [OF set0] this, of b]
    have "sinks_ok api c'" using assms(2) 3(4) by (simp add: sinks_ok_def)
    ultimately show ?thesis using 3(1) by simp
  qed
qed

subsection \<open>Carrying, merging and committing\<close>

lemma bucket_ok_fold:
  assumes "sink_contract api writes" "bucket_ok api d" "\<forall>e \<in> set es. writer_key (se_task_key e)"
  shows "bucket_ok api (fold (add_identified api) es d) \<and>
    entries_writes writes (fold (add_identified api) es d) = published writes es \<union> entries_writes writes d"
proof -
  have "\<forall>i e. map_of (fold (add_identified api) es d) i = Some e \<longrightarrow> writer_key (se_task_key e)"
    using assms(2,3)
  proof (induction es arbitrary: d)
    case Nil
    then show ?case by (simp add: bucket_ok_def)
  next
    case (Cons e es)
    have "bucket_ok api (add_identified api e d)"
      using conjunct1 [OF add_identified_spec [OF assms(1), of d e]] Cons.prems
      unfolding bucket_ok_def add_identified_def by (metis list.set_intros(1) map_of_update option.inject)
    then show ?case using Cons.IH [of "add_identified api e d"] Cons.prems(2) by simp
  qed
  then show ?thesis
    using fold_add_identified_spec [OF assms(1), of d es] assms(2) by (simp add: bucket_ok_def entries_writes_def)
qed

lemma carry_accounting:
  assumes "sink_contract api writes" "sinks_ok api c"
  shows "sinks_ok api (carry_inflight_sink_committables api cp c) \<and>
    retained_writes writes (carry_inflight_sink_committables api cp c) = retained_writes writes c"
proof -
  let ?b = "cp_barrier_id cp" and ?k = "cp_domain_id cp"
  let ?es = "dict_get (inflight_sinks c) ?b []" and ?d = "dict_get (carried_sinks c) ?k []"
  let ?d' = "fold (add_identified api) (map snd ?es) ?d"
  have "\<forall>k \<in> set (keys ?es). writer_key k" "keyed_entries ?es"
    using sinks_okD(4) [OF assms(2), of ?b] by (auto simp: batch_ok_def)
  then have "\<forall>e \<in> set (map snd ?es). writer_key (se_task_key e)" by (force simp: keyed_entries_def)
  note new = bucket_ok_fold [OF assms(1) sinks_okD(3) [OF assms(2)] this, of ?k]
  have inflight: "dict_union (entries_writes writes) (inflight_sinks c) =
      dict_union (entries_writes writes) (AList.delete ?b (inflight_sinks c)) \<union> entries_writes writes ?es"
    using dict_union_delete_get [of "inflight_sinks c" "entries_writes writes" ?b] sinks_okD(1) [OF assms(2)]
    by (simp add: batches_ok_def)
  show ?thesis
  proof (cases "?es = []")
    case True
    then show ?thesis
      using inflight assms(2) batches_ok_delete [OF sinks_okD(1) [OF assms(2)]]
      by (simp add: carry_update Let_def sinks_ok_def retained_writes_def)
  next
    case False
    have "dict_union (entries_writes writes) (AList.update ?k ?d' (carried_sinks c)) =
        entries_writes writes ?d' \<union> dict_union (entries_writes writes) (carried_sinks c)"
      by (rule dict_union_update) (use new in \<open>auto simp: dict_get_def\<close>)
    then have "retained_writes writes (carry_inflight_sink_committables api cp c) = retained_writes writes c"
      using False inflight new dict_get_union [of "entries_writes writes" "carried_sinks c" ?k]
      by (auto simp: carry_update Let_def retained_writes_def entries_writes_def)
    moreover have "bucket_ok api d" if "map_of (AList.update ?k ?d' (carried_sinks c)) k = Some d" for k d
      using that new assms(2) unfolding sinks_ok_def by (metis map_of_update option.inject)
    then have "sinks_ok api (carry_inflight_sink_committables api cp c)"
      using False assms(2) batches_ok_delete [OF sinks_okD(1) [OF assms(2)]]
      unfolding carry_update Let_def sinks_ok_def by simp
    ultimately show ?thesis by blast
  qed
qed

lemma detach_accounting:
  assumes "sink_contract api writes" "sinks_ok api c"
  shows "sinks_ok api (detach_failed api cp c) \<and> retained_writes writes (detach_failed api cp c) = retained_writes writes c"
proof -
  let ?c = "c\<lparr>inflight_operator_states := AList.delete (cp_barrier_id cp) (inflight_operator_states c)\<rparr>"
  have v: "sink_view ?c = sink_view c" by (simp add: sink_view_def)
  have w: "sink_view (detach_failed api cp c) = sink_view (carry_inflight_sink_committables api cp ?c)"
    by (simp add: detach_failed_def begin_release_def sink_view_def)
  have "sinks_ok api ?c" unfolding sink_view_cong(1) [OF v] by (rule assms(2))
  from carry_accounting [OF assms(1) this, of cp] show ?thesis
    unfolding sink_view_cong(1) [OF w] sink_view_cong(2) [OF w] sink_view_cong(2) [OF v] .
qed

lemma commit_accounting:
  assumes "sink_contract api writes" "sinks_ok api c"
  shows "sinks_ok api (sink_committed (sink_committable_identity api e) c) \<and>
    retained_writes writes c \<subseteq>
      retained_writes writes (sink_committed (sink_committable_identity api e) c) \<union> writes (se_committable e)"
proof -
  let ?i = "sink_committable_identity api e"
  have del: "identified api (AList.delete ?i d)" if "identified api d" for d
    using that unfolding identified_def by (metis map_of_delete option.distinct(1) wf_dict_delete)
  have same: "writes (se_committable x) = writes (se_committable e)" if "map_of (pending_sinks c) ?i = Some x" for x
  proof (rule same_transaction_same_writes [OF assms(1)])
    have "?i = sink_committable_identity api x"
      using sinks_okD(5) [OF assms(2)] that unfolding identified_def by blast
    then show "transaction_id api (se_committable x) = transaction_id api (se_committable e)"
      by (simp add: sink_committable_identity_def)
  qed
  have "entries_writes writes (pending_sinks c) \<subseteq>
      entries_writes writes (AList.delete ?i (pending_sinks c)) \<union> writes (se_committable e)"
    using dict_union_delete [of "pending_sinks c" "\<lambda>e. writes (se_committable e)" ?i] sinks_okD(5) [OF assms(2)] same
    by (cases "map_of (pending_sinks c) ?i") (auto simp: entries_writes_def published_dict identified_def)
  then show ?thesis
    using assms(2) del by (auto simp: sink_committed_update retained_writes_def sinks_ok_def)
qed

subsection \<open>The shape of a merge\<close>

text \<open>All fields a merge can change, with the new value of those the accounting looks at.\<close>

definition newer_positions :: "'s source_entry list \<Rightarrow> (string, 's source_entry) dict \<Rightarrow> (string, 's source_entry) dict" where
  "newer_positions ps d =
     fold (\<lambda>e d. if (case map_of d (src_task_key e) of None \<Rightarrow> True | Some old \<Rightarrow> src_checkpoint_id e > src_checkpoint_id old)
                 then AList.update (src_task_key e) e d else d) ps d"

lemma fold_update_latest:
  "\<exists>r. fold update_latest_source_state ps c =
     c\<lparr>latest_source_states := newer_positions ps (latest_source_states c), state_revision := r\<rparr>"
proof (induction ps arbitrary: c)
  case Nil
  have "c = c\<lparr>latest_source_states := latest_source_states c, state_revision := state_revision c\<rparr>" by simp
  then show ?case unfolding newer_positions_def fold_simps by metis
next
  case (Cons e ps)
  obtain r where r: "fold update_latest_source_state ps (update_latest_source_state e c) =
      (update_latest_source_state e c)\<lparr>latest_source_states :=
        newer_positions ps (latest_source_states (update_latest_source_state e c)), state_revision := r\<rparr>"
    using Cons.IH by blast
  have "newer_positions ps (latest_source_states (update_latest_source_state e c)) = newer_positions (e # ps) (latest_source_states c)"
    by (simp add: newer_positions_def update_latest_source_state_def)
  then have "fold update_latest_source_state (e # ps) c =
      c\<lparr>latest_source_states := newer_positions (e # ps) (latest_source_states c), state_revision := r\<rparr>"
    using r by (simp add: update_latest_source_state_update)
  then show ?case by blast
qed

lemma operator_states_shape:
  "\<exists>r los ros sup tr. merge_completed_operator_states cp c =
     c\<lparr>state_revision := r, latest_operator_states := los, restored_operator_states := ros,
       superseded_rescale_operations := sup, transient_rescale_states := tr,
       inflight_operator_states := AList.delete (cp_barrier_id cp) (inflight_operator_states c)\<rparr>"
proof -
  let ?c = "merge_completed_operator_states cp c"
  have "?c = c\<lparr>state_revision := state_revision ?c, latest_operator_states := latest_operator_states ?c,
      restored_operator_states := restored_operator_states ?c,
      superseded_rescale_operations := superseded_rescale_operations ?c,
      transient_rescale_states := transient_rescale_states ?c,
      inflight_operator_states := AList.delete (cp_barrier_id cp) (inflight_operator_states c)\<rparr>"
    by (simp add: merge_completed_operator_states_def replace_logical_operator_states_def
        merge_checkpoint_operator_states_def Let_def)
  then show ?thesis by blast
qed

lemma finalize_shape:
  "\<exists>r los ros sup tr. finalize_rescale_operator_states operation c = c\<lparr>state_revision := r, latest_operator_states := los,
     restored_operator_states := ros, superseded_rescale_operations := sup, transient_rescale_states := tr\<rparr>"
proof -
  let ?c = "finalize_rescale_operator_states operation c"
  have "?c = c\<lparr>state_revision := state_revision ?c, latest_operator_states := latest_operator_states ?c,
      restored_operator_states := restored_operator_states ?c,
      superseded_rescale_operations := superseded_rescale_operations ?c,
      transient_rescale_states := transient_rescale_states ?c\<rparr>"
    by (simp add: finalize_rescale_operator_states_def Let_def)
  then show ?thesis by blast
qed

lemma stabilization_shape:
  "\<exists>r los ros sup tr rr. snd (record_rescale_stabilization_progress cp c) = c\<lparr>state_revision := r,
     latest_operator_states := los, restored_operator_states := ros, superseded_rescale_operations := sup,
     transient_rescale_states := tr, recovery_required_revision := rr\<rparr>"
proof -
  have same: "c = c\<lparr>state_revision := state_revision c, latest_operator_states := latest_operator_states c,
      restored_operator_states := restored_operator_states c,
      superseded_rescale_operations := superseded_rescale_operations c,
      transient_rescale_states := transient_rescale_states c,
      recovery_required_revision := recovery_required_revision c\<rparr>" by simp
  consider "snd (record_rescale_stabilization_progress cp c) = c"
    | operation rr where "snd (record_rescale_stabilization_progress cp c) =
        (finalize_rescale_operator_states operation c)\<lparr>recovery_required_revision := rr\<rparr>"
  proof (cases "recovery_fence c")
    case None
    then show ?thesis using that(1) by (simp add: record_rescale_stabilization_progress_def)
  next
    case (Some operation)
    let ?f = "finalize_rescale_operator_states operation c"
    have "snd (record_rescale_stabilization_progress cp c) \<in>
        {c, ?f\<lparr>recovery_required_revision := recovery_required_revision ?f\<rparr>, ?f\<lparr>recovery_required_revision := Some (state_revision ?f)\<rparr>}"
      using Some by (simp add: record_rescale_stabilization_progress_def Let_def)
    then show ?thesis using that(1) that(2) [where operation = operation] by blast
  qed
  then show ?thesis
  proof cases
    case 1
    then show ?thesis using same by metis
  next
    case (2 operation rr)
    obtain r los ros sup tr where "finalize_rescale_operator_states operation c = c\<lparr>state_revision := r,
        latest_operator_states := los, restored_operator_states := ros, superseded_rescale_operations := sup,
        transient_rescale_states := tr\<rparr>" using finalize_shape by blast
    then show ?thesis unfolding 2 by (metis (no_types))
  qed
qed

lemma merge_shape:
  assumes "merge_aligned_checkpoint_progress sha api cp states c = Inr (has, ready, c')"
  obtains completed carried positions r los ros sup tr rr where
    "coalesce_sink_committables sha api (job_id c) (cp_barrier_id cp) (dict_get (inflight_sinks c) (cp_barrier_id cp) []) = Inr completed"
    "coalesce_carried_sink_committables sha api (job_id c)
       (concat (map (\<lambda>d. map snd (dict_get (carried_sinks c) d [])) (carried_domains_for_checkpoint cp c))) = Inr carried"
    "rmap (\<lambda>(v, s). make_source_entry (task_key_of v) (cp_barrier_id cp) s) states = Inr positions"
    "c' = c\<lparr>latest_source_states := newer_positions positions (latest_source_states c), state_revision := r,
       latest_operator_states := los, restored_operator_states := ros, superseded_rescale_operations := sup,
       transient_rescale_states := tr, recovery_required_revision := rr,
       inflight_operator_states := AList.delete (cp_barrier_id cp) (inflight_operator_states c),
       inflight_sinks := AList.delete (cp_barrier_id cp) (inflight_sinks c),
       pending_sinks := fold (add_identified api) (map snd completed) (update_states carried (pending_sinks c)),
       carried_sinks := fold AList.delete (carried_domains_for_checkpoint cp c) (carried_sinks c)\<rparr>"
    "has = (carried \<noteq> [] \<or> completed \<noteq> [])"
proof -
  let ?b = "cp_barrier_id cp" and ?ds = "carried_domains_for_checkpoint cp c"
  obtain completed carried positions where run:
    "coalesce_sink_committables sha api (job_id c) ?b (dict_get (inflight_sinks c) ?b []) = Inr completed"
    "coalesce_carried_sink_committables sha api (job_id c) (concat (map (\<lambda>d. map snd (dict_get (carried_sinks c) d [])) ?ds)) = Inr carried"
    "rmap (\<lambda>(v, s). make_source_entry (task_key_of v) ?b s) states = Inr positions"
    using assms unfolding merge_aligned_checkpoint_progress_def Let_def by (auto simp: result_simps)
  define c1 where "c1 = fold update_latest_source_state positions c"
  define c2 where "c2 = merge_completed_operator_states cp c1"
  define c3 where "c3 = absorb_sink_committables api ?b completed carried c2"
  define c4 where "c4 = snd (record_rescale_stabilization_progress cp c3)"
  obtain r1 where 1: "c1 = c\<lparr>latest_source_states := newer_positions positions (latest_source_states c), state_revision := r1\<rparr>"
    unfolding c1_def using fold_update_latest by blast
  obtain r2 los2 ros2 sup2 tr2 where 2: "c2 = c1\<lparr>state_revision := r2, latest_operator_states := los2,
      restored_operator_states := ros2, superseded_rescale_operations := sup2, transient_rescale_states := tr2,
      inflight_operator_states := AList.delete ?b (inflight_operator_states c1)\<rparr>"
    unfolding c2_def using operator_states_shape by blast
  obtain r4 los ros sup tr rr where 4: "c4 = c3\<lparr>state_revision := r4, latest_operator_states := los,
      restored_operator_states := ros, superseded_rescale_operations := sup, transient_rescale_states := tr,
      recovery_required_revision := rr\<rparr>"
    unfolding c4_def using stabilization_shape by blast
  have "has = (carried \<noteq> [] \<or> completed \<noteq> []) \<and> c' = c4\<lparr>carried_sinks := fold AList.delete ?ds (carried_sinks c4)\<rparr>"
    using assms unfolding merge_aligned_checkpoint_progress_def Let_def run rbind_Inr c1_def [symmetric] c2_def [symmetric]
      c3_def [symmetric] c4_def by (auto split: prod.splits)
  then show thesis
    by (intro that [OF run, where r = r4 and los = los and ros = ros and sup = sup and tr = tr and rr = rr])
      (simp_all add: 4 c3_def absorb_sink_committables_def 2 1)
qed

lemma update_states_identified:
  assumes "identified api new"
  shows "update_states new d = fold (add_identified api) (map snd new) d"
proof -
  have "i = sink_committable_identity api e" if "(i, e) \<in> set new" for i e
    using assms map_of_is_SomeI [OF _ that] that unfolding identified_def by blast
  then show ?thesis
  proof (induction new arbitrary: d)
    case (Cons x new)
    obtain i e where x: "x = (i, e)" by (rule prod.exhaust)
    have "update_states new d' = fold (add_identified api) (map snd new) d'" for d'
      using Cons.IH Cons.prems by simp
    then show ?case using Cons.prems [of i e]
      by (simp add: x update_states_def add_identified_def [of api e])
  qed (simp add: update_states_def)
qed

lemma fold_delete:
  assumes "wf_dict d"
  shows "wf_dict (fold AList.delete ks d)" "map_of (fold AList.delete ks d) k = (if k \<in> set ks then None else map_of d k)"
proof -
  have "wf_dict (fold AList.delete ks d) \<and> (\<forall>k. map_of (fold AList.delete ks d) k = (if k \<in> set ks then None else map_of d k))"
    using assms
  proof (induction ks arbitrary: d)
    case (Cons k' ks)
    from Cons.IH [of "AList.delete k' d"] Cons.prems show ?case unfolding fold_simps by (simp add: wf_dict_delete)
  qed simp
  then show "wf_dict (fold AList.delete ks d)" "map_of (fold AList.delete ks d) k = (if k \<in> set ks then None else map_of d k)"
    by blast+
qed

lemma merge_accounting:
  assumes "sink_contract api writes" "sinks_ok api c"
    and run: "merge_aligned_checkpoint_progress sha api cp states c = Inr (has, ready, c')"
  shows "sinks_ok api c' \<and> retained_writes writes c \<subseteq> retained_writes writes c'"
proof -
  let ?b = "cp_barrier_id cp" and ?ds = "carried_domains_for_checkpoint cp c"
  let ?entries = "concat (map (\<lambda>d. map snd (dict_get (carried_sinks c) d [])) ?ds)"
  from run obtain completed carried positions r los ros sup tr rr where
    co: "coalesce_sink_committables sha api (job_id c) ?b (dict_get (inflight_sinks c) ?b []) = Inr completed"
    "coalesce_carried_sink_committables sha api (job_id c) ?entries = Inr carried"
    and "rmap (\<lambda>(v, s). make_source_entry (task_key_of v) ?b s) states = Inr positions"
    and c': "c' = c\<lparr>latest_source_states := newer_positions positions (latest_source_states c), state_revision := r,
       latest_operator_states := los, restored_operator_states := ros, superseded_rescale_operations := sup,
       transient_rescale_states := tr, recovery_required_revision := rr,
       inflight_operator_states := AList.delete ?b (inflight_operator_states c),
       inflight_sinks := AList.delete ?b (inflight_sinks c),
       pending_sinks := fold (add_identified api) (map snd completed) (update_states carried (pending_sinks c)),
       carried_sinks := fold AList.delete ?ds (carried_sinks c)\<rparr>"
    and "has = (carried \<noteq> [] \<or> completed \<noteq> [])" by (rule merge_shape)
  have "published writes (map snd completed) = entries_writes writes (dict_get (inflight_sinks c) ?b [])"
    using coalesce_spec [OF assms(1) _ _ co(1)] sinks_okD(4) [OF assms(2), of ?b]
    by (auto simp: batch_ok_def coalesced_def entries_writes_def)
  moreover have wk: "writer_key (se_task_key e)" if "e \<in> set (map snd (dict_get (carried_sinks c) d []))" for d e
    using sinks_okD(3) [OF assms(2), of d] that values_iff_map_of [of "dict_get (carried_sinks c) d []" e]
    unfolding bucket_ok_def identified_def by blast
  then have "\<forall>e \<in> set ?entries. writer_key (se_task_key e)" by auto
  note carried = coalesce_carried_spec [OF assms(1) this co(2)]
  have "published writes ?entries = (\<Union>d \<in> set ?ds. entries_writes writes (dict_get (carried_sinks c) d []))"
    by (auto simp: published_def entries_writes_def)
  moreover have pend: "pending_sinks c' = fold (add_identified api) (map snd carried @ map snd completed) (pending_sinks c)"
    using update_states_identified [of api carried "pending_sinks c"] carried by (simp add: c')
  note pending = fold_add_identified_spec [OF assms(1) sinks_okD(5) [OF assms(2)], of "map snd carried @ map snd completed", folded pend]
  have i: "dict_union (entries_writes writes) (inflight_sinks c) =
      dict_union (entries_writes writes) (inflight_sinks c') \<union> entries_writes writes (dict_get (inflight_sinks c) ?b [])"
    using dict_union_delete_get [of "inflight_sinks c" "entries_writes writes" ?b] sinks_okD(1) [OF assms(2)]
    by (simp add: batches_ok_def c')
  have k: "dict_union (entries_writes writes) (carried_sinks c) \<subseteq> dict_union (entries_writes writes) (carried_sinks c') \<union>
      (\<Union>d \<in> set ?ds. entries_writes writes (dict_get (carried_sinks c) d []))"
    using dict_union_delete_all [OF sinks_okD(2) [OF assms(2)], of "entries_writes writes" ?ds] by (simp add: c')
  ultimately have "retained_writes writes c \<subseteq> retained_writes writes c'"
    unfolding retained_writes_def i using k pending carried by (auto simp: entries_writes_def)
  moreover have "bucket_ok api x" if "map_of (fold AList.delete ?ds (carried_sinks c)) k = Some x" for k x
    using that fold_delete(2) [OF sinks_okD(2) [OF assms(2)], of ?ds k] assms(2) unfolding sinks_ok_def by (metis option.distinct(1))
  then have "wf_dict (carried_sinks c') \<and> (\<forall>k x. map_of (carried_sinks c') k = Some x \<longrightarrow> bucket_ok api x)"
    using fold_delete(1) [OF sinks_okD(2) [OF assms(2)], of ?ds] unfolding c' by simp
  then have "sinks_ok api c'"
    using pending batches_ok_delete [OF sinks_okD(1) [OF assms(2)]] sinks_okD(6) [OF assms(2)] unfolding sinks_ok_def
    by (simp add: c')
  ultimately show ?thesis by blast
qed


definition buckets_ok :: "'c sink_api \<Rightarrow> (string option, (sink_identity, 'c sink_entry) dict) dict \<Rightarrow> bool" where
  "buckets_ok api d \<longleftrightarrow> wf_dict d \<and> (\<forall>k x. map_of d k = Some x \<longrightarrow> bucket_ok api x)"

lemma remap_entry_accounting:
  assumes "sink_contract api writes" "buckets_ok api acc" "i = sink_committable_identity api e" "writer_key (se_task_key e)"
  shows "buckets_ok api (remap_entry ds (p, i, e) acc) \<and>
    dict_union (entries_writes writes) (remap_entry ds (p, i, e) acc) =
      writes (se_committable e) \<union> dict_union (entries_writes writes) acc"
proof -
  define d where "d = remapped_domain ds p e"
  define x where "x = dict_get acc d []"
  have x: "bucket_ok api x"
    using assms(2) unfolding x_def buckets_ok_def dict_get_def
    by (cases "map_of acc d") (simp_all add: bucket_ok_def identified_def)
  have e: "remap_entry ds (p, i, e) acc = AList.update d (add_identified api e x) acc"
    by (simp add: remap_entry_def Let_def d_def x_def add_identified_def assms(3))
  from bucket_ok_fold [OF assms(1) x, of "[e]"] assms(4)
  have new: "bucket_ok api (add_identified api e x)"
    "entries_writes writes (add_identified api e x) = writes (se_committable e) \<union> entries_writes writes x" by simp_all
  have "dict_union (entries_writes writes) (AList.update d (add_identified api e x) acc) =
      entries_writes writes (add_identified api e x) \<union> dict_union (entries_writes writes) acc"
    by (rule dict_union_update) (use new(2) in \<open>auto simp: x_def dict_get_def\<close>)
  moreover have "entries_writes writes x \<subseteq> dict_union (entries_writes writes) acc"
    unfolding x_def by (rule dict_get_union) simp
  moreover have "buckets_ok api (AList.update d (add_identified api e x) acc)"
    using new(1) assms(2) unfolding buckets_ok_def by (metis map_of_update option.inject wf_dict_update)
  ultimately show ?thesis unfolding e new(2) by blast
qed

lemma remap_fold_accounting:
  assumes "sink_contract api writes" "buckets_ok api acc"
    and "\<forall>(p, i, e) \<in> set xs. i = sink_committable_identity api e \<and> writer_key (se_task_key e)"
  shows "buckets_ok api (fold (remap_entry ds) xs acc) \<and>
    dict_union (entries_writes writes) (fold (remap_entry ds) xs acc) =
      published writes (map (snd \<circ> snd) xs) \<union> dict_union (entries_writes writes) acc"
  using assms(2,3)
proof (induction xs arbitrary: acc)
  case (Cons x xs)
  obtain p i e where x: "x = (p, i, e)" by (rule prod_cases3)
  have "i = sink_committable_identity api e" "writer_key (se_task_key e)" using Cons.prems(2) by (auto simp: x)
  note step = remap_entry_accounting [OF assms(1) Cons.prems(1) this, of ds p]
  have "\<forall>(p, i, e) \<in> set xs. i = sink_committable_identity api e \<and> writer_key (se_task_key e)" using Cons.prems(2) by simp
  from Cons.IH [OF conjunct1 [OF step] this] step show ?case by (auto simp: x)
qed simp

lemma remap_accounting:
  assumes "sink_contract api writes" "sinks_ok api c"
  shows "sinks_ok api (remap_carried_sink_domains ds c) \<and>
    retained_writes writes (remap_carried_sink_domains ds c) = retained_writes writes c"
proof -
  let ?xs = "concat (map (\<lambda>(d, es). map (\<lambda>(i, e). (d, i, e)) es) (carried_sinks c))"
  have "i = sink_committable_identity api e \<and> writer_key (se_task_key e)" if "(p, i, e) \<in> set ?xs" for p i e
  proof -
    from that obtain es where m: "(p, es) \<in> set (carried_sinks c)" "(i, e) \<in> set es" by auto
    then have "bucket_ok api es" using map_of_is_SomeI [OF sinks_okD(2) [OF assms(2)] m(1)] assms(2) unfolding sinks_ok_def by blast
    then show ?thesis using map_of_is_SomeI [of es i e] m(2) unfolding bucket_ok_def identified_def by blast
  qed
  then have ok: "\<forall>(p, i, e) \<in> set ?xs. i = sink_committable_identity api e \<and> writer_key (se_task_key e)" by blast
  have "buckets_ok api []" by (simp add: buckets_ok_def)
  from remap_fold_accounting [OF assms(1) this ok, of ds]
  have new: "buckets_ok api (carried_sinks (remap_carried_sink_domains ds c))"
    "dict_union (entries_writes writes) (carried_sinks (remap_carried_sink_domains ds c)) = published writes (map (snd \<circ> snd) ?xs)"
    by (simp_all add: remap_carried_sink_domains_def)
  have "published writes (map (snd \<circ> snd) ?xs) = dict_union (entries_writes writes) (carried_sinks c)"
    by (force simp: published_def dict_union_def entries_writes_def)
  with new assms(2) show ?thesis
    unfolding sinks_ok_def retained_writes_def buckets_ok_def by (simp add: remap_carried_sink_domains_def)
qed

subsection \<open>Every handler\<close>

lemma persist_written_accounting:
  assumes "sink_contract api writes" "sinks_ok api c"
  shows "sinks_ok api (persist_written api path restored c) \<and>
    retained_writes writes (persist_written api path restored c) = retained_writes writes c"
proof (cases "persisting c")
  case (Some ps)
  have "identified api (durable_sinks (persist_written api path restored c))"
    using fold_add_identified_spec [OF assms(1), of "[]"] Some by (simp add: persist_written_def identified_def Let_def)
  with Some assms(2) show ?thesis by (simp add: persist_written_def sinks_ok_def retained_writes_def Let_def)
qed (use assms(2) in \<open>simp add: persist_written_def\<close>)


definition keeps_sinks :: "'c sink_api \<Rightarrow> ('c \<Rightarrow> 'w set) \<Rightarrow> ('c, 's) coordinator \<Rightarrow> ('c, 's) coordinator \<Rightarrow> bool" where
  "keeps_sinks api writes c c' \<longleftrightarrow> (sinks_ok api c \<longrightarrow> sinks_ok api c' \<and> retained_writes writes c \<subseteq> retained_writes writes c')"

lemma keeps_same_view: "sink_view c' = sink_view c \<Longrightarrow> keeps_sinks api writes c c'"
  using sink_view_cong(1) [of c' c api] sink_view_cong(2) [of c' c writes] unfolding keeps_sinks_def by blast

lemma keeps_trans: "keeps_sinks api writes c c' \<Longrightarrow> keeps_sinks api writes c' c'' \<Longrightarrow> keeps_sinks api writes c c''"
  unfolding keeps_sinks_def by blast

lemma keeps_detach:
  assumes "sink_contract api writes" "sink_view c' = sink_view c"
  shows "keeps_sinks api writes c (detach_failed api cp c')"
  using detach_accounting [OF assms(1), of c' cp] sink_view_cong(1) [OF assms(2), of api] sink_view_cong(2) [OF assms(2), of writes]
  unfolding keeps_sinks_def by blast

lemma keeps_collected:
  fixes c :: "('c, 's) coordinator"
  assumes "sink_contract api writes"
  shows "keeps_sinks api writes c (complete_collected sha api b answers c)"
proof -
  have phase: "keeps_sinks api writes d (set_phase b cp ph d)" "keeps_sinks api writes d (finish_completion b cp d)"
    for d :: "('c, 's) coordinator" and cp ph
    by (rule keeps_same_view, simp add: sink_view_def small_steps Let_def)+
  show ?thesis
  proof (cases rule: completion_cases [of sha api b answers c])
    case same
    then show ?thesis by (simp add: keeps_same_view)
  next
    case (failed cp)
    then show ?thesis using keeps_trans [OF keeps_detach [OF assms refl] phase(1)] by simp
  next
    case (merged cp states has ready c1)
    have "keeps_sinks api writes c c1"
      using merge_accounting [OF assms _ merged(3)] unfolding keeps_sinks_def by blast
    from keeps_trans [OF this phase(1)] keeps_trans [OF this phase(2)] show ?thesis by (simp add: merged(4))
  qed
qed

lemma keeps_failures:
  assumes "sink_contract api writes"
  shows "expire_next api c = Inr c' \<Longrightarrow> keeps_sinks api writes c c'"
    and "keeps_sinks api writes c (rescale_abort_next api c)"
proof -
  assume e: "expire_next api c = Inr c'"
  show "keeps_sinks api writes c c'"
  proof (cases "expiring c")
    case Nil
    then show ?thesis using e by (simp add: expire_next_def keeps_same_view)
  next
    case (Cons b bs)
    with e obtain cp where "c' = detach_failed api cp (release_domain_slot cp
        (c\<lparr>inflight_checkpoints := AList.delete b (inflight_checkpoints c), expiring := bs\<rparr>))"
      by (auto simp: expire_next_def split: option.splits)
    then show ?thesis by (simp only:) (rule keeps_detach [OF assms], simp add: sink_view_def as_update)
  qed
next
  show "keeps_sinks api writes c (rescale_abort_next api c)"
    using keeps_detach [OF assms, of "c\<lparr>aborting := tl (aborting c)\<rparr>" c "hd (aborting c)"]
    by (cases "aborting c") (simp_all add: rescale_abort_next_def sink_view_def keeps_same_view)
qed

lemma keeps_reconfigure:
  assumes "sink_contract api writes" "reconfigure_execution_graph sha acks g c = Inr c'"
  shows "keeps_sinks api writes c c'"
proof -
  obtain ds where c': "c' = (let c1 = remap_carried_sink_domains ds (c\<lparr>c_graph := Some g, c_domains := ds\<rparr>);
      live = map ev_id (subtasks_of g (source_job_vertices g))
    in c1\<lparr>required_acks := acks, active_by_domain := [], finished_sources := filter (\<lambda>v. v \<in> set live) (finished_sources c1)\<rparr>)"
    using assms(2) by (auto simp: reconfigure_execution_graph_def result_simps Let_def split: if_splits)
  let ?d = "c\<lparr>c_graph := Some g, c_domains := ds\<rparr>"
  have "keeps_sinks api writes c ?d" by (rule keeps_same_view) (simp add: sink_view_def)
  moreover have "keeps_sinks api writes ?d (remap_carried_sink_domains ds ?d)"
    unfolding keeps_sinks_def using remap_accounting [OF assms(1)] by blast
  moreover have "keeps_sinks api writes (remap_carried_sink_domains ds ?d) c'"
    unfolding c' Let_def by (rule keeps_same_view) (simp add: sink_view_def)
  ultimately show ?thesis by (meson keeps_trans)
qed

lemma coordinator_accounting:
  fixes c0 :: "('c, 's) coordinator"
  assumes run: "coordinator_run sha api c0 c h" and contract: "sink_contract api writes" and start: "sinks_ok api c0"
  shows "sinks_ok api c \<and>
    published writes (registered h) \<union> retained_writes writes c0 \<subseteq> retained_writes writes c \<union> published writes (committed h)"
    (is "?I c h")
proof -
  have keep: "?I c' h'" if "?I c h" "keeps_sinks api writes c c'" "registered h' = registered h" "committed h' = committed h"
    for c c' :: "('c, 's) coordinator" and h h' :: "('c, 's) history"
    using that unfolding keeps_sinks_def by (metis (no_types, lifting) Un_mono order_refl subset_trans)
  show ?thesis
    using run
  proof (induction rule: coordinator_run.induct)
    case run_start
    then show ?case using start by (simp add: no_history_def)
  next
    case (run_sink c h b v x r c')
    from register_sink_accounting [OF contract conjunct1 [OF run_sink.IH] run_sink.hyps(2)] run_sink.IH
    show ?case by (auto simp: note_registered_def)
  next
    case (run_collected c h b answers c')
    then show ?case using keeps_collected [OF contract, of c sha b answers] keep [OF run_collected.IH]
      by (simp add: note_merge_def)
  next
    case (run_expire_next c h c')
    show ?case using keep [OF run_expire_next.IH keeps_failures(1) [OF contract run_expire_next.hyps(2)]] by simp
  next
    case (run_abort c h)
    show ?case using keep [OF run_abort.IH keeps_failures(2) [OF contract]] by simp
  next
    case (run_reconfigure c h acks g c')
    show ?case using keep [OF run_reconfigure.IH keeps_reconfigure [OF contract run_reconfigure.hyps(2)]] by simp
  next
    case (run_written c h path restored)
    have "keeps_sinks api writes c (persist_written api path restored c)"
      unfolding keeps_sinks_def using persist_written_accounting [OF contract] by blast
    from keep [OF run_written.IH this] show ?case by (simp add: note_written_def split: option.split)
  next
    case (run_commit c h e)
    from commit_accounting [OF contract conjunct1 [OF run_commit.IH], of e] run_commit.IH show ?case by auto
  qed (rule keep, assumption, rule keeps_same_view, simp add: sink_frames, rule refl, rule refl)+
qed



subsection \<open>A run\<close>

text \<open>
  A source and a sink with one subtask each, and one checkpoint from its registration to the commit of
  the sink's transaction.
\<close>

definition demo_pipeline :: egraph where
  "demo_pipeline =
     (let run = \<lambda>t jv. jv\<lparr>execution_vertices := map (\<lambda>(i, x). (i, x\<lparr>stream_task := Some t\<rparr>)) (execution_vertices jv)\<rparr>;
          s = run 0 (make_job_vertex (\<lambda>_. ''g'') (demo_spec 0 True 1)); t = run 1 (make_job_vertex (\<lambda>_. ''g'') (demo_spec 1 False 1));
          x = \<lambda>j. \<lparr>job_vertex_id = j, vertex_index = 0\<rparr>
      in \<lparr>g_namespace = ''n'', job_vertices = [(0, s), (1, t)],
          job_edges = [\<lparr>je_source = 0, je_target = 1,
            je_partitioner = \<lparr>forward_class = False, spec_topology = ALL_TO_ALL\<rparr>,
            execution_edges = [(x 0, x 1)]\<rparr>], topology_epochs = []\<rparr>)"

definition demo_source :: vertex_id where
  "demo_source = \<lparr>job_vertex_id = 0, vertex_index = 0\<rparr>"

definition demo_sink :: vertex_id where
  "demo_sink = \<lparr>job_vertex_id = 1, vertex_index = 0\<rparr>"

definition demo_digest :: "string \<Rightarrow> string" where
  "demo_digest s = ''d''"

definition demo_coordinator :: "(nat, nat) coordinator" where
  "demo_coordinator = projr (rbind (make_coordinator ''n'' (PInt 10) (PInt 0) (PInt 1) (PInt 1) (PInt 60) (PInt 5))
     (open_coordinator demo_digest demo_api [] \<lparr>rs_path = None, rs_metadata_revision = 0, rs_source_states = [],
       rs_high_water = 0, rs_operator_states = [], rs_sink_committables = []\<rparr> demo_pipeline))"

definition demo1 :: "(nat, nat) coordinator" where
  "demo1 = snd (snd (register_checkpoint 5 False demo_source demo_coordinator))"

definition demo2 :: "(nat, nat) coordinator" where
  "demo2 = snd (register_sink_committable demo_api 1 demo_sink 6 demo1)"

definition demo3 :: "(nat, nat) coordinator" where
  "demo3 = snd (notify_checkpoint_aligned 9 1 demo_sink demo2)"

definition demo4 :: "(nat, nat) coordinator" where
  "demo4 = complete_collected demo_digest demo_api 1 (\<lambda>_. Some 3) demo3"

definition demo5 :: "(nat, nat) coordinator" where
  "demo5 = persist_written demo_api ''p'' [] (persist_begin demo4)"

definition demo_transaction :: "nat sink_entry" where
  "demo_transaction = \<lparr>se_task_key = ''1:0'', se_checkpoint_id = 1, se_committable = 6\<rparr>"

definition demo_history :: "(nat, nat) history" where
  "demo_history = \<lparr>registered = [demo_transaction],
     merges = [([sink_committable_identity demo_api demo_transaction], 1, [demo_source])],
     manifests = [take_persist_snapshot demo4], committed = [demo_transaction]\<rparr>"

lemma demo_run:
  "coordinator_run demo_digest demo_api demo_coordinator
     (sink_committed (sink_committable_identity demo_api demo_transaction) demo5) demo_history"
proof -
  let ?run = "coordinator_run demo_digest demo_api demo_coordinator"
  let ?h1 = "note_registered demo_api 1 demo_sink 6 (Inr True) no_history"
  obtain r reqs c1 where 1: "register_checkpoint 5 False demo_source demo_coordinator = (r, reqs, c1)" by (rule prod_cases3)
  from run_register [OF run_start 1] have "?run demo1 no_history" by (simp add: demo1_def 1)
  moreover have "register_sink_committable demo_api 1 demo_sink 6 demo1 = (Inr True, demo2)"
    unfolding demo2_def prod_eq_iff snd_conv by (intro conjI refl) code_simp
  ultimately have "?run demo2 ?h1" by (rule run_sink)
  moreover obtain a c3 where 3: "notify_checkpoint_aligned 9 1 demo_sink demo2 = (a, c3)" by (rule prod.exhaust)
  ultimately have "?run c3 ?h1" by (rule run_aligned)
  then have "?run demo3 ?h1" by (simp add: demo3_def 3)
  then have "?run demo4 (note_merge 1 demo3 demo4 ?h1)" by (rule run_collected) (simp add: demo4_def)
  moreover have "persisting demo4 = None" by code_simp
  ultimately have "?run (persist_begin demo4) (note_merge 1 demo3 demo4 ?h1)" by (rule run_persist)
  then have 5: "?run demo5 (note_written (persist_begin demo4) (note_merge 1 demo3 demo4 ?h1))"
    unfolding demo5_def by (rule run_written)
  define h where "h = note_written (persist_begin demo4) (note_merge 1 demo3 demo4 ?h1)"
  have "demo_transaction \<in> set (map snd (durable_sinks demo5))" by code_simp
  with run_commit [OF 5 [folded h_def]]
  have "?run (sink_committed (sink_committable_identity demo_api demo_transaction) demo5)
      (h\<lparr>committed := committed h @ [demo_transaction]\<rparr>)" by blast
  moreover have "persisting (persist_begin demo4) = Some (take_persist_snapshot demo4)" by code_simp
  moreover have "merges (note_merge 1 demo3 demo4 no_history) =
      [([sink_committable_identity demo_api demo_transaction], 1, [demo_source])]" by code_simp
  moreover have "task_key_of demo_sink = ''1:0''" by code_simp
  ultimately show ?thesis
    unfolding h_def demo_history_def note_written_def note_merge_def note_registered_def no_history_def demo_transaction_def by simp
qed

lemma demo_sinks_ok: "sinks_ok demo_api demo_coordinator"
proof -
  have "sink_view demo_coordinator = ([], [], [], [])" by code_simp
  then show ?thesis by (simp add: sink_view_def sinks_ok_def batches_ok_def identified_def)
qed


end
