(* ===== verification/CommitDurability.thy ===== *)
theory CommitDurability
  imports SinkAccounting
begin

section \<open>Sink transactions are committed only once they are durable\<close>

text \<open>
  Exactly-once delivery rests on an order: the manifest that lists a sink transaction together with
  the source positions of the epoch that delivered it is written before the transaction is committed.
  This theory shows it for all interleavings of the coordinator's handlers.
\<close>

definition progress_view :: "('c, 's) coordinator \<Rightarrow> _" where
  "progress_view c = (latest_source_states c, persisting c)"

named_theorems progress_frames \<open>handlers that change neither source positions nor the write under way\<close>

lemma progress_view_stabilization:
  assumes "register_rescale_stabilization_checkpoint now v c = (r, c')"
  shows "progress_view c' = progress_view c"
proof -
  have "progress_view d' = progress_view d" if "open_stabilization now d = (bo, d')" for d d' :: "('c, 's) coordinator" and bo
    using that
    by (auto simp: open_stabilization_def Let_def progress_view_def next_id_def small_steps split: option.splits if_splits)
  then show ?thesis
    using assms
    by (fastforce simp: register_rescale_stabilization_checkpoint_def Let_def progress_view_def
        split: option.splits if_splits prod.splits)
qed

lemma progress_view_register [progress_frames]:
  "register_checkpoint now force v c = (r, reqs, c') \<Longrightarrow> progress_view c' = progress_view c"
  by (auto simp: register_checkpoint_def admit_checkpoint_def Let_def next_id_def small_steps progress_view_stabilization
      split: option.splits if_splits prod.splits sum.splits) (simp_all add: progress_view_def small_steps)

lemma progress_view_reports [progress_frames]:
  "source_checkpoint_started b v eof c = (ok, c') \<Longrightarrow> progress_view c' = progress_view c"
  "register_operator_state b v ref c = (r, c') \<Longrightarrow> progress_view c' = progress_view c"
  "register_operator_checkpoint_metrics b v ms c = (ok, c') \<Longrightarrow> progress_view c' = progress_view c"
  "notify_checkpoint_aligned now b v c = (a, c') \<Longrightarrow> progress_view c' = progress_view c"
  by (auto simp: source_checkpoint_started_def register_operator_state_def register_operator_checkpoint_metrics_def
      notify_checkpoint_aligned_def small_steps progress_view_def Let_def
      split: option.splits if_splits prod.splits sum.splits)

lemma progress_view_sink [progress_frames]:
  "register_sink_committable api b v x c = (r, c') \<Longrightarrow> progress_view c' = progress_view c"
  by (erule register_sink_cases) (simp_all add: progress_view_def)

lemma progress_view_completion [progress_frames]:
  "progress_view (complete_persisted b ok c) = progress_view c"
  "progress_view (complete_closed b c) = progress_view c"
  "progress_view (retry_release rpc b c) = progress_view c"
  "progress_view (expire_begin now c) = progress_view c"
  "progress_view (detach_failed api cp c) = progress_view c"
  "progress_view (rescale_abort_next api c) = progress_view c"
  "progress_view (sink_committed i c) = progress_view c"
  by (auto simp: complete_persisted_def complete_closed_def retry_release_def small_steps progress_view_def Let_def
      rescale_abort_next_def split: option.splits prod.splits completion_phase.splits list.splits)

lemma progress_view_expire [progress_frames]: "expire_next api c = Inr c' \<Longrightarrow> progress_view c' = progress_view c"
  by (auto simp: expire_next_def progress_view_completion split: list.splits option.splits)
    (simp add: progress_view_def as_update)

lemma progress_view_fence [progress_frames]: "progress_view (clear_rescale_recovery_fence_if_durable c) = progress_view c"
  by (auto simp: clear_rescale_recovery_fence_if_durable_def progress_view_def split: option.splits)

lemma progress_view_rescale [progress_frames]:
  "begin_operator_rescale op timeout expired c = (u, c') \<Longrightarrow> progress_view c' = progress_view c"
  "rescale_quiesced expired c = (a, c') \<Longrightarrow> progress_view c' = progress_view c"
  "finish_operator_rescale sha opid done target c = (r, c') \<Longrightarrow> progress_view c' = progress_view c"
  "reconfigure_execution_graph sha acks g c = Inr c' \<Longrightarrow> progress_view c' = progress_view c"
  "stage_operator_rescale_state opid j p parts c = Inr c' \<Longrightarrow> progress_view c' = progress_view c"
  "discard_operator_rescale_state opid jv c = (ok, c') \<Longrightarrow> progress_view c' = progress_view c"
  by (auto simp: begin_operator_rescale_def small_steps rescale_quiesced_def finish_operator_rescale_def stage_operator_rescale_state_def
      discard_operator_rescale_state_def reconfigure_execution_graph_def remap_carried_sink_domains_def progress_view_def
      Let_def result_simps split: pyobj.splits if_splits sum.splits)

lemma progress_view_notify [progress_frames]: "progress_view (notify_durable_source_checkpoints answers c) = progress_view c"
  by (rule notify_updates [of answers c]) (simp add: progress_view_def)


subsection \<open>Source positions of a merge\<close>

definition covers :: "'s source_entry list \<Rightarrow> int \<Rightarrow> vertex_id list \<Rightarrow> bool" where
  "covers ps b srcs \<longleftrightarrow> (\<forall>v \<in> set srcs. \<exists>p \<in> set ps. src_task_key p = task_key_of v \<and> b \<le> src_checkpoint_id p)"

lemma newer_positions_step:
  "newer_positions (e # ps) d = newer_positions ps (newer_positions [e] d)"
  by (simp add: newer_positions_def)

definition latest_at :: "(string, 's source_entry) dict \<Rightarrow> string \<Rightarrow> int \<Rightarrow> bool" where
  "latest_at d k b \<longleftrightarrow> (\<exists>e. map_of d k = Some e \<and> src_task_key e = k \<and> b \<le> src_checkpoint_id e)"

lemma latest_at_covers: "\<forall>v \<in> set srcs. latest_at d (task_key_of v) b \<Longrightarrow> covers (map snd d) b srcs"
  unfolding covers_def latest_at_def by (metis map_of_SomeD image_eqI snd_conv set_map)

definition self_keyed :: "(string, 's source_entry) dict \<Rightarrow> bool" where
  "self_keyed d \<longleftrightarrow> (\<forall>k x. map_of d k = Some x \<longrightarrow> src_task_key x = k)"

lemma self_keyed_update: "self_keyed d \<Longrightarrow> self_keyed (AList.update (src_task_key e) e d)"
  unfolding self_keyed_def by (metis map_of_update option.inject)

lemma newer_position_one:
  "latest_at d k b \<Longrightarrow> latest_at (newer_positions [e] d) k b"
  "self_keyed d \<Longrightarrow> latest_at (newer_positions [e] d) (src_task_key e) (src_checkpoint_id e)"
  "self_keyed d \<Longrightarrow> self_keyed (newer_positions [e] d)"
proof -
  show "latest_at d k b \<Longrightarrow> latest_at (newer_positions [e] d) k b"
    "self_keyed d \<Longrightarrow> latest_at (newer_positions [e] d) (src_task_key e) (src_checkpoint_id e)"
    by (force simp: latest_at_def newer_positions_def self_keyed_def split: option.splits)+
  show "self_keyed d \<Longrightarrow> self_keyed (newer_positions [e] d)"
    by (simp add: newer_positions_def self_keyed_update)
qed

lemma newer_positions_latest:
  assumes "self_keyed d"
  shows "self_keyed (newer_positions ps d) \<and>
    (\<forall>k b. latest_at d k b \<longrightarrow> latest_at (newer_positions ps d) k b) \<and>
    (\<forall>p \<in> set ps. latest_at (newer_positions ps d) (src_task_key p) (src_checkpoint_id p))"
  using assms
proof (induction ps arbitrary: d)
  case Nil
  then show ?case by (simp add: newer_positions_def)
next
  case (Cons e ps)
  note step = Cons.IH [OF newer_position_one(3) [OF Cons.prems], of e, folded newer_positions_step]
  have "latest_at d k b \<Longrightarrow> latest_at (newer_positions [e] d) k b" for k b by (rule newer_position_one(1))
  with step newer_position_one(2) [OF Cons.prems, of e] show ?case by (metis set_ConsD)
qed

lemma collected_positions:
  assumes "collect_domain_source_states answers cp c = Some states"
    "rmap (\<lambda>(v, s). make_source_entry (task_key_of v) b s) states = Inr positions" "v \<in> set (trigger_sources cp)"
  shows "\<exists>p \<in> set positions. src_task_key p = task_key_of v \<and> src_checkpoint_id p = b"
proof -
  let ?f = "\<lambda>v d. case answers v of None \<Rightarrow> d | Some s \<Rightarrow> AList.update v s d"
  have states: "states = fold ?f (trigger_sources cp) []" "length states = length (trigger_sources cp)"
    using assms(1) by (auto simp: collect_domain_source_states_def Let_def split: if_splits)
  have fold: "wf_dict (fold ?f vs d) \<and> set (keys (fold ?f vs d)) \<subseteq> set (keys d) \<union> set vs"
    if "wf_dict d" for vs and d :: "(vertex_id, 'a) dict"
    using that
  proof (induction vs arbitrary: d)
    case (Cons v vs)
    then have "wf_dict (?f v d)" by (simp split: option.split)
    from Cons.IH [OF this] show ?case by (auto simp: keys_update split: option.splits)
  qed simp
  have "wf_dict states" "set (keys states) \<subseteq> set (trigger_sources cp)"
    using fold [of "[]" "trigger_sources cp"] unfolding states(1) by auto
  moreover have "card (set (keys states)) = length (trigger_sources cp)"
    using \<open>wf_dict states\<close> states(2) by (metis distinct_card length_map)
  ultimately have "set (keys states) = set (trigger_sources cp)"
    using card_length [of "trigger_sources cp"] by (intro card_seteq) simp_all
  then have "v \<in> fst ` set states" using assms(3) by simp
  then obtain s where "(v, s) \<in> set states" by force
  with assms(2) obtain p where "p \<in> set positions" "make_source_entry (task_key_of v) b s = Inr p"
    using rmap_nth [OF assms(2)] rmap_length [OF assms(2)] by (fastforce simp: in_set_conv_nth)
  then show ?thesis by (intro bexI [of _ p]) (auto simp: make_source_entry_def split: if_splits)
qed

subsection \<open>The invariant\<close>

definition durable_view :: "('c, 's) coordinator \<Rightarrow> _" where
  "durable_view c = (latest_source_states c, persisting c, pending_sinks c, durable_sinks c)"

lemma durable_viewI: "sink_view c' = sink_view c \<Longrightarrow> progress_view c' = progress_view c \<Longrightarrow> durable_view c' = durable_view c"
  by (simp add: durable_view_def sink_view_def progress_view_def)

lemma durable_view_frames:
  "register_sink_committable api b v x c = (r, c') \<Longrightarrow> durable_view c' = durable_view c"
  "durable_view (detach_failed api cp c) = durable_view c"
  "durable_view (rescale_abort_next api c) = durable_view c"
  "expire_next api c = Inr c' \<Longrightarrow> durable_view c' = durable_view c"
  "reconfigure_execution_graph sha acks g c = Inr c' \<Longrightarrow> durable_view c' = durable_view c"
proof -
  show "register_sink_committable api b v x c = (r, c') \<Longrightarrow> durable_view c' = durable_view c"
    by (erule register_sink_cases) (simp_all add: durable_view_def)
  show d: "durable_view (detach_failed api cp c) = durable_view c" for cp c
    by (simp add: durable_view_def small_steps)
  show "durable_view (rescale_abort_next api c) = durable_view c"
    by (cases "aborting c") (simp_all add: rescale_abort_next_def d, simp add: durable_view_def)
  show "expire_next api c = Inr c' \<Longrightarrow> durable_view c' = durable_view c"
    by (auto simp: expire_next_def d split: list.splits option.splits) (simp add: durable_view_def as_update)
  show "reconfigure_execution_graph sha acks g c = Inr c' \<Longrightarrow> durable_view c' = durable_view c"
    by (auto simp: reconfigure_execution_graph_def remap_carried_sink_domains_def durable_view_def Let_def result_simps split: if_splits)
qed

definition delivered :: "('c, 's) history \<Rightarrow> sink_identity \<Rightarrow> bool" where
  "delivered h i \<longleftrightarrow> (\<exists>(ids, b, srcs) \<in> set (merges h). i \<in> set ids)"

definition delivered_and_covered :: "('c, 's) history \<Rightarrow> 's source_entry list \<Rightarrow> sink_identity \<Rightarrow> bool" where
  "delivered_and_covered h ps i \<longleftrightarrow> (\<exists>(ids, b, srcs) \<in> set (merges h). i \<in> set ids \<and> covers ps b srcs)"

definition positions_inv :: "('c, 's) coordinator \<Rightarrow> ('c, 's) history \<Rightarrow> bool" where
  "positions_inv c h \<longleftrightarrow> self_keyed (latest_source_states c) \<and>
     (\<forall>(ids, b, srcs) \<in> set (merges h). ids \<noteq> [] \<longrightarrow>
        (\<forall>v \<in> set srcs. latest_at (latest_source_states c) (task_key_of v) b))"

definition listed_ok :: "'c sink_api \<Rightarrow> sink_identity set \<Rightarrow> ('c, 's) history \<Rightarrow> ('c, 's) persist_snapshot \<Rightarrow> bool" where
  "listed_ok api known h m \<longleftrightarrow> (\<forall>e \<in> set (ps_sink_committables m).
     sink_committable_identity api e \<in> known \<or>
     delivered_and_covered h (ps_source_states m) (sink_committable_identity api e))"

definition durable_inv :: "'c sink_api \<Rightarrow> ('c, 's) coordinator \<Rightarrow> ('c, 's) coordinator \<Rightarrow> ('c, 's) history \<Rightarrow> bool" where
  "durable_inv api c0 c h \<longleftrightarrow>
     positions_inv c h \<and>
     (\<forall>i \<in> set (keys (pending_sinks c)). i \<in> set (keys (pending_sinks c0)) \<or> delivered h i) \<and>
     (\<forall>m \<in> set_option (persisting c) \<union> set (manifests h). listed_ok api (set (keys (pending_sinks c0))) h m) \<and>
     (\<forall>e \<in> set (map snd (durable_sinks c)). e \<in> set (map snd (durable_sinks c0)) \<or>
        (\<exists>m \<in> set (manifests h). e \<in> set (ps_sink_committables m))) \<and>
     (\<forall>e \<in> set (committed h). e \<in> set (map snd (durable_sinks c0)) \<or>
        (\<exists>m \<in> set (manifests h). e \<in> set (ps_sink_committables m)))"

lemma durable_inv_frame:
  assumes "durable_inv api c0 c h" "durable_view c' = durable_view c" "merges h' = merges h" "manifests h' = manifests h"
    "committed h' = committed h"
  shows "durable_inv api c0 c' h'"
proof -
  have "latest_source_states c' = latest_source_states c" "persisting c' = persisting c" "pending_sinks c' = pending_sinks c"
    "durable_sinks c' = durable_sinks c" using assms(2) by (simp_all add: durable_view_def)
  with assms(1) show ?thesis
    unfolding durable_inv_def positions_inv_def delivered_def listed_ok_def delivered_and_covered_def assms(3-5) by simp
qed

text \<open>A snapshot taken under the progress lock lists only what its positions cover.\<close>

lemma snapshot_listed_ok:
  assumes "durable_inv api c0 c h" "identified api (pending_sinks c)"
  shows "listed_ok api (set (keys (pending_sinks c0))) h (take_persist_snapshot c)"
  unfolding listed_ok_def
proof
  fix e assume "e \<in> set (ps_sink_committables (take_persist_snapshot c))"
  then obtain i where i: "(i, e) \<in> set (pending_sinks c)" by (auto simp: take_persist_snapshot_def)
  then have id: "sink_committable_identity api e = i"
    using assms(2) map_of_is_SomeI [of "pending_sinks c" i e] unfolding identified_def by metis
  have "i \<in> set (keys (pending_sinks c))" using i by force
  then consider "i \<in> set (keys (pending_sinks c0))" | ids b srcs where "(ids, b, srcs) \<in> set (merges h)" "i \<in> set ids"
    using assms(1) unfolding durable_inv_def delivered_def by blast
  then show "sink_committable_identity api e \<in> set (keys (pending_sinks c0)) \<or>
      delivered_and_covered h (ps_source_states (take_persist_snapshot c)) (sink_committable_identity api e)"
  proof cases
    case (2 ids b srcs)
    then have "\<forall>v \<in> set srcs. latest_at (latest_source_states c) (task_key_of v) b"
      using assms(1) unfolding durable_inv_def positions_inv_def by fastforce
    then have "covers (ps_source_states (take_persist_snapshot c)) b srcs"
      by (simp add: take_persist_snapshot_def latest_at_covers)
    with 2 id show ?thesis unfolding delivered_and_covered_def by blast
  qed (simp add: id)
qed


lemma delivered_mono:
  assumes "set (merges h) \<subseteq> set (merges h')"
  shows "delivered h i \<Longrightarrow> delivered h' i" "delivered_and_covered h ps i \<Longrightarrow> delivered_and_covered h' ps i"
    "listed_ok api known h m \<Longrightarrow> listed_ok api known h' m"
  using assms unfolding delivered_def delivered_and_covered_def listed_ok_def by blast+

lemma durable_inv_merge:
  assumes inv: "durable_inv api c0 c h" and h': "h' = h\<lparr>merges := merges h @ [(ids, b, srcs)]\<rparr>"
    and same: "persisting c' = persisting c" "durable_sinks c' = durable_sinks c"
    and pos: "self_keyed (latest_source_states c')"
      "\<And>k b. latest_at (latest_source_states c) k b \<Longrightarrow> latest_at (latest_source_states c') k b"
      "ids \<noteq> [] \<Longrightarrow> \<forall>v \<in> set srcs. latest_at (latest_source_states c') (task_key_of v) b"
    and pend: "set (keys (pending_sinks c')) \<subseteq> set (keys (pending_sinks c)) \<union> set ids"
  shows "durable_inv api c0 c' h'"
proof -
  have sub: "set (merges h) \<subseteq> set (merges h')" by (auto simp: h')
  have "delivered h' i" if "i \<in> set ids" for i using that by (force simp: delivered_def h')
  then have "\<forall>i \<in> set (keys (pending_sinks c')). i \<in> set (keys (pending_sinks c0)) \<or> delivered h' i"
    using inv pend delivered_mono(1) [OF sub] unfolding durable_inv_def by blast
  moreover have "positions_inv c' h'"
    using inv pos unfolding durable_inv_def positions_inv_def by (fastforce simp: h')
  moreover have "\<forall>m \<in> set_option (persisting c') \<union> set (manifests h'). listed_ok api (set (keys (pending_sinks c0))) h' m"
    using inv delivered_mono(3) [OF sub] unfolding durable_inv_def same by (simp add: h')
  ultimately show ?thesis using inv unfolding durable_inv_def same by (simp add: h')
qed

lemma durable_inv_collected:
  assumes inv: "durable_inv api c0 c h" and c': "complete_collected sha api b answers c = c'"
  shows "durable_inv api c0 c' (note_merge b c c' h)"
proof -
  have unchanged: "durable_inv api c0 c' (note_merge b c c' h)" if v: "durable_view c' = durable_view c"
  proof -
    obtain b' srcs where h': "note_merge b c c' h = h\<lparr>merges := merges h @ [([], b', srcs)]\<rparr>"
      using v that by (cases "map_of (completing c) b") (auto simp: note_merge_def durable_view_def)
    show ?thesis
      using v inv by (intro durable_inv_merge [OF inv h']) (auto simp: durable_view_def durable_inv_def positions_inv_def)
  qed
  show ?thesis
  proof (cases rule: completion_cases [of sha api b answers c])
    case same
    then show ?thesis using c' unchanged by simp
  next
    case (failed cp)
    then have "durable_view c' = durable_view c"
      using c' durable_view_frames(2) [of api cp c] by (simp add: set_phase_def durable_view_def)
    then show ?thesis by (rule unchanged)
  next
    case (merged cp states has ready c1)
    obtain completed carried positions r los ros sup tr rr where
      "coalesce_sink_committables sha api (job_id c) (cp_barrier_id cp) (dict_get (inflight_sinks c) (cp_barrier_id cp) []) = Inr completed"
      "coalesce_carried_sink_committables sha api (job_id c)
         (concat (map (\<lambda>d. map snd (dict_get (carried_sinks c) d [])) (carried_domains_for_checkpoint cp c))) = Inr carried"
      and ps: "rmap (\<lambda>(v, s). make_source_entry (task_key_of v) (cp_barrier_id cp) s) states = Inr positions"
      and c1: "c1 = c\<lparr>latest_source_states := newer_positions positions (latest_source_states c), state_revision := r,
         latest_operator_states := los, restored_operator_states := ros, superseded_rescale_operations := sup,
         transient_rescale_states := tr, recovery_required_revision := rr,
         inflight_operator_states := AList.delete (cp_barrier_id cp) (inflight_operator_states c),
         inflight_sinks := AList.delete (cp_barrier_id cp) (inflight_sinks c),
         pending_sinks := fold (add_identified api) (map snd completed) (update_states carried (pending_sinks c)),
         carried_sinks := fold AList.delete (carried_domains_for_checkpoint cp c) (carried_sinks c)\<rparr>"
      and "has = (carried \<noteq> [] \<or> completed \<noteq> [])"
      using merged(3) by (rule merge_shape)
    have view: "durable_view c' = durable_view c1"
      using merged(4) c' by (auto simp: durable_view_def small_steps Let_def)
    have self: "self_keyed (latest_source_states c)" using inv by (simp add: durable_inv_def positions_inv_def)
    note new = newer_positions_latest [OF self, of positions]
    have latest: "latest_source_states c' = newer_positions positions (latest_source_states c)"
      "persisting c' = persisting c" "durable_sinks c' = durable_sinks c"
      using view by (simp_all add: durable_view_def c1)
    have h': "note_merge b c c' h = h\<lparr>merges := merges h @
        [(filter (\<lambda>i. i \<notin> set (keys (pending_sinks c))) (keys (pending_sinks c')), cp_barrier_id cp, trigger_sources cp)]\<rparr>"
      by (simp add: note_merge_def merged(1))
    show ?thesis
    proof (rule durable_inv_merge [OF inv h' latest(2,3)])
      show "\<forall>v \<in> set (trigger_sources cp). latest_at (latest_source_states c') (task_key_of v) (cp_barrier_id cp)"
        using collected_positions [OF merged(2) ps] new unfolding latest by metis
    qed (use new in \<open>auto simp: latest\<close>)
  qed
qed


lemma durable_inv_persist_begin:
  assumes "durable_inv api c0 c h" "identified api (pending_sinks c)"
  shows "durable_inv api c0 (persist_begin c) h"
proof (cases "is_dirty c")
  case True
  then show ?thesis
    using assms snapshot_listed_ok [OF assms] by (auto simp: persist_begin_def durable_inv_def positions_inv_def)
next
  case False
  have "durable_view (clear_rescale_recovery_fence_if_durable c) = durable_view c"
    by (intro durable_viewI sink_view_fence progress_view_fence)
  with False durable_inv_frame [OF assms(1)] show ?thesis by (simp add: persist_begin_def)
qed

lemma fold_add_identified_values:
  "snd ` set (fold (add_identified api) es d) \<subseteq> set es \<union> snd ` set d"
proof (induction es arbitrary: d)
  case (Cons e es)
  have "snd ` set (add_identified api e d) \<subseteq> insert e (snd ` set d)"
    unfolding add_identified_def by (induction d) auto
  with Cons.IH [of "add_identified api e d"] show ?case by auto
qed simp

lemma durable_inv_written:
  assumes "durable_inv api c0 c h"
  shows "durable_inv api c0 (persist_written api path restored c) (note_written c h)"
proof (cases "persisting c")
  case (Some m)
  have "snd ` set (fold (add_identified api) (ps_sink_committables m) []) \<subseteq> set (ps_sink_committables m)"
    using fold_add_identified_values [of api "ps_sink_committables m" "[]"] by simp
  with assms Some show ?thesis
    unfolding durable_inv_def positions_inv_def
    by (auto simp: persist_written_def note_written_def delivered_def listed_ok_def delivered_and_covered_def)
qed (use assms in \<open>simp add: persist_written_def note_written_def\<close>)

lemma durable_inv_commit:
  assumes "durable_inv api c0 c h" "e \<in> set (map snd (durable_sinks c)) \<or> (\<exists>m \<in> set (manifests h). e \<in> set (ps_sink_committables m))"
  shows "durable_inv api c0 (sink_committed i c) (h\<lparr>committed := committed h @ [e]\<rparr>)"
proof -
  have "set (AList.delete i d) \<subseteq> set d" for d :: "(sink_identity, 'a sink_entry) dict"
    by (auto simp: AList.delete_eq)
  then have sub: "set (keys (pending_sinks (sink_committed i c))) \<subseteq> set (keys (pending_sinks c))"
    "set (map snd (durable_sinks (sink_committed i c))) \<subseteq> set (map snd (durable_sinks c))"
    by (auto simp: sink_committed_update)
  let ?h = "h\<lparr>committed := committed h @ [e]\<rparr>"
  have h: "delivered ?h = delivered h" "listed_ok api K ?h = listed_ok api K h" "merges ?h = merges h"
    "manifests ?h = manifests h" "committed ?h = committed h @ [e]" for K
    by (simp_all add: fun_eq_iff delivered_def listed_ok_def delivered_and_covered_def)
  have c: "latest_source_states (sink_committed i c) = latest_source_states c" "persisting (sink_committed i c) = persisting c"
    by (simp_all add: sink_committed_update)
  show ?thesis
    using assms sub unfolding durable_inv_def positions_inv_def h c set_append list.set by blast
qed

lemma durable_inv_run:
  assumes run: "coordinator_run sha api c0 c h" and contract: "sink_contract api writes" and ok: "sinks_ok api c0"
    and start: "persisting c0 = None" "self_keyed (latest_source_states c0)"
  shows "durable_inv api c0 c h"
  using run
proof (induction rule: coordinator_run.induct)
  case run_start
  then show ?case using start by (simp add: durable_inv_def positions_inv_def no_history_def)
next
  case (run_sink c h b v x r c')
  then show ?case by (auto intro: durable_inv_frame [OF run_sink.IH durable_view_frames(1)] simp: note_registered_def)
next
  case (run_collected c h b answers c')
  show ?case by (rule durable_inv_collected [OF run_collected.IH run_collected.hyps(2)])
next
  case (run_expire_next c h c')
  show ?case by (rule durable_inv_frame [OF run_expire_next.IH durable_view_frames(4) [OF run_expire_next.hyps(2)] refl refl refl])
next
  case (run_abort c h)
  show ?case by (rule durable_inv_frame [OF run_abort.IH durable_view_frames(3) refl refl refl])
next
  case (run_reconfigure c h acks g c')
  show ?case by (rule durable_inv_frame [OF run_reconfigure.IH durable_view_frames(5) [OF run_reconfigure.hyps(2)] refl refl refl])
next
  case (run_persist c h)
  have "identified api (pending_sinks c)"
    using coordinator_accounting [OF run_persist.hyps(1) contract ok] sinks_okD(5) by blast
  with run_persist.IH show ?case by (rule durable_inv_persist_begin)
next
  case (run_written c h path restored)
  show ?case by (rule durable_inv_written [OF run_written.IH])
next
  case (run_write_failed c h)
  then show ?case by (simp add: durable_inv_def persist_failed_def positions_inv_def)
next
  case (run_commit c h e)
  show ?case by (rule durable_inv_commit [OF run_commit.IH run_commit.hyps(2)])
qed (rule durable_inv_frame, assumption, rule durable_viewI, simp add: sink_frames, simp add: progress_frames,
    rule refl, rule refl, rule refl)+

subsection \<open>Commits\<close>

text \<open>A coordinator that has been constructed and opened, with what storage returned.\<close>

definition started_with :: "(string \<Rightarrow> string) \<Rightarrow> 'c sink_api \<Rightarrow> ('c, 's) restored \<Rightarrow> ('c, 's) coordinator \<Rightarrow> bool" where
  "started_with sha256_hex api r c0 \<longleftrightarrow> (\<exists>job interval cache_min retained max_concurrent timeout history acks g c.
     make_coordinator job interval cache_min retained max_concurrent timeout history = Inr c \<and>
     open_coordinator sha256_hex api acks r g c = Inr c0)"

lemma make_coordinator_persisting:
  "make_coordinator job interval cache_min retained max_concurrent timeout history = Inr c \<Longrightarrow> persisting c = None"
  by (auto simp: make_coordinator_def result_simps)

lemma started_state:
  fixes c0 :: "('c, 's) coordinator"
  assumes "started_with sha api r c0" "sink_contract api writes"
  shows "sinks_ok api c0" "persisting c0 = None" "self_keyed (latest_source_states c0)"
    "durable_sinks c0 = pending_sinks c0" "pending_sinks c0 = fold (add_identified api) (rs_sink_committables r) []"
proof -
  have self: "self_keyed (fold (\<lambda>e. AList.update (src_task_key e) e) es d)" if "self_keyed d" for es and d :: "(string, 's source_entry) dict"
    using that by (induction es arbitrary: d) (simp_all add: self_keyed_update)
  obtain c acks g where m: "persisting c = None" and o: "open_coordinator sha api acks r g c = Inr c0"
    using assms(1) make_coordinator_persisting unfolding started_with_def by blast
  have id: "identified api (fold (add_identified api) (rs_sink_committables r) [])"
    using fold_add_identified_spec [OF assms(2), of "[]"] by (simp add: identified_def)
  have shape: "pending_sinks c0 = fold (add_identified api) (rs_sink_committables r) [] \<and>
      durable_sinks c0 = pending_sinks c0 \<and> inflight_sinks c0 = [] \<and> carried_sinks c0 = [] \<and>
      latest_source_states c0 = fold (\<lambda>e. AList.update (src_task_key e) e) (rs_source_states r) [] \<and> persisting c0 = persisting c"
    using o by (auto simp: open_coordinator_def Let_def result_simps)
  have "self_keyed ([] :: (string, 's source_entry) dict)" by (simp add: self_keyed_def)
  from self [OF this, of "rs_source_states r"] shape show "self_keyed (latest_source_states c0)" by simp
  show "persisting c0 = None" "durable_sinks c0 = pending_sinks c0"
    "pending_sinks c0 = fold (add_identified api) (rs_sink_committables r) []" using shape m by simp_all
  show "sinks_ok api c0" using shape id by (simp add: sinks_ok_def batches_ok_def)
qed

text \<open>
  C2. The order that makes delivery exactly-once: in every interleaving, a sink transaction that was not
  already restored as pending is committed only after a manifest has been written that lists it and
  whose source positions are at least those of the epoch that delivered it, for every source of that
  epoch. A crash at any moment therefore either replays the rows of an uncommitted transaction or
  finds it in the manifest.
\<close>

theorem committed_only_after_durable:
  assumes run: "coordinator_run sha api c0 c h" and contract: "sink_contract api writes" and start: "started_with sha api r c0"
    and e: "e \<in> set (committed h)"
    and new: "\<forall>e' \<in> set (rs_sink_committables r). sink_committable_identity api e' \<noteq> sink_committable_identity api e"
  shows "\<exists>m \<in> set (manifests h). e \<in> set (ps_sink_committables m) \<and>
    (\<exists>(ids, b, srcs) \<in> set (merges h). sink_committable_identity api e \<in> set ids \<and>
      (\<forall>v \<in> set srcs. \<exists>p \<in> set (ps_source_states m). src_task_key p = task_key_of v \<and> b \<le> src_checkpoint_id p))"
proof -
  note s = started_state [OF start contract]
  have inv: "durable_inv api c0 c h" by (rule durable_inv_run [OF run contract s(1-3)])
  have restored: "snd ` set (pending_sinks c0) \<subseteq> set (rs_sink_committables r)"
    unfolding s(5) using fold_add_identified_values [of api "rs_sink_committables r" "[]"] by simp
  have "sink_committable_identity api e \<notin> set (keys (pending_sinks c0))"
  proof
    assume "sink_committable_identity api e \<in> set (keys (pending_sinks c0))"
    then obtain e' where e': "(sink_committable_identity api e, e') \<in> set (pending_sinks c0)" by force
    then have "sink_committable_identity api e = sink_committable_identity api e'"
      using sinks_okD(5) [OF s(1)] map_of_is_SomeI unfolding identified_def by metis
    moreover have "e' \<in> set (rs_sink_committables r)" using e' restored by force
    ultimately show False using new by metis
  qed
  moreover have "e \<notin> set (map snd (durable_sinks c0))" using restored new unfolding s(4) by auto
  then obtain m where "m \<in> set (manifests h)" "e \<in> set (ps_sink_committables m)"
    using inv e unfolding durable_inv_def by blast
  ultimately show ?thesis
    using inv unfolding durable_inv_def listed_ok_def delivered_and_covered_def covers_def by blast
qed


theorem committed_only_after_durable_witness:
  "\<exists>m \<in> set (manifests demo_history). demo_transaction \<in> set (ps_sink_committables m) \<and>
    (\<exists>p \<in> set (ps_source_states m). src_task_key p = ''0:0'' \<and> 1 \<le> src_checkpoint_id p)"
proof -
  let ?r = "\<lparr>rs_path = None, rs_metadata_revision = 0, rs_source_states = [], rs_high_water = 0, rs_operator_states = [],
    rs_sink_committables = []\<rparr> :: (nat, nat) restored"
  obtain c :: "(nat, nat) coordinator" where c: "make_coordinator ''n'' (PInt 10) (PInt 0) (PInt 1) (PInt 1) (PInt 60) (PInt 5) = Inr c"
    by (auto simp: make_coordinator_def validate_integer_option_def)
  moreover have "isl (open_coordinator demo_digest demo_api [] ?r demo_pipeline c) = False"
    using c unfolding make_coordinator_def validate_integer_option_def by simp code_simp
  ultimately have "open_coordinator demo_digest demo_api [] ?r demo_pipeline c = Inr demo_coordinator"
    by (simp add: demo_coordinator_def)
  with c have "started_with demo_digest demo_api ?r demo_coordinator" unfolding started_with_def by blast
  from committed_only_after_durable [OF demo_run demo_contract this, of demo_transaction]
  have "\<exists>m \<in> set (manifests demo_history). demo_transaction \<in> set (ps_sink_committables m) \<and>
    (\<exists>p \<in> set (ps_source_states m). src_task_key p = task_key_of demo_source \<and> 1 \<le> src_checkpoint_id p)"
    by (simp add: demo_history_def)
  moreover have "task_key_of demo_source = ''0:0''" by code_simp
  ultimately show ?thesis by simp
qed

end
