(* ===== verification/ActiveEpochs.thy ===== *)
theory ActiveEpochs
  imports CommitDurability
begin

section \<open>One active checkpoint per domain\<close>

text \<open>
  A checkpoint is live while it is in flight or completing, until it succeeds or its failure is being
  closed. Shown for all interleavings: two live checkpoints never share a checkpoint domain, and the
  coordinator's slot table names the live checkpoint of a domain. The same invariant explains
  why expiry can raise: the list of stale ids is computed before the first await.
\<close>

definition live :: "('c, 's) coordinator \<Rightarrow> int \<Rightarrow> checkpoint \<Rightarrow> bool" where
  "live c b cp \<longleftrightarrow> map_of (inflight_checkpoints c) b = Some cp \<or>
     (\<exists>ph. ph \<noteq> Closing \<and> map_of (completing c) b = Some (cp, ph))"

definition epoch_inv :: "('c, 's) coordinator \<Rightarrow> bool" where
  "epoch_inv c \<longleftrightarrow>
     (\<forall>b cp. map_of (inflight_checkpoints c) b = Some cp \<longrightarrow>
        cp_barrier_id cp = b \<and> b \<le> current_id (barrier_gen c) \<and> map_of (completing c) b = None) \<and>
     (\<forall>b cp ph. map_of (completing c) b = Some (cp, ph) \<longrightarrow> cp_barrier_id cp = b \<and> b \<le> current_id (barrier_gen c)) \<and>
     (\<forall>b cp d. live c b cp \<and> cp_domain_id cp = Some d \<longrightarrow> map_of (active_by_domain c) d = Some b) \<and>
     (\<forall>b. map_of (pending_releases c) b \<noteq> None \<longrightarrow> b \<le> current_id (barrier_gen c) \<and> (\<forall>cp. \<not> live c b cp)) \<and>
     (\<forall>cp \<in> set (aborting c). cp_barrier_id cp \<le> current_id (barrier_gen c) \<and> (\<forall>cp'. \<not> live c (cp_barrier_id cp) cp')) \<and>
     (recovery_fence c \<noteq> None \<longrightarrow> (\<forall>b cp. live c b cp \<longrightarrow> coordinated_barrier c = Some b))"

definition epoch_view :: "('c, 's) coordinator \<Rightarrow> _" where
  "epoch_view c = (inflight_checkpoints c, completing c, active_by_domain c, current_id (barrier_gen c),
     pending_releases c, aborting c, recovery_fence c, coordinated_barrier c)"

lemma epoch_inv_cong: "epoch_view c' = epoch_view c \<Longrightarrow> epoch_inv c' = epoch_inv c"
  by (simp add: epoch_view_def epoch_inv_def live_def)

lemma epoch_invD:
  assumes "epoch_inv c"
  shows "map_of (inflight_checkpoints c) b = Some cp \<Longrightarrow> cp_barrier_id cp = b"
    "map_of (inflight_checkpoints c) b = Some cp \<Longrightarrow> b \<le> current_id (barrier_gen c)"
    "map_of (inflight_checkpoints c) b = Some cp \<Longrightarrow> map_of (completing c) b = None"
    "map_of (completing c) b = Some (cp, ph) \<Longrightarrow> cp_barrier_id cp = b"
    "map_of (completing c) b = Some (cp, ph) \<Longrightarrow> b \<le> current_id (barrier_gen c)"
    "live c b cp \<Longrightarrow> cp_domain_id cp = Some d \<Longrightarrow> map_of (active_by_domain c) d = Some b"
    "map_of (pending_releases c) b = Some vs \<Longrightarrow> b \<le> current_id (barrier_gen c)"
    "map_of (pending_releases c) b = Some vs \<Longrightarrow> \<not> live c b cp"
    "x \<in> set (aborting c) \<Longrightarrow> cp_barrier_id x \<le> current_id (barrier_gen c)"
    "x \<in> set (aborting c) \<Longrightarrow> \<not> live c (cp_barrier_id x) cp"
    "recovery_fence c = Some f \<Longrightarrow> live c b cp \<Longrightarrow> coordinated_barrier c = Some b"
  using assms unfolding epoch_inv_def by (blast | simp)+

lemma epoch_live_id: "epoch_inv c \<Longrightarrow> live c b cp \<Longrightarrow> cp_barrier_id cp = b \<and> b \<le> current_id (barrier_gen c)"
  unfolding live_def using epoch_invD(1,2,4,5) by blast

lemma epoch_invI:
  assumes "\<And>b cp. map_of (inflight_checkpoints c) b = Some cp \<Longrightarrow>
      cp_barrier_id cp = b \<and> b \<le> current_id (barrier_gen c) \<and> map_of (completing c) b = None"
    and "\<And>b cp ph. map_of (completing c) b = Some (cp, ph) \<Longrightarrow> cp_barrier_id cp = b \<and> b \<le> current_id (barrier_gen c)"
    and "\<And>b cp d. live c b cp \<Longrightarrow> cp_domain_id cp = Some d \<Longrightarrow> map_of (active_by_domain c) d = Some b"
    and "\<And>b vs. map_of (pending_releases c) b = Some vs \<Longrightarrow> b \<le> current_id (barrier_gen c) \<and> (\<forall>cp. \<not> live c b cp)"
    and "\<And>x. x \<in> set (aborting c) \<Longrightarrow> cp_barrier_id x \<le> current_id (barrier_gen c) \<and> (\<forall>cp. \<not> live c (cp_barrier_id x) cp)"
    and "\<And>b cp f. recovery_fence c = Some f \<Longrightarrow> live c b cp \<Longrightarrow> coordinated_barrier c = Some b"
  shows "epoch_inv c"
  using assms unfolding epoch_inv_def by (intro conjI allI impI ballI) blast+

subsection \<open>Elementary transitions\<close>

text \<open>A checkpoint opens with a fresh id in a domain without a live one.\<close>

lemma epoch_open:
  assumes inv: "epoch_inv c"
    and new: "cp_barrier_id cp = current_id (barrier_gen c) + 1"
    and free: "\<And>d b x. cp_domain_id cp = Some d \<Longrightarrow> live c b x \<Longrightarrow> cp_domain_id x \<noteq> Some d"
    and c': "inflight_checkpoints c' = AList.update (cp_barrier_id cp) cp (inflight_checkpoints c)"
      "completing c' = completing c" "current_id (barrier_gen c') = current_id (barrier_gen c) + 1"
      "active_by_domain c' = (case cp_domain_id cp of None \<Rightarrow> active_by_domain c
         | Some d \<Rightarrow> AList.update d (cp_barrier_id cp) (active_by_domain c))"
      "pending_releases c' = pending_releases c" "aborting c' = aborting c" "recovery_fence c' = recovery_fence c"
    and fence: "recovery_fence c \<noteq> None \<Longrightarrow> coordinated_barrier c' = Some (cp_barrier_id cp) \<and> (\<forall>b x. \<not> live c b x)"
  shows "epoch_inv c'"
proof (rule epoch_invI)
  have live: "live c' b x \<longleftrightarrow> (if b = cp_barrier_id cp then x = cp else live c b x)" for b x
    using epoch_invD(5) [OF inv, of "cp_barrier_id cp"] new by (force simp: live_def c')
  have fresh: "\<not> live c (cp_barrier_id cp) x" for x using epoch_live_id [OF inv] new by fastforce
  show "cp_barrier_id x = b \<and> b \<le> current_id (barrier_gen c') \<and> map_of (completing c') b = None"
    if "map_of (inflight_checkpoints c') b = Some x" for b x
  proof (cases "b = cp_barrier_id cp")
    case True
    then show ?thesis using that epoch_invD(5) [OF inv, of b] new by (cases "map_of (completing c) b") (force simp: c')+
  next
    case False
    then show ?thesis using that epoch_invD(1-3) [OF inv, of b x] by (simp add: c')
  qed
  show "cp_barrier_id x = b \<and> b \<le> current_id (barrier_gen c')" if "map_of (completing c') b = Some (x, ph)" for b x ph
    using that epoch_invD(4,5) [OF inv, of b x ph] by (simp add: c')
  show "map_of (active_by_domain c') d = Some b" if "live c' b x" "cp_domain_id x = Some d" for b x d
    using that epoch_invD(6) [OF inv, of b x d] free [of d b x] unfolding live c' by (auto split: if_splits option.splits)
  show "b \<le> current_id (barrier_gen c') \<and> (\<forall>x. \<not> live c' b x)" if "map_of (pending_releases c') b = Some vs" for b vs
    using that epoch_invD(7,8) [OF inv, of b vs] new unfolding live c' by fastforce
  show "cp_barrier_id x \<le> current_id (barrier_gen c') \<and> (\<forall>y. \<not> live c' (cp_barrier_id x) y)" if "x \<in> set (aborting c')" for x
    using that epoch_invD(9,10) [OF inv, of x] new unfolding live c' by fastforce
  show "coordinated_barrier c' = Some b" if "recovery_fence c' = Some f" "live c' b x" for b x f
    using that fence unfolding live c' by (auto split: if_splits)
qed

text \<open>Checkpoints leave: fewer are live, none is new, and a freed slot is that of a checkpoint that left.\<close>

lemma epoch_shrink:
  assumes inv: "epoch_inv c"
    and same: "current_id (barrier_gen c') = current_id (barrier_gen c)"
    and inflight: "\<And>b x. map_of (inflight_checkpoints c') b = Some x \<Longrightarrow>
        \<exists>y. map_of (inflight_checkpoints c) b = Some y \<and> cp_barrier_id x = cp_barrier_id y \<and> cp_domain_id x = cp_domain_id y \<and>
          map_of (completing c') b = None"
    and completing: "\<And>b x ph. map_of (completing c') b = Some (x, ph) \<Longrightarrow>
        \<exists>y. (map_of (inflight_checkpoints c) b = Some y \<or> (\<exists>ph'. map_of (completing c) b = Some (y, ph') \<and> (ph \<noteq> Closing \<longrightarrow> ph' \<noteq> Closing))) \<and>
          cp_barrier_id x = cp_barrier_id y \<and> cp_domain_id x = cp_domain_id y"
    and slots: "\<And>b x d. live c' b x \<Longrightarrow> map_of (active_by_domain c) d = Some b \<Longrightarrow> map_of (active_by_domain c') d = Some b"
    and releases: "\<And>b vs. map_of (pending_releases c') b = Some vs \<Longrightarrow>
        (\<exists>vs'. map_of (pending_releases c) b = Some vs') \<or> (b \<le> current_id (barrier_gen c) \<and> (\<forall>x. \<not> live c' b x))"
    and aborting: "\<And>x. x \<in> set (aborting c') \<Longrightarrow>
        x \<in> set (aborting c) \<or> (cp_barrier_id x \<le> current_id (barrier_gen c) \<and> (\<forall>y. \<not> live c' (cp_barrier_id x) y))"
    and fence: "\<And>b x f. recovery_fence c' = Some f \<Longrightarrow> live c' b x \<Longrightarrow>
        recovery_fence c \<noteq> None \<and> (coordinated_barrier c = Some b \<longrightarrow> coordinated_barrier c' = Some b)"
  shows "epoch_inv c'"
proof (rule epoch_invI)
  have live: "\<exists>y. live c b y \<and> cp_barrier_id x = cp_barrier_id y \<and> cp_domain_id x = cp_domain_id y" if "live c' b x" for b x
    using that inflight [of b x] completing [of b x] unfolding live_def by blast
  show "cp_barrier_id x = b \<and> b \<le> current_id (barrier_gen c') \<and> map_of (completing c') b = None"
    if "map_of (inflight_checkpoints c') b = Some x" for b x
    using inflight [OF that] epoch_invD(1,2) [OF inv] unfolding same by metis
  show "cp_barrier_id x = b \<and> b \<le> current_id (barrier_gen c')" if "map_of (completing c') b = Some (x, ph)" for b x ph
    using completing [OF that] epoch_invD(1,2,4,5) [OF inv] unfolding same by metis
  show "map_of (active_by_domain c') d = Some b" if "live c' b x" "cp_domain_id x = Some d" for b x d
    using live [OF that(1)] slots [OF that(1)] epoch_invD(6) [OF inv] that(2) by metis
  show "b \<le> current_id (barrier_gen c') \<and> (\<forall>x. \<not> live c' b x)" if "map_of (pending_releases c') b = Some vs" for b vs
    using releases [OF that] epoch_invD(7,8) [OF inv] live unfolding same by metis
  show "cp_barrier_id x \<le> current_id (barrier_gen c') \<and> (\<forall>y. \<not> live c' (cp_barrier_id x) y)" if "x \<in> set (aborting c')" for x
    using aborting [OF that] epoch_invD(9,10) [OF inv] live unfolding same by metis
  show "coordinated_barrier c' = Some b" if "recovery_fence c' = Some f" "live c' b x" for b x f
    using fence [OF that] live [OF that(2)] epoch_invD(11) [OF inv] by (metis option.exhaust)
qed


lemma map_of_free_slot:
  "map_of (free_slot cp S) d =
     (if cp_domain_id cp = Some d \<and> map_of S d = Some (cp_barrier_id cp) then None else map_of S d)"
  by (simp add: free_slot_def split: option.split)

lemma map_of_free_slots:
  "map_of S d = Some b \<Longrightarrow> b \<notin> cp_barrier_id ` set cps \<Longrightarrow> map_of (fold free_slot cps S) d = Some b"
  by (induction cps arbitrary: S) (auto simp: map_of_free_slot)

subsection \<open>Reports and completions\<close>

lemma epoch_update_checkpoint:
  assumes "epoch_inv c" "map_of (inflight_checkpoints c) b = Some cp" "cp_barrier_id cp' = cp_barrier_id cp"
    "cp_domain_id cp' = cp_domain_id cp"
  shows "epoch_inv (update_checkpoint b cp' c)"
  by (rule epoch_shrink [OF assms(1)])
    (use assms(2-4) epoch_invD(3) [OF assms(1)] in \<open>auto simp: update_checkpoint_def live_def split: if_splits\<close>)

lemma epoch_reports:
  assumes "epoch_inv c"
  shows "source_checkpoint_started b v eof c = (ok, c') \<Longrightarrow> epoch_inv c'"
    and "register_operator_checkpoint_metrics b v ms c = (ok, c') \<Longrightarrow> epoch_inv c'"
    and "register_operator_state b v ref c = (r, c') \<Longrightarrow> epoch_inv c'"
    and "register_sink_committable api b v x c = (r', c') \<Longrightarrow> epoch_inv c'"
proof -
  show "epoch_inv c'" if "source_checkpoint_started b v eof c = (ok, c')"
    using that assms
    by (auto simp: source_checkpoint_started_def mark_source_started_def Let_def intro: epoch_update_checkpoint
        split: option.splits if_splits)
  show "epoch_inv c'" if "register_operator_checkpoint_metrics b v ms c = (ok, c')"
    using that assms
    by (auto simp: register_operator_checkpoint_metrics_def record_operator_metrics_def intro: epoch_update_checkpoint
        split: option.splits if_splits)
  show "epoch_inv c'" if "register_operator_state b v ref c = (r, c')"
    using that assms epoch_inv_cong [of c' c]
    by (auto simp: register_operator_state_def epoch_view_def Let_def split: if_splits)
  show "epoch_inv c'" if "register_sink_committable api b v x c = (r', c')"
    using that assms epoch_inv_cong [of c' c] by (elim register_sink_cases) (auto simp: epoch_view_def)
qed

lemma acknowledge_same: 
  "cp_barrier_id (snd (acknowledge_checkpoint now v cp)) = cp_barrier_id cp"
  "cp_domain_id (snd (acknowledge_checkpoint now v cp)) = cp_domain_id cp"
  by (simp_all add: acknowledge_checkpoint_def mark_notifying_def Let_def)

lemma epoch_aligned:
  assumes inv: "epoch_inv c" and run: "notify_checkpoint_aligned now b v c = (a, c')"
  shows "epoch_inv c'"
proof -
  consider "c' = c" | cp where "map_of (inflight_checkpoints c) b = Some cp"
      "c' = update_checkpoint b (snd (acknowledge_checkpoint now v cp)) c"
    | cp where "map_of (inflight_checkpoints c) b = Some cp"
      "c' = c\<lparr>inflight_checkpoints := AList.delete b (inflight_checkpoints c),
              completing := AList.update b (snd (acknowledge_checkpoint now v cp), Collecting) (completing c)\<rparr>"
  proof (cases "map_of (inflight_checkpoints c) b")
    case None
    then have "c' = c" using run by (simp add: notify_checkpoint_aligned_def split: if_splits option.splits sum.splits)
    then show ?thesis by (rule that(1))
  next
    case (Some cp)
    have "c' \<in> {c, update_checkpoint b (snd (acknowledge_checkpoint now v cp)) c,
        c\<lparr>inflight_checkpoints := AList.delete b (inflight_checkpoints c),
          completing := AList.update b (snd (acknowledge_checkpoint now v cp), Collecting) (completing c)\<rparr>}"
      using run Some by (cases "acknowledge_checkpoint now v cp")
        (simp add: notify_checkpoint_aligned_def split: if_splits option.splits sum.splits)
    then show ?thesis using that Some by blast
  qed
  then show ?thesis
  proof cases
    case 1
    then show ?thesis using inv by simp
  next
    case (2 cp)
    then show ?thesis using epoch_update_checkpoint [OF inv] acknowledge_same by simp
  next
    case (3 cp)
    show ?thesis
      unfolding 3(2)
      by (rule epoch_shrink [OF inv]) (use 3(1) epoch_invD(3) [OF inv] acknowledge_same [of now v cp] epoch_invD(8,10) [OF inv] in
        \<open>auto simp: live_def split: if_splits\<close>)
  qed
qed

text \<open>A completing checkpoint fails: its phase becomes Closing and its release is pending.\<close>

lemma epoch_to_closing:
  assumes inv: "epoch_inv c" and b: "map_of (completing c) b = Some (cp, ph)"
    and c': "epoch_view c' = epoch_view (set_phase b cp Closing (begin_release b vs c))"
  shows "epoch_inv c'"
proof -
  have "epoch_inv (set_phase b cp Closing (begin_release b vs c))"
    by (rule epoch_shrink [OF inv])
      (use b epoch_invD(3,5) [OF inv] in \<open>auto simp: set_phase_def begin_release_def live_def split: if_splits\<close>)
  then show ?thesis using epoch_inv_cong [OF c'] by simp
qed

lemma epoch_phase:
  assumes inv: "epoch_inv c" and b: "map_of (completing c) b = Some (cp, ph)" "ph \<noteq> Closing"
  shows "epoch_inv (set_phase b cp ph' c)"
  by (rule epoch_shrink [OF inv]) (use b epoch_invD(3) [OF inv] in \<open>auto simp: set_phase_def live_def split: if_splits\<close>)

lemma epoch_close:
  assumes inv: "epoch_inv c" and b: "map_of (completing c) b = Some (cp, ph)"
    and c': "epoch_view c' = epoch_view (close_completion b cp c)"
  shows "epoch_inv c'"
proof -
  have id: "cp_barrier_id cp = b" by (rule epoch_invD(4) [OF inv b])
  have no: "map_of (inflight_checkpoints c) b = None" using epoch_invD(3) [OF inv, of b] b by (cases "map_of (inflight_checkpoints c) b") auto
  have "epoch_inv (close_completion b cp c)"
    by (rule epoch_shrink [OF inv])
      (use b id no epoch_invD(3) [OF inv] in \<open>auto simp: small_steps Let_def live_def map_of_free_slot split: if_splits\<close>)
  then show ?thesis using epoch_inv_cong [OF c'] by simp
qed


lemma epoch_collected:
  assumes inv: "epoch_inv c"
  shows "epoch_inv (complete_collected sha api b answers c)"
proof (cases rule: completion_cases [of sha api b answers c])
  case same
  then show ?thesis using inv by simp
next
  case (failed cp)
  have "cp_barrier_id cp = b" by (rule epoch_invD(4) [OF inv failed(1)])
  then have "epoch_view (complete_collected sha api b answers c) =
      epoch_view (set_phase b cp Closing (begin_release b (trigger_sources cp) c))"
    unfolding failed(2) by (simp add: epoch_view_def small_steps)
  then show ?thesis by (rule epoch_to_closing [OF inv failed(1)])
next
  case (merged cp states has ready c1)
  from merged(3) have view: "epoch_view c1 = epoch_view c"
    by (rule merge_shape) (simp add: epoch_view_def)
  then have c1: "epoch_inv c1" "map_of (completing c1) b = Some (cp, Collecting)"
    using epoch_inv_cong [OF view] inv merged(1) by (simp_all add: epoch_view_def)
  have "epoch_inv (finish_completion b cp c1)"
    by (rule epoch_close [OF c1]) (simp add: epoch_view_def finish_completion_def close_completion_def as_update Let_def)
  moreover have "epoch_inv (set_phase b cp Persisting c1)" by (rule epoch_phase [OF c1]) simp
  ultimately show ?thesis unfolding merged(4) by simp
qed

lemma epoch_completions:
  assumes inv: "epoch_inv c"
  shows "epoch_inv (complete_persisted b ok c)" and "epoch_inv (complete_closed b c)"
proof -
  show "epoch_inv (complete_persisted b ok c)"
  proof (cases "\<exists>cp. map_of (completing c) b = Some (cp, Persisting)")
    case True
    then obtain cp where b: "map_of (completing c) b = Some (cp, Persisting)" by blast
    have "epoch_inv (finish_completion b cp c)"
      by (rule epoch_close [OF inv b]) (simp add: epoch_view_def finish_completion_def close_completion_def as_update Let_def)
    moreover have "epoch_inv (set_phase b cp Closing (begin_release b (trigger_sources cp) c))"
      by (rule epoch_to_closing [OF inv b refl])
    ultimately show ?thesis using b by (simp add: complete_persisted_def)
  next
    case False
    then have "complete_persisted b ok c = c"
      by (auto simp: complete_persisted_def split: option.split completion_phase.split)
    then show ?thesis using inv by simp
  qed
  show "epoch_inv (complete_closed b c)"
    using inv epoch_close [OF inv _ refl] by (auto simp: complete_closed_def split: option.split completion_phase.split)
qed

subsection \<open>Release, expiry and rescale\<close>

lemma epoch_release:
  assumes inv: "epoch_inv c"
  shows "epoch_inv (retry_release rpc b c)"
proof (cases "map_of (pending_releases c) b")
  case (Some vs)
  have "map_of (inflight_checkpoints c) b = None" "map_of (completing c) b = Some (x, ph) \<Longrightarrow> ph = Closing" for x ph
    using epoch_invD(8) [OF inv Some] unfolding live_def by (metis option.exhaust)+
  then have "epoch_inv (finish_checkpoint_release b c)"
    by (intro epoch_shrink [OF inv])
      (use epoch_invD(3) [OF inv] in \<open>auto simp: as_update live_def split: if_splits\<close>)
  with Some inv show ?thesis by (simp add: retry_release_def)
qed (use inv in \<open>simp add: retry_release_def\<close>)

lemma epoch_expire:
  assumes inv: "epoch_inv c" and run: "expire_next api c = Inr c'"
  shows "epoch_inv c'"
proof (cases "expiring c")
  case Nil
  then show ?thesis using inv run by (simp add: expire_next_def)
next
  case (Cons b bs)
  then obtain cp where cp: "map_of (inflight_checkpoints c) b = Some cp"
    and c': "c' = detach_failed api cp (release_domain_slot cp
      (c\<lparr>inflight_checkpoints := AList.delete b (inflight_checkpoints c), expiring := bs\<rparr>))"
    using run by (auto simp: expire_next_def split: option.splits)
  note id = epoch_invD(1-3) [OF inv cp]
  show ?thesis
    unfolding c'
    by (rule epoch_shrink [OF inv])
      (use id epoch_invD(3) [OF inv] in \<open>auto simp: small_steps live_def map_of_free_slot split: if_splits\<close>)
qed

lemma epoch_rescale_begin:
  assumes inv: "epoch_inv c" and wf: "wf_dict (inflight_checkpoints c)"
    and run: "begin_operator_rescale op timeout expired c = (u, c')"
  shows "epoch_inv c'"
proof (cases "c' = c")
  case False
  let ?cps = "map snd (inflight_checkpoints c)"
  obtain name where c': "c' = release_all_slots ?cps
      (c\<lparr>rescale_operation_id := Some name, inflight_checkpoints := [], aborting := aborting c @ ?cps\<rparr>)"
    using run False by (auto simp: begin_operator_rescale_def Let_def split: pyobj.splits if_splits)
  have gone: "map_of (inflight_checkpoints c) (cp_barrier_id x) = Some x" if "x \<in> set ?cps" for x
  proof -
    from that obtain b where "(b, x) \<in> set (inflight_checkpoints c)" by auto
    then have "map_of (inflight_checkpoints c) b = Some x" using wf by simp
    with epoch_invD(1) [OF inv this] show ?thesis by simp
  qed
  then have "b \<notin> cp_barrier_id ` set ?cps" if "map_of (completing c) b = Some (x, ph)" for b x ph
    using epoch_invD(3) [OF inv] that by fastforce
  note slot = map_of_free_slots [OF _ this]
  have old: "cp_barrier_id x \<le> current_id (barrier_gen c) \<and> map_of (completing c) (cp_barrier_id x) = None" if "x \<in> set ?cps" for x
    using epoch_invD(2,3) [OF inv gone [OF that]] by blast
  show ?thesis
    unfolding c' as_update
  proof (rule epoch_shrink [OF inv])
    let ?c = "(c\<lparr>rescale_operation_id := Some name, inflight_checkpoints := [], aborting := aborting c @ ?cps\<rparr>)
      \<lparr>active_by_domain := fold free_slot ?cps (active_by_domain (c\<lparr>rescale_operation_id := Some name, inflight_checkpoints := [],
        aborting := aborting c @ ?cps\<rparr>))\<rparr>"
    show "map_of (active_by_domain ?c) d = Some b" if "live ?c b x" "map_of (active_by_domain c) d = Some b" for b x d
      using that slot by (auto simp: live_def)
    show "x \<in> set (aborting c) \<or> cp_barrier_id x \<le> current_id (barrier_gen c) \<and> (\<forall>y. \<not> live ?c (cp_barrier_id x) y)"
      if "x \<in> set (aborting ?c)" for x
      using that old [of x] by (cases "x \<in> set ?cps") (simp_all add: live_def)
  qed (auto simp: live_def)
qed (use inv in simp)

lemma epoch_abort:
  assumes inv: "epoch_inv c"
  shows "epoch_inv (rescale_abort_next api c)"
proof (cases "aborting c")
  case (Cons cp cps)
  have "map_of (inflight_checkpoints c) (cp_barrier_id cp) \<noteq> Some x"
    "map_of (completing c) (cp_barrier_id cp) = Some (x, ph) \<Longrightarrow> ph = Closing" "cp_barrier_id cp \<le> current_id (barrier_gen c)" for x ph
    using epoch_invD(9,10) [OF inv, of cp] Cons unfolding live_def by auto
  then have "epoch_inv (detach_failed api cp (c\<lparr>aborting := cps\<rparr>))"
    by (intro epoch_shrink [OF inv]) (use Cons epoch_invD(3) [OF inv] in \<open>auto simp: small_steps live_def split: if_splits\<close>)
  then show ?thesis by (simp add: rescale_abort_next_def Cons)
qed (use inv in \<open>simp add: rescale_abort_next_def\<close>)

text \<open>Without live checkpoints, fence, coordinated barrier and slots may be set freely.\<close>

lemma epoch_idle:
  assumes inv: "epoch_inv c" and idle: "inflight_checkpoints c = []" "completing c = []"
    and c': "inflight_checkpoints c' = []" "completing c' = []" "current_id (barrier_gen c') = current_id (barrier_gen c)"
      "pending_releases c' = pending_releases c" "aborting c' = aborting c"
  shows "epoch_inv c'"
  by (rule epoch_shrink [OF inv]) (auto simp: live_def c')

lemma epoch_finish:
  assumes inv: "epoch_inv c" and run: "finish_operator_rescale sha op done target c = (r, c')"
    and idle: "done \<longrightarrow> inflight_checkpoints c = [] \<and> completing c = []"
  shows "epoch_inv c'"
proof (cases "done")
  case True
  with idle have e: "inflight_checkpoints c = []" "completing c = []" by blast+
  show ?thesis
    by (rule epoch_idle [OF inv e]) (use run e in \<open>auto simp: finish_operator_rescale_def Let_def split: if_splits sum.splits\<close>)
next
  case False
  with run have "epoch_view c' = epoch_view c"
    by (auto simp: finish_operator_rescale_def Let_def epoch_view_def split: if_splits)
  then show ?thesis using epoch_inv_cong inv by blast
qed

lemma epoch_reconfigure:
  assumes inv: "epoch_inv c" and run: "reconfigure_execution_graph sha acks g c = Inr c'"
  shows "epoch_inv c'"
proof -
  have e: "inflight_checkpoints c = []" "completing c = []"
    using run by (auto simp: reconfigure_execution_graph_def split: if_splits)
  show ?thesis
    by (rule epoch_idle [OF inv e])
      (use run e in \<open>auto simp: reconfigure_execution_graph_def remap_carried_sink_domains_def Let_def result_simps split: if_splits\<close>)
qed

lemma epoch_clear_fence:
  assumes inv: "epoch_inv c"
  shows "epoch_inv (clear_rescale_recovery_fence_if_durable c)"
proof (cases "clear_rescale_recovery_fence_if_durable c = c")
  case False
  have "clear_rescale_recovery_fence_if_durable c \<in> {c, c\<lparr>recovery_fence := None, recovery_sources := [], recovery_sinks := [],
      recovery_required_revision := None, coordinated_barrier := None, coordinated_registered := []\<rparr>}"
    by (simp add: clear_rescale_recovery_fence_if_durable_def split: option.split)
  with False have c': "clear_rescale_recovery_fence_if_durable c = c\<lparr>recovery_fence := None, recovery_sources := [],
      recovery_sinks := [], recovery_required_revision := None, coordinated_barrier := None, coordinated_registered := []\<rparr>" by blast
  show ?thesis
    unfolding c' by (rule epoch_shrink [OF inv]) (use epoch_invD(3) [OF inv] in \<open>auto simp: live_def\<close>)
qed (use inv in simp)

lemma epoch_persist_begin: "epoch_inv c \<Longrightarrow> epoch_inv (persist_begin c)"
  using epoch_clear_fence [of c] epoch_inv_cong [of "c\<lparr>persisting := Some (take_persist_snapshot c)\<rparr>" c]
  by (simp add: persist_begin_def) (simp add: epoch_view_def)


subsection \<open>Registration\<close>

lemma epoch_bump: "epoch_inv c \<Longrightarrow> current_id (barrier_gen c) \<le> current_id g \<Longrightarrow> epoch_inv (c\<lparr>barrier_gen := g\<rparr>)"
  unfolding epoch_inv_def live_def by (simp, meson order_trans)

lemma epoch_admit:
  assumes inv: "epoch_inv c" and free: "map_of (active_by_domain c) did = None" and fence: "recovery_fence c = None"
    and run: "admit_checkpoint now v (did, srcs, committers, required) c = (r, reqs, c')"
  shows "epoch_inv c'"
proof (cases "isl r")
  case True
  with run have "c' = c\<lparr>barrier_gen := snd (next_id (barrier_gen c))\<rparr>"
    by (auto simp: admit_checkpoint_def next_id_def Let_def split: option.splits sum.splits)
  then show ?thesis using epoch_bump [OF inv] by (simp add: next_id_def)
next
  case False
  let ?cp = "mark_in_progress now (make_checkpoint (current_id (barrier_gen c) + 1) required srcs False (Some did) committers)"
  have c': "c' = (let c1 = c\<lparr>barrier_gen := snd (next_id (barrier_gen c))\<rparr> in
      c1\<lparr>inflight_checkpoints := AList.update (cp_barrier_id ?cp) ?cp (inflight_checkpoints c1),
        active_by_domain := AList.update did (cp_barrier_id ?cp) (active_by_domain c1)\<rparr>)"
    using run False
    by (auto simp: admit_checkpoint_def track_checkpoint_def next_id_def make_checkpoint_def mark_in_progress_def Let_def
        split: option.splits sum.splits)
  have "cp_domain_id ?cp = Some did" "cp_barrier_id ?cp = current_id (barrier_gen c) + 1"
    by (simp_all add: make_checkpoint_def mark_in_progress_def)
  then show ?thesis
    by (intro epoch_open [OF inv, where cp = ?cp]) (use free epoch_invD(6) [OF inv] fence in \<open>auto simp: c' Let_def next_id_def\<close>)
qed

lemma tracked_checkpoint [simp]:
  "cp_barrier_id (mark_in_progress now cp) = cp_barrier_id cp" "cp_domain_id (mark_in_progress now cp) = cp_domain_id cp"
  "cp_barrier_id (stabilization_checkpoint b sinks c) = b"
  by (simp_all add: mark_in_progress_def stabilization_checkpoint_def make_checkpoint_def Let_def)

lemma epoch_open_stabilization:
  assumes inv: "epoch_inv c" and idle: "\<And>b x. \<not> live c b x" and run: "open_stabilization now c = (bo, c')"
  shows "epoch_inv c'"
proof (cases "bo")
  case None
  with run have "c' = c" by (auto simp: open_stabilization_def Let_def split: option.splits if_splits prod.splits)
  then show ?thesis using inv by simp
next
  case (Some b)
  then obtain sinks where run': "b = current_id (barrier_gen c) + 1"
    "c' = (activate_checkpoint_domain (stabilization_checkpoint b sinks c)
        (track_checkpoint now (stabilization_checkpoint b sinks c) (c\<lparr>barrier_gen := snd (next_id (barrier_gen c))\<rparr>)))
        \<lparr>coordinated_barrier := Some b\<rparr>"
    using run by (auto simp: open_stabilization_def next_id_def Let_def split: option.splits if_splits)
  let ?cp = "mark_in_progress now (stabilization_checkpoint b sinks c)"
  show ?thesis
    by (rule epoch_open [OF inv, where cp = ?cp])
      (use idle run'(1) in \<open>auto simp: run'(2) track_checkpoint_def as_update next_id_def split: option.split\<close>)
qed

lemma epoch_stabilization:
  assumes inv: "epoch_inv c" and fence: "recovery_fence c \<noteq> None"
    and run: "register_rescale_stabilization_checkpoint now v c = (r, c')"
  shows "epoch_inv c'"
proof -
  let ?closed = "case coordinated_barrier c of None \<Rightarrow> False | Some b \<Rightarrow> stabilization_closed b c"
  define c1 where "c1 = (if ?closed then c\<lparr>coordinated_barrier := None, coordinated_registered := []\<rparr> else c)"
  have only: "coordinated_barrier c = Some b" if "live c b x" for b x using epoch_invD(11) [OF inv _ that] fence by auto
  have idle: "\<not> live c b x" if ?closed for b x
    using that only [of b x] by (auto simp: live_def stabilization_closed_def split: option.splits)
  have c1: "epoch_inv c1" "coordinated_barrier c1 = None \<Longrightarrow> \<not> live c1 b x" for b x
  proof -
    show "epoch_inv c1"
    proof (cases ?closed)
      case True
      then show ?thesis
        unfolding c1_def by (simp, intro epoch_shrink [OF inv])
          (use idle [OF True] epoch_invD(3) [OF inv] in \<open>auto simp: live_def\<close>)
    qed (use inv in \<open>simp add: c1_def\<close>)
    show "\<not> live c1 b x" if "coordinated_barrier c1 = None"
      using that idle [of b x] only [of b x] by (auto simp: c1_def live_def split: if_splits)
  qed
  obtain bo c2 where c2: "(case coordinated_barrier c1 of Some b \<Rightarrow> (Some b, c1) | None \<Rightarrow> open_stabilization now c1) = (bo, c2)"
    by (rule prod.exhaust)
  have "epoch_inv c2"
    using c2 c1 epoch_open_stabilization [OF c1(1)] by (auto split: option.splits)
  moreover have "c' \<in> {c, c1, c2, c2\<lparr>coordinated_registered := List.insert v (coordinated_registered c2)\<rparr>}"
    using run c2 unfolding register_rescale_stabilization_checkpoint_def Let_def c1_def [symmetric]
    by (auto split: if_splits option.splits)
  ultimately show ?thesis
    using inv c1(1) epoch_inv_cong [of "c2\<lparr>coordinated_registered := List.insert v (coordinated_registered c2)\<rparr>" c2]
    by (auto simp: epoch_view_def)
qed

lemma epoch_register:
  assumes inv: "epoch_inv c" and run: "register_checkpoint now force v c = (r, reqs, c')"
  shows "epoch_inv c'"
proof (cases "rescale_operation_id c = None \<and> recovery_fence c \<noteq> None")
  case True
  then show ?thesis using run epoch_stabilization [OF inv] by (auto simp: register_checkpoint_def split: prod.splits)
next
  case False
  then consider "c' = c" | did srcs committers required where "recovery_fence c = None" "map_of (active_by_domain c) did = None"
      "admit_checkpoint now v (did, srcs, committers, required) c = (r, reqs, c')"
    using run by (auto simp: register_checkpoint_def split: option.splits if_splits prod.splits)
  then show ?thesis using inv epoch_admit [OF inv] by cases simp_all
qed


subsection \<open>Runs\<close>

named_theorems inflight_wf \<open>handlers keep the ids of checkpoints in flight distinct\<close>

lemma wf_register_stabilization:
  assumes "register_rescale_stabilization_checkpoint now v c = (r, c')" "wf_dict (inflight_checkpoints c)"
  shows "wf_dict (inflight_checkpoints c')"
proof -
  have "wf_dict (inflight_checkpoints d')" if "open_stabilization now d = (bo, d')" "wf_dict (inflight_checkpoints d)"
    for d d' :: "('a, 'b) coordinator" and bo
    using that by (auto simp: open_stabilization_def Let_def next_id_def small_steps split: option.splits if_splits)
  then show ?thesis
    using assms
    by (fastforce simp: register_rescale_stabilization_checkpoint_def Let_def split: option.splits if_splits prod.splits)
qed

lemma wf_register [inflight_wf]:
  "register_checkpoint now force v c = (r, reqs, c') \<Longrightarrow> wf_dict (inflight_checkpoints c) \<Longrightarrow> wf_dict (inflight_checkpoints c')"
  by (auto simp: register_checkpoint_def admit_checkpoint_def Let_def next_id_def small_steps wf_register_stabilization
      split: option.splits if_splits prod.splits sum.splits)

lemma wf_reports [inflight_wf]:
  "source_checkpoint_started b v eof c = (ok, c') \<Longrightarrow> wf_dict (inflight_checkpoints c) \<Longrightarrow> wf_dict (inflight_checkpoints c')"
  "register_operator_state b v ref c = (r, c') \<Longrightarrow> wf_dict (inflight_checkpoints c) \<Longrightarrow> wf_dict (inflight_checkpoints c')"
  "register_operator_checkpoint_metrics b v ms c = (ok, c') \<Longrightarrow> wf_dict (inflight_checkpoints c) \<Longrightarrow> wf_dict (inflight_checkpoints c')"
  "notify_checkpoint_aligned now b v c = (a, c') \<Longrightarrow> wf_dict (inflight_checkpoints c) \<Longrightarrow> wf_dict (inflight_checkpoints c')"
  by (auto simp: source_checkpoint_started_def register_operator_state_def register_operator_checkpoint_metrics_def
      notify_checkpoint_aligned_def small_steps Let_def wf_dict_delete split: option.splits if_splits prod.splits sum.splits)

lemma wf_sink [inflight_wf]:
  "register_sink_committable api b v x c = (r, c') \<Longrightarrow> wf_dict (inflight_checkpoints c) \<Longrightarrow> wf_dict (inflight_checkpoints c')"
  by (erule register_sink_cases) simp_all

lemma same_inflight [inflight_wf]:
  "inflight_checkpoints (complete_persisted b ok c) = inflight_checkpoints c"
  "inflight_checkpoints (complete_closed b c) = inflight_checkpoints c"
  "inflight_checkpoints (retry_release rpc b c) = inflight_checkpoints c"
  "inflight_checkpoints (expire_begin now c) = inflight_checkpoints c"
  "inflight_checkpoints (rescale_abort_next api c) = inflight_checkpoints c"
  "inflight_checkpoints (sink_committed i c) = inflight_checkpoints c"
  "inflight_checkpoints (persist_written api path restored c) = inflight_checkpoints c"
  "inflight_checkpoints (persist_failed c) = inflight_checkpoints c"
  by (auto simp: complete_persisted_def complete_closed_def retry_release_def small_steps Let_def rescale_abort_next_def
      persist_written_def split: option.split prod.split completion_phase.split list.split)

lemma same_inflight_collected [inflight_wf]:
  "inflight_checkpoints (complete_collected sha api b answers c) = inflight_checkpoints c"
proof (cases rule: completion_cases [of sha api b answers c])
  case (merged cp states has ready c1)
  from merged(3) have "inflight_checkpoints c1 = inflight_checkpoints c" by (rule merge_shape) simp
  then show ?thesis unfolding merged(4) by (simp add: small_steps Let_def)
qed (simp_all add: small_steps)

lemma wf_expire [inflight_wf]:
  "expire_next api c = Inr c' \<Longrightarrow> wf_dict (inflight_checkpoints c) \<Longrightarrow> wf_dict (inflight_checkpoints c')"
  by (auto simp: expire_next_def small_steps wf_dict_delete split: list.splits option.splits)

lemma same_inflight_persist [inflight_wf]:
  "inflight_checkpoints (clear_rescale_recovery_fence_if_durable c) = inflight_checkpoints c"
  "inflight_checkpoints (persist_begin c) = inflight_checkpoints c"
  by (simp_all add: persist_begin_def clear_rescale_recovery_fence_if_durable_def split: option.split)

lemma wf_rescale [inflight_wf]:
  "begin_operator_rescale op timeout expired c = (u, c') \<Longrightarrow> wf_dict (inflight_checkpoints c) \<Longrightarrow> wf_dict (inflight_checkpoints c')"
  "rescale_quiesced expired c = (a, c') \<Longrightarrow> wf_dict (inflight_checkpoints c) \<Longrightarrow> wf_dict (inflight_checkpoints c')"
  "finish_operator_rescale sha opid done target c = (r, c') \<Longrightarrow> wf_dict (inflight_checkpoints c) \<Longrightarrow> wf_dict (inflight_checkpoints c')"
  "reconfigure_execution_graph sha acks g c = Inr c' \<Longrightarrow> wf_dict (inflight_checkpoints c) \<Longrightarrow> wf_dict (inflight_checkpoints c')"
  "stage_operator_rescale_state opid j p parts c = Inr c' \<Longrightarrow> wf_dict (inflight_checkpoints c) \<Longrightarrow> wf_dict (inflight_checkpoints c')"
  "discard_operator_rescale_state opid jv c = (ok', c') \<Longrightarrow> wf_dict (inflight_checkpoints c) \<Longrightarrow> wf_dict (inflight_checkpoints c')"
  by (auto simp: begin_operator_rescale_def small_steps rescale_quiesced_def finish_operator_rescale_def stage_operator_rescale_state_def
      discard_operator_rescale_state_def reconfigure_execution_graph_def remap_carried_sink_domains_def
      Let_def result_simps split: pyobj.splits if_splits sum.splits)

lemma same_inflight_notify [inflight_wf]:
  "inflight_checkpoints (notify_durable_source_checkpoints answers c) = inflight_checkpoints c"
  by (rule notify_updates [of answers c]) simp

lemma inflight_wf_run:
  "coordinator_run sha api c0 c h \<Longrightarrow> wf_dict (inflight_checkpoints c0) \<Longrightarrow> wf_dict (inflight_checkpoints c)"
  by (induction rule: coordinator_run.induct) (auto simp only: inflight_wf intro: inflight_wf)

lemma epoch_frames:
  "rescale_quiesced expired c = (a, c') \<Longrightarrow> epoch_view c' = epoch_view c"
  "stage_operator_rescale_state opid j p parts c = Inr c' \<Longrightarrow> epoch_view c' = epoch_view c"
  "discard_operator_rescale_state opid jv c = (ok, c') \<Longrightarrow> epoch_view c' = epoch_view c"
  "epoch_view (expire_begin now c) = epoch_view c"
  "epoch_view (persist_written api path restored c) = epoch_view c"
  "epoch_view (persist_failed c) = epoch_view c"
  "epoch_view (sink_committed i c) = epoch_view c"
  by (auto simp: rescale_quiesced_def stage_operator_rescale_state_def discard_operator_rescale_state_def small_steps
      persist_written_def epoch_view_def result_simps split: if_splits option.splits)

lemma epoch_frame_notify: "epoch_view (notify_durable_source_checkpoints answers c) = epoch_view c"
  by (rule notify_updates [of answers c]) (simp add: epoch_view_def)

lemma epoch_inv_run:
  assumes run: "coordinator_run sha api c0 c h" and start: "epoch_inv c0" "wf_dict (inflight_checkpoints c0)"
  shows "epoch_inv c"
  using run
proof (induction rule: coordinator_run.induct)
  case (run_rescale c h op timeout expired u c')
  from epoch_rescale_begin [OF run_rescale.IH inflight_wf_run [OF run_rescale.hyps(1) start(2)] run_rescale.hyps(2)]
  show ?case .
next
  case (run_collected c h b answers c')
  then show ?case using epoch_collected by blast
qed (use start in \<open>blast intro: epoch_register epoch_reports epoch_aligned epoch_completions epoch_release epoch_expire
      epoch_abort epoch_finish epoch_reconfigure epoch_clear_fence epoch_persist_begin
      epoch_inv_cong [THEN iffD2] epoch_frames epoch_frame_notify\<close>)+


lemma make_coordinator_idle:
  "make_coordinator job interval cache_min retained max_concurrent timeout history = Inr c \<Longrightarrow> aborting c = []"
  by (auto simp: make_coordinator_def result_simps)

lemma started_epochs:
  assumes "started_with sha api r c0"
  shows "epoch_inv c0" "wf_dict (inflight_checkpoints c0)"
proof -
  obtain c acks g where a: "aborting c = []" and o: "open_coordinator sha api acks r g c = Inr c0"
    using assms make_coordinator_idle unfolding started_with_def by blast
  have "inflight_checkpoints c0 = [] \<and> completing c0 = [] \<and> pending_releases c0 = [] \<and> aborting c0 = aborting c"
    using o by (auto simp: open_coordinator_def Let_def result_simps)
  with a show "epoch_inv c0" "wf_dict (inflight_checkpoints c0)" by (simp_all add: epoch_inv_def live_def)
qed


subsection \<open>Expiry\<close>

text \<open>Two independent pipelines, each a source and a sink with one subtask.\<close>

definition demo_pipelines :: egraph where
  "demo_pipelines =
     (let run = \<lambda>t jv. jv\<lparr>execution_vertices := map (\<lambda>(i, x). (i, x\<lparr>stream_task := Some t\<rparr>)) (execution_vertices jv)\<rparr>;
          jv = \<lambda>j src. run (nat j) (make_job_vertex (\<lambda>_. ''g'') (demo_spec j src 1));
          x = \<lambda>j. \<lparr>job_vertex_id = j, vertex_index = 0\<rparr>;
          e = \<lambda>s t. \<lparr>je_source = s, je_target = t,
                je_partitioner = \<lparr>forward_class = False, spec_topology = ALL_TO_ALL\<rparr>, execution_edges = [(x s, x t)]\<rparr>
      in \<lparr>g_namespace = ''n'', job_vertices = [(0, jv 0 True), (1, jv 1 False), (2, jv 2 True), (3, jv 3 False)],
          job_edges = [e 0 1, e 2 3], topology_epochs = []\<rparr>)"

definition demo_restored :: "(nat, nat) restored" where
  "demo_restored = \<lparr>rs_path = None, rs_metadata_revision = 0, rs_source_states = [], rs_high_water = 0,
     rs_operator_states = [], rs_sink_committables = []\<rparr>"

definition demo_made :: "(nat, nat) coordinator" where
  "demo_made = projr (make_coordinator ''n'' (PInt 10) (PInt 0) (PInt 1) (PInt 2) (PInt 60) (PInt 5))"

definition race0 :: "(nat, nat) coordinator" where
  "race0 = projr (open_coordinator id demo_api [] demo_restored demo_pipelines demo_made)"

definition race1 :: "(nat, nat) coordinator" where
  "race1 = snd (snd (register_checkpoint 5 False \<lparr>job_vertex_id = 0, vertex_index = 0\<rparr> race0))"

definition race2 :: "(nat, nat) coordinator" where
  "race2 = snd (snd (register_checkpoint 6 False \<lparr>job_vertex_id = 2, vertex_index = 0\<rparr> race1))"

definition race3 :: "(nat, nat) coordinator" where
  "race3 = projr (expire_next demo_api (expire_begin 60007 race2))"

definition race4 :: "(nat, nat) coordinator" where
  "race4 = snd (notify_checkpoint_aligned 60008 2 \<lparr>job_vertex_id = 3, vertex_index = 0\<rparr> race3)"

lemma race_started: "started_with id demo_api demo_restored race0"
proof -
  have "make_coordinator ''n'' (PInt 10) (PInt 0) (PInt 1) (PInt 2) (PInt 60) (PInt 5) = Inr demo_made"
    unfolding demo_made_def by (simp add: make_coordinator_def validate_integer_option_def)
  moreover have "\<not> isl (open_coordinator id demo_api [] demo_restored demo_pipelines demo_made)" by code_simp
  then have "open_coordinator id demo_api [] demo_restored demo_pipelines demo_made = Inr race0"
    unfolding race0_def by simp
  ultimately show ?thesis unfolding started_with_def by blast
qed

lemma race_runs:
  "coordinator_run id demo_api race0 race2 no_history" "coordinator_run id demo_api race0 race4 no_history"
proof -
  let ?run = "\<lambda>c. coordinator_run id demo_api race0 c no_history"
  have reg: "?run (snd (snd (register_checkpoint now force v c)))" if "?run c" for now force v c
    using run_register [OF that] by (metis prod.collapse)
  have 2: "?run race2" unfolding race2_def race1_def by (intro reg run_start)
  then show "?run race2" .
  have "\<not> isl (expire_next demo_api (expire_begin 60007 race2))" by code_simp
  then have "expire_next demo_api (expire_begin 60007 race2) = Inr race3" unfolding race3_def by simp
  then have "?run race3" by (rule run_expire_next [OF run_expire [OF 2]])
  then show "?run race4" unfolding race4_def using run_aligned by (metis prod.collapse)
qed


text \<open>
  C24. Expiry raises \<open>KeyError\<close>: with two stale checkpoints, one that becomes fully acknowledged while the
  release of the other is awaited is no longer in flight when the loop pops its id. The exception ends
  the maintenance loop of the coordinator.
\<close>

theorem expiry_can_raise_key_error:
  "started_with id demo_api demo_restored race0 \<and> coordinator_run id demo_api race0 race4 no_history \<and>
   length (expiring (expire_begin 60007 race2)) = 2 \<and> expire_next demo_api (expire_begin 60007 race2) = Inr race3 \<and>
   expire_next demo_api race4 = Inl KeyError"
proof -
  have "\<not> isl (expire_next demo_api (expire_begin 60007 race2))" by code_simp
  then have "expire_next demo_api (expire_begin 60007 race2) = Inr race3" unfolding race3_def by simp
  moreover have "length (expiring (expire_begin 60007 race2)) = 2" "expire_next demo_api race4 = Inl KeyError" by code_simp+
  ultimately show ?thesis using race_started race_runs by blast
qed

end
