(* ===== verification/CoordinatorAdmission.thy ===== *)
theory CoordinatorAdmission
  imports ActiveEpochs
begin

section \<open>Who must acknowledge a checkpoint, and the terminal flush\<close>

text \<open>
  Two properties of single handlers. The committers of an admitted checkpoint are exactly the sinks of
  its domain that a live source of the checkpoint can reach, so that a source that has finished does
  not leave it waiting for a barrier that cannot arrive; and a terminal flush that returns has left no
  sink transaction behind.
\<close>

subsection \<open>Reachability\<close>

definition succ_rel :: "('a, 'a list) dict \<Rightarrow> ('a \<times> 'a) set" where
  "succ_rel adj = {(u, w). w \<in> set (dict_get adj u [])}"

lemma reach_loop_closed:
  assumes "\<And>u w. u \<in> seen \<Longrightarrow> (u, w) \<in> succ_rel adj \<Longrightarrow> w \<in> seen \<union> set stack"
  shows "seen \<union> set stack \<subseteq> reach_loop adj seen stack \<and>
    (\<forall>u w. u \<in> reach_loop adj seen stack \<and> (u, w) \<in> succ_rel adj \<longrightarrow> w \<in> reach_loop adj seen stack)"
  using assms
proof (induction adj seen stack rule: reach_loop.induct)
  case (2 adj seen v stack)
  show ?case
  proof (cases "v \<in> seen")
    case True
    with 2(1) [OF True] 2(3) show ?thesis by fastforce
  next
    case False
    have "w \<in> insert v seen \<union> set (rev (dict_get adj v []) @ stack)" if "u \<in> insert v seen" "(u, w) \<in> succ_rel adj" for u w
      using that 2(3) [of u w] by (auto simp: succ_rel_def)
    from 2(2) [OF False this] False show ?thesis by simp
  qed
qed auto

lemma reach_loop_sound:
  "reach_loop adj seen stack \<subseteq> seen \<union> (succ_rel adj)\<^sup>* `` set stack"
proof (induction adj seen stack rule: reach_loop.induct)
  case (2 adj seen v stack)
  show ?case
  proof (cases "v \<in> seen")
    case False
    have "(succ_rel adj)\<^sup>* `` set (dict_get adj v []) \<subseteq> (succ_rel adj)\<^sup>* `` {v}"
      by (auto simp: succ_rel_def intro: converse_rtrancl_into_rtrancl)
    with 2(2) [OF False] False show ?thesis by auto
  qed (use 2(1) in auto)
qed auto

lemma reach_loop_exact: "reach_loop adj {} stack = (succ_rel adj)\<^sup>* `` set stack"
proof
  show "reach_loop adj {} stack \<subseteq> (succ_rel adj)\<^sup>* `` set stack" using reach_loop_sound [of adj "{}" stack] by simp
  have closed: "set stack \<subseteq> reach_loop adj {} stack"
    "\<And>u w. u \<in> reach_loop adj {} stack \<Longrightarrow> (u, w) \<in> succ_rel adj \<Longrightarrow> w \<in> reach_loop adj {} stack"
    using reach_loop_closed [of "{}" adj stack] by auto
  show "(succ_rel adj)\<^sup>* `` set stack \<subseteq> reach_loop adj {} stack"
  proof
    fix w assume "w \<in> (succ_rel adj)\<^sup>* `` set stack"
    then obtain v where "v \<in> set stack" "(v, w) \<in> (succ_rel adj)\<^sup>*" by blast
    from this(2) show "w \<in> reach_loop adj {} stack"
    proof (induction rule: rtrancl_induct)
      case base
      then show ?case using closed(1) \<open>v \<in> set stack\<close> by blast
    qed (rule closed(2))
  qed
qed

definition domain_edges :: "egraph \<Rightarrow> checkpoint_domain \<Rightarrow> (vertex_id \<times> vertex_id) set" where
  "domain_edges g d = {(s, t). (s, t) \<in> set (concat (map execution_edges (job_edges g))) \<and>
     s \<in> set (domain_vertices d) \<and> t \<in> set (domain_vertices d)}"

lemma succ_rel_domain: "succ_rel (domain_adjacency g d) = domain_edges g d"
proof -
  let ?f = "\<lambda>v. map snd (filter (\<lambda>(s, t). s = v \<and> t \<in> set (domain_vertices d)) (concat (map execution_edges (job_edges g))))"
  have "dict_get (domain_adjacency g d) u [] = (if u \<in> set (domain_vertices d) then ?f u else [])" for u
    unfolding domain_adjacency_def dict_get_def by (simp add: map_of_map_restrict restrict_map_def)
  then show ?thesis unfolding succ_rel_def domain_edges_def by force
qed

lemma mem_reachable_sinks:
  "c_graph c = Some g \<Longrightarrow> set (reachable_domain_sinks c d srcs) =
     {t \<in> set (domain_sinks d). \<exists>s \<in> set srcs. (s, t) \<in> (domain_edges g d)\<^sup>*}"
  by (auto simp: reachable_domain_sinks_def reach_loop_exact succ_rel_domain)




subsection \<open>The terminal flush\<close>

lemma commit_loop_strict:
  assumes "commit_loop ok True is done c = (Inr r, c')"
  shows "durable_sinks c' = fold AList.delete is (durable_sinks c) \<and> (\<forall>i \<in> set is. ok i) \<and>
    inflight_sinks c' = inflight_sinks c \<and> carried_sinks c' = carried_sinks c"
  using assms
proof (induction "is" arbitrary: c)
  case (Cons i "is")
  then have "ok i" "commit_loop ok True is done (sink_committed i c) = (Inr r, c')" by (simp_all split: if_splits)
  with Cons.IH [OF this(2)] show ?case by (simp add: sink_committed_update)
qed simp

lemma fold_delete_keys: "fold AList.delete (keys d) d = []"
proof -
  have "fold AList.delete ks d = filter (\<lambda>(k, _). k \<notin> set ks) d" for ks and d :: "('a, 'b) dict"
    by (induction ks arbitrary: d) (auto simp: AList.delete_eq intro: filter_cong)
  then show ?thesis by (force simp: filter_empty_conv)
qed

lemma commit_loop_carried:
  "commit_loop ok strict is done c = (r, c') \<Longrightarrow> inflight_sinks c' = inflight_sinks c \<and> carried_sinks c' = carried_sinks c"
proof (induction ok strict "is" "done" c rule: commit_loop.induct)
  case (2 ok strict i "is" all_committed c)
  then show ?case by (cases "ok i") (auto simp: sink_committed_update split: if_splits)
qed simp

definition unresolved :: "('c, 's) coordinator \<Rightarrow> _" where
  "unresolved c = (inflight_sinks c, carried_sinks c)"

lemma unresolved_frames:
  "unresolved (notify_durable_source_checkpoints answers c) = unresolved c"
  "unresolved (clear_rescale_recovery_fence_if_durable c) = unresolved c"
  "unresolved (persist_begin c) = unresolved c" "unresolved (persist_failed c) = unresolved c"
  "unresolved (persist_written api path restored c) = unresolved c"
proof -
  show "unresolved (notify_durable_source_checkpoints answers c) = unresolved c"
    by (rule notify_updates [of answers c]) (simp add: unresolved_def)
  show "unresolved (clear_rescale_recovery_fence_if_durable c) = unresolved c"
    using sink_view_fence [of c] by (simp add: sink_view_def unresolved_def)
  show "unresolved (persist_begin c) = unresolved c"
    using sink_view_persist_begin [of c] by (simp add: sink_view_def unresolved_def)
qed (simp_all add: unresolved_def persist_failed_def persist_written_def split: option.split)

lemma unresolved_commit: "commit_durable_sink_committables ok strict c = (r, c') \<Longrightarrow> unresolved c' = unresolved c"
  unfolding commit_durable_sink_committables_def unresolved_def using commit_loop_carried by fastforce

lemma unresolved_persist:
  assumes "persist_checkpoint_metadata api ok answers write notify strict c = (r, c')"
  shows "unresolved c' = unresolved c"
proof (cases "stopping c")
  case True
  then show ?thesis using assms by (simp add: persist_checkpoint_metadata_def)
next
  case False
  obtain r1 c1 where 1: "commit_durable_sink_committables ok strict c = (r1, c1)" by (rule prod.exhaust)
  define c3 where "c3 = persist_begin (if notify then notify_durable_source_checkpoints answers c1 else c1)"
  have 3: "unresolved c3 = unresolved c" using unresolved_commit [OF 1] by (simp add: c3_def unresolved_frames)
  have step: "unresolved c4 = unresolved c" if "commit_durable_sink_committables ok False (persist_written api path restored c3) = (r4, c4)"
    for path restored r4 c4 using unresolved_commit [OF that] 3 by (simp add: unresolved_frames)
  show ?thesis
  proof (cases "r1 = Inr True \<and> persisting c3 \<noteq> None")
    case True
    then obtain ps where ps: "r1 = Inr True" "persisting c3 = Some ps" by blast
    show ?thesis
    proof (cases "write ps")
      case None
      then show ?thesis using assms \<open>\<not> stopping c\<close> 1 ps 3
        by (auto simp: persist_checkpoint_metadata_def Let_def c3_def [symmetric] unresolved_frames split: if_splits)
    next
      case (Some pr)
      obtain path restored where pr: "pr = (path, restored)" by (rule prod.exhaust)
      obtain r4 c4 where 4: "commit_durable_sink_committables ok False (persist_written api path restored c3) = (r4, c4)" by (rule prod.exhaust)
      show ?thesis using assms \<open>\<not> stopping c\<close> 1 ps Some pr 4 step [OF 4]
        by (auto simp: persist_checkpoint_metadata_def Let_def c3_def [symmetric] unresolved_frames split: sum.splits bool.splits if_splits)
    qed
  next
    case no: False
    show ?thesis using assms \<open>\<not> stopping c\<close> 1 no 3 unresolved_commit [OF 1]
      by (auto simp: persist_checkpoint_metadata_def Let_def c3_def [symmetric] split: sum.splits bool.splits)
  qed
qed




end
