(* ===== verification/KeyedState.thy ===== *)
theory KeyedState
  imports StateBackend
begin

section \<open>Keyed state and timers for operators (state/*_state.py, timer_service.py, managed_state_operator.py)\<close>

text \<open>
  Operators use managed state through the abstract class \<open>ManagedStateBackend\<close>, here a record of
  operations on a backend state; value, list and map states, the timer service, the keyed state
  context and the skeleton of \<open>ManagedStateOperator\<close> are written over it. Its documented contract is
  the locale \<open>managed_store\<close>: each (key, namespace) is one cell, each timer is fired once. The
  in-memory backend satisfies the contract for every descriptor without time to live. One
  call of an operator reads the clock once. Metrics are left out.
\<close>

subsection \<open>ManagedStateBackend\<close>

record ('s, 'k, 'v) managed_backend =
  mb_select :: "'k \<Rightarrow> 's \<Rightarrow> 's"
  mb_get :: "'v descriptor \<Rightarrow> 'k \<Rightarrow> int \<Rightarrow> 's \<Rightarrow> 'v option result \<times> 's"
  mb_put :: "'v descriptor \<Rightarrow> 'v \<Rightarrow> 'k \<Rightarrow> int \<Rightarrow> 's \<Rightarrow> unit result \<times> 's"
  mb_delete :: "'v descriptor \<Rightarrow> 'k \<Rightarrow> 's \<Rightarrow> unit result \<times> 's"
  mb_namespaces :: "'v descriptor \<Rightarrow> 's \<Rightarrow> 'k list result"
  mb_register_timer :: "int \<Rightarrow> 'k \<Rightarrow> timer_domain \<Rightarrow> 's \<Rightarrow> 's result"
  mb_delete_timer :: "int \<Rightarrow> 'k \<Rightarrow> timer_domain \<Rightarrow> 's \<Rightarrow> 's result"
  mb_pop_due_timers :: "int \<Rightarrow> timer_domain \<Rightarrow> nat option \<Rightarrow> 's \<Rightarrow> ('k timer_event list \<times> 's) result"
  mb_cleanup_expired :: "int \<Rightarrow> nat option \<Rightarrow> 's \<Rightarrow> nat result \<times> 's"

definition memory_backend :: "('k backend, 'k, 'v) managed_backend" where
  "memory_backend = \<lparr>mb_select = set_current_key, mb_get = (\<lambda>d ns now. get_state d ns now now),
     mb_put = put_state, mb_delete = delete_state, mb_namespaces = namespaces,
     mb_register_timer = register_timer, mb_delete_timer = delete_timer,
     mb_pop_due_timers = pop_due_timers, mb_cleanup_expired = cleanup_expired\<rparr>"

subsection \<open>State handles\<close>

definition value_get :: "('s, 'k, 'v) managed_backend \<Rightarrow> 'v descriptor \<Rightarrow> 'k \<Rightarrow> int \<Rightarrow> 's \<Rightarrow> 'v option result \<times> 's" where
  "value_get ops d ns now s = mb_get ops d ns now s"

definition value_set :: "('s, 'k, 'v) managed_backend \<Rightarrow> 'v descriptor \<Rightarrow> 'k \<Rightarrow> 'v \<Rightarrow> int \<Rightarrow> 's \<Rightarrow> unit result \<times> 's" where
  "value_set ops d ns v now s = mb_put ops d v ns now s"

definition value_clear :: "('s, 'k, 'v) managed_backend \<Rightarrow> 'v descriptor \<Rightarrow> 'k \<Rightarrow> 's \<Rightarrow> unit result \<times> 's" where
  "value_clear ops d ns s = mb_delete ops d ns s"

text \<open>The index of a Python list: negative indices count from the end, others outside raise.\<close>

definition list_index :: "int \<Rightarrow> 'a list \<Rightarrow> nat result" where
  "list_index i xs =
     (let j = (if i < 0 then i + int (length xs) else i)
      in if 0 \<le> j \<and> j < int (length xs) then Inr (nat j) else Inl IndexError)"

definition list_values ::
  "('s, 'k, 'v list) managed_backend \<Rightarrow> 'v list descriptor \<Rightarrow> 'k \<Rightarrow> int \<Rightarrow> 's \<Rightarrow> 'v list result \<times> 's" where
  "list_values ops d ns now s =
     sbind (mb_get ops d ns now s) (\<lambda>v s1. (Inr (case v of None \<Rightarrow> [] | Some xs \<Rightarrow> xs), s1))"

definition list_getitem ::
  "('s, 'k, 'v list) managed_backend \<Rightarrow> 'v list descriptor \<Rightarrow> 'k \<Rightarrow> int \<Rightarrow> int \<Rightarrow> 's \<Rightarrow> 'v result \<times> 's" where
  "list_getitem ops d ns i now s =
     sbind (list_values ops d ns now s) (\<lambda>xs s1. (rbind (list_index i xs) (\<lambda>j. Inr (xs ! j)), s1))"

definition list_setitem ::
  "('s, 'k, 'v list) managed_backend \<Rightarrow> 'v list descriptor \<Rightarrow> 'k \<Rightarrow> int \<Rightarrow> 'v \<Rightarrow> int \<Rightarrow> 's \<Rightarrow> unit result \<times> 's" where
  "list_setitem ops d ns i v now s =
     sbind (list_values ops d ns now s) (\<lambda>xs s1.
       case list_index i xs of Inl e \<Rightarrow> (Inl e, s1) | Inr j \<Rightarrow> mb_put ops d (xs[j := v]) ns now s1)"

definition list_delitem ::
  "('s, 'k, 'v list) managed_backend \<Rightarrow> 'v list descriptor \<Rightarrow> 'k \<Rightarrow> int \<Rightarrow> int \<Rightarrow> 's \<Rightarrow> unit result \<times> 's" where
  "list_delitem ops d ns i now s =
     sbind (list_values ops d ns now s) (\<lambda>xs s1.
       case list_index i xs of
         Inl e \<Rightarrow> (Inl e, s1)
       | Inr j \<Rightarrow> let ys = take j xs @ drop (Suc j) xs
                  in if ys \<noteq> [] then mb_put ops d ys ns now s1 else mb_delete ops d ns s1)"

definition list_len :: "('s, 'k, 'v list) managed_backend \<Rightarrow> 'v list descriptor \<Rightarrow> 'k \<Rightarrow> int \<Rightarrow> 's \<Rightarrow> nat result \<times> 's" where
  "list_len ops d ns now s = sbind (list_values ops d ns now s) (\<lambda>xs s1. (Inr (length xs), s1))"

text \<open>\<open>list.insert\<close> clamps its index; \<open>append\<close> of \<open>MutableSequence\<close> inserts at the current length.\<close>

definition list_insert ::
  "('s, 'k, 'v list) managed_backend \<Rightarrow> 'v list descriptor \<Rightarrow> 'k \<Rightarrow> int \<Rightarrow> 'v \<Rightarrow> int \<Rightarrow> 's \<Rightarrow> unit result \<times> 's" where
  "list_insert ops d ns i v now s =
     sbind (list_values ops d ns now s) (\<lambda>xs s1.
       let j = nat (min (int (length xs)) (max 0 (if i < 0 then i + int (length xs) else i)))
       in mb_put ops d (take j xs @ [v] @ drop j xs) ns now s1)"

definition list_append ::
  "('s, 'k, 'v list) managed_backend \<Rightarrow> 'v list descriptor \<Rightarrow> 'k \<Rightarrow> 'v \<Rightarrow> int \<Rightarrow> 's \<Rightarrow> unit result \<times> 's" where
  "list_append ops d ns v now s = sbind (list_len ops d ns now s) (\<lambda>n s1. list_insert ops d ns (int n) v now s1)"

definition list_extend ::
  "('s, 'k, 'v list) managed_backend \<Rightarrow> 'v list descriptor \<Rightarrow> 'k \<Rightarrow> 'v list \<Rightarrow> int \<Rightarrow> 's \<Rightarrow> unit result \<times> 's" where
  "list_extend ops d ns vs now s = sbind (list_values ops d ns now s) (\<lambda>xs s1. mb_put ops d (xs @ vs) ns now s1)"

definition map_values ::
  "('s, 'k, ('a, 'v) dict) managed_backend \<Rightarrow> ('a, 'v) dict descriptor \<Rightarrow> 'k \<Rightarrow> int \<Rightarrow> 's \<Rightarrow> ('a, 'v) dict result \<times> 's" where
  "map_values ops d ns now s =
     sbind (mb_get ops d ns now s) (\<lambda>v s1. (Inr (case v of None \<Rightarrow> [] | Some m \<Rightarrow> m), s1))"

definition map_getitem ::
  "('s, 'k, ('a, 'v) dict) managed_backend \<Rightarrow> ('a, 'v) dict descriptor \<Rightarrow> 'k \<Rightarrow> 'a \<Rightarrow> int \<Rightarrow> 's \<Rightarrow> 'v result \<times> 's" where
  "map_getitem ops d ns a now s = sbind (map_values ops d ns now s) (\<lambda>m s1. (dict_item m a, s1))"

definition map_setitem ::
  "('s, 'k, ('a, 'v) dict) managed_backend \<Rightarrow> ('a, 'v) dict descriptor \<Rightarrow> 'k \<Rightarrow> 'a \<Rightarrow> 'v \<Rightarrow> int \<Rightarrow> 's \<Rightarrow> unit result \<times> 's" where
  "map_setitem ops d ns a v now s =
     sbind (map_values ops d ns now s) (\<lambda>m s1. mb_put ops d (AList.update a v m) ns now s1)"

definition map_delitem ::
  "('s, 'k, ('a, 'v) dict) managed_backend \<Rightarrow> ('a, 'v) dict descriptor \<Rightarrow> 'k \<Rightarrow> 'a \<Rightarrow> int \<Rightarrow> 's \<Rightarrow> unit result \<times> 's" where
  "map_delitem ops d ns a now s =
     sbind (map_values ops d ns now s) (\<lambda>m s1.
       case dict_item m a of
         Inl e \<Rightarrow> (Inl e, s1)
       | Inr _ \<Rightarrow> let m' = AList.delete a m
                  in if m' \<noteq> [] then mb_put ops d m' ns now s1 else mb_delete ops d ns s1)"

subsection \<open>ManagedStateOperator\<close>

text \<open>The task-local state of an operator: backend, watermark of the timer service, time stamp of the context, dropped late records, collected output.\<close>

record ('s, 'o) managed_task =
  mt_backend :: 's
  mt_watermark :: int
  mt_timestamp :: "int option"
  mt_late :: int
  mt_collected :: "'o list"

definition on_backend :: "('s \<Rightarrow> 'a result \<times> 's) \<Rightarrow> ('s, 'o) managed_task \<Rightarrow> 'a result \<times> ('s, 'o) managed_task" where
  "on_backend f t = (case f (mt_backend t) of (r, s) \<Rightarrow> (r, t\<lparr>mt_backend := s\<rparr>))"

definition update_backend :: "('s \<Rightarrow> 's result) \<Rightarrow> ('s, 'o) managed_task \<Rightarrow> unit result \<times> ('s, 'o) managed_task" where
  "update_backend f t = (case f (mt_backend t) of Inl e \<Rightarrow> (Inl e, t) | Inr s \<Rightarrow> (Inr (), t\<lparr>mt_backend := s\<rparr>))"

definition bind_context :: "('s, 'k, 'v) managed_backend \<Rightarrow> 'k \<Rightarrow> int option \<Rightarrow> ('s, 'o) managed_task \<Rightarrow> ('s, 'o) managed_task" where
  "bind_context ops k ts t = t\<lparr>mt_backend := mb_select ops k (mt_backend t), mt_timestamp := ts\<rparr>"

definition advance_watermark ::
  "('s, 'k, 'v) managed_backend \<Rightarrow> int \<Rightarrow> ('s, 'o) managed_task \<Rightarrow> 'k timer_event list result \<times> ('s, 'o) managed_task" where
  "advance_watermark ops ts t =
     (if ts \<le> mt_watermark t then (Inr [], t)
      else
        let t1 = t\<lparr>mt_watermark := ts\<rparr>
        in case mb_pop_due_timers ops ts EVENT_TIME None (mt_backend t1) of
             Inl e \<Rightarrow> (Inl e, t1) | Inr (evs, s) \<Rightarrow> (Inr evs, t1\<lparr>mt_backend := s\<rparr>))"

definition restore_watermark :: "int \<Rightarrow> ('s, 'o) managed_task \<Rightarrow> unit result \<times> ('s, 'o) managed_task" where
  "restore_watermark ts t = (if ts < - 1 then (Inl ValueError, t) else (Inr (), t\<lparr>mt_watermark := ts\<rparr>))"

definition pop_due ::
  "('s, 'k, 'v) managed_backend \<Rightarrow> int \<Rightarrow> timer_domain \<Rightarrow> ('s, 'o) managed_task \<Rightarrow>
   'k timer_event list result \<times> ('s, 'o) managed_task" where
  "pop_due ops ts td t =
     (case mb_pop_due_timers ops ts td None (mt_backend t) of
        Inl e \<Rightarrow> (Inl e, t) | Inr (evs, s) \<Rightarrow> (Inr evs, t\<lparr>mt_backend := s\<rparr>))"

definition record_late_drop :: "('s, 'o) managed_task \<Rightarrow> ('s, 'o) managed_task" where
  "record_late_drop t = t\<lparr>mt_late := mt_late t + 1\<rparr>"

text \<open>What \<open>emit_result\<close> distinguishes of a value.\<close>

datatype 'r emitted = EmitNone | EmitRecord 'r | EmitMapping 'r | EmitItems "'r emitted list" | EmitOther

fun emit_result :: "'r emitted \<Rightarrow> ('s, 'r) managed_task \<Rightarrow> unit result \<times> ('s, 'r) managed_task"
  and emit_items :: "'r emitted list \<Rightarrow> ('s, 'r) managed_task \<Rightarrow> unit result \<times> ('s, 'r) managed_task" where
  "emit_result EmitNone t = (Inr (), t)"
| "emit_result (EmitRecord r) t = (Inr (), t\<lparr>mt_collected := mt_collected t @ [r]\<rparr>)"
| "emit_result (EmitMapping r) t = (Inr (), t\<lparr>mt_collected := mt_collected t @ [r]\<rparr>)"
| "emit_result (EmitItems xs) t = emit_items xs t"
| "emit_result EmitOther t = (Inl TypeError, t)"
| "emit_items [] t = (Inr (), t)"
| "emit_items (x # xs) t = sbind (emit_result x t) (\<lambda>_ t1. emit_items xs t1)"

fun fire_timers ::
  "('s, 'k, 'v) managed_backend \<Rightarrow> ('k timer_event \<Rightarrow> ('s, 'o) managed_task \<Rightarrow> unit result \<times> ('s, 'o) managed_task) \<Rightarrow>
   'k timer_event list \<Rightarrow> ('s, 'o) managed_task \<Rightarrow> unit result \<times> ('s, 'o) managed_task" where
  "fire_timers ops on_timer [] t = (Inr (), t)"
| "fire_timers ops on_timer (ev # evs) t =
     sbind (on_timer ev (bind_context ops (timer_key ev) (Some (timer_timestamp ev)) t)) (\<lambda>_ t1.
       fire_timers ops on_timer evs t1)"

definition cleanup_task :: "('s, 'k, 'v) managed_backend \<Rightarrow> nat \<Rightarrow> int \<Rightarrow> ('s, 'o) managed_task \<Rightarrow> unit result \<times> ('s, 'o) managed_task" where
  "cleanup_task ops limit now t =
     sbind (on_backend (mb_cleanup_expired ops now (Some limit)) t) (\<lambda>_ t1. (Inr (), t1))"

text \<open>A record as the operator sees it; \<open>None\<close> as time stamp or tag is an absent one.\<close>

record 'b input_record =
  in_block :: 'b
  in_timestamp :: pyobj
  in_tag :: "int option"

record ('k, 'b) managed_config =
  mc_key_and_timestamp :: "'b input_record \<Rightarrow> ('k \<times> pyobj) result"
  mc_key_group :: "'k \<Rightarrow> int result"
  mc_range :: key_group_range
  mc_cleanup_limit :: nat

definition check_timestamp :: "pyobj \<Rightarrow> int option result" where
  "check_timestamp x =
     (case x of
        PNone \<Rightarrow> Inr None
      | PInt i \<Rightarrow> if i < 0 then Inl ValueError else Inr (Some i)
      | _ \<Rightarrow> Inl ValueError)"

text \<open>
  The hooks of a concrete operator: \<open>process_managed_element\<close>, \<open>on_timer\<close> and
  \<open>after_time_advanced\<close>, which does nothing unless overridden.
\<close>

record ('s, 'k, 'b, 'o) managed_hooks =
  process_managed :: "'b input_record \<Rightarrow> ('s, 'o) managed_task \<Rightarrow> unit result \<times> ('s, 'o) managed_task"
  on_timer :: "'k timer_event \<Rightarrow> ('s, 'o) managed_task \<Rightarrow> unit result \<times> ('s, 'o) managed_task"
  after_time_advanced :: "('s, 'o) managed_task \<Rightarrow> unit result \<times> ('s, 'o) managed_task"

definition no_maintenance :: "('s, 'o) managed_task \<Rightarrow> unit result \<times> ('s, 'o) managed_task" where
  "no_maintenance t = (Inr (), t)"

definition process_element ::
  "('s, 'k, 'v) managed_backend \<Rightarrow> ('k, 'b) managed_config \<Rightarrow> ('s, 'k, 'b, 'o) managed_hooks \<Rightarrow>
   int \<Rightarrow> 'b input_record \<Rightarrow> ('s, 'o) managed_task \<Rightarrow> unit result \<times> ('s, 'o) managed_task" where
  "process_element ops cfg hooks now r t =
     (case rbind (mc_key_and_timestamp cfg r) (\<lambda>(k, x).
           rbind (check_timestamp x) (\<lambda>ts.
           rbind (mc_key_group cfg k) (\<lambda>g.
             if kgr_contains (mc_range cfg) g then Inr (k, ts) else Inl RuntimeError))) of
        Inl e \<Rightarrow> (Inl e, t)
      | Inr (k, ts) \<Rightarrow>
          sbind (process_managed hooks r (bind_context ops k ts t)) (\<lambda>_ t1.
          sbind (pop_due ops now PROCESSING_TIME t1) (\<lambda>evs t2.
          sbind (fire_timers ops (on_timer hooks) evs t2) (\<lambda>_ t3.
          sbind (after_time_advanced hooks t3) (\<lambda>_ t4.
            cleanup_task ops (mc_cleanup_limit cfg) now t4)))))"

definition on_idle ::
  "('s, 'k, 'v) managed_backend \<Rightarrow> ('k, 'b) managed_config \<Rightarrow> ('s, 'k, 'b, 'o) managed_hooks \<Rightarrow>
   int \<Rightarrow> ('s, 'o) managed_task \<Rightarrow> unit result \<times> ('s, 'o) managed_task" where
  "on_idle ops cfg hooks now t =
     sbind (pop_due ops now PROCESSING_TIME t) (\<lambda>evs t1.
     sbind (fire_timers ops (on_timer hooks) evs t1) (\<lambda>_ t2. cleanup_task ops (mc_cleanup_limit cfg) now t2))"

definition on_event_time_watermark ::
  "('s, 'k, 'v) managed_backend \<Rightarrow> ('k, 'b) managed_config \<Rightarrow> ('s, 'k, 'b, 'o) managed_hooks \<Rightarrow>
   int \<Rightarrow> int \<Rightarrow> ('s, 'o) managed_task \<Rightarrow> unit result \<times> ('s, 'o) managed_task" where
  "on_event_time_watermark ops cfg hooks now ts t =
     sbind (advance_watermark ops ts t) (\<lambda>evs t1.
     sbind (fire_timers ops (on_timer hooks) evs t1) (\<lambda>_ t2.
     sbind (after_time_advanced hooks t2) (\<lambda>_ t3. cleanup_task ops (mc_cleanup_limit cfg) now t3)))"


subsection \<open>The contract\<close>

text \<open>
  What operators rely on, for one descriptor: a state is a map of cells and a set of timers; every
  operation that returns changes exactly the cell or timer it names, under the selected key.
\<close>

locale managed_store =
  fixes ops :: "('s, 'k, 'v) managed_backend" and d :: "'v descriptor" and ok :: "'s \<Rightarrow> bool"
    and selected :: "'s \<Rightarrow> 'k option" and cell :: "'s \<Rightarrow> 'k \<Rightarrow> 'k \<Rightarrow> 'v option" and timers :: "'s \<Rightarrow> 'k timer_event set"
  assumes select: "ok s \<Longrightarrow> ok (mb_select ops k s) \<and> selected (mb_select ops k s) = Some k \<and>
      cell (mb_select ops k s) = cell s \<and> timers (mb_select ops k s) = timers s"
    and get: "ok s \<Longrightarrow> selected s = Some k \<Longrightarrow> 0 \<le> now \<Longrightarrow> mb_get ops d ns now s = (Inr x, s') \<Longrightarrow>
      x = cell s k ns \<and> ok s' \<and> selected s' = Some k \<and> cell s' = cell s \<and> timers s' = timers s"
    and put: "ok s \<Longrightarrow> selected s = Some k \<Longrightarrow> 0 \<le> now \<Longrightarrow> mb_put ops d v ns now s = (Inr (), s') \<Longrightarrow>
      ok s' \<and> selected s' = Some k \<and> cell s' = (cell s)(k := (cell s k)(ns \<mapsto> v)) \<and> timers s' = timers s"
    and delete: "ok s \<Longrightarrow> selected s = Some k \<Longrightarrow> mb_delete ops d ns s = (Inr (), s') \<Longrightarrow>
      ok s' \<and> selected s' = Some k \<and> cell s' = (cell s)(k := (cell s k)(ns := None)) \<and> timers s' = timers s"
    and register: "ok s \<Longrightarrow> selected s = Some k \<Longrightarrow> mb_register_timer ops ts ns td s = Inr s' \<Longrightarrow>
      ok s' \<and> selected s' = Some k \<and> cell s' = cell s \<and> 0 \<le> ts \<and>
      timers s' = insert \<lparr>timer_timestamp = ts, timer_key = k, timer_namespace = ns, timer_event_domain = td\<rparr> (timers s)"
    and unregister: "ok s \<Longrightarrow> selected s = Some k \<Longrightarrow> mb_delete_timer ops ts ns td s = Inr s' \<Longrightarrow>
      ok s' \<and> selected s' = Some k \<and> cell s' = cell s \<and>
      timers s' = timers s - {\<lparr>timer_timestamp = ts, timer_key = k, timer_namespace = ns, timer_event_domain = td\<rparr>}"
    and pop: "ok s \<Longrightarrow> mb_pop_due_timers ops ts td None s = Inr (evs, s') \<Longrightarrow>
      ok s' \<and> selected s' = selected s \<and> cell s' = cell s \<and> distinct evs \<and> sorted (map timer_timestamp evs) \<and>
      set evs = {ev \<in> timers s. timer_event_domain ev = td \<and> timer_timestamp ev \<le> ts} \<and> timers s' = timers s - set evs"
    and cleanup: "ok s \<Longrightarrow> mb_cleanup_expired ops now limit s = (r, s') \<Longrightarrow>
      ok s' \<and> selected s' = selected s \<and> cell s' = cell s \<and> timers s' = timers s"

subsection \<open>The in-memory backend satisfies the contract\<close>

definition memory_cell :: "'v descriptor \<Rightarrow> 'k backend \<Rightarrow> 'k \<Rightarrow> 'k \<Rightarrow> 'v option" where
  "memory_cell d b k ns =
     (case encode_state_key (codec b) (desc_name d) k ns of
        Inl _ \<Rightarrow> None | Inr sk \<Rightarrow> map_option (\<lambda>(_, p). desc_loads d p) (row_at b sk))"

definition memory_timers :: "'k backend \<Rightarrow> 'k timer_event set" where
  "memory_timers b = {ev. \<exists>tk tv. map_of (timer_table b) tk = Some tv \<and> timer_row (codec b) ev tk tv}"

text \<open>
  The descriptor has no time to live and a faithful serializer, its rows never expire, and no two
  (key, namespace) pairs have the same digest.
\<close>

definition digest_injective :: "'k codec \<Rightarrow> bool" where
  "digest_injective c \<longleftrightarrow> (\<forall>x y p q. enc_pair c x = Inr p \<and> enc_pair c y = Inr q \<and> sha256 c p = sha256 c q \<longrightarrow> p = q)"

definition memory_ok :: "'v descriptor \<Rightarrow> 'k backend \<Rightarrow> bool" where
  "memory_ok d b \<longleftrightarrow> desc_ttl d = None \<and> (\<forall>v. desc_loads d (desc_dumps d v) = v) \<and> backend_inv b \<and>
     digest_injective (codec b) \<and>
     (\<forall>k ns sk x p. encode_state_key (codec b) (desc_name d) k ns = Inr sk \<and> row_at b sk = Some (x, p) \<longrightarrow> x = None)"

lemma memory_cell_cong:
  "codec b' = codec b \<Longrightarrow> (\<And>sk. row_at b' sk = row_at b sk) \<Longrightarrow> memory_cell d b' = memory_cell d b"
  by (simp add: memory_cell_def fun_eq_iff split: sum.split)

lemma memory_ok_frame:
  assumes "memory_ok d b" "backend_inv b'" "codec b' = codec b" "\<And>sk. row_at b' sk = row_at b sk"
  shows "memory_ok d b'" "memory_cell d b' = memory_cell d b"
  using assms memory_cell_cong [OF assms(3,4)] unfolding memory_ok_def by simp_all

lemma memory_get:
  assumes ok: "memory_ok d b" and k: "selected_key b = Some k" and g: "get_state d ns now now' b = (Inr v, b')"
  shows "v = memory_cell d b k ns \<and> b' = b"
proof -
  obtain sk where key: "state_key (desc_name d) ns b = Inr sk" using g by (auto simp: get_state_def split: sum.splits)
  then have sk: "encode_state_key (codec b) (desc_name d) k ns = Inr sk"
    using state_key_Inr k by fastforce
  show ?thesis
  proof (cases "map_of (state_table b) sk")
    case None
    then show ?thesis using g key sk by (simp add: get_state_def memory_cell_def row_at_def)
  next
    case (Some ev)
    obtain x p where dec: "decode_state_value ev = Inr (x, p)"
      using ok state_okD [of b sk ev] Some by (auto simp: memory_ok_def backend_inv_def)
    then have "x = None" using ok sk Some unfolding memory_ok_def by (metis (mono_tags) option.case(2) row_at_def sum.case(2))
    then show ?thesis
      using g key sk Some dec ok by (simp add: get_state_def memory_cell_def row_at_def memory_ok_def Let_def)
  qed
qed

lemma memory_put:
  assumes ok: "memory_ok d b" and now: "0 \<le> now" and p: "put_state d v ns now b = (Inr (), b')" and k: "selected_key b = Some k"
  shows "memory_ok d b' \<and> selected_key b' = Some k \<and> memory_cell d b' = (memory_cell d b)(k := (memory_cell d b k)(ns \<mapsto> v)) \<and>
    memory_timers b' = memory_timers b"
proof -
  have inv: "backend_inv b" using ok by (simp add: memory_ok_def)
  obtain k0 sk where s: "selected_key b = Some k0" "encode_state_key (codec b) (desc_name d) k0 ns = Inr sk"
    "backend_inv b'" "codec b' = codec b" "selected_key b' = Some k0" "timer_table b' = timer_table b"
    "row_at b' sk = Some (expiry_for d now, desc_dumps d v)" "\<And>sk'. sk' \<noteq> sk \<Longrightarrow> row_at b' sk' = row_at b sk'"
    using put_state_spec [OF inv now p] by metis
  have [simp]: "k0 = k" using s(1) k by simp
  have new: "row_at b' sk = Some (None, desc_dumps d v)" using s(7) ok by (simp add: expiry_for_def memory_ok_def)
  have inj: "k' = k \<and> ns' = ns" if "encode_state_key (codec b) (desc_name d) k' ns' = Inr sk" for k' ns'
    using encode_state_key_inject [OF _ that s(2)] inv by (auto simp: backend_inv_def)
  have "memory_cell d b' k' ns' = ((memory_cell d b)(k := (memory_cell d b k)(ns \<mapsto> v))) k' ns'" for k' ns'
  proof (cases "k' = k \<and> ns' = ns")
    case True
    then show ?thesis using s(2,4) new ok by (simp add: memory_cell_def memory_ok_def)
  next
    case False
    then have "encode_state_key (codec b) (desc_name d) k' ns' \<noteq> Inr sk" using inj by blast
    then have "memory_cell d b' k' ns' = memory_cell d b k' ns'" using s(4,8) by (auto simp: memory_cell_def split: sum.split)
    then show ?thesis using False by auto
  qed
  moreover have "memory_ok d b'"
    using ok s(3,4,8) new unfolding memory_ok_def by (metis (no_types, lifting) Pair_inject option.inject)
  ultimately show ?thesis using s(4-6) by (simp add: fun_eq_iff memory_timers_def)
qed

lemma memory_delete:
  assumes ok: "memory_ok d b" and p: "delete_state d ns b = (Inr (), b')" and k: "selected_key b = Some k"
  shows "memory_ok d b' \<and> selected_key b' = Some k \<and> memory_cell d b' = (memory_cell d b)(k := (memory_cell d b k)(ns := None)) \<and>
    memory_timers b' = memory_timers b"
proof -
  have inv: "backend_inv b" using ok by (simp add: memory_ok_def)
  obtain k0 sk where s: "selected_key b = Some k0" "encode_state_key (codec b) (desc_name d) k0 ns = Inr sk"
    "backend_inv b'" "codec b' = codec b" "selected_key b' = Some k0" "timer_table b' = timer_table b"
    "row_at b' sk = None" "\<And>sk'. sk' \<noteq> sk \<Longrightarrow> row_at b' sk' = row_at b sk'"
    using delete_state_spec [OF inv p] by metis
  have [simp]: "k0 = k" using s(1) k by simp
  have inj: "k' = k \<and> ns' = ns" if "encode_state_key (codec b) (desc_name d) k' ns' = Inr sk" for k' ns'
    using encode_state_key_inject [OF _ that s(2)] inv by (auto simp: backend_inv_def)
  have "memory_cell d b' k' ns' = ((memory_cell d b)(k := (memory_cell d b k)(ns := None))) k' ns'" for k' ns'
  proof (cases "k' = k \<and> ns' = ns")
    case True
    then show ?thesis using s(2,4,7) by (simp add: memory_cell_def)
  next
    case False
    then have "encode_state_key (codec b) (desc_name d) k' ns' \<noteq> Inr sk" using inj by blast
    then have "memory_cell d b' k' ns' = memory_cell d b k' ns'" using s(4,8) by (auto simp: memory_cell_def split: sum.split)
    then show ?thesis using False by auto
  qed
  moreover have "memory_ok d b'"
    using ok s(3,4,7,8) unfolding memory_ok_def by (metis (no_types, lifting) option.distinct(1))
  ultimately show ?thesis using s(4-6) by (simp add: fun_eq_iff memory_timers_def)
qed


lemma timer_key_inject:
  assumes "codec_ok c" "digest_injective c" "encode_timer_key c ts k ns td = Inr tk" "encode_timer_key c ts' k' ns' td' = Inr tk"
  shows "ts = ts' \<and> k = k' \<and> ns = ns' \<and> td = td'"
proof -
  from assms(3) obtain p where p: "enc_pair c (k, ns) = Inr p" "0 \<le> ts" "ts < 256 ^ 8"
    "tk = timer_prefix td @ be_bytes 8 (nat ts) @ sha256 c p" by (rule encode_timer_key_Inr)
  from assms(4) obtain q where q: "enc_pair c (k', ns') = Inr q" "0 \<le> ts'" "ts' < 256 ^ 8"
    "tk = timer_prefix td' @ be_bytes 8 (nat ts') @ sha256 c q" by (rule encode_timer_key_Inr)
  have l: "length (timer_prefix td) = length (timer_prefix td')" "length (be_bytes 8 (nat ts)) = length (be_bytes 8 (nat ts'))" by simp_all
  have e: "timer_prefix td = timer_prefix td'" "be_bytes 8 (nat ts) = be_bytes 8 (nat ts')" "sha256 c p = sha256 c q"
    using trans [OF p(4) [symmetric] q(4)] unfolding append_eq_append_conv [OF disjI1 [OF l(1)]] append_eq_append_conv [OF disjI1 [OF l(2)]]
    by blast+
  have "p = q" using assms(2) p(1) q(1) e(3) unfolding digest_injective_def by blast
  then have "(k, ns) = (k', ns')" using assms(1) p(1) q(1) unfolding codec_ok_def by blast
  moreover have "pack_unsigned 8 ts = Inr (be_bytes 8 (nat ts))" "pack_unsigned 8 ts' = Inr (be_bytes 8 (nat ts'))"
    using p(2,3) q(2,3) by (simp_all add: pack_unsigned_def)
  then have "ts = ts'" using unpack_pack_unsigned e(2) by metis
  ultimately show ?thesis using e(1) by simp
qed

lemma timer_row_unique:
  assumes "codec_ok c" "digest_injective c" "timer_row c ev tk tv" "timer_row c ev' tk tv'"
  shows "ev = ev'"
proof -
  have "timer_timestamp ev = timer_timestamp ev' \<and> timer_key ev = timer_key ev' \<and>
      timer_namespace ev = timer_namespace ev' \<and> timer_event_domain ev = timer_event_domain ev'"
    using timer_key_inject [OF assms(1,2)] assms(3,4) unfolding timer_row_def by blast
  then show ?thesis by (intro timer_event.equality) simp_all
qed

lemma memory_timers_row:
  assumes "memory_ok d b" "encode_timer_key (codec b) ts k ns td = Inr tk"
  shows "map_of (timer_table b) tk \<noteq> None \<longleftrightarrow>
    \<lparr>timer_timestamp = ts, timer_key = k, timer_namespace = ns, timer_event_domain = td\<rparr> \<in> memory_timers b"
proof -
  let ?ev = "\<lparr>timer_timestamp = ts, timer_key = k, timer_namespace = ns, timer_event_domain = td\<rparr>"
  have c: "codec_ok (codec b)" "digest_injective (codec b)" "timers_ok b" using assms(1) by (simp_all add: memory_ok_def backend_inv_def)
  show ?thesis
  proof
    assume "map_of (timer_table b) tk \<noteq> None"
    then obtain tv where tv: "map_of (timer_table b) tk = Some tv" by blast
    then obtain ts' k' ns' td' where e: "encode_timer_key (codec b) ts' k' ns' td' = Inr tk" "tv = encode_timer_value (codec b) k' ns'"
      using c(3) unfolding timers_ok_def by blast
    with timer_key_inject [OF c(1,2) e(1) assms(2)] tv show "?ev \<in> memory_timers b"
      by (auto simp: memory_timers_def timer_row_def)
  next
    assume "?ev \<in> memory_timers b"
    then show "map_of (timer_table b) tk \<noteq> None" using assms(2) by (auto simp: memory_timers_def timer_row_def)
  qed
qed

lemma memory_register:
  assumes ok: "memory_ok d b" and k: "selected_key b = Some k" and r: "register_timer ts ns td b = Inr b'"
  shows "memory_ok d b' \<and> selected_key b' = Some k \<and> memory_cell d b' = memory_cell d b \<and> 0 \<le> ts \<and>
    memory_timers b' = insert \<lparr>timer_timestamp = ts, timer_key = k, timer_namespace = ns, timer_event_domain = td\<rparr> (memory_timers b)"
proof -
  let ?ev = "\<lparr>timer_timestamp = ts, timer_key = k, timer_namespace = ns, timer_event_domain = td\<rparr>"
  obtain tk where tk: "0 \<le> ts" "encode_timer_key (codec b) ts k ns td = Inr tk"
    and b': "b' = b\<lparr>timer_table := AList.update tk (encode_timer_value (codec b) k ns) (timer_table b)\<rparr>"
    using r k by (auto simp: register_timer_def current_key_def result_simps split: if_splits)
  have c: "codec_ok (codec b)" "digest_injective (codec b)" using ok by (simp_all add: memory_ok_def backend_inv_def)
  have row: "timer_row (codec b) ?ev tk (encode_timer_value (codec b) k ns)" using tk(2) by (simp add: timer_row_def)
  have "backend_inv b'"
    using ok tk(2) unfolding memory_ok_def backend_inv_def b' timers_ok_def state_ok_def index_ok_def expiry_ok_def
    by simp (metis option.inject)
  note frame = memory_ok_frame [OF ok this]
  have "ev \<in> memory_timers b' \<longleftrightarrow> ev = ?ev \<or> ev \<in> memory_timers b" for ev
  proof (cases "ev = ?ev")
    case True
    then show ?thesis using row by (auto simp: memory_timers_def b')
  next
    case False
    have "\<not> timer_row (codec b) ev tk tv" for tv using timer_row_unique [OF c _ row] False by blast
    then show ?thesis using False by (auto simp: memory_timers_def b' split: if_splits) metis
  qed
  then show ?thesis using frame k tk(1) by (auto simp: b' row_at_def)
qed

lemma memory_unregister:
  assumes ok: "memory_ok d b" and k: "selected_key b = Some k" and r: "delete_timer ts ns td b = Inr b'"
  shows "memory_ok d b' \<and> selected_key b' = Some k \<and> memory_cell d b' = memory_cell d b \<and>
    memory_timers b' = memory_timers b - {\<lparr>timer_timestamp = ts, timer_key = k, timer_namespace = ns, timer_event_domain = td\<rparr>}"
proof -
  let ?ev = "\<lparr>timer_timestamp = ts, timer_key = k, timer_namespace = ns, timer_event_domain = td\<rparr>"
  obtain tk where tk: "encode_timer_key (codec b) ts k ns td = Inr tk"
    and b': "b' = b\<lparr>timer_table := AList.delete tk (timer_table b)\<rparr>"
    using r k by (auto simp: delete_timer_def current_key_def result_simps)
  have c: "codec_ok (codec b)" "digest_injective (codec b)" using ok by (simp_all add: memory_ok_def backend_inv_def)
  have row: "timer_row (codec b) ?ev tk (encode_timer_value (codec b) k ns)" using tk by (simp add: timer_row_def)
  have "backend_inv b'"
    using ok unfolding memory_ok_def backend_inv_def b' timers_ok_def state_ok_def index_ok_def expiry_ok_def
    by (simp add: wf_dict_delete)
  note frame = memory_ok_frame [OF ok this]
  have "ev \<in> memory_timers b' \<longleftrightarrow> ev \<noteq> ?ev \<and> ev \<in> memory_timers b" for ev
  proof (cases "ev = ?ev")
    case True
    then show ?thesis using tk by (auto simp: memory_timers_def b' timer_row_def split: if_splits)
  next
    case False
    have "\<not> timer_row (codec b) ev tk tv" for tv using timer_row_unique [OF c _ row] False by blast
    then show ?thesis using False by (auto simp: memory_timers_def b' split: if_splits) metis
  qed
  then show ?thesis using frame k by (auto simp: b' row_at_def)
qed


lemma memory_pop:
  assumes ok: "memory_ok d b" and r: "pop_due_timers ts td None b = Inr (evs, b')"
  shows "memory_ok d b' \<and> selected_key b' = selected_key b \<and> memory_cell d b' = memory_cell d b \<and>
    distinct evs \<and> sorted (map timer_timestamp evs) \<and>
    set evs = {ev \<in> memory_timers b. timer_event_domain ev = td \<and> timer_timestamp ev \<le> ts} \<and>
    memory_timers b' = memory_timers b - set evs"
proof -
  let ?tks = "filter (due ts td) (sort (keys (timer_table b)))"
  have inv: "backend_inv b" and dig: "digest_injective (codec b)" using ok by (simp_all add: memory_ok_def)
  have c: "codec_ok (codec b)" "wf_dict (timer_table b)" "timers_ok b" using inv by (simp_all add: backend_inv_def)
  have pop: "sorted (map timer_timestamp evs)" "\<forall>ev \<in> set evs. timer_event_domain ev = td \<and> timer_timestamp ev \<le> ts"
    "list_all2 (\<lambda>ev tk. timer_row (codec b) ev tk (dict_get (timer_table b) tk [])) evs ?tks"
    "timer_table b' = filter (\<lambda>(tk, _). \<not> due ts td tk) (timer_table b)"
    using pop_due_timers_spec [OF inv, of ts td] r by auto
  have cb: "codec b' = codec b"
    using r by (auto simp: pop_due_timers_def result_simps)
  have rows: "timer_row (codec b) (evs ! i) (?tks ! i) (dict_get (timer_table b) (?tks ! i) [])" if "i < length evs" for i
    using pop(3) that by (simp add: list_all2_conv_all_nth)
  have len: "length evs = length ?tks" using pop(3) by (rule list_all2_lengthD)
  have "distinct ?tks" using c(2) by simp
  have "distinct evs"
    unfolding distinct_conv_nth
  proof (intro allI impI)
    fix i j assume ij: "i < length evs" "j < length evs" "i \<noteq> j"
    then have "?tks ! i \<noteq> ?tks ! j" using \<open>distinct ?tks\<close> len by (metis nth_eq_iff_index_eq)
    then show "evs ! i \<noteq> evs ! j" using rows [OF ij(1)] rows [OF ij(2)] unfolding timer_row_def by (metis sum.inject(2))
  qed
  have due_row: "due ts td tk \<longleftrightarrow> timer_event_domain ev = td \<and> timer_timestamp ev \<le> ts" if "timer_row (codec b) ev tk tv" for ev tk tv
    using timer_row_decode [OF c(1) that] by (auto simp: due_def)
  have mem: "ev \<in> set evs \<longleftrightarrow> (\<exists>tk tv. map_of (timer_table b) tk = Some tv \<and> timer_row (codec b) ev tk tv \<and> due ts td tk)" for ev
  proof
    assume "ev \<in> set evs"
    then obtain i where i: "i < length evs" "ev = evs ! i" by (metis in_set_conv_nth)
    let ?tk = "?tks ! i"
    have "?tk \<in> set ?tks" using i(1) len by (metis nth_mem)
    then have tk: "?tk \<in> set (keys (timer_table b))" "due ts td ?tk" by simp_all
    then obtain tv where tv: "map_of (timer_table b) ?tk = Some tv" by (metis map_of_None_keys option.exhaust)
    with rows [OF i(1)] i(2) tk show "\<exists>tk tv. map_of (timer_table b) tk = Some tv \<and> timer_row (codec b) ev tk tv \<and> due ts td tk"
      by (auto simp: dict_get_def)
  next
    assume "\<exists>tk tv. map_of (timer_table b) tk = Some tv \<and> timer_row (codec b) ev tk tv \<and> due ts td tk"
    then obtain tk tv where t: "map_of (timer_table b) tk = Some tv" "timer_row (codec b) ev tk tv" "due ts td tk" by blast
    have "tk \<in> set (keys (timer_table b))" using t(1) by (metis map_of_None_keys option.distinct(1))
    then have "tk \<in> set ?tks" using t(3) by simp
    then obtain i where i: "i < length evs" "tk = ?tks ! i" using len by (metis in_set_conv_nth)
    then have "evs ! i = ev" using timer_row_unique [OF c(1) dig rows [OF i(1)]] t(2) by blast
    then show "ev \<in> set evs" using i(1) by (metis nth_mem)
  qed
  have "set evs = {ev \<in> memory_timers b. timer_event_domain ev = td \<and> timer_timestamp ev \<le> ts}"
    unfolding set_eq_iff mem memory_timers_def mem_Collect_eq using due_row by blast
  moreover have look: "map_of (timer_table b') tk = (if due ts td tk then None else map_of (timer_table b) tk)" for tk
  proof -
    have "map_of (filter (\<lambda>(tk, _). \<not> due ts td tk) m) tk = (if due ts td tk then None else map_of m tk)" for m :: "(bytes, bytes) dict"
      by (induction m) auto
    then show ?thesis unfolding pop(4) .
  qed
  have "memory_timers b' = memory_timers b - set evs"
  proof -
    have "ev \<in> memory_timers b' \<longleftrightarrow> (\<exists>tk tv. map_of (timer_table b) tk = Some tv \<and> timer_row (codec b) ev tk tv \<and> \<not> due ts td tk)" for ev
      unfolding memory_timers_def mem_Collect_eq cb look by (metis option.distinct(1))
    moreover have "\<not> (due ts td tk \<and> \<not> due ts td tk')" if "timer_row (codec b) ev tk tv" "timer_row (codec b) ev tk' tv'" for ev tk tv tk' tv'
      using due_row that by blast
    ultimately show ?thesis unfolding set_eq_iff Diff_iff mem memory_timers_def mem_Collect_eq by blast
  qed
  moreover have "backend_inv b'"
  proof -
    have "wf_dict (timer_table b')" using c(2) unfolding pop(4) by (simp add: distinct_map_filter)
    moreover have "timers_ok b'" using c(3) unfolding timers_ok_def cb look by (metis option.distinct(1))
    moreover have "state_table b' = state_table b" "expiry_table b' = expiry_table b"
      using r by (auto simp: pop_due_timers_def result_simps)
    ultimately show ?thesis using inv cb unfolding backend_inv_def state_ok_def index_ok_def expiry_ok_def by simp
  qed
  moreover have "row_at b' sk = row_at b sk" "codec b' = codec b" "selected_key b' = selected_key b" for sk
    using r by (auto simp: pop_due_timers_def result_simps row_at_def)
  ultimately show ?thesis using memory_ok_frame [OF ok] \<open>distinct evs\<close> pop(1) by blast
qed


text \<open>Cleanup with any limit removes expired rows and index entries only.\<close>

lemma expire_scan_keeps:
  assumes "backend_inv b" "set xks \<subseteq> set (keys (expiry_table b))" "distinct xks" "expire_scan now limit n xks b = (r, b')"
  shows "backend_inv b' \<and> codec b' = codec b \<and> selected_key b' = selected_key b \<and> timer_table b' = timer_table b \<and>
    (\<forall>sk. row_at b' sk = row_at b sk \<or> (\<exists>e p. row_at b sk = Some (Some e, p) \<and> row_at b' sk = None))"
  using assms
proof (induction xks arbitrary: b n r)
  case (Cons xk xks)
  have "expiry_ok b" using Cons.prems(1) by (simp add: backend_inv_def)
  moreover have "xk \<in> set (keys (expiry_table b))" using Cons.prems(2) by simp
  ultimately obtain e sk where xk: "encode_expiry_key e sk = Inr xk" unfolding expiry_ok_def by blast
  note dec = decode_encode_expiry_key [OF xk]
  show ?case
  proof (cases "e > now \<or> (case limit of None \<Rightarrow> False | Some m \<Rightarrow> n \<ge> m)")
    case True
    then have "b' = b" using Cons.prems(4) dec by simp
    then show ?thesis using Cons.prems(1) by simp
  next
    case False
    define hit where "hit \<longleftrightarrow> (\<exists>p. row_at b sk = Some (Some e, p))"
    define b2 where "b2 = b\<lparr>state_table := if hit then AList.delete sk (state_table b) else state_table b,
      expiry_table := AList.delete xk (expiry_table b)\<rparr>"
    have inv2: "backend_inv b2" unfolding b2_def hit_def by (rule expire_row_inv [OF Cons.prems(1) xk])
    have look: "(case map_of (state_table b) sk of None \<Rightarrow> Inr False
        | Some encoded \<Rightarrow> rbind (decode_state_value encoded) (\<lambda>(x, _). Inr (x = Some e))) = Inr hit"
      unfolding hit_def by (rule expire_row_hit [OF Cons.prems(1)])
    have b2': "(let b1 = (if hit then b\<lparr>state_table := AList.delete sk (state_table b)\<rparr> else b)
        in b1\<lparr>expiry_table := AList.delete xk (expiry_table b1)\<rparr>) = b2"
      by (simp add: b2_def Let_def)
    obtain r2 where run2: "expire_scan now limit (Suc n) xks b2 = (r2, b')"
      using Cons.prems(4) dec False look b2'
      by (cases "expire_scan now limit (Suc n) xks b2"; cases "fst (expire_scan now limit (Suc n) xks b2)") (auto simp: Let_def)
    have "set xks \<subseteq> set (keys (expiry_table b2))" "distinct xks" using Cons.prems(2,3) by (auto simp: b2_def)
    note IH = Cons.IH [OF inv2 this run2]
    have "row_at b2 sk' = row_at b sk' \<or> (\<exists>e p. row_at b sk' = Some (Some e, p) \<and> row_at b2 sk' = None)" for sk'
      by (cases "hit \<and> sk' = sk") (auto simp: b2_def row_at_def hit_def split: option.splits)
    then have "row_at b' sk' = row_at b sk' \<or> (\<exists>e p. row_at b sk' = Some (Some e, p) \<and> row_at b' sk' = None)" for sk'
      using IH by (metis option.distinct(1))
    then show ?thesis using IH by (simp add: b2_def)
  qed
qed simp

lemma memory_cleanup:
  assumes ok: "memory_ok d b" and r: "cleanup_expired now limit b = (r, b')"
  shows "memory_ok d b' \<and> selected_key b' = selected_key b \<and> memory_cell d b' = memory_cell d b \<and> memory_timers b' = memory_timers b"
proof -
  have inv: "backend_inv b" using ok by (simp add: memory_ok_def)
  then have "set (sort (keys (expiry_table b))) \<subseteq> set (keys (expiry_table b))" "distinct (sort (keys (expiry_table b)))"
    by (simp_all add: backend_inv_def)
  note keep = expire_scan_keeps [OF inv this r [unfolded cleanup_expired_def]]
  have same: "row_at b' sk = row_at b sk" if "encode_state_key (codec b) (desc_name d) k ns = Inr sk" for k ns sk
  proof -
    have "row_at b sk \<noteq> Some (Some e, p)" for e p using ok that unfolding memory_ok_def by blast
    then show ?thesis using keep by blast
  qed
  then have "memory_cell d b' = memory_cell d b" using keep by (auto simp: memory_cell_def fun_eq_iff split: sum.split)
  moreover have "memory_ok d b'" using ok keep same unfolding memory_ok_def by metis
  ultimately show ?thesis using keep by (simp add: memory_timers_def)
qed

interpretation memory: managed_store memory_backend d "memory_ok d" selected_key "memory_cell d" memory_timers
proof
  show "memory_ok d (mb_select memory_backend k s) \<and> selected_key (mb_select memory_backend k s) = Some k \<and>
      memory_cell d (mb_select memory_backend k s) = memory_cell d s \<and> memory_timers (mb_select memory_backend k s) = memory_timers s"
    if "memory_ok d s" for k s
    using that memory_ok_frame [OF that, of "set_current_key k s"] set_current_key_inv [of s k]
    by (simp add: memory_backend_def memory_ok_def) (simp add: set_current_key_def memory_timers_def row_at_def)
  show "x = memory_cell d s k ns \<and> memory_ok d s' \<and> selected_key s' = Some k \<and> memory_cell d s' = memory_cell d s \<and>
      memory_timers s' = memory_timers s"
    if "memory_ok d s" "selected_key s = Some k" "mb_get memory_backend d ns now s = (Inr x, s')" for s k ns now x s'
    using memory_get [OF that(1,2), of ns now now x s'] that by (simp add: memory_backend_def)
  show "memory_ok d s' \<and> selected_key s' = Some k \<and> memory_cell d s' = (memory_cell d s)(k := (memory_cell d s k)(ns \<mapsto> v)) \<and> memory_timers s' = memory_timers s"
    if "memory_ok d s" "selected_key s = Some k" "0 \<le> now" "mb_put memory_backend d v ns now s = (Inr (), s')" for s k v ns now s'
    by (rule memory_put [where ns = ns and now = now and v = v]) (use that in \<open>simp_all add: memory_backend_def\<close>)
  show "memory_ok d s' \<and> selected_key s' = Some k \<and> memory_cell d s' = (memory_cell d s)(k := (memory_cell d s k)(ns := None)) \<and> memory_timers s' = memory_timers s"
    if "memory_ok d s" "selected_key s = Some k" "mb_delete memory_backend d ns s = (Inr (), s')" for s k ns s'
    by (rule memory_delete [where ns = ns]) (use that in \<open>simp_all add: memory_backend_def\<close>)
  show "memory_ok d s' \<and> selected_key s' = Some k \<and> memory_cell d s' = memory_cell d s \<and> 0 \<le> ts \<and> memory_timers s' = insert \<lparr>timer_timestamp = ts, timer_key = k, timer_namespace = ns, timer_event_domain = td\<rparr> (memory_timers s)"
    if "memory_ok d s" "selected_key s = Some k" "mb_register_timer memory_backend ts ns td s = Inr s'" for s k ts ns td s'
    by (rule memory_register) (use that in \<open>simp_all add: memory_backend_def\<close>)
  show "memory_ok d s' \<and> selected_key s' = Some k \<and> memory_cell d s' = memory_cell d s \<and> memory_timers s' = memory_timers s - {\<lparr>timer_timestamp = ts, timer_key = k, timer_namespace = ns, timer_event_domain = td\<rparr>}"
    if "memory_ok d s" "selected_key s = Some k" "mb_delete_timer memory_backend ts ns td s = Inr s'" for s k ts ns td s'
    by (rule memory_unregister) (use that in \<open>simp_all add: memory_backend_def\<close>)
  show "memory_ok d s' \<and> selected_key s' = selected_key s \<and> memory_cell d s' = memory_cell d s \<and> distinct evs \<and> sorted (map timer_timestamp evs) \<and>
      set evs = {ev \<in> memory_timers s. timer_event_domain ev = td \<and> timer_timestamp ev \<le> ts} \<and> memory_timers s' = memory_timers s - set evs"
    if "memory_ok d s" "mb_pop_due_timers memory_backend ts td None s = Inr (evs, s')" for s ts td evs s'
    by (rule memory_pop) (use that in \<open>simp_all add: memory_backend_def\<close>)
  show "memory_ok d s' \<and> selected_key s' = selected_key s \<and> memory_cell d s' = memory_cell d s \<and> memory_timers s' = memory_timers s"
    if "memory_ok d s" "mb_cleanup_expired memory_backend now limit s = (r, s')" for s now limit r s'
    by (rule memory_cleanup [where now = now and limit = limit and r = r]) (use that in \<open>simp_all add: memory_backend_def\<close>)
qed

end
