(* ===== verification/StateNamespaces.thy ===== *)
theory StateNamespaces
  imports KeyedState
begin

section \<open>Namespaces and several descriptors over one backend\<close>

text \<open>
  Two extensions of the contract \<open>managed_store\<close>: the namespaces of a key can be listed
  (\<open>enumerable_store\<close>), and two descriptors with different names share a backend without touching
  each other's cells (\<open>paired_store\<close>). The in-memory backend provides both.
\<close>

locale enumerable_store = managed_store +
  assumes namespaces: "ok s \<Longrightarrow> selected s = Some k \<Longrightarrow> mb_namespaces ops d s = Inr nss \<Longrightarrow>
    distinct nss \<and> set nss = {ns. cell s k ns \<noteq> None}"

locale paired_store =
  L: enumerable_store ops dl ok selected cell_l timers + R: enumerable_store ops dr ok selected cell_r timers
  for ops :: "('s, 'k, 'v) managed_backend" and dl dr :: "'v descriptor" and ok :: "'s \<Rightarrow> bool"
    and selected :: "'s \<Rightarrow> 'k option" and cell_l cell_r :: "'s \<Rightarrow> 'k \<Rightarrow> 'k \<Rightarrow> 'v option" and timers :: "'s \<Rightarrow> 'k timer_event set" +
  assumes get_l: "ok s \<Longrightarrow> selected s = Some k \<Longrightarrow> 0 \<le> now \<Longrightarrow> mb_get ops dl ns now s = (Inr x, s') \<Longrightarrow> cell_r s' = cell_r s"
    and get_r: "ok s \<Longrightarrow> selected s = Some k \<Longrightarrow> 0 \<le> now \<Longrightarrow> mb_get ops dr ns now s = (Inr x, s') \<Longrightarrow> cell_l s' = cell_l s"
    and put_l: "ok s \<Longrightarrow> selected s = Some k \<Longrightarrow> 0 \<le> now \<Longrightarrow> mb_put ops dl v ns now s = (Inr (), s') \<Longrightarrow> cell_r s' = cell_r s"
    and put_r: "ok s \<Longrightarrow> selected s = Some k \<Longrightarrow> 0 \<le> now \<Longrightarrow> mb_put ops dr v ns now s = (Inr (), s') \<Longrightarrow> cell_l s' = cell_l s"
    and delete_l: "ok s \<Longrightarrow> selected s = Some k \<Longrightarrow> mb_delete ops dl ns s = (Inr (), s') \<Longrightarrow> cell_r s' = cell_r s"
    and delete_r: "ok s \<Longrightarrow> selected s = Some k \<Longrightarrow> mb_delete ops dr ns s = (Inr (), s') \<Longrightarrow> cell_l s' = cell_l s"

subsection \<open>The in-memory backend\<close>

text \<open>Rows with the prefix of a name and key are exactly the rows of that name and key.\<close>

lemma prefix_of_state_key:
  assumes c: "codec_ok c" and e: "encode_state_key c n k s = Inr sk" and p: "state_key_prefix c n' k' = Inr p"
  shows "starts_with p sk \<longleftrightarrow> n = n' \<and> k = k'"
proof -
  from e obtain kb sb a b d where e': "enc_key c k = Inr kb" "enc_key c s = Inr sb"
    "component (enc_name c n) = Inr a" "component kb = Inr b" "component sb = Inr d" "sk = a @ b @ d"
    by (rule encode_state_key_Inr)
  obtain kb' a' b' where p': "enc_key c k' = Inr kb'" "component (enc_name c n') = Inr a'" "component kb' = Inr b'" "p = a' @ b'"
    using p by (auto simp: state_key_prefix_def result_simps)
  show ?thesis
  proof
    assume "starts_with p sk"
    then have "p @ drop (length p) sk = sk" by (metis append_take_drop_id starts_with_def)
    then obtain r where r: "a' @ b' @ r = a @ b @ d" using p'(4) e'(6) by auto
    have "read_component (a' @ b' @ r) 0 = Inr (enc_name c n', length a')"
      using read_component_append [OF p'(2), of "[]" "b' @ r"] by simp
    moreover have "read_component (a @ b @ d) 0 = Inr (enc_name c n, length a)"
      using read_component_append [OF e'(3), of "[]" "b @ d"] by simp
    ultimately have n: "enc_name c n = enc_name c n'" "length a = length a'" unfolding r by simp_all
    have "read_component (a' @ b' @ r) (length a') = Inr (kb', length a' + length b')"
      using read_component_append [OF p'(3), of a' r] by simp
    moreover have "read_component (a @ b @ d) (length a) = Inr (kb, length a + length b)"
      using read_component_append [OF e'(4), of a d] by simp
    ultimately have "kb = kb'" unfolding r n(2) by simp
    with n(1) c e'(1) p'(1) show "n = n' \<and> k = k'" unfolding codec_ok_def by metis
  next
    assume "n = n' \<and> k = k'"
    then have "a' = a" "b' = b" using e' p' by auto
    then show "starts_with p sk" using e'(6) p'(4) by (simp add: starts_with_def)
  qed
qed

lemma row_at_Some_iff:
  assumes "backend_inv b"
  shows "row_at b sk \<noteq> None \<longleftrightarrow> sk \<in> set (keys (state_table b))"
proof (cases "map_of (state_table b) sk")
  case None
  moreover from None have "sk \<notin> set (keys (state_table b))" by (simp add: map_of_eq_None_iff)
  ultimately show ?thesis by (simp add: row_at_def del: map_of_None_keys)
next
  case (Some ev)
  then have "sk \<in> set (keys (state_table b))" by (metis map_of_None_keys option.distinct(1))
  moreover obtain r where "decode_state_value ev = Inr r"
    using state_okD [OF _ Some] assms unfolding backend_inv_def by blast
  ultimately show ?thesis using Some by (simp add: row_at_def)
qed

lemma memory_namespaces:
  assumes ok: "memory_ok d b" and k: "selected_key b = Some k" and r: "namespaces d b = Inr nss"
  shows "distinct nss \<and> set nss = {ns. memory_cell d b k ns \<noteq> None}"
proof -
  have inv: "backend_inv b" and c: "codec_ok (codec b)" and w: "wf_dict (state_table b)" and so: "state_ok b"
    using ok by (simp_all add: memory_ok_def backend_inv_def)
  obtain p where p: "state_key_prefix (codec b) (desc_name d) k = Inr p"
    and rm: "rmap (decode_state_namespace (codec b)) (filter (starts_with p) (sort (keys (state_table b)))) = Inr nss"
    using r k by (auto simp: namespaces_def current_key_def result_simps)
  let ?sks = "filter (starts_with p) (sort (keys (state_table b)))"
  have key: "\<exists>ns. encode_state_key (codec b) (desc_name d) k ns = Inr sk" if "sk \<in> set ?sks" for sk
  proof -
    from that have s: "sk \<in> set (keys (state_table b))" "starts_with p sk" by simp_all
    from s(1) obtain ev where "map_of (state_table b) sk = Some ev" by (metis map_of_None_keys option.exhaust)
    then obtain n k' s' where e: "encode_state_key (codec b) n k' s' = Inr sk" using state_okD [OF so] by blast
    with prefix_of_state_key [OF c e p] s(2) show ?thesis by blast
  qed
  have dec: "decode_state_namespace (codec b) sk = Inr ns" if "encode_state_key (codec b) (desc_name d) k ns = Inr sk" for sk ns
    using decode_encode_state_key(2) [OF c that] .
  have mem: "sk \<in> set ?sks \<longleftrightarrow> row_at b sk \<noteq> None" if "encode_state_key (codec b) (desc_name d) k ns = Inr sk" for sk ns
    using prefix_of_state_key [OF c that p] row_at_Some_iff [OF inv, of sk] by simp
  have len: "length nss = length ?sks" using rmap_length [OF rm] .
  have at: "encode_state_key (codec b) (desc_name d) k (nss ! i) = Inr (?sks ! i)" if "i < length ?sks" for i
  proof -
    have "?sks ! i \<in> set ?sks" using that by (rule nth_mem)
    then obtain ns where ns: "encode_state_key (codec b) (desc_name d) k ns = Inr (?sks ! i)" using key by blast
    then show ?thesis using dec [OF ns] rmap_nth [OF rm that] by simp
  qed
  have "distinct ?sks" using w by simp
  then have "distinct nss" using len at unfolding distinct_conv_nth by (metis sum.inject(2))
  moreover have "ns \<in> set nss \<longleftrightarrow> memory_cell d b k ns \<noteq> None" for ns
  proof
    assume "ns \<in> set nss"
    then obtain i where i: "i < length ?sks" "ns = nss ! i" by (metis in_set_conv_nth len)
    with at [OF i(1)] mem [OF at [OF i(1)]] nth_mem [OF i(1)] show "memory_cell d b k ns \<noteq> None"
      by (simp add: memory_cell_def)
  next
    assume "memory_cell d b k ns \<noteq> None"
    then obtain sk where sk: "encode_state_key (codec b) (desc_name d) k ns = Inr sk" "row_at b sk \<noteq> None"
      by (auto simp: memory_cell_def split: sum.splits)
    then have "sk \<in> set ?sks" using mem by blast
    then obtain i where i: "i < length ?sks" "sk = ?sks ! i" by (metis in_set_conv_nth)
    have "decode_state_namespace (codec b) sk = Inr (nss ! i)" using rmap_nth [OF rm i(1)] i(2) by simp
    then have "ns = nss ! i" using dec [OF sk(1)] by simp
    then show "ns \<in> set nss" using i(1) len nth_mem by metis
  qed
  ultimately show ?thesis by blast
qed

text \<open>Rows of another name are not touched.\<close>

lemma memory_other:
  assumes ok: "memory_ok d' b" and inv: "backend_inv b'" and c: "codec b' = codec b" and n: "desc_name d \<noteq> desc_name d'"
    and sk: "encode_state_key (codec b) (desc_name d) k ns = Inr sk" and same: "\<And>sk'. sk' \<noteq> sk \<Longrightarrow> row_at b' sk' = row_at b sk'"
  shows "memory_ok d' b' \<and> memory_cell d' b' = memory_cell d' b"
proof -
  have cok: "codec_ok (codec b)" using ok by (simp add: memory_ok_def backend_inv_def)
  have row: "row_at b' sk' = row_at b sk'" if "encode_state_key (codec b) (desc_name d') k' ns' = Inr sk'" for k' ns' sk'
  proof (rule same, rule notI)
    assume "sk' = sk"
    with encode_state_key_inject [OF cok sk] that n show False by simp
  qed
  have "memory_cell d' b' k' ns' = memory_cell d' b k' ns'" for k' ns'
    by (cases "encode_state_key (codec b) (desc_name d') k' ns'") (simp_all add: memory_cell_def c row)
  then have "memory_cell d' b' = memory_cell d' b" by (simp add: fun_eq_iff)
  moreover have "x = None" if "encode_state_key (codec b') (desc_name d') k' ns' = Inr sk'" "row_at b' sk' = Some (x, p)" for k' ns' sk' x p
  proof -
    have sk': "encode_state_key (codec b) (desc_name d') k' ns' = Inr sk'" using that(1) c by simp
    then have "row_at b sk' = Some (x, p)" using row [OF sk'] that(2) by simp
    then show ?thesis using ok sk' unfolding memory_ok_def by blast
  qed
  then have "memory_ok d' b'" using ok inv c unfolding memory_ok_def by simp blast
  ultimately show ?thesis by blast
qed

lemma memory_put_other:
  assumes "memory_ok d' b" "0 \<le> now" "put_state d v ns now b = (Inr (), b')" "desc_name d \<noteq> desc_name d'"
  shows "memory_ok d' b' \<and> memory_cell d' b' = memory_cell d' b"
proof -
  have "backend_inv b" using assms(1) by (simp add: memory_ok_def)
  then obtain k sk where "selected_key b = Some k" and sk: "encode_state_key (codec b) (desc_name d) k ns = Inr sk"
    and b': "backend_inv b'" "codec b' = codec b" and "selected_key b' = Some k" "timer_table b' = timer_table b" "row_at b' sk = Some (expiry_for d now, desc_dumps d v)"
    and same: "\<And>sk'. sk' \<noteq> sk \<Longrightarrow> row_at b' sk' = row_at b sk'" using put_state_spec [OF _ assms(2,3)] by metis
  show ?thesis by (rule memory_other [OF assms(1) b' assms(4) sk same])
qed

lemma memory_delete_other:
  assumes "memory_ok d' b" "delete_state d ns b = (Inr (), b')" "desc_name d \<noteq> desc_name d'"
  shows "memory_ok d' b' \<and> memory_cell d' b' = memory_cell d' b"
proof -
  have "backend_inv b" using assms(1) by (simp add: memory_ok_def)
  then obtain k sk where "selected_key b = Some k" and sk: "encode_state_key (codec b) (desc_name d) k ns = Inr sk"
    and b': "backend_inv b'" "codec b' = codec b" and "selected_key b' = Some k" "timer_table b' = timer_table b" "row_at b' sk = None"
    and same: "\<And>sk'. sk' \<noteq> sk \<Longrightarrow> row_at b' sk' = row_at b sk'" using delete_state_spec [OF _ assms(2)] by metis
  show ?thesis by (rule memory_other [OF assms(1) b' assms(3) sk same])
qed

definition memory_pair_ok :: "'v descriptor \<Rightarrow> 'v descriptor \<Rightarrow> 'k backend \<Rightarrow> bool" where
  "memory_pair_ok dl dr b \<longleftrightarrow> desc_name dl \<noteq> desc_name dr \<and> memory_ok dl b \<and> memory_ok dr b"

interpretation memory_spaces: enumerable_store memory_backend d "memory_ok d" selected_key "memory_cell d" memory_timers
proof
  show "distinct nss \<and> set nss = {ns. memory_cell d s k ns \<noteq> None}"
    if "memory_ok d s" "selected_key s = Some k" "mb_namespaces memory_backend d s = Inr nss" for s k nss
    by (rule memory_namespaces) (use that in \<open>simp_all add: memory_backend_def\<close>)
qed

text \<open>What one call on one descriptor does to two of them.\<close>

lemma memory_half:
  fixes d d' :: "'v descriptor"
  shows "enumerable_store memory_backend d (\<lambda>b :: 'k backend. desc_name d \<noteq> desc_name d' \<and> memory_ok d b \<and> memory_ok d' b)
    selected_key (memory_cell d) memory_timers"
proof
  fix s :: "'k backend" assume ok: "desc_name d \<noteq> desc_name d' \<and> memory_ok d s \<and> memory_ok d' s"
  then have n: "desc_name d \<noteq> desc_name d'" by blast
  show "(desc_name d \<noteq> desc_name d' \<and> memory_ok d (mb_select memory_backend k s) \<and> memory_ok d' (mb_select memory_backend k s)) \<and>
      selected_key (mb_select memory_backend k s) = Some k \<and>
      memory_cell d (mb_select memory_backend k s) = memory_cell d s \<and> memory_timers (mb_select memory_backend k s) = memory_timers s" for k
    using memory.select [of d s k] memory.select [of d' s k] ok by (simp add: memory_backend_def)
  show "distinct nss \<and> set nss = {ns. memory_cell d s k ns \<noteq> None}"
    if "selected_key s = Some k" "mb_namespaces memory_backend d s = Inr nss" for k nss
    using memory_spaces.namespaces [OF _ that] ok by blast
  fix s'
  show "(desc_name d \<noteq> desc_name d' \<and> memory_ok d s' \<and> memory_ok d' s') \<and> selected_key s' = selected_key s \<and> memory_cell d s' = memory_cell d s \<and> memory_timers s' = memory_timers s"
    if "mb_cleanup_expired memory_backend now limit s = (r, s')" for now limit r
  proof -
    have "cleanup_expired now limit s = (r, s')" using that by (simp add: memory_backend_def)
    then show ?thesis using memory_cleanup [of d s] memory_cleanup [of d' s] ok by blast
  qed
  show "(desc_name d \<noteq> desc_name d' \<and> memory_ok d s' \<and> memory_ok d' s') \<and> selected_key s' = selected_key s \<and> memory_cell d s' = memory_cell d s \<and>
      distinct evs \<and> sorted (map timer_timestamp evs) \<and>
      set evs = {ev \<in> memory_timers s. timer_event_domain ev = td \<and> timer_timestamp ev \<le> ts} \<and> memory_timers s' = memory_timers s - set evs"
    if "mb_pop_due_timers memory_backend ts td None s = Inr (evs, s')" for ts td evs
  proof -
    have "pop_due_timers ts td None s = Inr (evs, s')" using that by (simp add: memory_backend_def)
    then show ?thesis using memory_pop [of d s] memory_pop [of d' s] ok by blast
  qed
  fix k assume k: "selected_key s = Some k"
  show "x = memory_cell d s k ns \<and> (desc_name d \<noteq> desc_name d' \<and> memory_ok d s' \<and> memory_ok d' s') \<and> selected_key s' = Some k \<and>
      memory_cell d s' = memory_cell d s \<and> memory_timers s' = memory_timers s"
    if "mb_get memory_backend d ns now s = (Inr x, s')" for ns now x
    using memory_get [of d s k ns now now x s'] that ok k by (simp add: memory_backend_def)
  show "(desc_name d \<noteq> desc_name d' \<and> memory_ok d s' \<and> memory_ok d' s') \<and> selected_key s' = Some k \<and>
      memory_cell d s' = (memory_cell d s)(k := (memory_cell d s k)(ns \<mapsto> v)) \<and> memory_timers s' = memory_timers s"
    if "0 \<le> now" "mb_put memory_backend d v ns now s = (Inr (), s')" for now v ns
  proof -
    have p: "put_state d v ns now s = (Inr (), s')" using that(2) by (simp add: memory_backend_def)
    from memory_put [OF _ that(1) p k] memory_put_other [OF _ that(1) p n] ok show ?thesis by blast
  qed
  show "(desc_name d \<noteq> desc_name d' \<and> memory_ok d s' \<and> memory_ok d' s') \<and> selected_key s' = Some k \<and>
      memory_cell d s' = (memory_cell d s)(k := (memory_cell d s k)(ns := None)) \<and> memory_timers s' = memory_timers s"
    if "mb_delete memory_backend d ns s = (Inr (), s')" for ns
  proof -
    have p: "delete_state d ns s = (Inr (), s')" using that by (simp add: memory_backend_def)
    from memory_delete [OF _ p k] memory_delete_other [OF _ p n] ok show ?thesis by blast
  qed
  show "(desc_name d \<noteq> desc_name d' \<and> memory_ok d s' \<and> memory_ok d' s') \<and> selected_key s' = Some k \<and> memory_cell d s' = memory_cell d s \<and> 0 \<le> ts \<and>
      memory_timers s' = insert \<lparr>timer_timestamp = ts, timer_key = k, timer_namespace = ns, timer_event_domain = td\<rparr> (memory_timers s)"
    if "mb_register_timer memory_backend ts ns td s = Inr s'" for ts ns td
  proof -
    have p: "register_timer ts ns td s = Inr s'" using that by (simp add: memory_backend_def)
    from memory_register [OF _ k p, of d] memory_register [OF _ k p, of d'] ok show ?thesis by blast
  qed
  show "(desc_name d \<noteq> desc_name d' \<and> memory_ok d s' \<and> memory_ok d' s') \<and> selected_key s' = Some k \<and> memory_cell d s' = memory_cell d s \<and>
      memory_timers s' = memory_timers s - {\<lparr>timer_timestamp = ts, timer_key = k, timer_namespace = ns, timer_event_domain = td\<rparr>}"
    if "mb_delete_timer memory_backend ts ns td s = Inr s'" for ts ns td
  proof -
    have p: "delete_timer ts ns td s = Inr s'" using that by (simp add: memory_backend_def)
    from memory_unregister [OF _ k p, of d] memory_unregister [OF _ k p, of d'] ok show ?thesis by blast
  qed
qed

lemma memory_pair_ok_left: "memory_pair_ok dl dr = (\<lambda>b. desc_name dl \<noteq> desc_name dr \<and> memory_ok dl b \<and> memory_ok dr b)"
  and memory_pair_ok_right: "memory_pair_ok dl dr = (\<lambda>b. desc_name dr \<noteq> desc_name dl \<and> memory_ok dr b \<and> memory_ok dl b)"
  by (auto simp: memory_pair_ok_def fun_eq_iff)

interpretation memory_pair: paired_store memory_backend dl dr "memory_pair_ok dl dr" selected_key "memory_cell dl" "memory_cell dr" memory_timers
proof (intro paired_store.intro paired_store_axioms.intro)
  show "enumerable_store memory_backend dl (memory_pair_ok dl dr) selected_key (memory_cell dl) memory_timers"
    unfolding memory_pair_ok_left by (rule memory_half)
  show "enumerable_store memory_backend dr (memory_pair_ok dl dr) selected_key (memory_cell dr) memory_timers"
    unfolding memory_pair_ok_right by (rule memory_half)
  show "memory_cell dr s' = memory_cell dr s" if ok: "memory_pair_ok dl dr s" and k: "selected_key s = Some k" and that: "mb_get memory_backend dl ns now s = (Inr x, s')" for s k ns now x v s'
    using memory_get [of dl s k ns now now x s'] that ok k by (simp add: memory_backend_def memory_pair_ok_def)
  show "memory_cell dl s' = memory_cell dl s" if ok: "memory_pair_ok dl dr s" and k: "selected_key s = Some k" and that: "mb_get memory_backend dr ns now s = (Inr x, s')" for s k ns now x v s'
    using memory_get [of dr s k ns now now x s'] that ok k by (simp add: memory_backend_def memory_pair_ok_def)
  show "memory_cell dr s' = memory_cell dr s" if ok: "memory_pair_ok dl dr s" and k: "selected_key s = Some k" and that: "0 \<le> now" "mb_put memory_backend dl v ns now s = (Inr (), s')" for s k ns now x v s'
    using memory_put_other [of dr s now dl v ns s'] that ok by (simp add: memory_backend_def memory_pair_ok_def)
  show "memory_cell dl s' = memory_cell dl s" if ok: "memory_pair_ok dl dr s" and k: "selected_key s = Some k" and that: "0 \<le> now" "mb_put memory_backend dr v ns now s = (Inr (), s')" for s k ns now x v s'
    using memory_put_other [of dl s now dr v ns s'] that ok by (auto simp: memory_backend_def memory_pair_ok_def)
  show "memory_cell dr s' = memory_cell dr s" if ok: "memory_pair_ok dl dr s" and k: "selected_key s = Some k" and that: "mb_delete memory_backend dl ns s = (Inr (), s')" for s k ns now x v s'
    using memory_delete_other [of dr s dl ns s'] that ok by (simp add: memory_backend_def memory_pair_ok_def)
  show "memory_cell dl s' = memory_cell dl s" if ok: "memory_pair_ok dl dr s" and k: "selected_key s = Some k" and that: "mb_delete memory_backend dr ns s = (Inr (), s')" for s k ns now x v s'
    using memory_delete_other [of dl s dr ns s'] that ok by (auto simp: memory_backend_def memory_pair_ok_def)
qed

end
