(* ===== verification/ExampleCodecs.thy ===== *)
theory ExampleCodecs
  imports Bytes
begin

section \<open>Byte codecs for examples\<close>

text \<open>
  Concrete encodings of integers for the worked examples of the state theories, code equations
  that let those examples be evaluated, and the trace of a list of steps.
\<close>

definition int_bytes :: "int \<Rightarrow> bytes" where
  "int_bytes i = (if i < 0 then 1 else 0) # replicate (nat \<bar>i\<bar>) 1 @ [0]"

definition read_int :: "bytes \<Rightarrow> int \<times> bytes" where
  "read_int xs =
     (let n = length (takeWhile (\<lambda>x. x = 1) (tl xs))
      in (if hd xs = 1 then - int n else int n, drop (n + 2) xs))"

lemma read_int_bytes [simp]: "read_int (int_bytes i @ r) = (i, r)"
proof -
  have "takeWhile (\<lambda>x. x = 1) (replicate n 1 @ 0 # r) = replicate n (1::byte)" for n by (induction n) auto
  then show ?thesis by (simp add: read_int_def int_bytes_def Let_def)
qed

fun ints_bytes :: "int list \<Rightarrow> bytes" where
  "ints_bytes [] = [0]"
| "ints_bytes (x # xs) = 1 # int_bytes x @ ints_bytes xs"

fun read_ints :: "nat \<Rightarrow> bytes \<Rightarrow> int list" where
  "read_ints 0 bs = []"
| "read_ints (Suc n) bs = (if bs = [] \<or> hd bs = 0 then [] else let (x, r) = read_int (tl bs) in x # read_ints n r)"

lemma read_ints_bytes: "length (ints_bytes xs) \<le> n \<Longrightarrow> read_ints n (ints_bytes xs) = xs"
proof (induction xs arbitrary: n)
  case Nil
  then show ?case by (cases n) simp_all
next
  case (Cons x xs)
  then obtain m where n: "n = Suc m" by (cases n) simp_all
  have "length (ints_bytes xs) \<le> m" using Cons.prems by (simp add: n)
  then show ?case using Cons.IH by (simp add: n)
qed

text \<open>Code equations that keep the packed integers in binary.\<close>

fun be_int :: "nat \<Rightarrow> int \<Rightarrow> bytes" where
  "be_int 0 x = []"
| "be_int (Suc n) x = be_int n (x div 256) @ [of_int (x mod 256)]"

lemma be_bytes_nat: "0 \<le> x \<Longrightarrow> be_bytes n (nat x) = be_int n x"
proof (induction n arbitrary: x)
  case (Suc n)
  have "nat x div 256 = nat (x div 256)" "nat x mod 256 = nat (x mod 256)" using Suc.prems by (simp_all add: nat_div_distrib nat_mod_distrib)
  then show ?case using Suc.IH [of "x div 256"] Suc.prems by (simp add: pos_imp_zdiv_nonneg_iff)
qed simp

lemma pack_signed_code [code]:
  "pack_signed n x = (if - (256 ^ n div 2) \<le> x \<and> x < 256 ^ n div 2 then Inr (be_int n (x mod 256 ^ n)) else Inl StructError)"
  by (simp add: pack_signed_def be_bytes_nat)

lemma unpack_unsigned_code [code]: "unpack_unsigned bs = foldl (\<lambda>acc b. acc * 256 + uint b) 0 bs"
proof -
  have "int (foldl (\<lambda>acc b. acc * 256 + unat b) n bs) = foldl (\<lambda>acc b. acc * 256 + uint b) (int n) bs" for n
    by (induction bs arbitrary: n) simp_all
  from this [of 0] show ?thesis by (simp add: unpack_unsigned_def be_value_def)
qed

lemma unpack_signed_code [code]:
  "unpack_signed bs = (let v = unpack_unsigned bs; m = 256 ^ length bs in if v < m div 2 then v else v - m)"
  by (simp add: unpack_signed_def unpack_unsigned_def)

lemma pack_unsigned_code [code]: "pack_unsigned n x = (if 0 \<le> x \<and> x < 256 ^ n then Inr (be_int n x) else Inl StructError)"
  by (simp add: pack_unsigned_def be_bytes_nat)

fun trace_steps :: "('t \<Rightarrow> unit result \<times> 't) list \<Rightarrow> 't \<Rightarrow> ('t \<Rightarrow> 'x) \<Rightarrow> (unit result \<times> 'x) list" where
  "trace_steps [] t f = []"
| "trace_steps (s # ss) t f = (let (r, t') = s t in (r, f t') # trace_steps ss t' f)"

end
