(* ===== verification/Windows.thy ===== *)
theory Windows
  imports KeyedState ExampleCodecs
begin

section \<open>Event-time windows (api/*_window.py, runtime/operator/window_operator.py)\<close>

text \<open>
  The three window assigners and the window operator over any managed backend. Keys and windows share
  the type of keys and namespaces of a backend: \<open>Inl\<close> a user key, \<open>Inr\<close> a window.
  Durations are seconds. A reduce function is a parameter that may raise; it returns a value other
  than \<open>None\<close>. Shown: the assigners return exactly the windows of their grid that contain the time
  stamp, and for tumbling and sliding windows the operator emits, for each key and window, exactly once,
  the reduction of all rows that arrived before the window closed.
\<close>

subsection \<open>Windows\<close>

record time_window =
  w_start :: int
  w_end :: int

definition make_window :: "int \<Rightarrow> int \<Rightarrow> time_window result" where
  "make_window s e = (if e \<le> s then Inl ValueError else Inr \<lparr>w_start = s, w_end = e\<rparr>)"

definition overlaps :: "time_window \<Rightarrow> time_window \<Rightarrow> bool" where
  "overlaps a b \<longleftrightarrow> w_start a < w_end b \<and> w_start b < w_end a"

definition merge_windows :: "time_window \<Rightarrow> time_window \<Rightarrow> time_window result" where
  "merge_windows a b = make_window (min (w_start a) (w_start b)) (max (w_end a) (w_end b))"

text \<open>\<open>int(x)\<close> truncates towards zero.\<close>

definition py_trunc :: "rat \<Rightarrow> int" where
  "py_trunc q = (if q \<ge> 0 then \<lfloor>q\<rfloor> else \<lceil>q\<rceil>)"

definition milliseconds :: "rat \<Rightarrow> int" where
  "milliseconds seconds = py_trunc (seconds * 1000)"

definition positive_milliseconds :: "rat \<Rightarrow> int result" where
  "positive_milliseconds seconds = (let m = milliseconds seconds in if m \<le> 0 then Inl ValueError else Inr m)"

datatype assigner = TumblingWindow int int | SlidingWindow int int int | SessionWindow int

definition make_tumbling :: "rat \<Rightarrow> rat \<Rightarrow> assigner result" where
  "make_tumbling s off = rbind (positive_milliseconds s) (\<lambda>m. Inr (TumblingWindow m (milliseconds off mod m)))"

definition make_sliding :: "rat \<Rightarrow> rat \<Rightarrow> rat \<Rightarrow> assigner result" where
  "make_sliding s slide off =
     rbind (positive_milliseconds s) (\<lambda>m.
     rbind (positive_milliseconds slide) (\<lambda>n. Inr (SlidingWindow m n (milliseconds off mod n))))"

definition make_session :: "rat \<Rightarrow> assigner result" where
  "make_session gap = rbind (positive_milliseconds gap) (\<lambda>g. Inr (SessionWindow g))"

fun is_merging :: "assigner \<Rightarrow> bool" where
  "is_merging (SessionWindow _) = True"
| "is_merging _ = False"

text \<open>The loop of the sliding assigner; the constructor guarantees a positive slide, so the second guard never ends it.\<close>

function sliding_from :: "int \<Rightarrow> int \<Rightarrow> int \<Rightarrow> int \<Rightarrow> time_window list result" where
  "sliding_from m slide ts start =
     (if start + m > ts \<and> 0 < slide
      then rbind (make_window start (start + m)) (\<lambda>w.
           rbind (sliding_from m slide ts (start - slide)) (\<lambda>ws. Inr (w # ws)))
      else Inr [])"
  by pat_completeness auto

termination by (relation "measure (\<lambda>(m, slide, ts, start). nat (start + m - ts))") auto

declare sliding_from.simps [simp del]

fun assign_windows :: "assigner \<Rightarrow> int \<Rightarrow> time_window list result" where
  "assign_windows (TumblingWindow m off) ts =
     (let start = ((ts - off) div m) * m + off in rbind (make_window start (start + m)) (\<lambda>w. Inr [w]))"
| "assign_windows (SlidingWindow m slide off) ts = sliding_from m slide ts (((ts - off) div slide) * slide + off)"
| "assign_windows (SessionWindow gap) ts = rbind (make_window ts (ts + gap)) (\<lambda>w. Inr [w])"

subsection \<open>The operator\<close>

type_synonym 'k state_id = "'k + time_window"

record ('k, 'v, 'r) window_operator =
  wo_assigner :: assigner
  wo_reduce :: "'v \<Rightarrow> 'v \<Rightarrow> 'v result"
  wo_lateness :: int
  wo_state :: "'v descriptor"
  wo_view :: "'v \<Rightarrow> 'r emitted"

definition make_window_operator ::
  "assigner \<Rightarrow> ('v \<Rightarrow> 'v \<Rightarrow> 'v result) \<Rightarrow> rat \<Rightarrow> ttl_config option \<Rightarrow> ('v \<Rightarrow> bytes) \<Rightarrow> (bytes \<Rightarrow> 'v) \<Rightarrow>
   ('v \<Rightarrow> 'r emitted) \<Rightarrow> ('k, 'v, 'r) window_operator result" where
  "make_window_operator a f lateness ttl dumps loads view =
     (if lateness < 0 then Inl ValueError
      else Inr \<lparr>wo_assigner = a, wo_reduce = f, wo_lateness = milliseconds lateness,
                wo_state = \<lparr>desc_name = ''window-aggregate'', desc_dumps = dumps, desc_loads = loads, desc_ttl = ttl\<rparr>,
                wo_view = view\<rparr>)"

definition cleanup_time :: "('k, 'v, 'r) window_operator \<Rightarrow> time_window \<Rightarrow> int" where
  "cleanup_time op w = w_end w - 1 + wo_lateness op"

definition as_window :: "'k state_id \<Rightarrow> time_window result" where
  "as_window x = (case x of Inl _ \<Rightarrow> Inl AttributeError | Inr w \<Rightarrow> Inr w)"

definition session_merge_plan ::
  "('s, 'k state_id, 'v) managed_backend \<Rightarrow> ('k, 'v, 'r) window_operator \<Rightarrow> time_window \<Rightarrow> 's \<Rightarrow>
   (time_window \<times> time_window list) result" where
  "session_merge_plan ops op candidate s =
     (if \<not> is_merging (wo_assigner op) then Inr (candidate, [])
      else
        rbind (mb_namespaces ops (wo_state op) s) (\<lambda>nss.
        rbind (rmap as_window nss) (\<lambda>ws.
          let overlapping = filter (\<lambda>w. overlaps w candidate) ws
          in rbind (rfold (\<lambda>w merged. merge_windows merged w) overlapping candidate) (\<lambda>merged.
               Inr (merged, overlapping)))))"

fun collect_sessions ::
  "('s, 'k state_id, 'v) managed_backend \<Rightarrow> ('k, 'v, 'r) window_operator \<Rightarrow> int \<Rightarrow> time_window list \<Rightarrow> 'v option \<Rightarrow>
   ('s, 'o) managed_task \<Rightarrow> 'v option result \<times> ('s, 'o) managed_task" where
  "collect_sessions ops op now [] acc t = (Inr acc, t)"
| "collect_sessions ops op now (w # ws) acc t =
     sbind (on_backend (value_get ops (wo_state op) (Inr w) now) t) (\<lambda>v t1.
     sbind (case (v, acc) of
              (None, _) \<Rightarrow> (Inr acc, t1)
            | (Some x, None) \<Rightarrow> (Inr (Some x), t1)
            | (Some x, Some a) \<Rightarrow> (rbind (wo_reduce op a x) (\<lambda>y. Inr (Some y)), t1)) (\<lambda>acc' t2.
     sbind (on_backend (value_clear ops (wo_state op) (Inr w)) t2) (\<lambda>_ t3.
     sbind (update_backend (mb_delete_timer ops (cleanup_time op w) (Inr w) EVENT_TIME) t3) (\<lambda>_ t4.
       collect_sessions ops op now ws acc' t4))))"

definition merge_session_windows ::
  "('s, 'k state_id, 'v) managed_backend \<Rightarrow> ('k, 'v, 'r) window_operator \<Rightarrow> int \<Rightarrow> time_window \<Rightarrow> time_window list \<Rightarrow>
   ('s, 'o) managed_task \<Rightarrow> unit result \<times> ('s, 'o) managed_task" where
  "merge_session_windows ops op now target overlapping t =
     sbind (collect_sessions ops op now overlapping None t) (\<lambda>acc t1.
       case acc of
         None \<Rightarrow> (Inr (), t1)
       | Some v \<Rightarrow> on_backend (value_set ops (wo_state op) (Inr target) v now) t1)"

definition add_to_window ::
  "('s, 'k state_id, 'v) managed_backend \<Rightarrow> ('k, 'v, 'r) window_operator \<Rightarrow> int \<Rightarrow> 'v \<Rightarrow> time_window \<Rightarrow>
   ('s, 'o) managed_task \<Rightarrow> unit result \<times> ('s, 'o) managed_task" where
  "add_to_window ops op now row target t =
     sbind (on_backend (value_get ops (wo_state op) (Inr target) now) t) (\<lambda>current t1.
     sbind (case current of None \<Rightarrow> Inr row | Some v \<Rightarrow> wo_reduce op v row, t1) (\<lambda>v t2.
     sbind (on_backend (value_set ops (wo_state op) (Inr target) v now) t2) (\<lambda>_ t3.
       update_backend (mb_register_timer ops (cleanup_time op target) (Inr target) EVENT_TIME) t3)))"

text \<open>The loop over the assigned windows; the flag says whether the record was late for one of them.\<close>

fun process_windows ::
  "('s, 'k state_id, 'v) managed_backend \<Rightarrow> ('k, 'v, 'r) window_operator \<Rightarrow> int \<Rightarrow> 'v \<Rightarrow> time_window list \<Rightarrow> bool \<Rightarrow>
   ('s, 'o) managed_task \<Rightarrow> bool result \<times> ('s, 'o) managed_task" where
  "process_windows ops op now row [] late t = (Inr late, t)"
| "process_windows ops op now row (w # ws) late t =
     (case session_merge_plan ops op w (mt_backend t) of
        Inl e \<Rightarrow> (Inl e, t)
      | Inr (target, overlapping) \<Rightarrow>
          if cleanup_time op target \<le> mt_watermark t then process_windows ops op now row ws True t
          else
            sbind (merge_session_windows ops op now target overlapping t) (\<lambda>_ t1.
            sbind (add_to_window ops op now row target t1) (\<lambda>_ t2.
              process_windows ops op now row ws late t2)))"

definition window_process ::
  "('s, 'k state_id, 'v) managed_backend \<Rightarrow> ('k, 'v, 'r) window_operator \<Rightarrow> int \<Rightarrow> 'v input_record \<Rightarrow>
   ('s, 'r) managed_task \<Rightarrow> unit result \<times> ('s, 'r) managed_task" where
  "window_process ops op now r t =
     (case mt_timestamp t of
        None \<Rightarrow> (Inl ValueError, t)
      | Some ts \<Rightarrow>
          if ts < 0 then (Inl ValueError, t)
          else
            (case assign_windows (wo_assigner op) ts of
               Inl e \<Rightarrow> (Inl e, t)
             | Inr ws \<Rightarrow>
                 sbind (process_windows ops op now (in_block r) ws False t) (\<lambda>late t1.
                   (Inr (), if late then record_late_drop t1 else t1))))"

definition window_on_timer ::
  "('s, 'k state_id, 'v) managed_backend \<Rightarrow> ('k, 'v, 'r) window_operator \<Rightarrow> int \<Rightarrow> 'k state_id timer_event \<Rightarrow>
   ('s, 'r) managed_task \<Rightarrow> unit result \<times> ('s, 'r) managed_task" where
  "window_on_timer ops op now ev t =
     (if timer_event_domain ev \<noteq> EVENT_TIME then (Inr (), t)
      else
        sbind (on_backend (value_get ops (wo_state op) (timer_namespace ev) now) t) (\<lambda>v t1.
          case v of
            None \<Rightarrow> (Inr (), t1)
          | Some x \<Rightarrow>
              sbind (on_backend (value_clear ops (wo_state op) (timer_namespace ev)) t1) (\<lambda>_ t2.
                emit_result (wo_view op x) t2)))"

definition window_hooks ::
  "('s, 'k state_id, 'v) managed_backend \<Rightarrow> ('k, 'v, 'r) window_operator \<Rightarrow> int \<Rightarrow> ('s, 'k state_id, 'v, 'r) managed_hooks" where
  "window_hooks ops op now =
     \<lparr>process_managed = window_process ops op now, on_timer = window_on_timer ops op now, after_time_advanced = no_maintenance\<rparr>"

definition window_finish ::
  "('s, 'k state_id, 'v) managed_backend \<Rightarrow> ('k, 'v, 'r) window_operator \<Rightarrow> int \<Rightarrow>
   ('s, 'r) managed_task \<Rightarrow> unit result \<times> ('s, 'r) managed_task" where
  "window_finish ops op now t =
     sbind (pop_due ops (2 ^ 63 - 1) EVENT_TIME t) (\<lambda>evs t1. fire_timers ops (window_on_timer ops op now) evs t1)"


subsection \<open>The assigners\<close>

lemma sliding_from_spec:
  assumes "0 < m" "0 < slide"
  shows "\<exists>ws. sliding_from m slide ts start = Inr ws \<and> distinct ws \<and>
    set ws = {w. w_end w = w_start w + m \<and> w_start w \<le> start \<and> slide dvd start - w_start w \<and> ts < w_end w}"
  using assms
proof (induction m slide ts start rule: sliding_from.induct)
  case (1 m slide ts start)
  show ?case
  proof (cases "start + m > ts")
    case False
    then have "{w. w_end w = w_start w + m \<and> w_start w \<le> start \<and> slide dvd start - w_start w \<and> ts < w_end w} = {}" by auto
    then show ?thesis using False by (simp add: sliding_from.simps [of m slide ts start])
  next
    case True
    let ?w = "\<lparr>w_start = start, w_end = start + m\<rparr>"
    from 1(1) 1(2,3) True obtain ws where ws: "sliding_from m slide ts (start - slide) = Inr ws" "distinct ws"
      "set ws = {w. w_end w = w_start w + m \<and> w_start w \<le> start - slide \<and> slide dvd start - slide - w_start w \<and> ts < w_end w}" by auto
    have run: "sliding_from m slide ts start = Inr (?w # ws)"
      using True 1(2,3) ws(1) by (simp add: sliding_from.simps [of m slide ts start] make_window_def)
    have step: "w_start w \<le> start \<and> slide dvd start - w_start w \<longleftrightarrow>
        w_start w = start \<or> w_start w \<le> start - slide \<and> slide dvd start - slide - w_start w" for w :: time_window
    proof
      assume a: "w_start w \<le> start \<and> slide dvd start - w_start w"
      then obtain n where n: "start - w_start w = slide * n" by blast
      show "w_start w = start \<or> w_start w \<le> start - slide \<and> slide dvd start - slide - w_start w"
      proof (cases "n \<le> 0")
        case True
        then have "slide * n \<le> 0" using 1(3) by (simp add: mult_nonneg_nonpos)
        then show ?thesis using a n by simp
      next
        case False
        then have "slide * 1 \<le> slide * n" using 1(3) by (intro mult_left_mono) simp_all
        then have "w_start w \<le> start - slide" using n by linarith
        moreover have "start - slide - w_start w = slide * (n - 1)" using n by (simp add: right_diff_distrib)
        then have "slide dvd start - slide - w_start w" by (rule dvdI)
        ultimately show ?thesis by blast
      qed
    next
      assume "w_start w = start \<or> w_start w \<le> start - slide \<and> slide dvd start - slide - w_start w"
      then show "w_start w \<le> start \<and> slide dvd start - w_start w"
      proof
        assume b: "w_start w \<le> start - slide \<and> slide dvd start - slide - w_start w"
        then obtain n where "start - slide - w_start w = slide * n" by blast
        then have "start - w_start w = slide * (n + 1)" by (simp add: distrib_left)
        then have "slide dvd start - w_start w" by (rule dvdI)
        then show ?thesis using b 1(3) by linarith
      qed simp
    qed
    have "w \<in> set (?w # ws) \<longleftrightarrow> w_end w = w_start w + m \<and> w_start w \<le> start \<and> slide dvd start - w_start w \<and> ts < w_end w" for w
    proof (cases "w_start w = start")
      case eq: True
      have "w = ?w \<longleftrightarrow> w_end w = start + m" using eq by (cases w) auto
      moreover have "w \<notin> set ws" using 1(3) eq by (simp add: ws(3))
      ultimately show ?thesis using True eq by (auto simp: ws(3))
    next
      case False
      then have "w \<noteq> ?w" by auto
      then have "w \<in> set (?w # ws) \<longleftrightarrow> w \<in> set ws" by simp
      then show ?thesis using step [of w] False unfolding ws(3) mem_Collect_eq by blast
    qed
    then have "set (?w # ws) = {w. w_end w = w_start w + m \<and> w_start w \<le> start \<and> slide dvd start - w_start w \<and> ts < w_end w}"
      by blast
    moreover have "?w \<notin> set ws" using 1(3) by (simp add: ws(3))
    then have "distinct (?w # ws)" using ws(2) by simp
    ultimately show ?thesis using run by blast
  qed
qed

text \<open>The windows an assigner works with: all of a grid, or the gap after the time stamp.\<close>

fun valid_assigner :: "assigner \<Rightarrow> bool" where
  "valid_assigner (TumblingWindow m off) = (0 < m)"
| "valid_assigner (SlidingWindow m slide off) = (0 < m \<and> 0 < slide)"
| "valid_assigner (SessionWindow gap) = (0 < gap)"

fun window_of :: "assigner \<Rightarrow> int \<Rightarrow> time_window \<Rightarrow> bool" where
  "window_of (TumblingWindow m off) ts w \<longleftrightarrow>
     w_end w = w_start w + m \<and> m dvd w_start w - off \<and> w_start w \<le> ts \<and> ts < w_end w"
| "window_of (SlidingWindow m slide off) ts w \<longleftrightarrow>
     w_end w = w_start w + m \<and> slide dvd w_start w - off \<and> w_start w \<le> ts \<and> ts < w_end w"
| "window_of (SessionWindow gap) ts w \<longleftrightarrow> w_start w = ts \<and> w_end w = ts + gap"

lemma made_assigners_valid:
  "make_tumbling s off = Inr a \<Longrightarrow> valid_assigner a" "make_sliding s slide off = Inr a \<Longrightarrow> valid_assigner a"
  "make_session gap = Inr a \<Longrightarrow> valid_assigner a"
  by (auto simp: make_tumbling_def make_sliding_def make_session_def positive_milliseconds_def Let_def result_simps split: if_splits)

lemma grid_start:
  assumes "0 < (n :: int)"
  shows "(x \<le> ts \<and> n dvd x - off) \<longleftrightarrow> (x \<le> ((ts - off) div n) * n + off \<and> n dvd ((ts - off) div n) * n + off - x)"
proof -
  let ?g = "((ts - off) div n) * n + off"
  have g: "?g \<le> ts" "ts < ?g + n"
    using div_mult_mod_eq [of "ts - off" n] pos_mod_bound [OF assms, of "ts - off"] pos_mod_sign [OF assms, of "ts - off"] by linarith+
  have d: "n dvd x - off \<longleftrightarrow> n dvd ?g - x"
  proof -
    have "?g - x = ((ts - off) div n) * n - (x - off)" by simp
    then show ?thesis by (metis dvd_diff_commute dvd_diff_right_iff dvd_triv_right)
  qed
  have "x \<le> ?g" if "x \<le> ts" "n dvd ?g - x"
  proof (rule ccontr)
    assume "\<not> x \<le> ?g"
    then have "0 < x - ?g" "x - ?g < n" using that(1) g(2) by linarith+
    moreover have "n dvd x - ?g" using that(2) by (simp add: dvd_diff_commute)
    ultimately show False using zdvd_imp_le by fastforce
  qed
  then show ?thesis using d g(1) by (meson order_trans)
qed

lemma assign_windows_spec:
  assumes "valid_assigner a"
  shows "\<exists>ws. assign_windows a ts = Inr ws \<and> distinct ws \<and> set ws = {w. window_of a ts w}"
proof (cases a)
  case (TumblingWindow m off)
  then have m: "0 < m" using assms by simp
  let ?g = "((ts - off) div m) * m + off"
  have g: "?g \<le> ts" "ts < ?g + m"
    using div_mult_mod_eq [of "ts - off" m] pos_mod_bound [OF m, of "ts - off"] pos_mod_sign [OF m, of "ts - off"] by linarith+
  have "window_of a ts w \<longleftrightarrow> w = \<lparr>w_start = ?g, w_end = ?g + m\<rparr>" for w
  proof
    assume w: "window_of a ts w"
    then have "w_start w \<le> ?g" "m dvd ?g - w_start w" using grid_start [OF m, of "w_start w" ts off] by (simp_all add: TumblingWindow)
    moreover have "?g - w_start w < m" using w g by (simp add: TumblingWindow)
    ultimately have "w_start w = ?g" using zdvd_imp_le [of m "?g - w_start w"] by linarith
    then show "w = \<lparr>w_start = ?g, w_end = ?g + m\<rparr>" using w by (intro time_window.equality) (simp_all add: TumblingWindow)
  next
    assume "w = \<lparr>w_start = ?g, w_end = ?g + m\<rparr>"
    then show "window_of a ts w" using g by (simp add: TumblingWindow)
  qed
  then show ?thesis using m by (simp add: TumblingWindow make_window_def Let_def)
next
  case (SlidingWindow m slide off)
  then have p: "0 < m" "0 < slide" using assms by simp_all
  let ?g = "((ts - off) div slide) * slide + off"
  have "{w. window_of a ts w} = {w. w_end w = w_start w + m \<and> w_start w \<le> ?g \<and> slide dvd ?g - w_start w \<and> ts < w_end w}"
    using grid_start [OF p(2)] by (auto simp: SlidingWindow)
  then show ?thesis using sliding_from_spec [OF p, of ts ?g] by (simp add: SlidingWindow)
next
  case (SessionWindow gap)
  have "{w. window_of a ts w} = {\<lparr>w_start = ts, w_end = ts + gap\<rparr>}" by (auto simp: SessionWindow intro: time_window.equality)
  then show ?thesis using assms by (simp add: SessionWindow make_window_def)
qed

text \<open>
  C11. A window assigner made with any size, slide, offset or gap the constructors accept returns, without
  error or repetition, exactly the windows of its grid that contain the time stamp (for a session, the gap that
  starts at it); the loop of the sliding assigner ends.
\<close>

theorem assign_windows_exact:
  assumes "make_tumbling s off = Inr a \<or> make_sliding s slide off = Inr a \<or> make_session s = Inr a"
  shows "\<exists>ws. assign_windows a ts = Inr ws \<and> distinct ws \<and> (\<forall>w. w \<in> set ws \<longleftrightarrow> window_of a ts w)"
  using assign_windows_spec [of a ts] made_assigners_valid assms by (metis mem_Collect_eq)

theorem assign_windows_exact_witness:
  "\<exists>a ws. make_sliding 10 5 (- 1) = Inr a \<and> assign_windows a 7000 = Inr ws \<and> length ws = 2 \<and> (\<forall>w \<in> set ws. window_of a 7000 w)"
proof -
  have a: "make_sliding 10 5 (- 1) = Inr (SlidingWindow 10000 5000 4000)"
    by (simp add: make_sliding_def positive_milliseconds_def milliseconds_def py_trunc_def)
  moreover have "rbind (assign_windows (SlidingWindow 10000 5000 4000) 7000) (\<lambda>ws. Inr (length ws)) = Inr 2" by code_simp
  ultimately show ?thesis using assign_windows_exact [of 10 "- 1" "SlidingWindow 10000 5000 4000" 5 7000] by (auto simp: result_simps)
qed


subsection \<open>One call of the operator\<close>

text \<open>What a value contributes to the output, and the reduction of the rows of a window.\<close>

fun emitted_records :: "'r emitted \<Rightarrow> 'r list" where
  "emitted_records EmitNone = []"
| "emitted_records (EmitRecord r) = [r]"
| "emitted_records (EmitMapping r) = [r]"
| "emitted_records (EmitItems xs) = concat (map emitted_records xs)"
| "emitted_records EmitOther = []"

lemma emit_result_spec:
  "emit_result x t = (Inr (), t') \<Longrightarrow> t' = t\<lparr>mt_collected := mt_collected t @ emitted_records x\<rparr>"
  "emit_items xs t = (Inr (), t') \<Longrightarrow> t' = t\<lparr>mt_collected := mt_collected t @ concat (map emitted_records xs)\<rparr>"
proof (induction x t and xs t arbitrary: t' and t' rule: emit_result_emit_items.induct)
  case (7 x xs t)
  then obtain t1 where "emit_result x t = (Inr (), t1)" "emit_items xs t1 = (Inr (), t')" by (auto simp: sbind_Inr)
  with 7 show ?case by fastforce
qed auto

definition add_row :: "('k, 'v, 'r) window_operator \<Rightarrow> 'v option \<Rightarrow> 'v \<Rightarrow> 'v result" where
  "add_row op current row = (case current of None \<Rightarrow> Inr row | Some v \<Rightarrow> wo_reduce op v row)"

definition window_timer :: "('k, 'v, 'r) window_operator \<Rightarrow> 'k state_id \<Rightarrow> time_window \<Rightarrow> 'k state_id timer_event" where
  "window_timer op k w = \<lparr>timer_timestamp = cleanup_time op w, timer_key = k, timer_namespace = Inr w, timer_event_domain = EVENT_TIME\<rparr>"

text \<open>
  A history lists the processed records: key, time stamp, row, and the watermark at their arrival. A
  row counts for a window of its time stamp that was still open then.
\<close>

type_synonym ('k, 'v) arrivals = "('k state_id \<times> int \<times> 'v \<times> int) list"

definition accepted_rows :: "('k, 'v, 'r) window_operator \<Rightarrow> ('k, 'v) arrivals \<Rightarrow> 'k state_id \<Rightarrow> time_window \<Rightarrow> 'v list" where
  "accepted_rows op h k w =
     map (\<lambda>(_, _, row, _). row)
       (filter (\<lambda>(k', ts, _, wm). k' = k \<and> window_of (wo_assigner op) ts w \<and> wm < cleanup_time op w) h)"

definition reduce_rows :: "('k, 'v, 'r) window_operator \<Rightarrow> 'v list \<Rightarrow> 'v option result" where
  "reduce_rows op rows = rfold (\<lambda>row acc. rbind (add_row op acc row) (\<lambda>v. Inr (Some v))) rows None"

lemma accepted_rows_snoc:
  "accepted_rows op (h @ [(k', ts, row, wm)]) k w =
     accepted_rows op h k w @ (if k' = k \<and> window_of (wo_assigner op) ts w \<and> wm < cleanup_time op w then [row] else [])"
  by (simp add: accepted_rows_def)

lemma rfold_append: "rfold f (xs @ ys) s = rbind (rfold f xs s) (rfold f ys)"
proof (induction xs arbitrary: s)
  case (Cons x xs)
  then show ?case by (cases "f x s") simp_all
qed simp

lemma rfold_single: "rfold f [x] = f x"
proof
  show "rfold f [x] s = f x s" for s by (cases "f x s") simp_all
qed

lemma reduce_rows_snoc: "reduce_rows op (rows @ [row]) = rbind (reduce_rows op rows) (\<lambda>x. rbind (add_row op x row) (\<lambda>v. Inr (Some v)))"
  by (simp add: reduce_rows_def rfold_append rfold_single del: rfold.simps)

lemma reduce_rows_None: "reduce_rows op rows = Inr x \<Longrightarrow> x = None \<longleftrightarrow> rows = []"
  by (cases rows rule: rev_cases) (auto simp: reduce_rows_snoc result_simps, simp add: reduce_rows_def)

inductive window_run ::
  "('s, 'k state_id, 'v) managed_backend \<Rightarrow> ('k state_id, 'v) managed_config \<Rightarrow> ('k, 'v, 'r) window_operator \<Rightarrow>
   ('s, 'r) managed_task \<Rightarrow> ('k, 'v) arrivals \<Rightarrow> bool \<Rightarrow> ('s, 'r) managed_task \<Rightarrow> bool" for ops cfg op t0 where
  window_start: "window_run ops cfg op t0 [] False t0"
| window_record: "window_run ops cfg op t0 h False t \<Longrightarrow> mc_key_and_timestamp cfg r = Inr (k, PInt ts) \<Longrightarrow> 0 \<le> now \<Longrightarrow>
    process_element ops cfg (window_hooks ops op now) now r t = (Inr (), t') \<Longrightarrow>
    window_run ops cfg op t0 (h @ [(k, ts, in_block r, mt_watermark t)]) False t'"
| window_idle: "window_run ops cfg op t0 h False t \<Longrightarrow> 0 \<le> now \<Longrightarrow>
    on_idle ops cfg (window_hooks ops op now) now t = (Inr (), t') \<Longrightarrow> window_run ops cfg op t0 h False t'"
| window_time: "window_run ops cfg op t0 h False t \<Longrightarrow> 0 \<le> now \<Longrightarrow>
    on_event_time_watermark ops cfg (window_hooks ops op now) now ts t = (Inr (), t') \<Longrightarrow> window_run ops cfg op t0 h False t'"
| window_end: "window_run ops cfg op t0 h False t \<Longrightarrow> 0 \<le> now \<Longrightarrow>
    window_finish ops op now t = (Inr (), t') \<Longrightarrow> window_run ops cfg op t0 h True t'"

text \<open>Windows closing up to this time have fired: the watermark, and at the end all of 63 bits.\<close>

definition fired_up_to :: "bool \<Rightarrow> ('s, 'r) managed_task \<Rightarrow> int" where
  "fired_up_to ended t = (if ended then max (mt_watermark t) (2 ^ 63 - 1) else mt_watermark t)"

locale window_store = managed_store ops "wo_state op" ok selected cell timers
  for ops :: "('s, 'k state_id, 'v) managed_backend" and op :: "('k, 'v, 'r) window_operator"
    and ok selected cell timers
begin

definition good :: "('s, 'r) managed_task \<Rightarrow> bool" where
  "good t \<longleftrightarrow> ok (mt_backend t)"

text \<open>The same task up to the representation of its backend, with given cells and timers.\<close>

definition becomes ::
  "('s, 'r) managed_task \<Rightarrow> ('k state_id \<Rightarrow> 'k state_id \<Rightarrow> 'v option) \<Rightarrow> 'k state_id timer_event set \<Rightarrow> ('s, 'r) managed_task \<Rightarrow> bool" where
  "becomes t C T t' \<longleftrightarrow> good t' \<and> selected (mt_backend t') = selected (mt_backend t) \<and>
     cell (mt_backend t') = C \<and> timers (mt_backend t') = T \<and> mt_watermark t' = mt_watermark t \<and>
     mt_late t' = mt_late t \<and> mt_collected t' = mt_collected t"

lemma get_becomes:
  assumes "good t" "selected (mt_backend t) = Some k" "0 \<le> now"
    "on_backend (value_get ops (wo_state op) ns now) t = (Inr v, t')"
  shows "v = cell (mt_backend t) k ns \<and> becomes t (cell (mt_backend t)) (timers (mt_backend t)) t'"
proof -
  obtain s' where g: "mb_get ops (wo_state op) ns now (mt_backend t) = (Inr v, s')" and t': "t' = t\<lparr>mt_backend := s'\<rparr>"
    using assms(4) by (auto simp: on_backend_def value_get_def split: prod.splits)
  from get [OF assms(1) [unfolded good_def] assms(2,3) g] show ?thesis
    using assms(2) by (simp add: becomes_def good_def t')
qed

lemma set_becomes:
  assumes "good t" "selected (mt_backend t) = Some k" "0 \<le> now"
    "on_backend (value_set ops (wo_state op) ns v now) t = (Inr (), t')"
  shows "becomes t ((cell (mt_backend t))(k := (cell (mt_backend t) k)(ns \<mapsto> v))) (timers (mt_backend t)) t'"
proof -
  obtain s' where g: "mb_put ops (wo_state op) v ns now (mt_backend t) = (Inr (), s')" and t': "t' = t\<lparr>mt_backend := s'\<rparr>"
    using assms(4) by (auto simp: on_backend_def value_set_def split: prod.splits)
  from put [OF assms(1) [unfolded good_def] assms(2,3) g] show ?thesis
    using assms(2) by (simp add: becomes_def good_def t')
qed

lemma clear_becomes:
  assumes "good t" "selected (mt_backend t) = Some k" "on_backend (value_clear ops (wo_state op) ns) t = (Inr (), t')"
  shows "becomes t ((cell (mt_backend t))(k := (cell (mt_backend t) k)(ns := None))) (timers (mt_backend t)) t'"
proof -
  obtain s' where g: "mb_delete ops (wo_state op) ns (mt_backend t) = (Inr (), s')" and t': "t' = t\<lparr>mt_backend := s'\<rparr>"
    using assms(3) by (auto simp: on_backend_def value_clear_def split: prod.splits)
  from delete [OF assms(1) [unfolded good_def] assms(2) g] show ?thesis
    using assms(2) by (simp add: becomes_def good_def t')
qed

lemma register_becomes:
  assumes "good t" "selected (mt_backend t) = Some k"
    "update_backend (mb_register_timer ops (cleanup_time op w) (Inr w) EVENT_TIME) t = (Inr (), t')"
  shows "becomes t (cell (mt_backend t)) (insert (window_timer op k w) (timers (mt_backend t))) t'"
proof -
  obtain s' where g: "mb_register_timer ops (cleanup_time op w) (Inr w) EVENT_TIME (mt_backend t) = Inr s'"
    and t': "t' = t\<lparr>mt_backend := s'\<rparr>"
    using assms(3) by (auto simp: update_backend_def split: sum.splits)
  from register [OF assms(1) [unfolded good_def] assms(2) g] show ?thesis
    using assms(2) by (simp add: becomes_def good_def t' window_timer_def)
qed

lemma add_to_window_becomes:
  assumes g: "good t" "selected (mt_backend t) = Some k" "0 \<le> now" and run: "add_to_window ops op now row w t = (Inr (), t')"
  shows "\<exists>v. add_row op (cell (mt_backend t) k (Inr w)) row = Inr v \<and>
    becomes t ((cell (mt_backend t))(k := (cell (mt_backend t) k)(Inr w \<mapsto> v))) (insert (window_timer op k w) (timers (mt_backend t))) t'"
proof -
  from run obtain current t1 v t3 where 1: "on_backend (value_get ops (wo_state op) (Inr w) now) t = (Inr current, t1)"
    and v: "add_row op current row = Inr v"
    and 3: "on_backend (value_set ops (wo_state op) (Inr w) v now) t1 = (Inr (), t3)"
    and 4: "update_backend (mb_register_timer ops (cleanup_time op w) (Inr w) EVENT_TIME) t3 = (Inr (), t')"
    by (auto simp: add_to_window_def sbind_Inr add_row_def)
  note b1 = get_becomes [OF g 1]
  have g1: "good t1" "selected (mt_backend t1) = Some k" using b1 g(2) by (simp_all add: becomes_def)
  note b3 = set_becomes [OF g1 g(3) 3]
  have g3: "good t3" "selected (mt_backend t3) = Some k" using b3 g1 by (simp_all add: becomes_def)
  note b4 = register_becomes [OF g3 4]
  show ?thesis using b1 b3 b4 v by (auto simp: becomes_def)
qed

definition accepted_windows :: "int \<Rightarrow> time_window list \<Rightarrow> time_window set" where
  "accepted_windows wm ws = {w \<in> set ws. wm < cleanup_time op w}"

lemma process_windows_becomes:
  assumes plain: "\<not> is_merging (wo_assigner op)" and now: "0 \<le> now"
  shows "good t \<Longrightarrow> selected (mt_backend t) = Some k \<Longrightarrow> distinct ws \<Longrightarrow>
    process_windows ops op now row ws late t = (Inr late', t') \<Longrightarrow>
    \<exists>C. becomes t C (timers (mt_backend t) \<union> window_timer op k ` accepted_windows (mt_watermark t) ws) t' \<and>
      (\<forall>w \<in> accepted_windows (mt_watermark t) ws. \<exists>v. add_row op (cell (mt_backend t) k (Inr w)) row = Inr v \<and> C k (Inr w) = Some v) \<and>
      (\<forall>k' ns. (k', ns) \<notin> (\<lambda>w. (k, Inr w)) ` accepted_windows (mt_watermark t) ws \<longrightarrow> C k' ns = cell (mt_backend t) k' ns) \<and>
      (late' \<longleftrightarrow> late \<or> (\<exists>w \<in> set ws. cleanup_time op w \<le> mt_watermark t))"
proof (induction ws arbitrary: late t)
  case Nil
  then show ?case by (auto simp: becomes_def accepted_windows_def)
next
  case (Cons w ws)
  show ?case
  proof (cases "cleanup_time op w \<le> mt_watermark t")
    case True
    then have run: "process_windows ops op now row ws True t = (Inr late', t')"
      using Cons.prems(4) plain by (simp add: session_merge_plan_def)
    have acc: "accepted_windows (mt_watermark t) (w # ws) = accepted_windows (mt_watermark t) ws"
      using True by (auto simp: accepted_windows_def)
    from Cons.IH [OF Cons.prems(1,2) _ run] Cons.prems(3) True show ?thesis unfolding acc by auto
  next
    case False
    then obtain t1 where 1: "add_to_window ops op now row w t = (Inr (), t1)"
      and run: "process_windows ops op now row ws late t1 = (Inr late', t')"
      using Cons.prems(4) plain by (auto simp: session_merge_plan_def merge_session_windows_def sbind_Inr)
    obtain v where v: "add_row op (cell (mt_backend t) k (Inr w)) row = Inr v"
      and b: "becomes t ((cell (mt_backend t))(k := (cell (mt_backend t) k)(Inr w \<mapsto> v))) (insert (window_timer op k w) (timers (mt_backend t))) t1"
      using add_to_window_becomes [OF Cons.prems(1,2) now 1] by blast
    have g1: "good t1" "selected (mt_backend t1) = Some k" "mt_watermark t1 = mt_watermark t" using b Cons.prems(2) by (simp_all add: becomes_def)
    have "distinct ws" "w \<notin> set ws" using Cons.prems(3) by simp_all
    obtain C where C: "becomes t1 C (timers (mt_backend t1) \<union> window_timer op k ` accepted_windows (mt_watermark t) ws) t'"
      "\<forall>x \<in> accepted_windows (mt_watermark t) ws. \<exists>v. add_row op (cell (mt_backend t1) k (Inr x)) row = Inr v \<and> C k (Inr x) = Some v"
      "\<forall>k' ns. (k', ns) \<notin> (\<lambda>w. (k, Inr w)) ` accepted_windows (mt_watermark t) ws \<longrightarrow> C k' ns = cell (mt_backend t1) k' ns"
      "late' \<longleftrightarrow> late \<or> (\<exists>w \<in> set ws. cleanup_time op w \<le> mt_watermark t)"
      using Cons.IH [OF g1(1,2) \<open>distinct ws\<close> run] unfolding g1(3) by blast
    have acc: "accepted_windows (mt_watermark t) (w # ws) = insert w (accepted_windows (mt_watermark t) ws)"
      using False by (auto simp: accepted_windows_def)
    have not: "w \<notin> accepted_windows (mt_watermark t) ws" using \<open>w \<notin> set ws\<close> by (simp add: accepted_windows_def)
    have c1: "cell (mt_backend t1) = (cell (mt_backend t))(k := (cell (mt_backend t) k)(Inr w \<mapsto> v))"
      "timers (mt_backend t1) = insert (window_timer op k w) (timers (mt_backend t))" using b by (simp_all add: becomes_def)
    have "(k, Inr w) \<notin> (\<lambda>w. (k, Inr w)) ` accepted_windows (mt_watermark t) ws" using not by auto
    then have "C k (Inr w) = cell (mt_backend t1) k (Inr w)" using C(3) by blast
    then have Cw: "C k (Inr w) = Some v" by (simp add: c1)
    have "becomes t C (timers (mt_backend t) \<union> window_timer op k ` accepted_windows (mt_watermark t) (w # ws)) t'"
      using C(1) b unfolding acc by (auto simp: becomes_def)
    moreover have "\<forall>x \<in> accepted_windows (mt_watermark t) (w # ws). \<exists>v. add_row op (cell (mt_backend t) k (Inr x)) row = Inr v \<and> C k (Inr x) = Some v"
    proof
      fix x assume x: "x \<in> accepted_windows (mt_watermark t) (w # ws)"
      show "\<exists>v. add_row op (cell (mt_backend t) k (Inr x)) row = Inr v \<and> C k (Inr x) = Some v"
      proof (cases "x = w")
        case False
        with x C(2) c1(1) show ?thesis unfolding acc by auto
      qed (use v Cw in simp)
    qed
    moreover have "C k' ns = cell (mt_backend t) k' ns" if "(k', ns) \<notin> (\<lambda>w. (k, Inr w)) ` accepted_windows (mt_watermark t) (w # ws)" for k' ns
    proof -
      have "(k', ns) \<noteq> (k, Inr w)" "(k', ns) \<notin> (\<lambda>w. (k, Inr w)) ` accepted_windows (mt_watermark t) ws" using that unfolding acc by auto
      then show ?thesis using C(3) c1(1) by auto
    qed
    ultimately show ?thesis using C(4) False by auto
  qed
qed

text \<open>A timer empties its cell and emits what it held.\<close>

definition output_of :: "('k state_id \<Rightarrow> 'k state_id \<Rightarrow> 'v option) \<Rightarrow> 'k state_id timer_event \<Rightarrow> 'r list" where
  "output_of C ev = (case C (timer_key ev) (timer_namespace ev) of None \<Rightarrow> [] | Some v \<Rightarrow> emitted_records (wo_view op v))"

definition address :: "'k state_id timer_event \<Rightarrow> 'k state_id \<times> 'k state_id" where
  "address ev = (timer_key ev, timer_namespace ev)"

lemma timer_becomes:
  assumes g: "good t" "selected (mt_backend t) = Some (timer_key ev)" "0 \<le> now" and d: "timer_event_domain ev = EVENT_TIME"
    and run: "window_on_timer ops op now ev t = (Inr (), t')"
  shows "good t' \<and> cell (mt_backend t') = (\<lambda>k ns. if (k, ns) = address ev then None else cell (mt_backend t) k ns) \<and>
    timers (mt_backend t') = timers (mt_backend t) \<and> mt_watermark t' = mt_watermark t \<and> mt_late t' = mt_late t \<and>
    mt_collected t' = mt_collected t @ output_of (cell (mt_backend t)) ev"
proof -
  let ?C = "cell (mt_backend t)" and ?k = "timer_key ev" and ?ns = "timer_namespace ev"
  obtain v t1 where 1: "on_backend (value_get ops (wo_state op) ?ns now) t = (Inr v, t1)"
    and rest: "(case v of None \<Rightarrow> (Inr (), t1) | Some x \<Rightarrow>
      sbind (on_backend (value_clear ops (wo_state op) ?ns) t1) (\<lambda>_ t2. emit_result (wo_view op x) t2)) = (Inr (), t')"
    using run d by (auto simp: window_on_timer_def sbind_Inr)
  note b1 = get_becomes [OF g 1]
  show ?thesis
  proof (cases v)
    case None
    then have "?C ?k ?ns = None" "t' = t1" using b1 rest by auto
    then show ?thesis using b1 by (auto simp: becomes_def output_of_def address_def fun_eq_iff)
  next
    case (Some x)
    with rest obtain t2 where 2: "on_backend (value_clear ops (wo_state op) ?ns) t1 = (Inr (), t2)"
      and e: "emit_result (wo_view op x) t2 = (Inr (), t')" by (auto simp: sbind_Inr)
    have g1: "good t1" "selected (mt_backend t1) = Some ?k" using b1 g(2) by (simp_all add: becomes_def)
    note b2 = clear_becomes [OF g1 2]
    have "?C ?k ?ns = Some x" using b1 Some by simp
    moreover have "cell (mt_backend t1) = ?C" using b1 by (simp add: becomes_def)
    ultimately show ?thesis
      using b1 b2 emit_result_spec(1) [OF e] by (auto simp: becomes_def good_def output_of_def address_def fun_eq_iff)
  qed
qed

lemma fire_timers_becomes:
  assumes "good t" "0 \<le> now" "distinct (map address evs)" "\<forall>ev \<in> set evs. timer_event_domain ev = EVENT_TIME"
    "fire_timers ops (window_on_timer ops op now) evs t = (Inr (), t')"
  shows "good t' \<and> cell (mt_backend t') = (\<lambda>k ns. if (k, ns) \<in> address ` set evs then None else cell (mt_backend t) k ns) \<and>
    timers (mt_backend t') = timers (mt_backend t) \<and> mt_watermark t' = mt_watermark t \<and> mt_late t' = mt_late t \<and>
    mt_collected t' = mt_collected t @ concat (map (output_of (cell (mt_backend t))) evs)"
  using assms
proof (induction evs arbitrary: t)
  case Nil
  then show ?case by (auto simp: fun_eq_iff)
next
  case (Cons ev evs)
  let ?t0 = "bind_context ops (timer_key ev) (Some (timer_timestamp ev)) t"
  have t0: "good ?t0" "selected (mt_backend ?t0) = Some (timer_key ev)" "cell (mt_backend ?t0) = cell (mt_backend t)"
    "timers (mt_backend ?t0) = timers (mt_backend t)" "mt_watermark ?t0 = mt_watermark t" "mt_late ?t0 = mt_late t"
    "mt_collected ?t0 = mt_collected t"
    using select [OF Cons.prems(1) [unfolded good_def]] by (simp_all add: bind_context_def good_def)
  obtain t1 where 1: "window_on_timer ops op now ev ?t0 = (Inr (), t1)"
    and run: "fire_timers ops (window_on_timer ops op now) evs t1 = (Inr (), t')"
    using Cons.prems(5) by (auto simp: sbind_Inr)
  have "timer_event_domain ev = EVENT_TIME" using Cons.prems(4) by simp
  note b1 = timer_becomes [OF t0(1,2) Cons.prems(2) this 1, unfolded t0]
  have d: "distinct (map address evs)" "\<forall>ev \<in> set evs. timer_event_domain ev = EVENT_TIME" "address ev \<notin> address ` set evs"
    using Cons.prems(3,4) by auto
  note IH = Cons.IH [OF conjunct1 [OF b1] Cons.prems(2) d(1,2) run]
  have "output_of (cell (mt_backend t1)) x = output_of (cell (mt_backend t)) x" if "x \<in> set evs" for x
  proof -
    have "address x \<noteq> address ev" using d(3) that by (metis image_eqI)
    then have "cell (mt_backend t1) (timer_key x) (timer_namespace x) = cell (mt_backend t) (timer_key x) (timer_namespace x)"
      using b1 unfolding address_def by auto
    then show ?thesis by (simp add: output_of_def)
  qed
  then have maps: "map (output_of (cell (mt_backend t1))) evs = map (output_of (cell (mt_backend t))) evs" by simp
  have "mt_collected t' = mt_collected t1 @ concat (map (output_of (cell (mt_backend t1))) evs)" using IH by blast
  then have "mt_collected t' = mt_collected t @ concat (map (output_of (cell (mt_backend t))) (ev # evs))"
    using b1 unfolding maps by simp
  moreover have "cell (mt_backend t') = (\<lambda>k ns. if (k, ns) \<in> address ` set (ev # evs) then None else cell (mt_backend t) k ns)"
    using IH b1 by (auto simp: fun_eq_iff)
  ultimately show ?case using IH b1 by simp
qed

lemma pop_becomes:
  assumes "good t" "pop_due ops ts td t = (Inr evs, t')"
  shows "distinct evs \<and> sorted (map timer_timestamp evs) \<and>
    set evs = {ev \<in> timers (mt_backend t). timer_event_domain ev = td \<and> timer_timestamp ev \<le> ts} \<and>
    becomes t (cell (mt_backend t)) (timers (mt_backend t) - set evs) t'"
proof -
  obtain s' where p: "mb_pop_due_timers ops ts td None (mt_backend t) = Inr (evs, s')" and t': "t' = t\<lparr>mt_backend := s'\<rparr>"
    using assms(2) by (auto simp: pop_due_def split: sum.splits)
  from pop [OF assms(1) [unfolded good_def] p] show ?thesis by (simp add: becomes_def good_def t')
qed

lemma cleanup_becomes:
  assumes "good t" "cleanup_task ops limit now t = (Inr (), t')"
  shows "becomes t (cell (mt_backend t)) (timers (mt_backend t)) t'"
proof -
  obtain n s' where p: "mb_cleanup_expired ops now (Some limit) (mt_backend t) = (Inr n, s')" and t': "t' = t\<lparr>mt_backend := s'\<rparr>"
    using assms(2) by (auto simp: cleanup_task_def on_backend_def sbind_Inr split: prod.splits)
  from cleanup [OF assms(1) [unfolded good_def] p] show ?thesis by (simp add: becomes_def good_def t')
qed

text \<open>The invariant of a run, for windows closed up to \<open>B\<close>; \<open>G\<close> lists the windows that have fired with their values.\<close>

definition results_ok :: "('k, 'v) arrivals \<Rightarrow> int \<Rightarrow> (('k state_id \<times> time_window) \<times> 'v) list \<Rightarrow> ('s, 'r) managed_task \<Rightarrow> bool" where
  "results_ok h B G t \<longleftrightarrow> distinct (map fst G) \<and>
     (\<forall>k w v. ((k, w), v) \<in> set G \<longleftrightarrow> cleanup_time op w \<le> B \<and> reduce_rows op (accepted_rows op h k w) = Inr (Some v)) \<and>
     mt_collected t = concat (map (\<lambda>(_, v). emitted_records (wo_view op v)) G)"

definition open_timers :: "('k, 'v) arrivals \<Rightarrow> int \<Rightarrow> 'k state_id timer_event set" where
  "open_timers h B = {ev. \<exists>k w. ev = window_timer op k w \<and> accepted_rows op h k w \<noteq> [] \<and> B < cleanup_time op w}"

definition run_inv :: "('k, 'v) arrivals \<Rightarrow> int \<Rightarrow> ('s, 'r) managed_task \<Rightarrow> bool" where
  "run_inv h B t \<longleftrightarrow> good t \<and>
     (\<forall>k w. \<exists>x. reduce_rows op (accepted_rows op h k w) = Inr x \<and>
        cell (mt_backend t) k (Inr w) = (if cleanup_time op w \<le> B then None else x)) \<and>
     timers (mt_backend t) = open_timers h B \<and> (\<exists>G. results_ok h B G t)"

lemma run_inv_becomes:
  assumes "run_inv h B t" "becomes t (cell (mt_backend t)) (timers (mt_backend t)) t'"
  shows "run_inv h B t'"
  using assms unfolding run_inv_def becomes_def results_ok_def by simp

lemma address_window_timer [simp]: "address (window_timer op k w) = (k, Inr w)"
  by (simp add: address_def window_timer_def)

lemma window_timer_simps [simp]: "timer_timestamp (window_timer op k w) = cleanup_time op w"
  "timer_event_domain (window_timer op k w) = EVENT_TIME" "timer_key (window_timer op k w) = k"
  "timer_namespace (window_timer op k w) = Inr w"
  by (simp_all add: window_timer_def)

lemma window_timer_inj [simp]: "window_timer op k w = window_timer op k' w' \<longleftrightarrow> k = k' \<and> w = w'"
  by (auto simp: window_timer_def)

lemma no_processing_timers:
  assumes "run_inv h B t" "pop_due ops ts PROCESSING_TIME t = (Inr evs, t')"
  shows "evs = [] \<and> run_inv h B t' \<and> mt_watermark t' = mt_watermark t"
proof -
  have "good t" using assms(1) by (simp add: run_inv_def)
  note p = pop_becomes [OF this assms(2)]
  have "set evs = {}" using p assms(1) by (auto simp: run_inv_def open_timers_def)
  then have "evs = []" by simp
  moreover have "becomes t (cell (mt_backend t)) (timers (mt_backend t)) t'" using p \<open>set evs = {}\<close> by simp
  ultimately show ?thesis using run_inv_becomes [OF assms(1)] by (simp add: becomes_def)
qed

lemma run_inv_fire:
  assumes inv: "run_inv h B t" and now: "0 \<le> now" and pop: "pop_due ops P EVENT_TIME t = (Inr evs, t1)"
    and fire: "fire_timers ops (window_on_timer ops op now) evs t1 = (Inr (), t2)"
  shows "run_inv h (max B P) t2 \<and> mt_watermark t2 = mt_watermark t"
proof -
  have g: "good t" using inv by (simp add: run_inv_def)
  note p = pop_becomes [OF g pop]
  have "set evs = {ev \<in> open_timers h B. timer_event_domain ev = EVENT_TIME \<and> timer_timestamp ev \<le> P}"
    using p inv by (simp add: run_inv_def)
  then have due_iff: "ev \<in> set evs \<longleftrightarrow> ev \<in> open_timers h B \<and> timer_event_domain ev = EVENT_TIME \<and> timer_timestamp ev \<le> P" for ev
    by simp
  have due: "ev \<in> set evs \<longleftrightarrow> (\<exists>k w. ev = window_timer op k w \<and> accepted_rows op h k w \<noteq> [] \<and> B < cleanup_time op w \<and> cleanup_time op w \<le> P)" for ev
  proof
    assume "ev \<in> set evs"
    then obtain k w where "ev = window_timer op k w" "accepted_rows op h k w \<noteq> []" "B < cleanup_time op w" "timer_timestamp ev \<le> P"
      unfolding due_iff open_timers_def by blast
    then show "\<exists>k w. ev = window_timer op k w \<and> accepted_rows op h k w \<noteq> [] \<and> B < cleanup_time op w \<and> cleanup_time op w \<le> P"
      by (intro exI [of _ k] exI [of _ w]) simp
  next
    assume "\<exists>k w. ev = window_timer op k w \<and> accepted_rows op h k w \<noteq> [] \<and> B < cleanup_time op w \<and> cleanup_time op w \<le> P"
    then obtain k w where w: "ev = window_timer op k w" "accepted_rows op h k w \<noteq> []" "B < cleanup_time op w" "cleanup_time op w \<le> P" by blast
    then have "ev \<in> open_timers h B" unfolding open_timers_def by blast
    then show "ev \<in> set evs" using w by (simp add: due_iff)
  qed
  have inj: "inj_on address (set evs)"
  proof (rule inj_onI)
    fix x y assume "x \<in> set evs" "y \<in> set evs" and eq: "address x = address y"
    then obtain k w k' w' where "x = window_timer op k w" "y = window_timer op k' w'" unfolding due by blast
    with eq show "x = y" by simp
  qed
  then have dist: "distinct (map address evs)" using p by (simp add: distinct_map)
  have ev: "\<forall>ev \<in> set evs. timer_event_domain ev = EVENT_TIME" using due by auto
  have t1: "good t1" "cell (mt_backend t1) = cell (mt_backend t)" "timers (mt_backend t1) = timers (mt_backend t) - set evs"
    "mt_watermark t1 = mt_watermark t" "mt_collected t1 = mt_collected t" using p by (simp_all add: becomes_def)
  note f = fire_timers_becomes [OF t1(1) now dist ev fire, unfolded t1]
  have fired: "(k, Inr w) \<in> address ` set evs \<longleftrightarrow> accepted_rows op h k w \<noteq> [] \<and> B < cleanup_time op w \<and> cleanup_time op w \<le> P" for k w
  proof
    assume "(k, Inr w) \<in> address ` set evs"
    then obtain ev where "ev \<in> set evs" "address ev = (k, Inr w)" by (metis imageE)
    then show "accepted_rows op h k w \<noteq> [] \<and> B < cleanup_time op w \<and> cleanup_time op w \<le> P" unfolding due by auto
  next
    assume "accepted_rows op h k w \<noteq> [] \<and> B < cleanup_time op w \<and> cleanup_time op w \<le> P"
    then have "window_timer op k w \<in> set evs" unfolding due by blast
    then show "(k, Inr w) \<in> address ` set evs" by (metis address_window_timer image_eqI)
  qed
  have cells: "\<exists>x. reduce_rows op (accepted_rows op h k w) = Inr x \<and>
      cell (mt_backend t2) k (Inr w) = (if cleanup_time op w \<le> max B P then None else x)" for k w
  proof -
    obtain x where x: "reduce_rows op (accepted_rows op h k w) = Inr x"
      "cell (mt_backend t) k (Inr w) = (if cleanup_time op w \<le> B then None else x)" using inv unfolding run_inv_def by blast
    have "cell (mt_backend t2) k (Inr w) = (if (k, Inr w) \<in> address ` set evs then None else cell (mt_backend t) k (Inr w))"
      using f by simp
    then show ?thesis using x reduce_rows_None [OF x(1)] unfolding fired by (intro exI [of _ x]) auto
  qed
  have tms: "timers (mt_backend t2) = open_timers h (max B P)"
  proof -
    have T: "timers (mt_backend t2) = open_timers h B - set evs" using f inv by (simp add: run_inv_def)
    show ?thesis unfolding T by (rule set_eqI) (auto simp: due open_timers_def)
  qed
  obtain G where G: "results_ok h B G t" using inv unfolding run_inv_def by blast
  define new where "new = map (\<lambda>ev. ((timer_key ev, projr (timer_namespace ev)), the (cell (mt_backend t) (timer_key ev) (timer_namespace ev)))) evs"
  have held: "cell (mt_backend t) k (Inr w) = Some v \<longleftrightarrow> reduce_rows op (accepted_rows op h k w) = Inr (Some v)" if w: "B < cleanup_time op w" for k w v
  proof -
    obtain x where "reduce_rows op (accepted_rows op h k w) = Inr x" "cell (mt_backend t) k (Inr w) = x"
      using inv w unfolding run_inv_def by (metis linorder_not_less)
    then show ?thesis by simp
  qed
  have stored: "\<exists>v. cell (mt_backend t) (timer_key ev) (timer_namespace ev) = Some v" if "ev \<in> set evs" for ev
  proof -
    from that obtain k w where ev: "ev = window_timer op k w" "accepted_rows op h k w \<noteq> []" "B < cleanup_time op w" unfolding due by blast
    obtain x where "reduce_rows op (accepted_rows op h k w) = Inr x" using inv unfolding run_inv_def by blast
    with reduce_rows_None [OF this] ev(2) held [OF ev(3), of k] show ?thesis by (auto simp: ev(1))
  qed
  have keys: "fst ` set new = {(k, w). accepted_rows op h k w \<noteq> [] \<and> B < cleanup_time op w \<and> cleanup_time op w \<le> P}"
    unfolding new_def using due by (force simp: image_image)
  have mem: "((k, w), v) \<in> set new \<longleftrightarrow> B < cleanup_time op w \<and> cleanup_time op w \<le> P \<and> reduce_rows op (accepted_rows op h k w) = Inr (Some v)" for k w v
  proof
    assume "((k, w), v) \<in> set new"
    then obtain ev where ev: "ev \<in> set evs" "k = timer_key ev" "w = projr (timer_namespace ev)" "v = the (cell (mt_backend t) (timer_key ev) (timer_namespace ev))"
      unfolding new_def by auto
    then obtain u where u: "cell (mt_backend t) (timer_key ev) (timer_namespace ev) = Some u" using stored by blast
    from ev(1) obtain k' w' where w: "ev = window_timer op k' w'" "B < cleanup_time op w'" "cleanup_time op w' \<le> P" unfolding due by blast
    then have "k' = k" "w' = w" "u = v" using ev u by simp_all
    with u w held [OF w(2)] show "B < cleanup_time op w \<and> cleanup_time op w \<le> P \<and> reduce_rows op (accepted_rows op h k w) = Inr (Some v)" by simp
  next
    assume a: "B < cleanup_time op w \<and> cleanup_time op w \<le> P \<and> reduce_rows op (accepted_rows op h k w) = Inr (Some v)"
    then have "window_timer op k w \<in> set evs" using reduce_rows_None unfolding due by blast
    moreover have "cell (mt_backend t) k (Inr w) = Some v" using a held by blast
    ultimately show "((k, w), v) \<in> set new" unfolding new_def by force
  qed
  have fst_new: "map fst new = map ((\<lambda>(k, ns). (k, projr ns)) \<circ> address) evs" by (simp add: new_def address_def)
  have "inj_on ((\<lambda>(k, ns). (k, projr ns)) \<circ> address) (set evs)"
  proof (rule inj_onI)
    fix x y assume "x \<in> set evs" "y \<in> set evs" and eq: "((\<lambda>(k, ns). (k, projr ns)) \<circ> address) x = ((\<lambda>(k, ns). (k, projr ns)) \<circ> address) y"
    then obtain k w k' w' where "x = window_timer op k w" "y = window_timer op k' w'" unfolding due by blast
    with eq show "x = y" by simp
  qed
  then have "distinct (map fst new)" using p unfolding fst_new by (simp add: distinct_map)
  moreover have "fst ` set G \<inter> fst ` set new = {}"
  proof -
    have "cleanup_time op w \<le> B" if "((k, w), v) \<in> set G" for k w v using that G unfolding results_ok_def by blast
    then have "fst ` set G \<subseteq> {(k, w). cleanup_time op w \<le> B}" by auto
    then show ?thesis unfolding keys by auto
  qed
  moreover have "distinct (map fst G)" using G unfolding results_ok_def by blast
  ultimately have "distinct (map fst (G @ new))" by simp
  moreover have "concat (map (output_of (cell (mt_backend t))) evs) = concat (map (\<lambda>(_, v). emitted_records (wo_view op v)) new)"
  proof -
    have "output_of (cell (mt_backend t)) ev =
        (\<lambda>(_, v). emitted_records (wo_view op v)) ((timer_key ev, projr (timer_namespace ev)), the (cell (mt_backend t) (timer_key ev) (timer_namespace ev)))"
      if "ev \<in> set evs" for ev using stored [OF that] by (auto simp: output_of_def)
    then show ?thesis unfolding new_def by (simp add: comp_def cong: map_cong)
  qed
  then have "mt_collected t2 = concat (map (\<lambda>(_, v). emitted_records (wo_view op v)) (G @ new))"
    using f G by (simp add: results_ok_def)
  moreover have "((k, w), v) \<in> set (G @ new) \<longleftrightarrow> cleanup_time op w \<le> max B P \<and> reduce_rows op (accepted_rows op h k w) = Inr (Some v)" for k w v
    using G mem [of k w v] unfolding results_ok_def by auto
  ultimately have "results_ok h (max B P) (G @ new) t2" unfolding results_ok_def by blast
  then show ?thesis using f cells tms unfolding run_inv_def by blast
qed

lemma run_inv_record:
  assumes inv: "run_inv h (mt_watermark t) t" and now: "0 \<le> now"
    and a: "valid_assigner (wo_assigner op)" "\<not> is_merging (wo_assigner op)"
    and key: "mc_key_and_timestamp cfg r = Inr (k, PInt ts)" and run: "process_element ops cfg (window_hooks ops op now) now r t = (Inr (), t')"
  shows "run_inv (h @ [(k, ts, in_block r, mt_watermark t)]) (mt_watermark t) t' \<and> mt_watermark t' = mt_watermark t"
proof -
  let ?t0 = "bind_context ops k (Some ts) t" and ?wm = "mt_watermark t" and ?row = "in_block r"
  let ?h = "h @ [(k, ts, ?row, ?wm)]"
  have g: "good t" using inv by (simp add: run_inv_def)
  obtain t1 evs t2 t3 where 1: "window_process ops op now r ?t0 = (Inr (), t1)"
    and 2: "pop_due ops now PROCESSING_TIME t1 = (Inr evs, t2)"
    and 3: "fire_timers ops (window_on_timer ops op now) evs t2 = (Inr (), t3)"
    and 4: "cleanup_task ops (mc_cleanup_limit cfg) now t3 = (Inr (), t')"
    using run key
    by (auto simp: window_hooks_def no_maintenance_def process_element_def check_timestamp_def sbind_Inr result_simps split: sum.splits if_splits)
  have t0: "good ?t0" "selected (mt_backend ?t0) = Some k" "cell (mt_backend ?t0) = cell (mt_backend t)"
    "timers (mt_backend ?t0) = timers (mt_backend t)" "mt_watermark ?t0 = ?wm" "mt_collected ?t0 = mt_collected t" "mt_timestamp ?t0 = Some ts"
    using select [OF g [unfolded good_def]] by (simp_all add: bind_context_def good_def)
  obtain ws where ws: "assign_windows (wo_assigner op) ts = Inr ws" "distinct ws" "set ws = {w. window_of (wo_assigner op) ts w}"
    using assign_windows_spec [OF a(1)] by blast
  obtain late t1' where p: "process_windows ops op now ?row ws False ?t0 = (Inr late, t1')"
    and t1: "t1 = (if late then record_late_drop t1' else t1')"
  proof -
    have "sbind (process_windows ops op now ?row ws False ?t0) (\<lambda>late t1. (Inr (), if late then record_late_drop t1 else t1)) = (Inr (), t1)"
      using 1 ws(1) t0(7) by (simp add: window_process_def split: if_split_asm)
    then show thesis using that unfolding sbind_Inr by auto
  qed
  let ?A = "accepted_windows ?wm ws"
  obtain C where C: "becomes ?t0 C (timers (mt_backend t) \<union> window_timer op k ` ?A) t1'"
    "\<forall>w \<in> ?A. \<exists>v. add_row op (cell (mt_backend t) k (Inr w)) ?row = Inr v \<and> C k (Inr w) = Some v"
    "\<forall>k' ns. (k', ns) \<notin> (\<lambda>w. (k, Inr w)) ` ?A \<longrightarrow> C k' ns = cell (mt_backend t) k' ns"
    using process_windows_becomes [OF a(2) now t0(1,2) ws(2) p] unfolding t0 by blast
  have A: "w \<in> ?A \<longleftrightarrow> window_of (wo_assigner op) ts w \<and> ?wm < cleanup_time op w" for w
    by (simp add: accepted_windows_def ws(3))
  have rows: "accepted_rows op ?h k' w = accepted_rows op h k' w @ (if k' = k \<and> w \<in> ?A then [?row] else [])" for k' w
    by (auto simp: accepted_rows_snoc A)
  have t1s: "good t1" "cell (mt_backend t1) = C" "timers (mt_backend t1) = timers (mt_backend t) \<union> window_timer op k ` ?A"
    "mt_watermark t1 = ?wm" "mt_collected t1 = mt_collected t"
    using C(1) t0 t1 by (auto simp: becomes_def good_def record_late_drop_def)
  have cells: "\<exists>x. reduce_rows op (accepted_rows op ?h k' w) = Inr x \<and> C k' (Inr w) = (if cleanup_time op w \<le> ?wm then None else x)" for k' w
  proof -
    obtain x where x: "reduce_rows op (accepted_rows op h k' w) = Inr x"
      "cell (mt_backend t) k' (Inr w) = (if cleanup_time op w \<le> ?wm then None else x)" using inv unfolding run_inv_def by blast
    show ?thesis
    proof (cases "k' = k \<and> w \<in> ?A")
      case True
      then have "cell (mt_backend t) k' (Inr w) = x" using x(2) A [of w] by auto
      with C(2) True obtain v where "add_row op x ?row = Inr v" "C k' (Inr w) = Some v" by metis
      then show ?thesis using True x(1) A [of w] by (auto simp: rows reduce_rows_snoc)
    next
      case False
      then have "C k' (Inr w) = cell (mt_backend t) k' (Inr w)" using C(3) by blast
      moreover have "accepted_rows op ?h k' w = accepted_rows op h k' w" using False by (simp add: rows)
      ultimately show ?thesis using x by metis
    qed
  qed
  have tms: "timers (mt_backend t1) = open_timers ?h ?wm"
  proof -
    have "timers (mt_backend t) = open_timers h ?wm" using inv by (simp add: run_inv_def)
    moreover have "accepted_rows op ?h k' w \<noteq> [] \<longleftrightarrow> accepted_rows op h k' w \<noteq> [] \<or> k' = k \<and> w \<in> ?A" for k' w by (auto simp: rows)
    ultimately show ?thesis unfolding t1s(3) open_timers_def using A by blast
  qed
  obtain G where G: "results_ok h ?wm G t" using inv unfolding run_inv_def by blast
  have "accepted_rows op ?h k' w = accepted_rows op h k' w" if "cleanup_time op w \<le> ?wm" for k' w
    using that A [of w] by (simp add: rows)
  then have "results_ok ?h ?wm G t1" using G t1s(5) unfolding results_ok_def by (metis (no_types, lifting))
  then have inv1: "run_inv ?h ?wm t1" using t1s cells tms unfolding run_inv_def by blast
  from no_processing_timers [OF inv1 2] have "evs = []" and inv2: "run_inv ?h ?wm t2" "mt_watermark t2 = ?wm" using t1s(4) by simp_all
  then have "t3 = t2" using 3 by simp
  then have "becomes t2 (cell (mt_backend t2)) (timers (mt_backend t2)) t'" using cleanup_becomes [of t3] 4 inv2 by (simp add: run_inv_def)
  with run_inv_becomes [OF inv2(1)] inv2(2) show ?thesis by (simp add: becomes_def)
qed

lemma run_inv_idle:
  assumes inv: "run_inv h B t" and run: "on_idle ops cfg (window_hooks ops op now) now t = (Inr (), t')"
  shows "run_inv h B t' \<and> mt_watermark t' = mt_watermark t"
proof -
  obtain evs t2 t3 where 2: "pop_due ops now PROCESSING_TIME t = (Inr evs, t2)"
    and 3: "fire_timers ops (window_on_timer ops op now) evs t2 = (Inr (), t3)"
    and 4: "cleanup_task ops (mc_cleanup_limit cfg) now t3 = (Inr (), t')"
    using run by (auto simp: window_hooks_def on_idle_def sbind_Inr)
  from no_processing_timers [OF inv 2] have "evs = []" and inv2: "run_inv h B t2" "mt_watermark t2 = mt_watermark t" by simp_all
  then have "t3 = t2" using 3 by simp
  then have "becomes t2 (cell (mt_backend t2)) (timers (mt_backend t2)) t'" using cleanup_becomes [of t3] 4 inv2 by (simp add: run_inv_def)
  with run_inv_becomes [OF inv2(1)] inv2(2) show ?thesis by (simp add: becomes_def)
qed

lemma run_inv_watermark:
  assumes inv: "run_inv h (mt_watermark t) t" and now: "0 \<le> now" and run: "on_event_time_watermark ops cfg (window_hooks ops op now) now ts t = (Inr (), t')"
  shows "run_inv h (mt_watermark t') t' \<and> mt_watermark t' = max (mt_watermark t) ts"
proof -
  obtain evs t1 t2 where 1: "advance_watermark ops ts t = (Inr evs, t1)"
    and 2: "fire_timers ops (window_on_timer ops op now) evs t1 = (Inr (), t2)"
    and 3: "cleanup_task ops (mc_cleanup_limit cfg) now t2 = (Inr (), t')"
    using run by (auto simp: window_hooks_def no_maintenance_def on_event_time_watermark_def sbind_Inr)
  have "run_inv h (max (mt_watermark t) ts) t2 \<and> mt_watermark t2 = max (mt_watermark t) ts"
  proof (cases "ts \<le> mt_watermark t")
    case True
    then have "t2 = t" using 1 2 by (auto simp: advance_watermark_def)
    then show ?thesis using inv True by (simp add: max_def)
  next
    case False
    let ?t = "t\<lparr>mt_watermark := ts\<rparr>"
    have "run_inv h (mt_watermark t) ?t" using inv unfolding run_inv_def good_def results_ok_def by simp
    moreover have "pop_due ops ts EVENT_TIME ?t = (Inr evs, t1)" using 1 False by (simp add: advance_watermark_def pop_due_def Let_def)
    ultimately show ?thesis using run_inv_fire [OF _ now _ 2] False by fastforce
  qed
  then have t2: "run_inv h (max (mt_watermark t) ts) t2" "mt_watermark t2 = max (mt_watermark t) ts" by simp_all
  have "becomes t2 (cell (mt_backend t2)) (timers (mt_backend t2)) t'" using cleanup_becomes [OF _ 3] t2(1) by (simp add: run_inv_def)
  with run_inv_becomes [OF t2(1)] t2(2) show ?thesis by (simp add: becomes_def)
qed

lemma window_run_inv:
  assumes "window_run ops cfg op t0 h ended t" "good t0" "timers (mt_backend t0) = {}" "\<And>k w. cell (mt_backend t0) k (Inr w) = None"
    "mt_collected t0 = []" "valid_assigner (wo_assigner op)" "\<not> is_merging (wo_assigner op)"
  shows "run_inv h (fired_up_to ended t) t"
  using assms(1)
proof (induction rule: window_run.induct)
  case window_start
  have "results_ok [] (mt_watermark t0) [] t0" using assms(5) by (simp add: results_ok_def accepted_rows_def reduce_rows_def)
  then show ?case
    using assms(2-4) unfolding run_inv_def fired_up_to_def by (auto simp: open_timers_def accepted_rows_def reduce_rows_def)
next
  case (window_record h t r k ts now t')
  from run_inv_record [OF _ window_record(3) assms(6,7) window_record(2,4)] window_record.IH show ?case by (simp add: fired_up_to_def)
next
  case (window_idle h t now t')
  from run_inv_idle [OF _ window_idle(3)] window_idle.IH show ?case by (auto simp: fired_up_to_def)
next
  case (window_time h t now ts t')
  have "run_inv h (mt_watermark t) t" using window_time.IH unfolding fired_up_to_def by simp
  from conjunct1 [OF run_inv_watermark [OF this window_time(2,3)]] show ?case unfolding fired_up_to_def by simp
next
  case (window_end h t now t')
  obtain evs t1 where "pop_due ops (2 ^ 63 - 1) EVENT_TIME t = (Inr evs, t1)"
    "fire_timers ops (window_on_timer ops op now) evs t1 = (Inr (), t')"
    using window_end(3) by (auto simp: window_finish_def sbind_Inr)
  from run_inv_fire [OF _ window_end(2) this] window_end.IH show ?case by (auto simp: fired_up_to_def)
qed

end


subsection \<open>Runs on the in-memory backend\<close>

interpretation memory_windows: window_store memory_backend op "memory_ok (wo_state op)" selected_key "memory_cell (wo_state op)" memory_timers
  by unfold_locales

definition fresh_task :: "'k codec \<Rightarrow> int \<Rightarrow> ('k backend, 'r) managed_task" where
  "fresh_task c wm = \<lparr>mt_backend = make_backend c, mt_watermark = wm, mt_timestamp = None, mt_late = 0, mt_collected = []\<rparr>"

definition faithful_codec :: "'k codec \<Rightarrow> bool" where
  "faithful_codec c \<longleftrightarrow> codec_ok c \<and> digest_injective c"

definition faithful_values :: "'v descriptor \<Rightarrow> bool" where
  "faithful_values d \<longleftrightarrow> desc_ttl d = None \<and> (\<forall>v. desc_loads d (desc_dumps d v) = v)"

lemma fresh_task_ok:
  assumes "faithful_codec c" "faithful_values d"
  shows "memory_ok d (mt_backend (fresh_task c wm))" "memory_cell d (mt_backend (fresh_task c wm)) k ns = None"
    "memory_timers (mt_backend (fresh_task c wm)) = {}"
  using assms make_backend_inv [of c]
  by (auto simp: fresh_task_def memory_ok_def memory_cell_def memory_timers_def faithful_codec_def faithful_values_def
      make_backend_def row_at_def split: sum.split)

lemma fresh_task_collected: "mt_collected (fresh_task c wm) = []"
  by (simp add: fresh_task_def)


text \<open>A run: two rows of one window, the watermark that closes it, a late row, a row of the next window, and the end of input.\<close>

fun id_bytes :: "unit state_id \<Rightarrow> bytes" where
  "id_bytes (Inl _) = [0]"
| "id_bytes (Inr w) = 1 # int_bytes (w_start w) @ int_bytes (w_end w)"

definition read_id :: "bytes \<Rightarrow> unit state_id \<times> bytes" where
  "read_id xs =
     (if hd xs = 0 then (Inl (), tl xs)
      else let (s, r) = read_int (tl xs); (e, r') = read_int r in (Inr \<lparr>w_start = s, w_end = e\<rparr>, r'))"

lemma read_id_bytes [simp]: "read_id (id_bytes x @ r) = (x, r)"
  by (cases x rule: id_bytes.cases) (simp_all add: read_id_def)

definition demo_window_codec :: "unit state_id codec" where
  "demo_window_codec =
     \<lparr>enc_name = map (\<lambda>ch. of_nat (of_char ch)), dec_name = map (\<lambda>b. char_of (unat b)),
      enc_key = (\<lambda>x. Inr (id_bytes x)), dec_key = (\<lambda>b. fst (read_id b)),
      enc_pair = (\<lambda>(x, y). Inr (id_bytes x @ id_bytes y)), sha256 = id,
      dump_pair = (\<lambda>(x, y). id_bytes x @ id_bytes y),
      load_pair = (\<lambda>b. let (x, r) = read_id b in (x, fst (read_id r)))\<rparr>"

definition demo_sum :: "(unit, int, int) window_operator" where
  "demo_sum = \<lparr>wo_assigner = TumblingWindow 10 0, wo_reduce = (\<lambda>x y. Inr (x + y)), wo_lateness = 0,
     wo_state = \<lparr>desc_name = ''window-aggregate'', desc_dumps = int_bytes, desc_loads = (\<lambda>b. fst (read_int b)), desc_ttl = None\<rparr>,
     wo_view = EmitRecord\<rparr>"

definition demo_config :: "(unit state_id, int) managed_config" where
  "demo_config = \<lparr>mc_key_and_timestamp = (\<lambda>r. Inr (Inl (), in_timestamp r)), mc_key_group = (\<lambda>_. Inr 0),
     mc_range = \<lparr>kgr_start = 0, kgr_end = 7\<rparr>, mc_cleanup_limit = 10\<rparr>"

abbreviation demo_ops :: "(unit state_id backend, unit state_id, int) managed_backend" where
  "demo_ops \<equiv> memory_backend"

definition demo_row :: "int \<Rightarrow> int \<Rightarrow> (unit state_id backend, int) managed_task \<Rightarrow> unit result \<times> (unit state_id backend, int) managed_task" where
  "demo_row ts x t = process_element demo_ops demo_config (window_hooks demo_ops demo_sum 1) 1 \<lparr>in_block = x, in_timestamp = PInt ts, in_tag = None\<rparr> t"

definition demo_steps :: "((unit state_id backend, int) managed_task \<Rightarrow> unit result \<times> (unit state_id backend, int) managed_task) list" where
  "demo_steps = [demo_row 3 5, demo_row 7 6, on_event_time_watermark demo_ops demo_config (window_hooks demo_ops demo_sum 1) 1 9, demo_row 4 1, demo_row 12 2,
     window_finish demo_ops demo_sum 1]"

definition demo_arrivals :: "(unit, int) arrivals" where
  "demo_arrivals = [(Inl (), 3, 5, - 1), (Inl (), 7, 6, - 1), (Inl (), 4, 1, 9), (Inl (), 12, 2, 9)]"

lemma demo_window_codec_ok: "faithful_codec demo_window_codec" "faithful_values (wo_state demo_sum)"
proof -
  have name: "map (\<lambda>b. char_of (unat b)) (map (\<lambda>ch. of_nat (of_char ch) :: byte) n) = n" for n
    by (induction n) (simp_all add: unat_of_nat)
  have key: "fst (read_id (id_bytes x)) = x" for x using read_id_bytes [of x "[]"] by simp
  have pair: "x = x' \<and> y = y'" if "id_bytes x @ id_bytes y = id_bytes x' @ id_bytes y'" for x y x' y'
    using arg_cong [OF that, of read_id] key by (metis Pair_inject read_id_bytes)
  show "faithful_codec demo_window_codec"
    unfolding faithful_codec_def codec_ok_def digest_injective_def demo_window_codec_def
    by (auto simp: key comp_def dest: pair) (use name in \<open>simp add: comp_def\<close>)
  show "faithful_values (wo_state demo_sum)"
    using read_int_bytes [of _ "[]"] by (simp add: faithful_values_def demo_sum_def)
qed

lemma demo_trace:
  "trace_steps demo_steps (fresh_task demo_window_codec (- 1)) (\<lambda>t. (mt_watermark t, mt_collected t)) =
     [(Inr (), -1, []), (Inr (), -1, []), (Inr (), 9, [11]), (Inr (), 9, [11]), (Inr (), 9, [11]), (Inr (), 9, [11, 2])]"
  by code_simp

lemma demo_window_run:
  "\<exists>t. window_run demo_ops demo_config demo_sum (fresh_task demo_window_codec (- 1)) demo_arrivals True t \<and>
     mt_watermark t = 9 \<and> mt_collected t = [11, 2]"
proof -
  let ?run = "window_run demo_ops demo_config demo_sum (fresh_task demo_window_codec (- 1))"
  have row: "?run (h @ [(Inl (), ts, x, wm)]) False t'" if "?run h False t" "demo_row ts x t = (Inr (), t')" "wm = mt_watermark t" for h t ts x wm t'
    using window_record [OF that(1), of "\<lparr>in_block = x, in_timestamp = PInt ts, in_tag = None\<rparr>" "Inl ()" ts 1 t'] that(2,3)
    by (simp add: demo_row_def demo_config_def)
  obtain t1 t2 t3 t4 t5 t6 where steps: "demo_row 3 5 (fresh_task demo_window_codec (- 1)) = (Inr (), t1)" "demo_row 7 6 t1 = (Inr (), t2)"
    "on_event_time_watermark demo_ops demo_config (window_hooks demo_ops demo_sum 1) 1 9 t2 = (Inr (), t3)" "demo_row 4 1 t3 = (Inr (), t4)"
    "demo_row 12 2 t4 = (Inr (), t5)" "window_finish demo_ops demo_sum 1 t5 = (Inr (), t6)"
    and wm: "mt_watermark t1 = - 1" "mt_watermark t3 = 9" "mt_watermark t4 = 9" "mt_watermark t6 = 9" "mt_collected t6 = [11, 2]"
    using demo_trace unfolding demo_steps_def by (auto simp: split_beta Let_def prod_eq_iff)
  have "?run [(Inl (), 3, 5, - 1)] False t1" using row [OF window_start steps(1), of "- 1"] by (simp add: fresh_task_def)
  from row [OF this steps(2), of "- 1"] have "?run [(Inl (), 3, 5, - 1), (Inl (), 7, 6, - 1)] False t2" by (simp add: wm)
  from window_time [OF this _ steps(3)] have "?run [(Inl (), 3, 5, - 1), (Inl (), 7, 6, - 1)] False t3" by simp
  from row [OF row [OF this steps(4) refl] steps(5) refl] have "?run demo_arrivals False t5" by (simp add: wm demo_arrivals_def)
  from window_end [OF this _ steps(6)] show ?thesis using wm by auto
qed


end
