(* ===== verification/IntervalJoin.thy ===== *)
theory IntervalJoin
  imports StateNamespaces Windows "HOL-Library.Multiset"
begin

section \<open>The interval join (runtime/operator/interval_join_operator.py)\<close>

text \<open>
  Two keyed streams are joined on their event times. Rows wait in one list state per side and time
  stamp; a timer drops them once no row that is in time can match them. The namespaces of a backend
  are here user keys, time stamps (of the list states) and pairs of a side and a time stamp (of the timers).
  Shown: the output consists of the join results of exactly the pairs of rows that match and of which the second
  arrived before the first was dropped, each pair once; a row that is not late misses no partner.
\<close>

subsection \<open>The operator\<close>

datatype side = LeftSide | RightSide

datatype 'k join_id = JoinKey 'k | JoinTime int | JoinTimer side int

record ('k, 'v, 'r) join_operator =
  jo_left_key :: "'v \<Rightarrow> 'k result"
  jo_right_key :: "'v \<Rightarrow> 'k result"
  jo_left_timestamp :: "'v \<Rightarrow> pyobj result"
  jo_right_timestamp :: "'v \<Rightarrow> pyobj result"
  jo_lower :: int
  jo_upper :: int
  jo_lateness :: int
  jo_join :: "'v \<Rightarrow> 'v \<Rightarrow> 'r emitted result"
  jo_left_state :: "'v list descriptor"
  jo_right_state :: "'v list descriptor"

definition make_join_operator ::
  "('v \<Rightarrow> 'k result) \<Rightarrow> ('v \<Rightarrow> 'k result) \<Rightarrow> ('v \<Rightarrow> pyobj result) \<Rightarrow> ('v \<Rightarrow> pyobj result) \<Rightarrow> rat \<Rightarrow> rat \<Rightarrow> rat \<Rightarrow>
   ('v \<Rightarrow> 'v \<Rightarrow> 'r emitted result) \<Rightarrow> ttl_config option \<Rightarrow> ('v list \<Rightarrow> bytes) \<Rightarrow> (bytes \<Rightarrow> 'v list) \<Rightarrow>
   ('k, 'v, 'r) join_operator result" where
  "make_join_operator lk rk lt rt lower upper lateness f ttl dumps loads =
     (if milliseconds lower > milliseconds upper then Inl ValueError
      else if milliseconds lateness < 0 then Inl ValueError
      else Inr \<lparr>jo_left_key = lk, jo_right_key = rk, jo_left_timestamp = lt, jo_right_timestamp = rt,
                jo_lower = milliseconds lower, jo_upper = milliseconds upper, jo_lateness = milliseconds lateness, jo_join = f,
                jo_left_state = \<lparr>desc_name = ''interval-join-left'', desc_dumps = dumps, desc_loads = loads, desc_ttl = ttl\<rparr>,
                jo_right_state = \<lparr>desc_name = ''interval-join-right'', desc_dumps = dumps, desc_loads = loads, desc_ttl = ttl\<rparr>\<rparr>)"

definition join_key_and_timestamp :: "('k, 'v, 'r) join_operator \<Rightarrow> 'v input_record \<Rightarrow> ('k join_id \<times> pyobj) result" where
  "join_key_and_timestamp op r =
     (if in_tag r = Some 0 then
        rbind (jo_left_key op (in_block r)) (\<lambda>k. rbind (jo_left_timestamp op (in_block r)) (\<lambda>ts. Inr (JoinKey k, ts)))
      else if in_tag r = Some 1 then
        rbind (jo_right_key op (in_block r)) (\<lambda>k. rbind (jo_right_timestamp op (in_block r)) (\<lambda>ts. Inr (JoinKey k, ts)))
      else Inl ValueError)"

text \<open>The results for one stored list; a list state is read once, since nothing changes it while it is iterated.\<close>

fun emit_joined :: "('v \<Rightarrow> 'r emitted result) \<Rightarrow> 'v list \<Rightarrow> ('s, 'r) managed_task \<Rightarrow> unit result \<times> ('s, 'r) managed_task" where
  "emit_joined f [] t = (Inr (), t)"
| "emit_joined f (v # vs) t =
     (case f v of Inl e \<Rightarrow> (Inl e, t) | Inr x \<Rightarrow> sbind (emit_result x t) (\<lambda>_ t1. emit_joined f vs t1))"

definition as_time :: "'k join_id \<Rightarrow> int result" where
  "as_time x = (case x of JoinTime i \<Rightarrow> Inr i | _ \<Rightarrow> Inl TypeError)"

fun join_matches ::
  "('s, 'k join_id, 'v list) managed_backend \<Rightarrow> 'v list descriptor \<Rightarrow> (int \<Rightarrow> bool) \<Rightarrow> ('v \<Rightarrow> 'r emitted result) \<Rightarrow> int \<Rightarrow>
   'k join_id list \<Rightarrow> ('s, 'r) managed_task \<Rightarrow> unit result \<times> ('s, 'r) managed_task" where
  "join_matches ops other fits f now [] t = (Inr (), t)"
| "join_matches ops other fits f now (ns # nss) t =
     (case as_time ns of
        Inl e \<Rightarrow> (Inl e, t)
      | Inr ts \<Rightarrow>
          if \<not> fits ts then join_matches ops other fits f now nss t
          else
            sbind (on_backend (list_values ops other ns now) t) (\<lambda>vs t1.
            sbind (emit_joined f vs t1) (\<lambda>_ t2. join_matches ops other fits f now nss t2)))"

text \<open>The body shared by \<open>_join_left\<close> and \<open>_join_right\<close>.\<close>

definition join_row ::
  "('s, 'k join_id, 'v list) managed_backend \<Rightarrow> side \<Rightarrow> 'v list descriptor \<Rightarrow> 'v list descriptor \<Rightarrow> int \<Rightarrow> (int \<Rightarrow> bool) \<Rightarrow>
   ('v \<Rightarrow> 'r emitted result) \<Rightarrow> int \<Rightarrow> 'v \<Rightarrow> int \<Rightarrow> ('s, 'r) managed_task \<Rightarrow> unit result \<times> ('s, 'r) managed_task" where
  "join_row ops sd own other cleanup fits f now row ts t =
     (if cleanup \<le> mt_watermark t then (Inr (), record_late_drop t)
      else case mb_namespaces ops other (mt_backend t) of
        Inl e \<Rightarrow> (Inl e, t)
      | Inr nss \<Rightarrow>
          sbind (join_matches ops other fits f now nss t) (\<lambda>_ t1.
          sbind (on_backend (list_append ops own (JoinTime ts) row now) t1) (\<lambda>_ t2.
            update_backend (mb_register_timer ops cleanup (JoinTimer sd ts) EVENT_TIME) t2)))"

definition join_left ::
  "('s, 'k join_id, 'v list) managed_backend \<Rightarrow> ('k, 'v, 'r) join_operator \<Rightarrow> int \<Rightarrow> 'v \<Rightarrow> int \<Rightarrow>
   ('s, 'r) managed_task \<Rightarrow> unit result \<times> ('s, 'r) managed_task" where
  "join_left ops op now left ts =
     join_row ops LeftSide (jo_left_state op) (jo_right_state op) (ts + jo_upper op + jo_lateness op + 1)
       (\<lambda>right_ts. jo_lower op \<le> right_ts - ts \<and> right_ts - ts \<le> jo_upper op) (\<lambda>right. jo_join op left right) now left ts"

definition join_right ::
  "('s, 'k join_id, 'v list) managed_backend \<Rightarrow> ('k, 'v, 'r) join_operator \<Rightarrow> int \<Rightarrow> 'v \<Rightarrow> int \<Rightarrow>
   ('s, 'r) managed_task \<Rightarrow> unit result \<times> ('s, 'r) managed_task" where
  "join_right ops op now right ts =
     join_row ops RightSide (jo_right_state op) (jo_left_state op) (max 0 (ts - jo_lower op + jo_lateness op + 1))
       (\<lambda>left_ts. jo_lower op \<le> ts - left_ts \<and> ts - left_ts \<le> jo_upper op) (\<lambda>left. jo_join op left right) now right ts"

definition join_process ::
  "('s, 'k join_id, 'v list) managed_backend \<Rightarrow> ('k, 'v, 'r) join_operator \<Rightarrow> int \<Rightarrow> 'v input_record \<Rightarrow>
   ('s, 'r) managed_task \<Rightarrow> unit result \<times> ('s, 'r) managed_task" where
  "join_process ops op now r t =
     (if in_tag r \<noteq> Some 0 \<and> in_tag r \<noteq> Some 1 then (Inl ValueError, t)
      else case mt_timestamp t of
        None \<Rightarrow> (Inl ValueError, t)
      | Some ts \<Rightarrow>
          if ts < 0 then (Inl ValueError, t)
          else if in_tag r = Some 0 then join_left ops op now (in_block r) ts t
          else join_right ops op now (in_block r) ts t)"

definition join_on_timer ::
  "('s, 'k join_id, 'v list) managed_backend \<Rightarrow> ('k, 'v, 'r) join_operator \<Rightarrow> 'k join_id timer_event \<Rightarrow>
   ('s, 'r) managed_task \<Rightarrow> unit result \<times> ('s, 'r) managed_task" where
  "join_on_timer ops op ev t =
     (if timer_event_domain ev \<noteq> EVENT_TIME then (Inr (), t)
      else case timer_namespace ev of
        JoinTimer sd ts \<Rightarrow>
          on_backend (mb_delete ops (if sd = LeftSide then jo_left_state op else jo_right_state op) (JoinTime ts)) t
      | _ \<Rightarrow> (Inl TypeError, t))"

definition join_hooks ::
  "('s, 'k join_id, 'v list) managed_backend \<Rightarrow> ('k, 'v, 'r) join_operator \<Rightarrow> int \<Rightarrow> ('s, 'k join_id, 'v, 'r) managed_hooks" where
  "join_hooks ops op now =
     \<lparr>process_managed = join_process ops op now, on_timer = join_on_timer ops op, after_time_advanced = no_maintenance\<rparr>"

subsection \<open>The specification\<close>

text \<open>A row that was processed, with the watermark at its arrival.\<close>

record ('k, 'v) arrival =
  ar_side :: side
  ar_key :: "'k join_id"
  ar_time :: int
  ar_row :: 'v
  ar_watermark :: int

fun opposite :: "side \<Rightarrow> side" where
  "opposite LeftSide = RightSide"
| "opposite RightSide = LeftSide"

definition drop_time :: "('k, 'v, 'r) join_operator \<Rightarrow> side \<Rightarrow> int \<Rightarrow> int" where
  "drop_time op sd ts = (case sd of
     LeftSide \<Rightarrow> ts + jo_upper op + jo_lateness op + 1 | RightSide \<Rightarrow> max 0 (ts - jo_lower op + jo_lateness op + 1))"

definition in_bounds :: "('k, 'v, 'r) join_operator \<Rightarrow> side \<Rightarrow> int \<Rightarrow> int \<Rightarrow> bool" where
  "in_bounds op sd ts other =
     (let delta = (case sd of LeftSide \<Rightarrow> other - ts | RightSide \<Rightarrow> ts - other) in jo_lower op \<le> delta \<and> delta \<le> jo_upper op)"

definition joined :: "('k, 'v, 'r) join_operator \<Rightarrow> side \<Rightarrow> 'v \<Rightarrow> 'v \<Rightarrow> 'r emitted result" where
  "joined op sd row other = (case sd of LeftSide \<Rightarrow> jo_join op row other | RightSide \<Rightarrow> jo_join op other row)"

definition result_records :: "'r emitted result \<Rightarrow> 'r list" where
  "result_records x = (case x of Inl _ \<Rightarrow> [] | Inr y \<Rightarrow> emitted_records y)"

definition in_time :: "('k, 'v, 'r) join_operator \<Rightarrow> ('k, 'v) arrival \<Rightarrow> bool" where
  "in_time op a \<longleftrightarrow> ar_watermark a < drop_time op (ar_side a) (ar_time a)"

definition stored_rows :: "('k, 'v, 'r) join_operator \<Rightarrow> ('k, 'v) arrival list \<Rightarrow> side \<Rightarrow> 'k join_id \<Rightarrow> int \<Rightarrow> 'v list" where
  "stored_rows op h sd k ts = map ar_row (filter (\<lambda>a. in_time op a \<and> ar_side a = sd \<and> ar_key a = k \<and> ar_time a = ts) h)"

definition matching :: "('k, 'v, 'r) join_operator \<Rightarrow> ('k, 'v) arrival \<Rightarrow> ('k, 'v) arrival \<Rightarrow> bool" where
  "matching op a b \<longleftrightarrow> ar_side b = opposite (ar_side a) \<and> ar_key b = ar_key a \<and> in_bounds op (ar_side a) (ar_time a) (ar_time b)"

text \<open>The earlier rows that a row meets, and the output of a history.\<close>

definition partners :: "('k, 'v, 'r) join_operator \<Rightarrow> ('k, 'v) arrival list \<Rightarrow> ('k, 'v) arrival \<Rightarrow> ('k, 'v) arrival list" where
  "partners op h a =
     filter (\<lambda>b. in_time op b \<and> matching op a b \<and> ar_watermark a < drop_time op (ar_side b) (ar_time b)) h"

definition output_for :: "('k, 'v, 'r) join_operator \<Rightarrow> ('k, 'v) arrival list \<Rightarrow> ('k, 'v) arrival \<Rightarrow> 'r list" where
  "output_for op h a =
     (if in_time op a then concat (map (\<lambda>b. result_records (joined op (ar_side a) (ar_row a) (ar_row b))) (partners op h a)) else [])"

definition join_output :: "('k, 'v, 'r) join_operator \<Rightarrow> ('k, 'v) arrival list \<Rightarrow> 'r list" where
  "join_output op h = concat (map (\<lambda>n. output_for op (take n h) (h ! n)) [0..<length h])"

inductive join_run ::
  "('s, 'k join_id, 'v list) managed_backend \<Rightarrow> ('k join_id, 'v) managed_config \<Rightarrow> ('k, 'v, 'r) join_operator \<Rightarrow>
   ('s, 'r) managed_task \<Rightarrow> ('k, 'v) arrival list \<Rightarrow> ('s, 'r) managed_task \<Rightarrow> bool" for ops cfg op t0 where
  join_start: "join_run ops cfg op t0 [] t0"
| join_record: "join_run ops cfg op t0 h t \<Longrightarrow> join_key_and_timestamp op r = Inr (k, PInt ts) \<Longrightarrow> 0 \<le> now \<Longrightarrow>
    process_element ops (cfg\<lparr>mc_key_and_timestamp := join_key_and_timestamp op\<rparr>) (join_hooks ops op now) now r t = (Inr (), t') \<Longrightarrow>
    join_run ops cfg op t0
      (h @ [\<lparr>ar_side = if in_tag r = Some 0 then LeftSide else RightSide, ar_key = k, ar_time = ts, ar_row = in_block r,
             ar_watermark = mt_watermark t\<rparr>]) t'"
| join_idle: "join_run ops cfg op t0 h t \<Longrightarrow> 0 \<le> now \<Longrightarrow>
    on_idle ops cfg (join_hooks ops op now) now t = (Inr (), t') \<Longrightarrow> join_run ops cfg op t0 h t'"
| join_time: "join_run ops cfg op t0 h t \<Longrightarrow> 0 \<le> now \<Longrightarrow>
    on_event_time_watermark ops cfg (join_hooks ops op now) now ts t = (Inr (), t') \<Longrightarrow> join_run ops cfg op t0 h t'"

lemma join_output_snoc: "join_output op (h @ [a]) = join_output op h @ output_for op h a"
proof -
  have "map (\<lambda>n. output_for op (take n (h @ [a])) ((h @ [a]) ! n)) [0..<length h] = map (\<lambda>n. output_for op (take n h) (h ! n)) [0..<length h]"
    by (intro map_cong refl) (simp add: nth_append)
  then show ?thesis by (simp add: join_output_def del: take_append map_eq_conv) (simp add: nth_append)
qed

lemma stored_rows_snoc:
  "stored_rows op (h @ [a]) sd k ts =
     stored_rows op h sd k ts @ (if in_time op a \<and> ar_side a = sd \<and> ar_key a = k \<and> ar_time a = ts then [ar_row a] else [])"
  by (simp add: stored_rows_def)

text \<open>Grouping a list by a key and concatenating the groups permutes it.\<close>

lemma mset_groups:
  assumes "distinct ks" "\<forall>y \<in> set ys. g y \<in> set ks"
  shows "mset (concat (map (\<lambda>n. concat (map F (filter (\<lambda>y. g y = n) ys))) ks)) = mset (concat (map F ys))"
  using assms(2)
proof (induction ys)
  case Nil
  have "sum_list (map (\<lambda>n. {#}) ks) = ({#} :: 'c multiset)" by (induction ks) simp_all
  then show ?case by (simp add: mset_concat comp_def)
next
  case (Cons y ys)
  have "g y \<in> set ks" using Cons.prems by simp
  with assms(1) have one: "sum_list (map (\<lambda>n. if g y = n then X else {#}) ks) = X" for X :: "'c multiset"
  proof (induction ks)
    case (Cons k ks)
    have "sum_list (map (\<lambda>n. if g y = n then X else {#}) ks) = {#}" if "g y \<notin> set ks"
      using that by (induction ks) auto
    then show ?case using Cons by auto
  qed simp
  have "(\<lambda>n. mset (concat (map F (filter (\<lambda>z. g z = n) (y # ys))))) =
      (\<lambda>n. (if g y = n then mset (F y) else {#}) + mset (concat (map F (filter (\<lambda>z. g z = n) ys))))" by auto
  then have "mset (concat (map (\<lambda>n. concat (map F (filter (\<lambda>z. g z = n) (y # ys)))) ks)) =
      sum_list (map (\<lambda>n. if g y = n then mset (F y) else {#}) ks) +
      mset (concat (map (\<lambda>n. concat (map F (filter (\<lambda>z. g z = n) ys))) ks))"
    by (simp add: mset_concat comp_def sum_list_addf)
  with Cons show ?case by (simp add: one)
qed


lemma emit_joined_spec:
  assumes "emit_joined f vs t = (Inr (), t')"
  shows "t' = t\<lparr>mt_collected := mt_collected t @ concat (map (\<lambda>v. result_records (f v)) vs)\<rparr>"
  using assms
proof (induction vs arbitrary: t)
  case (Cons v vs)
  then obtain x t1 where x: "f v = Inr x" "emit_result x t = (Inr (), t1)" "emit_joined f vs t1 = (Inr (), t')"
    by (auto simp: sbind_Inr split: sum.splits)
  from Cons.IH [OF x(3)] emit_result_spec(1) [OF x(2)] x(1) show ?case by (simp add: result_records_def)
qed simp

subsection \<open>Steps over two list states\<close>

definition join_state :: "('k, 'v, 'r) join_operator \<Rightarrow> side \<Rightarrow> 'v list descriptor" where
  "join_state op sd = (case sd of LeftSide \<Rightarrow> jo_left_state op | RightSide \<Rightarrow> jo_right_state op)"

definition join_timer :: "('k, 'v, 'r) join_operator \<Rightarrow> side \<Rightarrow> 'k join_id \<Rightarrow> int \<Rightarrow> 'k join_id timer_event" where
  "join_timer op sd k ts =
     \<lparr>timer_timestamp = drop_time op sd ts, timer_key = k, timer_namespace = JoinTimer sd ts, timer_event_domain = EVENT_TIME\<rparr>"

lemma join_timer_simps [simp]: "timer_timestamp (join_timer op sd k ts) = drop_time op sd ts"
  "timer_event_domain (join_timer op sd k ts) = EVENT_TIME" "timer_key (join_timer op sd k ts) = k"
  "timer_namespace (join_timer op sd k ts) = JoinTimer sd ts"
  by (simp_all add: join_timer_def)

lemma join_timer_inj [simp]: "join_timer op sd k ts = join_timer op sd' k' ts' \<longleftrightarrow> sd = sd' \<and> k = k' \<and> ts = ts'"
  by (auto simp: join_timer_def)

lemma side_tests:
  "in_bounds op LeftSide ts = (\<lambda>x. jo_lower op \<le> x - ts \<and> x - ts \<le> jo_upper op)"
  "in_bounds op RightSide ts = (\<lambda>x. jo_lower op \<le> ts - x \<and> ts - x \<le> jo_upper op)"
  "joined op LeftSide row = (\<lambda>x. jo_join op row x)" "joined op RightSide row = (\<lambda>x. jo_join op x row)"
  by (simp_all add: in_bounds_def joined_def fun_eq_iff Let_def)

lemma join_side_cases:
  "join_left ops op now row ts = join_row ops LeftSide (join_state op LeftSide) (join_state op (opposite LeftSide)) (drop_time op LeftSide ts)
     (in_bounds op LeftSide ts) (joined op LeftSide row) now row ts"
  "join_right ops op now row ts = join_row ops RightSide (join_state op RightSide) (join_state op (opposite RightSide)) (drop_time op RightSide ts)
     (in_bounds op RightSide ts) (joined op RightSide row) now row ts"
  by (simp_all add: join_left_def join_right_def join_state_def drop_time_def side_tests)

locale join_store = paired_store ops "jo_left_state op" "jo_right_state op" ok selected cell_l cell_r timers
  for ops :: "('s, 'k join_id, 'v list) managed_backend" and op :: "('k, 'v, 'r) join_operator"
    and ok selected cell_l cell_r timers
begin

definition cells :: "'s \<Rightarrow> side \<Rightarrow> 'k join_id \<Rightarrow> 'k join_id \<Rightarrow> 'v list option" where
  "cells s sd = (case sd of LeftSide \<Rightarrow> cell_l s | RightSide \<Rightarrow> cell_r s)"

definition becomes ::
  "('s, 'r) managed_task \<Rightarrow> (side \<Rightarrow> 'k join_id \<Rightarrow> 'k join_id \<Rightarrow> 'v list option) \<Rightarrow> 'k join_id timer_event set \<Rightarrow> 'r list \<Rightarrow>
   ('s, 'r) managed_task \<Rightarrow> bool" where
  "becomes t C T out t' \<longleftrightarrow> ok (mt_backend t') \<and> selected (mt_backend t') = selected (mt_backend t) \<and>
     cells (mt_backend t') = C \<and> timers (mt_backend t') = T \<and> mt_watermark t' = mt_watermark t \<and>
     mt_collected t' = mt_collected t @ out"

lemma cells_cong: "cell_l s' = cell_l s \<Longrightarrow> cell_r s' = cell_r s \<Longrightarrow> cells s' = cells s"
  by (rule ext) (simp add: cells_def split: side.split)

lemma get_cells:
  assumes "ok s" "selected s = Some k" "0 \<le> now" "mb_get ops (join_state op sd) ns now s = (Inr x, s')"
  shows "x = cells s sd k ns \<and> ok s' \<and> selected s' = Some k \<and> cells s' = cells s \<and> timers s' = timers s"
proof (cases sd)
  case LeftSide
  then show ?thesis using L.get [OF assms(1-3), of ns x s'] get_l [OF assms(1-3), of ns x s'] assms(4) cells_cong [of s' s]
    by (auto simp: join_state_def) (simp_all add: cells_def)
next
  case RightSide
  then show ?thesis using R.get [OF assms(1-3), of ns x s'] get_r [OF assms(1-3), of ns x s'] assms(4) cells_cong [of s' s]
    by (auto simp: join_state_def) (simp_all add: cells_def)
qed

lemma put_cells:
  assumes "ok s" "selected s = Some k" "0 \<le> now" "mb_put ops (join_state op sd) v ns now s = (Inr (), s')"
  shows "ok s' \<and> selected s' = Some k \<and> cells s' = (cells s)(sd := (cells s sd)(k := (cells s sd k)(ns \<mapsto> v))) \<and> timers s' = timers s"
proof (cases sd)
  case LeftSide
  then show ?thesis using L.put [OF assms(1-3), of v ns s'] put_l [OF assms(1-3), of v ns s'] assms(4)
    by (auto simp: join_state_def cells_def fun_eq_iff split: side.split)
next
  case RightSide
  then show ?thesis using R.put [OF assms(1-3), of v ns s'] put_r [OF assms(1-3), of v ns s'] assms(4)
    by (auto simp: join_state_def cells_def fun_eq_iff split: side.split)
qed

lemma delete_cells:
  assumes "ok s" "selected s = Some k" "mb_delete ops (join_state op sd) ns s = (Inr (), s')"
  shows "ok s' \<and> selected s' = Some k \<and> cells s' = (cells s)(sd := (cells s sd)(k := (cells s sd k)(ns := None))) \<and> timers s' = timers s"
proof (cases sd)
  case LeftSide
  then show ?thesis using L.delete [OF assms(1,2), of ns s'] delete_l [OF assms(1,2), of ns s'] assms(3)
    by (auto simp: join_state_def cells_def fun_eq_iff split: side.split)
next
  case RightSide
  then show ?thesis using R.delete [OF assms(1,2), of ns s'] delete_r [OF assms(1,2), of ns s'] assms(3)
    by (auto simp: join_state_def cells_def fun_eq_iff split: side.split)
qed

lemma namespaces_cells:
  assumes "ok s" "selected s = Some k" "mb_namespaces ops (join_state op sd) s = Inr nss"
  shows "distinct nss \<and> set nss = {ns. cells s sd k ns \<noteq> None}"
  using assms L.namespaces R.namespaces by (cases sd) (auto simp: join_state_def cells_def)

lemma bind_becomes:
  assumes "ok (mt_backend t)"
  shows "ok (mt_backend (bind_context ops k ts t))" "selected (mt_backend (bind_context ops k ts t)) = Some k"
    "cells (mt_backend (bind_context ops k ts t)) = cells (mt_backend t)" "timers (mt_backend (bind_context ops k ts t)) = timers (mt_backend t)"
    "mt_watermark (bind_context ops k ts t) = mt_watermark t" "mt_collected (bind_context ops k ts t) = mt_collected t"
    "mt_timestamp (bind_context ops k ts t) = ts"
  using L.select [OF assms, of k] R.select [OF assms, of k] cells_cong [of "mb_select ops k (mt_backend t)" "mt_backend t"]
  by (simp_all add: bind_context_def)

lemma values_becomes:
  assumes "ok (mt_backend t)" "selected (mt_backend t) = Some k" "0 \<le> now"
    "on_backend (list_values ops (join_state op sd) ns now) t = (Inr vs, t')"
  shows "vs = (case cells (mt_backend t) sd k ns of None \<Rightarrow> [] | Some xs \<Rightarrow> xs) \<and>
    becomes t (cells (mt_backend t)) (timers (mt_backend t)) [] t'"
proof -
  obtain x s' where g: "mb_get ops (join_state op sd) ns now (mt_backend t) = (Inr x, s')" and t': "t' = t\<lparr>mt_backend := s'\<rparr>"
    and vs: "vs = (case x of None \<Rightarrow> [] | Some xs \<Rightarrow> xs)"
    using assms(4) by (auto simp: on_backend_def list_values_def sbind_Inr split: prod.splits)
  from get_cells [OF assms(1-3) g] show ?thesis using assms(2) vs by (simp add: becomes_def t')
qed

lemma append_becomes:
  assumes g: "ok (mt_backend t)" "selected (mt_backend t) = Some k" "0 \<le> now"
    and run: "on_backend (list_append ops (join_state op sd) ns row now) t = (Inr (), t')"
  shows "becomes t ((cells (mt_backend t))(sd := (cells (mt_backend t) sd)(k := (cells (mt_backend t) sd k)
      (ns \<mapsto> (case cells (mt_backend t) sd k ns of None \<Rightarrow> [] | Some xs \<Rightarrow> xs) @ [row])))) (timers (mt_backend t)) [] t'"
proof -
  obtain x s1 y s2 s3 where 1: "mb_get ops (join_state op sd) ns now (mt_backend t) = (Inr x, s1)"
    and 2: "mb_get ops (join_state op sd) ns now s1 = (Inr y, s2)"
    and 3: "(let xs = (case y of None \<Rightarrow> [] | Some xs \<Rightarrow> xs);
        n = int (length (case x of None \<Rightarrow> [] | Some xs \<Rightarrow> xs));
        j = nat (min (int (length xs)) (max 0 (if n < 0 then n + int (length xs) else n)))
      in mb_put ops (join_state op sd) (take j xs @ [row] @ drop j xs) ns now s2) = (Inr (), s3)" and t': "t' = t\<lparr>mt_backend := s3\<rparr>"
    using run by (auto simp: on_backend_def list_append_def list_len_def list_insert_def list_values_def sbind_Inr Let_def split: prod.splits)
  note c1 = get_cells [OF g 1]
  then have s1: "ok s1" "selected s1 = Some k" by simp_all
  note c2 = get_cells [OF s1 g(3) 2]
  then have s2: "ok s2" "selected s2 = Some k" "x = y" using c1 by simp_all
  define xs where "xs = (case y of None \<Rightarrow> [] | Some xs \<Rightarrow> xs)"
  have "mb_put ops (join_state op sd) (xs @ [row]) ns now s2 = (Inr (), s3)"
    using 3 s2(3) by (simp add: xs_def Let_def)
  from put_cells [OF s2(1,2) g(3) this] show ?thesis using c1 c2 g(2) by (simp add: becomes_def t' xs_def)
qed

lemma register_becomes:
  assumes "ok (mt_backend t)" "selected (mt_backend t) = Some k"
    "update_backend (mb_register_timer ops (drop_time op sd ts) (JoinTimer sd ts) EVENT_TIME) t = (Inr (), t')"
  shows "becomes t (cells (mt_backend t)) (insert (join_timer op sd k ts) (timers (mt_backend t))) [] t'"
proof -
  obtain s' where g: "mb_register_timer ops (drop_time op sd ts) (JoinTimer sd ts) EVENT_TIME (mt_backend t) = Inr s'"
    and t': "t' = t\<lparr>mt_backend := s'\<rparr>"
    using assms(3) by (auto simp: update_backend_def split: sum.splits)
  from L.register [OF assms(1,2) g] R.register [OF assms(1,2) g] cells_cong [of s' "mt_backend t"] show ?thesis
    using assms(2) by (simp add: becomes_def t' join_timer_def)
qed

lemma pop_becomes:
  assumes "ok (mt_backend t)" "pop_due ops ts td t = (Inr evs, t')"
  shows "set evs = {ev \<in> timers (mt_backend t). timer_event_domain ev = td \<and> timer_timestamp ev \<le> ts} \<and>
    becomes t (cells (mt_backend t)) (timers (mt_backend t) - set evs) [] t'"
proof -
  obtain s' where p: "mb_pop_due_timers ops ts td None (mt_backend t) = Inr (evs, s')" and t': "t' = t\<lparr>mt_backend := s'\<rparr>"
    using assms(2) by (auto simp: pop_due_def split: sum.splits)
  from L.pop [OF assms(1) p] R.pop [OF assms(1) p] cells_cong [of s' "mt_backend t"] show ?thesis by (simp add: becomes_def t')
qed

lemma cleanup_becomes:
  assumes "ok (mt_backend t)" "cleanup_task ops limit now t = (Inr (), t')"
  shows "becomes t (cells (mt_backend t)) (timers (mt_backend t)) [] t'"
proof -
  obtain n s' where p: "mb_cleanup_expired ops now (Some limit) (mt_backend t) = (Inr n, s')" and t': "t' = t\<lparr>mt_backend := s'\<rparr>"
    using assms(2) by (auto simp: cleanup_task_def on_backend_def sbind_Inr split: prod.splits)
  from L.cleanup [OF assms(1) p] R.cleanup [OF assms(1) p] cells_cong [of s' "mt_backend t"] show ?thesis by (simp add: becomes_def t')
qed

lemma matches_becomes:
  assumes "ok (mt_backend t)" "selected (mt_backend t) = Some k" "0 \<le> now"
    "join_matches ops (join_state op sd) fits f now nss t = (Inr (), t')"
  shows "(\<forall>ns \<in> set nss. \<exists>ts. ns = JoinTime ts) \<and>
    becomes t (cells (mt_backend t)) (timers (mt_backend t))
      (concat (map (\<lambda>ns. case ns of
           JoinTime ts \<Rightarrow> if fits ts then concat (map (\<lambda>v. result_records (f v)) (case cells (mt_backend t) sd k ns of None \<Rightarrow> [] | Some xs \<Rightarrow> xs)) else []
         | _ \<Rightarrow> []) nss)) t'"
  using assms
proof (induction nss arbitrary: t)
  case Nil
  then show ?case by (simp add: becomes_def)
next
  case (Cons ns nss)
  from Cons.prems(4) obtain ts where ts: "ns = JoinTime ts" by (auto simp: as_time_def split: join_id.splits)
  show ?case
  proof (cases "fits ts")
    case False
    with Cons.prems(4) ts have "join_matches ops (join_state op sd) fits f now nss t = (Inr (), t')" by (simp add: as_time_def)
    from Cons.IH [OF Cons.prems(1-3) this] False ts show ?thesis by simp
  next
    case True
    with Cons.prems(4) ts obtain vs t1 t2 where 1: "on_backend (list_values ops (join_state op sd) ns now) t = (Inr vs, t1)"
      and 2: "emit_joined f vs t1 = (Inr (), t2)" and 3: "join_matches ops (join_state op sd) fits f now nss t2 = (Inr (), t')"
      by (auto simp: as_time_def sbind_Inr)
    note v = values_becomes [OF Cons.prems(1-3) 1]
    note e = emit_joined_spec [OF 2]
    have t2: "ok (mt_backend t2)" "selected (mt_backend t2) = Some k" "cells (mt_backend t2) = cells (mt_backend t)"
      "timers (mt_backend t2) = timers (mt_backend t)" "mt_watermark t2 = mt_watermark t"
      "mt_collected t2 = mt_collected t @ concat (map (\<lambda>v. result_records (f v)) (case cells (mt_backend t) sd k ns of None \<Rightarrow> [] | Some xs \<Rightarrow> xs))"
      using v e Cons.prems(2) by (simp_all add: becomes_def)
    from Cons.IH [OF t2(1,2) Cons.prems(3) 3, unfolded t2(3,4)] t2 True ts Cons.prems(2) show ?thesis by (simp add: becomes_def)
  qed
qed

text \<open>Firing timers empties the cells they name.\<close>

definition dropped :: "'k join_id timer_event list \<Rightarrow> side \<Rightarrow> 'k join_id \<Rightarrow> 'k join_id \<Rightarrow> bool" where
  "dropped evs sd k ns \<longleftrightarrow> (\<exists>ts. ns = JoinTime ts \<and> (\<exists>ev \<in> set evs. timer_key ev = k \<and> timer_namespace ev = JoinTimer sd ts))"

lemma fire_becomes:
  assumes "ok (mt_backend t)" "\<forall>ev \<in> set evs. timer_event_domain ev = EVENT_TIME"
    "fire_timers ops (join_on_timer ops op) evs t = (Inr (), t')"
  shows "ok (mt_backend t') \<and> cells (mt_backend t') = (\<lambda>sd k ns. if dropped evs sd k ns then None else cells (mt_backend t) sd k ns) \<and>
    timers (mt_backend t') = timers (mt_backend t) \<and> mt_watermark t' = mt_watermark t \<and> mt_collected t' = mt_collected t"
  using assms
proof (induction evs arbitrary: t)
  case Nil
  then show ?case by (simp add: dropped_def fun_eq_iff)
next
  case (Cons ev evs)
  let ?t0 = "bind_context ops (timer_key ev) (Some (timer_timestamp ev)) t"
  note t0 = bind_becomes [OF Cons.prems(1), of "timer_key ev" "Some (timer_timestamp ev)"]
  obtain t1 where 1: "join_on_timer ops op ev ?t0 = (Inr (), t1)" and run: "fire_timers ops (join_on_timer ops op) evs t1 = (Inr (), t')"
    using Cons.prems(3) by (auto simp: sbind_Inr)
  have "timer_event_domain ev = EVENT_TIME" using Cons.prems(2) by simp
  then obtain sd ts s' where ns: "timer_namespace ev = JoinTimer sd ts"
    and d: "mb_delete ops (if sd = LeftSide then jo_left_state op else jo_right_state op) (JoinTime ts) (mt_backend ?t0) = (Inr (), s')"
    and t1: "t1 = ?t0\<lparr>mt_backend := s'\<rparr>"
    using 1 by (simp add: join_on_timer_def on_backend_def split: join_id.splits prod.splits)
  have "(if sd = LeftSide then jo_left_state op else jo_right_state op) = join_state op sd" by (cases sd) (simp_all add: join_state_def)
  note d = d [unfolded this]
  note c = delete_cells [OF t0(1,2) d]
  have ok1: "ok (mt_backend t1)" using c by (simp add: t1)
  note IH = Cons.IH [OF ok1 _ run]
  have ev: "\<forall>ev \<in> set evs. timer_event_domain ev = EVENT_TIME" using Cons.prems(2) by simp
  have "dropped (ev # evs) sd' k ns' \<longleftrightarrow> dropped evs sd' k ns' \<or> sd' = sd \<and> k = timer_key ev \<and> ns' = JoinTime ts" for sd' k ns'
    using ns by (auto simp: dropped_def)
  then show ?case using IH [OF ev] c t0 by (auto simp: t1 fun_eq_iff)
qed

subsection \<open>The invariant of a run\<close>

definition held :: "('k, 'v) arrival list \<Rightarrow> int \<Rightarrow> side \<Rightarrow> 'k join_id \<Rightarrow> 'k join_id \<Rightarrow> 'v list option" where
  "held h B sd k ns = (case ns of
     JoinTime ts \<Rightarrow> if drop_time op sd ts \<le> B \<or> stored_rows op h sd k ts = [] then None else Some (stored_rows op h sd k ts)
   | _ \<Rightarrow> None)"

definition open_timers :: "('k, 'v) arrival list \<Rightarrow> int \<Rightarrow> 'k join_id timer_event set" where
  "open_timers h B = {ev. \<exists>sd k ts. ev = join_timer op sd k ts \<and> stored_rows op h sd k ts \<noteq> [] \<and> B < drop_time op sd ts}"

definition run_inv :: "('k, 'v) arrival list \<Rightarrow> int \<Rightarrow> ('s, 'r) managed_task \<Rightarrow> bool" where
  "run_inv h B t \<longleftrightarrow> ok (mt_backend t) \<and> cells (mt_backend t) = held h B \<and> timers (mt_backend t) = open_timers h B \<and>
     mset (mt_collected t) = mset (join_output op h)"

lemma run_inv_becomes: "run_inv h B t \<Longrightarrow> becomes t (cells (mt_backend t)) (timers (mt_backend t)) [] t' \<Longrightarrow> run_inv h B t'"
  by (simp add: run_inv_def becomes_def)

text \<open>What a row reads from the other side is the output for its partners.\<close>

lemma matches_output:
  assumes "distinct nss" "set nss = {ns. held h (ar_watermark a) (opposite (ar_side a)) (ar_key a) ns \<noteq> None}" "in_time op a"
  shows "mset (concat (map (\<lambda>ns. case ns of
       JoinTime ts \<Rightarrow> if in_bounds op (ar_side a) (ar_time a) ts then concat (map (\<lambda>v. result_records (joined op (ar_side a) (ar_row a) v))
           (case held h (ar_watermark a) (opposite (ar_side a)) (ar_key a) ns of None \<Rightarrow> [] | Some xs \<Rightarrow> xs)) else []
     | _ \<Rightarrow> []) nss)) = mset (output_for op h a)"
proof -
  let ?F = "\<lambda>b. result_records (joined op (ar_side a) (ar_row a) (ar_row b))" and ?ps = "partners op h a"
  have "(case ns of
       JoinTime ts \<Rightarrow> if in_bounds op (ar_side a) (ar_time a) ts then concat (map (\<lambda>v. result_records (joined op (ar_side a) (ar_row a) v))
           (case held h (ar_watermark a) (opposite (ar_side a)) (ar_key a) ns of None \<Rightarrow> [] | Some xs \<Rightarrow> xs)) else []
     | _ \<Rightarrow> []) = concat (map ?F (filter (\<lambda>b. JoinTime (ar_time b) = ns) ?ps))" if ns: "ns \<in> set nss" for ns
  proof -
    obtain ts where ts: "ns = JoinTime ts" "ar_watermark a < drop_time op (opposite (ar_side a)) ts"
      "held h (ar_watermark a) (opposite (ar_side a)) (ar_key a) ns = Some (stored_rows op h (opposite (ar_side a)) (ar_key a) ts)"
    proof -
      have "held h (ar_watermark a) (opposite (ar_side a)) (ar_key a) ns \<noteq> None" using ns unfolding assms(2) by simp
      then show thesis using that by (cases ns) (simp_all add: held_def split: if_splits)
    qed
    have "filter (\<lambda>b. ar_time b = ts) ?ps =
        (if in_bounds op (ar_side a) (ar_time a) ts
         then filter (\<lambda>b. in_time op b \<and> ar_side b = opposite (ar_side a) \<and> ar_key b = ar_key a \<and> ar_time b = ts) h else [])"
      using ts(2) unfolding partners_def filter_filter matching_def
      by (auto intro!: filter_cong simp: filter_empty_conv)
    then show ?thesis using ts(3) by (simp add: ts(1) stored_rows_def comp_def)
  qed
  then have eq: "map (\<lambda>ns. case ns of
       JoinTime ts \<Rightarrow> if in_bounds op (ar_side a) (ar_time a) ts then concat (map (\<lambda>v. result_records (joined op (ar_side a) (ar_row a) v))
           (case held h (ar_watermark a) (opposite (ar_side a)) (ar_key a) ns of None \<Rightarrow> [] | Some xs \<Rightarrow> xs)) else []
     | _ \<Rightarrow> []) nss = map (\<lambda>ns. concat (map ?F (filter (\<lambda>b. JoinTime (ar_time b) = ns) ?ps))) nss" by (intro map_cong refl)
  have "JoinTime (ar_time b) \<in> set nss" if "b \<in> set ?ps" for b
  proof -
    have b: "b \<in> set h" "in_time op b" "ar_side b = opposite (ar_side a)" "ar_key b = ar_key a"
      "ar_watermark a < drop_time op (ar_side b) (ar_time b)" using that by (auto simp: partners_def matching_def)
    then have "stored_rows op h (opposite (ar_side a)) (ar_key a) (ar_time b) \<noteq> []" by (auto simp: stored_rows_def filter_empty_conv)
    then show ?thesis using b(3,5) unfolding assms(2) by (simp add: held_def)
  qed
  then show ?thesis
    unfolding eq using mset_groups [OF assms(1), of ?ps "\<lambda>b. JoinTime (ar_time b)" ?F] assms(3) by (simp add: output_for_def)
qed

lemma no_processing_timers:
  assumes "run_inv h B t" "pop_due ops ts PROCESSING_TIME t = (Inr evs, t')"
  shows "evs = [] \<and> run_inv h B t' \<and> mt_watermark t' = mt_watermark t"
proof -
  have "ok (mt_backend t)" using assms(1) by (simp add: run_inv_def)
  note p = pop_becomes [OF this assms(2)]
  have "set evs = {}" using p assms(1) by (auto simp: run_inv_def open_timers_def)
  then have "evs = []" by simp
  moreover have "becomes t (cells (mt_backend t)) (timers (mt_backend t)) [] t'" using p \<open>set evs = {}\<close> by simp
  ultimately show ?thesis using run_inv_becomes [OF assms(1)] by (simp add: becomes_def)
qed

lemma run_inv_fire:
  assumes inv: "run_inv h B t" and pop: "pop_due ops P EVENT_TIME t = (Inr evs, t1)"
    and fire: "fire_timers ops (join_on_timer ops op) evs t1 = (Inr (), t2)"
  shows "run_inv h (max B P) t2 \<and> mt_watermark t2 = mt_watermark t"
proof -
  have "ok (mt_backend t)" using inv by (simp add: run_inv_def)
  note p = pop_becomes [OF this pop]
  have "set evs = {ev \<in> open_timers h B. timer_event_domain ev = EVENT_TIME \<and> timer_timestamp ev \<le> P}"
    using p inv by (simp add: run_inv_def)
  then have iff: "ev \<in> set evs \<longleftrightarrow> ev \<in> open_timers h B \<and> timer_event_domain ev = EVENT_TIME \<and> timer_timestamp ev \<le> P" for ev by simp
  have due: "join_timer op sd k ts \<in> set evs \<longleftrightarrow> stored_rows op h sd k ts \<noteq> [] \<and> B < drop_time op sd ts \<and> drop_time op sd ts \<le> P" for sd k ts
    by (auto simp: iff open_timers_def)
  have only: "\<exists>sd k ts. ev = join_timer op sd k ts" if "ev \<in> set evs" for ev using that unfolding iff open_timers_def by blast
  have drop: "dropped evs sd k ns \<longleftrightarrow> (\<exists>ts. ns = JoinTime ts \<and> join_timer op sd k ts \<in> set evs)" for sd k ns
    unfolding dropped_def using only by force
  have t1: "ok (mt_backend t1)" "cells (mt_backend t1) = held h B" "timers (mt_backend t1) = open_timers h B - set evs"
    "mt_watermark t1 = mt_watermark t" "mt_collected t1 = mt_collected t" using p inv by (simp_all add: becomes_def run_inv_def)
  have "\<forall>ev \<in> set evs. timer_event_domain ev = EVENT_TIME" by (simp add: iff)
  note f = fire_becomes [OF t1(1) this fire, unfolded t1]
  have "(if dropped evs sd k ns then None else held h B sd k ns) = held h (max B P) sd k ns" for sd k ns
    by (cases ns) (auto simp: held_def drop due)
  then have "cells (mt_backend t2) = held h (max B P)" using f by (simp add: fun_eq_iff)
  moreover have "open_timers h B - set evs = open_timers h (max B P)"
    by (rule set_eqI) (auto simp: open_timers_def due)
  ultimately show ?thesis using f inv by (simp add: run_inv_def)
qed

lemma run_inv_row:
  assumes inv: "run_inv h (mt_watermark t) t" and now: "0 \<le> now" and k: "selected (mt_backend t) = Some k"
    and run: "join_row ops sd (join_state op sd) (join_state op (opposite sd)) (drop_time op sd ts) (in_bounds op sd ts) (joined op sd row) now row ts t = (Inr (), t')"
  shows "run_inv (h @ [\<lparr>ar_side = sd, ar_key = k, ar_time = ts, ar_row = row, ar_watermark = mt_watermark t\<rparr>]) (mt_watermark t) t' \<and>
    mt_watermark t' = mt_watermark t"
proof -
  let ?wm = "mt_watermark t" and ?a = "\<lparr>ar_side = sd, ar_key = k, ar_time = ts, ar_row = row, ar_watermark = mt_watermark t\<rparr>"
  have ok: "ok (mt_backend t)" and C: "cells (mt_backend t) = held h ?wm" and T: "timers (mt_backend t) = open_timers h ?wm"
    and out: "mset (mt_collected t) = mset (join_output op h)" using inv by (simp_all add: run_inv_def)
  have late: "in_time op ?a \<longleftrightarrow> ?wm < drop_time op sd ts" by (simp add: in_time_def)
  show ?thesis
  proof (cases "drop_time op sd ts \<le> ?wm")
    case True
    then have t': "t' = record_late_drop t" using run by (simp add: join_row_def)
    have rows: "stored_rows op (h @ [?a]) = stored_rows op h" using True late by (intro ext) (simp add: stored_rows_snoc)
    have "held (h @ [?a]) ?wm = held h ?wm" by (intro ext) (simp only: held_def rows)
    moreover have "open_timers (h @ [?a]) ?wm = open_timers h ?wm" by (simp only: open_timers_def rows)
    moreover have "output_for op h ?a = []" using True late by (simp add: output_for_def)
    ultimately show ?thesis using ok C T out by (simp add: run_inv_def t' record_late_drop_def join_output_snoc)
  next
    case False
    then obtain nss t1 t2 where 1: "mb_namespaces ops (join_state op (opposite sd)) (mt_backend t) = Inr nss"
      and 2: "join_matches ops (join_state op (opposite sd)) (in_bounds op sd ts) (joined op sd row) now nss t = (Inr (), t1)"
      and 3: "on_backend (list_append ops (join_state op sd) (JoinTime ts) row now) t1 = (Inr (), t2)"
      and 4: "update_backend (mb_register_timer ops (drop_time op sd ts) (JoinTimer sd ts) EVENT_TIME) t2 = (Inr (), t')"
      using run by (auto simp: join_row_def sbind_Inr split: sum.splits)
    have time: "in_time op ?a" using False late by simp
    note n = namespaces_cells [OF ok k 1, unfolded C]
    note m = matches_becomes [OF ok k now 2, unfolded C]
    have t1: "ok (mt_backend t1)" "selected (mt_backend t1) = Some k" "cells (mt_backend t1) = held h ?wm"
      "timers (mt_backend t1) = open_timers h ?wm" "mt_watermark t1 = ?wm" using m k T by (simp_all add: becomes_def)
    have out1: "mset (mt_collected t1) = mset (join_output op (h @ [?a]))"
      using m out matches_output [of nss h ?a, unfolded arrival.select_convs, OF conjunct1 [OF n] conjunct2 [OF n] time]
      by (simp add: becomes_def join_output_snoc)
    note a = append_becomes [OF t1(1,2) now 3, unfolded t1]
    have t2: "ok (mt_backend t2)" "selected (mt_backend t2) = Some k" using a t1(2) by (simp_all add: becomes_def)
    note r = register_becomes [OF t2 4]
    have rows: "stored_rows op (h @ [?a]) sd' k' ts' = stored_rows op h sd' k' ts' @ (if sd' = sd \<and> k' = k \<and> ts' = ts then [row] else [])" for sd' k' ts'
      using time by (auto simp: stored_rows_snoc)
    have here: "(case held h ?wm sd k (JoinTime ts) of None \<Rightarrow> [] | Some xs \<Rightarrow> xs) = stored_rows op h sd k ts"
      using False by (simp add: held_def)
    have "((held h ?wm)(sd := (held h ?wm sd)(k := (held h ?wm sd k)(JoinTime ts \<mapsto> stored_rows op h sd k ts @ [row])))) sd' k' ns =
        held (h @ [?a]) ?wm sd' k' ns" for sd' k' ns
      using False by (cases ns) (auto simp: held_def rows)
    then have "cells (mt_backend t') = held (h @ [?a]) ?wm" using a r unfolding here by (simp add: becomes_def fun_eq_iff)
    moreover have "insert (join_timer op sd k ts) (open_timers h ?wm) = open_timers (h @ [?a]) ?wm"
    proof -
      have "stored_rows op (h @ [?a]) sd' k' ts' \<noteq> [] \<longleftrightarrow> stored_rows op h sd' k' ts' \<noteq> [] \<or> sd' = sd \<and> k' = k \<and> ts' = ts" for sd' k' ts'
        by (auto simp: rows)
      then show ?thesis using False unfolding open_timers_def by (auto simp: not_le)
    qed
    then have "timers (mt_backend t') = open_timers (h @ [?a]) ?wm" using a r by (simp add: becomes_def)
    ultimately show ?thesis using a r out1 t1(5) by (simp add: becomes_def run_inv_def)
  qed
qed

lemma run_inv_record:
  assumes inv: "run_inv h (mt_watermark t) t" and now: "0 \<le> now" and key: "join_key_and_timestamp op r = Inr (k, PInt ts)"
    and run: "process_element ops (cfg\<lparr>mc_key_and_timestamp := join_key_and_timestamp op\<rparr>) (join_hooks ops op now) now r t = (Inr (), t')"
  shows "run_inv (h @ [\<lparr>ar_side = if in_tag r = Some 0 then LeftSide else RightSide, ar_key = k, ar_time = ts, ar_row = in_block r,
      ar_watermark = mt_watermark t\<rparr>]) (mt_watermark t) t' \<and> mt_watermark t' = mt_watermark t"
proof -
  let ?t0 = "bind_context ops k (Some ts) t" and ?sd = "if in_tag r = Some 0 then LeftSide else RightSide"
  let ?h = "h @ [\<lparr>ar_side = ?sd, ar_key = k, ar_time = ts, ar_row = in_block r, ar_watermark = mt_watermark t\<rparr>]"
  have ok: "ok (mt_backend t)" using inv by (simp add: run_inv_def)
  note t0 = bind_becomes [OF ok, of k "Some ts"]
  obtain t1 evs t2 t3 where 1: "join_process ops op now r ?t0 = (Inr (), t1)"
    and 2: "pop_due ops now PROCESSING_TIME t1 = (Inr evs, t2)"
    and 3: "fire_timers ops (join_on_timer ops op) evs t2 = (Inr (), t3)"
    and 4: "cleanup_task ops (mc_cleanup_limit cfg) now t3 = (Inr (), t')"
    using run key
    by (auto simp: join_hooks_def no_maintenance_def process_element_def check_timestamp_def sbind_Inr result_simps split: sum.splits if_splits)
  have inv0: "run_inv h (mt_watermark ?t0) ?t0" using inv by (simp add: run_inv_def t0)
  have "join_row ops ?sd (join_state op ?sd) (join_state op (opposite ?sd)) (drop_time op ?sd ts) (in_bounds op ?sd ts) (joined op ?sd (in_block r))
      now (in_block r) ts ?t0 = (Inr (), t1)"
    using 1 t0(7) by (simp add: join_process_def join_side_cases split: if_splits)
  note row = run_inv_row [OF inv0 now t0(2) this]
  have inv1: "run_inv ?h (mt_watermark t) t1" "mt_watermark t1 = mt_watermark t" using row by (simp_all add: t0(5))
  from no_processing_timers [OF inv1(1) 2] have "evs = []" and inv2: "run_inv ?h (mt_watermark t) t2" "mt_watermark t2 = mt_watermark t"
    using inv1(2) by simp_all
  then have "t3 = t2" using 3 by simp
  then have "becomes t2 (cells (mt_backend t2)) (timers (mt_backend t2)) [] t'" using cleanup_becomes [of t3] 4 inv2 by (simp add: run_inv_def)
  with run_inv_becomes [OF inv2(1)] inv2(2) show ?thesis by (simp add: becomes_def)
qed

lemma run_inv_idle:
  assumes inv: "run_inv h B t" and run: "on_idle ops cfg (join_hooks ops op now) now t = (Inr (), t')"
  shows "run_inv h B t' \<and> mt_watermark t' = mt_watermark t"
proof -
  obtain evs t2 t3 where 2: "pop_due ops now PROCESSING_TIME t = (Inr evs, t2)"
    and 3: "fire_timers ops (join_on_timer ops op) evs t2 = (Inr (), t3)"
    and 4: "cleanup_task ops (mc_cleanup_limit cfg) now t3 = (Inr (), t')"
    using run by (auto simp: join_hooks_def on_idle_def sbind_Inr)
  from no_processing_timers [OF inv 2] have "evs = []" and inv2: "run_inv h B t2" "mt_watermark t2 = mt_watermark t" by simp_all
  then have "t3 = t2" using 3 by simp
  then have "becomes t2 (cells (mt_backend t2)) (timers (mt_backend t2)) [] t'" using cleanup_becomes [of t3] 4 inv2 by (simp add: run_inv_def)
  with run_inv_becomes [OF inv2(1)] inv2(2) show ?thesis by (simp add: becomes_def)
qed

lemma run_inv_watermark:
  assumes inv: "run_inv h (mt_watermark t) t" and run: "on_event_time_watermark ops cfg (join_hooks ops op now) now ts t = (Inr (), t')"
  shows "run_inv h (mt_watermark t') t'"
proof -
  obtain evs t1 t2 where 1: "advance_watermark ops ts t = (Inr evs, t1)"
    and 2: "fire_timers ops (join_on_timer ops op) evs t1 = (Inr (), t2)"
    and 3: "cleanup_task ops (mc_cleanup_limit cfg) now t2 = (Inr (), t')"
    using run by (auto simp: join_hooks_def no_maintenance_def on_event_time_watermark_def sbind_Inr)
  have "run_inv h (max (mt_watermark t) ts) t2 \<and> mt_watermark t2 = max (mt_watermark t) ts"
  proof (cases "ts \<le> mt_watermark t")
    case True
    then have "t2 = t" using 1 2 by (auto simp: advance_watermark_def)
    then show ?thesis using inv True by (simp add: max_def)
  next
    case False
    let ?t = "t\<lparr>mt_watermark := ts\<rparr>"
    have "run_inv h (mt_watermark t) ?t" using inv by (simp add: run_inv_def)
    moreover have "pop_due ops ts EVENT_TIME ?t = (Inr evs, t1)" using 1 False by (simp add: advance_watermark_def pop_due_def Let_def)
    ultimately show ?thesis using run_inv_fire [OF _ _ 2] False by fastforce
  qed
  then have t2: "run_inv h (max (mt_watermark t) ts) t2" "mt_watermark t2 = max (mt_watermark t) ts" by simp_all
  have "becomes t2 (cells (mt_backend t2)) (timers (mt_backend t2)) [] t'" using cleanup_becomes [OF _ 3] t2(1) by (simp add: run_inv_def)
  with run_inv_becomes [OF t2(1)] t2(2) show ?thesis by (simp add: becomes_def)
qed

lemma join_run_inv:
  assumes "join_run ops cfg op t0 h t" "ok (mt_backend t0)" "timers (mt_backend t0) = {}" "\<And>sd k ns. cells (mt_backend t0) sd k ns = None"
    "mt_collected t0 = []"
  shows "run_inv h (mt_watermark t) t"
  using assms(1)
proof (induction rule: join_run.induct)
  case join_start
  have "cells (mt_backend t0) = held [] (mt_watermark t0)"
    using assms(4) by (simp add: held_def stored_rows_def fun_eq_iff split: join_id.split)
  then show ?case using assms(2,3,5) by (simp add: run_inv_def open_timers_def stored_rows_def join_output_def)
next
  case (join_record h t r k ts now t')
  from run_inv_record [OF join_record.IH join_record(3,2,4)] show ?case by simp
next
  case (join_idle h t now t')
  from run_inv_idle [OF join_idle.IH join_idle(3)] show ?case by simp
next
  case (join_time h t now ts t')
  from run_inv_watermark [OF join_time.IH join_time(3)] show ?case .
qed

lemma join_run_exact:
  assumes "join_run ops cfg op t0 h t" "ok (mt_backend t0)" "timers (mt_backend t0) = {}" "\<And>k ns. cell_l (mt_backend t0) k ns = None"
    "\<And>k ns. cell_r (mt_backend t0) k ns = None" "mt_collected t0 = []"
  shows "mset (mt_collected t) = mset (join_output op h)"
    "(case sd of LeftSide \<Rightarrow> cell_l (mt_backend t) | RightSide \<Rightarrow> cell_r (mt_backend t)) k (JoinTime ts) =
       (if drop_time op sd ts \<le> mt_watermark t \<or> stored_rows op h sd k ts = [] then None else Some (stored_rows op h sd k ts))"
proof -
  have "cells (mt_backend t0) sd k ns = None" for sd k ns using assms(4,5) by (cases sd) (simp_all add: cells_def)
  note inv = join_run_inv [OF assms(1-3) this assms(6), unfolded run_inv_def]
  then show "mset (mt_collected t) = mset (join_output op h)" by blast
  have "cells (mt_backend t) sd k (JoinTime ts) = held h (mt_watermark t) sd k (JoinTime ts)" using inv by simp
  then show "(case sd of LeftSide \<Rightarrow> cell_l (mt_backend t) | RightSide \<Rightarrow> cell_r (mt_backend t)) k (JoinTime ts) =
      (if drop_time op sd ts \<le> mt_watermark t \<or> stored_rows op h sd k ts = [] then None else Some (stored_rows op h sd k ts))"
    by (simp add: cells_def held_def)
qed

end


subsection \<open>The join on the in-memory backend\<close>

interpretation memory_join: join_store memory_backend op "memory_pair_ok (jo_left_state op) (jo_right_state op)" selected_key
  "memory_cell (jo_left_state op)" "memory_cell (jo_right_state op)" memory_timers
  by unfold_locales

text \<open>A row that is not late keeps every partner: none of them has been dropped yet.\<close>

lemma on_time_keeps_partners:
  assumes "matching op a b" "ar_watermark a \<le> ar_time a + jo_lateness op"
  shows "ar_watermark a < drop_time op (ar_side b) (ar_time b)"
  using assms by (cases "ar_side a") (auto simp: matching_def in_bounds_def drop_time_def Let_def)


text \<open>A run: a left row, a matching and a non-matching right row, a watermark that drops the left row, and a late right row.\<close>

fun join_id_bytes :: "unit join_id \<Rightarrow> bytes" where
  "join_id_bytes (JoinKey _) = [0]"
| "join_id_bytes (JoinTime i) = 1 # int_bytes i"
| "join_id_bytes (JoinTimer LeftSide i) = 2 # int_bytes i"
| "join_id_bytes (JoinTimer RightSide i) = 3 # int_bytes i"

definition read_join_id :: "bytes \<Rightarrow> unit join_id \<times> bytes" where
  "read_join_id xs =
     (if hd xs = 0 then (JoinKey (), tl xs)
      else let (i, r) = read_int (tl xs)
           in (if hd xs = 1 then JoinTime i else if hd xs = 2 then JoinTimer LeftSide i else JoinTimer RightSide i, r))"

lemma read_join_id_bytes [simp]: "read_join_id (join_id_bytes x @ r) = (x, r)"
  by (cases x rule: join_id_bytes.cases) (simp_all add: read_join_id_def)

definition demo_join_codec :: "unit join_id codec" where
  "demo_join_codec =
     \<lparr>enc_name = map (\<lambda>ch. of_nat (of_char ch)), dec_name = map (\<lambda>b. char_of (unat b)),
      enc_key = (\<lambda>x. Inr (join_id_bytes x)), dec_key = (\<lambda>b. fst (read_join_id b)),
      enc_pair = (\<lambda>(x, y). Inr (join_id_bytes x @ join_id_bytes y)), sha256 = id,
      dump_pair = (\<lambda>(x, y). join_id_bytes x @ join_id_bytes y),
      load_pair = (\<lambda>b. let (x, r) = read_join_id b in (x, fst (read_join_id r)))\<rparr>"

definition demo_list :: "string \<Rightarrow> int list descriptor" where
  "demo_list name = \<lparr>desc_name = name, desc_dumps = ints_bytes, desc_loads = (\<lambda>b. read_ints (length b) b), desc_ttl = None\<rparr>"

definition demo_join :: "(unit, int, int \<times> int) join_operator" where
  "demo_join = \<lparr>jo_left_key = (\<lambda>_. Inr ()), jo_right_key = (\<lambda>_. Inr ()), jo_left_timestamp = (\<lambda>x. Inr (PInt x)), jo_right_timestamp = (\<lambda>x. Inr (PInt x)),
     jo_lower = 0, jo_upper = 2, jo_lateness = 0, jo_join = (\<lambda>x y. Inr (EmitRecord (x, y))),
     jo_left_state = demo_list ''l'', jo_right_state = demo_list ''r''\<rparr>"

definition demo_join_config :: "(unit join_id, int) managed_config" where
  "demo_join_config = \<lparr>mc_key_and_timestamp = join_key_and_timestamp demo_join, mc_key_group = (\<lambda>_. Inr 0),
     mc_range = \<lparr>kgr_start = 0, kgr_end = 7\<rparr>, mc_cleanup_limit = 10\<rparr>"

abbreviation demo_join_ops :: "(unit join_id backend, unit join_id, int list) managed_backend" where
  "demo_join_ops \<equiv> memory_backend"

definition demo_join_row :: "int \<Rightarrow> int \<Rightarrow> (unit join_id backend, int \<times> int) managed_task \<Rightarrow> unit result \<times> (unit join_id backend, int \<times> int) managed_task" where
  "demo_join_row tag x t = process_element demo_join_ops demo_join_config (join_hooks demo_join_ops demo_join 1) 1
     \<lparr>in_block = x, in_timestamp = PNone, in_tag = Some tag\<rparr> t"

lemma demo_join_codec_ok: "faithful_codec demo_join_codec"
proof -
  have name: "map (\<lambda>b. char_of (unat b)) (map (\<lambda>ch. of_nat (of_char ch) :: byte) n) = n" for n
    by (induction n) (simp_all add: unat_of_nat)
  have key: "fst (read_join_id (join_id_bytes x)) = x" for x using read_join_id_bytes [of x "[]"] by simp
  have pair: "x = x' \<and> y = y'" if "join_id_bytes x @ join_id_bytes y = join_id_bytes x' @ join_id_bytes y'" for x y x' y'
    using arg_cong [OF that, of read_join_id] key by (metis Pair_inject read_join_id_bytes)
  show ?thesis
    unfolding faithful_codec_def codec_ok_def digest_injective_def demo_join_codec_def
    by (auto simp: key comp_def dest: pair) (use name in \<open>simp add: comp_def\<close>)
qed

lemma demo_join_trace:
  "trace_steps [demo_join_row 0 3, demo_join_row 1 5, demo_join_row 1 6, on_event_time_watermark demo_join_ops demo_join_config (join_hooks demo_join_ops demo_join 1) 1 6,
      demo_join_row 1 4] (fresh_task demo_join_codec (- 1)) (\<lambda>t. (mt_watermark t, mt_collected t)) =
     [(Inr (), -1, []), (Inr (), -1, [(3, 5)]), (Inr (), -1, [(3, 5)]), (Inr (), 6, [(3, 5)]), (Inr (), 6, [(3, 5)])]"
  by code_simp

definition demo_join_history :: "(unit, int) arrival list" where
  "demo_join_history =
     [\<lparr>ar_side = LeftSide, ar_key = JoinKey (), ar_time = 3, ar_row = 3, ar_watermark = - 1\<rparr>,
      \<lparr>ar_side = RightSide, ar_key = JoinKey (), ar_time = 5, ar_row = 5, ar_watermark = - 1\<rparr>,
      \<lparr>ar_side = RightSide, ar_key = JoinKey (), ar_time = 6, ar_row = 6, ar_watermark = - 1\<rparr>,
      \<lparr>ar_side = RightSide, ar_key = JoinKey (), ar_time = 4, ar_row = 4, ar_watermark = 6\<rparr>]"

lemma demo_join_run:
  "\<exists>t. join_run demo_join_ops demo_join_config demo_join (fresh_task demo_join_codec (- 1)) demo_join_history t \<and> mt_collected t = [(3, 5)]"
proof -
  let ?run = "join_run demo_join_ops demo_join_config demo_join (fresh_task demo_join_codec (- 1))"
  have cfg: "demo_join_config\<lparr>mc_key_and_timestamp := join_key_and_timestamp demo_join\<rparr> = demo_join_config" by (simp add: demo_join_config_def)
  have key: "join_key_and_timestamp demo_join \<lparr>in_block = x, in_timestamp = PNone, in_tag = Some tag\<rparr> = Inr (JoinKey (), PInt x)"
    if "tag = 0 \<or> tag = 1" for x tag using that by (auto simp: join_key_and_timestamp_def demo_join_def)
  have row: "?run (h @ [\<lparr>ar_side = if tag = 0 then LeftSide else RightSide, ar_key = JoinKey (), ar_time = x, ar_row = x, ar_watermark = wm\<rparr>]) t'"
    if "?run h t" "demo_join_row tag x t = (Inr (), t')" "wm = mt_watermark t" "tag = 0 \<or> tag = 1" for h t tag x wm t'
    using join_record [OF that(1), of "\<lparr>in_block = x, in_timestamp = PNone, in_tag = Some tag\<rparr>" "JoinKey ()" x 1 t'] that(2-4)
    by (auto simp: demo_join_row_def cfg key)
  obtain t1 t2 t3 t4 t5 where steps: "demo_join_row 0 3 (fresh_task demo_join_codec (- 1)) = (Inr (), t1)" "demo_join_row 1 5 t1 = (Inr (), t2)"
    "demo_join_row 1 6 t2 = (Inr (), t3)"
    "on_event_time_watermark demo_join_ops demo_join_config (join_hooks demo_join_ops demo_join 1) 1 6 t3 = (Inr (), t4)"
    "demo_join_row 1 4 t4 = (Inr (), t5)"
    and wm: "mt_watermark t1 = - 1" "mt_watermark t2 = - 1" "mt_watermark t4 = 6" "mt_collected t5 = [(3, 5)]"
    using demo_join_trace by (auto simp: split_beta Let_def prod_eq_iff)
  have "- 1 = mt_watermark (fresh_task demo_join_codec (- 1))" by (simp add: fresh_task_def)
  note r1 = row [OF join_start steps(1) this disjI1 [OF refl]]
  note r3 = row [OF row [OF r1 steps(2) wm(1) [symmetric] disjI2 [OF refl]] steps(3) wm(2) [symmetric] disjI2 [OF refl]]
  have "(0::int) \<le> 1" by simp
  note r5 = row [OF join_time [OF r3 this steps(4)] steps(5) wm(3) [symmetric] disjI2 [OF refl]]
  have "?run demo_join_history t5" using r5 by (simp add: demo_join_history_def)
  then show ?thesis using wm by blast
qed


end
