(* ===== verification/ManagedSnapshot.thy ===== *)
theory ManagedSnapshot
  imports KeyedState ExampleCodecs
begin

section \<open>Managed state snapshots (state/managed_state_snapshot.py, managed_state_operator.py)\<close>

text \<open>
  The envelope around the key groups of one subtask: metadata, key-group payloads as opaque values and
  a watermark. A decoded dictionary is the record \<open>envelope\<close>: an absent scalar reads as \<open>None\<close>, and the
  fields that need not be present or of the right type say so. Pickling the dictionary is a parameter.
  A rescale has two ways to hand state to the new subtasks: each subtask restores from all old envelopes and
  keeps its key groups, or the coordinator repartitions the envelopes first. Shown: both
  select the same key groups and the same watermark.
\<close>

subsection \<open>Envelopes\<close>

datatype 'g group_value = GroupBytes 'g | GroupOther

datatype 'g groups_field = NoGroups | GroupMap "(pyobj \<times> 'g group_value) list" | NotMapping

datatype range_field = RangeObject pyobj pyobj | NotRange

record 'g envelope =
  ev_format :: pyobj
  ev_encoding :: pyobj
  ev_max_parallelism :: pyobj
  ev_range :: range_field
  ev_groups :: "'g groups_field"
  ev_watermark :: "pyobj option"

text \<open>The pickle module, restricted to these dictionaries; \<open>Inr None\<close> is a value that is no dictionary.\<close>

record 'g envelope_pickle =
  ep_dumps :: "'g envelope \<Rightarrow> bytes"
  ep_loads :: "bytes \<Rightarrow> 'g envelope option result"

definition envelope_max_parallelism :: "'g envelope \<Rightarrow> int result" where
  "envelope_max_parallelism p =
     (case ev_max_parallelism p of PInt v \<Rightarrow> if v < 1 then Inl ValueError else Inr v | _ \<Rightarrow> Inl ValueError)"

definition envelope_watermark :: "'g envelope \<Rightarrow> int result" where
  "envelope_watermark p =
     (case ev_watermark p of None \<Rightarrow> Inr (- 1) | Some (PInt v) \<Rightarrow> Inr v | Some _ \<Rightarrow> Inl ValueError)"

definition group_entry :: "pyobj \<times> 'g group_value \<Rightarrow> (int \<times> 'g) result" where
  "group_entry x =
     (case x of
        (PInt k, GroupBytes g) \<Rightarrow> Inr (k, g)
      | _ \<Rightarrow> Inl ValueError)"

definition envelope_groups :: "'g envelope \<Rightarrow> (int, 'g) dict result" where
  "envelope_groups p =
     (case ev_groups p of NoGroups \<Rightarrow> Inr [] | NotMapping \<Rightarrow> Inl ValueError | GroupMap m \<Rightarrow> rmap group_entry m)"

definition envelope_range :: "int \<Rightarrow> 'g envelope \<Rightarrow> key_group_range result" where
  "envelope_range m p =
     (case ev_range p of
        RangeObject (PInt s) (PInt e) \<Rightarrow>
          if s < 0 \<or> e < s \<or> e \<ge> m then Inl ValueError else Inr \<lparr>kgr_start = s, kgr_end = e\<rparr>
      | _ \<Rightarrow> Inl ValueError)"

definition validate_snapshot_payload :: "'g envelope \<Rightarrow> unit result" where
  "validate_snapshot_payload p =
     (if ev_format p \<noteq> PInt 2 \<and> ev_format p \<noteq> PFloat 2 then Inl ValueError
      else
        rbind (require_key_encoding_version (ev_encoding p)) (\<lambda>_.
        rbind (envelope_max_parallelism p) (\<lambda>m.
        rbind (envelope_range m p) (\<lambda>r.
        rbind (envelope_watermark p) (\<lambda>_.
        rbind (envelope_groups p) (\<lambda>gs.
          if \<exists>(k, _) \<in> set gs. k \<ge> m \<or> \<not> kgr_contains r k then Inl ValueError else Inr ()))))))"

definition make_envelope :: "int \<Rightarrow> key_group_range \<Rightarrow> (int, 'g) dict \<Rightarrow> int \<Rightarrow> 'g envelope" where
  "make_envelope m r gs wm =
     \<lparr>ev_format = PInt 2, ev_encoding = PInt KEY_ENCODING_VERSION, ev_max_parallelism = PInt m,
      ev_range = RangeObject (PInt (kgr_start r)) (PInt (kgr_end r)),
      ev_groups = GroupMap (map (\<lambda>(k, g). (PInt k, GroupBytes g)) gs), ev_watermark = Some (PInt wm)\<rparr>"

definition encode_managed_state_snapshot ::
  "'g envelope_pickle \<Rightarrow> int \<Rightarrow> key_group_range \<Rightarrow> (int, 'g) dict \<Rightarrow> int \<Rightarrow> bytes result" where
  "encode_managed_state_snapshot pk m r gs wm =
     (let p = make_envelope m r gs wm in rbind (validate_snapshot_payload p) (\<lambda>_. Inr (ep_dumps pk p)))"

definition decode_managed_state_snapshot :: "'g envelope_pickle \<Rightarrow> bytes \<Rightarrow> 'g envelope result" where
  "decode_managed_state_snapshot pk b =
     rbind (ep_loads pk b) (\<lambda>x.
       case x of None \<Rightarrow> Inl ValueError | Some p \<Rightarrow> rbind (validate_snapshot_payload p) (\<lambda>_. Inr p))"

subsection \<open>Repartitioning\<close>

definition validate_target_parallelism :: "pyobj \<Rightarrow> int result" where
  "validate_target_parallelism x = rbind (as_int x) (\<lambda>p. if p < 1 then Inl ValueError else Inr p)"

definition add_group :: "int \<Rightarrow> 'g \<Rightarrow> (int, 'g) dict \<Rightarrow> (int, 'g) dict result" where
  "add_group k g d =
     (case map_of d k of
        Some g' \<Rightarrow> if g' \<noteq> g then Inl ValueError else Inr (AList.update k g d)
      | None \<Rightarrow> Inr (AList.update k g d))"

definition redistribute_key_groups ::
  "'g envelope \<Rightarrow> int \<Rightarrow> int \<Rightarrow> (int, 'g) dict list \<Rightarrow> (int, 'g) dict list result" where
  "redistribute_key_groups p m target buckets =
     rbind (envelope_groups p) (\<lambda>gs.
       rfold (\<lambda>(k, g) bs.
         rbind (key_group_owner (PInt k) (PInt m) (PInt target)) (\<lambda>i.
         rbind (add_group k g (bs ! nat i)) (\<lambda>b. Inr (bs[nat i := b])))) gs buckets)"

definition add_snapshot ::
  "'g envelope_pickle \<Rightarrow> int \<Rightarrow> int \<Rightarrow> bytes \<Rightarrow> int \<times> (int, 'g) dict list \<Rightarrow> (int \<times> (int, 'g) dict list) result" where
  "add_snapshot pk m target b st =
     (case st of (wm, buckets) \<Rightarrow>
       rbind (decode_managed_state_snapshot pk b) (\<lambda>p.
       rbind (envelope_max_parallelism p) (\<lambda>m'.
         if m' \<noteq> m then Inl ValueError
         else rbind (envelope_watermark p) (\<lambda>w.
              rbind (redistribute_key_groups p m target buckets) (\<lambda>bs. Inr (min wm w, bs))))))"

definition repartition_managed_state_snapshots :: "'g envelope_pickle \<Rightarrow> bytes list \<Rightarrow> pyobj \<Rightarrow> bytes list result" where
  "repartition_managed_state_snapshots pk snapshots target =
     rbind (validate_target_parallelism target) (\<lambda>n.
       case snapshots of
         [] \<Rightarrow> Inl ValueError
       | first # rest \<Rightarrow>
           rbind (decode_managed_state_snapshot pk first) (\<lambda>p.
           rbind (envelope_max_parallelism p) (\<lambda>m.
           rbind (assign_key_group_range (PInt m) (PInt n) (PInt 0)) (\<lambda>_.
           rbind (envelope_watermark p) (\<lambda>w.
           rbind (redistribute_key_groups p m n (replicate (nat n) [])) (\<lambda>bs.
           rbind (rfold (add_snapshot pk m n) rest (w, bs)) (\<lambda>(wm, buckets).
             rmap (\<lambda>(i, b).
               rbind (assign_key_group_range (PInt m) (PInt n) (PInt (int i))) (\<lambda>r.
                 encode_managed_state_snapshot pk m r (map (\<lambda>k. (k, the (map_of b k))) (sort (keys b))) wm))
               (enumerate 0 buckets))))))))"

subsection \<open>Restoring in the operator\<close>

definition select_owned_key_groups :: "key_group_range \<Rightarrow> (int, 'g) dict \<Rightarrow> (int, 'g) dict \<Rightarrow> (int, 'g) dict result" where
  "select_owned_key_groups r gs selected =
     rfold (\<lambda>(k, g) sel. if \<not> kgr_contains r k then Inr sel else add_group k g sel) gs selected"

definition validate_key_group_payload :: "int \<Rightarrow> 'g envelope \<Rightarrow> unit result" where
  "validate_key_group_payload m p =
     (if ev_max_parallelism p = PInt m \<or> ev_max_parallelism p = PFloat (of_int m) then Inr () else Inl ValueError)"

text \<open>The key groups and the watermark that \<open>_restore_key_group_payloads\<close> hands to backend and timer service.\<close>

definition select_payloads :: "int \<Rightarrow> key_group_range \<Rightarrow> 'g envelope list \<Rightarrow> ((int, 'g) dict \<times> int list) result" where
  "select_payloads m r ps =
     rfold (\<lambda>p (sel, wms).
       rbind (validate_key_group_payload m p) (\<lambda>_.
       rbind (envelope_watermark p) (\<lambda>w.
       rbind (envelope_groups p) (\<lambda>gs.
       rbind (select_owned_key_groups r gs sel) (\<lambda>sel'. Inr (sel', wms @ [w])))))) ps ([], [])"

definition restore_key_group_payloads ::
  "((int, 'g) dict \<Rightarrow> 's \<Rightarrow> 's result) \<Rightarrow> int \<Rightarrow> key_group_range \<Rightarrow> 'g envelope list \<Rightarrow> ('s, 'o) managed_task \<Rightarrow>
   unit result \<times> ('s, 'o) managed_task" where
  "restore_key_group_payloads restore_groups m r ps t =
     (case select_payloads m r ps of
        Inl e \<Rightarrow> (Inl e, t)
      | Inr (sel, wms) \<Rightarrow>
          sbind (update_backend (restore_groups sel) t) (\<lambda>_ t1.
            restore_watermark (if wms = [] then - 1 else Min (set wms)) t1))"

definition restore_state_fragments ::
  "'g envelope_pickle \<Rightarrow> ((int, 'g) dict \<Rightarrow> 's \<Rightarrow> 's result) \<Rightarrow> int \<Rightarrow> key_group_range \<Rightarrow> bytes list \<Rightarrow> ('s, 'o) managed_task \<Rightarrow>
   unit result \<times> ('s, 'o) managed_task" where
  "restore_state_fragments pk restore_groups m r snapshots t =
     (case rmap (decode_managed_state_snapshot pk) snapshots of
        Inl e \<Rightarrow> (Inl e, t)
      | Inr ps \<Rightarrow> if ps = [] then (Inr (), t) else restore_key_group_payloads restore_groups m r ps t)"

definition snapshot_state ::
  "'g envelope_pickle \<Rightarrow> (int \<Rightarrow> key_group_range \<Rightarrow> 's \<Rightarrow> (int, 'g) dict result) \<Rightarrow> int \<Rightarrow> key_group_range \<Rightarrow>
   ('s, 'o) managed_task \<Rightarrow> bytes result" where
  "snapshot_state pk snapshot_groups m r t =
     rbind (snapshot_groups m r (mt_backend t)) (\<lambda>gs. encode_managed_state_snapshot pk m r gs (mt_watermark t))"

subsection \<open>Lemmas\<close>

text \<open>What an envelope was built from survives pickling.\<close>

definition pickle_ok :: "'g envelope_pickle \<Rightarrow> bool" where
  "pickle_ok pk \<longleftrightarrow> (\<forall>m r gs wm. ep_loads pk (ep_dumps pk (make_envelope m r gs wm)) = Inr (Some (make_envelope m r gs wm)))"

lemma rmap_group_entries: "rmap group_entry (map (\<lambda>(k, g). (PInt k, GroupBytes g)) gs) = Inr gs"
  by (induction gs) (auto simp: group_entry_def)

lemma make_envelope_fields:
  "envelope_max_parallelism (make_envelope m r gs wm) = (if m < 1 then Inl ValueError else Inr m)"
  "envelope_watermark (make_envelope m r gs wm) = Inr wm" "envelope_groups (make_envelope m r gs wm) = Inr gs"
  "envelope_range m' (make_envelope m r gs wm) =
     (if kgr_start r < 0 \<or> kgr_end r < kgr_start r \<or> kgr_end r \<ge> m' then Inl ValueError else Inr r)"
  by (simp_all add: make_envelope_def envelope_max_parallelism_def envelope_watermark_def envelope_groups_def envelope_range_def rmap_group_entries)

text \<open>A set of (key group, payload) pairs held by a dictionary, and by buckets per owner.\<close>

definition functional :: "(int \<times> 'g) set \<Rightarrow> bool" where
  "functional S \<longleftrightarrow> (\<forall>k g g'. (k, g) \<in> S \<and> (k, g') \<in> S \<longrightarrow> g = g')"

definition holds :: "(int, 'g) dict \<Rightarrow> (int \<times> 'g) set \<Rightarrow> bool" where
  "holds d S \<longleftrightarrow> wf_dict d \<and> (\<forall>k g. map_of d k = Some g \<longleftrightarrow> (k, g) \<in> S)"

lemma holds_functional: "holds d S \<Longrightarrow> functional S"
  unfolding holds_def functional_def by (metis option.inject)

lemma add_group_holds:
  assumes "holds d S" "functional (insert (k, g) S)"
  shows "\<exists>d'. add_group k g d = Inr d' \<and> holds d' (insert (k, g) S)"
proof -
  have "map_of d k = Some g \<or> map_of d k = None"
    using assms unfolding holds_def functional_def by (metis insert_iff not_None_eq)
  then have "add_group k g d = Inr (AList.update k g d)" by (auto simp: add_group_def)
  moreover have "holds (AList.update k g d) (insert (k, g) S)"
    unfolding holds_def
  proof (intro conjI allI)
    show "wf_dict (AList.update k g d)" using assms(1) by (simp add: holds_def)
    fix k' g'
    show "map_of (AList.update k g d) k' = Some g' \<longleftrightarrow> (k', g') \<in> insert (k, g) S"
    proof (cases "k' = k")
      case True
      then have "(k', g') \<in> insert (k, g) S \<longleftrightarrow> g' = g" using assms(2) unfolding functional_def by blast
      then show ?thesis using True by auto
    qed (use assms(1) in \<open>simp add: holds_def\<close>)
  qed
  ultimately show ?thesis by blast
qed

lemma add_group_conflict:
  assumes "holds d S" "add_group k g d = Inr d'"
  shows "functional (insert (k, g) S)"
proof -
  have "(k, g') \<in> S \<Longrightarrow> g' = g" for g' using assms unfolding holds_def add_group_def by (auto split: if_splits)
  then show ?thesis using holds_functional [OF assms(1)] unfolding functional_def by blast
qed

lemma functional_mono: "functional S \<Longrightarrow> T \<subseteq> S \<Longrightarrow> functional T"
  unfolding functional_def by blast

lemma holds_Nil: "holds [] {}"
  by (simp add: holds_def)

text \<open>Selecting the groups of a range from a list of pairs either collects them or meets a conflict.\<close>

lemma select_owned_spec:
  assumes "holds sel {x \<in> S. kgr_contains r (fst x)}" "functional (S \<union> set gs)"
  shows "\<exists>sel'. select_owned_key_groups r gs sel = Inr sel' \<and> holds sel' {x \<in> S \<union> set gs. kgr_contains r (fst x)}"
  using assms
proof (induction gs arbitrary: sel S)
  case Nil
  then show ?case by (simp add: select_owned_key_groups_def)
next
  case (Cons x gs)
  obtain k g where x: "x = (k, g)" by (cases x)
  let ?in = "\<lambda>S. {x \<in> S. kgr_contains r (fst x)}"
  have fun': "functional (insert (k, g) S \<union> set gs)" using Cons.prems(2) by (simp add: x)
  show ?case
  proof (cases "kgr_contains r k")
    case False
    then have "?in (insert (k, g) S) = ?in S" by auto
    with Cons.IH [of sel "insert (k, g) S"] Cons.prems(1) fun' False show ?thesis
      by (simp add: x select_owned_key_groups_def)
  next
    case True
    then have eq: "?in (insert (k, g) S) = insert (k, g) (?in S)" by auto
    have "functional (insert (k, g) (?in S))" by (rule functional_mono [OF fun']) auto
    then obtain sel1 where "add_group k g sel = Inr sel1" "holds sel1 (insert (k, g) (?in S))"
      using add_group_holds [OF Cons.prems(1)] by blast
    with Cons.IH [of sel1 "insert (k, g) S"] fun' True show ?thesis unfolding eq by (simp add: x select_owned_key_groups_def)
  qed
qed

definition group_owner :: "int \<Rightarrow> int \<Rightarrow> int \<Rightarrow> int" where
  "group_owner m n k = (k * n) div m"

definition buckets_hold :: "int \<Rightarrow> int \<Rightarrow> (int, 'g) dict list \<Rightarrow> (int \<times> 'g) set \<Rightarrow> bool" where
  "buckets_hold m n bs S \<longleftrightarrow> length bs = nat n \<and> (\<forall>(k, g) \<in> S. 0 \<le> k \<and> k < m) \<and>
     (\<forall>i < nat n. holds (bs ! i) {x \<in> S. group_owner m n (fst x) = int i})"

lemma buckets_functional:
  assumes "1 \<le> n" "n \<le> m" "buckets_hold m n bs S"
  shows "functional S"
  unfolding functional_def
proof (intro allI impI)
  fix k g g' assume a: "(k, g) \<in> S \<and> (k, g') \<in> S"
  then have "0 \<le> k" "k < m" using assms(3) by (auto simp: buckets_hold_def)
  note o = owner_in_parallelism [OF assms(1,2) this]
  let ?i = "nat (group_owner m n k)"
  have "?i < nat n" "group_owner m n k = int ?i" using o by (simp_all add: group_owner_def)
  then have "functional {x \<in> S. group_owner m n (fst x) = int ?i}"
    using assms(3) holds_functional unfolding buckets_hold_def by blast
  then show "g = g'" using a \<open>group_owner m n k = int ?i\<close> unfolding functional_def by auto
qed

lemma redistribute_step:
  assumes n: "1 \<le> n" "n \<le> m" and b: "buckets_hold m n bs S" and k: "0 \<le> k" "k < m"
  defines "i \<equiv> nat (group_owner m n k)"
  shows "key_group_owner (PInt k) (PInt m) (PInt n) = Inr (int i)" "i < nat n"
    "functional (insert (k, g) S) \<Longrightarrow> \<exists>d. add_group k g (bs ! i) = Inr d \<and> buckets_hold m n (bs[i := d]) (insert (k, g) S)"
    "add_group k g (bs ! i) = Inr d \<Longrightarrow> functional (insert (k, g) S)"
proof -
  note o = owner_in_parallelism [OF n k]
  have oi: "group_owner m n k = int i" using o by (simp add: i_def group_owner_def)
  show "key_group_owner (PInt k) (PInt m) (PInt n) = Inr (int i)"
    using key_group_owner_ok [OF n k] oi by (simp add: group_owner_def)
  show i: "i < nat n" using o oi by (simp add: group_owner_def)
  let ?at = "\<lambda>S j. {x \<in> S. group_owner m n (fst x) = int j}"
  have h: "holds (bs ! i) (?at S i)" and len: "length bs = nat n" using b i by (simp_all add: buckets_hold_def)
  have here: "?at (insert (k, g) S) i = insert (k, g) (?at S i)" using oi by auto
  show "\<exists>d. add_group k g (bs ! i) = Inr d \<and> buckets_hold m n (bs[i := d]) (insert (k, g) S)" if f: "functional (insert (k, g) S)"
  proof -
    have "functional (insert (k, g) (?at S i))" by (rule functional_mono [OF f]) auto
    then obtain d where d: "add_group k g (bs ! i) = Inr d" "holds d (insert (k, g) (?at S i))" using add_group_holds [OF h] by blast
    have "holds (bs[i := d] ! j) (?at (insert (k, g) S) j)" if j: "j < nat n" for j
    proof (cases "j = i")
      case True
      then show ?thesis using d(2) i len here by simp
    next
      case False
      then have "?at (insert (k, g) S) j = ?at S j" using oi by auto
      then show ?thesis using False b j by (simp add: buckets_hold_def)
    qed
    then show ?thesis using d(1) b k by (auto simp: buckets_hold_def)
  qed
  show "functional (insert (k, g) S)" if d: "add_group k g (bs ! i) = Inr d"
  proof -
    have "functional (insert (k, g) (?at S i))" by (rule add_group_conflict [OF h d])
    then have "g' = g" if "(k, g') \<in> S" for g' using that oi unfolding functional_def by auto
    then show ?thesis using buckets_functional [OF n b] unfolding functional_def by blast
  qed
qed

lemma redistribute_spec:
  assumes n: "1 \<le> n" "n \<le> m" and b: "buckets_hold m n bs S" and gs: "envelope_groups p = Inr gs" "\<forall>(k, _) \<in> set gs. 0 \<le> k \<and> k < m"
  shows "functional (S \<union> set gs) \<Longrightarrow> \<exists>bs'. redistribute_key_groups p m n bs = Inr bs' \<and> buckets_hold m n bs' (S \<union> set gs)"
    and "redistribute_key_groups p m n bs = Inr bs' \<Longrightarrow> functional (S \<union> set gs)"
proof -
  let ?step = "\<lambda>(k, g) bs. rbind (key_group_owner (PInt k) (PInt m) (PInt n)) (\<lambda>i.
      rbind (add_group k g (bs ! nat i)) (\<lambda>b. Inr (bs[nat i := b])))"
  have run: "redistribute_key_groups p m n bs = rfold ?step gs bs" by (simp add: redistribute_key_groups_def gs(1))
  have "(functional (S \<union> set gs) \<longrightarrow> (\<exists>bs'. rfold ?step gs bs = Inr bs' \<and> buckets_hold m n bs' (S \<union> set gs))) \<and>
      (\<forall>bs'. rfold ?step gs bs = Inr bs' \<longrightarrow> functional (S \<union> set gs))"
    using b gs(2)
  proof (induction gs arbitrary: bs S)
    case Nil
    then show ?case using buckets_functional [OF n] by auto
  next
    case (Cons x gs)
    obtain k g where x: "x = (k, g)" by (cases x)
    have k: "0 \<le> k" "k < m" and rest: "\<forall>(k, _) \<in> set gs. 0 \<le> k \<and> k < m" using Cons.prems(2) by (auto simp: x)
    define i where "i = nat (group_owner m n k)"
    note st = redistribute_step [OF n Cons.prems(1) k, folded i_def]
    have un: "S \<union> set (x # gs) = insert (k, g) S \<union> set gs" by (auto simp: x)
    show ?case
    proof (cases "functional (insert (k, g) S)")
      case True
      then obtain d where d: "add_group k g (bs ! i) = Inr d"
        "buckets_hold m n (bs[i := d]) (insert (k, g) S)" using st(3) by blast
      have "rfold ?step (x # gs) bs = rfold ?step gs (bs[i := d])" using st(1) d(1) by (simp add: x)
      then show ?thesis using Cons.IH [OF d(2) rest] unfolding un by simp
    next
      case False
      then have no: "\<not> functional (insert (k, g) S \<union> set gs)" using functional_mono [of "insert (k, g) S \<union> set gs" "insert (k, g) S"] by blast
      have "\<nexists>bs'. rfold ?step (x # gs) bs = Inr bs'" using st(1,4) False by (auto simp: x result_simps)
      then show ?thesis using no unfolding un by blast
    qed
  qed
  then show "functional (S \<union> set gs) \<Longrightarrow> \<exists>bs'. redistribute_key_groups p m n bs = Inr bs' \<and> buckets_hold m n bs' (S \<union> set gs)"
    and "redistribute_key_groups p m n bs = Inr bs' \<Longrightarrow> functional (S \<union> set gs)" unfolding run by blast+
qed

text \<open>What a decoded envelope guarantees.\<close>

definition groups_in :: "'g envelope \<Rightarrow> (int \<times> 'g) set" where
  "groups_in p = (case envelope_groups p of Inl _ \<Rightarrow> {} | Inr gs \<Rightarrow> set gs)"

lemma decode_fields:
  assumes "decode_managed_state_snapshot pk b = Inr p" "ev_max_parallelism p = PInt m"
  obtains gs w where "envelope_groups p = Inr gs" "groups_in p = set gs" "envelope_watermark p = Inr w"
    "envelope_max_parallelism p = Inr m" "\<forall>(k, _) \<in> set gs. 0 \<le> k \<and> k < m"
proof -
  from assms(1) have "validate_snapshot_payload p = Inr ()"
    by (auto simp: decode_managed_state_snapshot_def result_simps split: option.splits)
  then obtain m' r w gs where v: "envelope_max_parallelism p = Inr m'" "envelope_range m' p = Inr r" "envelope_watermark p = Inr w"
    "envelope_groups p = Inr gs" "\<not> (\<exists>(k, _) \<in> set gs. k \<ge> m' \<or> \<not> kgr_contains r k)"
    by (auto simp: validate_snapshot_payload_def result_simps split: if_splits)
  have "m' = m" using v(1) assms(2) by (simp add: envelope_max_parallelism_def split: if_splits)
  moreover have "0 \<le> kgr_start r" using v(2) by (auto simp: envelope_range_def split: range_field.splits pyobj.splits if_splits)
  ultimately have "\<forall>(k, _) \<in> set gs. 0 \<le> k \<and> k < m" using v(5) by (force simp: kgr_contains_def)
  then show thesis using that [of gs w] v \<open>m' = m\<close> by (simp add: groups_in_def)
qed

definition all_groups :: "'g envelope list \<Rightarrow> (int \<times> 'g) set" where
  "all_groups ps = (\<Union>p \<in> set ps. groups_in p)"

lemma all_groups_simps [simp]: "all_groups [] = {}" "all_groups (p # ps) = groups_in p \<union> all_groups ps"
  by (simp_all add: all_groups_def)

text \<open>Both readings of a list of envelopes, for the groups already seen in \<open>S\<close>.\<close>

definition readable :: "'g envelope_pickle \<Rightarrow> int \<Rightarrow> bytes list \<Rightarrow> 'g envelope list \<Rightarrow> bool" where
  "readable pk m bs ps \<longleftrightarrow> rmap (decode_managed_state_snapshot pk) bs = Inr ps \<and> (\<forall>p \<in> set ps. ev_max_parallelism p = PInt m)"

lemma readable_Cons:
  "readable pk m (b # bs) qs \<longleftrightarrow>
     (\<exists>p ps. qs = p # ps \<and> decode_managed_state_snapshot pk b = Inr p \<and> ev_max_parallelism p = PInt m \<and> readable pk m bs ps)"
  by (auto simp: readable_def result_simps)

definition watermark_in :: "'g envelope \<Rightarrow> int" where
  "watermark_in p = (case envelope_watermark p of Inl _ \<Rightarrow> 0 | Inr w \<Rightarrow> w)"

lemma add_snapshots_spec:
  assumes n: "1 \<le> n" "n \<le> m" and "buckets_hold m n bs S" "readable pk m snaps ps"
  shows "(functional (S \<union> all_groups ps) \<longrightarrow>
      (\<exists>bs'. rfold (add_snapshot pk m n) snaps (wm, bs) = Inr (fold min (map watermark_in ps) wm, bs') \<and> buckets_hold m n bs' (S \<union> all_groups ps))) \<and>
    (\<forall>x. rfold (add_snapshot pk m n) snaps (wm, bs) = Inr x \<longrightarrow> functional (S \<union> all_groups ps))"
  using assms(3,4)
proof (induction snaps arbitrary: bs S wm ps)
  case Nil
  then show ?case using buckets_functional [OF n] by (auto simp: readable_def)
next
  case (Cons b snaps)
  obtain p qs where p: "ps = p # qs" "decode_managed_state_snapshot pk b = Inr p" "ev_max_parallelism p = PInt m" "readable pk m snaps qs"
    using Cons.prems(2) by (auto simp: readable_Cons)
  from p(2,3) obtain gs w where gs: "envelope_groups p = Inr gs" "groups_in p = set gs" "envelope_watermark p = Inr w"
    "envelope_max_parallelism p = Inr m" "\<forall>(k, _) \<in> set gs. 0 \<le> k \<and> k < m" by (rule decode_fields)
  have w: "watermark_in p = w" by (simp add: watermark_in_def gs(3))
  have un: "S \<union> all_groups ps = (S \<union> set gs) \<union> all_groups qs" using gs(2) by (auto simp: p(1))
  note r = redistribute_spec [OF n Cons.prems(1) gs(1,5)]
  show ?case
  proof (cases "functional (S \<union> set gs)")
    case True
    then obtain bs1 where bs1: "redistribute_key_groups p m n bs = Inr bs1" "buckets_hold m n bs1 (S \<union> set gs)" using r(1) by blast
    have "rfold (add_snapshot pk m n) (b # snaps) (wm, bs) = rfold (add_snapshot pk m n) snaps (min wm w, bs1)"
      using p(2) gs bs1(1) by (simp add: add_snapshot_def)
    then show ?thesis using Cons.IH [OF bs1(2) p(4), of "min wm w"] unfolding un by (simp add: p(1) w min.commute)
  next
    case False
    then have "\<not> functional ((S \<union> set gs) \<union> all_groups qs)" using functional_mono [of "(S \<union> set gs) \<union> all_groups qs" "S \<union> set gs"] by blast
    moreover have "\<nexists>x. rfold (add_snapshot pk m n) (b # snaps) (wm, bs) = Inr x"
      using p(2) gs r(2) False by (auto simp: add_snapshot_def result_simps)
    ultimately show ?thesis unfolding un by blast
  qed
qed

lemma select_payloads_spec:
  assumes "readable pk m snaps ps" "functional (all_groups ps)"
  shows "\<exists>sel. select_payloads m r ps = Inr (sel, map watermark_in ps) \<and> holds sel {x \<in> all_groups ps. kgr_contains r (fst x)}"
proof -
  let ?step = "\<lambda>p (sel, wms).
       rbind (validate_key_group_payload m p) (\<lambda>_.
       rbind (envelope_watermark p) (\<lambda>w.
       rbind (envelope_groups p) (\<lambda>gs.
       rbind (select_owned_key_groups r gs sel) (\<lambda>sel'. Inr (sel', wms @ [w])))))"
  have "\<exists>sel'. rfold ?step ps (sel, wms) = Inr (sel', wms @ map watermark_in ps) \<and> holds sel' {x \<in> S \<union> all_groups ps. kgr_contains r (fst x)}"
    if "holds sel {x \<in> S. kgr_contains r (fst x)}" "functional (S \<union> all_groups ps)" for sel wms S
    using assms(1) that
  proof (induction ps arbitrary: snaps sel wms S)
    case (Cons p qs)
    obtain b snaps' where "snaps = b # snaps'" using Cons.prems(1) by (cases snaps) (auto simp: readable_def)
    then have p: "decode_managed_state_snapshot pk b = Inr p" "ev_max_parallelism p = PInt m" "readable pk m snaps' qs"
      using Cons.prems(1) by (simp_all add: readable_Cons)
    from p(1,2) obtain gs w where gs: "envelope_groups p = Inr gs" "groups_in p = set gs" "envelope_watermark p = Inr w"
      "envelope_max_parallelism p = Inr m" "\<forall>(k, _) \<in> set gs. 0 \<le> k \<and> k < m" by (rule decode_fields)
    have un: "S \<union> all_groups (p # qs) = (S \<union> set gs) \<union> all_groups qs" using gs(2) by auto
    have "functional (S \<union> set gs)" by (rule functional_mono [OF Cons.prems(3)]) (use gs(2) in auto)
    then obtain sel1 where sel1: "select_owned_key_groups r gs sel = Inr sel1" "holds sel1 {x \<in> S \<union> set gs. kgr_contains r (fst x)}"
      using select_owned_spec [OF Cons.prems(2)] by blast
    have "rfold ?step (p # qs) (sel, wms) = rfold ?step qs (sel1, wms @ [w])"
      using gs sel1(1) p(2) by (simp add: validate_key_group_payload_def)
    moreover have "watermark_in p = w" by (simp add: watermark_in_def gs(3))
    ultimately show ?case using Cons.IH [OF p(3) sel1(2), of "wms @ [w]"] Cons.prems(3) unfolding un by simp
  qed simp
  from this [of "[]" "{}" "[]"] holds_Nil assms(2) show ?thesis by (simp add: select_payloads_def)
qed

lemma fold_min_Min: "fold min xs (x :: int) = Min (insert x (set xs))"
proof (induction xs arbitrary: x)
  case (Cons y ys)
  then show ?case by (cases "ys = []") (simp_all add: min.commute min.left_commute)
qed simp

lemma holds_sorted:
  assumes "holds d S"
  shows "holds (map (\<lambda>k. (k, the (map_of d k))) (sort (keys d))) S"
proof -
  have k: "k \<in> set (keys d) \<longleftrightarrow> map_of d k \<noteq> None" for k by (metis map_of_None_keys)
  have "map_of (map (\<lambda>k. (k, the (map_of d k))) ks) k = (if k \<in> set ks then Some (the (map_of d k)) else None)" for ks k
    by (induction ks) auto
  then have "map_of (map (\<lambda>k. (k, the (map_of d k))) (sort (keys d))) k = map_of d k" for k using k [of k] by auto
  moreover have "distinct (map fst (map (\<lambda>k. (k, the (map_of d k))) (sort (keys d))))"
    using assms by (simp add: comp_def holds_def)
  ultimately show ?thesis using assms by (simp add: holds_def)
qed

lemma holds_unique: "holds d S \<Longrightarrow> holds d' S \<Longrightarrow> map_of d = map_of d'"
  unfolding holds_def fun_eq_iff by (metis option.exhaust)

text \<open>The envelope written for target subtask \<open>i\<close>, with the groups of \<open>S\<close> that it owns.\<close>

definition target_of ::
  "'g envelope_pickle \<Rightarrow> int \<Rightarrow> int \<Rightarrow> (int \<times> 'g) set \<Rightarrow> int \<Rightarrow> int \<Rightarrow> bytes \<Rightarrow> key_group_range \<Rightarrow> 'g envelope \<Rightarrow> bool" where
  "target_of pk m n S wm i b r q \<longleftrightarrow> assign_key_group_range (PInt m) (PInt n) (PInt i) = Inr r \<and>
     decode_managed_state_snapshot pk b = Inr q \<and> ev_max_parallelism q = PInt m \<and> envelope_watermark q = Inr wm \<and>
     groups_in q = {x \<in> S. kgr_contains r (fst x)} \<and> (\<forall>k. kgr_contains r k \<longleftrightarrow> group_owner m n k = i)"

lemma encode_target:
  assumes ok: "pickle_ok pk" and n: "1 \<le> n" "n \<le> m" and i: "0 \<le> i" "i < n"
    and d: "holds d {x \<in> S. group_owner m n (fst x) = i}" and S: "\<forall>(k, g) \<in> S. 0 \<le> k \<and> k < m"
  shows "\<exists>r b q. target_of pk m n S wm i b r q \<and> encode_managed_state_snapshot pk m r d wm = Inr b"
proof -
  define r where "r = \<lparr>kgr_start = (i * m + n - 1) div n, kgr_end = ((i + 1) * m + n - 1) div n - 1\<rparr>"
  have r: "assign_key_group_range (PInt m) (PInt n) (PInt i) = Inr r" using assign_key_group_range_ok [OF n i] by (simp add: r_def)
  have own: "kgr_contains r k \<longleftrightarrow> group_owner m n k = i" for k
    using owner_iff_in_bounds [OF n, of k i] by (auto simp: kgr_contains_def r_def group_owner_def)
  have b: "0 \<le> kgr_start r" "kgr_start r \<le> kgr_end r" using range_bounds_valid [OF n i] by (simp_all add: r_def)
  have "(m - 1 + 1) * n \<ge> (i + 1) * m" using i n by (simp add: mult.commute)
  then have "((i + 1) * m + n - 1) div n \<le> m" using ceil_div_le_iff [of n "(i + 1) * m" m] n by simp
  then have e: "kgr_end r < m" by (simp add: r_def)
  let ?q = "make_envelope m r d wm"
  have set_d: "set d = {x \<in> S. group_owner m n (fst x) = i}"
  proof (rule set_eqI)
    fix x show "x \<in> set d \<longleftrightarrow> x \<in> {x \<in> S. group_owner m n (fst x) = i}"
      using d wf_dict_mem_iff [of d "fst x" "snd x"] by (cases x) (simp add: holds_def)
  qed
  have "\<not> (\<exists>(k, _) \<in> set d. k \<ge> m \<or> \<not> kgr_contains r k)" using S own unfolding set_d by auto
  then have v: "validate_snapshot_payload ?q = Inr ()"
    using b e n by (simp add: validate_snapshot_payload_def make_envelope_fields) (simp add: make_envelope_def require_key_encoding_version_def)
  have "encode_managed_state_snapshot pk m r d wm = Inr (ep_dumps pk ?q)" using v by (simp add: encode_managed_state_snapshot_def)
  moreover have "target_of pk m n S wm i (ep_dumps pk ?q) r ?q"
    using r own v ok by (simp add: target_of_def decode_managed_state_snapshot_def pickle_ok_def groups_in_def make_envelope_fields set_d)
      (simp add: make_envelope_def)
  ultimately show ?thesis by blast
qed

text \<open>The groups restored do not depend on how the dictionary of groups is ordered.\<close>

definition order_blind :: "((int, 'g) dict \<Rightarrow> 's \<Rightarrow> 's result) \<Rightarrow> bool" where
  "order_blind f \<longleftrightarrow> (\<forall>a b s. map_of a = map_of b \<longrightarrow> f a s = f b s)"

lemma restore_selected:
  assumes "rmap (decode_managed_state_snapshot pk) snaps = Inr ps" "ps \<noteq> []" "select_payloads m r ps = Inr (sel, wms)" "wms \<noteq> []"
  shows "restore_state_fragments pk f m r snaps t = sbind (update_backend (f sel) t) (\<lambda>_ t1. restore_watermark (Min (set wms)) t1)"
  using assms by (simp add: restore_state_fragments_def restore_key_group_payloads_def)

text \<open>A subtask that restores from its target envelope does what restoring from all envelopes does.\<close>

lemma restore_target:
  assumes snaps: "readable pk m snaps ps" "ps \<noteq> []" and f: "functional (all_groups ps)"
    and t: "target_of pk m n (all_groups ps) (Min (set (map watermark_in ps))) i b r q"
  shows "\<exists>sel. select_payloads m r ps = Inr (sel, map watermark_in ps) \<and>
    (\<forall>k g. map_of sel k = Some g \<longleftrightarrow> (k, g) \<in> all_groups ps \<and> group_owner m n k = i) \<and>
    (\<forall>f t. order_blind f \<longrightarrow> restore_state_fragments pk f m r [b] t = restore_state_fragments pk f m r snaps t)"
proof -
  let ?wm = "Min (set (map watermark_in ps))" and ?S = "{x \<in> all_groups ps. kgr_contains r (fst x)}"
  have one: "readable pk m [b] [q]" "rmap (decode_managed_state_snapshot pk) [b] = Inr [q]"
    using t by (simp_all add: readable_def target_of_def)
  have q: "groups_in q = ?S" "watermark_in q = ?wm" using t by (simp_all add: target_of_def watermark_in_def)
  have "functional (all_groups [q])" by (rule functional_mono [OF f]) (auto simp: q)
  from select_payloads_spec [OF one(1) this, of r] obtain sel' where sel': "select_payloads m r [q] = Inr (sel', [?wm])"
    "holds sel' {x \<in> all_groups [q]. kgr_contains r (fst x)}" unfolding list.map q(2) by blast
  have "{x \<in> all_groups [q]. kgr_contains r (fst x)} = ?S" by (auto simp: q(1))
  then have "holds sel' ?S" using sel'(2) by simp
  moreover obtain sel where sel: "select_payloads m r ps = Inr (sel, map watermark_in ps)" "holds sel ?S"
    using select_payloads_spec [OF snaps(1) f] by blast
  ultimately have same: "map_of sel = map_of sel'" using holds_unique by blast
  have "rmap (decode_managed_state_snapshot pk) snaps = Inr ps" using snaps(1) by (simp add: readable_def)
  then have old: "restore_state_fragments pk f m r snaps t = sbind (update_backend (f sel) t) (\<lambda>_ t1. restore_watermark ?wm t1)" for f t
    by (rule restore_selected [OF _ snaps(2) sel(1)]) (simp add: snaps(2))
  have new: "restore_state_fragments pk f m r [b] t = sbind (update_backend (f sel') t) (\<lambda>_ t1. restore_watermark ?wm t1)" for f t
    using restore_selected [OF one(2) _ sel'(1), of f t] by simp
  have "restore_state_fragments pk f m r [b] t = restore_state_fragments pk f m r snaps t" if "order_blind f" for f t
  proof -
    have "f sel' s = f sel s" for s using that same unfolding order_blind_def by metis
    then have "f sel' = f sel" by (rule ext)
    then show ?thesis unfolding old new by simp
  qed
  moreover have "map_of sel k = Some g \<longleftrightarrow> (k, g) \<in> all_groups ps \<and> group_owner m n k = i" for k g
    using sel(2) t by (simp add: holds_def target_of_def)
  ultimately show ?thesis using sel(1) by blast
qed

text \<open>The envelopes built from the final buckets.\<close>

definition encode_bucket :: "'g envelope_pickle \<Rightarrow> int \<Rightarrow> int \<Rightarrow> int \<Rightarrow> nat \<times> (int, 'g) dict \<Rightarrow> bytes result" where
  "encode_bucket pk m n wm x = (case x of (i, b) \<Rightarrow>
     rbind (assign_key_group_range (PInt m) (PInt n) (PInt (int i))) (\<lambda>r.
       encode_managed_state_snapshot pk m r (map (\<lambda>k. (k, the (map_of b k))) (sort (keys b))) wm))"

lemma encode_buckets:
  assumes ok: "pickle_ok pk" and n: "1 \<le> n" "n \<le> m" and b: "buckets_hold m n bs S"
  shows "\<exists>outs. rmap (encode_bucket pk m n wm) (enumerate 0 bs) = Inr outs \<and> length outs = nat n \<and>
    (\<forall>i < nat n. \<exists>r q. target_of pk m n S wm (int i) (outs ! i) r q)"
proof -
  have len: "length bs = nat n" and S: "\<forall>(k, g) \<in> S. 0 \<le> k \<and> k < m" using b by (simp_all add: buckets_hold_def)
  have target: "\<exists>r b q. target_of pk m n S wm (int i) b r q \<and> encode_bucket pk m n wm (i, bs ! i) = Inr b" if i: "i < nat n" for i
  proof -
    let ?d = "map (\<lambda>k. (k, the (map_of (bs ! i) k))) (sort (keys (bs ! i)))"
    have i': "0 \<le> int i" "int i < n" using i by simp_all
    have "holds ?d {x \<in> S. group_owner m n (fst x) = int i}" using b i by (intro holds_sorted) (simp add: buckets_hold_def)
    then obtain r b q where t: "target_of pk m n S wm (int i) b r q" "encode_managed_state_snapshot pk m r ?d wm = Inr b"
      using encode_target [OF ok n i' _ S] by blast
    have "assign_key_group_range (PInt m) (PInt n) (PInt (int i)) = Inr r" using t(1) by (simp add: target_of_def)
    then have "encode_bucket pk m n wm (i, bs ! i) = Inr b" using t(2) by (simp add: encode_bucket_def)
    then show ?thesis using t(1) by blast
  qed
  have nth: "enumerate 0 bs ! i = (i, bs ! i)" if "i < nat n" for i using that len by (simp add: nth_enumerate_eq)
  have "\<exists>y. encode_bucket pk m n wm x = Inr y" if x: "x \<in> set (enumerate 0 bs)" for x
  proof -
    obtain i where i: "i < nat n" "x = enumerate 0 bs ! i" using x len by (metis in_set_conv_nth length_enumerate)
    then show ?thesis using target [OF i(1)] nth [OF i(1)] by auto
  qed
  then obtain outs where outs: "rmap (encode_bucket pk m n wm) (enumerate 0 bs) = Inr outs" using rmap_total by blast
  have "\<exists>r q. target_of pk m n S wm (int i) (outs ! i) r q" if i: "i < nat n" for i
    using target [OF i] rmap_nth [OF outs, of i] nth [OF i] i len by auto
  then show ?thesis using outs rmap_length [OF outs] len by auto
qed

text \<open>
  C12. Repartitioning state envelopes for a new parallelism agrees with restoring from all of them. For
  decodable envelopes of one job (same number of key groups) and a legal new parallelism: if
  two envelopes carry different payloads for one key group, repartitioning fails; otherwise it returns one
  envelope per new subtask, and every subtask that restores from its new envelope ends up as if it had restored from
  all old envelopes: the same key groups (exactly those it owns, none lost) and the same watermark, the minimum of all.
\<close>

theorem repartition_agrees:
  assumes ok: "pickle_ok pk" and snaps: "readable pk m snaps ps" "snaps \<noteq> []" and n: "1 \<le> n" "n \<le> m"
  shows "(\<not> functional (all_groups ps) \<longrightarrow> (\<exists>e. repartition_managed_state_snapshots pk snaps (PInt n) = Inl e)) \<and>
    (functional (all_groups ps) \<longrightarrow>
      (\<exists>outs. repartition_managed_state_snapshots pk snaps (PInt n) = Inr outs \<and> length outs = nat n \<and>
        (\<forall>i < nat n. \<exists>r sel. assign_key_group_range (PInt m) (PInt n) (PInt (int i)) = Inr r \<and>
           select_payloads m r ps = Inr (sel, map watermark_in ps) \<and>
           (\<forall>k g. map_of sel k = Some g \<longleftrightarrow> (k, g) \<in> all_groups ps \<and> group_owner m n k = int i) \<and>
           (\<forall>f t. order_blind f \<longrightarrow> restore_state_fragments pk f m r [outs ! i] t = restore_state_fragments pk f m r snaps t))))"
proof -
  obtain b rest where snaps': "snaps = b # rest" using snaps(2) by (cases snaps) auto
  then obtain p qs where p: "ps = p # qs" "decode_managed_state_snapshot pk b = Inr p" "ev_max_parallelism p = PInt m" "readable pk m rest qs"
    using snaps(1) by (auto simp: readable_Cons)
  from p(2,3) obtain gs w where gs: "envelope_groups p = Inr gs" "groups_in p = set gs" "envelope_watermark p = Inr w"
    "envelope_max_parallelism p = Inr m" "\<forall>(k, _) \<in> set gs. 0 \<le> k \<and> k < m" by (rule decode_fields)
  have empty: "buckets_hold m n (replicate (nat n) []) {}" by (simp add: buckets_hold_def holds_Nil)
  note red = redistribute_spec [OF n empty gs(1,5), simplified]
  have start: "repartition_managed_state_snapshots pk snaps (PInt n) =
      rbind (redistribute_key_groups p m n (replicate (nat n) [])) (\<lambda>bs.
      rbind (rfold (add_snapshot pk m n) rest (w, bs)) (\<lambda>(wm, buckets). rmap (encode_bucket pk m n wm) (enumerate 0 buckets)))"
    using n p(2) gs assign_key_group_range_ok [OF n, of 0]
    by (simp add: repartition_managed_state_snapshots_def snaps' validate_target_parallelism_def encode_bucket_def [abs_def])
  have un: "all_groups ps = set gs \<union> all_groups qs" by (simp add: p(1) gs(2))
  have wm: "fold min (map watermark_in qs) w = Min (set (map watermark_in ps))" by (simp add: fold_min_Min p(1) watermark_in_def gs(3))
  show ?thesis
  proof (cases "functional (all_groups ps)")
    case False
    have "repartition_managed_state_snapshots pk snaps (PInt n) \<noteq> Inr outs" for outs
    proof
      assume "repartition_managed_state_snapshots pk snaps (PInt n) = Inr outs"
      then obtain bs x where bs: "redistribute_key_groups p m n (replicate (nat n) []) = Inr bs" "rfold (add_snapshot pk m n) rest (w, bs) = Inr x"
        unfolding start by (auto simp: result_simps)
      then have "buckets_hold m n bs (set gs)" using red by auto
      from add_snapshots_spec [OF n this p(4), of w] bs(2) False show False unfolding un by blast
    qed
    then have "\<exists>e. repartition_managed_state_snapshots pk snaps (PInt n) = Inl e" by (metis sum.exhaust)
    then show ?thesis using False by blast
  next
    case True
    then have "functional (set gs)" using functional_mono [OF True, of "set gs"] un by blast
    then obtain bs where bs: "redistribute_key_groups p m n (replicate (nat n) []) = Inr bs" "buckets_hold m n bs (set gs)" using red(1) by auto
    obtain bs' where bs': "rfold (add_snapshot pk m n) rest (w, bs) = Inr (Min (set (map watermark_in ps)), bs')" "buckets_hold m n bs' (all_groups ps)"
      using add_snapshots_spec [OF n bs(2) p(4), of w] True unfolding un wm by blast
    from encode_buckets [OF ok n bs'(2), of "Min (set (map watermark_in ps))"] obtain outs where
      outs: "rmap (encode_bucket pk m n (Min (set (map watermark_in ps)))) (enumerate 0 bs') = Inr outs" "length outs = nat n"
      "\<forall>i < nat n. \<exists>r q. target_of pk m n (all_groups ps) (Min (set (map watermark_in ps))) (int i) (outs ! i) r q" by blast
    have "repartition_managed_state_snapshots pk snaps (PInt n) = Inr outs" unfolding start using bs(1) bs'(1) outs(1) by simp
    moreover have "\<exists>r sel. assign_key_group_range (PInt m) (PInt n) (PInt (int i)) = Inr r \<and>
           select_payloads m r ps = Inr (sel, map watermark_in ps) \<and>
           (\<forall>k g. map_of sel k = Some g \<longleftrightarrow> (k, g) \<in> all_groups ps \<and> group_owner m n k = int i) \<and>
           (\<forall>f t. order_blind f \<longrightarrow> restore_state_fragments pk f m r [outs ! i] t = restore_state_fragments pk f m r snaps t)" if i: "i < nat n" for i
    proof -
      obtain r q where t: "target_of pk m n (all_groups ps) (Min (set (map watermark_in ps))) (int i) (outs ! i) r q" using outs(3) i by blast
      have "assign_key_group_range (PInt m) (PInt n) (PInt (int i)) = Inr r" using t by (simp add: target_of_def)
      then show ?thesis using restore_target [OF snaps(1) _ True t] p(1) by blast
    qed
    ultimately show ?thesis using True outs(2) by blast
  qed
qed

text \<open>Two envelopes of a job with four key groups, repartitioned from two subtasks to three.\<close>

fun pair_ints :: "(int \<times> int) list \<Rightarrow> int list" where
  "pair_ints [] = []"
| "pair_ints ((k, g) # xs) = k # g # pair_ints xs"

fun int_pairs :: "int list \<Rightarrow> (int \<times> int) list" where
  "int_pairs (k # g # xs) = (k, g) # int_pairs xs"
| "int_pairs _ = []"

lemma int_pairs_ints [simp]: "int_pairs (pair_ints xs) = xs"
  by (induction xs rule: pair_ints.induct) simp_all

definition demo_dump :: "int envelope \<Rightarrow> bytes" where
  "demo_dump p =
     (case (ev_max_parallelism p, ev_range p, ev_watermark p, envelope_groups p) of
        (PInt m, RangeObject (PInt s) (PInt e), Some (PInt wm), Inr gs) \<Rightarrow> ints_bytes (m # s # e # wm # pair_ints gs)
      | _ \<Rightarrow> [])"

definition demo_load :: "bytes \<Rightarrow> int envelope option result" where
  "demo_load b =
     (case read_ints (length b) b of
        m # s # e # wm # xs \<Rightarrow> Inr (Some (make_envelope m \<lparr>kgr_start = s, kgr_end = e\<rparr> (int_pairs xs) wm))
      | _ \<Rightarrow> Inr None)"

definition demo_pickle :: "int envelope_pickle" where
  "demo_pickle = \<lparr>ep_dumps = demo_dump, ep_loads = demo_load\<rparr>"

lemma demo_pickle_ok: "pickle_ok demo_pickle"
proof -
  have "ev_max_parallelism (make_envelope m r gs wm) = PInt m"
    "ev_range (make_envelope m r gs wm) = RangeObject (PInt (kgr_start r)) (PInt (kgr_end r))"
    "ev_watermark (make_envelope m r gs wm) = Some (PInt wm)" for m r wm and gs :: "(int, int) dict" by (simp_all add: make_envelope_def)
  then have "demo_dump (make_envelope m r gs wm) = ints_bytes (m # kgr_start r # kgr_end r # wm # pair_ints gs)" for m r gs wm
    by (simp add: demo_dump_def make_envelope_fields del: ints_bytes.simps)
  then have "demo_load (demo_dump (make_envelope m r gs wm)) = Inr (Some (make_envelope m r gs wm))" for m r gs wm
    by (simp add: demo_load_def read_ints_bytes del: ints_bytes.simps) (simp add: make_envelope_def)
  then show ?thesis by (simp add: pickle_ok_def demo_pickle_def)
qed

definition demo_envelopes :: "int envelope list" where
  "demo_envelopes = [make_envelope 4 \<lparr>kgr_start = 0, kgr_end = 1\<rparr> [(0, 10), (1, 11)] 7, make_envelope 4 \<lparr>kgr_start = 2, kgr_end = 3\<rparr> [(2, 12)] 5]"

theorem repartition_agrees_witness:
  "readable demo_pickle 4 (map demo_dump demo_envelopes) demo_envelopes \<and> functional (all_groups demo_envelopes) \<and>
   (\<exists>outs. repartition_managed_state_snapshots demo_pickle (map demo_dump demo_envelopes) (PInt 3) = Inr outs \<and> length outs = 3)"
proof -
  have r: "readable demo_pickle 4 (map demo_dump demo_envelopes) demo_envelopes"
    using demo_pickle_ok
    by (simp add: readable_def demo_envelopes_def decode_managed_state_snapshot_def pickle_ok_def demo_pickle_def validate_snapshot_payload_def
        make_envelope_fields kgr_contains_def)
      (simp add: make_envelope_def require_key_encoding_version_def)
  have f: "functional (all_groups demo_envelopes)"
    by (auto simp: functional_def demo_envelopes_def groups_in_def make_envelope_fields)
  show ?thesis using repartition_agrees [OF demo_pickle_ok r, of 3] r f by (auto simp: demo_envelopes_def)
qed

end
