(* ===== verification/NodeAssignment.thy ===== *)
theory NodeAssignment
  imports ExecutionGraph "HOL-Library.Product_Lexorder" "HOL-Library.Multiset"
begin

section \<open>Node assignment (runtime/scheduler/assignment.py, placement.py)\<close>

text \<open>
  Round-robin placement pins every subtask to a worker node with enough free CPUs and GPUs. The node
  table of the cluster is an argument. Loops over nodes and subtasks are recursive functions; a
  worker node is a value, so the copies the code makes are implicit; resources are rationals where the code
  has floats. A vertex that is not yet placed has an empty list of nodes where the code has a list of -1. Shown: a successful
  allocation pins every subtask and overloads no node, and pinning the subtasks that a rescale adds counts those it
  retains.
\<close>

subsection \<open>Worker nodes\<close>

record worker_node =
  wn_index :: nat
  wn_cpu :: rat
  wn_gpu :: rat
  wn_tasks :: nat

definition fits_resources :: "worker_node \<Rightarrow> resources \<Rightarrow> bool" where
  "fits_resources w r \<longleftrightarrow> wn_cpu w \<ge> res_cpus r \<and> wn_gpu w \<ge> res_gpus r"

definition jv_resources :: "job_vertex \<Rightarrow> resources" where
  "jv_resources v = spec_resources (jv_spec v)"

definition can_host :: "worker_node \<Rightarrow> job_vertex \<Rightarrow> bool" where
  "can_host w v = fits_resources w (jv_resources v)"

definition consume :: "worker_node \<Rightarrow> resources \<Rightarrow> worker_node" where
  "consume w r = w\<lparr>wn_cpu := wn_cpu w - res_cpus r, wn_gpu := wn_gpu w - res_gpus r, wn_tasks := wn_tasks w + 1\<rparr>"

definition assign_vertex :: "worker_node \<Rightarrow> job_vertex \<Rightarrow> worker_node result" where
  "assign_vertex w v = (if \<not> can_host w v then Inl ValueError else Inr (consume w (jv_resources v)))"

text \<open>A row of \<open>ray.nodes()\<close>; absent CPU or GPU entries are zero.\<close>

record ray_node =
  rn_alive :: bool
  rn_head :: bool
  rn_id :: string
  rn_cpu :: "rat option"
  rn_gpu :: "rat option"

definition cluster_worker_nodes :: "ray_node list \<Rightarrow> worker_node list \<times> string list" where
  "cluster_worker_nodes table =
     (let live = filter (\<lambda>n. rn_alive n \<and> \<not> rn_head n) table
      in (map (\<lambda>(i, n). \<lparr>wn_index = i, wn_cpu = (case rn_cpu n of None \<Rightarrow> 0 | Some c \<Rightarrow> c),
                        wn_gpu = (case rn_gpu n of None \<Rightarrow> 0 | Some c \<Rightarrow> c), wn_tasks = 0\<rparr>) (enumerate 0 live),
          map rn_id live))"

subsection \<open>Allocation\<close>

text \<open>A descending stable sort by a tuple is an ascending one by the negated components.\<close>

definition order_vertices :: "job_vertex list \<Rightarrow> job_vertex list" where
  "order_vertices vs = sort_key (\<lambda>v. (- res_gpus (jv_resources v), - res_cpus (jv_resources v), - jv_concurrency v)) vs"

definition order_nodes :: "worker_node list \<Rightarrow> worker_node list" where
  "order_nodes ns = sort_key (\<lambda>w. (- wn_gpu w, - wn_cpu w, wn_tasks w, wn_index w)) ns"

text \<open>At most \<open>k\<close> nodes are tried, from a cursor that wraps around.\<close>

fun find_host :: "nat \<Rightarrow> resources \<Rightarrow> worker_node list \<Rightarrow> nat \<Rightarrow> (nat \<times> worker_node list \<times> nat) option" where
  "find_host 0 r ns c = None"
| "find_host (Suc k) r ns c =
     (let w = ns ! c; c' = (c + 1) mod length ns
      in if fits_resources w r then Some (wn_index w, ns[c := consume w r], c') else find_host k r ns c')"

text \<open>The node index of each subtask of a vertex, in order.\<close>

fun place_subtasks :: "nat \<Rightarrow> resources \<Rightarrow> worker_node list \<Rightarrow> nat \<Rightarrow> (nat list \<times> worker_node list) option" where
  "place_subtasks 0 r ns c = Some ([], ns)"
| "place_subtasks (Suc m) r ns c =
     (case find_host (length ns) r ns c of
        None \<Rightarrow> None
      | Some (i, ns1, c1) \<Rightarrow>
          (case place_subtasks m r ns1 c1 of None \<Rightarrow> None | Some (js, ns2) \<Rightarrow> Some (i # js, ns2)))"

fun allocate_vertices :: "job_vertex list \<Rightarrow> worker_node list \<Rightarrow> (int, nat list) dict \<Rightarrow> ((int, nat list) dict \<times> worker_node list) option" where
  "allocate_vertices [] ns a = Some (a, ns)"
| "allocate_vertices (v # vs) ns a =
     (case place_subtasks (nat (jv_concurrency v)) (jv_resources v) (order_nodes ns) 0 of
        None \<Rightarrow> None
      | Some (js, ns1) \<Rightarrow> allocate_vertices vs ns1 (AList.update (jv_id v) js a))"

definition round_robin_allocate :: "job_vertex list \<Rightarrow> worker_node list \<Rightarrow> (int, nat list) dict option" where
  "round_robin_allocate vs ns =
     (if ns = [] \<and> (\<exists>v \<in> set vs. jv_concurrency v \<noteq> 0) then None
      else map_option fst (allocate_vertices (order_vertices vs) ns (map (\<lambda>v. (jv_id v, [])) vs)))"

subsection \<open>Pins\<close>

text \<open>\<open>_node_pin_plan\<close>: the node id of every execution vertex.\<close>

text \<open>A list subscript: a negative index counts from the end.\<close>

definition item_at :: "'a list \<Rightarrow> int \<Rightarrow> 'a result" where
  "item_at xs i =
     (let j = (if i < 0 then i + int (length xs) else i)
      in if 0 \<le> j \<and> j < int (length xs) then Inr (xs ! nat j) else Inl IndexError)"

definition node_pin_plan :: "egraph \<Rightarrow> (int, nat list) dict \<Rightarrow> string list \<Rightarrow> (vertex_id, string) dict result" where
  "node_pin_plan g assignments ids =
     rfold (\<lambda>(vid, js) pins.
       case map_of (job_vertices g) vid of
         None \<Rightarrow> Inl ValueError
       | Some jv \<Rightarrow> rfold (\<lambda>(i, v) pins.
           rbind (item_at js i) (\<lambda>j.
           rbind (item_at ids (int j)) (\<lambda>node. Inr (AList.update (ev_id v) node pins)))) (execution_vertices jv) pins)
       assignments []"

definition round_robin_plan :: "ray_node list \<Rightarrow> egraph \<Rightarrow> (vertex_id, string) dict result" where
  "round_robin_plan table g =
     (case cluster_worker_nodes table of (ns, ids) \<Rightarrow>
       (case round_robin_allocate (map snd (job_vertices g)) ns of
          None \<Rightarrow> Inl PlacementError
        | Some a \<Rightarrow> node_pin_plan g a ids))"

text \<open>\<open>_reserve_retained_round_robin_nodes\<close>: nodes are addressed by their ids, the last one wins.\<close>

definition position_of :: "string list \<Rightarrow> string \<Rightarrow> nat option" where
  "position_of ids x = map_of (rev (map (\<lambda>(i, y). (y, i)) (enumerate 0 ids))) x"

definition reserve_retained ::
  "execution_vertex list \<Rightarrow> vertex_id set \<Rightarrow> (vertex_id, string) dict \<Rightarrow> string list \<Rightarrow> worker_node list \<Rightarrow> worker_node list result" where
  "reserve_retained vs requested owner ids ns =
     rfold (\<lambda>v ns.
       if ev_id v \<in> requested then Inr ns
       else
         (case map_of owner (ev_id v) of
            None \<Rightarrow> Inl PlacementError
          | Some node \<Rightarrow>
              (case position_of ids node of
                 None \<Rightarrow> Inl PlacementError
               | Some i \<Rightarrow>
                   if \<not> fits_resources (ns ! i) (ev_resources v) then Inl PlacementError
                   else Inr (ns[i := consume (ns ! i) (ev_resources v)])))) vs ns"

definition order_delta :: "execution_vertex list \<Rightarrow> execution_vertex list" where
  "order_delta vs = sort_key (\<lambda>v. (- res_gpus (ev_resources v), - res_cpus (ev_resources v), vertex_index (ev_id v))) vs"

fun place_delta ::
  "string list \<Rightarrow> execution_vertex list \<Rightarrow> worker_node list \<Rightarrow> nat \<Rightarrow> (vertex_id, string) dict \<Rightarrow> (vertex_id, string) dict result" where
  "place_delta ids [] ns c pins = Inr pins"
| "place_delta ids (v # vs) ns c pins =
     (case find_host (length ns) (ev_resources v) ns c of
        None \<Rightarrow> Inl PlacementError
      | Some (i, ns1, c1) \<Rightarrow> place_delta ids vs ns1 c1 (AList.update (ev_id v) (ids ! i) pins))"

definition allocate_round_robin_delta ::
  "execution_vertex list \<Rightarrow> worker_node list \<Rightarrow> string list \<Rightarrow> (vertex_id, string) dict result" where
  "allocate_round_robin_delta selected ns ids =
     (if ns = [] then Inl PlacementError else place_delta ids (order_delta selected) (order_nodes ns) 0 [])"

definition round_robin_plan_rescale ::
  "ray_node list \<Rightarrow> egraph \<Rightarrow> execution_vertex list \<Rightarrow> (vertex_id, string) dict \<Rightarrow> (vertex_id, string) dict result" where
  "round_robin_plan_rescale table g selected owner =
     (if selected = [] then Inr []
      else case cluster_worker_nodes table of (ns, ids) \<Rightarrow>
        rbind (reserve_retained (all_execution_vertices g) (ev_id ` set selected) owner ids ns) (\<lambda>ns1.
          allocate_round_robin_delta selected ns1 ids))"

subsection \<open>Accounting\<close>

text \<open>A ledger lists what was placed where; nodes hold what the ledger left of their capacity.\<close>

type_synonym ledger = "(resources \<times> nat) list"

definition used :: "(resources \<Rightarrow> rat) \<Rightarrow> ledger \<Rightarrow> nat \<Rightarrow> rat" where
  "used f l i = sum_list (map (\<lambda>(r, j). if j = i then f r else 0) l)"

definition balanced :: "worker_node list \<Rightarrow> ledger \<Rightarrow> worker_node list \<Rightarrow> bool" where
  "balanced ns0 l ns \<longleftrightarrow> distinct (map wn_index ns) \<and> (\<forall>(r, j) \<in> set l. j \<in> wn_index ` set ns0) \<and> wn_index ` set ns = wn_index ` set ns0 \<and>
     (\<forall>w0 \<in> set ns0. \<forall>w \<in> set ns. wn_index w = wn_index w0 \<longrightarrow>
        wn_cpu w = wn_cpu w0 - used res_cpus l (wn_index w) \<and> wn_gpu w = wn_gpu w0 - used res_gpus l (wn_index w) \<and>
        0 \<le> wn_cpu w \<and> 0 \<le> wn_gpu w)"

lemma used_snoc: "used f (l @ [(r, j)]) i = used f l i + (if j = i then f r else 0)"
  by (simp add: used_def)

lemma balanced_start:
  "distinct (map wn_index ns) \<Longrightarrow> \<forall>w \<in> set ns. 0 \<le> wn_cpu w \<and> 0 \<le> wn_gpu w \<Longrightarrow> balanced ns [] ns"
  by (auto simp: balanced_def used_def dest: inj_onD [OF iffD1 [OF distinct_map, THEN conjunct2]])

lemma balancedD:
  assumes "balanced ns0 l ns" "w0 \<in> set ns0" "w \<in> set ns" "wn_index w = wn_index w0"
  shows "wn_cpu w = wn_cpu w0 - used res_cpus l (wn_index w0)" "wn_gpu w = wn_gpu w0 - used res_gpus l (wn_index w0)"
    "0 \<le> wn_cpu w" "0 \<le> wn_gpu w"
  using assms unfolding balanced_def by metis+

lemma balanced_capacity:
  assumes "balanced ns0 l ns" "w \<in> set ns0"
  shows "used res_cpus l (wn_index w) \<le> wn_cpu w" "used res_gpus l (wn_index w) \<le> wn_gpu w"
proof -
  have "wn_index w \<in> wn_index ` set ns" using assms by (auto simp: balanced_def)
  then obtain w' where "w' \<in> set ns" "wn_index w' = wn_index w" by (metis imageE)
  with balancedD [OF assms(1,2)] show "used res_cpus l (wn_index w) \<le> wn_cpu w" "used res_gpus l (wn_index w) \<le> wn_gpu w"
    by (metis diff_ge_0_iff_ge)+
qed

lemma balanced_consume:
  assumes "balanced ns0 l ns" "c < length ns" "fits_resources (ns ! c) r"
  shows "balanced ns0 (l @ [(r, wn_index (ns ! c))]) (ns[c := consume (ns ! c) r])"
proof -
  let ?w = "ns ! c" and ?ns = "ns[c := consume (ns ! c) r]"
  have idx: "map wn_index ?ns = map wn_index ns" by (simp add: map_update consume_def) (metis assms(2) list_update_id map_update nth_map)
  then have ims: "wn_index ` set ?ns = wn_index ` set ns" by (metis list.set_map)
  have w: "?w \<in> set ns" using assms(2) by simp
  have "wn_cpu x = wn_cpu w0 - used res_cpus (l @ [(r, wn_index ?w)]) (wn_index x) \<and>
      wn_gpu x = wn_gpu w0 - used res_gpus (l @ [(r, wn_index ?w)]) (wn_index x) \<and> 0 \<le> wn_cpu x \<and> 0 \<le> wn_gpu x"
    if x: "x \<in> set ?ns" "w0 \<in> set ns0" "wn_index x = wn_index w0" for x w0
  proof -
    obtain j where j: "j < length ns" "x = ?ns ! j" using x(1) by (metis in_set_conv_nth length_list_update)
    show ?thesis
    proof (cases "j = c")
      case True
      then have "x = consume ?w r" using j assms(2) by simp
      moreover from this have "wn_index ?w = wn_index w0" using x(3) by (simp add: consume_def)
      ultimately show ?thesis using balancedD [OF assms(1) x(2) w] assms(3) x(3) by (simp add: used_snoc consume_def fits_resources_def)
    next
      case False
      then have xj: "x = ns ! j" using j by simp
      have "wn_index ?w \<noteq> wn_index x" using assms(1,2) False j(1) xj by (auto simp: balanced_def distinct_conv_nth)
      moreover have "x \<in> set ns" using xj j(1) by simp
      ultimately show ?thesis using balancedD [OF assms(1) x(2) _ x(3)] x(3) by (simp add: used_snoc)
    qed
  qed
  then have after: "\<forall>w0 \<in> set ns0. \<forall>x \<in> set ?ns. wn_index x = wn_index w0 \<longrightarrow>
      wn_cpu x = wn_cpu w0 - used res_cpus (l @ [(r, wn_index ?w)]) (wn_index x) \<and>
      wn_gpu x = wn_gpu w0 - used res_gpus (l @ [(r, wn_index ?w)]) (wn_index x) \<and> 0 \<le> wn_cpu x \<and> 0 \<le> wn_gpu x"
    by blast
  have "wn_index ?w \<in> wn_index ` set ns0" using assms(1) w by (auto simp: balanced_def)
  then have "\<forall>(q, j) \<in> set (l @ [(r, wn_index ?w)]). j \<in> wn_index ` set ns0" using assms(1) by (auto simp: balanced_def)
  with after assms(1) idx ims show ?thesis unfolding balanced_def by (metis (no_types, lifting))
qed

lemma balanced_permute: "balanced ns0 l ns \<Longrightarrow> mset ns' = mset ns \<Longrightarrow> balanced ns0 l ns'"
  unfolding balanced_def using mset_eq_setD by (metis mset_eq_imp_distinct_iff mset_map)

lemma find_host_balanced:
  assumes "balanced ns0 l ns" "c < length ns" "find_host k r ns c = Some (i, ns', c')"
  shows "balanced ns0 (l @ [(r, i)]) ns' \<and> length ns' = length ns \<and> c' < length ns"
  using assms(2,3)
proof (induction k arbitrary: c)
  case (Suc k)
  have "(c + 1) mod length ns < length ns" using Suc.prems(1) by (intro mod_less_divisor) linarith
  then show ?case using Suc balanced_consume [OF assms(1) Suc.prems(1), of r]
    by (auto simp: Let_def split: if_splits)
qed simp

lemma place_subtasks_balanced:
  assumes "balanced ns0 l ns" "ns = [] \<or> c < length ns" "place_subtasks m r ns c = Some (js, ns')"
  shows "length js = m \<and> balanced ns0 (l @ map (Pair r) js) ns'"
  using assms
proof (induction m arbitrary: l ns c js)
  case (Suc m)
  obtain i ns1 c1 js1 where st: "find_host (length ns) r ns c = Some (i, ns1, c1)"
    "place_subtasks m r ns1 c1 = Some (js1, ns')" "js = i # js1"
    using Suc.prems(3) by (auto split: option.splits)
  have "c < length ns" using Suc.prems(2) st(1) by (cases ns) auto
  from find_host_balanced [OF Suc.prems(1) this st(1)]
  have b: "balanced ns0 (l @ [(r, i)]) ns1" "c1 < length ns1" by auto
  from Suc.IH [OF b(1) _ st(2)] b(2) st(3) show ?case by simp
qed simp

text \<open>What an assignment places on the nodes, vertex by vertex.\<close>

definition vertex_ledger :: "(int, nat list) dict \<Rightarrow> job_vertex \<Rightarrow> ledger" where
  "vertex_ledger a v = map (Pair (jv_resources v)) (case map_of a (jv_id v) of None \<Rightarrow> [] | Some js \<Rightarrow> js)"

lemma allocate_keeps:
  "allocate_vertices vs ns a = Some (a', ns') \<Longrightarrow> k \<notin> jv_id ` set vs \<Longrightarrow> map_of a' k = map_of a k"
  by (induction vs ns a rule: allocate_vertices.induct) (auto simp: update_conv split: option.splits)

lemma allocate_vertices_balanced:
  assumes "distinct (map jv_id vs)" "balanced ns0 l ns" "allocate_vertices vs ns a = Some (a', ns')"
  shows "(\<forall>v \<in> set vs. \<exists>js. map_of a' (jv_id v) = Some js \<and> length js = nat (jv_concurrency v)) \<and>
    balanced ns0 (l @ concat (map (vertex_ledger a') vs)) ns'"
  using assms
proof (induction vs ns a arbitrary: l rule: allocate_vertices.induct)
  case (2 v vs ns a)
  obtain js ns1 where st: "place_subtasks (nat (jv_concurrency v)) (jv_resources v) (order_nodes ns) 0 = Some (js, ns1)"
    "allocate_vertices vs ns1 (AList.update (jv_id v) js a) = Some (a', ns')"
    using "2.prems"(3) by (auto split: option.splits)
  have "balanced ns0 l (order_nodes ns)" using "2.prems"(2) by (rule balanced_permute) (simp add: order_nodes_def)
  from place_subtasks_balanced [OF this _ st(1)]
  have b: "length js = nat (jv_concurrency v)" "balanced ns0 (l @ map (Pair (jv_resources v)) js) ns1" by auto
  have d: "distinct (map jv_id vs)" "jv_id v \<notin> jv_id ` set vs" using "2.prems"(1) by auto
  have "map_of a' (jv_id v) = Some js" using allocate_keeps [OF st(2) d(2)] by (simp add: update_conv)
  moreover from "2.IH" [OF st(1) refl d(1) b(2) st(2)]
  have "\<forall>x \<in> set vs. \<exists>js. map_of a' (jv_id x) = Some js \<and> length js = nat (jv_concurrency x)"
    "balanced ns0 (l @ map (Pair (jv_resources v)) js @ concat (map (vertex_ledger a') vs)) ns'" by auto
  moreover have "vertex_ledger a' v = map (Pair (jv_resources v)) js" if "map_of a' (jv_id v) = Some js"
    using that by (simp add: vertex_ledger_def)
  ultimately show ?case using b(1) by simp
qed simp

lemma used_append: "used f (l @ m) i = used f l i + used f m i"
  by (simp add: used_def)

lemma used_concat: "used f (concat (map g vs)) i = sum_list (map (\<lambda>v. used f (g v) i) vs)"
  by (induction vs) (auto simp: used_append, simp add: used_def)

lemma used_vertex_ledger:
  "used f (vertex_ledger a v) i = f (jv_resources v) * of_nat (count_list (case map_of a (jv_id v) of None \<Rightarrow> [] | Some js \<Rightarrow> js) i)"
proof -
  have "used f (map (Pair r) js) i = f r * of_nat (count_list js i)" for r js
    by (induction js) (auto simp: used_def algebra_simps)
  then show ?thesis by (simp add: vertex_ledger_def)
qed

text \<open>The demand of an assignment on a node: the resources of every subtask pinned to it.\<close>

definition demand :: "(resources \<Rightarrow> rat) \<Rightarrow> (int, nat list) dict \<Rightarrow> job_vertex list \<Rightarrow> nat \<Rightarrow> rat" where
  "demand f a vs i = sum_list (map (\<lambda>v. f (jv_resources v) *
     of_nat (count_list (case map_of a (jv_id v) of None \<Rightarrow> [] | Some js \<Rightarrow> js) i)) vs)"

lemma demand_used: "demand f a vs i = used f (concat (map (vertex_ledger a) vs)) i"
  by (simp add: demand_def used_concat used_vertex_ledger)

lemma sum_list_permute: "mset vs = mset ws \<Longrightarrow> sum_list (map g vs) = (sum_list (map g ws) :: rat)"
  using arg_cong [where f = "\<lambda>m. sum_mset (image_mset g m)"] by (simp flip: sum_mset_sum_list)

lemma demand_permute: "mset vs = mset ws \<Longrightarrow> demand f a vs i = demand f a ws i"
  unfolding demand_def by (rule sum_list_permute)

lemma mset_order_vertices: "mset (order_vertices vs) = mset vs"
  by (simp add: order_vertices_def)

subsection \<open>Examples\<close>

text \<open>A vertex of three CPU subtasks beside a GPU vertex, on a cluster of two workers and a head node.\<close>

definition ex_job_vertex :: "int \<Rightarrow> rat \<Rightarrow> rat \<Rightarrow> int \<Rightarrow> job_vertex" where
  "ex_job_vertex i cpus gpus n = make_job_vertex (\<lambda>_. ''g'')
     \<lparr>spec_index = i, spec_name = ''v'', spec_source = False, spec_operator = 0,
      spec_resources = \<lparr>num_cpus = Some cpus, num_gpus = Some gpus, res_concurrency = Some (Fixed n)\<rparr>\<rparr>"

definition ex_vertices :: "job_vertex list" where
  "ex_vertices = [ex_job_vertex 0 1 0 3, ex_job_vertex 1 1 1 1]"

definition ex_graph :: egraph where
  "ex_graph = \<lparr>g_namespace = ''n'', job_vertices = map (\<lambda>v. (jv_id v, v)) ex_vertices, job_edges = [], topology_epochs = []\<rparr>"

definition ex_table :: "ray_node list" where
  "ex_table = [\<lparr>rn_alive = True, rn_head = True, rn_id = ''h'', rn_cpu = Some 8, rn_gpu = None\<rparr>,
     \<lparr>rn_alive = True, rn_head = False, rn_id = ''a'', rn_cpu = Some 2, rn_gpu = None\<rparr>,
     \<lparr>rn_alive = True, rn_head = False, rn_id = ''b'', rn_cpu = Some 2, rn_gpu = Some 1\<rparr>]"

definition ex_delta :: "execution_vertex list" where
  "ex_delta = [make_execution_vertex ''g'' 0 ''v'' \<lparr>num_cpus = Some 1, num_gpus = Some 0, res_concurrency = Some (Fixed 3)\<rparr> 2 3 0]"

definition ex_owner :: "(vertex_id, string) dict" where
  "ex_owner = [(\<lparr>job_vertex_id = 0, vertex_index = 0\<rparr>, ''a''), (\<lparr>job_vertex_id = 0, vertex_index = 1\<rparr>, ''b''),
     (\<lparr>job_vertex_id = 1, vertex_index = 0\<rparr>, ''b'')]"

text \<open>
  C29. For job vertices with distinct ids and nodes with distinct indices: a successful round-robin allocation gives every vertex one node
  index per subtask, all of existing nodes, and the subtasks pinned to a node need no more CPUs and GPUs than it has.
\<close>

theorem round_robin_within_capacity:
  assumes "distinct (map jv_id vs)" "distinct (map wn_index ns)" "\<forall>w \<in> set ns. 0 \<le> wn_cpu w \<and> 0 \<le> wn_gpu w"
    and "round_robin_allocate vs ns = Some a"
  shows "(\<forall>v \<in> set vs. \<exists>js. map_of a (jv_id v) = Some js \<and> length js = nat (jv_concurrency v) \<and> set js \<subseteq> wn_index ` set ns) \<and>
    (\<forall>w \<in> set ns. demand res_cpus a vs (wn_index w) \<le> wn_cpu w \<and> demand res_gpus a vs (wn_index w) \<le> wn_gpu w)"
proof -
  obtain ns' where al: "allocate_vertices (order_vertices vs) ns (map (\<lambda>v. (jv_id v, [])) vs) = Some (a, ns')"
    using assms(4) by (auto simp: round_robin_allocate_def split: if_splits)
  have d: "distinct (map jv_id (order_vertices vs))"
    using assms(1) by (metis mset_map mset_order_vertices mset_eq_imp_distinct_iff)
  from allocate_vertices_balanced [OF d balanced_start [OF assms(2,3)] al]
  have full: "\<forall>v \<in> set vs. \<exists>js. map_of a (jv_id v) = Some js \<and> length js = nat (jv_concurrency v)"
    and b: "balanced ns (concat (map (vertex_ledger a) (order_vertices vs))) ns'"
    using mset_eq_setD [OF mset_order_vertices] by auto
  have "set js \<subseteq> wn_index ` set ns" if "v \<in> set vs" "map_of a (jv_id v) = Some js" for v js
  proof
    fix j assume "j \<in> set js"
    then have "(jv_resources v, j) \<in> set (vertex_ledger a v)" using that(2) by (simp add: vertex_ledger_def)
    then have "(jv_resources v, j) \<in> set (concat (map (vertex_ledger a) (order_vertices vs)))"
      using that(1) mset_eq_setD [OF mset_order_vertices, of vs] by auto
    with b show "j \<in> wn_index ` set ns" unfolding balanced_def by (metis (mono_tags, lifting) case_prodD)
  qed
  moreover have "demand f a vs i = used f (concat (map (vertex_ledger a) (order_vertices vs))) i" for f i
    using demand_permute [OF mset_order_vertices] by (metis demand_used)
  ultimately show ?thesis using full balanced_capacity [OF b] by metis
qed

theorem round_robin_within_capacity_witness:
  "\<exists>a. round_robin_allocate ex_vertices (fst (cluster_worker_nodes ex_table)) = Some a \<and> a = [(0, [0, 1, 0]), (1, [1])] \<and>
    (\<forall>w \<in> set (fst (cluster_worker_nodes ex_table)). demand res_cpus a ex_vertices (wn_index w) \<le> wn_cpu w)"
proof -
  let ?ns = "fst (cluster_worker_nodes ex_table)"
  have d: "distinct (map jv_id ex_vertices)" "distinct (map wn_index ?ns)" "\<forall>w \<in> set ?ns. 0 \<le> wn_cpu w \<and> 0 \<le> wn_gpu w" by code_simp+
  have r: "round_robin_allocate ex_vertices ?ns = Some [(0, [0, 1, 0]), (1, [1])]" by code_simp
  from round_robin_within_capacity [OF d r] r show ?thesis by blast
qed

subsection \<open>Accounting for a rescale\<close>

text \<open>What the pins of some vertices take from the node with an id.\<close>

definition pinned_demand :: "(resources \<Rightarrow> rat) \<Rightarrow> execution_vertex list \<Rightarrow> (vertex_id, string) dict \<Rightarrow> string \<Rightarrow> rat" where
  "pinned_demand f vs pins n = sum_list (map (\<lambda>v. if map_of pins (ev_id v) = Some n then f (ev_resources v) else 0) vs)"

lemma position_of_sound: "position_of ids x = Some i \<Longrightarrow> i < length ids \<and> ids ! i = x"
  unfolding position_of_def by (drule map_of_SomeD) (auto simp: in_set_enumerate_eq)

text \<open>A ledger accounts for pins when node \<open>i\<close> of the ledger is the node with the \<open>i\<close>-th id.\<close>

definition accounts :: "string list \<Rightarrow> execution_vertex list \<Rightarrow> (vertex_id, string) dict \<Rightarrow> ledger \<Rightarrow> bool" where
  "accounts ids vs pins l \<longleftrightarrow>
     list_all2 (\<lambda>v (r, i). r = ev_resources v \<and> i < length ids \<and> map_of pins (ev_id v) = Some (ids ! i)) vs l"

lemma accounts_used:
  "distinct ids \<Longrightarrow> accounts ids vs pins l \<Longrightarrow> i < length ids \<Longrightarrow> used f l i = pinned_demand f vs pins (ids ! i)"
proof (induction vs arbitrary: l)
  case (Cons v vs)
  then obtain j l1 where "l = (ev_resources v, j) # l1" "accounts ids vs pins l1" "j < length ids" "map_of pins (ev_id v) = Some (ids ! j)"
    by (auto simp: accounts_def list_all2_Cons1)
  then show ?case using Cons.IH [of l1] Cons.prems by (auto simp: used_def pinned_demand_def nth_eq_iff_index_eq)
qed (simp add: accounts_def used_def pinned_demand_def)

lemma reserve_retained_balanced:
  assumes "balanced ns0 [] ns" "map wn_index ns = [0..<length ids]" "reserve_retained vs req owner ids ns = Inr ns'"
  shows "\<exists>l. accounts ids (filter (\<lambda>v. ev_id v \<notin> req) vs) owner l \<and> balanced ns0 l ns' \<and> map wn_index ns' = [0..<length ids]"
proof -
  have "\<exists>l'. accounts ids (filter (\<lambda>v. ev_id v \<notin> req) vs) owner l' \<and> balanced ns0 (l @ l') ns' \<and> map wn_index ns' = [0..<length ids]"
    if "balanced ns0 l ns" "map wn_index ns = [0..<length ids]" "reserve_retained vs req owner ids ns = Inr ns'" for l
    using that
  proof (induction vs arbitrary: l ns)
    case Nil
    then show ?case by (auto simp: reserve_retained_def accounts_def intro: exI [of _ "[]"])
  next
    case (Cons v vs)
    show ?case
    proof (cases "ev_id v \<in> req")
      case True
      then show ?thesis using Cons by (simp add: reserve_retained_def)
    next
      case False
      then obtain node i where st: "map_of owner (ev_id v) = Some node" "position_of ids node = Some i"
        "fits_resources (ns ! i) (ev_resources v)"
        "reserve_retained vs req owner ids (ns[i := consume (ns ! i) (ev_resources v)]) = Inr ns'"
        using Cons.prems(3) by (auto simp: reserve_retained_def split: option.splits if_splits)
      have i: "i < length ids" "ids ! i = node" using position_of_sound [OF st(2)] by auto
      have len: "length ns = length ids" using arg_cong [OF Cons.prems(2), of length] by simp
      have at: "wn_index (ns ! i) = i" using arg_cong [OF Cons.prems(2), of "\<lambda>xs. xs ! i"] i(1) len by simp
      have b: "balanced ns0 (l @ [(ev_resources v, i)]) (ns[i := consume (ns ! i) (ev_resources v)])"
        using balanced_consume [OF Cons.prems(1) _ st(3)] i(1) len at by simp
      have m: "map wn_index (ns[i := consume (ns ! i) (ev_resources v)]) = [0..<length ids]"
        using Cons.prems(2) at i(1) by (simp add: map_update consume_def) (metis list_update_id nth_upt plus_nat.add_0)
      from Cons.IH [OF b m st(4)] obtain l' where "accounts ids (filter (\<lambda>v. ev_id v \<notin> req) vs) owner l'"
        "balanced ns0 (l @ (ev_resources v, i) # l') ns'" "map wn_index ns' = [0..<length ids]" by auto
      then show ?thesis using False st(1) i by (intro exI [of _ "(ev_resources v, i) # l'"]) (simp add: accounts_def)
    qed
  qed
  from this [of "[]"] assms show ?thesis by simp
qed

lemma place_delta_keeps:
  "place_delta ids vs ns c pins = Inr pins' \<Longrightarrow> k \<notin> ev_id ` set vs \<Longrightarrow> map_of pins' k = map_of pins k"
  by (induction ids vs ns c pins rule: place_delta.induct) (auto simp: update_conv split: option.splits)

lemma place_delta_balanced:
  assumes "balanced ns0 l ns" "c < length ns" "wn_index ` set ns0 = {..<length ids}" "distinct (map ev_id vs)"
    "place_delta ids vs ns c pins = Inr pins'"
  shows "\<exists>l' ns'. accounts ids vs pins' l' \<and> balanced ns0 (l @ l') ns'"
  using assms
proof (induction ids vs ns c pins arbitrary: l rule: place_delta.induct)
  case (1 ids ns c pins)
  then show ?case by (intro exI [of _ "[]"] exI [of _ ns]) (simp add: accounts_def)
next
  case (2 ids v vs ns c pins)
  obtain i ns1 c1 where st: "find_host (length ns) (ev_resources v) ns c = Some (i, ns1, c1)"
    "place_delta ids vs ns1 c1 (AList.update (ev_id v) (ids ! i) pins) = Inr pins'"
    using "2.prems"(5) by (auto split: option.splits)
  from find_host_balanced [OF "2.prems"(1,2) st(1)]
  have b: "balanced ns0 (l @ [(ev_resources v, i)]) ns1" "c1 < length ns1" by auto
  have i: "i < length ids" using b(1) "2.prems"(3) by (auto simp: balanced_def)
  have d: "distinct (map ev_id vs)" "ev_id v \<notin> ev_id ` set vs" using "2.prems"(4) by auto
  have pin: "map_of pins' (ev_id v) = Some (ids ! i)" using place_delta_keeps [OF st(2) d(2)] by (simp add: update_conv)
  from "2.IH" [OF st(1) refl refl b "2.prems"(3) d(1) st(2)]
  obtain l' ns' where "accounts ids vs pins' l'" "balanced ns0 (l @ (ev_resources v, i) # l') ns'" by auto
  then show ?case using i pin by (intro exI [of _ "(ev_resources v, i) # l'"] exI [of _ ns']) (simp add: accounts_def)
qed

text \<open>The live worker nodes of a table, with their capacities.\<close>

definition live_nodes :: "ray_node list \<Rightarrow> ray_node list" where
  "live_nodes table = filter (\<lambda>n. rn_alive n \<and> \<not> rn_head n) table"

definition capacity :: "rat option \<Rightarrow> rat" where
  "capacity c = (case c of None \<Rightarrow> 0 | Some q \<Rightarrow> q)"

lemma cluster_worker_nodes_at:
  assumes "cluster_worker_nodes table = (ns, ids)"
  shows "map wn_index ns = [0..<length ids]" "ids = map rn_id (live_nodes table)" "length ns = length ids"
    "i < length ids \<Longrightarrow> ns ! i = \<lparr>wn_index = i, wn_cpu = capacity (rn_cpu (live_nodes table ! i)),
       wn_gpu = capacity (rn_gpu (live_nodes table ! i)), wn_tasks = 0\<rparr>"
  using assms by (auto simp: cluster_worker_nodes_def Let_def live_nodes_def capacity_def nth_enumerate_eq intro!: nth_equalityI)

lemma mset_order_nodes: "mset (order_nodes ns) = mset ns"
  by (simp add: order_nodes_def)

lemma pinned_demand_permute: "mset vs = mset ws \<Longrightarrow> pinned_demand f vs pins n = pinned_demand f ws pins n"
  unfolding pinned_demand_def by (rule sum_list_permute)

definition retained_vertices :: "execution_vertex list \<Rightarrow> egraph \<Rightarrow> execution_vertex list" where
  "retained_vertices selected g = filter (\<lambda>v. ev_id v \<notin> ev_id ` set selected) (all_execution_vertices g)"

text \<open>
  C28. A rescale that adds subtasks and finds room pins each of them to a live worker node, and on every live node the retained
  subtasks together with the added ones need no more CPUs and GPUs than the node has. Node ids are assumed unique, as Ray
  generates them.
\<close>

theorem rescale_pins_within_capacity:
  assumes ids: "distinct (map rn_id (live_nodes table))"
    and cap: "\<forall>n \<in> set (live_nodes table). 0 \<le> capacity (rn_cpu n) \<and> 0 \<le> capacity (rn_gpu n)"
    and sel: "selected \<noteq> []" "distinct (map ev_id selected)"
    and plan: "round_robin_plan_rescale table g selected owner = Inr pins"
  shows "(\<forall>v \<in> set selected. \<exists>n \<in> set (live_nodes table). map_of pins (ev_id v) = Some (rn_id n)) \<and>
    (\<forall>n \<in> set (live_nodes table).
      pinned_demand res_cpus (retained_vertices selected g) owner (rn_id n) +
        pinned_demand res_cpus selected pins (rn_id n) \<le> capacity (rn_cpu n) \<and>
      pinned_demand res_gpus (retained_vertices selected g) owner (rn_id n) +
        pinned_demand res_gpus selected pins (rn_id n) \<le> capacity (rn_gpu n))"
proof -
  obtain ns ids where cw: "cluster_worker_nodes table = (ns, ids)" by (cases "cluster_worker_nodes table")
  note at = cluster_worker_nodes_at [OF cw]
  let ?kept = "retained_vertices selected g"
  obtain ns1 where res: "reserve_retained (all_execution_vertices g) (ev_id ` set selected) owner ids ns = Inr ns1"
    and pd: "ns1 \<noteq> []" "place_delta ids (order_delta selected) (order_nodes ns1) 0 [] = Inr pins"
    using plan sel(1) cw by (auto simp: round_robin_plan_rescale_def allocate_round_robin_delta_def result_simps split: if_splits)
  have "0 \<le> wn_cpu w \<and> 0 \<le> wn_gpu w" if w: "w \<in> set ns" for w
  proof -
    obtain i where i: "i < length ids" "w = ns ! i" using w unfolding in_set_conv_nth at(3) by blast
    have "length ids = length (live_nodes table)" by (simp add: at(2))
    then have "live_nodes table ! i \<in> set (live_nodes table)" using i(1) by simp
    then show ?thesis using cap unfolding i(2) at(4) [OF i(1)] by simp
  qed
  then have start: "balanced ns [] ns" using at(1) by (intro balanced_start) simp_all
  from reserve_retained_balanced [OF start at(1) res] obtain l where
    kept: "accounts ids ?kept owner l" and b: "balanced ns l ns1" unfolding retained_vertices_def by auto
  have bo: "balanced ns l (order_nodes ns1)" using b mset_order_nodes by (rule balanced_permute)
  have ms: "mset (order_delta selected) = mset selected" by (simp add: order_delta_def)
  have idx: "wn_index ` set ns = {..<length ids}" using arg_cong [OF at(1), of set] by auto
  have "0 < length (order_nodes ns1)" using pd(1) arg_cong [OF mset_order_nodes, of size ns1] by simp
  moreover have "distinct (map ev_id (order_delta selected))"
    using sel(2) ms by (metis mset_map mset_eq_imp_distinct_iff)
  ultimately obtain l' ns' where added: "accounts ids (order_delta selected) pins l'" and b': "balanced ns (l @ l') ns'"
    using place_delta_balanced [OF bo _ idx _ pd(2)] by blast
  have live: "\<exists>n \<in> set (live_nodes table). map_of pins (ev_id v) = Some (rn_id n)" if v: "v \<in> set selected" for v
  proof -
    have "v \<in> set (order_delta selected)" using v mset_eq_setD [OF ms] by simp
    then obtain i where "i < length ids" "map_of pins (ev_id v) = Some (ids ! i)"
      using added by (auto simp: accounts_def list_all2_conv_all_nth in_set_conv_nth)
    then show ?thesis using at(2) by auto
  qed
  have total: "pinned_demand f ?kept owner (ids ! i) + pinned_demand f selected pins (ids ! i) = used f (l @ l') i"
    if "i < length ids" for f i
    using that kept added ids at(2) by (simp add: used_append accounts_used pinned_demand_permute [OF ms, symmetric])
  show ?thesis
  proof (intro conjI ballI)
    fix n assume "n \<in> set (live_nodes table)"
    then obtain i where i: "i < length ids" "n = live_nodes table ! i" unfolding at(2) in_set_conv_nth by auto
    then have n: "ids ! i = rn_id n" "ns ! i \<in> set ns" using at(2,3) by simp_all
    note left = balanced_capacity [OF b' n(2)] total [OF i(1), unfolded n(1)] at(4) [OF i(1)] i(2)
    show "pinned_demand res_cpus ?kept owner (rn_id n) + pinned_demand res_cpus selected pins (rn_id n) \<le> capacity (rn_cpu n)"
      using left by simp
    show "pinned_demand res_gpus ?kept owner (rn_id n) + pinned_demand res_gpus selected pins (rn_id n) \<le> capacity (rn_gpu n)"
      using left by simp
  qed (use live in blast)
qed

theorem rescale_pins_within_capacity_witness:
  "\<exists>pins. round_robin_plan_rescale ex_table ex_graph ex_delta ex_owner = Inr pins \<and>
    pins = [(\<lparr>job_vertex_id = 0, vertex_index = 2\<rparr>, ''a'')] \<and>
    (\<forall>v \<in> set ex_delta. \<exists>n \<in> set (live_nodes ex_table). map_of pins (ev_id v) = Some (rn_id n))"
proof -
  have h: "distinct (map rn_id (live_nodes ex_table))"
    "\<forall>n \<in> set (live_nodes ex_table). 0 \<le> capacity (rn_cpu n) \<and> 0 \<le> capacity (rn_gpu n)"
    "ex_delta \<noteq> []" "distinct (map ev_id ex_delta)" by code_simp+
  have r: "round_robin_plan_rescale ex_table ex_graph ex_delta ex_owner = Inr [(\<lparr>job_vertex_id = 0, vertex_index = 2\<rparr>, ''a'')]"
    by code_simp
  from rescale_pins_within_capacity [OF h r] r show ?thesis by blast
qed

end
