(* ===== verification/Placement.thy ===== *)
theory Placement
  imports Rescaling NodeAssignment
begin

section \<open>Placement plans and their reservations (runtime/scheduler/placement.py, job_master.py)\<close>

text \<open>
  A placement plan owns Ray placement groups, one per physical actor. The job master holds one
  plan, extends it in two phases during a rescale, and remembers what it could not release. Ray
  is a parameter: creating a group, waiting for groups and removing one may fail, and a removal that
  raises leaves the group reserved. Plans and transitions are mutable objects that several holders
  share, so they live in explicit stores and are named by their position. PlacementOwnership shows
  that no reservation is lost.
\<close>

subsection \<open>Ray's reservations\<close>

type_synonym group_bundle = "(string, rat) dict"

record ray_groups =
  live_groups :: "(nat, group_bundle) dict"
  created_groups :: nat
  removed_groups :: "nat list"

text \<open>The groups whose removal raises at the moment of a call.\<close>

type_synonym faults = "nat \<Rightarrow> bool"

definition create_group :: "group_bundle \<Rightarrow> ray_groups \<Rightarrow> ray_groups" where
  "create_group b w = w\<lparr>live_groups := live_groups w @ [(created_groups w, b)], created_groups := created_groups w + 1\<rparr>"

definition remove_group :: "nat \<Rightarrow> ray_groups \<Rightarrow> ray_groups" where
  "remove_group g w = w\<lparr>live_groups := filter (\<lambda>(h, _). h \<noteq> g) (live_groups w), removed_groups := removed_groups w @ [g]\<rparr>"

subsection \<open>Plans\<close>

datatype strategy = NativeStrategy | RoundRobinStrategy | PlacementGroupStrategy string rat

definition make_group_strategy :: "string \<Rightarrow> rat \<Rightarrow> strategy result" where
  "make_group_strategy kind ready_timeout =
     (if kind \<notin> {''PACK'', ''SPREAD''} then Inl ValueError else Inr (PlacementGroupStrategy kind ready_timeout))"

record placement_plan =
  node_by_vertex :: "(vertex_id, string) dict"
  placement_group :: "nat option"
  placement_group_by_vertex :: "(vertex_id, nat) dict"
  bundle_by_vertex :: "(vertex_id, int) dict"
  on_rollback :: bool
  plan_strategy :: "strategy option"
  has_remove_group :: bool
  plan_closed :: bool

definition empty_plan :: placement_plan where
  "empty_plan = \<lparr>node_by_vertex = [], placement_group = None, placement_group_by_vertex = [], bundle_by_vertex = [],
     on_rollback = False, plan_strategy = None, has_remove_group = False, plan_closed = False\<rparr>"

definition node_for :: "placement_plan \<Rightarrow> vertex_id \<Rightarrow> string option" where
  "node_for p v = map_of (node_by_vertex p) v"

definition bundle_for :: "placement_plan \<Rightarrow> vertex_id \<Rightarrow> int" where
  "bundle_for p v = (case map_of (bundle_by_vertex p) v of None \<Rightarrow> -1 | Some b \<Rightarrow> b)"

definition placement_group_for :: "placement_plan \<Rightarrow> vertex_id \<Rightarrow> nat option" where
  "placement_group_for p v = (case map_of (placement_group_by_vertex p) v of None \<Rightarrow> placement_group p | Some g \<Rightarrow> Some g)"

definition uses_placement_group :: "placement_plan \<Rightarrow> bool" where
  "uses_placement_group p \<longleftrightarrow> placement_group p \<noteq> None \<or> placement_group_by_vertex p \<noteq> []"

fun unique_objects :: "nat list \<Rightarrow> nat set \<Rightarrow> nat list" where
  "unique_objects [] seen = []"
| "unique_objects (g # gs) seen =
     (if g \<in> seen then unique_objects gs seen else g # unique_objects gs (insert g seen))"

definition group_owners :: "nat \<Rightarrow> placement_plan \<Rightarrow> vertex_id list" where
  "group_owners g p = map fst (filter (\<lambda>(_, h). h = g) (placement_group_by_vertex p))"

definition drop_vertices :: "vertex_id list \<Rightarrow> placement_plan \<Rightarrow> placement_plan" where
  "drop_vertices vs p = p\<lparr>placement_group_by_vertex := fold AList.delete vs (placement_group_by_vertex p),
     bundle_by_vertex := fold AList.delete vs (bundle_by_vertex p)\<rparr>"

text \<open>The removal loop of \<open>close\<close>: a failed removal keeps the handle and the loop goes on.\<close>

fun close_groups :: "faults \<Rightarrow> nat list \<Rightarrow> ray_groups \<times> placement_plan \<Rightarrow> (ray_groups \<times> placement_plan) \<times> bool" where
  "close_groups fails [] (w, p) = ((w, p), False)"
| "close_groups fails (g # gs) (w, p) =
     (if fails g then (fst (close_groups fails gs (w, p)), True)
      else
        let p' = drop_vertices (group_owners g p) p
        in close_groups fails gs
             (remove_group g w, if placement_group p' = Some g then p'\<lparr>placement_group := None\<rparr> else p'))"

definition owned_groups :: "placement_plan \<Rightarrow> nat list" where
  "owned_groups p = map snd (placement_group_by_vertex p)"

text \<open>
  \<open>close\<close>, also \<open>rollback\<close> and \<open>reconcile\<close> of a plan. A plan without a removal function releases through its aggregate
  callback; whether that raises is an argument.
\<close>

definition close_plan :: "faults \<Rightarrow> bool \<Rightarrow> ray_groups \<times> placement_plan \<Rightarrow> (ray_groups \<times> placement_plan) \<times> py_error option" where
  "close_plan fails callback_fails = (\<lambda>(w, p).
     if plan_closed p then ((w, p), None)
     else
       let groups = unique_objects (owned_groups p @ (case placement_group p of None \<Rightarrow> [] | Some g \<Rightarrow> [g])) {};
           (wp, failed) = (if has_remove_group p then close_groups fails groups (w, p) else ((w, p), False))
       in if \<not> has_remove_group p \<and> on_rollback p \<and> callback_fails then ((w, p), Some RuntimeError)
          else if failed then (wp, Some RuntimeError)
          else ((fst wp, (snd wp)\<lparr>node_by_vertex := [], placement_group_by_vertex := [], bundle_by_vertex := [],
                   placement_group := None, on_rollback := False, plan_closed := True\<rparr>), None))"

definition merge_dict :: "('k, 'v) dict \<Rightarrow> ('k, 'v) dict \<Rightarrow> ('k, 'v) dict" where
  "merge_dict d e = fold (\<lambda>(k, v). AList.update k v) e d"

text \<open>\<open>_adopt\<close>: the owner and the emptied candidate.\<close>

definition adopt_plan :: "placement_plan \<Rightarrow> placement_plan \<Rightarrow> (placement_plan \<times> placement_plan) result" where
  "adopt_plan p c =
     (if plan_closed c then Inl RuntimeError
      else Inr (p\<lparr>node_by_vertex := merge_dict (node_by_vertex p) (node_by_vertex c),
                  placement_group_by_vertex := merge_dict (placement_group_by_vertex p) (placement_group_by_vertex c),
                  bundle_by_vertex := merge_dict (bundle_by_vertex p) (bundle_by_vertex c)\<rparr>,
                c\<lparr>node_by_vertex := [], placement_group_by_vertex := [], bundle_by_vertex := [],
                  placement_group := None, on_rollback := False, plan_closed := True\<rparr>))"

text \<open>The loop of \<open>_release_vertices\<close>; \<open>None\<close> for the error says that no removal failed.\<close>

fun release_groups ::
  "faults \<Rightarrow> vertex_id list \<Rightarrow> nat list \<Rightarrow> ray_groups \<times> placement_plan \<Rightarrow> (ray_groups \<times> placement_plan) \<times> py_error option" where
  "release_groups fails selected [] (w, p) = ((w, p), None)"
| "release_groups fails selected (g # gs) (w, p) =
     (let owners = group_owners g p
      in if \<not> set owners \<subseteq> set selected then ((w, p), Some PlacementError)
         else if fails g then
           (case release_groups fails selected gs (w, p) of (wp, e) \<Rightarrow> (wp, Some (case e of None \<Rightarrow> RuntimeError | Some x \<Rightarrow> x)))
         else release_groups fails selected gs (remove_group g w, drop_vertices owners p))"

definition release_vertices ::
  "faults \<Rightarrow> vertex_id list \<Rightarrow> ray_groups \<times> placement_plan \<Rightarrow> (ray_groups \<times> placement_plan) \<times> py_error option" where
  "release_vertices fails selected = (\<lambda>(w, p).
     if placement_group p \<noteq> None \<and> selected \<noteq> [] then ((w, p), Some PlacementError)
     else
       let groups = unique_objects (List.map_filter (map_of (placement_group_by_vertex p)) selected) {}
       in if groups \<noteq> [] \<and> \<not> has_remove_group p then ((w, p), Some PlacementError)
          else
            (case release_groups fails selected groups (w, p) of
               ((w', p'), Some e) \<Rightarrow> ((w', p'), Some e)
             | ((w', p'), None) \<Rightarrow>
                 ((w', p'\<lparr>node_by_vertex := fold AList.delete selected (node_by_vertex p'),
                          bundle_by_vertex := fold AList.delete selected (bundle_by_vertex p')\<rparr>), None)))"

subsection \<open>Strategies\<close>

text \<open>
  What Ray and the cluster do during one planning call: the node table, how many groups are created before a creation raises,
  whether the groups become ready in time, and which removals of the cleanup raise.
\<close>

record planning =
  node_table :: "ray_node list"
  create_limit :: nat
  groups_ready :: bool
  cleanup_fails :: faults

text \<open>A plan, a plain \<open>PlacementError\<close>, a \<open>PlacementCleanupError\<close> with the plan it carries, or another exception.\<close>

datatype planned = Planned placement_plan | Infeasible | Incomplete placement_plan | Failed py_error

definition vertex_bundle :: "resources \<Rightarrow> group_bundle" where
  "vertex_bundle r = (''CPU'', res_cpus r) # (if res_gpus r \<noteq> 0 then [(''GPU'', res_gpus r)] else [])"

fun reserve_groups ::
  "nat \<Rightarrow> execution_vertex list \<Rightarrow> ray_groups \<Rightarrow> (vertex_id, nat) dict \<Rightarrow> (vertex_id, int) dict \<Rightarrow>
   bool \<times> ray_groups \<times> (vertex_id, nat) dict \<times> (vertex_id, int) dict" where
  "reserve_groups k [] w gs bs = (True, w, gs, bs)"
| "reserve_groups 0 (v # vs) w gs bs = (False, w, gs, bs)"
| "reserve_groups (Suc k) (v # vs) w gs bs =
     reserve_groups k vs (create_group (vertex_bundle (ev_resources v)) w)
       (AList.update (ev_id v) (created_groups w) gs) (AList.update (ev_id v) 0 bs)"

definition group_plan_vertices ::
  "strategy \<Rightarrow> rat \<Rightarrow> execution_vertex list \<Rightarrow> rat option \<Rightarrow> planning \<Rightarrow> ray_groups \<Rightarrow> ray_groups \<times> planned" where
  "group_plan_vertices st ready vs timeout pl w =
     (let base = empty_plan\<lparr>plan_strategy := Some st, has_remove_group := True\<rparr>
      in if vs = [] then (w, Planned base)
         else
           case reserve_groups (create_limit pl) vs w [] [] of
             (created, w1, gs, bs) \<Rightarrow>
               let p = base\<lparr>placement_group_by_vertex := gs, bundle_by_vertex := bs\<rparr>;
                   ready_timeout = (case timeout of None \<Rightarrow> ready | Some t \<Rightarrow> min ready t)
               in if created \<and> 0 < ready_timeout \<and> groups_ready pl then (w1, Planned p)
                  else
                    case close_plan (cleanup_fails pl) False (w1, p) of
                      ((w2, p2), None) \<Rightarrow> (w2, Infeasible)
                    | ((w2, p2), Some _) \<Rightarrow> (w2, Incomplete p2))"

definition pins_planned :: "strategy \<Rightarrow> (vertex_id, string) dict result \<Rightarrow> planned" where
  "pins_planned st r =
     (case r of
        Inr pins \<Rightarrow> Planned (empty_plan\<lparr>node_by_vertex := pins, plan_strategy := Some st\<rparr>)
      | Inl e \<Rightarrow> if e = PlacementError then Infeasible else Failed e)"

definition strategy_plan :: "strategy \<Rightarrow> egraph \<Rightarrow> planning \<Rightarrow> ray_groups \<Rightarrow> ray_groups \<times> planned" where
  "strategy_plan st g pl w =
     (case st of
        NativeStrategy \<Rightarrow> (w, Planned (empty_plan\<lparr>plan_strategy := Some st\<rparr>))
      | RoundRobinStrategy \<Rightarrow> (w, pins_planned st (round_robin_plan (node_table pl) g))
      | PlacementGroupStrategy _ ready \<Rightarrow> group_plan_vertices st ready (all_execution_vertices g) None pl w)"

text \<open>Native placement takes the base class's restriction of a whole plan to the added vertices.\<close>

definition restrict_plan :: "vertex_id set \<Rightarrow> placement_plan \<Rightarrow> placement_plan" where
  "restrict_plan requested p = p\<lparr>
     node_by_vertex := filter (\<lambda>(v, _). v \<in> requested) (node_by_vertex p),
     placement_group_by_vertex := filter (\<lambda>(v, _). v \<in> requested) (placement_group_by_vertex p),
     bundle_by_vertex := filter (\<lambda>(v, _). v \<in> requested) (bundle_by_vertex p)\<rparr>"

definition strategy_plan_rescale ::
  "strategy \<Rightarrow> egraph \<Rightarrow> execution_vertex list \<Rightarrow> placement_plan \<Rightarrow> rat option \<Rightarrow> planning \<Rightarrow> ray_groups \<Rightarrow> ray_groups \<times> planned" where
  "strategy_plan_rescale st g vs owner timeout pl w =
     (case st of
        NativeStrategy \<Rightarrow> (w, Planned (restrict_plan (ev_id ` set vs) (empty_plan\<lparr>plan_strategy := Some st\<rparr>)))
      | RoundRobinStrategy \<Rightarrow> (w, pins_planned st (round_robin_plan_rescale (node_table pl) g vs (node_by_vertex owner)))
      | PlacementGroupStrategy _ ready \<Rightarrow> group_plan_vertices st ready vs timeout pl w)"

definition placement_strategies :: "bool \<Rightarrow> bool \<Rightarrow> bool \<Rightarrow> bool \<Rightarrow> string \<Rightarrow> rat \<Rightarrow> strategy list result" where
  "placement_strategies debug has_workers enabled balanced_mode kind ready_timeout =
     (if debug \<or> \<not> has_workers then Inr [NativeStrategy]
      else if enabled \<and> \<not> balanced_mode
      then rbind (make_group_strategy kind ready_timeout) (\<lambda>st. Inr [st, RoundRobinStrategy, NativeStrategy])
      else Inr [RoundRobinStrategy, NativeStrategy])"

subsection \<open>Transitions and the job master\<close>

record placement_transition =
  tr_owner :: nat
  tr_candidate :: nat
  tr_removed :: "vertex_id list"
  tr_committed :: bool
  tr_released :: bool

datatype pending_cleanup = PendingPlan nat | PendingTransition nat

record placement_master =
  m_ray :: ray_groups
  m_plans :: "placement_plan list"
  m_transitions :: "placement_transition list"
  m_plan :: "nat option"
  m_pending :: "pending_cleanup list"
  m_graph :: egraph

definition on_plan ::
  "(ray_groups \<times> placement_plan \<Rightarrow> (ray_groups \<times> placement_plan) \<times> py_error option) \<Rightarrow> nat \<Rightarrow> placement_master \<Rightarrow>
   placement_master \<times> py_error option" where
  "on_plan f r s =
     (case f (m_ray s, m_plans s ! r) of ((w, p), e) \<Rightarrow> (s\<lparr>m_ray := w, m_plans := (m_plans s)[r := p]\<rparr>, e))"

definition close_at :: "faults \<Rightarrow> nat \<Rightarrow> placement_master \<Rightarrow> placement_master \<times> py_error option" where
  "close_at fails r s = on_plan (close_plan fails False) r s"

definition commit_transition :: "nat \<Rightarrow> placement_master \<Rightarrow> placement_master \<times> py_error option" where
  "commit_transition t s =
     (let x = m_transitions s ! t
      in if tr_committed x then (s, None)
         else
           case adopt_plan (m_plans s ! tr_owner x) (m_plans s ! tr_candidate x) of
             Inl e \<Rightarrow> (s, Some e)
           | Inr (p, c) \<Rightarrow>
               (s\<lparr>m_plans := (m_plans s)[tr_owner x := p, tr_candidate x := c],
                  m_transitions := (m_transitions s)[t := x\<lparr>tr_committed := True\<rparr>]\<rparr>, None))"

definition release_retired :: "faults \<Rightarrow> nat \<Rightarrow> placement_master \<Rightarrow> placement_master \<times> py_error option" where
  "release_retired fails t s =
     (let x = m_transitions s ! t
      in if \<not> tr_committed x then (s, Some RuntimeError)
         else if tr_released x then (s, None)
         else
           case on_plan (release_vertices fails (tr_removed x)) (tr_owner x) s of
             (s', None) \<Rightarrow> (s'\<lparr>m_transitions := (m_transitions s')[t := x\<lparr>tr_released := True\<rparr>]\<rparr>, None)
           | (s', Some e) \<Rightarrow> (s', Some e))"

definition rollback_transition :: "faults \<Rightarrow> nat \<Rightarrow> placement_master \<Rightarrow> placement_master \<times> py_error option" where
  "rollback_transition fails t s =
     (let x = m_transitions s ! t
      in if tr_committed x then (s, Some RuntimeError) else close_at fails (tr_candidate x) s)"

definition reconcile_transition :: "faults \<Rightarrow> nat \<Rightarrow> placement_master \<Rightarrow> placement_master \<times> py_error option" where
  "reconcile_transition fails t s =
     (if tr_committed (m_transitions s ! t) then release_retired fails t s else rollback_transition fails t s)"

definition remember_pending :: "pending_cleanup \<Rightarrow> placement_master \<Rightarrow> placement_master" where
  "remember_pending x s = (if x \<in> set (m_pending s) then s else s\<lparr>m_pending := m_pending s @ [x]\<rparr>)"

definition reconcile_item :: "faults \<Rightarrow> pending_cleanup \<Rightarrow> placement_master \<Rightarrow> placement_master \<times> py_error option" where
  "reconcile_item fails x s =
     (case x of PendingPlan r \<Rightarrow> close_at fails r s | PendingTransition t \<Rightarrow> reconcile_transition fails t s)"

fun reconcile_items ::
  "faults \<Rightarrow> pending_cleanup list \<Rightarrow> placement_master \<Rightarrow> pending_cleanup list \<Rightarrow> placement_master \<times> pending_cleanup list" where
  "reconcile_items fails [] s remaining = (s, remaining)"
| "reconcile_items fails (x # xs) s remaining =
     (case reconcile_item fails x s of
        (s', None) \<Rightarrow> reconcile_items fails xs s' remaining
      | (s', Some _) \<Rightarrow> reconcile_items fails xs s' (remaining @ [x]))"

definition reconcile_pending :: "faults \<Rightarrow> placement_master \<Rightarrow> placement_master \<times> py_error option" where
  "reconcile_pending fails s =
     (case reconcile_items fails (m_pending s) s [] of
        (s', remaining) \<Rightarrow> (s'\<lparr>m_pending := remaining\<rparr>, if remaining \<noteq> [] then Some RuntimeError else None))"

definition close_placement_plan :: "faults \<Rightarrow> placement_master \<Rightarrow> placement_master \<times> py_error option" where
  "close_placement_plan fails s =
     (case m_plan s of
        None \<Rightarrow> (s, None)
      | Some r \<Rightarrow>
          (case close_at fails r s of
             (s', None) \<Rightarrow> (s'\<lparr>m_plan := None\<rparr>, None)
           | (s', Some e) \<Rightarrow> (s', Some e)))"

definition add_plan :: "ray_groups \<Rightarrow> placement_plan \<Rightarrow> placement_master \<Rightarrow> placement_master" where
  "add_plan w p s = s\<lparr>m_ray := w, m_plans := m_plans s @ [p]\<rparr>"

text \<open>
  One attempt of the cascade: the planning call, whether every actor could be instantiated, and the removals that fail while a
  failed instantiation is rolled back.
\<close>

record attempt =
  at_planning :: planning
  at_instantiated :: bool
  at_rollback_fails :: faults

datatype placed = Placed nat | CleanupError nat | NextStrategy | OtherError py_error

definition place_workers :: "attempt \<Rightarrow> strategy \<Rightarrow> placement_master \<Rightarrow> placement_master \<times> placed" where
  "place_workers a st s =
     (let r = length (m_plans s)
      in case strategy_plan st (m_graph s) (at_planning a) (m_ray s) of
           (w, Planned p) \<Rightarrow>
             (let s1 = add_plan w p s
              in if at_instantiated a then (s1, Placed r)
                 else
                   case close_at (at_rollback_fails a) r s1 of
                     (s2, None) \<Rightarrow> (s2, OtherError DeploymentError)
                   | (s2, Some _) \<Rightarrow> (s2, CleanupError r))
         | (w, Incomplete p) \<Rightarrow> (add_plan w p s, CleanupError r)
         | (w, Infeasible) \<Rightarrow> (s\<lparr>m_ray := w\<rparr>, NextStrategy)
         | (w, Failed e) \<Rightarrow> (s\<lparr>m_ray := w\<rparr>, OtherError e))"

fun try_strategies :: "(strategy \<times> attempt) list \<Rightarrow> placement_master \<Rightarrow> placement_master \<times> py_error option" where
  "try_strategies [] s = (s, Some DeploymentError)"
| "try_strategies ((st, a) # rest) s =
     (case place_workers a st s of
        (s', Placed r) \<Rightarrow> (s'\<lparr>m_plan := Some r\<rparr>, None)
      | (s', CleanupError r) \<Rightarrow> (remember_pending (PendingPlan r) s', Some PlacementCleanupError)
      | (s', NextStrategy) \<Rightarrow> try_strategies rest s'
      | (s', OtherError e) \<Rightarrow> (s', Some e))"

definition create_workers ::
  "faults \<Rightarrow> faults \<Rightarrow> (strategy \<times> attempt) list \<Rightarrow> placement_master \<Rightarrow> placement_master \<times> py_error option" where
  "create_workers f1 f2 cascade s =
     (case reconcile_pending f1 s of
        (s1, Some e) \<Rightarrow> (s1, Some e)
      | (s1, None) \<Rightarrow>
          (case close_placement_plan f2 s1 of
             (s2, Some e) \<Rightarrow> (s2, Some e)
           | (s2, None) \<Rightarrow> try_strategies cascade s2))"

text \<open>\<open>PlacementPlan.begin_rescale\<close> as the job master calls it.\<close>

definition begin_rescale_placement ::
  "planning \<Rightarrow> rescale_plan \<Rightarrow> rat option \<Rightarrow> placement_master \<Rightarrow> placement_master \<times> nat result" where
  "begin_rescale_placement pl plan timeout s =
     (case m_plan s of
        None \<Rightarrow> (s, Inl RuntimeError)
      | Some r \<Rightarrow>
          if plan_closed (m_plans s ! r) then (s, Inl RuntimeError)
          else
            (case plan_strategy (m_plans s ! r) of
               None \<Rightarrow> (s, Inl PlacementError)
             | Some st \<Rightarrow>
                 (case strategy_plan_rescale st (new_graph plan) (added (plan_delta plan)) (m_plans s ! r) timeout pl (m_ray s) of
                    (w, Planned c) \<Rightarrow>
                      (let s1 = add_plan w c s
                       in (s1\<lparr>m_transitions := m_transitions s1 @
                             [\<lparr>tr_owner = r, tr_candidate = length (m_plans s), tr_removed = map ev_id (removed (plan_delta plan)),
                               tr_committed = False, tr_released = False\<rparr>]\<rparr>, Inr (length (m_transitions s))))
                  | (w, Incomplete c) \<Rightarrow>
                      (remember_pending (PendingPlan (length (m_plans s))) (add_plan w c s), Inl PlacementCleanupError)
                  | (w, Infeasible) \<Rightarrow> (s\<lparr>m_ray := w\<rparr>, Inl PlacementError)
                  | (w, Failed e) \<Rightarrow> (s\<lparr>m_ray := w\<rparr>, Inl e))))"

text \<open>The placement part of \<open>_retire_removed_actors\<close>; whether the retired actors stopped is an argument.\<close>

definition retire_removed :: "faults \<Rightarrow> bool \<Rightarrow> nat \<Rightarrow> placement_master \<Rightarrow> placement_master \<times> py_error option" where
  "retire_removed fails stopped t s =
     (if \<not> stopped then (remember_pending (PendingTransition t) s, Some RuntimeError)
      else
        case release_retired fails t s of
          (s', None) \<Rightarrow> (s', None)
        | (s', Some e) \<Rightarrow> (remember_pending (PendingTransition t) s', Some e))"

text \<open>The placement part of \<open>_restore_precommit_runtime\<close>.\<close>

definition abort_placement :: "faults \<Rightarrow> nat \<Rightarrow> placement_master \<Rightarrow> placement_master" where
  "abort_placement fails t s =
     (case rollback_transition fails t s of
        (s', None) \<Rightarrow> s'
      | (s', Some _) \<Rightarrow> remember_pending (PendingTransition t) s')"

text \<open>
  How the rest of a rescale ends: rejected by validation, failing before its commit point, or committed, with the retired
  actors stopped or not.
\<close>

datatype rescale_outcome = Rejected | Aborted | Committed bool

definition rescale_placement ::
  "faults \<Rightarrow> planning \<Rightarrow> rat option \<Rightarrow> faults \<Rightarrow> rescale_outcome \<Rightarrow> (vertex_id \<Rightarrow> string) \<Rightarrow> int \<Rightarrow> int \<Rightarrow> string \<Rightarrow>
   placement_master \<Rightarrow> placement_master \<times> py_error option" where
  "rescale_placement f1 pl timeout f2 outcome gen op p oid s =
     (case reconcile_pending f1 s of
        (s1, Some e) \<Rightarrow> (s1, Some e)
      | (s1, None) \<Rightarrow>
          (case build_plan gen (m_graph s1) op (PInt p) (PStr oid) of
             Inl e \<Rightarrow> (s1, Some e)
           | Inr plan \<Rightarrow>
               if outcome = Rejected then (s1, Some ValueError)
               else
                 (case begin_rescale_placement pl plan timeout s1 of
                    (s2, Inl e) \<Rightarrow> (s2, Some e)
                  | (s2, Inr t) \<Rightarrow>
                      (case outcome of
                         Committed stopped \<Rightarrow>
                           (case commit_transition t (s2\<lparr>m_graph := new_graph plan\<rparr>) of
                              (s3, Some e) \<Rightarrow> (abort_placement f2 t s3\<lparr>m_graph := old_graph plan\<rparr>, Some e)
                            | (s3, None) \<Rightarrow>
                                if removed (plan_delta plan) \<noteq> [] then retire_removed f2 stopped t s3 else (s3, None))
                       | _ \<Rightarrow> (abort_placement f2 t s2, Some RuntimeError)))))"

text \<open>The placement part of \<open>_stop_workers_and_placement\<close>, which collects the errors and goes on.\<close>

definition stop_placement :: "faults \<Rightarrow> faults \<Rightarrow> placement_master \<Rightarrow> placement_master \<times> py_error list" where
  "stop_placement f1 f2 s =
     (case reconcile_pending f1 s of (s1, e1) \<Rightarrow>
      case close_placement_plan f2 s1 of (s2, e2) \<Rightarrow> (s2, List.map_filter id [e1, e2]))"

definition initial_master :: "egraph \<Rightarrow> placement_master" where
  "initial_master g = \<lparr>m_ray = \<lparr>live_groups = [], created_groups = 0, removed_groups = []\<rparr>, m_plans = [], m_transitions = [],
     m_plan = None, m_pending = [], m_graph = g\<rparr>"

inductive placement_reachable :: "placement_master \<Rightarrow> bool" where
  start: "graph_ok g \<Longrightarrow> placement_reachable (initial_master g)"
| deploy: "placement_reachable s \<Longrightarrow> create_workers f1 f2 cascade s = (s', e) \<Longrightarrow> placement_reachable s'"
| rescale: "placement_reachable s \<Longrightarrow> rescale_placement f1 pl timeout f2 outcome gen op p oid s = (s', e) \<Longrightarrow>
    placement_reachable s'"
| stop: "placement_reachable s \<Longrightarrow> stop_placement f1 f2 s = (s', es) \<Longrightarrow> placement_reachable s'"

end
