(* ===== verification/PlacementOwnership.thy ===== *)
theory PlacementOwnership
  imports Placement
begin

section \<open>Ownership of placement reservations\<close>

text \<open>
  Properties of the placement model over every sequence of deployments, rescales and stops with failing removals: every reserved group is
  owned by exactly one plan that the job master can still reach, none is released twice, and stopping the job releases all of
  them once Ray answers. The invariant follows three facts: an operation on a plan only releases groups of that plan (shrinks), a
  planning call leaves a plan that owns what it created (planned_ok), and adoption moves groups between disjoint plans.
\<close>

subsection \<open>What a plan owns\<close>

definition plan_ok :: "placement_plan \<Rightarrow> bool" where
  "plan_ok p \<longleftrightarrow> placement_group p = None \<and> \<not> on_rollback p \<and> wf_dict (placement_group_by_vertex p) \<and> distinct (owned_groups p) \<and>
     (plan_closed p \<longrightarrow> placement_group_by_vertex p = []) \<and> (\<not> has_remove_group p \<longrightarrow> placement_group_by_vertex p = []) \<and>
     has_remove_group p = (\<exists>k t. plan_strategy p = Some (PlacementGroupStrategy k t))"

definition groups_ok :: "ray_groups \<Rightarrow> bool" where
  "groups_ok w \<longleftrightarrow> wf_dict (live_groups w) \<and> distinct (removed_groups w) \<and>
     set (removed_groups w) \<inter> set (keys (live_groups w)) = {} \<and>
     set (removed_groups w) \<union> set (keys (live_groups w)) = {..<created_groups w}"

text \<open>Releasing some of its groups is all that an operation does to the reservations of a plan.\<close>

definition shrinks :: "nat list \<Rightarrow> ray_groups \<times> placement_plan \<Rightarrow> ray_groups \<times> placement_plan \<Rightarrow> bool" where
  "shrinks R = (\<lambda>(w, p) (w', p'). distinct R \<and> set R \<subseteq> set (owned_groups p) \<and> w' = fold remove_group R w \<and>
     placement_group_by_vertex p' = filter (\<lambda>(_, g). g \<notin> set R) (placement_group_by_vertex p) \<and> plan_ok p')"

lemma fold_delete_filter: "fold AList.delete ks d = filter (\<lambda>(k, _). k \<notin> set ks) d"
proof (induction ks arbitrary: d)
  case (Cons k ks)
  then show ?case by (auto simp: AList.delete_eq intro!: filter_cong)
qed simp

lemma drop_owners:
  assumes "wf_dict (placement_group_by_vertex p)"
  shows "placement_group_by_vertex (drop_vertices (group_owners g p) p) = filter (\<lambda>(_, h). h \<noteq> g) (placement_group_by_vertex p)"
  using assms by (auto simp: drop_vertices_def group_owners_def fold_delete_filter image_iff intro!: filter_cong dest: eq_key_imp_eq_value)

lemma wf_filter: "wf_dict d \<Longrightarrow> wf_dict (filter P d)"
  by (metis distinct_map_filter)

lemma distinct_owned_filter: "distinct (map snd d) \<Longrightarrow> distinct (map snd (filter P d))"
  by (rule distinct_map_filter)

lemma plan_ok_filter:
  assumes "plan_ok p" "placement_group_by_vertex p' = filter P (placement_group_by_vertex p)"
    "placement_group p' = None" "\<not> on_rollback p'" "has_remove_group p' = has_remove_group p" "plan_strategy p' = plan_strategy p"
    "plan_closed p' \<longrightarrow> placement_group_by_vertex p' = []"
  shows "plan_ok p'"
  using assms by (auto simp: plan_ok_def owned_groups_def wf_filter distinct_owned_filter)

lemma unique_objects_spec: "distinct (unique_objects gs seen) \<and> set (unique_objects gs seen) = set gs - seen"
  by (induction gs seen rule: unique_objects.induct) auto

lemma unique_objects_distinct: "distinct gs \<Longrightarrow> set gs \<inter> seen = {} \<Longrightarrow> unique_objects gs seen = gs"
  by (induction gs seen rule: unique_objects.induct) auto

lemma shrinks_refl: "plan_ok p \<Longrightarrow> shrinks [] (w, p) (w, p)"
  by (simp add: shrinks_def)

lemma shrinks_first:
  assumes "plan_ok p" "g \<in> set (owned_groups p)" "g \<notin> set R"
    and p1: "p1 = drop_vertices (group_owners g p) p"
    and rest: "shrinks R (remove_group g w, p1) (w', p')"
  shows "shrinks (g # R) (w, p) (w', p')"
proof -
  have d: "placement_group_by_vertex p1 = filter (\<lambda>(_, h). h \<noteq> g) (placement_group_by_vertex p)"
    using assms(1) unfolding p1 by (intro drop_owners) (simp add: plan_ok_def)
  then show ?thesis using assms by (auto simp: shrinks_def owned_groups_def intro!: filter_cong)
qed

lemma plan_ok_drop:
  assumes "plan_ok p"
  shows "plan_ok (drop_vertices (group_owners g p) p)"
proof (rule plan_ok_filter [OF assms])
  show "placement_group_by_vertex (drop_vertices (group_owners g p) p) = filter (\<lambda>(_, h). h \<noteq> g) (placement_group_by_vertex p)"
    using assms by (intro drop_owners) (simp add: plan_ok_def)
qed (use assms in \<open>auto simp: plan_ok_def drop_vertices_def fold_delete_filter\<close>)

lemma close_groups_shrinks:
  assumes "plan_ok p" "distinct gs" "set gs \<subseteq> set (owned_groups p)" "close_groups fails gs (w, p) = ((w', p'), b)"
  shows "shrinks (filter (\<lambda>g. \<not> fails g) gs) (w, p) (w', p') \<and> b = (\<exists>g \<in> set gs. fails g) \<and>
    plan_closed p' = plan_closed p \<and> plan_strategy p' = plan_strategy p \<and> has_remove_group p' = has_remove_group p"
  using assms
proof (induction gs arbitrary: w p w' p' b)
  case Nil
  then show ?case by (simp add: shrinks_refl)
next
  case (Cons g gs)
  show ?case
  proof (cases "fails g")
    case True
    then obtain b' where c: "close_groups fails gs (w, p) = ((w', p'), b')" "b"
      using Cons.prems(4) by (cases "close_groups fails gs (w, p)") auto
    from Cons.IH [OF Cons.prems(1) _ _ c(1)] True c(2) Cons.prems(2,3) show ?thesis by auto
  next
    case False
    let ?p = "drop_vertices (group_owners g p) p"
    have ok: "plan_ok ?p" using Cons.prems(1) by (rule plan_ok_drop)
    have "placement_group_by_vertex ?p = filter (\<lambda>(_, h). h \<noteq> g) (placement_group_by_vertex p)"
      using Cons.prems(1) by (intro drop_owners) (simp add: plan_ok_def)
    then have sub: "set gs \<subseteq> set (owned_groups ?p)" using Cons.prems(2,3) by (force simp: owned_groups_def)
    have c: "close_groups fails gs (remove_group g w, ?p) = ((w', p'), b)"
      using Cons.prems(4) False ok by (simp add: Let_def plan_ok_def)
    have same: "plan_closed ?p = plan_closed p" "plan_strategy ?p = plan_strategy p" "has_remove_group ?p = has_remove_group p"
      by (simp_all add: drop_vertices_def)
    from Cons.IH [OF ok _ sub c] Cons.prems(2) same False
    have ih: "shrinks (filter (\<lambda>g. \<not> fails g) gs) (remove_group g w, ?p) (w', p')" "b = (\<exists>g \<in> set gs. fails g)"
      "plan_closed p' = plan_closed p" "plan_strategy p' = plan_strategy p" "has_remove_group p' = has_remove_group p" by auto
    have "shrinks (g # filter (\<lambda>g. \<not> fails g) gs) (w, p) (w', p')"
      using Cons.prems(2,3) by (intro shrinks_first [OF Cons.prems(1) _ _ refl ih(1)]) auto
    then show ?thesis using ih False by simp
  qed
qed

lemma close_plan_shrinks:
  assumes "plan_ok p" "close_plan fails cb (w, p) = ((w', p'), e)"
  shows "shrinks (filter (\<lambda>g. \<not> fails g) (owned_groups p)) (w, p) (w', p')"
    "e = None \<Longrightarrow> placement_group_by_vertex p' = []"
    "e = None \<longleftrightarrow> (\<forall>g \<in> set (owned_groups p). \<not> fails g)"
    "plan_strategy p' = plan_strategy p"
proof -
  have "shrinks (filter (\<lambda>g. \<not> fails g) (owned_groups p)) (w, p) (w', p') \<and> (e = None \<longrightarrow> placement_group_by_vertex p' = []) \<and>
    (e = None \<longleftrightarrow> (\<forall>g \<in> set (owned_groups p). \<not> fails g)) \<and> plan_strategy p' = plan_strategy p"
  proof (cases "plan_closed p \<or> \<not> has_remove_group p")
    case True
    then have "owned_groups p = []" using assms(1) by (auto simp: plan_ok_def owned_groups_def)
    then show ?thesis using assms True
      by (auto simp: close_plan_def Let_def shrinks_def plan_ok_def owned_groups_def split: if_splits)
  next
    case False
    obtain w1 p1 b where c: "close_groups fails (owned_groups p) (w, p) = ((w1, p1), b)"
      by (metis surj_pair)
    have d: "distinct (owned_groups p)" "placement_group p = None" using assms(1) by (simp_all add: plan_ok_def)
    note cg = close_groups_shrinks [OF assms(1) d(1) order_refl c]
    have r: "((w', p'), e) = (if b then ((w1, p1), Some RuntimeError)
      else ((w1, p1\<lparr>node_by_vertex := [], placement_group_by_vertex := [], bundle_by_vertex := [],
             placement_group := None, on_rollback := False, plan_closed := True\<rparr>), None))"
      using assms(2) False d c by (simp add: close_plan_def Let_def unique_objects_distinct split: if_splits)
    have "placement_group_by_vertex p1 = []" if "\<not> b"
    proof -
      have "filter (\<lambda>g. \<not> fails g) (owned_groups p) = owned_groups p" using cg that by (simp add: filter_id_conv)
      moreover have "filter (\<lambda>(_, g). g \<notin> set (owned_groups p)) (placement_group_by_vertex p) = []"
        by (force simp: filter_empty_conv owned_groups_def)
      ultimately show ?thesis using cg by (simp add: shrinks_def)
    qed
    then show ?thesis using cg r by (auto simp: shrinks_def plan_ok_def owned_groups_def split: if_splits)
  qed
  then show "shrinks (filter (\<lambda>g. \<not> fails g) (owned_groups p)) (w, p) (w', p')"
    "e = None \<Longrightarrow> placement_group_by_vertex p' = []"
    "e = None \<longleftrightarrow> (\<forall>g \<in> set (owned_groups p). \<not> fails g)"
    "plan_strategy p' = plan_strategy p" by blast+
qed

lemma release_groups_shrinks:
  assumes "plan_ok p" "distinct gs" "set gs \<subseteq> set (owned_groups p)" "release_groups fails sel gs (w, p) = ((w', p'), e)"
  shows "\<exists>R. shrinks R (w, p) (w', p') \<and> set R \<subseteq> set gs \<and> plan_strategy p' = plan_strategy p \<and> (e = None \<longrightarrow> R = gs)"
  using assms
proof (induction gs arbitrary: w p w' p' e)
  case Nil
  then show ?case by (auto intro!: exI [of _ "[]"] simp: shrinks_refl)
next
  case (Cons g gs)
  let ?p = "drop_vertices (group_owners g p) p"
  consider "\<not> set (group_owners g p) \<subseteq> set sel" | "set (group_owners g p) \<subseteq> set sel" "fails g"
    | "set (group_owners g p) \<subseteq> set sel" "\<not> fails g" by blast
  then show ?case
  proof cases
    case 1
    then show ?thesis using Cons.prems by (auto intro!: exI [of _ "[]"] simp: shrinks_refl)
  next
    case 2
    then obtain e' where c: "release_groups fails sel gs (w, p) = ((w', p'), e')" "e \<noteq> None"
      using Cons.prems(4) by (auto simp: Let_def split: prod.splits)
    from Cons.IH [OF Cons.prems(1) _ _ c(1)] c(2) Cons.prems(2,3) show ?thesis by (metis distinct.simps(2) set_subset_Cons subset_trans)
  next
    case 3
    have ok: "plan_ok ?p" using Cons.prems(1) by (rule plan_ok_drop)
    have "placement_group_by_vertex ?p = filter (\<lambda>(_, h). h \<noteq> g) (placement_group_by_vertex p)"
      using Cons.prems(1) by (intro drop_owners) (simp add: plan_ok_def)
    then have sub: "set gs \<subseteq> set (owned_groups ?p)" using Cons.prems(2,3) by (force simp: owned_groups_def)
    have c: "release_groups fails sel gs (remove_group g w, ?p) = ((w', p'), e)" using Cons.prems(4) 3 by simp
    have same: "plan_strategy ?p = plan_strategy p" by (simp add: drop_vertices_def)
    from Cons.IH [OF ok _ sub c] Cons.prems(2) same obtain R where
      R: "shrinks R (remove_group g w, ?p) (w', p')" "set R \<subseteq> set gs" "plan_strategy p' = plan_strategy p" "e = None \<longrightarrow> R = gs" by auto
    have "shrinks (g # R) (w, p) (w', p')"
      using Cons.prems(2,3) R(2) by (intro shrinks_first [OF Cons.prems(1) _ _ refl R(1)]) auto
    then show ?thesis using R(2-4) by (intro exI [of _ "g # R"]) auto
  qed
qed

lemma set_map_filter: "set (List.map_filter f xs) = {y. \<exists>x \<in> set xs. f x = Some y}"
  by (induction xs) (auto simp: map_filter_simps split: option.splits)

lemma release_vertices_shrinks:
  assumes "plan_ok p" "release_vertices fails sel (w, p) = ((w', p'), e)"
  shows "\<exists>R. shrinks R (w, p) (w', p') \<and> plan_strategy p' = plan_strategy p \<and>
    (e = None \<longrightarrow> set sel \<inter> set (keys (placement_group_by_vertex p')) = {})"
proof -
  let ?d = "placement_group_by_vertex p"
  let ?gs = "unique_objects (List.map_filter (map_of ?d) sel) {}"
  have wf: "wf_dict ?d" "placement_group p = None" using assms(1) by (simp_all add: plan_ok_def)
  have set_gs: "set ?gs = {g. \<exists>v \<in> set sel. map_of ?d v = Some g}" and d: "distinct ?gs"
    using unique_objects_spec [of "List.map_filter (map_of ?d) sel" "{}"] by (simp_all add: set_map_filter)
  have sub: "set ?gs \<subseteq> set (owned_groups p)" using set_gs by (force simp: owned_groups_def dest: map_of_SomeD)
  obtain w1 p1 e1 where r: "release_groups fails sel ?gs (w, p) = ((w1, p1), e1)" by (metis surj_pair)
  obtain R where R: "shrinks R (w, p) (w1, p1)" "plan_strategy p1 = plan_strategy p" "e1 = None \<longrightarrow> R = ?gs"
    using release_groups_shrinks [OF assms(1) d sub r] by blast
  have gone: "set sel \<inter> set (keys (placement_group_by_vertex p1)) = {}" if "e1 = None"
  proof -
    have keep: "placement_group_by_vertex p1 = filter (\<lambda>(_, g). g \<notin> set ?gs) ?d" using R(1,3) that by (simp add: shrinks_def)
    have "g \<in> set ?gs" if "v \<in> set sel" "(v, g) \<in> set ?d" for v g
      using that(1) map_of_is_SomeI [OF wf(1) that(2)] unfolding set_gs by blast
    then show ?thesis unfolding keep by auto
  qed
  show ?thesis
  proof (cases "?gs \<noteq> [] \<and> \<not> has_remove_group p")
    case True
    then show ?thesis using assms wf by (auto simp: release_vertices_def intro!: exI [of _ "[]"] shrinks_refl)
  next
    case False
    show ?thesis
    proof (cases e1)
      case None
      then have "((w', p'), e) = ((w1, p1\<lparr>node_by_vertex := fold AList.delete sel (node_by_vertex p1),
          bundle_by_vertex := fold AList.delete sel (bundle_by_vertex p1)\<rparr>), None)"
        using assms(2) False wf r by (simp add: release_vertices_def Let_def split: if_splits)
      then show ?thesis using R gone [OF None] by (intro exI [of _ R]) (auto simp: shrinks_def plan_ok_def owned_groups_def)
    next
      case (Some x)
      then have "((w', p'), e) = ((w1, p1), Some x)" using assms(2) False wf r by (simp add: release_vertices_def Let_def split: if_splits)
      then show ?thesis using R by blast
    qed
  qed
qed

subsection \<open>Ownership across plans\<close>

definition owns :: "placement_plan list \<Rightarrow> nat \<Rightarrow> nat \<Rightarrow> bool" where
  "owns ps r g \<longleftrightarrow> r < length ps \<and> g \<in> set (owned_groups (ps ! r))"

definition ownership :: "ray_groups \<Rightarrow> placement_plan list \<Rightarrow> bool" where
  "ownership w ps \<longleftrightarrow> groups_ok w \<and> (\<forall>p \<in> set ps. plan_ok p) \<and> (\<forall>r r' g. owns ps r g \<longrightarrow> owns ps r' g \<longrightarrow> r = r') \<and>
     (\<forall>g. g \<in> set (keys (live_groups w)) \<longleftrightarrow> (\<exists>r. owns ps r g))"

lemma fold_remove:
  "set (keys (live_groups (fold remove_group R w))) = set (keys (live_groups w)) - set R"
  "removed_groups (fold remove_group R w) = removed_groups w @ R"
  "created_groups (fold remove_group R w) = created_groups w"
  "wf_dict (live_groups w) \<Longrightarrow> wf_dict (live_groups (fold remove_group R w))"
  by (induction R arbitrary: w) (auto simp: remove_group_def wf_filter image_iff)

lemma groups_ok_remove:
  assumes "groups_ok w" "distinct R" "set R \<subseteq> set (keys (live_groups w))"
  shows "groups_ok (fold remove_group R w)"
  using assms unfolding groups_ok_def fold_remove(1-3) by (auto simp: fold_remove(4))

lemma owned_shrink: "shrinks R (w, p) (w', p') \<Longrightarrow> set (owned_groups p') = set (owned_groups p) - set R"
  by (force simp: shrinks_def owned_groups_def)

lemma ownership_shrink:
  assumes o: "ownership w ps" and r: "r < length ps" and sh: "shrinks R (w, ps ! r) (w', p')"
  shows "ownership w' (ps[r := p'])"
proof -
  have R: "distinct R" "set R \<subseteq> set (owned_groups (ps ! r))" "w' = fold remove_group R w" "plan_ok p'"
    using sh by (simp_all add: shrinks_def)
  have live: "set R \<subseteq> set (keys (live_groups w))" using o R(2) r unfolding ownership_def owns_def by blast
  have iff: "owns (ps[r := p']) q g \<longleftrightarrow> owns ps q g \<and> g \<notin> set R" for q g
  proof (cases "q = r")
    case True
    then show ?thesis using r owned_shrink [OF sh] by (auto simp: owns_def)
  next
    case False
    then have "g \<notin> set R" if "owns ps q g" using that o R(2) r unfolding ownership_def owns_def by blast
    then show ?thesis using False by (auto simp: owns_def)
  qed
  have "groups_ok w'" using groups_ok_remove [OF _ R(1) live] o R(3) by (simp add: ownership_def)
  moreover have "\<forall>p \<in> set (ps[r := p']). plan_ok p" using o R(4) by (metis ownership_def insertE set_update_subset_insert subsetD)
  moreover have "g \<in> set (keys (live_groups w')) \<longleftrightarrow> (\<exists>q. owns (ps[r := p']) q g)" for g
    using o unfolding iff R(3) fold_remove(1) ownership_def by blast
  ultimately show ?thesis using o unfolding ownership_def iff by blast
qed

lemma owns_append: "owns (ps @ [p]) r g \<longleftrightarrow> owns ps r g \<or> r = length ps \<and> g \<in> set (owned_groups p)"
  by (auto simp: owns_def nth_append less_Suc_eq)

lemma ownership_append_empty:
  assumes "plan_ok p" "owned_groups p = []"
  shows "ownership w (ps @ [p]) \<longleftrightarrow> ownership w ps"
proof -
  have "owns (ps @ [p]) = owns ps" using assms(2) by (intro ext) (simp add: owns_append)
  then show ?thesis using assms(1) by (auto simp: ownership_def)
qed

lemma ownership_create:
  assumes o: "ownership w (ps @ [p])" and p: "has_remove_group p" "\<not> plan_closed p" and v: "v \<notin> set (keys (placement_group_by_vertex p))"
  shows "ownership (create_group b w) (ps @ [p\<lparr>placement_group_by_vertex := AList.update v (created_groups w) (placement_group_by_vertex p)\<rparr>])"
proof -
  let ?p = "p\<lparr>placement_group_by_vertex := AList.update v (created_groups w) (placement_group_by_vertex p)\<rparr>"
  have wg: "groups_ok w" "plan_ok p" using o by (simp_all add: ownership_def)
  have "AList.update v (created_groups w) d = d @ [(v, created_groups w)]" if "v \<notin> set (keys d)" for d
    using that by (induction d) auto
  then have upd: "placement_group_by_vertex ?p = placement_group_by_vertex p @ [(v, created_groups w)]" using v by simp
  have fresh: "\<not> owns (ps @ [p]) r (created_groups w)" for r
    using o wg(1) unfolding ownership_def groups_ok_def by (metis UnCI lessThan_iff less_irrefl)
  then have "created_groups w \<notin> set (owned_groups p)" unfolding owns_append by simp
  then have "plan_ok ?p" using wg(2) p v upd unfolding plan_ok_def owned_groups_def by auto
  moreover have "groups_ok (create_group b w)" using wg(1) by (auto simp: groups_ok_def create_group_def)
  moreover have iff: "owns (ps @ [?p]) r g \<longleftrightarrow> owns (ps @ [p]) r g \<or> r = length ps \<and> g = created_groups w" for r g
    unfolding owns_append using upd by (auto simp: owned_groups_def)
  moreover have "set (keys (live_groups (create_group b w))) = insert (created_groups w) (set (keys (live_groups w)))"
    by (simp add: create_group_def)
  ultimately show ?thesis using o fresh unfolding ownership_def iff by auto
qed

lemma reserve_groups_ownership:
  assumes "ownership w (ps @ [p\<lparr>placement_group_by_vertex := gs\<rparr>])" "has_remove_group p" "\<not> plan_closed p"
    "distinct (map ev_id vs)" "set (keys gs) \<inter> ev_id ` set vs = {}"
    "reserve_groups k vs w gs bs = (ok, w', gs', bs')"
  shows "ownership w' (ps @ [p\<lparr>placement_group_by_vertex := gs'\<rparr>]) \<and> set (keys gs') \<subseteq> set (keys gs) \<union> ev_id ` set vs"
  using assms
proof (induction k vs w gs bs rule: reserve_groups.induct)
  case (3 k v vs w gs bs)
  let ?q = "p\<lparr>placement_group_by_vertex := gs\<rparr>"
  have "ownership (create_group (vertex_bundle (ev_resources v)) w)
      (ps @ [?q\<lparr>placement_group_by_vertex := AList.update (ev_id v) (created_groups w) (placement_group_by_vertex ?q)\<rparr>])"
    using "3.prems" by (intro ownership_create) auto
  then have o: "ownership (create_group (vertex_bundle (ev_resources v)) w)
      (ps @ [p\<lparr>placement_group_by_vertex := AList.update (ev_id v) (created_groups w) gs\<rparr>])" by simp
  have k: "set (keys (AList.update (ev_id v) (created_groups w) gs)) = insert (ev_id v) (set (keys gs))"
    by (simp add: dom_update)
  from "3.IH" [OF o "3.prems"(2,3)] "3.prems"(4-6) k show ?case by auto
qed auto

lemma ownership_same_groups:
  assumes "owned_groups q = owned_groups p" "plan_ok q = plan_ok p"
  shows "ownership w (ps @ [q]) = ownership w (ps @ [p])"
  using assms by (simp add: ownership_def owns_append)

text \<open>What a planning call leaves: a new plan that owns exactly the groups created for it, or none of them.\<close>

definition planned_ok :: "ray_groups \<Rightarrow> placement_plan list \<Rightarrow> vertex_id set \<Rightarrow> strategy \<Rightarrow> planned \<Rightarrow> bool" where
  "planned_ok w ps ids st out =
     (case out of
        Planned p \<Rightarrow> ownership w (ps @ [p]) \<and> set (keys (placement_group_by_vertex p)) \<subseteq> ids \<and> \<not> plan_closed p \<and> plan_strategy p = Some st
      | Incomplete p \<Rightarrow> ownership w (ps @ [p])
      | _ \<Rightarrow> ownership w ps)"

lemma group_plan_vertices_ok:
  assumes o: "ownership w ps" and st: "st = PlacementGroupStrategy kind rt" and d: "distinct (map ev_id vs)"
    and r: "group_plan_vertices st ready vs timeout pl w = (w', out)"
  shows "planned_ok w' ps (ev_id ` set vs) st out"
proof -
  let ?base = "empty_plan\<lparr>plan_strategy := Some st, has_remove_group := True\<rparr>"
  have base: "plan_ok ?base" "owned_groups ?base = []" "\<not> plan_closed ?base" "has_remove_group ?base"
    by (simp_all add: plan_ok_def empty_plan_def owned_groups_def st)
  have ob: "ownership w (ps @ [?base])" using ownership_append_empty [OF base(1,2)] o by simp
  show ?thesis
  proof (cases "vs = []")
    case True
    then show ?thesis using r ob by (auto simp: group_plan_vertices_def planned_ok_def empty_plan_def)
  next
    case False
    obtain ok w1 gs bs where rg: "reserve_groups (create_limit pl) vs w [] [] = (ok, w1, gs, bs)" by (metis surj_pair)
    have "ownership w (ps @ [?base\<lparr>placement_group_by_vertex := []\<rparr>])" using ob by (simp add: empty_plan_def)
    from reserve_groups_ownership [OF this base(4,3) d _ rg]
    have o1: "ownership w1 (ps @ [?base\<lparr>placement_group_by_vertex := gs\<rparr>])" "set (keys gs) \<subseteq> ev_id ` set vs" by simp_all
    define p where "p = ?base\<lparr>placement_group_by_vertex := gs, bundle_by_vertex := bs\<rparr>"
    have op: "ownership w1 (ps @ [p])" using o1(1)
      by (subst ownership_same_groups [of p "?base\<lparr>placement_group_by_vertex := gs\<rparr>"]) (simp_all add: p_def owned_groups_def plan_ok_def)
    then have pk: "plan_ok p" by (simp add: ownership_def)
    obtain w2 p2 e where cl: "close_plan (cleanup_fails pl) False (w1, p) = ((w2, p2), e)" by (metis surj_pair)
    have o2: "ownership w2 (ps @ [p2])"
      using ownership_shrink [OF op, of "length ps"] close_plan_shrinks(1) [OF pk cl] by simp
    then have "e = None \<Longrightarrow> ownership w2 ps"
      using close_plan_shrinks(2) [OF pk cl] ownership_append_empty [of p2 w2 ps] by (simp add: owned_groups_def ownership_def)
    moreover have "(w', out) = (if ok \<and> 0 < (case timeout of None \<Rightarrow> ready | Some t \<Rightarrow> min ready t) \<and> groups_ready pl then (w1, Planned p)
        else case e of None \<Rightarrow> (w2, Infeasible) | Some _ \<Rightarrow> (w2, Incomplete p2))"
      unfolding r [symmetric] group_plan_vertices_def Let_def rg prod.case p_def [symmetric] cl using False by (cases e) auto
    ultimately show ?thesis using op o2 o1(2)
      by (auto simp: planned_ok_def p_def empty_plan_def split: if_splits option.splits)
  qed
qed

lemma pins_planned_ok:
  assumes "ownership w ps" "\<not> (\<exists>k t. st = PlacementGroupStrategy k t)"
  shows "planned_ok w ps ids st (pins_planned st r)"
proof (cases r)
  case (Inr pins)
  have "plan_ok (empty_plan\<lparr>node_by_vertex := pins, plan_strategy := Some st\<rparr>)"
    "owned_groups (empty_plan\<lparr>node_by_vertex := pins, plan_strategy := Some st\<rparr>) = []"
    using assms(2) by (auto simp: plan_ok_def empty_plan_def owned_groups_def)
  from ownership_append_empty [OF this] assms(1) Inr show ?thesis by (simp add: pins_planned_def planned_ok_def empty_plan_def)
qed (use assms(1) in \<open>simp add: pins_planned_def planned_ok_def\<close>)

lemma native_planned_ok:
  assumes "ownership w ps"
  shows "planned_ok w ps ids NativeStrategy (Planned (empty_plan\<lparr>plan_strategy := Some NativeStrategy\<rparr>))"
  using pins_planned_ok [OF assms, of NativeStrategy ids "Inr []"] by (simp add: pins_planned_def empty_plan_def)

lemma strategy_plan_ok:
  assumes "ownership w ps" "distinct (map ev_id (all_execution_vertices g))" "strategy_plan st g pl w = (w', out)"
  shows "planned_ok w' ps (vertex_ids g) st out"
  using assms group_plan_vertices_ok [OF assms(1) _ assms(2), of st] pins_planned_ok [OF assms(1)] native_planned_ok [OF assms(1)]
  by (cases st) (auto simp: strategy_plan_def vertex_ids_def)

lemma strategy_plan_rescale_ok:
  assumes "ownership w ps" "distinct (map ev_id vs)" "strategy_plan_rescale st g vs owner timeout pl w = (w', out)"
  shows "planned_ok w' ps (ev_id ` set vs) st out"
proof -
  have "restrict_plan I (empty_plan\<lparr>plan_strategy := Some NativeStrategy\<rparr>) = empty_plan\<lparr>plan_strategy := Some NativeStrategy\<rparr>" for I
    by (simp add: restrict_plan_def empty_plan_def)
  then show ?thesis
    using assms group_plan_vertices_ok [OF assms(1) _ assms(2), of st] pins_planned_ok [OF assms(1)] native_planned_ok [OF assms(1)]
    by (cases st) (auto simp: strategy_plan_rescale_def)
qed

lemma merge_dict_disjoint: "wf_dict e \<Longrightarrow> set (keys d) \<inter> set (keys e) = {} \<Longrightarrow> merge_dict d e = d @ e"
proof (induction e arbitrary: d)
  case (Cons x e)
  obtain k v where x: "x = (k, v)" by (cases x)
  have "AList.update k v d = d @ [(k, v)]" if "k \<notin> set (keys d)" for d :: "('a \<times> 'b) list"
    using that by (induction d) auto
  then have "merge_dict d (x # e) = merge_dict (d @ [(k, v)]) e" using Cons.prems(2) x by (simp add: merge_dict_def)
  then show ?case using Cons x by auto
qed (simp add: merge_dict_def)

lemma ownership_adopt:
  assumes o: "ownership w ps" and r: "r < length ps" "c < length ps" "r \<noteq> c" "\<not> plan_closed (ps ! r)"
    and st: "plan_strategy (ps ! c) = plan_strategy (ps ! r)"
    and keys: "set (keys (placement_group_by_vertex (ps ! r))) \<inter> set (keys (placement_group_by_vertex (ps ! c))) = {}"
    and ad: "adopt_plan (ps ! r) (ps ! c) = Inr (p', c')"
  shows "ownership w (ps[r := p', c := c'])" "placement_group_by_vertex c' = []"
    "placement_group_by_vertex p' = placement_group_by_vertex (ps ! r) @ placement_group_by_vertex (ps ! c)"
proof -
  have ok: "plan_ok (ps ! r)" "plan_ok (ps ! c)" using o r by (simp_all add: ownership_def)
  show c': "placement_group_by_vertex c' = []" using ad by (auto simp: adopt_plan_def split: if_splits)
  show p': "placement_group_by_vertex p' = placement_group_by_vertex (ps ! r) @ placement_group_by_vertex (ps ! c)"
    using ad ok(2) keys by (auto simp: adopt_plan_def plan_ok_def merge_dict_disjoint split: if_splits)
  have apart: "set (owned_groups (ps ! r)) \<inter> set (owned_groups (ps ! c)) = {}"
    using o r by (auto simp: ownership_def owns_def)
  have rest: "plan_strategy p' = plan_strategy (ps ! r)" "has_remove_group p' = has_remove_group (ps ! r)" "plan_closed p' = plan_closed (ps ! r)"
    "placement_group p' = placement_group (ps ! r)" "on_rollback p' = on_rollback (ps ! r)"
    "plan_strategy c' = plan_strategy (ps ! c)" "has_remove_group c' = has_remove_group (ps ! c)" "placement_group c' = None" "\<not> on_rollback c'"
    using ad by (auto simp: adopt_plan_def split: if_splits)
  have "plan_ok c'" using ok(2) c' rest(6-9) by (simp add: plan_ok_def owned_groups_def)
  moreover have "plan_ok p'" using ok rest(1-5) r(4) st keys apart unfolding plan_ok_def owned_groups_def p' by auto
  ultimately have all: "\<forall>q \<in> set (ps[r := p', c := c']). plan_ok q"
    using o unfolding ownership_def by (auto dest!: subsetD [OF set_update_subset_insert])
  have iff: "owns (ps[r := p', c := c']) q g \<longleftrightarrow> q = r \<and> (owns ps r g \<or> owns ps c g) \<or> q \<noteq> r \<and> q \<noteq> c \<and> owns ps q g" for q g
    using r c' p' by (auto simp: owns_def owned_groups_def nth_list_update)
  have "g \<in> set (keys (live_groups w)) \<longleftrightarrow> (\<exists>q. owns (ps[r := p', c := c']) q g)" for g
  proof -
    have "\<exists>q'. owns (ps[r := p', c := c']) q' g" if "owns ps q g" for q
      using that iff [of r g] iff [of q g] by (cases "q = c \<or> q = r") auto
    moreover have "\<exists>q'. owns ps q' g" if "owns (ps[r := p', c := c']) q g" for q using that iff [of q g] by auto
    ultimately have "(\<exists>q. owns (ps[r := p', c := c']) q g) \<longleftrightarrow> (\<exists>q. owns ps q g)" by blast
    then show ?thesis using o by (simp add: ownership_def)
  qed
  moreover have "\<forall>q q' g. owns (ps[r := p', c := c']) q g \<longrightarrow> owns (ps[r := p', c := c']) q' g \<longrightarrow> q = q'"
  proof -
    have u: "a = b" if "owns ps a g" "owns ps b g" for a b g using o that unfolding ownership_def by blast
    have "q = q'" if "owns (ps[r := p', c := c']) q g" "owns (ps[r := p', c := c']) q' g" for q q' g
      using that u [of q g q'] u [of q g r] u [of q g c] u [of q' g r] u [of q' g c] unfolding iff by auto
    then show ?thesis by blast
  qed
  ultimately show "ownership w (ps[r := p', c := c'])" using o all by (simp add: ownership_def)
qed

subsection \<open>The vertices of a rescaled graph\<close>

lemma jv_ids: "jv_ok v \<Longrightarrow> map ev_id (map snd (execution_vertices v)) = map (\<lambda>j. \<lparr>job_vertex_id = jv_id v, vertex_index = j\<rparr>) [0..jv_concurrency v - 1]"
proof -
  assume ok: "jv_ok v"
  have "\<forall>x \<in> set (execution_vertices v). ev_id (snd x) = \<lparr>job_vertex_id = jv_id v, vertex_index = fst x\<rparr>"
    using ok by (auto simp: jv_ok_def)
  then have "map ev_id (map snd (execution_vertices v)) = map (\<lambda>j. \<lparr>job_vertex_id = jv_id v, vertex_index = j\<rparr>) (keys (execution_vertices v))"
    by simp
  also have "keys (execution_vertices v) = [0..jv_concurrency v - 1]" using ok unfolding jv_ok_def by blast
  finally show ?thesis .
qed

lemma graph_vertex_ids:
  assumes "graph_ok g"
  shows "x \<in> vertex_ids g \<longleftrightarrow>
    (\<exists>v. map_of (job_vertices g) (job_vertex_id x) = Some v \<and> 0 \<le> vertex_index x \<and> vertex_index x < jv_concurrency v)"
proof -
  have ids: "ev_id ` snd ` set (execution_vertices v) = (\<lambda>j. \<lparr>job_vertex_id = i, vertex_index = j\<rparr>) ` {0..jv_concurrency v - 1}"
    if "map_of (job_vertices g) i = Some v" for i v
    using arg_cong [OF jv_ids, of v set] graph_okD(4) [OF assms that] by (simp add: image_image)
  have wf: "wf_dict (job_vertices g)" using graph_wfD(1) graph_okD(1) [OF assms] by blast
  have "x \<in> vertex_ids g \<longleftrightarrow> (\<exists>i v. map_of (job_vertices g) i = Some v \<and> x \<in> ev_id ` snd ` set (execution_vertices v))"
  proof -
    have "x \<in> vertex_ids g \<longleftrightarrow> (\<exists>(i, v) \<in> set (job_vertices g). x \<in> ev_id ` snd ` set (execution_vertices v))"
      by (auto simp: vertex_ids_def all_execution_vertices_def)
    then show ?thesis using wf_dict_mem_iff [OF wf] by auto
  qed
  also have "\<dots> \<longleftrightarrow> (\<exists>i v. map_of (job_vertices g) i = Some v \<and> job_vertex_id x = i \<and> 0 \<le> vertex_index x \<and> vertex_index x < jv_concurrency v)"
  proof -
    have "x \<in> (\<lambda>j. \<lparr>job_vertex_id = i, vertex_index = j\<rparr>) ` {0..n - 1} \<longleftrightarrow> job_vertex_id x = i \<and> 0 \<le> vertex_index x \<and> vertex_index x < n" for i n
      by (cases x) auto
    then show ?thesis using ids by metis
  qed
  finally show ?thesis by blast
qed

lemma graph_ids_distinct:
  assumes "graph_ok g"
  shows "distinct (map ev_id (all_execution_vertices g))"
proof -
  have "distinct (map ev_id (concat (map (\<lambda>(_, v). map snd (execution_vertices v)) vs)))"
    if "distinct (map fst vs)" "\<forall>(i, v) \<in> set vs. jv_ok v \<and> jv_id v = i" for vs :: "(int \<times> job_vertex) list"
    using that
  proof (induction vs)
    case (Cons x vs)
    obtain i v where x: "x = (i, v)" by (cases x)
    have iv: "jv_ok v" "jv_id v = i" using Cons.prems(2) x by auto
    have head: "distinct (map ev_id (map snd (execution_vertices v)))" unfolding jv_ids [OF iv(1)]
      by (simp add: distinct_map inj_on_def)
    have own: "job_vertex_id y = jv_id u" if "jv_ok u" "y \<in> ev_id ` snd ` set (execution_vertices u)" for y u
    proof -
      have "ev_id ` snd ` set (execution_vertices u) = (\<lambda>j. \<lparr>job_vertex_id = jv_id u, vertex_index = j\<rparr>) ` {0..jv_concurrency u - 1}"
        using arg_cong [OF jv_ids [OF that(1)], of set] by (simp add: image_image)
      then show ?thesis using that(2) by auto
    qed
    have "ev_id ` snd ` set (execution_vertices v) \<inter> ev_id ` set (concat (map (\<lambda>(_, v). map snd (execution_vertices v)) vs)) = {}"
    proof -
      have "job_vertex_id y = i" if "y \<in> ev_id ` snd ` set (execution_vertices v)" for y using own [OF iv(1) that] iv(2) by simp
      moreover have "job_vertex_id y \<in> fst ` set vs" if y: "y \<in> ev_id ` set (concat (map (\<lambda>(_, v). map snd (execution_vertices v)) vs))" for y
      proof -
        obtain i' v' where "(i', v') \<in> set vs" "y \<in> ev_id ` snd ` set (execution_vertices v')" using y by auto
        then show ?thesis using own [of v' y] Cons.prems(2) by (force intro: rev_image_eqI)
      qed
      moreover have "i \<notin> fst ` set vs" using Cons.prems(1) x by simp
      ultimately show ?thesis by blast
    qed
    moreover have "distinct (map ev_id (concat (map (\<lambda>(_, v). map snd (execution_vertices v)) vs)))"
      using Cons.IH Cons.prems by simp
    ultimately show ?case using head x by (simp add: image_image)
  qed simp
  moreover have "distinct (map fst (job_vertices g))" using graph_wfD(1) graph_okD(1) [OF assms] by blast
  moreover have "\<forall>(i, v) \<in> set (job_vertices g). jv_ok v \<and> jv_id v = i"
    using graph_okD(4) [OF assms] calculation(2) by auto
  ultimately show ?thesis unfolding all_execution_vertices_def by blast
qed

lemma build_plan_delta:
  assumes g: "graph_ok g" and b: "build_plan gen g op (PInt p) (PStr oid) = Inr plan"
  shows "graph_ok (new_graph plan)" "old_graph plan = g" "distinct (map ev_id (added (plan_delta plan)))"
    "ev_id ` set (added (plan_delta plan)) \<inter> vertex_ids g = {}" "ev_id ` set (added (plan_delta plan)) \<subseteq> vertex_ids (new_graph plan)"
    "vertex_ids g \<subseteq> vertex_ids (new_graph plan) \<union> ev_id ` set (removed (plan_delta plan))"
proof -
  obtain g2 ot nt d where st: "resize_operator gen (PInt op) (PInt p) g = Inr (Some g2)" "g_job_vertex g op = Inr ot"
    "g_job_vertex g2 op = Inr nt" "delta_between ot nt = Inr d" "new_graph plan = g2" "old_graph plan = g" "plan_delta plan = d"
    using b by (auto simp: build_plan_def result_simps split: if_splits option.splits)
  have old: "map_of (job_vertices g) op = Some ot" and new: "map_of (job_vertices g2) op = Some nt"
    using st(2,3) by (auto simp: g_job_vertex_def dict_item_def split: option.splits)
  have "p > 0" "p \<noteq> jv_concurrency ot"
    using st(1,2) by (auto simp: resize_operator_def rescale_operator_spec_def result_simps spec_concurrency_def resized_spec_def
        scalar_concurrency_def split: if_splits)
  from resize_operator_spec [OF g old this, of gen] st(1) obtain nv where g2: "graph_ok g2" "job_vertices g2 = AList.update op nv (job_vertices g)"
    by auto
  have jobs: "map_of (job_vertices g2) j = (if j = op then Some nt else map_of (job_vertices g) j)" for j
    using new g2(2) by (auto simp: update_conv)
  have ok: "jv_ok ot" "jv_id ot = op" "jv_ok nt" "jv_id nt = op" using graph_okD(4) [OF g old] graph_okD(4) [OF g2(1) new] by simp_all
  obtain d' where "delta_between ot nt = Inr d'"
    "map ev_id (added d') = map (\<lambda>j. \<lparr>job_vertex_id = jv_id ot, vertex_index = j\<rparr>) [jv_concurrency ot..jv_concurrency nt - 1]"
    "map ev_id (removed d') = map (\<lambda>j. \<lparr>job_vertex_id = jv_id ot, vertex_index = j\<rparr>) [jv_concurrency nt..jv_concurrency ot - 1]"
    using delta_between_spec [OF ok(1,3)] ok(2,4) by auto
  then have add: "map ev_id (added d) = map (\<lambda>j. \<lparr>job_vertex_id = op, vertex_index = j\<rparr>) [jv_concurrency ot..jv_concurrency nt - 1]"
    and rem: "map ev_id (removed d) = map (\<lambda>j. \<lparr>job_vertex_id = op, vertex_index = j\<rparr>) [jv_concurrency nt..jv_concurrency ot - 1]"
    using st(4) ok(2) by auto
  have pos: "0 < jv_concurrency ot" "0 < jv_concurrency nt" using ok by (auto simp: jv_ok_def)
  have addset: "ev_id ` set (added d) = {x. job_vertex_id x = op \<and> jv_concurrency ot \<le> vertex_index x \<and> vertex_index x < jv_concurrency nt}"
    and remset: "ev_id ` set (removed d) = {x. job_vertex_id x = op \<and> jv_concurrency nt \<le> vertex_index x \<and> vertex_index x < jv_concurrency ot}"
  proof -
    have range: "(\<lambda>j. \<lparr>job_vertex_id = op, vertex_index = j\<rparr>) ` {a..b - 1} = {x. job_vertex_id x = op \<and> a \<le> vertex_index x \<and> vertex_index x < b}" for a b
    proof (intro set_eqI)
      show "x \<in> (\<lambda>j. \<lparr>job_vertex_id = op, vertex_index = j\<rparr>) ` {a..b - 1} \<longleftrightarrow>
        x \<in> {x. job_vertex_id x = op \<and> a \<le> vertex_index x \<and> vertex_index x < b}" for x by (cases x) auto
    qed
    show "ev_id ` set (added d) = {x. job_vertex_id x = op \<and> jv_concurrency ot \<le> vertex_index x \<and> vertex_index x < jv_concurrency nt}"
      using arg_cong [OF add, of set] by (simp add: range)
    show "ev_id ` set (removed d) = {x. job_vertex_id x = op \<and> jv_concurrency nt \<le> vertex_index x \<and> vertex_index x < jv_concurrency ot}"
      using arg_cong [OF rem, of set] by (simp add: range)
  qed
  show "graph_ok (new_graph plan)" "old_graph plan = g" using g2(1) st(5,6) by simp_all
  show "distinct (map ev_id (added (plan_delta plan)))" using add st(7) by (simp add: distinct_map inj_on_def)
  show "ev_id ` set (added (plan_delta plan)) \<inter> vertex_ids g = {}"
    unfolding st(7) addset using graph_vertex_ids [OF g] old by auto
  show "ev_id ` set (added (plan_delta plan)) \<subseteq> vertex_ids (new_graph plan)"
    unfolding st(7) st(5) addset using graph_vertex_ids [OF g2(1)] new pos(1) by auto
  show "vertex_ids g \<subseteq> vertex_ids (new_graph plan) \<union> ev_id ` set (removed (plan_delta plan))"
  proof
    fix x assume "x \<in> vertex_ids g"
    then obtain v where v: "map_of (job_vertices g) (job_vertex_id x) = Some v" "0 \<le> vertex_index x" "vertex_index x < jv_concurrency v"
      using graph_vertex_ids [OF g] by blast
    show "x \<in> vertex_ids (new_graph plan) \<union> ev_id ` set (removed (plan_delta plan))"
      using v old unfolding st(5,7) Un_iff graph_vertex_ids [OF g2(1)] remset jobs by auto
  qed
qed

subsection \<open>The invariant of the job master\<close>

definition plan_root :: "placement_master \<Rightarrow> nat \<Rightarrow> bool" where
  "plan_root s r \<longleftrightarrow> m_plan s = Some r \<or> PendingPlan r \<in> set (m_pending s) \<or>
     (\<exists>t. PendingTransition t \<in> set (m_pending s) \<and> \<not> tr_committed (m_transitions s ! t) \<and> tr_candidate (m_transitions s ! t) = r)"

text \<open>Vertices that left the graph while their reservations could not be released yet.\<close>

definition leaving :: "placement_master \<Rightarrow> vertex_id set" where
  "leaving s = {v. \<exists>t. PendingTransition t \<in> set (m_pending s) \<and> tr_committed (m_transitions s ! t) \<and> v \<in> set (tr_removed (m_transitions s ! t))}"

definition pending_ok :: "placement_master \<Rightarrow> pending_cleanup \<Rightarrow> bool" where
  "pending_ok s x =
     (case x of
        PendingPlan r \<Rightarrow> r < length (m_plans s) \<and> m_plan s \<noteq> Some r
      | PendingTransition t \<Rightarrow>
          t < length (m_transitions s) \<and> \<not> tr_released (m_transitions s ! t) \<and>
          tr_owner (m_transitions s ! t) < length (m_plans s) \<and> tr_candidate (m_transitions s ! t) < length (m_plans s) \<and>
          m_plan s \<noteq> Some (tr_candidate (m_transitions s ! t)) \<and>
          (tr_committed (m_transitions s ! t) \<longrightarrow> m_plan s \<in> {None, Some (tr_owner (m_transitions s ! t))}))"

abbreviation plan_keys :: "placement_master \<Rightarrow> nat \<Rightarrow> vertex_id set" where
  "plan_keys s r \<equiv> set (keys (placement_group_by_vertex (m_plans s ! r)))"

definition master_inv :: "placement_master \<Rightarrow> bool" where
  "master_inv s \<longleftrightarrow> ownership (m_ray s) (m_plans s) \<and> graph_ok (m_graph s) \<and>
     (\<forall>r < length (m_plans s). placement_group_by_vertex (m_plans s ! r) \<noteq> [] \<longrightarrow> plan_root s r) \<and>
     (\<forall>r. m_plan s = Some r \<longrightarrow> r < length (m_plans s) \<and> plan_keys s r \<subseteq> vertex_ids (m_graph s) \<union> leaving s) \<and>
     (m_pending s = [] \<or> (\<exists>x. m_pending s = [x] \<and> pending_ok s x))"

text \<open>An operation that only releases groups of the plan at \<open>r\<close>.\<close>

definition released_at :: "nat \<Rightarrow> placement_master \<Rightarrow> placement_master \<Rightarrow> bool" where
  "released_at r s s' \<longleftrightarrow> (\<exists>w p. s' = s\<lparr>m_ray := w, m_plans := (m_plans s)[r := p]\<rparr> \<and> ownership w ((m_plans s)[r := p]) \<and>
     set (placement_group_by_vertex p) \<subseteq> set (placement_group_by_vertex (m_plans s ! r)))"

lemma on_plan_released:
  assumes o: "ownership (m_ray s) (m_plans s)" "r < length (m_plans s)"
    and sh: "f (m_ray s, m_plans s ! r) = ((w, p), e)" "shrinks R (m_ray s, m_plans s ! r) (w, p)"
  shows "released_at r s (fst (on_plan f r s))" "snd (on_plan f r s) = e" "m_plans (fst (on_plan f r s)) ! r = p"
proof -
  have "set (placement_group_by_vertex p) \<subseteq> set (placement_group_by_vertex (m_plans s ! r))" using sh(2) by (auto simp: shrinks_def)
  then show "released_at r s (fst (on_plan f r s))" unfolding released_at_def
    by (intro exI [of _ w] exI [of _ p]) (simp add: on_plan_def sh(1) ownership_shrink [OF o sh(2)])
  show "snd (on_plan f r s) = e" "m_plans (fst (on_plan f r s)) ! r = p" using sh(1) o(2) by (simp_all add: on_plan_def)
qed

lemma close_at_released:
  assumes "ownership (m_ray s) (m_plans s)" "r < length (m_plans s)" "close_at fails r s = (s', e)"
  shows "released_at r s s'" "e = None \<Longrightarrow> placement_group_by_vertex (m_plans s' ! r) = []"
    "e = None \<longleftrightarrow> (\<forall>g \<in> set (owned_groups (m_plans s ! r)). \<not> fails g)"
proof -
  have ok: "plan_ok (m_plans s ! r)" using assms(1,2) by (simp add: ownership_def)
  obtain w p e' where c: "close_plan fails False (m_ray s, m_plans s ! r) = ((w, p), e')" by (metis surj_pair)
  note sh = close_plan_shrinks [OF ok c] and op = on_plan_released [where f = "close_plan fails False", OF assms(1,2) c close_plan_shrinks(1) [OF ok c]]
  show "released_at r s s'" "e = None \<Longrightarrow> placement_group_by_vertex (m_plans s' ! r) = []"
    "e = None \<longleftrightarrow> (\<forall>g \<in> set (owned_groups (m_plans s ! r)). \<not> fails g)"
    using op sh assms(3) by (simp_all add: close_at_def)
qed

lemma release_at_released:
  assumes "ownership (m_ray s) (m_plans s)" "r < length (m_plans s)" "on_plan (release_vertices fails sel) r s = (s', e)"
  shows "released_at r s s'" "e = None \<Longrightarrow> set sel \<inter> plan_keys s' r = {}"
proof -
  have ok: "plan_ok (m_plans s ! r)" using assms(1,2) by (simp add: ownership_def)
  obtain w p e' where c: "release_vertices fails sel (m_ray s, m_plans s ! r) = ((w, p), e')" by (metis surj_pair)
  obtain R where sh: "shrinks R (m_ray s, m_plans s ! r) (w, p)" "e' = None \<longrightarrow> set sel \<inter> set (keys (placement_group_by_vertex p)) = {}"
    using release_vertices_shrinks [OF ok c] by blast
  note op = on_plan_released [where f = "release_vertices fails sel", OF assms(1,2) c sh(1)]
  show "released_at r s s'" "e = None \<Longrightarrow> set sel \<inter> plan_keys s' r = {}" using op sh(2) assms(3) by simp_all
qed

lemma released_at_fields:
  assumes "released_at r s s'" "r < length (m_plans s)"
  shows "m_plan s' = m_plan s" "m_pending s' = m_pending s" "m_transitions s' = m_transitions s" "m_graph s' = m_graph s"
    "length (m_plans s') = length (m_plans s)" "ownership (m_ray s') (m_plans s')"
    "set (placement_group_by_vertex (m_plans s' ! q)) \<subseteq> set (placement_group_by_vertex (m_plans s ! q))"
  using assms by (auto simp: released_at_def nth_list_update split: if_splits)

lemma released_at_inv:
  assumes "released_at r s s'" "r < length (m_plans s)" "master_inv s"
  shows "master_inv s'"
proof -
  note f = released_at_fields [OF assms(1,2)]
  have keys: "plan_keys s' q \<subseteq> plan_keys s q" for q using f(7) [of q] by auto
  have roots: "plan_root s' = plan_root s" "leaving s' = leaving s" "pending_ok s' = pending_ok s"
    by (simp_all add: plan_root_def leaving_def pending_ok_def f(1-5) fun_eq_iff split: pending_cleanup.split)
  have "plan_root s' q" if "q < length (m_plans s')" "placement_group_by_vertex (m_plans s' ! q) \<noteq> []" for q
  proof -
    have "placement_group_by_vertex (m_plans s ! q) \<noteq> []" using that(2) f(7) [of q] by auto
    then show ?thesis using assms(3) that(1) f(5) roots(1) by (simp add: master_inv_def)
  qed
  moreover have "q < length (m_plans s') \<and> plan_keys s' q \<subseteq> vertex_ids (m_graph s') \<union> leaving s'" if "m_plan s' = Some q" for q
  proof -
    have "q < length (m_plans s)" "plan_keys s q \<subseteq> vertex_ids (m_graph s) \<union> leaving s" using assms(3) that f(1) by (simp_all add: master_inv_def)
    then show ?thesis using keys [of q] f(4,5) roots(2) by auto
  qed
  moreover have "graph_ok (m_graph s')" "m_pending s' = [] \<or> (\<exists>x. m_pending s' = [x] \<and> pending_ok s' x)"
    using assms(3) f(2,4) roots(3) by (simp_all add: master_inv_def)
  ultimately show ?thesis using f(6) unfolding master_inv_def by blast
qed

lemma drop_pending_inv:
  assumes inv: "master_inv s" and x: "m_pending s = [x]"
    and freed: "case x of PendingPlan r \<Rightarrow> placement_group_by_vertex (m_plans s ! r) = []
      | PendingTransition t \<Rightarrow> (if tr_committed (m_transitions s ! t)
          then set (tr_removed (m_transitions s ! t)) \<inter> plan_keys s (tr_owner (m_transitions s ! t)) = {}
          else placement_group_by_vertex (m_plans s ! tr_candidate (m_transitions s ! t)) = [])"
  shows "master_inv (s\<lparr>m_transitions := ts, m_pending := []\<rparr>)"
proof -
  let ?s = "s\<lparr>m_transitions := ts, m_pending := []\<rparr>"
  have "plan_root ?s r" if "r < length (m_plans s)" "placement_group_by_vertex (m_plans s ! r) \<noteq> []" for r
  proof -
    have "plan_root s r" using inv that by (simp add: master_inv_def)
    then show ?thesis using freed x that(2) by (auto simp: plan_root_def split: pending_cleanup.splits if_splits)
  qed
  moreover have "plan_keys s r \<subseteq> vertex_ids (m_graph s)" if r: "m_plan s = Some r" for r
  proof -
    have "leaving s \<inter> plan_keys s r = {}"
      using freed inv x r by (auto simp: leaving_def master_inv_def pending_ok_def split: pending_cleanup.splits if_splits)
    moreover have "plan_keys s r \<subseteq> vertex_ids (m_graph s) \<union> leaving s" using inv r by (simp add: master_inv_def)
    ultimately show ?thesis by blast
  qed
  ultimately show ?thesis using inv by (auto simp: master_inv_def)
qed

lemma pending_same: "m_pending s = P \<Longrightarrow> s\<lparr>m_pending := P\<rparr> = s"
  by (cases s) simp

lemma transitions_same: "s\<lparr>m_transitions := m_transitions s, m_pending := P\<rparr> = s\<lparr>m_pending := P\<rparr>"
  by (cases s) simp

lemma reconcile_item_inv:
  assumes inv: "master_inv s" and x: "m_pending s = [x]" and r: "reconcile_item fails x s = (s', e)"
  shows "m_pending s' = [x]" "m_graph s' = m_graph s" "m_plan s' = m_plan s" "e \<noteq> None \<Longrightarrow> master_inv s'"
    "e = None \<Longrightarrow> master_inv (s'\<lparr>m_pending := []\<rparr>)"
proof -
  have o: "ownership (m_ray s) (m_plans s)" and ok: "pending_ok s x" using inv x by (auto simp: master_inv_def)
  have "m_pending s' = [x] \<and> m_graph s' = m_graph s \<and> m_plan s' = m_plan s \<and> (e \<noteq> None \<longrightarrow> master_inv s') \<and>
    (e = None \<longrightarrow> master_inv (s'\<lparr>m_pending := []\<rparr>))"
  proof (cases x)
    case (PendingPlan q)
    then have c: "close_at fails q s = (s', e)" and q: "q < length (m_plans s)" using r ok by (simp_all add: reconcile_item_def pending_ok_def)
    note rel = close_at_released [OF o q c] and f = released_at_fields [OF close_at_released(1) [OF o q c] q]
    have inv': "master_inv s'" using rel(1) q inv by (rule released_at_inv)
    show ?thesis using drop_pending_inv [OF inv', of x "m_transitions s'", unfolded transitions_same] rel(2) f(1-4) inv' x PendingPlan by auto
  next
    case (PendingTransition t)
    let ?x = "m_transitions s ! t"
    show ?thesis
    proof (cases "tr_committed ?x")
      case False
      then have c: "close_at fails (tr_candidate ?x) s = (s', e)" and q: "tr_candidate ?x < length (m_plans s)"
        using r ok PendingTransition by (simp_all add: reconcile_item_def reconcile_transition_def rollback_transition_def pending_ok_def)
      note rel = close_at_released [OF o q c] and f = released_at_fields [OF close_at_released(1) [OF o q c] q]
      have inv': "master_inv s'" using rel(1) q inv by (rule released_at_inv)
      show ?thesis using drop_pending_inv [OF inv', of x "m_transitions s'", unfolded transitions_same] rel(2) f(1-4) inv' x PendingTransition False by auto
    next
      case True
      have q: "tr_owner ?x < length (m_plans s)" and fresh: "\<not> tr_released ?x" using ok PendingTransition by (simp_all add: pending_ok_def)
      obtain s1 e1 where c: "on_plan (release_vertices fails (tr_removed ?x)) (tr_owner ?x) s = (s1, e1)" by (metis surj_pair)
      note rel = release_at_released [OF o q c] and f = released_at_fields [OF release_at_released(1) [OF o q c] q]
      have inv': "master_inv s1" using rel(1) q inv by (rule released_at_inv)
      have s': "s' = (case e1 of None \<Rightarrow> s1\<lparr>m_transitions := (m_transitions s1)[t := ?x\<lparr>tr_released := True\<rparr>]\<rparr> | Some _ \<Rightarrow> s1)" "e = e1"
        using r PendingTransition True fresh c
        by (auto simp: reconcile_item_def reconcile_transition_def release_retired_def split: option.splits)
      have "master_inv (s1\<lparr>m_transitions := ts, m_pending := []\<rparr>)" if "e1 = None" for ts
        using rel(2) [OF that] f x PendingTransition True by (intro drop_pending_inv [OF inv', of x]) auto
      then show ?thesis using f x inv' s' by (cases e1) auto
    qed
  qed
  then show "m_pending s' = [x]" "m_graph s' = m_graph s" "m_plan s' = m_plan s" "e \<noteq> None \<Longrightarrow> master_inv s'"
    "e = None \<Longrightarrow> master_inv (s'\<lparr>m_pending := []\<rparr>)" by blast+
qed

lemma reconcile_pending_inv:
  assumes inv: "master_inv s" and r: "reconcile_pending fails s = (s', e)"
  shows "master_inv s'" "e = None \<Longrightarrow> m_pending s' = []" "m_graph s' = m_graph s" "m_plan s' = m_plan s"
proof -
  have "master_inv s' \<and> (e = None \<longrightarrow> m_pending s' = []) \<and> m_graph s' = m_graph s \<and> m_plan s' = m_plan s"
  proof (cases "m_pending s = []")
    case True
    then show ?thesis using inv r pending_same [OF True] by (auto simp: reconcile_pending_def)
  next
    case False
    then obtain x where x: "m_pending s = [x]" using inv by (auto simp: master_inv_def)
    obtain s1 e1 where c: "reconcile_item fails x s = (s1, e1)" by (metis surj_pair)
    note item = reconcile_item_inv [OF inv x c]
    note same = pending_same [OF item(1)]
    show ?thesis using item r x c same by (cases e1) (auto simp: reconcile_pending_def)
  qed
  then show "master_inv s'" "e = None \<Longrightarrow> m_pending s' = []" "m_graph s' = m_graph s" "m_plan s' = m_plan s" by blast+
qed

lemma close_placement_plan_inv:
  assumes inv: "master_inv s" and r: "close_placement_plan fails s = (s', e)"
  shows "master_inv s'" "e = None \<Longrightarrow> m_plan s' = None" "m_pending s' = m_pending s" "m_graph s' = m_graph s"
proof -
  have "master_inv s' \<and> (e = None \<longrightarrow> m_plan s' = None) \<and> m_pending s' = m_pending s \<and> m_graph s' = m_graph s"
  proof (cases "m_plan s")
    case None
    then show ?thesis using inv r by (auto simp: close_placement_plan_def)
  next
    case (Some q)
    have o: "ownership (m_ray s) (m_plans s)" and q: "q < length (m_plans s)" using inv Some by (auto simp: master_inv_def)
    obtain s1 e1 where c: "close_at fails q s = (s1, e1)" by (metis surj_pair)
    note rel = close_at_released [OF o q c] and f = released_at_fields [OF close_at_released(1) [OF o q c] q]
    have inv': "master_inv s1" using rel(1) q inv by (rule released_at_inv)
    have "master_inv (s1\<lparr>m_plan := None\<rparr>)" if "e1 = None"
    proof -
      let ?s = "s1\<lparr>m_plan := None\<rparr>"
      have "plan_root ?s k" if "k < length (m_plans s1)" "placement_group_by_vertex (m_plans s1 ! k) \<noteq> []" for k
      proof -
        have "plan_root s1 k" using inv' that by (simp add: master_inv_def)
        moreover have "k \<noteq> q" using rel(2) [OF \<open>e1 = None\<close>] that(2) by blast
        ultimately show ?thesis using f(1) Some by (auto simp: plan_root_def)
      qed
      moreover have "pending_ok ?s x" if "pending_ok s1 x" for x using that by (auto simp: pending_ok_def split: pending_cleanup.splits)
      ultimately show ?thesis using inv' by (auto simp: master_inv_def)
    qed
    then show ?thesis using r Some c inv' f by (cases e1) (auto simp: close_placement_plan_def)
  qed
  then show "master_inv s'" "e = None \<Longrightarrow> m_plan s' = None" "m_pending s' = m_pending s" "m_graph s' = m_graph s" by blast+
qed

text \<open>The pending list is not looked at while an item is reconciled.\<close>

lemma reconcile_item_pending:
  "reconcile_item fails x (s\<lparr>m_pending := P\<rparr>) = (case reconcile_item fails x s of (s', e) \<Rightarrow> (s'\<lparr>m_pending := P\<rparr>, e))"
  by (cases x) (auto simp: reconcile_item_def close_at_def on_plan_def reconcile_transition_def rollback_transition_def release_retired_def
      Let_def split: prod.splits option.splits)

lemma reconcile_item_keeps: "reconcile_item fails x s = (s', e) \<Longrightarrow> m_pending s' = m_pending s"
  by (cases x) (auto simp: reconcile_item_def close_at_def on_plan_def reconcile_transition_def rollback_transition_def release_retired_def
      Let_def split: prod.splits option.splits if_splits)

text \<open>Cleaning up at once and remembering what failed, the pattern of every failure path.\<close>

lemma cleanup_or_remember:
  assumes inv: "master_inv (s\<lparr>m_pending := [x]\<rparr>)" and none: "m_pending s = []" and r: "reconcile_item fails x s = (s', e)"
  shows "master_inv (if e = None then s' else remember_pending x s')"
proof -
  have "reconcile_item fails x (s\<lparr>m_pending := [x]\<rparr>) = (s'\<lparr>m_pending := [x]\<rparr>, e)" using r by (simp add: reconcile_item_pending)
  note item = reconcile_item_inv [OF inv _ this]
  have empty: "m_pending s' = []" using reconcile_item_keeps [OF r] none by simp
  show ?thesis using item(4,5) empty pending_same [OF empty] by (cases e) (simp_all add: remember_pending_def)
qed

text \<open>A fresh plan, held by nobody else, is put into the job master's hands in one of three ways.\<close>

lemma no_groups_elsewhere:
  assumes "master_inv s" "m_pending s = []" "q < length (m_plans s)" "m_plan s \<noteq> Some q"
  shows "placement_group_by_vertex (m_plans s ! q) = []"
proof (rule ccontr)
  assume "placement_group_by_vertex (m_plans s ! q) \<noteq> []"
  then have "plan_root s q" using assms(1,3) by (simp add: master_inv_def)
  then show False using assms(2,4) by (simp add: plan_root_def)
qed

lemma master_invI:
  assumes "ownership (m_ray s) (m_plans s)" "graph_ok (m_graph s)"
    "\<And>r. r < length (m_plans s) \<Longrightarrow> placement_group_by_vertex (m_plans s ! r) \<noteq> [] \<Longrightarrow> plan_root s r"
    "\<And>r. m_plan s = Some r \<Longrightarrow> r < length (m_plans s) \<and> plan_keys s r \<subseteq> vertex_ids (m_graph s) \<union> leaving s"
    "m_pending s = [] \<or> (\<exists>x. m_pending s = [x] \<and> pending_ok s x)"
  shows "master_inv s"
  unfolding master_inv_def
proof (intro conjI allI impI)
  show "r < length (m_plans s)" "plan_keys s r \<subseteq> vertex_ids (m_graph s) \<union> leaving s" if "m_plan s = Some r" for r
    using assms(4) [OF that] by blast+
qed (use assms(1,2,3,5) in simp_all)

lemma master_inv_quiet:
  assumes "master_inv s" "m_pending s = []"
  shows "ownership (m_ray s) (m_plans s)" "graph_ok (m_graph s)"
    "m_plan s = Some r \<Longrightarrow> r < length (m_plans s)" "m_plan s = Some r \<Longrightarrow> plan_keys s r \<subseteq> vertex_ids (m_graph s)"
  using assms by (simp_all add: master_inv_def leaving_def)

lemma remember_plan_inv:
  assumes inv: "master_inv s" "m_pending s = []" and o: "ownership w (m_plans s @ [p])"
  shows "master_inv ((add_plan w p s)\<lparr>m_pending := [PendingPlan (length (m_plans s))]\<rparr>)"
proof (rule master_invI)
  let ?n = "length (m_plans s)" and ?s = "(add_plan w p s)\<lparr>m_pending := [PendingPlan (length (m_plans s))]\<rparr>"
  note q = master_inv_quiet [OF inv]
  show "ownership (m_ray ?s) (m_plans ?s)" "graph_ok (m_graph ?s)" using o q(2) by (simp_all add: add_plan_def)
  show "plan_root ?s r" if "r < length (m_plans ?s)" "placement_group_by_vertex (m_plans ?s ! r) \<noteq> []" for r
    using that no_groups_elsewhere [OF inv, of r] by (cases "r = ?n") (auto simp: add_plan_def plan_root_def nth_append)
  show "r < length (m_plans ?s) \<and> plan_keys ?s r \<subseteq> vertex_ids (m_graph ?s) \<union> leaving ?s" if "m_plan ?s = Some r" for r
    using that q(3,4) [of r] by (auto simp: add_plan_def nth_append)
  show "m_pending ?s = [] \<or> (\<exists>x. m_pending ?s = [x] \<and> pending_ok ?s x)" using q(3) [of ?n] by (auto simp: add_plan_def pending_ok_def)
qed

lemma install_plan_inv:
  assumes inv: "master_inv s" "m_pending s = []" "m_plan s = None" and o: "ownership w (m_plans s @ [p])"
    and ids: "set (keys (placement_group_by_vertex p)) \<subseteq> vertex_ids (m_graph s)"
  shows "master_inv ((add_plan w p s)\<lparr>m_plan := Some (length (m_plans s))\<rparr>)"
proof (rule master_invI)
  let ?n = "length (m_plans s)" and ?s = "(add_plan w p s)\<lparr>m_plan := Some (length (m_plans s))\<rparr>"
  show "ownership (m_ray ?s) (m_plans ?s)" "graph_ok (m_graph ?s)" using o master_inv_quiet(2) [OF inv(1,2)] by (simp_all add: add_plan_def)
  show "plan_root ?s r" if "r < length (m_plans ?s)" "placement_group_by_vertex (m_plans ?s ! r) \<noteq> []" for r
    using that no_groups_elsewhere [OF inv(1,2), of r] inv(3) by (cases "r = ?n") (auto simp: add_plan_def plan_root_def nth_append)
  show "r < length (m_plans ?s) \<and> plan_keys ?s r \<subseteq> vertex_ids (m_graph ?s) \<union> leaving ?s" if "m_plan ?s = Some r" for r
  proof -
    have "m_plans ?s ! r = p" "r = ?n" using that by (auto simp: add_plan_def)
    then show ?thesis using le_supI1 [OF ids] by (simp add: add_plan_def)
  qed
  show "m_pending ?s = [] \<or> (\<exists>x. m_pending ?s = [x] \<and> pending_ok ?s x)" using inv(2) by (simp add: add_plan_def)
qed

lemma ray_only_inv:
  assumes inv: "master_inv s" "m_pending s = []" and o: "ownership w (m_plans s)"
  shows "master_inv (s\<lparr>m_ray := w\<rparr>)"
proof (rule master_invI)
  let ?s = "s\<lparr>m_ray := w\<rparr>"
  note q = master_inv_quiet [OF inv]
  show "ownership (m_ray ?s) (m_plans ?s)" "graph_ok (m_graph ?s)" using o q(2) by simp_all
  show "plan_root ?s r" if "r < length (m_plans ?s)" "placement_group_by_vertex (m_plans ?s ! r) \<noteq> []" for r
    using that no_groups_elsewhere [OF inv, of r] by (auto simp: plan_root_def)
  show "r < length (m_plans ?s) \<and> plan_keys ?s r \<subseteq> vertex_ids (m_graph ?s) \<union> leaving ?s" if "m_plan ?s = Some r" for r
    using that q(3,4) [of r] by auto
qed (use inv in simp)

lemma place_workers_inv:
  assumes inv: "master_inv s" "m_pending s = []" "m_plan s = None" and r: "place_workers a st s = (s', out)"
  shows "case out of Placed q \<Rightarrow> master_inv (s'\<lparr>m_plan := Some q\<rparr>) | CleanupError q \<Rightarrow> master_inv (remember_pending (PendingPlan q) s')
    | _ \<Rightarrow> master_inv s' \<and> m_pending s' = [] \<and> m_plan s' = None"
proof -
  have o: "ownership (m_ray s) (m_plans s)" and g: "graph_ok (m_graph s)" using inv(1) by (simp_all add: master_inv_def)
  obtain w pd where sp: "strategy_plan st (m_graph s) (at_planning a) (m_ray s) = (w, pd)" by (metis surj_pair)
  have pk: "planned_ok w (m_plans s) (vertex_ids (m_graph s)) st pd" using strategy_plan_ok [OF o graph_ids_distinct [OF g] sp] .
  let ?r = "length (m_plans s)"
  show ?thesis
  proof (cases pd)
    case (Planned p)
    let ?s1 = "add_plan w p s"
    have op: "ownership w (m_plans s @ [p])" "set (keys (placement_group_by_vertex p)) \<subseteq> vertex_ids (m_graph s)"
      using pk Planned by (simp_all add: planned_ok_def)
    show ?thesis
    proof (cases "at_instantiated a")
      case True
      then show ?thesis using r sp Planned install_plan_inv [OF inv op] by (auto simp: place_workers_def Let_def)
    next
      case False
      obtain s2 e where c: "close_at (at_rollback_fails a) ?r ?s1 = (s2, e)" by (metis surj_pair)
      have none: "m_pending ?s1 = []" "m_plan ?s1 = None" using inv(2,3) by (simp_all add: add_plan_def)
      have c': "reconcile_item (at_rollback_fails a) (PendingPlan ?r) ?s1 = (s2, e)" using c by (simp add: reconcile_item_def)
      note fin = cleanup_or_remember [OF remember_plan_inv [OF inv(1,2) op(1)] none(1) c']
      have "m_pending s2 = []" "m_plan s2 = None"
        using c none by (auto simp: close_at_def on_plan_def split: prod.splits)
      then show ?thesis using fin r sp Planned False c by (cases e) (auto simp: place_workers_def Let_def)
    qed
  next
    case (Incomplete p)
    then have op: "ownership w (m_plans s @ [p])" using pk by (simp add: planned_ok_def)
    have "m_pending (add_plan w p s) = []" using inv(2) by (simp add: add_plan_def)
    then show ?thesis using r sp Incomplete remember_plan_inv [OF inv(1,2) op] by (auto simp: place_workers_def remember_pending_def)
  next
    case Infeasible
    then have "ownership w (m_plans s)" using pk by (simp add: planned_ok_def)
    then show ?thesis using r sp Infeasible ray_only_inv [OF inv(1,2)] inv(2,3) by (auto simp: place_workers_def)
  next
    case (Failed e)
    then have "ownership w (m_plans s)" using pk by (simp add: planned_ok_def)
    then show ?thesis using r sp Failed ray_only_inv [OF inv(1,2)] inv(2,3) by (auto simp: place_workers_def)
  qed
qed

lemma try_strategies_inv:
  "master_inv s \<Longrightarrow> m_pending s = [] \<Longrightarrow> m_plan s = None \<Longrightarrow> try_strategies cascade s = (s', e) \<Longrightarrow> master_inv s'"
proof (induction cascade s rule: try_strategies.induct)
  case (2 st a rest s)
  obtain s1 out where pw: "place_workers a st s = (s1, out)" by (metis surj_pair)
  show ?case using place_workers_inv [OF "2.prems"(1-3) pw] "2.prems"(4) pw "2.IH" [OF pw [symmetric]] by (cases out) auto
qed auto

lemma create_workers_inv:
  assumes "master_inv s" "create_workers f1 f2 cascade s = (s', e)"
  shows "master_inv s'"
proof -
  obtain s1 e1 where r: "reconcile_pending f1 s = (s1, e1)" by (metis surj_pair)
  note i1 = reconcile_pending_inv [OF assms(1) r]
  obtain s2 e2 where c: "close_placement_plan f2 s1 = (s2, e2)" by (metis surj_pair)
  note i2 = close_placement_plan_inv [OF i1(1) c]
  show ?thesis using assms(2) r c i1 i2 try_strategies_inv [of s2 cascade]
    by (cases e1; cases e2) (auto simp: create_workers_def)
qed

lemma stop_placement_inv:
  assumes "master_inv s" "stop_placement f1 f2 s = (s', es)"
  shows "master_inv s'"
proof -
  obtain s1 e1 where r: "reconcile_pending f1 s = (s1, e1)" by (metis surj_pair)
  obtain s2 e2 where c: "close_placement_plan f2 s1 = (s2, e2)" by (metis surj_pair)
  have "s' = s2" using assms(2) r c by (simp add: stop_placement_def)
  then show ?thesis using close_placement_plan_inv(1) [OF reconcile_pending_inv(1) [OF assms(1) r] c] by simp
qed

subsection \<open>A rescale keeps the invariant\<close>

text \<open>The state after a reservation for added vertices, and after its adoption into the job's plan.\<close>

definition offered :: "ray_groups \<Rightarrow> placement_plan \<Rightarrow> placement_transition \<Rightarrow> placement_master \<Rightarrow> placement_master" where
  "offered w c tr s = s\<lparr>m_ray := w, m_plans := m_plans s @ [c], m_transitions := m_transitions s @ [tr]\<rparr>"

definition fresh_transition :: "nat \<Rightarrow> vertex_id list \<Rightarrow> placement_master \<Rightarrow> placement_transition" where
  "fresh_transition r ids s = \<lparr>tr_owner = r, tr_candidate = length (m_plans s), tr_removed = ids, tr_committed = False, tr_released = False\<rparr>"

lemma offered_inv:
  assumes inv: "master_inv s" "m_pending s = []" and r: "m_plan s = Some r" and o: "ownership w (m_plans s @ [c])"
  shows "master_inv ((offered w c (fresh_transition r ids s) s)\<lparr>m_pending := [PendingTransition (length (m_transitions s))]\<rparr>)"
proof (rule master_invI)
  let ?n = "length (m_plans s)" and ?s = "(offered w c (fresh_transition r ids s) s)\<lparr>m_pending := [PendingTransition (length (m_transitions s))]\<rparr>"
  note q = master_inv_quiet [OF inv] and sim = offered_def fresh_transition_def
  show "ownership (m_ray ?s) (m_plans ?s)" "graph_ok (m_graph ?s)" using o q(2) by (simp_all add: sim)
  show "plan_root ?s k" if "k < length (m_plans ?s)" "placement_group_by_vertex (m_plans ?s ! k) \<noteq> []" for k
    using that no_groups_elsewhere [OF inv, of k] by (cases "k = ?n") (auto simp: sim plan_root_def nth_append)
  show "k < length (m_plans ?s) \<and> plan_keys ?s k \<subseteq> vertex_ids (m_graph ?s) \<union> leaving ?s" if "m_plan ?s = Some k" for k
    using that q(3,4) [of k] by (auto simp: sim nth_append)
  have "pending_ok ?s (PendingTransition (length (m_transitions s)))" using r q(3) [OF r] by (auto simp: sim pending_ok_def)
  then show "m_pending ?s = [] \<or> (\<exists>x. m_pending ?s = [x] \<and> pending_ok ?s x)" by simp
qed

lemma commit_inv:
  assumes inv: "master_inv s" "m_pending s = []" and r: "m_plan s = Some r" "\<not> plan_closed (m_plans s ! r)"
    and o: "ownership w (m_plans s @ [c])" and c: "\<not> plan_closed c" "plan_strategy c = plan_strategy (m_plans s ! r)"
    and keys: "set (keys (placement_group_by_vertex c)) \<subseteq> A" "A \<inter> vertex_ids (m_graph s) = {}" "A \<subseteq> vertex_ids g"
    and g: "graph_ok g" "vertex_ids (m_graph s) \<subseteq> vertex_ids g \<union> set ids"
  shows "\<exists>s3. commit_transition (length (m_transitions s)) ((offered w c (fresh_transition r ids s) s)\<lparr>m_graph := g\<rparr>) = (s3, None) \<and>
    m_pending s3 = [] \<and> tr_committed (m_transitions s3 ! length (m_transitions s)) \<and>
    tr_removed (m_transitions s3 ! length (m_transitions s)) = ids \<and>
    master_inv (s3\<lparr>m_pending := [PendingTransition (length (m_transitions s))]\<rparr>)"
proof -
  let ?n = "length (m_plans s)" and ?t = "length (m_transitions s)" and ?tr = "fresh_transition r ids s"
  note q = master_inv_quiet [OF inv] and sim = offered_def fresh_transition_def
  have rn: "r < ?n" using q(3) [OF r(1)] .
  define ps where "ps = m_plans s @ [c]"
  have at: "ps ! r = m_plans s ! r" "ps ! ?n = c" "length ps = ?n + 1" using rn by (simp_all add: ps_def nth_append)
  obtain p' c' where ad: "adopt_plan (m_plans s ! r) c = Inr (p', c')" using c(1) by (simp add: adopt_plan_def)
  have apart: "plan_keys s r \<inter> set (keys (placement_group_by_vertex c)) = {}" using q(4) [OF r(1)] keys(1,2) by blast
  have "ownership w (ps[r := p', ?n := c'])" "placement_group_by_vertex c' = []"
    "placement_group_by_vertex p' = placement_group_by_vertex (m_plans s ! r) @ placement_group_by_vertex c"
    using ownership_adopt [of w ps r ?n p' c'] o rn r(2) c(2) apart ad at by (simp_all add: ps_def)
  note ad' = this
  define s3 where "s3 = s\<lparr>m_ray := w, m_plans := ps[r := p', ?n := c'], m_transitions := m_transitions s @ [?tr\<lparr>tr_committed := True\<rparr>], m_graph := g\<rparr>"
  have com: "commit_transition ?t ((offered w c ?tr s)\<lparr>m_graph := g\<rparr>) = (s3, None)"
    using ad rn by (simp add: commit_transition_def Let_def s3_def sim ps_def nth_append)
  have "master_inv (s3\<lparr>m_pending := [PendingTransition ?t]\<rparr>)"
  proof (rule master_invI)
    let ?s = "s3\<lparr>m_pending := [PendingTransition ?t]\<rparr>"
    show "ownership (m_ray ?s) (m_plans ?s)" "graph_ok (m_graph ?s)" using ad'(1) g(1) by (simp_all add: s3_def)
    show "plan_root ?s k" if k: "k < length (m_plans ?s)" "placement_group_by_vertex (m_plans ?s ! k) \<noteq> []" for k
    proof -
      have "k \<noteq> ?n" using k(2) ad'(2) at(3) by (auto simp: s3_def)
      moreover have "k = r \<or> k < ?n \<and> placement_group_by_vertex (m_plans s ! k) \<noteq> []"
        using k at(3) \<open>k \<noteq> ?n\<close> by (auto simp: s3_def ps_def nth_append nth_list_update split: if_splits)
      ultimately show ?thesis using no_groups_elsewhere [OF inv, of k] r(1) by (auto simp: plan_root_def s3_def)
    qed
    have leave: "leaving ?s = set ids" by (auto simp: leaving_def s3_def fresh_transition_def nth_append)
    show "k < length (m_plans ?s) \<and> plan_keys ?s k \<subseteq> vertex_ids (m_graph ?s) \<union> leaving ?s" if "m_plan ?s = Some k" for k
    proof -
      have "k = r" using that r(1) by (simp add: s3_def)
      moreover have "m_plans ?s ! r = p'" using rn at(3) by (simp add: s3_def nth_list_update)
      moreover have "set (keys (placement_group_by_vertex p')) \<subseteq> vertex_ids g \<union> set ids"
        using ad'(3) q(4) [OF r(1)] keys(1,3) g(2) by auto
      ultimately show ?thesis using rn at(3) leave by (simp add: s3_def)
    qed
    have "pending_ok ?s (PendingTransition ?t)" using r(1) rn at(3) by (auto simp: s3_def pending_ok_def fresh_transition_def nth_append)
    then show "m_pending ?s = [] \<or> (\<exists>x. m_pending ?s = [x] \<and> pending_ok ?s x)" by simp
  qed
  moreover have "m_pending s3 = []" "tr_committed (m_transitions s3 ! ?t)" "tr_removed (m_transitions s3 ! ?t) = ids"
    using inv(2) by (simp_all add: s3_def fresh_transition_def nth_append)
  ultimately show ?thesis using com by blast
qed

lemma begin_rescale_spec:
  assumes inv: "master_inv s" "m_pending s = []" and d: "distinct (map ev_id (added (plan_delta plan)))"
    and b: "begin_rescale_placement pl plan timeout s = (s2, out)"
  shows "(\<exists>e. out = Inl e \<and> master_inv s2) \<or>
    (\<exists>r w c. out = Inr (length (m_transitions s)) \<and> m_plan s = Some r \<and> \<not> plan_closed (m_plans s ! r) \<and>
       s2 = offered w c (fresh_transition r (map ev_id (removed (plan_delta plan))) s) s \<and> ownership w (m_plans s @ [c]) \<and>
       \<not> plan_closed c \<and> plan_strategy c = plan_strategy (m_plans s ! r) \<and>
       set (keys (placement_group_by_vertex c)) \<subseteq> ev_id ` set (added (plan_delta plan)))"
proof (cases "\<exists>r st. m_plan s = Some r \<and> \<not> plan_closed (m_plans s ! r) \<and> plan_strategy (m_plans s ! r) = Some st")
  case False
  then have "s2 = s \<and> (\<exists>e. out = Inl e)" using b by (auto simp: begin_rescale_placement_def split: option.splits if_splits)
  then show ?thesis using inv by blast
next
  case True
  then obtain r st where r: "m_plan s = Some r" "\<not> plan_closed (m_plans s ! r)" "plan_strategy (m_plans s ! r) = Some st" by blast
  obtain w pd where sp: "strategy_plan_rescale st (new_graph plan) (added (plan_delta plan)) (m_plans s ! r) timeout pl (m_ray s) = (w, pd)"
    by (metis surj_pair)
  have pk: "planned_ok w (m_plans s) (ev_id ` set (added (plan_delta plan))) st pd"
    using strategy_plan_rescale_ok [OF master_inv_quiet(1) [OF inv] d sp] .
  show ?thesis
  proof (cases pd)
    case (Planned c)
    then have "out = Inr (length (m_transitions s))" "s2 = offered w c (fresh_transition r (map ev_id (removed (plan_delta plan))) s) s"
      using b r sp by (simp_all add: begin_rescale_placement_def Let_def offered_def fresh_transition_def add_plan_def)
    then show ?thesis using r pk Planned by (auto simp: planned_ok_def)
  next
    case (Incomplete c)
    then have "ownership w (m_plans s @ [c])" using pk by (simp add: planned_ok_def)
    from remember_plan_inv [OF inv this] b r sp Incomplete inv(2) show ?thesis
      by (auto simp: begin_rescale_placement_def remember_pending_def add_plan_def)
  next
    case Infeasible
    then have "ownership w (m_plans s)" using pk by (simp add: planned_ok_def)
    from ray_only_inv [OF inv this] b r sp Infeasible show ?thesis by (auto simp: begin_rescale_placement_def)
  next
    case (Failed e)
    then have "ownership w (m_plans s)" using pk by (simp add: planned_ok_def)
    from ray_only_inv [OF inv this] b r sp Failed show ?thesis by (auto simp: begin_rescale_placement_def)
  qed
qed

lemma abort_placement_inv:
  assumes "master_inv (s\<lparr>m_pending := [PendingTransition t]\<rparr>)" "m_pending s = []" "\<not> tr_committed (m_transitions s ! t)"
  shows "master_inv (abort_placement fails t s)"
proof -
  obtain s' e where r: "rollback_transition fails t s = (s', e)" by (metis surj_pair)
  then have "reconcile_item fails (PendingTransition t) s = (s', e)" using assms(3) by (simp add: reconcile_item_def reconcile_transition_def)
  from cleanup_or_remember [OF assms(1,2) this] r show ?thesis by (cases e) (simp_all add: abort_placement_def)
qed

lemma retire_removed_inv:
  assumes inv: "master_inv (s\<lparr>m_pending := [PendingTransition t]\<rparr>)" and none: "m_pending s = []" and com: "tr_committed (m_transitions s ! t)"
    and r: "retire_removed fails stopped t s = (s', e)"
  shows "master_inv s'"
proof (cases stopped)
  case True
  obtain s1 e1 where rr: "release_retired fails t s = (s1, e1)" by (metis surj_pair)
  then have "reconcile_item fails (PendingTransition t) s = (s1, e1)" using com by (simp add: reconcile_item_def reconcile_transition_def)
  from cleanup_or_remember [OF inv none this] r rr True show ?thesis by (cases e1) (auto simp: retire_removed_def)
next
  case False
  then show ?thesis using inv none r by (auto simp: retire_removed_def remember_pending_def)
qed

lemma rescale_placement_inv:
  assumes inv: "master_inv s" and r: "rescale_placement f1 pl timeout f2 outcome gen op p oid s = (s', e)"
  shows "master_inv s'"
proof -
  obtain s1 e1 where rc: "reconcile_pending f1 s = (s1, e1)" by (metis surj_pair)
  note i1 = reconcile_pending_inv [OF inv rc]
  show ?thesis
  proof (cases "\<exists>plan. e1 = None \<and> build_plan gen (m_graph s1) op (PInt p) (PStr oid) = Inr plan \<and> outcome \<noteq> Rejected")
    case False
    then have "s' = s1" using r rc by (auto simp: rescale_placement_def split: option.splits sum.splits if_splits)
    then show ?thesis using i1(1) by simp
  next
    case True
    then obtain plan where e1: "e1 = None" and bp: "build_plan gen (m_graph s1) op (PInt p) (PStr oid) = Inr plan" and oc: "outcome \<noteq> Rejected" by blast
    have quiet: "master_inv s1" "m_pending s1 = []" using i1(1,2) e1 by simp_all
    note dl = build_plan_delta [OF master_inv_quiet(2) [OF quiet] bp]
    obtain s2 out where bg: "begin_rescale_placement pl plan timeout s1 = (s2, out)" by (metis surj_pair)
    from begin_rescale_spec [OF quiet dl(3) bg] show ?thesis
    proof (elim disjE exE conjE)
      fix x assume "out = Inl x" "master_inv s2"
      then show ?thesis using r rc e1 bp oc bg by (simp add: rescale_placement_def)
    next
      let ?t = "length (m_transitions s1)" and ?ids = "map ev_id (removed (plan_delta plan))"
      fix q w c assume out: "out = Inr ?t" and q: "m_plan s1 = Some q" "\<not> plan_closed (m_plans s1 ! q)"
        and s2: "s2 = offered w c (fresh_transition q ?ids s1) s1" and o: "ownership w (m_plans s1 @ [c])"
        and c: "\<not> plan_closed c" "plan_strategy c = plan_strategy (m_plans s1 ! q)"
        and ks: "set (keys (placement_group_by_vertex c)) \<subseteq> ev_id ` set (added (plan_delta plan))"
      have s2': "master_inv (s2\<lparr>m_pending := [PendingTransition ?t]\<rparr>)" "m_pending s2 = []" "\<not> tr_committed (m_transitions s2 ! ?t)"
        using offered_inv [OF quiet q(1) o] quiet(2) by (simp_all add: s2 offered_def fresh_transition_def)
      show ?thesis
      proof (cases outcome)
        case Rejected
        then show ?thesis using oc by simp
      next
        case Aborted
        then have "s' = abort_placement f2 ?t s2" using r rc e1 bp bg out by (simp add: rescale_placement_def)
        then show ?thesis using abort_placement_inv [OF s2'] by simp
      next
        case (Committed stopped)
        obtain s3 where s3: "commit_transition ?t (s2\<lparr>m_graph := new_graph plan\<rparr>) = (s3, None)" "m_pending s3 = []"
          "tr_committed (m_transitions s3 ! ?t)" "tr_removed (m_transitions s3 ! ?t) = ?ids" "master_inv (s3\<lparr>m_pending := [PendingTransition ?t]\<rparr>)"
          using commit_inv [OF quiet q o c ks dl(4,5,1), of ?ids] dl(6) unfolding s2 by auto
        have step: "(s', e) = (if removed (plan_delta plan) \<noteq> [] then retire_removed f2 stopped ?t s3 else (s3, None))"
          using r rc e1 bp bg out s3(1) Committed by (simp add: rescale_placement_def)
        show ?thesis
        proof (cases "removed (plan_delta plan) = []")
          case True
          have "master_inv (s3\<lparr>m_pending := [PendingTransition ?t], m_transitions := m_transitions s3, m_pending := []\<rparr>)"
            using s3(3,4) True by (intro drop_pending_inv [OF s3(5)]) auto
          then show ?thesis using step True pending_same [OF s3(2)] by (simp add: pending_same)
        next
          case False
          then show ?thesis using step retire_removed_inv [OF s3(5,2,3), of f2 stopped s' e] by simp
        qed
      qed
    qed
  qed
qed

lemma placement_reachable_inv: "placement_reachable s \<Longrightarrow> master_inv s"
proof (induction rule: placement_reachable.induct)
  case (start g)
  then show ?case
    by (simp add: master_inv_def initial_master_def ownership_def groups_ok_def owns_def)
next
  case (deploy s f1 f2 cascade s' e)
  from create_workers_inv [OF deploy.IH deploy.hyps(2)] show ?case .
next
  case (rescale s f1 pl timeout f2 outcome gen op p oid s' e)
  from rescale_placement_inv [OF rescale.IH rescale.hyps(2)] show ?case .
next
  case (stop s f1 f2 s' es)
  from stop_placement_inv [OF stop.IH stop.hyps(2)] show ?case .
qed

subsection \<open>No reservation is lost\<close>

lemma ownership_live: "ownership w ps \<Longrightarrow> g \<in> set (keys (live_groups w)) \<longleftrightarrow> (\<exists>r. owns ps r g)"
  unfolding ownership_def by blast

text \<open>
  C7. After every sequence of deployments, operator rescales and stops, with any choice of failing creations, readiness waits, actor
  instantiations and removals: each group that Ray still reserves is owned by exactly one plan, and the job master can still
  reach that plan (as its plan, or in its list of pending cleanups); every owned group is reserved; every group ever created is
  either reserved or was removed exactly once.
\<close>

theorem reservations_owned_once:
  assumes "placement_reachable s"
  shows "(\<forall>g \<in> set (keys (live_groups (m_ray s))). \<exists>!r. r < length (m_plans s) \<and> g \<in> set (owned_groups (m_plans s ! r)) \<and> plan_root s r) \<and>
    (\<forall>p \<in> set (m_plans s). distinct (owned_groups p) \<and> set (owned_groups p) \<subseteq> set (keys (live_groups (m_ray s)))) \<and>
    distinct (removed_groups (m_ray s)) \<and>
    set (removed_groups (m_ray s)) \<union> set (keys (live_groups (m_ray s))) = {..<created_groups (m_ray s)} \<and>
    set (removed_groups (m_ray s)) \<inter> set (keys (live_groups (m_ray s))) = {}"
proof -
  have inv: "master_inv s" using assms by (rule placement_reachable_inv)
  then have o: "ownership (m_ray s) (m_plans s)" by (simp add: master_inv_def)
  have root: "plan_root s r" if "owns (m_plans s) r g" for r g
  proof -
    have "placement_group_by_vertex (m_plans s ! r) \<noteq> []" "r < length (m_plans s)" using that by (auto simp: owns_def owned_groups_def)
    then show ?thesis using inv by (simp add: master_inv_def)
  qed
  have "\<exists>!r. r < length (m_plans s) \<and> g \<in> set (owned_groups (m_plans s ! r)) \<and> plan_root s r" if g: "g \<in> set (keys (live_groups (m_ray s)))" for g
  proof -
    obtain r where r: "owns (m_plans s) r g" using ownership_live [OF o] g by blast
    have same: "q = r" if "owns (m_plans s) q g" for q using o r that unfolding ownership_def by blast
    show ?thesis
    proof (rule ex1I [of _ r])
      show "r < length (m_plans s) \<and> g \<in> set (owned_groups (m_plans s ! r)) \<and> plan_root s r" using r root [OF r] by (simp add: owns_def)
      show "q = r" if "q < length (m_plans s) \<and> g \<in> set (owned_groups (m_plans s ! q)) \<and> plan_root s q" for q
        using that by (intro same) (simp add: owns_def)
    qed
  qed
  moreover have "distinct (owned_groups p) \<and> set (owned_groups p) \<subseteq> set (keys (live_groups (m_ray s)))" if p: "p \<in> set (m_plans s)" for p
  proof -
    obtain r where r: "r < length (m_plans s)" "p = m_plans s ! r" using p unfolding in_set_conv_nth by blast
    have "plan_ok p" using o p by (simp add: ownership_def)
    moreover have "g \<in> set (keys (live_groups (m_ray s)))" if "g \<in> set (owned_groups p)" for g
    proof -
      have "owns (m_plans s) r g" using r that by (simp add: owns_def)
      then show ?thesis using ownership_live [OF o] by blast
    qed
    ultimately show ?thesis by (auto simp: plan_ok_def)
  qed
  moreover have "groups_ok (m_ray s)" using o by (simp add: ownership_def)
  ultimately show ?thesis unfolding groups_ok_def by (intro conjI ballI) simp_all
qed

lemma group_owners_drop: "set (group_owners h (drop_vertices vs p)) \<subseteq> set (group_owners h p)"
  by (auto simp: group_owners_def drop_vertices_def fold_delete_filter)

lemma release_groups_clean:
  "\<forall>g \<in> set gs. set (group_owners g p) \<subseteq> set sel \<Longrightarrow> snd (release_groups (\<lambda>_. False) sel gs (w, p)) = None"
proof (induction gs arbitrary: w p)
  case (Cons g gs)
  have "\<forall>h \<in> set gs. set (group_owners h (drop_vertices (group_owners g p) p)) \<subseteq> set sel"
  proof
    fix h assume "h \<in> set gs"
    then have "set (group_owners h p) \<subseteq> set sel" using Cons.prems by simp
    then show "set (group_owners h (drop_vertices (group_owners g p) p)) \<subseteq> set sel" by (rule subset_trans [OF group_owners_drop])
  qed
  from Cons.IH [OF this] Cons.prems show ?case by (simp add: Let_def)
qed simp

lemma release_vertices_clean:
  assumes "plan_ok p"
  shows "snd (release_vertices (\<lambda>_. False) sel (w, p)) = None"
proof -
  let ?d = "placement_group_by_vertex p" and ?gs = "unique_objects (List.map_filter (map_of (placement_group_by_vertex p)) sel) {}"
  have wf: "wf_dict ?d" "distinct (map snd ?d)" "placement_group p = None" and rem: "\<not> has_remove_group p \<Longrightarrow> ?d = []"
    using assms by (auto simp: plan_ok_def owned_groups_def)
  have gs: "set ?gs = {g. \<exists>v \<in> set sel. map_of ?d v = Some g}"
    using unique_objects_spec [of "List.map_filter (map_of ?d) sel" "{}"] by (simp add: set_map_filter)
  have "set (group_owners g p) \<subseteq> set sel" if g: "g \<in> set ?gs" for g
  proof
    fix u assume "u \<in> set (group_owners g p)"
    then have u: "(u, g) \<in> set ?d" by (auto simp: group_owners_def)
    obtain v where v: "v \<in> set sel" "(v, g) \<in> set ?d" using g unfolding gs by (auto dest: map_of_SomeD)
    have "(u, g) = (v, g)" using inj_onD [OF conjunct2 [OF wf(2) [unfolded distinct_map]], of "(u, g)" "(v, g)"] u v(2) by simp
    then show "u \<in> set sel" using v(1) by simp
  qed
  then have c: "snd (release_groups (\<lambda>_. False) sel ?gs (w, p)) = None" using release_groups_clean [of ?gs p sel w] by blast
  have n: "\<not> (?gs \<noteq> [] \<and> \<not> has_remove_group p)" 
  proof
    assume "?gs \<noteq> [] \<and> \<not> has_remove_group p"
    then obtain g where "g \<in> set ?gs" "?d = []" using rem by (meson list.set_sel(1))
    then show False using gs by simp
  qed
  obtain w1 p1 where "release_groups (\<lambda>_. False) sel ?gs (w, p) = ((w1, p1), None)" using c by (metis prod.collapse)
  then show ?thesis using n wf(3) by (simp add: release_vertices_def Let_def)
qed

lemma reconcile_item_clean:
  assumes inv: "master_inv s" and x: "m_pending s = [x]"
  shows "snd (reconcile_item (\<lambda>_. False) x s) = None"
proof -
  have o: "ownership (m_ray s) (m_plans s)" and ok: "pending_ok s x" using inv x by (auto simp: master_inv_def)
  have close: "snd (close_at (\<lambda>_. False) r s) = None" if "r < length (m_plans s)" for r
    using close_at_released(3) [OF o that, of "\<lambda>_. False"] by (metis prod.collapse)
  show ?thesis
  proof (cases x)
    case (PendingPlan r)
    then show ?thesis using ok close by (simp add: reconcile_item_def pending_ok_def)
  next
    case (PendingTransition t)
    let ?x = "m_transitions s ! t"
    have q: "tr_owner ?x < length (m_plans s)" "tr_candidate ?x < length (m_plans s)" using ok PendingTransition by (simp_all add: pending_ok_def)
    have "plan_ok (m_plans s ! tr_owner ?x)" using o q(1) by (simp add: ownership_def)
    from release_vertices_clean [OF this, of "tr_removed ?x" "m_ray s"]
    have "snd (on_plan (release_vertices (\<lambda>_. False) (tr_removed ?x)) (tr_owner ?x) s) = None" by (auto simp: on_plan_def split: prod.splits)
    then obtain s1 where "on_plan (release_vertices (\<lambda>_. False) (tr_removed ?x)) (tr_owner ?x) s = (s1, None)" by (metis prod.collapse)
    then show ?thesis using PendingTransition close [OF q(2)]
      by (simp add: reconcile_item_def reconcile_transition_def release_retired_def rollback_transition_def Let_def)
  qed
qed

text \<open>
  C27. From every reachable state, stopping the job while Ray accepts removals reports no error, leaves no group reserved and has
  removed every group ever created.
\<close>

theorem stop_releases_all:
  assumes "placement_reachable s" "stop_placement (\<lambda>_. False) (\<lambda>_. False) s = (s', es)"
  shows "es = [] \<and> live_groups (m_ray s') = [] \<and> m_plan s' = None \<and> m_pending s' = [] \<and>
    set (removed_groups (m_ray s')) = {..<created_groups (m_ray s')}"
proof -
  have inv: "master_inv s" using assms(1) by (rule placement_reachable_inv)
  obtain s1 e1 where r: "reconcile_pending (\<lambda>_. False) s = (s1, e1)" by (metis surj_pair)
  note i1 = reconcile_pending_inv [OF inv r]
  have e1: "e1 = None"
  proof (cases "m_pending s = []")
    case True
    then show ?thesis using r by (auto simp: reconcile_pending_def)
  next
    case False
    then obtain x where x: "m_pending s = [x]" using inv by (auto simp: master_inv_def)
    obtain s2 where "reconcile_item (\<lambda>_. False) x s = (s2, None)" using reconcile_item_clean [OF inv x] by (metis prod.collapse)
    then show ?thesis using r x by (auto simp: reconcile_pending_def)
  qed
  obtain s2 e2 where c: "close_placement_plan (\<lambda>_. False) s1 = (s2, e2)" by (metis surj_pair)
  note i2 = close_placement_plan_inv [OF i1(1) c]
  have e2: "e2 = None"
  proof (cases "m_plan s1")
    case (Some q)
    have q: "ownership (m_ray s1) (m_plans s1)" "q < length (m_plans s1)" using i1(1) Some by (auto simp: master_inv_def)
    obtain s3 e3 where cl: "close_at (\<lambda>_. False) q s1 = (s3, e3)" by (metis surj_pair)
    have "e3 = None" using close_at_released(3) [OF q cl] by simp
    then show ?thesis using c Some cl by (auto simp: close_placement_plan_def)
  qed (use c in \<open>auto simp: close_placement_plan_def\<close>)
  have s': "s' = s2" "es = []" using assms(2) r c e1 e2 by (auto simp: stop_placement_def map_filter_simps)
  have none: "m_plan s2 = None" "m_pending s2 = []" using i2(2,3) i1(2) e1 e2 by simp_all
  have "\<not> owns (m_plans s2) q g" for q g
    using no_groups_elsewhere [OF i2(1) none(2), of q] none(1) by (auto simp: owns_def owned_groups_def)
  moreover have o: "ownership (m_ray s2) (m_plans s2)" using i2(1) by (simp add: master_inv_def)
  ultimately have "g \<notin> set (keys (live_groups (m_ray s2)))" for g using ownership_live [OF o, of g] by simp
  then have "set (keys (live_groups (m_ray s2))) = {}" by (intro equals0I) simp
  then show ?thesis using s' none o by (auto simp: ownership_def groups_ok_def)
qed

subsection \<open>Example\<close>

text \<open>
  Four groups are reserved, the sink shrinks to one subtask while Ray refuses to remove the group of the retired one, and the
  job stops once Ray answers again.
\<close>

definition demo_planning :: planning where
  "demo_planning = \<lparr>node_table = [], create_limit = 10, groups_ready = True, cleanup_fails = (\<lambda>_. False)\<rparr>"

definition demo_deployed :: placement_master where
  "demo_deployed = fst (create_workers (\<lambda>_. False) (\<lambda>_. False)
     [(PlacementGroupStrategy ''PACK'' 10, \<lparr>at_planning = demo_planning, at_instantiated = True, at_rollback_fails = (\<lambda>_. False)\<rparr>)]
     (initial_master demo_shuffle))"

definition demo_stuck :: placement_master where
  "demo_stuck = fst (rescale_placement (\<lambda>_. False) demo_planning (Some 5) (\<lambda>g. g = 3) (Committed True) (\<lambda>_. ''h'') 1 1 ''r'' demo_deployed)"

lemma demo_stuck_reachable: "placement_reachable demo_stuck"
proof -
  have "placement_reachable demo_deployed" unfolding demo_deployed_def
    by (rule placement_reachable.deploy [OF placement_reachable.start [OF demo_shuffle_ok]]) (rule surjective_pairing)
  then show ?thesis unfolding demo_stuck_def by (rule placement_reachable.rescale) (rule surjective_pairing)
qed

theorem reservations_owned_once_witness:
  "keys (live_groups (m_ray demo_stuck)) = [0, 1, 2, 3] \<and> m_pending demo_stuck = [PendingTransition 0] \<and>
    (\<exists>!r. r < length (m_plans demo_stuck) \<and> 3 \<in> set (owned_groups (m_plans demo_stuck ! r)) \<and> plan_root demo_stuck r)"
proof -
  have k: "keys (live_groups (m_ray demo_stuck)) = [0, 1, 2, 3]" "m_pending demo_stuck = [PendingTransition 0]" by code_simp+
  from conjunct1 [OF reservations_owned_once [OF demo_stuck_reachable]] have
    "\<exists>!r. r < length (m_plans demo_stuck) \<and> 3 \<in> set (owned_groups (m_plans demo_stuck ! r)) \<and> plan_root demo_stuck r"
    by (rule bspec) (simp add: k(1))
  with k show ?thesis by blast
qed

theorem stop_releases_all_witness:
  "\<exists>s' es. stop_placement (\<lambda>_. False) (\<lambda>_. False) demo_stuck = (s', es) \<and> es = [] \<and> live_groups (m_ray s') = [] \<and>
    created_groups (m_ray s') = 4 \<and> set (removed_groups (m_ray s')) = {..<4}"
proof -
  obtain s' es where st: "stop_placement (\<lambda>_. False) (\<lambda>_. False) demo_stuck = (s', es)" by (metis surj_pair)
  have "created_groups (m_ray (fst (stop_placement (\<lambda>_. False) (\<lambda>_. False) demo_stuck))) = 4" by code_simp
  then have "created_groups (m_ray s') = 4" using st by simp
  with stop_releases_all [OF demo_stuck_reachable st] st show ?thesis by metis
qed

end
