(* ===== verification/AsyncRunner.thy ===== *)
theory AsyncRunner
  imports Prelude "HOL-Library.Sublist"
begin

section \<open>Ordered asynchronous execution (runtime/worker/async_ordered_runner.py)\<close>

text \<open>
  An async operator runs a bounded number of requests at once and emits their results in input order. The
  event loop switches between coroutines only where one awaits, so the runner is a state with one step per
  stretch of code between two awaits: submitting (before and after the wait for a slot), the consumer's loop,
  shutdown and its timeout. What user code does (a request, emitting a result, a control action) is an outcome
  of a step. The fields \<open>submitted\<close> and \<open>emitted\<close> record what was queued and what was
  handed on. Requests and actions are numbered. Shown: emission in submission order, the bound on outstanding requests, no
  slot leaked, and a drain that ends normally has emitted everything.
\<close>

datatype work = Compute nat | Control nat

datatype queued = Work work | Shutdown

datatype ending = Drained | Aborted | Failed | Cancelled

datatype consumer_task = NotStarted | Idle | Busy work | Ended ending

datatype outcome = Done | Raises | RaisesCancelled

record runner =
  capacity :: nat
  slots :: nat
  queue :: "queued list"
  consumer :: consumer_task
  accepting :: bool
  shutdown_requested :: bool
  abort_requested :: bool
  fatal_error :: bool
  slot_waiters :: "nat list"
  slot_holders :: "nat list"
  cancelling :: "nat list"
  submitted :: "work list"
  emitted :: "work list"

definition make_runner :: "int \<Rightarrow> runner" where
  "make_runner c = \<lparr>capacity = nat (max 1 c), slots = nat (max 1 c), queue = [], consumer = NotStarted, accepting = True,
     shutdown_requested = False, abort_requested = False, fatal_error = False, slot_waiters = [], slot_holders = [], cancelling = [],
     submitted = [], emitted = []\<rparr>"

definition start_consumer :: "runner \<Rightarrow> runner result" where
  "start_consumer s =
     (if \<not> accepting s then Inl RuntimeError
      else Inr (if consumer s = NotStarted then s\<lparr>consumer := Idle\<rparr> else s))"

definition seal :: "runner \<Rightarrow> runner" where
  "seal s = s\<lparr>accepting := False\<rparr>"

definition queue_work :: "work \<Rightarrow> runner \<Rightarrow> runner" where
  "queue_work w s = s\<lparr>queue := queue s @ [Work w], submitted := submitted s @ [w]\<rparr>"

subsection \<open>Submission\<close>

text \<open>Up to the wait for a slot or the end of the runner.\<close>

definition submit_compute :: "nat \<Rightarrow> runner \<Rightarrow> runner result" where
  "submit_compute c s = (if \<not> accepting s then Inl RuntimeError else Inr (s\<lparr>slot_waiters := slot_waiters s @ [c]\<rparr>))"

text \<open>The semaphore hands a slot to a waiting submission.\<close>

definition acquire_slot :: "nat \<Rightarrow> runner \<Rightarrow> runner" where
  "acquire_slot c s = s\<lparr>slots := slots s - 1, slot_waiters := remove1 c (slot_waiters s), slot_holders := slot_holders s @ [c]\<rparr>"

definition release_slot :: "runner \<Rightarrow> runner" where
  "release_slot s = s\<lparr>slots := slots s + 1\<rparr>"

text \<open>After the wait; an error result still returns the slot.\<close>

definition submit_resumed :: "nat \<Rightarrow> runner \<Rightarrow> runner \<times> py_error option" where
  "submit_resumed c s =
     (if c \<in> set (slot_holders s) then
        let s1 = s\<lparr>slot_holders := remove1 c (slot_holders s)\<rparr>
        in if \<not> accepting s then (release_slot s1, Some RuntimeError) else (queue_work (Compute c) s1, None)
      else (s\<lparr>slot_waiters := remove1 c (slot_waiters s)\<rparr>, Some RuntimeError))"

text \<open>The submitter is cancelled during the wait.\<close>

definition submit_cancelled :: "nat \<Rightarrow> runner \<Rightarrow> runner" where
  "submit_cancelled c s =
     (if c \<in> set (slot_holders s) then release_slot (s\<lparr>slot_holders := remove1 c (slot_holders s)\<rparr>)
      else s\<lparr>slot_waiters := remove1 c (slot_waiters s)\<rparr>)"

definition submit_control :: "nat \<Rightarrow> runner \<Rightarrow> runner result" where
  "submit_control k s = (if \<not> accepting s then Inl RuntimeError else Inr (queue_work (Control k) s))"

subsection \<open>Consumption\<close>

definition computes :: "queued list \<Rightarrow> nat list" where
  "computes q = List.map_filter (\<lambda>x. case x of Work (Compute c) \<Rightarrow> Some c | _ \<Rightarrow> None) q"

definition cancel_queued :: "bool \<Rightarrow> runner \<Rightarrow> runner" where
  "cancel_queued keep_shutdown s =
     s\<lparr>queue := (if keep_shutdown \<and> Shutdown \<in> set (queue s) then [Shutdown] else []),
       slots := slots s + length (computes (queue s)), cancelling := cancelling s @ computes (queue s)\<rparr>"

text \<open>The slot of the item at hand is returned, then the runner is sealed and the queue emptied.\<close>

definition release_current :: "runner \<Rightarrow> runner" where
  "release_current s = (case consumer s of Busy (Compute _) \<Rightarrow> release_slot s | _ \<Rightarrow> s)"

definition end_consumer :: "ending \<Rightarrow> runner \<Rightarrow> runner" where
  "end_consumer how s = cancel_queued False (seal ((release_current s)\<lparr>consumer := Ended how\<rparr>))"

definition fail_runner :: "runner \<Rightarrow> runner" where
  "fail_runner s = (if fatal_error s then s else seal (s\<lparr>fatal_error := True\<rparr>))"

text \<open>The top of the loop and, unless it waits, the next item.\<close>

definition consume_next :: "runner \<Rightarrow> runner" where
  "consume_next s =
     (if abort_requested s then end_consumer Aborted s
      else
        case queue s of
          [] \<Rightarrow> s
        | Shutdown # q \<Rightarrow> end_consumer Drained (s\<lparr>queue := q\<rparr>)
        | Work w # q \<Rightarrow> s\<lparr>queue := q, consumer := Busy w\<rparr>)"

definition consume_error :: "outcome \<Rightarrow> runner \<Rightarrow> runner" where
  "consume_error out s =
     (if out = RaisesCancelled \<and> \<not> accepting s then end_consumer Cancelled s else end_consumer Failed (fail_runner s))"

definition item_emitted :: "work \<Rightarrow> runner \<Rightarrow> runner" where
  "item_emitted w s = (release_current (s\<lparr>emitted := emitted s @ [w]\<rparr>))\<lparr>consumer := Idle\<rparr>"

text \<open>The request of the item at hand has ended, and so has handing on its result.\<close>

definition consume_compute :: "nat \<Rightarrow> outcome \<Rightarrow> outcome \<Rightarrow> runner \<Rightarrow> runner" where
  "consume_compute c request handed_on s =
     (if request \<noteq> Done then consume_error request s
      else if abort_requested s then end_consumer Aborted s
      else if handed_on \<noteq> Done then consume_error handed_on s
      else item_emitted (Compute c) s)"

definition consume_control :: "nat \<Rightarrow> outcome \<Rightarrow> runner \<Rightarrow> runner" where
  "consume_control k out s =
     (if out \<noteq> Done then consume_error out s
      else let s1 = item_emitted (Control k) s in if abort_requested s then end_consumer Aborted s1 else s1)"

subsection \<open>Barrier and shutdown\<close>

text \<open>\<open>None\<close> while the barrier blocks.\<close>

definition barrier :: "runner \<Rightarrow> unit result option" where
  "barrier s =
     (if queue s = [] \<and> \<not> (\<exists>w. consumer s = Busy w)
      then Some (if fatal_error s then Inl RuntimeError else Inr ()) else None)"

definition consumer_alive :: "runner \<Rightarrow> bool" where
  "consumer_alive s = (case consumer s of Idle \<Rightarrow> True | Busy _ \<Rightarrow> True | _ \<Rightarrow> False)"

definition shutdown_begin :: "runner \<Rightarrow> runner" where
  "shutdown_begin s =
     (let s1 = seal s
      in if \<not> consumer_alive s then cancel_queued False s1
         else if \<not> shutdown_requested s then s1\<lparr>shutdown_requested := True, queue := queue s1 @ [Shutdown]\<rparr>
         else s1)"

definition shutdown_timeout :: "runner \<Rightarrow> runner" where
  "shutdown_timeout s = cancel_queued True (s\<lparr>abort_requested := True\<rparr>)"

text \<open>The consumer ended in time.\<close>

definition shutdown_end :: "runner \<Rightarrow> runner" where
  "shutdown_end s = cancel_queued False s"

text \<open>Interleavings. The cancellation that a timeout requests reaches the consumer at one of its awaits.\<close>

inductive runner_step :: "runner \<Rightarrow> runner \<Rightarrow> bool" where
  start: "start_consumer s = Inr s' \<Longrightarrow> runner_step s s'"
| submit: "submit_compute c s = Inr s' \<Longrightarrow> runner_step s s'"
| acquire: "c \<in> set (slot_waiters s) \<Longrightarrow> 0 < slots s \<Longrightarrow> runner_step s (acquire_slot c s)"
| resume: "c \<in> set (slot_holders s) \<or> c \<in> set (slot_waiters s) \<and> \<not> accepting s \<Longrightarrow> runner_step s (fst (submit_resumed c s))"
| abandon: "runner_step s (submit_cancelled c s)"
| control: "submit_control k s = Inr s' \<Longrightarrow> runner_step s s'"
| take: "consumer s = Idle \<Longrightarrow> runner_step s (consume_next s)"
| compute: "consumer s = Busy (Compute c) \<Longrightarrow> runner_step s (consume_compute c request handed_on s)"
| act: "consumer s = Busy (Control k) \<Longrightarrow> runner_step s (consume_control k out s)"
| cancel: "consumer_alive s \<Longrightarrow> abort_requested s \<Longrightarrow> runner_step s (end_consumer Cancelled s)"
| shutdown: "runner_step s (shutdown_begin s)"
| timeout: "consumer_alive s \<Longrightarrow> shutdown_requested s \<Longrightarrow> runner_step s (shutdown_timeout s)"
| finish: "consumer s = Ended how \<Longrightarrow> runner_step s (shutdown_end s)"

inductive runner_reachable :: "int \<Rightarrow> runner \<Rightarrow> bool" for c where
  init: "runner_reachable c (make_runner c)"
| step: "runner_reachable c s \<Longrightarrow> runner_step s s' \<Longrightarrow> runner_reachable c s'"

subsection \<open>Invariant\<close>

definition current :: "runner \<Rightarrow> work list" where
  "current s = (case consumer s of Busy w \<Rightarrow> [w] | _ \<Rightarrow> [])"

definition works :: "queued list \<Rightarrow> work list" where
  "works q = List.map_filter (\<lambda>x. case x of Work w \<Rightarrow> Some w | Shutdown \<Rightarrow> None) q"

text \<open>Requests that were started and whose result is not handed on yet.\<close>

definition outstanding :: "runner \<Rightarrow> nat" where
  "outstanding s = length (computes (map Work (current s) @ queue s))"

definition dropped :: "runner \<Rightarrow> bool" where
  "dropped s \<longleftrightarrow> \<not> accepting s \<and> (abort_requested s \<or> consumer s = NotStarted \<or> (\<exists>h. consumer s = Ended h \<and> h \<noteq> Drained))"

definition runner_inv :: "runner \<Rightarrow> bool" where
  "runner_inv s \<longleftrightarrow> slots s + length (slot_holders s) + outstanding s = capacity s \<and>
     (\<exists>ws b. queue s = map Work ws @ (if b then [Shutdown] else []) \<and> (b \<longrightarrow> shutdown_requested s)) \<and>
     (shutdown_requested s \<longrightarrow> \<not> accepting s) \<and>
     prefix (emitted s @ current s) (submitted s) \<and>
     (submitted s = emitted s @ current s @ works (queue s) \<or> dropped s) \<and>
     (\<forall>h. consumer s = Ended h \<longrightarrow> \<not> accepting s \<and> queue s = []) \<and>
     (consumer s = Ended Drained \<longrightarrow> emitted s = submitted s)"

lemma computes_simps [simp]:
  "computes [] = []" "computes (Work (Compute c) # q) = c # computes q" "computes (Work (Control k) # q) = computes q"
  "computes (Shutdown # q) = computes q" "computes (p @ q) = computes p @ computes q"
  by (simp_all add: computes_def map_filter_def)

lemma works_simps [simp]:
  "works [] = []" "works (Work w # q) = w # works q" "works (Shutdown # q) = works q" "works (p @ q) = works p @ works q"
  by (simp_all add: works_def map_filter_def)

lemma works_map_Work [simp]: "works (map Work ws) = ws"
  by (induction ws) simp_all

lemma current_simps [simp]:
  "current (s\<lparr>consumer := Busy w\<rparr>) = [w]" "current (s\<lparr>consumer := Idle\<rparr>) = []" "current (s\<lparr>consumer := Ended h\<rparr>) = []"
  by (simp_all add: current_def)

lemma runner_invI:
  assumes "slots s + length (slot_holders s) + outstanding s = capacity s"
    "queue s = map Work ws @ (if b then [Shutdown] else [])" "b \<Longrightarrow> shutdown_requested s"
    "shutdown_requested s \<Longrightarrow> \<not> accepting s" "prefix (emitted s @ current s) (submitted s)"
    "submitted s = emitted s @ current s @ ws \<or> dropped s"
    "\<And>h. consumer s = Ended h \<Longrightarrow> \<not> accepting s \<and> queue s = []" "consumer s = Ended Drained \<Longrightarrow> emitted s = submitted s"
  shows "runner_inv s"
proof -
  have "works (queue s) = ws" using assms(2) by simp
  then show ?thesis using assms unfolding runner_inv_def by blast
qed

definition runner_inv_at :: "runner \<Rightarrow> work list \<Rightarrow> bool \<Rightarrow> bool" where
  "runner_inv_at s ws b \<longleftrightarrow> slots s + length (slot_holders s) + outstanding s = capacity s \<and>
     queue s = map Work ws @ (if b then [Shutdown] else []) \<and> (b \<longrightarrow> shutdown_requested s) \<and>
     (shutdown_requested s \<longrightarrow> \<not> accepting s) \<and> prefix (emitted s @ current s) (submitted s) \<and>
     (submitted s = emitted s @ current s @ ws \<or> dropped s) \<and> (\<forall>h. consumer s = Ended h \<longrightarrow> \<not> accepting s \<and> queue s = []) \<and>
     (consumer s = Ended Drained \<longrightarrow> emitted s = submitted s)"

lemma runner_invD:
  assumes "runner_inv s"
  shows "\<exists>ws b. runner_inv_at s ws b"
proof -
  obtain ws b where q: "queue s = map Work ws @ (if b then [Shutdown] else [])" "b \<longrightarrow> shutdown_requested s"
    using assms unfolding runner_inv_def by blast
  have "works (queue s) = ws" using q(1) by simp
  then show ?thesis using assms q unfolding runner_inv_def runner_inv_at_def by blast
qed

lemma runner_inv_atD:
  assumes "runner_inv_at s ws b"
  shows "slots s + length (slot_holders s) + outstanding s = capacity s"
    "queue s = map Work ws @ (if b then [Shutdown] else [])" "b \<longrightarrow> shutdown_requested s"
    "shutdown_requested s \<longrightarrow> \<not> accepting s" "prefix (emitted s @ current s) (submitted s)"
    "submitted s = emitted s @ current s @ ws \<or> dropped s" "\<forall>h. consumer s = Ended h \<longrightarrow> \<not> accepting s \<and> queue s = []"
    "consumer s = Ended Drained \<longrightarrow> emitted s = submitted s"
  using assms unfolding runner_inv_at_def by blast+

text \<open>The consumer ends: whatever is still queued is cancelled and its slots come back.\<close>

lemma end_consumer_inv:
  assumes inv: "runner_inv s" and how: "how = Drained \<Longrightarrow> emitted s @ current s @ works (queue s) = submitted s \<and> current s = [] \<and> works (queue s) = []"
  shows "runner_inv (end_consumer how s)"
proof -
  have i: "slots s + length (slot_holders s) + outstanding s = capacity s"
    "shutdown_requested s \<Longrightarrow> \<not> accepting s" "prefix (emitted s @ current s) (submitted s)"
    using inv unfolding runner_inv_def by blast+
  have out: "outstanding s = length (computes (map Work (current s))) + length (computes (queue s))" by (simp add: outstanding_def)
  let ?s = "end_consumer how s"
  have f: "queue ?s = []" "consumer ?s = Ended how" "\<not> accepting ?s" "emitted ?s = emitted s" "submitted ?s = submitted s"
    "slot_holders ?s = slot_holders s" "capacity ?s = capacity s" "shutdown_requested ?s = shutdown_requested s"
    "slots ?s = slots s + length (computes (map Work (current s))) + length (computes (queue s))"
    by (auto simp: end_consumer_def cancel_queued_def seal_def release_current_def release_slot_def current_def
        split: consumer_task.splits work.splits)
  have c: "current ?s = []" using f(2) by (simp add: current_def)
  have "prefix (emitted s) (submitted s)" using i(3) by (rule append_prefixD)
  then show ?thesis using i(1) out f c how
    by (intro runner_invI [of _ "[]" False]) (auto simp: outstanding_def dropped_def)
qed

lemma consume_next_inv:
  assumes inv: "runner_inv s" and idle: "consumer s = Idle"
  shows "runner_inv (consume_next s)"
proof -
  have cur: "current s = []" using idle by (simp add: current_def)
  obtain ws b where "runner_inv_at s ws b" using runner_invD [OF inv] by blast
  note i = runner_inv_atD [OF this]
  consider "abort_requested s" | "\<not> abort_requested s" "ws = []" "\<not> b" | "\<not> abort_requested s" "ws = []" b
    | w vs where "\<not> abort_requested s" "ws = w # vs" by (cases ws) auto
  then show ?thesis
  proof cases
    case 1
    then show ?thesis using end_consumer_inv [OF inv, of Aborted] by (simp add: consume_next_def)
  next
    case 2
    then show ?thesis using i(2) inv by (simp add: consume_next_def)
  next
    case 3
    have "submitted s = emitted s" using i(6) 3 idle cur by (simp add: dropped_def)
    then have "runner_inv (s\<lparr>queue := []\<rparr>)" using i(1,2,4) cur 3 idle
      by (intro runner_invI [of _ "[]" False]) (simp_all add: outstanding_def current_def)
    from end_consumer_inv [OF this, of Drained] \<open>submitted s = emitted s\<close> i(2) 3 cur show ?thesis
      by (simp add: consume_next_def current_def idle)
  next
    case 4
    then have "submitted s = emitted s @ ws" using i(6) idle cur by (simp add: dropped_def)
    then have "runner_inv (s\<lparr>queue := map Work vs @ (if b then [Shutdown] else []), consumer := Busy w\<rparr>)" using i(1-4) cur 4
      by (intro runner_invI [of _ vs b]) (cases w; simp add: outstanding_def current_def)+
    then show ?thesis using i(2) 4 by (simp add: consume_next_def)
  qed
qed

text \<open>Steps that touch neither the queue nor the consumer nor the record of the work.\<close>

lemma runner_inv_same:
  assumes inv: "runner_inv s" and same: "queue s' = queue s" "consumer s' = consumer s" "emitted s' = emitted s" "submitted s' = submitted s"
    "slots s' + length (slot_holders s') = slots s + length (slot_holders s)" "capacity s' = capacity s"
    "shutdown_requested s' = shutdown_requested s" "abort_requested s' = abort_requested s" "accepting s' \<longrightarrow> accepting s"
  shows "runner_inv s'"
proof -
  have "current s' = current s" "outstanding s' = outstanding s" using same by (simp_all add: current_def outstanding_def)
  moreover have "dropped s \<Longrightarrow> dropped s'" using same by (auto simp: dropped_def)
  ultimately show ?thesis using inv same unfolding runner_inv_def by (metis (no_types, lifting))
qed

lemma fail_runner_inv: "runner_inv s \<Longrightarrow> runner_inv (fail_runner s)"
  by (rule runner_inv_same [of s]) (simp_all add: fail_runner_def seal_def)

lemma consume_error_inv:
  assumes "runner_inv s"
  shows "runner_inv (consume_error out s)"
  using end_consumer_inv [OF fail_runner_inv [OF assms], of Failed] end_consumer_inv [OF assms, of Cancelled] by (simp add: consume_error_def)

lemma item_emitted_inv:
  assumes inv: "runner_inv s" and busy: "consumer s = Busy w"
  shows "runner_inv (item_emitted w s)"
proof -
  obtain ws b where "runner_inv_at s ws b" using runner_invD [OF inv] by blast
  note i = runner_inv_atD [OF this]
  let ?s = "item_emitted w s"
  have f: "queue ?s = queue s" "consumer ?s = Idle" "accepting ?s = accepting s" "emitted ?s = emitted s @ [w]" "submitted ?s = submitted s"
    "slot_holders ?s = slot_holders s" "capacity ?s = capacity s" "shutdown_requested ?s = shutdown_requested s" "current ?s = []"
    "abort_requested ?s = abort_requested s" "slots ?s + outstanding ?s = slots s + outstanding s"
    using busy by (auto simp: item_emitted_def release_current_def release_slot_def current_def outstanding_def split: work.splits)
  have "current s = [w]" using busy by (simp add: current_def)
  then show ?thesis using i f busy by (intro runner_invI [of _ ws b]) (auto simp: dropped_def)
qed

lemma cancel_queued_inv:
  assumes inv: "runner_inv s" and d: "dropped s \<or> works (queue s) = []"
  shows "runner_inv (cancel_queued keep s)"
proof -
  obtain ws b where "runner_inv_at s ws b" using runner_invD [OF inv] by blast
  note i = runner_inv_atD [OF this]
  let ?s = "cancel_queued keep s"
  have f: "queue ?s = (if keep \<and> b then [Shutdown] else [])" "consumer ?s = consumer s" "accepting ?s = accepting s" "emitted ?s = emitted s"
    "submitted ?s = submitted s" "slot_holders ?s = slot_holders s" "capacity ?s = capacity s" "shutdown_requested ?s = shutdown_requested s"
    "slots ?s = slots s + length (computes (queue s))"
    using i(2) by (auto simp: cancel_queued_def)
  have c: "current ?s = current s" "dropped ?s = dropped s" by (simp_all add: current_def dropped_def cancel_queued_def)
  have "slots ?s + outstanding ?s = slots s + outstanding s" using f(1,9) c(1) by (simp add: outstanding_def)
  moreover have "submitted s = emitted s @ current s \<or> dropped s" using d i(2,6) by auto
  moreover have ended: "\<not> accepting ?s \<and> queue ?s = []" if "consumer ?s = Ended h" for h
  proof -
    have e: "consumer s = Ended h" using that f(2) by simp
    then have "\<not> b" using i(2,7) by (cases b) auto
    then show ?thesis using e f(1,3) i(7) by simp
  qed
  ultimately have acc: "slots ?s + length (slot_holders ?s) + outstanding ?s = capacity ?s" "submitted ?s = emitted ?s @ current ?s @ [] \<or> dropped ?s"
    using i(1) f c by simp_all
  show ?thesis
  proof (rule runner_invI [OF acc(1) _ _ _ _ acc(2) ended])
    show "queue ?s = map Work [] @ (if keep \<and> b then [Shutdown] else [])" using f(1) by simp
  qed (use i(3-5,8) f(2-5,8) c(1) in simp_all)
qed

lemma queue_work_inv:
  assumes inv: "runner_inv s" and ok: "accepting s"
    and s': "s' = (case w of Compute _ \<Rightarrow> (queue_work w s)\<lparr>slots := slots s - 1\<rparr> | Control _ \<Rightarrow> queue_work w s)"
    and free: "\<And>c. w = Compute c \<Longrightarrow> 0 < slots s"
  shows "runner_inv s'"
proof -
  obtain ws b where "runner_inv_at s ws b" using runner_invD [OF inv] by blast
  note i = runner_inv_atD [OF this]
  have nb: "\<not> b" "submitted s = emitted s @ current s @ ws" using i(3,4,6) ok by (auto simp: dropped_def)
  have f: "queue s' = map Work (ws @ [w])" "consumer s' = consumer s" "accepting s'" "emitted s' = emitted s" "submitted s' = submitted s @ [w]"
    "slot_holders s' = slot_holders s" "capacity s' = capacity s" "shutdown_requested s' = shutdown_requested s" "current s' = current s"
    "slots s' + outstanding s' = slots s + outstanding s"
    using i(2) nb(1) ok free unfolding s' by (auto simp: queue_work_def current_def outstanding_def split: work.splits)
  have "consumer s' \<noteq> Ended h" for h using i(7) f(2) ok by simp
  then show ?thesis using i(1,4) f(1,3-10) nb ok by (intro runner_invI [of _ "ws @ [w]" False]) auto
qed

lemma submit_resumed_inv:
  assumes inv: "runner_inv s"
  shows "runner_inv (fst (submit_resumed c s))"
proof (cases "c \<in> set (slot_holders s)")
  case True
  let ?s = "s\<lparr>slot_holders := remove1 c (slot_holders s), slots := slots s + 1\<rparr>"
  have len: "length (slot_holders s) = Suc (length (remove1 c (slot_holders s)))"
    using True by (simp add: length_remove1) (metis length_pos_if_in_set Suc_pred)
  have ret: "runner_inv ?s" using inv len by (elim runner_inv_same) simp_all
  show ?thesis
  proof (cases "accepting s")
    case True
    have "fst (submit_resumed c s) = (queue_work (Compute c) ?s)\<lparr>slots := slots ?s - 1\<rparr>"
      using \<open>c \<in> set (slot_holders s)\<close> True by (simp add: submit_resumed_def Let_def queue_work_def)
    then show ?thesis using queue_work_inv [OF ret, of "fst (submit_resumed c s)" "Compute c"] True by simp
  next
    case False
    then show ?thesis using ret \<open>c \<in> set (slot_holders s)\<close> by (simp add: submit_resumed_def Let_def release_slot_def)
  qed
next
  case False
  then show ?thesis using inv by (elim runner_inv_same) (simp_all add: submit_resumed_def)
qed

lemma shutdown_begin_inv:
  assumes inv: "runner_inv s"
  shows "runner_inv (shutdown_begin s)"
proof -
  obtain ws b where "runner_inv_at s ws b" using runner_invD [OF inv] by blast
  note i = runner_inv_atD [OF this]
  have sealed: "runner_inv (seal s)" using inv by (elim runner_inv_same) (simp_all add: seal_def)
  show ?thesis
  proof (cases "consumer_alive s")
    case False
    then have "dropped (seal s) \<or> works (queue (seal s)) = []"
      using i(7) by (auto simp: consumer_alive_def dropped_def seal_def split: consumer_task.splits)
    from cancel_queued_inv [OF sealed this] False show ?thesis by (simp add: shutdown_begin_def Let_def)
  next
    case True
    show ?thesis
    proof (cases "shutdown_requested s")
      case False
      let ?s = "(seal s)\<lparr>shutdown_requested := True, queue := queue (seal s) @ [Shutdown]\<rparr>"
      have "dropped s \<Longrightarrow> dropped ?s" by (auto simp: dropped_def seal_def)
      then have "runner_inv ?s" using i False True
        by (intro runner_invI [of _ ws True]) (auto simp: seal_def outstanding_def current_def consumer_alive_def split: consumer_task.splits)
      then show ?thesis using True False by (simp add: shutdown_begin_def Let_def)
    qed (use sealed True in \<open>simp add: shutdown_begin_def Let_def\<close>)
  qed
qed

lemma runner_step_inv:
  assumes "runner_step s s'" "runner_inv s"
  shows "runner_inv s'"
  using assms(1)
proof cases
  case start
  then have s': "accepting s" "s' = s \<or> consumer s = NotStarted \<and> s' = s\<lparr>consumer := Idle\<rparr>"
    by (auto simp: start_consumer_def split: if_splits)
  have "runner_inv (s\<lparr>consumer := Idle\<rparr>)" if "consumer s = NotStarted"
  proof -
    obtain ws b where "runner_inv_at s ws b" using runner_invD [OF assms(2)] by blast
    then show ?thesis using runner_inv_atD(1-6) [of s ws b] that s'(1) by (intro runner_invI [of _ ws b]) (auto simp: outstanding_def current_def dropped_def)
  qed
  then show ?thesis using s'(2) assms(2) by auto
next
  case (submit c)
  then show ?thesis using assms(2) by (elim runner_inv_same) (auto simp: submit_compute_def split: if_splits)
next
  case (acquire c)
  then show ?thesis using assms(2) by (elim runner_inv_same) (auto simp: acquire_slot_def)
next
  case (resume c)
  then show ?thesis using submit_resumed_inv [OF assms(2)] by simp
next
  case (abandon c)
  have "length (slot_holders s) = Suc (length (remove1 c (slot_holders s)))" if "c \<in> set (slot_holders s)"
    using that by (simp add: length_remove1) (metis length_pos_if_in_set Suc_pred)
  then show ?thesis using assms(2) abandon by (elim runner_inv_same) (auto simp: submit_cancelled_def release_slot_def)
next
  case (control k)
  then show ?thesis using queue_work_inv [OF assms(2), of s' "Control k"] by (auto simp: submit_control_def split: if_splits)
next
  case take
  then show ?thesis using consume_next_inv [OF assms(2)] by simp
next
  case (compute c request handed_on)
  then show ?thesis
    using end_consumer_inv [OF assms(2), of Aborted] consume_error_inv [OF assms(2)] item_emitted_inv [OF assms(2)] by (simp add: consume_compute_def)
next
  case (act k out)
  have "runner_inv (item_emitted (Control k) s)" using assms(2) act(2) by (rule item_emitted_inv)
  then show ?thesis using act consume_error_inv [OF assms(2)] end_consumer_inv [of "item_emitted (Control k) s" Aborted] by (simp add: consume_control_def Let_def)
next
  case cancel
  then show ?thesis using end_consumer_inv [OF assms(2), of Cancelled] by simp
next
  case shutdown
  then show ?thesis using shutdown_begin_inv [OF assms(2)] by simp
next
  case timeout
  have "\<not> accepting s" using assms(2) timeout(3) by (simp add: runner_inv_def)
  then have "dropped (s\<lparr>abort_requested := True\<rparr>)" by (simp add: dropped_def)
  moreover from this have "runner_inv (s\<lparr>abort_requested := True\<rparr>)" using assms(2)
    by (auto simp: runner_inv_def outstanding_def current_def)
  ultimately show ?thesis using cancel_queued_inv timeout(1) by (simp add: shutdown_timeout_def)
next
  case (finish how)
  have "queue s = []" using assms(2) finish(2) by (simp add: runner_inv_def)
  then show ?thesis using cancel_queued_inv [OF assms(2)] finish(1) by (simp add: shutdown_end_def)
qed

lemma runner_reachable_inv: "runner_reachable c s \<Longrightarrow> runner_inv s \<and> capacity s = nat (max 1 c)"
proof (induction rule: runner_reachable.induct)
  case init
  have "runner_inv (make_runner c)" by (rule runner_invI [of _ "[]" False]) (simp_all add: make_runner_def outstanding_def current_def)
  then show ?case by (simp add: make_runner_def)
next
  case (step s s')
  have "capacity s' = capacity s" using step.hyps(2)
    by cases (auto simp: start_consumer_def submit_compute_def acquire_slot_def submit_resumed_def submit_cancelled_def submit_control_def
        consume_next_def consume_compute_def consume_control_def consume_error_def item_emitted_def end_consumer_def cancel_queued_def seal_def
        release_current_def release_slot_def fail_runner_def queue_work_def shutdown_begin_def shutdown_timeout_def shutdown_end_def Let_def
        split: if_splits list.splits queued.splits consumer_task.splits work.splits)
  then show ?case using step runner_step_inv by simp
qed


text \<open>Two requests and a control action, drained by a shutdown; the second request ends while the first runs.\<close>

definition demo_runner :: runner where
  "demo_runner =
     (let submit = \<lambda>c s. fst (submit_resumed c (acquire_slot c (projr (submit_compute c s))));
          s1 = projr (submit_control 7 (submit 1 (submit 0 (projr (start_consumer (make_runner 2))))));
          s2 = consume_compute 0 Done Done (consume_next (shutdown_begin s1));
          s3 = consume_compute 1 Done Done (consume_next s2)
      in consume_next (consume_control 7 Done (consume_next s3)))"


end
