(* ===== verification/Failover.thy ===== *)
theory Failover
  imports Rescaling
begin

section \<open>Failover (scheduler/restart_strategy.py, recovery_manager.py, job_manager/failover_supervisor.py)\<close>

text \<open>
  What happens to an unhealthy job: the supervisor probes its tasks, tries to rebuild a single task from its
  upstream replay buffers, and otherwise restarts the whole job, unless it failed too often within a sliding window. Remote calls
  are arguments that give their answers; a call made again later may be answered differently, so the answers of the
  classification and of the replay are separate. Logging and metrics are left out. Shown: the window counts exactly the recent
  restarts, a job that keeps failing is given up after a bounded number of attempts, and single-task recovery
  is used only where replaying the upstream buffers is enough. Durations are rationals, so the guards against infinite and
  undefined floats have no counterpart.
\<close>

subsection \<open>Restart strategy\<close>

record restart_strategy =
  max_attempts :: int
  count_interval :: rat
  restart_delay :: rat
  window :: "int list"

definition make_restart_strategy :: "pyobj \<Rightarrow> pyobj \<Rightarrow> pyobj \<Rightarrow> restart_strategy result" where
  "make_restart_strategy attempts interval delay =
     rbind (as_int attempts) (\<lambda>n.
       if n < 0 then Inl ValueError
       else
         rbind (as_real interval) (\<lambda>i.
         rbind (as_real delay) (\<lambda>d.
           if i \<le> 0 then Inl ValueError
           else if d < 0 then Inl ValueError
           else Inr \<lparr>max_attempts = n, count_interval = i, restart_delay = d, window = []\<rparr>)))"

definition prune_window :: "int \<Rightarrow> restart_strategy \<Rightarrow> restart_strategy" where
  "prune_window now s = s\<lparr>window := dropWhile (\<lambda>t. of_int t < of_int now - count_interval s) (window s)\<rparr>"

definition record_and_should_suppress :: "int \<Rightarrow> restart_strategy \<Rightarrow> restart_strategy \<times> bool \<times> nat" where
  "record_and_should_suppress now s =
     (let s1 = prune_window now s; s2 = s1\<lparr>window := window s1 @ [now]\<rparr>; n = length (window s2)
      in (s2, int n > max_attempts s2, n))"

definition window_view :: "int \<Rightarrow> restart_strategy \<Rightarrow> restart_strategy \<times> nat \<times> int \<times> int" where
  "window_view now s =
     (let s1 = prune_window now s in (s1, length (window s1), max_attempts s1, \<lfloor>count_interval s1\<rfloor>))"

subsection \<open>Health of the tasks\<close>

datatype actor_state = ALIVE | DEAD | NOT_EXIST

text \<open>A remote call: its answer, \<open>ActorUnavailableError\<close>, or another exception.\<close>

datatype rpc = Answer bool | Unavailable | CallFailed

text \<open>One health probe: \<open>health\<close> is what the batched or the single request returns.\<close>

definition check_task_health :: "(vertex_id \<Rightarrow> bool) \<Rightarrow> egraph \<Rightarrow> (string, bool) dict" where
  "check_task_health health g =
     (let vs = all_execution_vertices g;
          local = fold (\<lambda>v d.
            if ev_status v = V_FAILED then AList.update (ev_name v) False d
            else if ev_status v = V_FINISHED then AList.update (ev_name v) True d
            else if stream_task v = None then AList.update (ev_name v) False d
            else d) vs [];
          probed = filter (\<lambda>v. ev_status v \<noteq> V_FAILED \<and> ev_status v \<noteq> V_FINISHED \<and> stream_task v \<noteq> None) vs
      in fold (\<lambda>v. AList.update (ev_name v) (health (ev_id v))) probed local)"

definition job_healthy :: "(vertex_id \<Rightarrow> bool) \<Rightarrow> bool \<Rightarrow> egraph \<Rightarrow> bool" where
  "job_healthy health coordinator_healthy g \<longleftrightarrow> (\<forall>(_, ok) \<in> set (check_task_health health g). ok) \<and> coordinator_healthy"

subsection \<open>Single-task recovery\<close>

text \<open>The flags of an operator specification, by its handle.\<close>

record operator_flags =
  of_stateful :: bool
  of_transactional_sink :: bool
  of_source :: bool

record recovery_answers =
  actor_status :: "vertex_id \<Rightarrow> actor_state"
  is_running :: "vertex_id \<Rightarrow> rpc"
  status_later :: "vertex_id \<Rightarrow> actor_state"
  running_later :: "vertex_id \<Rightarrow> rpc"
  bootstrap_succeeds :: "vertex_id \<Rightarrow> bool"
  replay_succeeds :: "vertex_id \<Rightarrow> vertex_id \<Rightarrow> bool"
  coordinator_answers :: "(rpc \<times> rpc) option"

datatype recovery_outcome = RUNNING | REBUILDING | NEEDS_BOOTSTRAP | TERMINAL | UNRECOVERABLE

datatype recovery_action = Bootstrap vertex_id | Replay vertex_id vertex_id

definition recover_alive_vertex :: "recovery_answers \<Rightarrow> execution_vertex \<Rightarrow> recovery_outcome" where
  "recover_alive_vertex ra v =
     (case is_running ra (ev_id v) of
        Unavailable \<Rightarrow> REBUILDING
      | CallFailed \<Rightarrow> UNRECOVERABLE
      | Answer True \<Rightarrow> RUNNING
      | Answer False \<Rightarrow> NEEDS_BOOTSTRAP)"

definition recover_vertex :: "recovery_answers \<Rightarrow> execution_vertex \<Rightarrow> recovery_outcome" where
  "recover_vertex ra v =
     (if ev_status v = V_FAILED then UNRECOVERABLE
      else if ev_status v = V_CREATED then UNRECOVERABLE
      else if status_terminal (ev_status v) then TERMINAL
      else if stream_task v = None then UNRECOVERABLE
      else if actor_status ra (ev_id v) = NOT_EXIST then UNRECOVERABLE
      else if actor_status ra (ev_id v) \<noteq> ALIVE then REBUILDING
      else recover_alive_vertex ra v)"

fun classify_task_recovery ::
  "recovery_answers \<Rightarrow> execution_vertex list \<Rightarrow> (execution_vertex list \<times> execution_vertex list) option" where
  "classify_task_recovery ra [] = Some ([], [])"
| "classify_task_recovery ra (v # vs) =
     (case recover_vertex ra v of
        UNRECOVERABLE \<Rightarrow> None
      | REBUILDING \<Rightarrow> map_option (\<lambda>(rebuilt, rebuilding). (rebuilt, v # rebuilding)) (classify_task_recovery ra vs)
      | NEEDS_BOOTSTRAP \<Rightarrow> map_option (\<lambda>(rebuilt, rebuilding). (v # rebuilt, rebuilding)) (classify_task_recovery ra vs)
      | _ \<Rightarrow> classify_task_recovery ra vs)"

definition requires_consistent_restore :: "(nat \<Rightarrow> operator_flags) \<Rightarrow> egraph \<Rightarrow> execution_vertex list \<Rightarrow> bool" where
  "requires_consistent_restore flags g recovering \<longleftrightarrow>
     length recovering > 1 \<or>
     (\<exists>v \<in> set (all_execution_vertices g). of_stateful (flags (ev_operator v)) \<or> of_transactional_sink (flags (ev_operator v))) \<or>
     of_source (flags (ev_operator (hd recovering)))"

definition all_nonterminal_tasks_running :: "recovery_answers \<Rightarrow> egraph \<Rightarrow> bool" where
  "all_nonterminal_tasks_running ra g \<longleftrightarrow>
     (\<forall>v \<in> set (all_execution_vertices g). ev_status v = V_FINISHED \<or>
        ev_status v = V_RUNNING \<and> stream_task v \<noteq> None \<and> actor_status ra (ev_id v) = ALIVE \<and> is_running ra (ev_id v) = Answer True)"

definition marked_for_rescale :: "egraph \<Rightarrow> bool" where
  "marked_for_rescale g \<longleftrightarrow> (\<exists>v \<in> set (all_execution_vertices g). restore_operation_id v \<noteq> None)"

definition operator_rescale_recovery_fenced :: "recovery_answers \<Rightarrow> egraph \<Rightarrow> bool" where
  "operator_rescale_recovery_fenced ra g =
     (case coordinator_answers ra of
        Some (Answer True, _) \<Rightarrow> marked_for_rescale g
      | Some (Answer False, Answer fenced) \<Rightarrow> fenced
      | _ \<Rightarrow> marked_for_rescale g)"

definition map_vertices :: "(execution_vertex \<Rightarrow> execution_vertex) \<Rightarrow> egraph \<Rightarrow> egraph" where
  "map_vertices f g = g\<lparr>job_vertices :=
     map (\<lambda>(i, jv). (i, jv\<lparr>execution_vertices := map (\<lambda>(j, v). (j, f v)) (execution_vertices jv)\<rparr>)) (job_vertices g)\<rparr>"

definition clear_restore_identities :: "egraph \<Rightarrow> egraph" where
  "clear_restore_identities g = map_vertices (\<lambda>v. v\<lparr>restore_operation_id := None\<rparr>) g"

text \<open>Whether the replay buffer is on is a configuration value; a graph without vertices counts as on.\<close>

definition task_recovery_preflight ::
  "recovery_answers \<Rightarrow> bool \<Rightarrow> string option \<Rightarrow> egraph \<Rightarrow> egraph \<times> bool option" where
  "task_recovery_preflight ra replay_enabled forced g =
     (if forced \<noteq> None then (g, Some False)
      else if \<not> (all_execution_vertices g = [] \<or> replay_enabled) then (g, Some (all_nonterminal_tasks_running ra g))
      else if operator_rescale_recovery_fenced ra g then (g, Some (all_nonterminal_tasks_running ra g))
      else (clear_restore_identities g, None))"

text \<open>Upstream subtasks of a vertex, in edge order.\<close>

definition upstreams_of :: "egraph \<Rightarrow> vertex_id \<Rightarrow> vertex_id list" where
  "upstreams_of g v =
     map fst (filter (\<lambda>(_, w). w = v) (concat (map execution_edges (in_edges g (job_vertex_id v)))))"

fun replay_from :: "recovery_answers \<Rightarrow> egraph \<Rightarrow> vertex_id \<Rightarrow> vertex_id list \<Rightarrow> recovery_action list \<times> bool" where
  "replay_from ra g v [] = ([], True)"
| "replay_from ra g v (u # us) =
     (case find_execution_vertex g u of
        None \<Rightarrow> ([], False)
      | Some x \<Rightarrow>
          if stream_task x = None \<or> status_later ra u \<noteq> ALIVE \<or> running_later ra u \<noteq> Answer True \<or> \<not> replay_succeeds ra u v
          then ([], False)
          else case replay_from ra g v us of (acts, ok) \<Rightarrow> (Replay u v # acts, ok))"

definition replay_upstreams_to :: "recovery_answers \<Rightarrow> egraph \<Rightarrow> vertex_id \<Rightarrow> recovery_action list \<times> bool" where
  "replay_upstreams_to ra g v = replay_from ra g v (upstreams_of g v)"

fun bootstrap_all :: "recovery_answers \<Rightarrow> egraph \<Rightarrow> execution_vertex list \<Rightarrow> recovery_action list \<times> bool" where
  "bootstrap_all ra g [] = ([], True)"
| "bootstrap_all ra g (v # vs) =
     (if \<not> bootstrap_succeeds ra (ev_id v) then ([], False)
      else
        case replay_upstreams_to ra g (ev_id v) of
          (acts, False) \<Rightarrow> (Bootstrap (ev_id v) # acts, False)
        | (acts, True) \<Rightarrow> (case bootstrap_all ra g vs of (acts', ok) \<Rightarrow> (Bootstrap (ev_id v) # acts @ acts', ok)))"

text \<open>The graph, the bootstraps and replays that succeeded, and the verdict.\<close>

definition try_recover_tasks ::
  "(nat \<Rightarrow> operator_flags) \<Rightarrow> recovery_answers \<Rightarrow> bool \<Rightarrow> string option \<Rightarrow> egraph \<Rightarrow> egraph \<times> recovery_action list \<times> bool" where
  "try_recover_tasks flags ra replay_enabled forced g =
     (case task_recovery_preflight ra replay_enabled forced g of
        (g1, Some verdict) \<Rightarrow> (g1, [], verdict)
      | (g1, None) \<Rightarrow>
          (case classify_task_recovery ra (all_execution_vertices g1) of
             None \<Rightarrow> (g1, [], False)
           | Some (rebuilt, rebuilding) \<Rightarrow>
               (let recovering = rebuilt @ rebuilding
                in if recovering \<noteq> [] \<and> requires_consistent_restore flags g1 recovering then (g1, [], False)
                   else case bootstrap_all ra g1 rebuilt of (acts, ok) \<Rightarrow> (g1, acts, ok))))"

subsection \<open>Supervisor\<close>

datatype restart_status = SUCCESS | FAILED | SUPPRESSED

text \<open>
  One pass of the restart loop: whether a stop was requested, the clock, and how the scheduler call goes if it is
  not suppressed: the job is rescheduled, the call raises or returns a failure, it times out while it runs, or it is cancelled before it started.
\<close>

datatype restart_course = Reschedules | RaisesOrFails | TimesOut | NeverStarts

record restart_pass =
  stop_requested :: bool
  pass_time :: int
  course :: restart_course

definition master_restart :: "restart_pass \<Rightarrow> restart_strategy \<Rightarrow> restart_strategy \<times> restart_status" where
  "master_restart x s =
     (if course x = NeverStarts then (s, FAILED)
      else
        case record_and_should_suppress (pass_time x) s of
          (s1, suppress, _) \<Rightarrow>
            (let s2 = fst (window_view (pass_time x) s1)
             in (s2, if suppress then SUPPRESSED else if course x = Reschedules then SUCCESS else FAILED)))"

datatype restart_end = StopRequested | Restarted | FailedPermanently

text \<open>\<open>None\<close> when the passes given are not enough for the loop to end.\<close>

fun restart_loop :: "restart_pass list \<Rightarrow> restart_strategy \<Rightarrow> restart_strategy \<times> restart_end option" where
  "restart_loop [] s = (s, None)"
| "restart_loop (x # xs) s =
     (if stop_requested x then (s, Some StopRequested)
      else
        case master_restart x s of
          (s1, SUCCESS) \<Rightarrow> (s1, Some Restarted)
        | (s1, SUPPRESSED) \<Rightarrow> (s1, Some FailedPermanently)
        | (s1, FAILED) \<Rightarrow> restart_loop xs s1)"

text \<open>One tick; a probe that fails counts as unhealthy and a task recovery that raises as unsuccessful.\<close>

datatype tick_end = Slept | GlobalRestart "restart_end option"

definition tick :: "bool option \<Rightarrow> bool option \<Rightarrow> restart_pass list \<Rightarrow> restart_strategy \<Rightarrow> restart_strategy \<times> tick_end" where
  "tick healthy recovered passes s =
     (if healthy = Some True then (s, Slept)
      else if recovered = Some True then (s, Slept)
      else case restart_loop passes s of (s1, r) \<Rightarrow> (s1, GlobalRestart r))"

subsection \<open>The restart window\<close>

text \<open>A history of recorded restarts (True) and views of the window (False) with their times.\<close>

definition after_history :: "(bool \<times> int) list \<Rightarrow> restart_strategy \<Rightarrow> restart_strategy" where
  "after_history h s = fold (\<lambda>(rec, t) s. if rec then fst (record_and_should_suppress t s) else fst (window_view t s)) h s"

definition restarts :: "(bool \<times> int) list \<Rightarrow> int list" where
  "restarts h = map snd (filter fst h)"

lemma dropWhile_sorted: "sorted xs \<Longrightarrow> dropWhile (\<lambda>t. of_int t < (b :: rat)) xs = filter (\<lambda>t. b \<le> of_int t) xs"
proof (induction xs)
  case (Cons x xs)
  have "filter (\<lambda>t. b \<le> of_int t) xs = xs" if "b \<le> of_int x"
  proof (rule filter_True)
    show "\<forall>t \<in> set xs. b \<le> of_int t" using Cons.prems that by (auto intro: order_trans)
  qed
  then show ?case using Cons by (auto simp: not_less)
qed simp

lemma dropWhile_filter_le:
  assumes "sorted xs" "a \<le> b"
  shows "dropWhile (\<lambda>t. of_int t < (b :: rat)) (filter (\<lambda>t. a \<le> of_int t) xs) = filter (\<lambda>t. b \<le> of_int t) xs"
proof -
  have "sorted (filter (\<lambda>t. a \<le> of_int t) xs)" using assms(1) by (simp add: sorted_wrt_filter)
  then show ?thesis using assms(2) by (auto simp: dropWhile_sorted intro!: filter_cong)
qed

lemma strategy_settings [simp]:
  "count_interval (after_history h s) = count_interval s" "max_attempts (after_history h s) = max_attempts s"
  by (induction h arbitrary: s) (auto simp: after_history_def record_and_should_suppress_def window_view_def prune_window_def Let_def)

lemma after_history_snoc:
  "after_history (h @ [(rec, t)]) s =
     (let s1 = prune_window t (after_history h s) in if rec then s1\<lparr>window := window s1 @ [t]\<rparr> else s1)"
  by (simp add: after_history_def record_and_should_suppress_def window_view_def Let_def)

lemma window_after_history:
  assumes "window s = []" "sorted (map snd h @ [now])" "0 < count_interval s"
  shows "window (prune_window now (after_history h s)) = filter (\<lambda>t. of_int now - count_interval s \<le> of_int t) (restarts h)"
  using assms(2)
proof (induction h arbitrary: now rule: rev_induct)
  case Nil
  then show ?case using assms(1) by (simp add: prune_window_def after_history_def restarts_def)
next
  case (snoc x h)
  obtain rec t where x: "x = (rec, t)" by (cases x)
  have st: "sorted (map snd h @ [t])" "t \<le> now" "sorted (restarts h)"
    using snoc.prems x by (auto simp: sorted_append restarts_def sorted_map sorted_wrt_filter)
  note ih = snoc.IH [OF st(1)]
  have le: "of_int t - count_interval s \<le> of_int now - count_interval s" using st(2) by simp
  let ?w = "filter (\<lambda>u. of_int t - count_interval s \<le> of_int u) (restarts h)"
  have sw: "sorted (restarts (h @ [x]))" using snoc.prems x by (auto simp: sorted_append restarts_def sorted_map sorted_wrt_filter)
  have "window (after_history (h @ [x]) s) = filter (\<lambda>u. of_int t - count_interval s \<le> of_int u) (restarts (h @ [x]))"
    using ih assms(3) by (simp add: x after_history_snoc Let_def restarts_def)
  then show ?case using dropWhile_filter_le [OF sw le] by (simp add: prune_window_def)
qed

text \<open>
  For a strategy made by the constructor and any history of recorded restarts and views at non-decreasing times: recording a
  restart reports exactly the restarts of the history within the interval before now, plus this one, and suppresses it
  exactly when they are more than the limit.
\<close>

theorem restart_window_exact:
  assumes "make_restart_strategy attempts interval delay = Inr s" "sorted (map snd h @ [now])"
    and "record_and_should_suppress now (after_history h s) = (s', suppress, n)"
  shows "n = length (filter (\<lambda>t. of_int now - count_interval s \<le> of_int t) (restarts h)) + 1 \<and> suppress = (int n > max_attempts s)"
proof -
  have "window s = []" "0 < count_interval s"
    using assms(1) by (auto simp: make_restart_strategy_def result_simps split: if_splits)
  from window_after_history [OF this(1) assms(2) this(2)] assms(3) show ?thesis
    by (auto simp: record_and_should_suppress_def Let_def) (simp_all add: prune_window_def)
qed

theorem restart_window_exact_witness:
  "\<exists>s s'. make_restart_strategy (PInt 2) (PInt 10) (PInt 1) = Inr s \<and>
    record_and_should_suppress 25 (after_history [(True, 1), (True, 16), (False, 18), (True, 20)] s) = (s', True, 3)"
proof -
  obtain s where s: "make_restart_strategy (PInt 2) (PInt 10) (PInt 1) = Inr s" "count_interval s = 10" "max_attempts s = 2"
    by (auto simp: make_restart_strategy_def as_real_def)
  obtain s' sup n where r: "record_and_should_suppress 25 (after_history [(True, 1), (True, 16), (False, 18), (True, 20)] s) = (s', sup, n)"
    by (metis surj_pair)
  from restart_window_exact [OF s(1) _ r] s(2,3) have "n = 3" "sup" by (simp_all add: restarts_def)
  then show ?thesis using s(1) r by (intro exI [of _ s] exI [of _ s']) simp
qed

subsection \<open>The restart loop gives up\<close>

lemma prune_keeps_recent:
  assumes "window s = old @ recent" "\<forall>t \<in> set recent. of_int now - count_interval s \<le> of_int t"
  shows "\<exists>old'. window (prune_window now s) = old' @ recent"
proof (cases "\<exists>t \<in> set old. \<not> of_int t < of_int now - count_interval s")
  case True
  then show ?thesis using assms(1) by (auto simp: prune_window_def dropWhile_append1)
next
  case False
  have "dropWhile (\<lambda>t. of_int t < of_int now - count_interval s) recent = recent"
    using assms(2) by (cases recent) (auto simp: not_less)
  then show ?thesis using assms(1) False by (auto simp: prune_window_def dropWhile_append2)
qed

text \<open>A pass that neither stops nor succeeds and whose restart is counted.\<close>

definition failing_pass :: "restart_pass \<Rightarrow> bool" where
  "failing_pass x \<longleftrightarrow> \<not> stop_requested x \<and> course x \<in> {RaisesOrFails, TimesOut}"

lemma restart_loop_suppressed:
  assumes "window s = old @ recent" "\<forall>x \<in> set xs. failing_pass x" "max_attempts s < int (length recent + length xs)" "xs \<noteq> []"
    "\<forall>t \<in> set recent. \<forall>x \<in> set xs. of_int (pass_time x) - count_interval s \<le> of_int t"
    "\<forall>x \<in> set xs. \<forall>y \<in> set xs. of_int (pass_time y) - count_interval s \<le> of_int (pass_time x)"
  shows "snd (restart_loop xs s) = Some FailedPermanently"
  using assms
proof (induction xs arbitrary: s old recent)
  case (Cons x xs)
  let ?s1 = "fst (record_and_should_suppress (pass_time x) s)"
  obtain old1 where p1: "window (prune_window (pass_time x) s) = old1 @ recent"
    using prune_keeps_recent [OF Cons.prems(1), of "pass_time x"] Cons.prems(5) by auto
  have w1: "window ?s1 = old1 @ recent @ [pass_time x]" "count_interval ?s1 = count_interval s" "max_attempts ?s1 = max_attempts s"
    using p1 by (simp_all add: record_and_should_suppress_def Let_def) (simp_all add: prune_window_def)
  obtain old2 where p2: "window (prune_window (pass_time x) ?s1) = old2 @ recent @ [pass_time x]"
    using prune_keeps_recent [OF w1(1), of "pass_time x"] Cons.prems(5,6) w1(2) by auto
  let ?s2 = "fst (window_view (pass_time x) ?s1)"
  have w2: "window ?s2 = old2 @ recent @ [pass_time x]" "count_interval ?s2 = count_interval s" "max_attempts ?s2 = max_attempts s"
    using p2 w1(2,3) by (simp_all add: window_view_def Let_def) (simp_all add: prune_window_def)
  have step: "master_restart x s = (?s2, if max_attempts s < int (length (old1 @ recent) + 1) then SUPPRESSED else FAILED)"
    using Cons.prems(2) p1 by (auto simp: master_restart_def failing_pass_def record_and_should_suppress_def Let_def prune_window_def)
  show ?case
  proof (cases "max_attempts s < int (length (old1 @ recent) + 1)")
    case True
    then show ?thesis using step Cons.prems(2) by (auto simp: failing_pass_def)
  next
    case False
    have "xs \<noteq> []" using False Cons.prems(3) by auto
    moreover have "snd (restart_loop xs ?s2) = Some FailedPermanently"
    proof (rule Cons.IH [OF w2(1)])
      show "max_attempts ?s2 < int (length (recent @ [pass_time x]) + length xs)" using Cons.prems(3) w2(3) by simp
      show "\<forall>t \<in> set (recent @ [pass_time x]). \<forall>y \<in> set xs. of_int (pass_time y) - count_interval ?s2 \<le> of_int t"
        using Cons.prems(5,6) w2(2) by auto
      show "\<forall>y \<in> set xs. \<forall>z \<in> set xs. of_int (pass_time z) - count_interval ?s2 \<le> of_int (pass_time y)"
        using Cons.prems(6) w2(2) by auto
    qed (use Cons.prems(2) \<open>xs \<noteq> []\<close> in simp_all)
    ultimately show ?thesis using step False Cons.prems(2) by (auto simp: failing_pass_def)
  qed
qed simp


definition demo_strategy :: restart_strategy where
  "demo_strategy = \<lparr>max_attempts = 2, count_interval = 60, restart_delay = 1, window = []\<rparr>"

definition demo_passes :: "restart_pass list" where
  "demo_passes = map (\<lambda>(t, c). \<lparr>stop_requested = False, pass_time = t, course = c\<rparr>)
     [(100, RaisesOrFails), (110, TimesOut), (130, RaisesOrFails)]"


subsection \<open>When a single task may be recovered\<close>

definition task_fine :: "recovery_answers \<Rightarrow> execution_vertex \<Rightarrow> bool" where
  "task_fine ra v \<longleftrightarrow> recover_vertex ra v \<in> {RUNNING, TERMINAL}"

definition replayable :: "(nat \<Rightarrow> operator_flags) \<Rightarrow> recovery_answers \<Rightarrow> bool \<Rightarrow> egraph \<Rightarrow> bool" where
  "replayable flags ra replay_enabled g \<longleftrightarrow> replay_enabled \<and> \<not> operator_rescale_recovery_fenced ra g \<and>
     (\<forall>v \<in> set (all_execution_vertices g). \<not> of_stateful (flags (ev_operator v)) \<and> \<not> of_transactional_sink (flags (ev_operator v)))"

lemma classify_spec:
  "classify_task_recovery ra vs = Some (rebuilt, rebuilding) \<Longrightarrow>
     rebuilt = filter (\<lambda>v. recover_vertex ra v = NEEDS_BOOTSTRAP) vs \<and> rebuilding = filter (\<lambda>v. recover_vertex ra v = REBUILDING) vs \<and>
     (\<forall>v \<in> set vs. recover_vertex ra v \<noteq> UNRECOVERABLE)"
  by (induction vs arbitrary: rebuilt rebuilding) (auto split: recovery_outcome.splits)

lemma map_vertices_all: "all_execution_vertices (map_vertices f g) = map f (all_execution_vertices g)"
  by (simp add: all_execution_vertices_def map_vertices_def map_concat o_def case_prod_beta)

lemma cleared_vertices:
  "all_execution_vertices (clear_restore_identities g) = map (\<lambda>v. v\<lparr>restore_operation_id := None\<rparr>) (all_execution_vertices g)"
  "upstreams_of (clear_restore_identities g) = upstreams_of g"
  by (simp_all add: clear_restore_identities_def map_vertices_all) (simp add: fun_eq_iff upstreams_of_def in_edges_def map_vertices_def)

lemma recover_cleared [simp]: "recover_vertex ra (v\<lparr>restore_operation_id := r\<rparr>) = recover_vertex ra v"
  by (simp add: recover_vertex_def recover_alive_vertex_def)

lemma all_running_fine: "all_nonterminal_tasks_running ra g \<Longrightarrow> v \<in> set (all_execution_vertices g) \<Longrightarrow> task_fine ra v"
  by (fastforce simp: all_nonterminal_tasks_running_def task_fine_def recover_vertex_def recover_alive_vertex_def status_terminal_def)

lemma replay_from_complete: "replay_from ra g v us = (acts, True) \<Longrightarrow> acts = map (\<lambda>u. Replay u v) us"
  by (induction us arbitrary: acts) (auto split: option.splits if_splits prod.splits)

lemma two_filters_single:
  assumes "length (filter P xs @ filter Q xs) \<le> 1" "\<And>x. x \<in> set xs \<Longrightarrow> \<not> (P x \<and> Q x)" "filter P xs @ filter Q xs \<noteq> []"
  shows "\<exists>x. filter (\<lambda>x. P x \<or> Q x) xs = [x] \<and> (filter P xs = [x] \<and> filter Q xs = [] \<or> filter P xs = [] \<and> filter Q xs = [x])"
  using assms
proof (induction xs)
  case (Cons y ys)
  show ?case
  proof (cases "P y \<or> Q y")
    case True
    then have e: "filter P ys = []" "filter Q ys = []" using Cons.prems(1) by (auto split: if_splits)
    then have "filter (\<lambda>x. P x \<or> Q x) ys = []" by (auto simp: filter_empty_conv)
    then show ?thesis using True e Cons.prems(2) [of y] by auto
  next
    case False
    then show ?thesis using Cons by auto
  qed
qed simp

lemma recovery_single:
  assumes rec: "rebuilt @ rebuilding \<noteq> [] \<and> \<not> requires_consistent_restore flags g1 (rebuilt @ rebuilding)"
    and ws: "all_execution_vertices g1 = map (\<lambda>v. v\<lparr>restore_operation_id := None\<rparr>) (all_execution_vertices g)"
    and cl: "rebuilt = filter (\<lambda>v. recover_vertex ra v = NEEDS_BOOTSTRAP) (all_execution_vertices g1) \<and>
      rebuilding = filter (\<lambda>v. recover_vertex ra v = REBUILDING) (all_execution_vertices g1) \<and>
      (\<forall>v \<in> set (all_execution_vertices g1). recover_vertex ra v \<noteq> UNRECOVERABLE)"
    and pre: "all_execution_vertices g = [] \<or> replay_enabled" "\<not> operator_rescale_recovery_fenced ra g"
  shows "replayable flags ra replay_enabled g \<and>
    (\<exists>v. filter (\<lambda>v. \<not> task_fine ra v) (all_execution_vertices g) = [v] \<and> \<not> of_source (flags (ev_operator v)) \<and>
       (recover_vertex ra v = REBUILDING \<and> bootstrap_all ra g1 rebuilt = ([], True) \<or>
        recover_vertex ra v = NEEDS_BOOTSTRAP \<and> (snd (bootstrap_all ra g1 rebuilt) \<longrightarrow>
          fst (bootstrap_all ra g1 rebuilt) = Bootstrap (ev_id v) # map (\<lambda>u. Replay u (ev_id v)) (upstreams_of g1 (ev_id v)))))"
proof -
  let ?h = "\<lambda>v :: execution_vertex. v\<lparr>restore_operation_id := None\<rparr>" and ?ws = "all_execution_vertices g1"
  let ?P = "\<lambda>v. recover_vertex ra v = NEEDS_BOOTSTRAP" and ?Q = "\<lambda>v. recover_vertex ra v = REBUILDING"
  obtain x where x: "filter (\<lambda>v. ?P v \<or> ?Q v) ?ws = [x]" "rebuilt = [x] \<and> rebuilding = [] \<or> rebuilt = [] \<and> rebuilding = [x]"
    using two_filters_single [of ?P ?ws ?Q] rec cl by (auto simp: requires_consistent_restore_def not_less)
  have src: "\<not> of_source (flags (ev_operator x))" "\<forall>v \<in> set ?ws. \<not> of_stateful (flags (ev_operator v)) \<and> \<not> of_transactional_sink (flags (ev_operator v))"
    using rec x(2) by (auto simp: requires_consistent_restore_def)
  have "filter (\<lambda>v. ?P v \<or> ?Q v) ?ws = map ?h (filter (\<lambda>v. ?P v \<or> ?Q v) (all_execution_vertices g))"
    unfolding ws by (simp add: filter_map o_def)
  also have "filter (\<lambda>v. ?P v \<or> ?Q v) (all_execution_vertices g) = filter (\<lambda>v. \<not> task_fine ra v) (all_execution_vertices g)"
  proof (rule filter_cong [OF refl])
    fix v assume "v \<in> set (all_execution_vertices g)"
    then have "?h v \<in> set ?ws" using ws by simp
    then have "recover_vertex ra v \<noteq> UNRECOVERABLE" using cl by fastforce
    then show "(?P v \<or> ?Q v) = (\<not> task_fine ra v)" by (cases "recover_vertex ra v") (simp_all add: task_fine_def)
  qed
  finally obtain v where v: "filter (\<lambda>v. \<not> task_fine ra v) (all_execution_vertices g) = [v]" "x = ?h v" using x(1) by auto
  have "v \<in> set (all_execution_vertices g)" using arg_cong [OF v(1), of set] by auto
  then have rep: "replayable flags ra replay_enabled g" using pre src(2) ws by (auto simp: replayable_def)
  have out: "recover_vertex ra v = (if rebuilt = [x] then NEEDS_BOOTSTRAP else REBUILDING)"
  proof -
    have "x \<in> set rebuilt \<or> x \<in> set rebuilding" "rebuilt = [x] \<longleftrightarrow> x \<in> set rebuilt" using x(2) by auto
    then show ?thesis using cl v(2) by auto
  qed
  obtain racts rok where ru: "replay_upstreams_to ra g1 (ev_id v) = (racts, rok)" by (metis surj_pair)
  have "racts = map (\<lambda>u. Replay u (ev_id v)) (upstreams_of g1 (ev_id v))" if rok
    using ru that replay_from_complete by (auto simp: replay_upstreams_to_def)
  then have "snd (bootstrap_all ra g1 [x]) \<longrightarrow>
      fst (bootstrap_all ra g1 [x]) = Bootstrap (ev_id v) # map (\<lambda>u. Replay u (ev_id v)) (upstreams_of g1 (ev_id v))"
    using ru v(2) by (cases rok) auto
  then show ?thesis using rep v src(1) out x(2) by (intro conjI exI [of _ v]) (auto split: if_splits)
qed

text \<open>
  C17. Task recovery declares success only in these cases, and never when a global restore was demanded: every task runs or is finished, and nothing
  was done; or exactly one task is unhealthy, it is not a source, no operator of the job is stateful or a
  transactional sink, replay is enabled and no rescale fence is up, and that task is either still being rebuilt by Ray or was
  bootstrapped and then every one of its upstream subtasks replayed its buffer to it. In a job with a stateful operator or a transactional sink no task
  is ever bootstrapped.
\<close>

theorem task_recovery_sound:
  assumes "try_recover_tasks flags ra replay_enabled forced g = (g', acts, verdict)"
  shows "(verdict \<longrightarrow> forced = None \<and>
      ((\<forall>v \<in> set (all_execution_vertices g). task_fine ra v) \<and> acts = [] \<or>
       replayable flags ra replay_enabled g \<and>
       (\<exists>v. filter (\<lambda>v. \<not> task_fine ra v) (all_execution_vertices g) = [v] \<and> \<not> of_source (flags (ev_operator v)) \<and>
          (recover_vertex ra v = REBUILDING \<and> acts = [] \<or>
           recover_vertex ra v = NEEDS_BOOTSTRAP \<and> acts = Bootstrap (ev_id v) # map (\<lambda>u. Replay u (ev_id v)) (upstreams_of g (ev_id v)))))) \<and>
    (\<not> replayable flags ra replay_enabled g \<and> all_execution_vertices g \<noteq> [] \<longrightarrow> acts = [])"
proof -
  let ?vs = "all_execution_vertices g"
  show ?thesis
  proof (cases "task_recovery_preflight ra replay_enabled forced g")
    case (Pair g1 pre)
    show ?thesis
    proof (cases pre)
      case (Some x)
      then have "acts = []" "verdict = x" using assms Pair by (auto simp: try_recover_tasks_def)
      moreover have "x \<longrightarrow> forced = None \<and> all_nonterminal_tasks_running ra g"
        using Pair Some by (auto simp: task_recovery_preflight_def split: if_splits)
      ultimately show ?thesis using all_running_fine [of ra g] by blast
    next
      case None
      have pre: "forced = None" "?vs = [] \<or> replay_enabled" "\<not> operator_rescale_recovery_fenced ra g" "g1 = clear_restore_identities g"
        using Pair None by (auto simp: task_recovery_preflight_def split: if_splits)
      let ?ws = "all_execution_vertices g1"
      have ws: "?ws = map (\<lambda>v. v\<lparr>restore_operation_id := None\<rparr>) ?vs" using cleared_vertices(1) pre(4) by simp
      show ?thesis
      proof (cases "classify_task_recovery ra ?ws")
        case unrec: None
        then have "acts = [] \<and> \<not> verdict" using assms Pair None by (simp add: try_recover_tasks_def)
        then show ?thesis by blast
      next
        case (Some c)
        obtain rebuilt rebuilding where c: "c = (rebuilt, rebuilding)" by (cases c)
        note cl = classify_spec [OF Some [unfolded c]]
        let ?rec = "rebuilt @ rebuilding"
        have res: "(g', acts, verdict) = (if ?rec \<noteq> [] \<and> requires_consistent_restore flags g1 ?rec then (g1, [], False)
            else (g1, bootstrap_all ra g1 rebuilt))"
          using assms Pair None Some c by (cases "bootstrap_all ra g1 rebuilt") (auto simp: try_recover_tasks_def Let_def)
        show ?thesis
        proof (cases "?rec \<noteq> [] \<and> \<not> requires_consistent_restore flags g1 ?rec")
          case True
          have b: "bootstrap_all ra g1 rebuilt = (acts, verdict)" using res True by auto
          have ups: "upstreams_of g1 = upstreams_of g" by (simp add: pre(4) cleared_vertices(2))
          obtain v where v: "replayable flags ra replay_enabled g" "filter (\<lambda>v. \<not> task_fine ra v) ?vs = [v]" "\<not> of_source (flags (ev_operator v))"
            "recover_vertex ra v = REBUILDING \<and> acts = [] \<or> recover_vertex ra v = NEEDS_BOOTSTRAP \<and>
              (verdict \<longrightarrow> acts = Bootstrap (ev_id v) # map (\<lambda>u. Replay u (ev_id v)) (upstreams_of g (ev_id v)))"
            using recovery_single [OF True ws cl pre(2,3)] unfolding b ups by auto
          show ?thesis
          proof (intro conjI impI)
            assume verdict
            show "forced = None" by (rule pre(1))
            show "(\<forall>v \<in> set ?vs. task_fine ra v) \<and> acts = [] \<or> replayable flags ra replay_enabled g \<and>
              (\<exists>v. filter (\<lambda>v. \<not> task_fine ra v) ?vs = [v] \<and> \<not> of_source (flags (ev_operator v)) \<and>
                (recover_vertex ra v = REBUILDING \<and> acts = [] \<or>
                 recover_vertex ra v = NEEDS_BOOTSTRAP \<and> acts = Bootstrap (ev_id v) # map (\<lambda>u. Replay u (ev_id v)) (upstreams_of g (ev_id v))))"
              using v \<open>verdict\<close> by blast
          qed (use v(1) in simp)
        next
          case False
          show ?thesis
          proof (cases "?rec = []")
            case True
            have "task_fine ra v" if "v \<in> set ?vs" for v
            proof -
              let ?w = "v\<lparr>restore_operation_id := None\<rparr>"
              have "?w \<in> set ?ws" using that ws by simp
              then have "recover_vertex ra ?w \<notin> {NEEDS_BOOTSTRAP, REBUILDING, UNRECOVERABLE}" using cl True by (auto simp: filter_empty_conv)
              then show ?thesis by (cases "recover_vertex ra v") (auto simp: task_fine_def)
            qed
            moreover have "acts = []" using True res by simp
            ultimately show ?thesis using pre(1) by blast
          qed (use False res in auto)
        qed
      qed
    qed
  qed
qed

text \<open>
  The sink of a stateless two-by-two job lost its second actor, which Ray rebuilt: it is bootstrapped and both sources replay. In the same job
  with a stateful operator the verdict is a global restore.
\<close>

definition demo_running :: egraph where
  "demo_running = map_vertices (\<lambda>v. v\<lparr>ev_status := V_RUNNING, stream_task := Some 0\<rparr>) demo_shuffle"

definition demo_lost :: vertex_id where
  "demo_lost = \<lparr>job_vertex_id = 1, vertex_index = 1\<rparr>"

definition demo_answers :: recovery_answers where
  "demo_answers = \<lparr>actor_status = (\<lambda>_. ALIVE), is_running = (\<lambda>v. Answer (v \<noteq> demo_lost)), status_later = (\<lambda>_. ALIVE),
     running_later = (\<lambda>_. Answer True), bootstrap_succeeds = (\<lambda>_. True), replay_succeeds = (\<lambda>_ _. True),
     coordinator_answers = Some (Answer False, Answer False)\<rparr>"

definition demo_flags :: "bool \<Rightarrow> nat \<Rightarrow> operator_flags" where
  "demo_flags stateful n = \<lparr>of_stateful = stateful, of_transactional_sink = False, of_source = False\<rparr>"

theorem task_recovery_sound_witness:
  "(\<exists>g' acts. try_recover_tasks (demo_flags False) demo_answers True None demo_running = (g', acts, True) \<and>
      acts = [Bootstrap demo_lost, Replay \<lparr>job_vertex_id = 0, vertex_index = 0\<rparr> demo_lost, Replay \<lparr>job_vertex_id = 0, vertex_index = 1\<rparr> demo_lost] \<and>
      replayable (demo_flags False) demo_answers True demo_running) \<and>
   (\<exists>g'. try_recover_tasks (demo_flags True) demo_answers True None demo_running = (g', [], False))"
proof -
  have r: "snd (try_recover_tasks (demo_flags False) demo_answers True None demo_running) =
      ([Bootstrap demo_lost, Replay \<lparr>job_vertex_id = 0, vertex_index = 0\<rparr> demo_lost, Replay \<lparr>job_vertex_id = 0, vertex_index = 1\<rparr> demo_lost], True)"
    "snd (try_recover_tasks (demo_flags True) demo_answers True None demo_running) = ([], False)" by code_simp+
  obtain g1 g2 where g: "try_recover_tasks (demo_flags False) demo_answers True None demo_running = (g1,
      [Bootstrap demo_lost, Replay \<lparr>job_vertex_id = 0, vertex_index = 0\<rparr> demo_lost, Replay \<lparr>job_vertex_id = 0, vertex_index = 1\<rparr> demo_lost], True)"
    "try_recover_tasks (demo_flags True) demo_answers True None demo_running = (g2, [], False)"
    using r by (metis prod.collapse)
  have "replayable (demo_flags False) demo_answers True demo_running" using task_recovery_sound [OF g(1)] by blast
  then show ?thesis using g by blast
qed

end
