(* ===== verification/Spec2Isabelle.thy ===== *)
theory Spec2Isabelle
  imports RecordRouting WatermarkTracking WeightedInbox Delivery ReplayWatermarks BarrierAlignment
    CheckpointEpochs StateRescale Rescaling CoordinatorAdmission IntervalJoin ManagedSnapshot
PlacementOwnership AsyncRunner Failover
begin

text \<open>
  Verification of Klein (\<^verbatim>\<open>src/src/ray/klein\<close>), a stateful stream processor that runs dataflow
  jobs on Ray actors. Paths below are relative to that directory.

  \<^bold>\<open>The program.\<close> A job is a graph of operators, each run by parallel subtasks. Records travel on
  channels chosen by partitioners; watermarks carry event time; checkpoint barriers cut the stream
  into epochs. A coordinator collects the acknowledgements of an epoch, the positions of its sources,
  operator snapshots and prepared sink transactions, writes them as one manifest and commits the
  transactions. Keyed state is split into key groups so that it can follow a change of parallelism.

  \<^bold>\<open>The development\<close>, bottom up:
  \<^item> \<open>Prelude\<close>: Python exceptions as values, results, dictionaries in insertion order, the rule
    collections and the lemmas the components share. \<open>Bytes\<close>: byte strings and big-endian integers.
  \<^item> \<open>KeyGroups\<close> (\<^verbatim>\<open>state/key_group_range.py\<close>): ranges of key groups and their owners; the ranges
    partition all groups and agree with routing.
  \<^item> \<open>Messages\<close> (\<^verbatim>\<open>runtime/message.py\<close>, \<^verbatim>\<open>_internal/block.py\<close>): records, controls, barriers, blocks.
  \<^item> \<open>Partitioning\<close>, \<open>RecordRouting\<close> (\<^verbatim>\<open>runtime/partitioning\<close>, \<^verbatim>\<open>runtime/collector/record_router.py\<close>):
    every partitioner interprets the locale \<open>routing_policy\<close>, from which the router's results follow:
    no row is lost or misrouted, row-wise and columnar routing agree.
  \<^item> \<open>WatermarkTracking\<close> (\<^verbatim>\<open>runtime/event_time/input_watermark_tracker.py\<close>): refinement of the
    specification \<^emph>\<open>minimum over the active inputs, never decreasing\<close>.
  \<^item> \<open>WeightedInbox\<close> (\<^verbatim>\<open>runtime/worker/weighted_queue.py\<close>, \<^verbatim>\<open>pump.py\<close>): capacity, order, progress;
    the pump's byte reservations interpret the locale \<open>byte_reservation\<close>.
  \<^item> \<open>Delivery\<close> (\<^verbatim>\<open>runtime/collector\<close>): the replay journal holds exactly what is not confirmed, a batch
    lands at one target, batching conserves records. \<open>ReplayWatermarks\<close>
    (\<^verbatim>\<open>runtime/worker/watermark.py\<close>, \<^verbatim>\<open>emit_pipeline.py\<close>): a batch is confirmed only after
    everything derived from it has left the task.
  \<^item> \<open>BarrierAlignment\<close> (\<^verbatim>\<open>runtime/coordinator/checkpoint_strategy.py\<close>): a barrier aligns exactly
    when every input lane has delivered it or ended; aligned epochs increase.
  \<^item> \<open>CheckpointEpochs\<close> (\<^verbatim>\<open>barrier_id_generator.py\<close>, \<^verbatim>\<open>checkpoint.py\<close>, \<^verbatim>\<open>checkpoint_trigger.py\<close>):
    ids across restarts, acknowledgement counting, triggers.
  \<^item> \<open>StateCodec\<close>, \<open>StateBackend\<close>, \<open>StateRescale\<close> (\<^verbatim>\<open>state/state_codec.py\<close>,
    \<^verbatim>\<open>state/memory_state_backend.py\<close>): byte formats, reads after writes, expiry, timers, and the
    round trip of key-group snapshots; its three tables interpret the locale \<open>table_slot\<close>.
  \<^item> \<open>ExecutionGraph\<close>, \<open>GraphOrder\<close>, \<open>BarrierCounts\<close>, \<open>CheckpointDomains\<close>
    (\<^verbatim>\<open>runtime/execution_graph\<close>): expansion, topological order (termination by the number of open
    inputs), barrier counts, connected components (termination by the number of unseen vertices).
    \<open>Rescaling\<close> (\<^verbatim>\<open>execution_graph.py\<close>, \<^verbatim>\<open>scheduler/rescale_plan.py\<close>,
    \<^verbatim>\<open>job_manager/rescale_operation.py\<close>): a plan changes one operator and keeps the other actors.
  \<^item> \<open>SinkCommittables\<close> (\<^verbatim>\<open>runtime/coordinator/sink_committable_coalescer.py\<close>): merging the
    transactions of parallel writers changes no data.
  \<^item> \<open>Coordinator\<close>, \<open>CoordinatorCommit\<close>, \<open>CoordinatorLifecycle\<close>, \<open>CoordinatorRuns\<close>
    (\<^verbatim>\<open>runtime/coordinator/checkpoint_coordinator.py\<close>): the coordinator's state and handlers, cut at
    their suspension points, and their interleavings.
  \<^item> \<open>SinkAccounting\<close>, \<open>CommitDurability\<close>, \<open>ActiveEpochs\<close>, \<open>CoordinatorAdmission\<close>: properties of all these
    interleavings: no registered sink write is lost, writes are committed only after a manifest that
    covers them is durable, a domain has at most one live checkpoint, the admitted participants are exact.
  \<^item> \<open>KeyedState\<close>, \<open>StateNamespaces\<close> (\<^verbatim>\<open>state/*_state.py\<close>, \<^verbatim>\<open>state/timer_service.py\<close>,
    \<^verbatim>\<open>runtime/operator/managed_state_operator.py\<close>): state handles, timers and the skeleton of keyed
    operators over the locale \<open>managed_store\<close> and its extensions \<open>enumerable_store\<close> and
    \<open>paired_store\<close>, all interpreted on the in-memory backend.
  \<^item> \<open>Windows\<close> (\<^verbatim>\<open>api/*_window.py\<close>, \<^verbatim>\<open>runtime/operator/window_operator.py\<close>): the assigners return the
    windows of their grid; every tumbling or sliding window is emitted once and complete.
    \<open>IntervalJoin\<close> (\<^verbatim>\<open>runtime/operator/interval_join_operator.py\<close>): each matching pair is joined once.
  \<^item> \<open>ManagedSnapshot\<close> (\<^verbatim>\<open>state/managed_state_snapshot.py\<close>): envelopes of keyed state; restoring from all old
    envelopes and repartitioning them first give the same key groups and watermark. \<open>ExampleCodecs\<close> holds the
    integer and list codecs of the examples.
  \<^item> \<open>NodeAssignment\<close> (\<^verbatim>\<open>runtime/scheduler/assignment.py\<close>, \<^verbatim>\<open>placement.py\<close>): round-robin pins
    respect the capacity of every node, at deployment and during a rescale.
  \<^item> \<open>Placement\<close>, \<open>PlacementOwnership\<close> (\<^verbatim>\<open>runtime/scheduler/placement.py\<close>, \<^verbatim>\<open>job_master.py\<close>,
    \<^verbatim>\<open>task_deployer.py\<close>): plans and transitions as objects in explicit stores; whatever Ray refuses, no
    placement group is lost or removed twice, and a stop releases all of them once Ray answers.
  \<^item> \<open>AsyncRunner\<close> (\<^verbatim>\<open>runtime/worker/async_ordered_runner.py\<close>): requests run concurrently within a bound and are emitted in
    submission order under every interleaving.
  \<^item> \<open>Failover\<close> (\<^verbatim>\<open>runtime/scheduler/restart_strategy.py\<close>, \<^verbatim>\<open>recovery_manager.py\<close>,
    \<^verbatim>\<open>runtime/job_manager/failover_supervisor.py\<close>): the restart window, when a single task may be recovered, and that the
    restart loop of a failing job ends.

  \<^bold>\<open>Conventions.\<close> Integers are unbounded as in Python; times and resource amounts are rationals, so
  rounding of floats is not modelled. Loops are recursive functions with termination proofs; no fuel
  is used. A blocking wait is a result \<open>None\<close>, an exception a value of \<open>py_error\<close>. Code outside the
  repository (pickle, hash functions, remote calls, file systems, clocks, user functions, connectors)
  is a parameter; what is assumed of it is a named hypothesis such as \<open>codec_ok\<close> or \<open>sink_contract\<close>.
  Every property that has a hypothesis is followed by a witness on concrete data.

  \<^bold>\<open>Not modelled.\<close> The Ray actors around these components (stream tasks, the rest of job master and job manager)
  with their remote calls and supervision, checkpoint files, RocksDB and object-store backends, the
  DataStream API and logical graph, the SQL front end, connectors, configuration, metrics, dashboard
  and command line: they are glue to external systems, or planned for later.
\<close>

end
